(* ===== verification/Prelude.thy ===== *)
theory Prelude
  imports Main "HOL-Library.Word"
begin

text \<open>
  Shared vocabulary of the development: the machine types of \<^verbatim>\<open>src/core/type.h\<close>, the
  schedule that decides which allocations of \<^verbatim>\<open>src/core/new.cpp\<close> succeed, the way failed
  assertions are represented, and generic facts about lists that several components use.

  \<^item> \<open>size_t\<close>, \<open>uint64_t\<close> and \<open>unsigned long\<close> are 64-bit words, \<open>unsigned int\<close> a 32-bit
    word, \<open>unsigned char\<close> an 8-bit word.
  \<^item> Every \<^verbatim>\<open>new\<close> may fail. A model that allocates takes a \<open>mem\<close>, the outcomes of its
    allocations in order; when the list is used up every further allocation succeeds. Theorems
    quantify over all schedules.
  \<^item> \<^verbatim>\<open>panic(c)\<close> (\<^verbatim>\<open>src/core/bug.h\<close>) stops the machine in a debug build. A model that reaches
    it returns \<open>None\<close>, and the theorems show that well-formed states never do.
\<close>

type_synonym size_t = "64 word"
type_synonym uint64_t = "64 word"
type_synonym uint32_t = "32 word"
type_synonym byte_t = "8 word"
type_synonym bytes = "byte_t list"

named_theorems field_simps_model \<open>unfoldings of record-level helper operations\<close>
named_theorems wf_intros \<open>introduction rules for well-formedness invariants\<close>


section \<open>Allocation\<close>

type_synonym mem = "bool list"

fun new :: "mem \<Rightarrow> bool \<times> mem" where
  "new [] = (True, [])"
| "new (ok # m) = (ok, m)"

text \<open>
  \<^verbatim>\<open>MakeShared\<close> allocates the reference block first and the object second; either failure
  gives a null pointer. (Its clients are modelled as in a release build here; a debug build stops at the second
  failure, as the model of the shared pointers shows.)
\<close>

definition MakeShared :: "mem \<Rightarrow> bool \<times> mem" where
  "MakeShared m = (let (ok1, m1) = new m in if ok1 then new m1 else (False, m1))"

lemma new_Nil_ok [simp]: "MakeShared [] = (True, [])"
  by (simp add: MakeShared_def)


text \<open>A schedule without a failure.\<close>

lemma new_good: "False \<notin> set m \<Longrightarrow> \<exists>m'. new m = (True, m') \<and> set m' \<subseteq> set m"
  by (cases m rule: new.cases) auto

lemma MakeShared_good:
  assumes "False \<notin> set m"
  shows "\<exists>m'. MakeShared m = (True, m') \<and> set m' \<subseteq> set m"
proof -
  obtain m1 where m1: "new m = (True, m1)" "set m1 \<subseteq> set m" using new_good [OF assms] by blast
  then obtain m2 where "new m1 = (True, m2)" "set m2 \<subseteq> set m1" using new_good [of m1] assms by blast
  then show ?thesis using m1 by (auto simp: MakeShared_def)
qed


section \<open>Assertions\<close>

text \<open>\<open>guard ok x\<close> continues with \<open>x\<close> unless the assertion failed.\<close>

definition guard :: "bool \<Rightarrow> 'a option \<Rightarrow> 'a option" where
  "guard ok x = (if ok then x else None)"

lemma guard_True [simp]: "guard True x = x"
  by (simp add: guard_def)

lemma guard_False [simp]: "guard False x = None"
  by (simp add: guard_def)

lemma guard_eq_Some [simp]: "guard ok x = Some y \<longleftrightarrow> ok \<and> x = Some y"
  by (simp add: guard_def)


section \<open>Lists\<close>

lemma take_update_same [simp]: "n \<le> i \<Longrightarrow> take n (xs[i := x]) = take n xs"
  by (simp add: take_update_swap list_update_beyond)

lemma map_filter_set_cong:
  "(\<And>x. x \<in> set xs \<Longrightarrow> P x \<longleftrightarrow> Q x) \<Longrightarrow> filter P xs = filter Q xs"
  by (rule filter_cong) simp_all

lemma nth_append_left [simp]: "i < length xs \<Longrightarrow> (xs @ ys) ! i = xs ! i"
  by (simp add: nth_append)



section \<open>64-bit words\<close>

lemma unat_lt_64: "unat (x::64 word) < 18446744073709551616"
  using unsigned_less [of x, where ?'a = nat] by simp

lemma unat_inc: "(x::64 word) < y \<Longrightarrow> unat (x + 1) = unat x + 1"
  using unat_lt_64 [of y] by (simp add: word_less_nat_alt unat_word_ariths)

lemma unat_inc_mod:
  assumes "(x::64 word) < c"
  shows "unat ((x + 1) mod c) = (unat x + 1) mod unat c"
  using unat_inc [OF assms] by (simp add: unat_mod)

lemma unat_of_nat_32: "n < 4294967296 \<Longrightarrow> unat (of_nat n :: uint32_t) = n"
  by (simp add: unat_of_nat)

lemma unat_lt_32: "unat (x :: uint32_t) < 4294967296"
  using unsigned_less [of x, where ?'a = nat] by simp

lemma unat_of_nat_64: "n < 18446744073709551616 \<Longrightarrow> unat (of_nat n :: 64 word) = n"
  by (simp add: unat_of_nat take_bit_nat_eq_self)

end
