(* ===== verification/Btree_Node.thy ===== *)
theory Btree_Node
  imports Prelude "HOL-Library.Monad_Syntax"
begin

text \<open>
  The node class of \<^verbatim>\<open>src/core/btree.h\<close> (\<^verbatim>\<open>Core::Btree::BtreeNode\<close>): fixed arrays of keys,
  values and child pointers, a key counter and a leaf flag, and the primitive operations on
  them with their shifting loops and their assertions.

  A tree is a nest of nodes: every child pointer is owned by exactly one slot of one node, so a
  pointer is modelled by the node it owns, and an operation on a child writes the new child back
  into that slot. \<^verbatim>\<open>Memory::Move\<close> of a child pointer leaves the source slot null; keys and
  values are copied, as for the integer keys the module uses. Every function takes the minimum
  degree \<open>T\<close> (the template argument) first and returns \<open>None\<close> when the code panics.
\<close>

datatype ('k, 'v) BtreeNode = BtreeNode
  (Key: "'k list") (Value: "'v list") (Child: "('k, 'v) BtreeNode option list")
  (KeyCount: nat) (Leaf: bool) (EmptyKey: 'k) (EmptyValue: 'v)

text \<open>Writes to a member array, the counter and the flag.\<close>

fun put_Key :: "nat \<Rightarrow> 'k \<Rightarrow> ('k, 'v) BtreeNode \<Rightarrow> ('k, 'v) BtreeNode" where
  "put_Key i k (BtreeNode ks vs cs n l ek ev) = BtreeNode (ks[i := k]) vs cs n l ek ev"

fun put_Value :: "nat \<Rightarrow> 'v \<Rightarrow> ('k, 'v) BtreeNode \<Rightarrow> ('k, 'v) BtreeNode" where
  "put_Value i v (BtreeNode ks vs cs n l ek ev) = BtreeNode ks (vs[i := v]) cs n l ek ev"

fun put_Child :: "nat \<Rightarrow> ('k, 'v) BtreeNode option \<Rightarrow> ('k, 'v) BtreeNode \<Rightarrow> ('k, 'v) BtreeNode" where
  "put_Child i c (BtreeNode ks vs cs n l ek ev) = BtreeNode ks vs (cs[i := c]) n l ek ev"

fun put_KeyCount :: "nat \<Rightarrow> ('k, 'v) BtreeNode \<Rightarrow> ('k, 'v) BtreeNode" where
  "put_KeyCount m (BtreeNode ks vs cs n l ek ev) = BtreeNode ks vs cs m l ek ev"

fun SetLeaf :: "bool \<Rightarrow> ('k, 'v) BtreeNode \<Rightarrow> ('k, 'v) BtreeNode" where
  "SetLeaf b (BtreeNode ks vs cs n l ek ev) = BtreeNode ks vs cs n b ek ev"

text \<open>The constructor; \<open>ek\<close> and \<open>ev\<close> are the default values of the key and value types.\<close>

definition make_node :: "nat \<Rightarrow> 'k \<Rightarrow> 'v \<Rightarrow> bool \<Rightarrow> ('k, 'v) BtreeNode" where
  "make_node T ek ev leaf = BtreeNode (replicate (2 * T - 1) ek) (replicate (2 * T - 1) ev)
     (replicate (2 * T) None) 0 leaf ek ev"

text \<open>The destructor insists that no child is left.\<close>

definition destroy_node :: "nat \<Rightarrow> ('k, 'v) BtreeNode \<Rightarrow> unit option" where
  "destroy_node T n = guard (list_all (\<lambda>c. c = None) (take (2 * T) (Child n))) (Some ())"

text \<open>A counted loop over the given indices, stopping at the first panic.\<close>

fun for_each :: "nat list \<Rightarrow> (nat \<Rightarrow> 's \<Rightarrow> 's option) \<Rightarrow> 's \<Rightarrow> 's option" where
  "for_each [] f s = Some s"
| "for_each (i # is) f s = do { s' \<leftarrow> f i s; for_each is f s' }"


section \<open>Accessors\<close>

definition IsFull :: "nat \<Rightarrow> ('k, 'v) BtreeNode \<Rightarrow> bool" where
  "IsFull T n \<longleftrightarrow> 2 * T - 1 = KeyCount n"

definition GetKey :: "nat \<Rightarrow> nat \<Rightarrow> ('k, 'v) BtreeNode \<Rightarrow> 'k option" where
  "GetKey T i n = guard (i < 2 * T - 1) (guard (i < KeyCount n) (Some (Key n ! i)))"

definition GetValue :: "nat \<Rightarrow> nat \<Rightarrow> ('k, 'v) BtreeNode \<Rightarrow> 'v option" where
  "GetValue T i n = guard (i < 2 * T - 1) (guard (i < KeyCount n) (Some (Value n ! i)))"

definition GetChild :: "nat \<Rightarrow> nat \<Rightarrow> ('k, 'v) BtreeNode \<Rightarrow> ('k, 'v) BtreeNode option option" where
  "GetChild T i n = guard (i < 2 * T) (Some (Child n ! i))"

definition SetKey :: "nat \<Rightarrow> nat \<Rightarrow> 'k \<Rightarrow> ('k, 'v) BtreeNode \<Rightarrow> ('k, 'v) BtreeNode option" where
  "SetKey T i k n = guard (i < 2 * T - 1) (Some (put_Key i k n))"

definition SetValue :: "nat \<Rightarrow> nat \<Rightarrow> 'v \<Rightarrow> ('k, 'v) BtreeNode \<Rightarrow> ('k, 'v) BtreeNode option" where
  "SetValue T i v n = guard (i < 2 * T - 1) (Some (put_Value i v n))"

definition SetChild ::
  "nat \<Rightarrow> nat \<Rightarrow> ('k, 'v) BtreeNode option \<Rightarrow> ('k, 'v) BtreeNode \<Rightarrow> ('k, 'v) BtreeNode option" where
  "SetChild T i c n = guard (i < 2 * T) (Some (put_Child i c n))"

definition SetKeyCount :: "nat \<Rightarrow> nat \<Rightarrow> ('k, 'v) BtreeNode \<Rightarrow> ('k, 'v) BtreeNode option" where
  "SetKeyCount T c n = guard (c \<le> 2 * T - 1) (Some (put_KeyCount c n))"

definition IncKeyCount :: "nat \<Rightarrow> nat \<Rightarrow> ('k, 'v) BtreeNode \<Rightarrow> ('k, 'v) BtreeNode option" where
  "IncKeyCount T delta n = SetKeyCount T (KeyCount n + delta) n"

text \<open>Decrementing zero wraps to the largest \<open>size_t\<close>, which \<^verbatim>\<open>SetKeyCount\<close> rejects.\<close>

definition DecKeyCount :: "nat \<Rightarrow> ('k, 'v) BtreeNode \<Rightarrow> ('k, 'v) BtreeNode option" where
  "DecKeyCount T n = guard (KeyCount n \<noteq> 0) (SetKeyCount T (KeyCount n - 1) n)"

text \<open>The number of leading non-null children; a later non-null one is a panic.\<close>

definition GetChildCount :: "nat \<Rightarrow> ('k, 'v) BtreeNode \<Rightarrow> nat option" where
  "GetChildCount T n =
     (let cs = take (2 * T) (Child n); i = length (takeWhile (\<lambda>c. c \<noteq> None) cs)
      in guard (list_all (\<lambda>c. c = None) (drop i cs)) (Some i))"


section \<open>Moving keys and children between slots\<close>

definition CopyKey ::
  "nat \<Rightarrow> nat \<Rightarrow> ('k, 'v) BtreeNode \<Rightarrow> nat \<Rightarrow> ('k, 'v) BtreeNode \<Rightarrow> ('k, 'v) BtreeNode option" where
  "CopyKey T i src srcIndex n =
     guard (i < 2 * T - 1) (guard (srcIndex < 2 * T - 1) (do {
       k \<leftarrow> GetKey T srcIndex src;
       n1 \<leftarrow> SetKey T i k n;
       v \<leftarrow> GetValue T srcIndex src;
       SetValue T i v n1 }))"

text \<open>Moves the pointer out of the source node: the result is this node and the source.\<close>

definition CopyChild ::
  "nat \<Rightarrow> nat \<Rightarrow> ('k, 'v) BtreeNode \<Rightarrow> nat \<Rightarrow> ('k, 'v) BtreeNode
     \<Rightarrow> (('k, 'v) BtreeNode \<times> ('k, 'v) BtreeNode) option" where
  "CopyChild T i src srcIndex n =
     guard (i < 2 * T) (guard (srcIndex < 2 * T) (do {
       n1 \<leftarrow> SetChild T i (Child src ! srcIndex) n;
       Some (n1, put_Child srcIndex None src) }))"

definition PutKey_shift :: "nat \<Rightarrow> nat \<Rightarrow> ('k, 'v) BtreeNode \<Rightarrow> ('k, 'v) BtreeNode option" where
  "PutKey_shift T index n =
     for_each (rev [index..<KeyCount n]) (\<lambda>i n. do {
       k \<leftarrow> GetKey T i n;
       n1 \<leftarrow> SetKey T (i + 1) k n;
       v \<leftarrow> GetValue T i n1;
       SetValue T (i + 1) v n1 }) n"

definition PutKey :: "nat \<Rightarrow> nat \<Rightarrow> 'k \<Rightarrow> 'v \<Rightarrow> ('k, 'v) BtreeNode \<Rightarrow> ('k, 'v) BtreeNode option" where
  "PutKey T index key val n =
     guard (index < 2 * T - 1) (do {
       n1 \<leftarrow> PutKey_shift T index n;
       n2 \<leftarrow> SetKey T index key n1;
       SetValue T index val n2 })"

definition PutKey_from ::
  "nat \<Rightarrow> nat \<Rightarrow> ('k, 'v) BtreeNode \<Rightarrow> nat \<Rightarrow> ('k, 'v) BtreeNode \<Rightarrow> ('k, 'v) BtreeNode option" where
  "PutKey_from T index src srcIndex n =
     guard (index < 2 * T - 1) (guard (srcIndex < 2 * T - 1) (do {
       n1 \<leftarrow> PutKey_shift T index n;
       k \<leftarrow> GetKey T srcIndex src;
       n2 \<leftarrow> SetKey T index k n1;
       v \<leftarrow> GetValue T srcIndex src;
       SetValue T index v n2 }))"

definition PutChild ::
  "nat \<Rightarrow> nat \<Rightarrow> ('k, 'v) BtreeNode option \<Rightarrow> ('k, 'v) BtreeNode \<Rightarrow> ('k, 'v) BtreeNode option" where
  "PutChild T index child n =
     guard (index < 2 * T) (do {
       n1 \<leftarrow> for_each (rev [index..<KeyCount n + 1])
              (\<lambda>i n. SetChild T (i + 1) (Child n ! i) (put_Child i None n)) n;
       SetChild T index child n1 })"

definition DeleteChild :: "nat \<Rightarrow> nat \<Rightarrow> ('k, 'v) BtreeNode \<Rightarrow> ('k, 'v) BtreeNode option" where
  "DeleteChild T index n =
     guard (index < 2 * T) (guard (index < KeyCount n + 1)
       (for_each [index + 1..<KeyCount n + 1]
          (\<lambda>i n. SetChild T (i - 1) (Child n ! i) (put_Child i None n))
          (put_Child index None n)))"

definition DeleteKey :: "nat \<Rightarrow> nat \<Rightarrow> ('k, 'v) BtreeNode \<Rightarrow> ('k, 'v) BtreeNode option" where
  "DeleteKey T index n =
     guard (index < 2 * T - 1) (guard (index < KeyCount n) (do {
       n1 \<leftarrow> SetKey T index (EmptyKey n) n;
       n2 \<leftarrow> SetValue T index (EmptyValue n) n1;
       for_each [index + 1..<KeyCount n] (\<lambda>i n. do {
         k \<leftarrow> GetKey T i n;
         n3 \<leftarrow> SetKey T (i - 1) k n;
         v \<leftarrow> GetValue T i n3;
         SetValue T (i - 1) v n3 }) n2 }))"

text \<open>
  One round of the loops of \<^verbatim>\<open>Merge\<close> and \<^verbatim>\<open>Copy\<close>: entry \<open>i\<close> of \<open>src\<close> goes to slot \<open>pos\<close>; the
  child pointer is moved out of \<open>src\<close>, so the result is this node and what is left of \<open>src\<close>.
\<close>

fun move_entry ::
  "nat \<Rightarrow> nat \<Rightarrow> nat \<Rightarrow> ('k, 'v) BtreeNode \<times> ('k, 'v) BtreeNode
     \<Rightarrow> (('k, 'v) BtreeNode \<times> ('k, 'v) BtreeNode) option" where
  "move_entry T pos i (n, src) = do {
     k \<leftarrow> GetKey T i src;
     n1 \<leftarrow> SetKey T pos k n;
     v \<leftarrow> GetValue T i src;
     n2 \<leftarrow> SetValue T pos v n1;
     n3 \<leftarrow> SetChild T pos (Child src ! i) n2;
     Some (n3, put_Child i None src) }"

definition Merge ::
  "nat \<Rightarrow> ('k, 'v) BtreeNode \<Rightarrow> 'k \<Rightarrow> 'v \<Rightarrow> ('k, 'v) BtreeNode
     \<Rightarrow> (('k, 'v) BtreeNode \<times> ('k, 'v) BtreeNode) option" where
  "Merge T src key val n = do {
     n1 \<leftarrow> SetKey T (KeyCount n) key n;
     n2 \<leftarrow> SetValue T (KeyCount n) val n1;
     (n3, src3) \<leftarrow> for_each [0..<KeyCount src] (\<lambda>i. move_entry T (KeyCount n + 1 + i) i) (n2, src);
     n4 \<leftarrow> SetChild T (KeyCount n + 1 + KeyCount src) (Child src3 ! KeyCount src) n3;
     n5 \<leftarrow> IncKeyCount T (1 + KeyCount src) n4;
     Some (n5, put_Child (KeyCount src) None src3) }"

definition Copy ::
  "nat \<Rightarrow> ('k, 'v) BtreeNode \<Rightarrow> ('k, 'v) BtreeNode
     \<Rightarrow> (('k, 'v) BtreeNode \<times> ('k, 'v) BtreeNode) option" where
  "Copy T src n = do {
     (n1, src1) \<leftarrow> for_each [0..<KeyCount src] (\<lambda>i. move_entry T i i) (n, src);
     n2 \<leftarrow> SetChild T (KeyCount src) (Child src1 ! KeyCount src) n1;
     n3 \<leftarrow> for_each [KeyCount src + 1..<2 * T] (\<lambda>i n. Some (put_Child i None n)) n2;
     n4 \<leftarrow> SetKeyCount T (KeyCount src) (SetLeaf (Leaf src) n3);
     Some (n4, put_Child (KeyCount src) None src1) }"


section \<open>Key search\<close>

text \<open>The binary search both lookups share: \<open>Inl\<close> a hit, \<open>Inr\<close> the final \<open>end\<close>.\<close>

function key_search :: "('k::linorder) list \<Rightarrow> 'k \<Rightarrow> nat \<Rightarrow> nat \<Rightarrow> nat + nat" where
  "key_search ks key start end' =
     (if start < end' then
        (let mid = (start + end') div 2 in
         if key = ks ! mid then Inl mid
         else if key < ks ! mid then key_search ks key start mid
         else key_search ks key (mid + 1) end')
      else Inr end')"
  by pat_completeness auto
termination
  by (relation "measure (\<lambda>(ks, key, s, e). e - s)") auto

declare key_search.simps [simp del]

definition FindKeyIndex :: "('k::linorder) \<Rightarrow> ('k, 'v) BtreeNode \<Rightarrow> nat" where
  "FindKeyIndex key n =
     (if KeyCount n = 0 then 0
      else if key > Key n ! (KeyCount n - 1) then KeyCount n
      else if key < Key n ! 0 then 0
      else case key_search (Key n) key 0 (KeyCount n) of Inl i \<Rightarrow> i | Inr i \<Rightarrow> i)"

definition IsKeyProbablyInside :: "('k::linorder) \<Rightarrow> ('k, 'v) BtreeNode \<Rightarrow> bool" where
  "IsKeyProbablyInside key n \<longleftrightarrow>
     (if KeyCount n = 0 then False
      else if key > Key n ! (KeyCount n - 1) \<or> key < Key n ! 0 then False
      else True)"

definition GetKeyIndex :: "('k::linorder) \<Rightarrow> ('k, 'v) BtreeNode \<Rightarrow> nat option" where
  "GetKeyIndex key n =
     (if \<not> IsKeyProbablyInside key n then None
      else case key_search (Key n) key 0 (KeyCount n) of Inl i \<Rightarrow> Some i | Inr _ \<Rightarrow> None)"



section \<open>Selector algebra\<close>

lemma put_Key_sel [simp]:
  "Key (put_Key i k n) = (Key n)[i := k]" "Value (put_Key i k n) = Value n"
  "Child (put_Key i k n) = Child n" "KeyCount (put_Key i k n) = KeyCount n"
  "Leaf (put_Key i k n) = Leaf n" "EmptyKey (put_Key i k n) = EmptyKey n"
  "EmptyValue (put_Key i k n) = EmptyValue n"
  by (cases n; simp)+

lemma put_Value_sel [simp]:
  "Key (put_Value i v n) = Key n" "Value (put_Value i v n) = (Value n)[i := v]"
  "Child (put_Value i v n) = Child n" "KeyCount (put_Value i v n) = KeyCount n"
  "Leaf (put_Value i v n) = Leaf n" "EmptyKey (put_Value i v n) = EmptyKey n"
  "EmptyValue (put_Value i v n) = EmptyValue n"
  by (cases n; simp)+

lemma put_Child_sel [simp]:
  "Key (put_Child i c n) = Key n" "Value (put_Child i c n) = Value n"
  "Child (put_Child i c n) = (Child n)[i := c]" "KeyCount (put_Child i c n) = KeyCount n"
  "Leaf (put_Child i c n) = Leaf n" "EmptyKey (put_Child i c n) = EmptyKey n"
  "EmptyValue (put_Child i c n) = EmptyValue n"
  by (cases n; simp)+

lemma put_KeyCount_sel [simp]:
  "Key (put_KeyCount m n) = Key n" "Value (put_KeyCount m n) = Value n"
  "Child (put_KeyCount m n) = Child n" "KeyCount (put_KeyCount m n) = m"
  "Leaf (put_KeyCount m n) = Leaf n" "EmptyKey (put_KeyCount m n) = EmptyKey n"
  "EmptyValue (put_KeyCount m n) = EmptyValue n"
  by (cases n; simp)+

lemma SetLeaf_sel [simp]:
  "Key (SetLeaf b n) = Key n" "Value (SetLeaf b n) = Value n"
  "Child (SetLeaf b n) = Child n" "KeyCount (SetLeaf b n) = KeyCount n"
  "Leaf (SetLeaf b n) = b" "EmptyKey (SetLeaf b n) = EmptyKey n"
  "EmptyValue (SetLeaf b n) = EmptyValue n"
  by (cases n; simp)+

lemmas accessor_defs = GetKey_def GetValue_def GetChild_def SetKey_def SetValue_def
  SetChild_def SetKeyCount_def IncKeyCount_def DecKeyCount_def

lemma for_each_append:
  "for_each (is @ js) f s = do { s' \<leftarrow> for_each is f s; for_each js f s' }"
  by (induction "is" arbitrary: s) (auto split: Option.bind_split)


section \<open>What the shifting loops do\<close>

text \<open>
  Each loop is described slot by slot: which array cells the result has, and that the other
  members stay. The relation \<open>frame_keys\<close> says that only the key and value arrays differ.
\<close>

definition same_but_keys :: "('k, 'v) BtreeNode \<Rightarrow> ('k, 'v) BtreeNode \<Rightarrow> bool" where
  "same_but_keys n n' \<longleftrightarrow> Child n' = Child n \<and> KeyCount n' = KeyCount n \<and> Leaf n' = Leaf n \<and>
     length (Key n') = length (Key n) \<and> length (Value n') = length (Value n)"

definition same_but_children :: "('k, 'v) BtreeNode \<Rightarrow> ('k, 'v) BtreeNode \<Rightarrow> bool" where
  "same_but_children n n' \<longleftrightarrow> Key n' = Key n \<and> Value n' = Value n \<and> KeyCount n' = KeyCount n \<and>
     Leaf n' = Leaf n \<and> length (Child n') = length (Child n)"

definition arrays_ok :: "nat \<Rightarrow> ('k, 'v) BtreeNode \<Rightarrow> bool" where
  "arrays_ok T n \<longleftrightarrow> length (Key n) = 2 * T - 1 \<and> length (Value n) = 2 * T - 1 \<and>
     length (Child n) = 2 * T \<and> KeyCount n \<le> 2 * T - 1"

lemma PutKey_shift_loop:
  assumes "length (Key n) = 2 * T - 1" "length (Value n) = 2 * T - 1"
    and "hi \<le> KeyCount n" "hi < 2 * T - 1" "index \<le> hi"
  shows "\<exists>n'. for_each (rev [index..<hi]) (\<lambda>i n. do {
       k \<leftarrow> GetKey T i n; n1 \<leftarrow> SetKey T (i + 1) k n;
       v \<leftarrow> GetValue T i n1; SetValue T (i + 1) v n1 }) n = Some n' \<and> same_but_keys n n' \<and>
     (\<forall>j < 2 * T - 1. Key n' ! j = (if index < j \<and> j \<le> hi then Key n ! (j - 1) else Key n ! j)) \<and>
     (\<forall>j < 2 * T - 1. Value n' ! j = (if index < j \<and> j \<le> hi then Value n ! (j - 1) else Value n ! j))"
  using assms
proof (induction hi arbitrary: n)
  case 0
  then show ?case by (simp add: same_but_keys_def)
next
  case (Suc h)
  show ?case
  proof (cases "index = Suc h")
    case True
    then show ?thesis by (simp add: same_but_keys_def)
  next
    case False
    define m where "m = put_Value (Suc h) (Value n ! h) (put_Key (Suc h) (Key n ! h) n)"
    have m: "length (Key m) = 2 * T - 1" "length (Value m) = 2 * T - 1"
      "h \<le> KeyCount m" "h < 2 * T - 1" "index \<le> h"
      using Suc.prems False by (simp_all add: m_def)
    from Suc.IH [OF m] obtain n' where
      n': "for_each (rev [index..<h]) (\<lambda>i n. do {
         k \<leftarrow> GetKey T i n; n1 \<leftarrow> SetKey T (i + 1) k n;
         v \<leftarrow> GetValue T i n1; SetValue T (i + 1) v n1 }) m = Some n'" "same_but_keys m n'"
      and K: "\<forall>j < 2 * T - 1. Key n' ! j = (if index < j \<and> j \<le> h then Key m ! (j - 1) else Key m ! j)"
      and V: "\<forall>j < 2 * T - 1. Value n' ! j = (if index < j \<and> j \<le> h then Value m ! (j - 1) else Value m ! j)"
      by blast
    have "Key n' ! j = (if index < j \<and> j \<le> Suc h then Key n ! (j - 1) else Key n ! j)"
      if "j < 2 * T - 1" for j
      using that K m Suc.prems by (cases "j = Suc h") (auto simp: m_def nth_list_update)
    moreover have "Value n' ! j = (if index < j \<and> j \<le> Suc h then Value n ! (j - 1) else Value n ! j)"
      if "j < 2 * T - 1" for j
      using that V m Suc.prems by (cases "j = Suc h") (auto simp: m_def nth_list_update)
    moreover have "same_but_keys n n'" using n'(2) by (simp add: same_but_keys_def m_def)
    moreover have "for_each (rev [index..<Suc h]) (\<lambda>i n. do {
         k \<leftarrow> GetKey T i n; n1 \<leftarrow> SetKey T (i + 1) k n;
         v \<leftarrow> GetValue T i n1; SetValue T (i + 1) v n1 }) n = Some n'"
      using n'(1) m Suc.prems by (simp add: accessor_defs m_def)
    ultimately show ?thesis by blast
  qed
qed

lemma PutChild_loop:
  assumes "length (Child n) = 2 * T" "hi < 2 * T" "index \<le> hi"
  shows "\<exists>n'. for_each (rev [index..<hi])
       (\<lambda>i n. SetChild T (i + 1) (Child n ! i) (put_Child i None n)) n = Some n' \<and>
     same_but_children n n' \<and>
     (\<forall>j < 2 * T. Child n' ! j =
        (if index < hi \<and> j = index then None
         else if index < j \<and> j \<le> hi then Child n ! (j - 1) else Child n ! j))"
  using assms
proof (induction hi arbitrary: n)
  case 0
  then show ?case by (simp add: same_but_children_def)
next
  case (Suc h)
  show ?case
  proof (cases "index = Suc h")
    case True
    then show ?thesis by (auto simp: same_but_children_def)
  next
    case False
    define m where "m = put_Child (Suc h) (Child n ! h) (put_Child h None n)"
    have m: "length (Child m) = 2 * T" "h < 2 * T" "index \<le> h"
      using Suc.prems False by (simp_all add: m_def)
    from Suc.IH [OF m] obtain n' where
      n': "for_each (rev [index..<h])
         (\<lambda>i n. SetChild T (i + 1) (Child n ! i) (put_Child i None n)) m = Some n'"
        "same_but_children m n'"
      and C: "\<forall>j < 2 * T. Child n' ! j =
        (if index < h \<and> j = index then None
         else if index < j \<and> j \<le> h then Child m ! (j - 1) else Child m ! j)"
      by blast
    have "Child n' ! j = (if index < Suc h \<and> j = index then None
         else if index < j \<and> j \<le> Suc h then Child n ! (j - 1) else Child n ! j)"
      if "j < 2 * T" for j
      using that C m Suc.prems
      by (cases "j = Suc h"; cases "j = h") (auto simp: m_def nth_list_update)
    moreover have "same_but_children n n'" using n'(2) by (simp add: same_but_children_def m_def)
    moreover have "for_each (rev [index..<Suc h])
         (\<lambda>i n. SetChild T (i + 1) (Child n ! i) (put_Child i None n)) n = Some n'"
      using n'(1) m Suc.prems by (simp add: accessor_defs m_def)
    ultimately show ?thesis by blast
  qed
qed

text \<open>The two deleting loops run upwards; they are described for the first \<open>d\<close> rounds.\<close>

lemma DeleteChild_loop:
  assumes "length (Child n) = 2 * T" "index + d < 2 * T" "Child n ! index = None"
  shows "\<exists>n'. for_each [index + 1..<index + 1 + d]
       (\<lambda>i n. SetChild T (i - 1) (Child n ! i) (put_Child i None n)) n = Some n' \<and>
     same_but_children n n' \<and>
     (\<forall>j < 2 * T. Child n' ! j =
        (if j = index + d then None
         else if index \<le> j \<and> j < index + d then Child n ! (j + 1) else Child n ! j))"
  using assms
proof (induction d)
  case 0
  then show ?case by (auto simp: same_but_children_def)
next
  case (Suc d)
  then obtain m where m: "for_each [index + 1..<index + 1 + d]
       (\<lambda>i n. SetChild T (i - 1) (Child n ! i) (put_Child i None n)) n = Some m"
      "same_but_children n m"
    and C: "\<forall>j < 2 * T. Child m ! j =
        (if j = index + d then None
         else if index \<le> j \<and> j < index + d then Child n ! (j + 1) else Child n ! j)"
    by force
  define n' where "n' = put_Child (index + d) (Child m ! (index + d + 1)) (put_Child (index + d + 1) None m)"
  have "for_each [index + 1..<index + 1 + Suc d]
       (\<lambda>i n. SetChild T (i - 1) (Child n ! i) (put_Child i None n)) n = Some n'"
    using m(1) Suc.prems by (simp add: for_each_append accessor_defs n'_def)
  moreover have "same_but_children n n'" using m(2) by (simp add: same_but_children_def n'_def)
  moreover have "Child n' ! j = (if j = index + Suc d then None
         else if index \<le> j \<and> j < index + Suc d then Child n ! (j + 1) else Child n ! j)"
    if "j < 2 * T" for j
    using that C Suc.prems m(2)
    by (cases "j = index + d"; cases "j = index + d + 1")
      (auto simp: n'_def nth_list_update same_but_children_def)
  ultimately show ?case by blast
qed

lemma DeleteKey_loop:
  assumes "length (Key n) = 2 * T - 1" "length (Value n) = 2 * T - 1"
    and "index + d < KeyCount n" "index + d < 2 * T - 1"
  shows "\<exists>n'. for_each [index + 1..<index + 1 + d] (\<lambda>i n. do {
       k \<leftarrow> GetKey T i n; n1 \<leftarrow> SetKey T (i - 1) k n;
       v \<leftarrow> GetValue T i n1; SetValue T (i - 1) v n1 }) n = Some n' \<and> same_but_keys n n' \<and>
     (\<forall>j < 2 * T - 1. Key n' ! j = (if index \<le> j \<and> j < index + d then Key n ! (j + 1) else Key n ! j)) \<and>
     (\<forall>j < 2 * T - 1. Value n' ! j = (if index \<le> j \<and> j < index + d then Value n ! (j + 1) else Value n ! j))"
  using assms
proof (induction d)
  case 0
  then show ?case by (auto simp: same_but_keys_def)
next
  case (Suc d)
  then obtain m where m: "for_each [index + 1..<index + 1 + d] (\<lambda>i n. do {
       k \<leftarrow> GetKey T i n; n1 \<leftarrow> SetKey T (i - 1) k n;
       v \<leftarrow> GetValue T i n1; SetValue T (i - 1) v n1 }) n = Some m" "same_but_keys n m"
    and K: "\<forall>j < 2 * T - 1. Key m ! j = (if index \<le> j \<and> j < index + d then Key n ! (j + 1) else Key n ! j)"
    and V: "\<forall>j < 2 * T - 1. Value m ! j = (if index \<le> j \<and> j < index + d then Value n ! (j + 1) else Value n ! j)"
    by force
  define n' where "n' = put_Value (index + d) (Value m ! (index + d + 1))
    (put_Key (index + d) (Key m ! (index + d + 1)) m)"
  have kc: "KeyCount m = KeyCount n" "length (Key m) = 2 * T - 1" "length (Value m) = 2 * T - 1"
    using m(2) Suc.prems by (auto simp: same_but_keys_def)
  then have "for_each [index + 1..<index + 1 + Suc d] (\<lambda>i n. do {
       k \<leftarrow> GetKey T i n; n1 \<leftarrow> SetKey T (i - 1) k n;
       v \<leftarrow> GetValue T i n1; SetValue T (i - 1) v n1 }) n = Some n'"
    using m(1) Suc.prems by (simp add: for_each_append accessor_defs n'_def)
  moreover have "same_but_keys n n'" using m(2) by (simp add: same_but_keys_def n'_def)
  moreover have "Key n' ! j = (if index \<le> j \<and> j < index + Suc d then Key n ! (j + 1) else Key n ! j)"
    if "j < 2 * T - 1" for j
    using that K kc Suc.prems by (cases "j = index + d") (auto simp: n'_def nth_list_update)
  moreover have "Value n' ! j = (if index \<le> j \<and> j < index + Suc d then Value n ! (j + 1) else Value n ! j)"
    if "j < 2 * T - 1" for j
    using that V kc Suc.prems by (cases "j = index + d") (auto simp: n'_def nth_list_update)
  ultimately show ?case by blast
qed

end
