(* ===== verification/Btree_Shape.thy ===== *)
theory Btree_Shape
  imports Btree_Node
begin

text \<open>
  The list view of a node: \<open>is_node T n ks vs cs\<close> says that the arrays of \<open>n\<close> hold exactly the
  keys \<open>ks\<close>, the values \<open>vs\<close> and the children \<open>cs\<close> and that the rest of the child array is
  null. The lemmas say what each array operation of \<open>Btree_Node\<close> does to that view, and that it
  does not panic.
\<close>

definition keys_are :: "nat \<Rightarrow> ('k, 'v) BtreeNode \<Rightarrow> 'k list \<Rightarrow> 'v list \<Rightarrow> bool" where
  "keys_are T n ks vs \<longleftrightarrow> length (Key n) = 2 * T - 1 \<and> length (Value n) = 2 * T - 1 \<and>
     length vs = length ks \<and> length ks \<le> 2 * T - 1 \<and>
     take (length ks) (Key n) = ks \<and> take (length ks) (Value n) = vs"

definition kids_are :: "nat \<Rightarrow> ('k, 'v) BtreeNode \<Rightarrow> ('k, 'v) BtreeNode list \<Rightarrow> bool" where
  "kids_are T n cs \<longleftrightarrow> length cs \<le> 2 * T \<and> Child n = map Some cs @ replicate (2 * T - length cs) None"

definition is_node ::
  "nat \<Rightarrow> ('k, 'v) BtreeNode \<Rightarrow> 'k list \<Rightarrow> 'v list \<Rightarrow> ('k, 'v) BtreeNode list \<Rightarrow> bool" where
  "is_node T n ks vs cs \<longleftrightarrow> keys_are T n ks vs \<and> kids_are T n cs \<and> KeyCount n = length ks \<and>
     (Leaf n \<longleftrightarrow> cs = []) \<and> (cs \<noteq> [] \<longrightarrow> length cs = length ks + 1)"

lemma keys_are_nth:
  assumes "keys_are T n ks vs" "i < length ks"
  shows "Key n ! i = ks ! i" "Value n ! i = vs ! i" "i < 2 * T - 1"
  using assms unfolding keys_are_def by (metis nth_take, metis nth_take, linarith)

lemma keys_areI:
  assumes "length (Key n) = 2 * T - 1" "length (Value n) = 2 * T - 1"
    and "length vs = length ks" "length ks \<le> 2 * T - 1"
    and "\<And>i. i < length ks \<Longrightarrow> Key n ! i = ks ! i" "\<And>i. i < length ks \<Longrightarrow> Value n ! i = vs ! i"
  shows "keys_are T n ks vs"
  using assms by (auto simp: keys_are_def intro!: nth_equalityI)

lemma kids_are_nth:
  assumes "kids_are T n cs" "j < 2 * T"
  shows "Child n ! j = (if j < length cs then Some (cs ! j) else None)"
  using assms by (auto simp: kids_are_def nth_append)

lemma kids_are_length: "kids_are T n cs \<Longrightarrow> length (Child n) = 2 * T"
  by (auto simp: kids_are_def)

lemma kids_areI:
  assumes "length (Child n) = 2 * T" "length cs \<le> 2 * T"
    and "\<And>j. j < 2 * T \<Longrightarrow> Child n ! j = (if j < length cs then Some (cs ! j) else None)"
  shows "kids_are T n cs"
  using assms by (auto simp: kids_are_def nth_append intro!: nth_equalityI)

lemma is_nodeD:
  assumes "is_node T n ks vs cs"
  shows "keys_are T n ks vs" "kids_are T n cs" "KeyCount n = length ks" "Leaf n \<longleftrightarrow> cs = []"
    "length vs = length ks" "length ks \<le> 2 * T - 1" "cs \<noteq> [] \<Longrightarrow> length cs = length ks + 1"
    "length (Child n) = 2 * T" "length (Key n) = 2 * T - 1" "length (Value n) = 2 * T - 1"
  using assms by (auto simp: is_node_def keys_are_def kids_are_length)

lemma is_node_GetKey: "is_node T n ks vs cs \<Longrightarrow> i < length ks \<Longrightarrow> GetKey T i n = Some (ks ! i)"
  using keys_are_nth [OF is_nodeD(1), of T n ks vs cs i] is_nodeD(3) [of T n ks vs cs]
  by (simp add: GetKey_def)

lemma is_node_GetValue: "is_node T n ks vs cs \<Longrightarrow> i < length ks \<Longrightarrow> GetValue T i n = Some (vs ! i)"
  using keys_are_nth [OF is_nodeD(1), of T n ks vs cs i] is_nodeD(3) [of T n ks vs cs]
  by (simp add: GetValue_def)

lemma is_node_Child: "is_node T n ks vs cs \<Longrightarrow> i < length cs \<Longrightarrow> Child n ! i = Some (cs ! i)"
  by (auto simp: is_node_def kids_are_def nth_append)

lemma is_node_GetChild: "is_node T n ks vs cs \<Longrightarrow> i < length cs \<Longrightarrow> GetChild T i n = Some (Some (cs ! i))"
  by (auto simp: GetChild_def is_node_def kids_are_def nth_append)

lemma is_node_unique:
  assumes "is_node T n ks vs cs" "is_node T n ks' vs' cs'"
  shows "ks = ks' \<and> vs = vs' \<and> cs = cs'"
proof -
  have "ks = ks'" "vs = vs'" using assms by (metis is_node_def keys_are_def)+
  moreover have "length cs = length cs'" using assms unfolding is_node_def by (metis length_0_conv)
  then have "cs = cs'"
    using is_node_Child [OF assms(1)] is_node_Child [OF assms(2)] by (auto intro!: nth_equalityI)
  ultimately show ?thesis by simp
qed

lemma is_node_make: "is_node T (make_node T ek ev True) [] [] []"
  by (simp add: is_node_def make_node_def keys_are_def kids_are_def)

lemma is_node_inner_make:
  "keys_are T (make_node T ek ev l) [] []" "kids_are T (make_node T ek ev l) []"
  "KeyCount (make_node T ek ev l) = 0" "Leaf (make_node T ek ev l) = l"
  by (simp_all add: make_node_def keys_are_def kids_are_def)

lemma destroy_ok: "kids_are T n [] \<Longrightarrow> destroy_node T n = Some ()"
  by (auto simp: destroy_node_def kids_are_def list_all_iff)


section \<open>Inserting and deleting one key\<close>

text \<open>What the insertions and deletions do to the list of live entries.\<close>

abbreviation ins_at :: "nat \<Rightarrow> 'a \<Rightarrow> 'a list \<Rightarrow> 'a list" where
  "ins_at i x xs \<equiv> take i xs @ x # drop i xs"

abbreviation del_at :: "nat \<Rightarrow> 'a list \<Rightarrow> 'a list" where
  "del_at i xs \<equiv> take i xs @ drop (Suc i) xs"

lemma nth_ins_at: "i \<le> length xs \<Longrightarrow> j \<le> length xs \<Longrightarrow>
  ins_at i x xs ! j = (if j < i then xs ! j else if j = i then x else xs ! (j - 1))"
  by (cases "j < i"; cases "j = i") (auto simp: nth_append nth_Cons' Suc_diff_Suc)

lemma nth_del_at: "i < length xs \<Longrightarrow> j < length xs - 1 \<Longrightarrow>
  del_at i xs ! j = (if j < i then xs ! j else xs ! Suc j)"
  by (auto simp: nth_append)

lemma PutKey_shift_view:
  assumes "keys_are T n ks vs" "KeyCount n = length ks" "length ks < 2 * T - 1" "i \<le> length ks"
  obtains n' where "PutKey_shift T i n = Some n'" "same_but_keys n n'"
    "\<And>j. j < 2 * T - 1 \<Longrightarrow> Key n' ! j = (if i < j \<and> j \<le> length ks then Key n ! (j - 1) else Key n ! j)"
    "\<And>j. j < 2 * T - 1 \<Longrightarrow> Value n' ! j = (if i < j \<and> j \<le> length ks then Value n ! (j - 1) else Value n ! j)"
  using PutKey_shift_loop [of n T "length ks" i] assms
  unfolding PutKey_shift_def keys_are_def by auto

lemma PutKey_view:
  assumes "keys_are T n ks vs" "KeyCount n = length ks" "length ks < 2 * T - 1" "i \<le> length ks"
  shows "\<exists>n'. PutKey T i k v n = Some n' \<and> same_but_keys n n' \<and>
    keys_are T n' (ins_at i k ks) (ins_at i v vs)"
proof -
  from assms obtain m where m: "PutKey_shift T i n = Some m" "same_but_keys n m"
    "\<And>j. j < 2 * T - 1 \<Longrightarrow> Key m ! j = (if i < j \<and> j \<le> length ks then Key n ! (j - 1) else Key n ! j)"
    "\<And>j. j < 2 * T - 1 \<Longrightarrow> Value m ! j = (if i < j \<and> j \<le> length ks then Value n ! (j - 1) else Value n ! j)"
    using PutKey_shift_view [OF assms] by blast
  let ?n' = "put_Value i v (put_Key i k m)"
  have len: "length vs = length ks" "length (Key m) = 2 * T - 1" "length (Value m) = 2 * T - 1"
    using assms(1) m(2) by (auto simp: keys_are_def same_but_keys_def)
  have "keys_are T ?n' (ins_at i k ks) (ins_at i v vs)"
  proof (rule keys_areI)
    fix j assume "j < length (ins_at i k ks)"
    with assms(4) have j: "j \<le> length ks" by simp
    show "Key ?n' ! j = ins_at i k ks ! j" "Value ?n' ! j = ins_at i v vs ! j"
      using j assms len m(3,4) [of j]
      by (auto simp: nth_ins_at nth_list_update keys_are_nth [OF assms(1)])
  qed (use assms len in auto)
  moreover have "PutKey T i k v n = Some ?n'"
    using m(1) assms(3,4) by (simp add: PutKey_def accessor_defs)
  moreover have "same_but_keys n ?n'" using m(2) by (simp add: same_but_keys_def)
  ultimately show ?thesis by blast
qed

lemma PutKey_from_eq:
  assumes "is_node T src sks svs scs" "si < length sks"
  shows "PutKey_from T i src si n = PutKey T i (sks ! si) (svs ! si) n"
  using is_node_GetKey [OF assms] is_node_GetValue [OF assms] is_nodeD(6) [OF assms(1)] assms(2)
  by (auto simp: PutKey_from_def PutKey_def guard_def split: Option.bind_split)

lemma DeleteKey_view:
  assumes "keys_are T n ks vs" "KeyCount n = length ks" "i < length ks"
  shows "\<exists>n'. DeleteKey T i n = Some n' \<and> same_but_keys n n' \<and> keys_are T n' (del_at i ks) (del_at i vs)"
proof -
  let ?m = "put_Value i (EmptyValue n) (put_Key i (EmptyKey n) n)"
  let ?d = "length ks - 1 - i"
  have len: "length vs = length ks" "length ks \<le> 2 * T - 1"
    "length (Key n) = 2 * T - 1" "length (Value n) = 2 * T - 1"
    using assms(1) by (auto simp: keys_are_def)
  have d: "i + 1 + ?d = length ks" "i + ?d < KeyCount ?m" "i + ?d < 2 * T - 1" using assms(2,3) len by auto
  have lm: "length (Key ?m) = 2 * T - 1" "length (Value ?m) = 2 * T - 1" using len by simp_all
  from DeleteKey_loop [OF lm d(2,3), unfolded d(1)] obtain n' where
    n': "for_each [i + 1..<length ks] (\<lambda>i n. do {
       k \<leftarrow> GetKey T i n; n1 \<leftarrow> SetKey T (i - 1) k n;
       v \<leftarrow> GetValue T i n1; SetValue T (i - 1) v n1 }) ?m = Some n'" "same_but_keys ?m n'"
    "\<forall>j < 2 * T - 1. Key n' ! j = (if i \<le> j \<and> j < i + ?d then Key ?m ! (j + 1) else Key ?m ! j)"
    "\<forall>j < 2 * T - 1. Value n' ! j = (if i \<le> j \<and> j < i + ?d then Value ?m ! (j + 1) else Value ?m ! j)"
    by blast
  have "keys_are T n' (del_at i ks) (del_at i vs)"
  proof (rule keys_areI)
    fix j assume "j < length (del_at i ks)"
    with assms(3) have j: "j < length ks - 1" by simp
    then show "Key n' ! j = del_at i ks ! j" "Value n' ! j = del_at i vs ! j"
      using n'(3,4) len assms by (auto simp: nth_del_at nth_list_update keys_are_nth [OF assms(1)])
  qed (use n'(2) assms len in \<open>auto simp: same_but_keys_def\<close>)
  moreover have "DeleteKey T i n = Some n'"
    using n'(1) assms len by (simp add: DeleteKey_def accessor_defs)
  moreover have "same_but_keys n n'" using n'(2) by (simp add: same_but_keys_def)
  ultimately show ?thesis by blast
qed


section \<open>Inserting and deleting one child\<close>

lemma PutChild_raw:
  assumes "length (Child n) = 2 * T" "KeyCount n + 1 < 2 * T" "i \<le> KeyCount n + 1"
  shows "\<exists>n'. PutChild T i c n = Some n' \<and> same_but_children n n' \<and>
    (\<forall>j < 2 * T. Child n' ! j = (if j = i then c
       else if i < j \<and> j \<le> KeyCount n + 1 then Child n ! (j - 1) else Child n ! j))"
proof -
  from PutChild_loop [OF assms] obtain m where
    m: "for_each (rev [i..<KeyCount n + 1])
       (\<lambda>i n. SetChild T (i + 1) (Child n ! i) (put_Child i None n)) n = Some m" "same_but_children n m"
    and C: "\<forall>j < 2 * T. Child m ! j = (if i < KeyCount n + 1 \<and> j = i then None
         else if i < j \<and> j \<le> KeyCount n + 1 then Child n ! (j - 1) else Child n ! j)"
    by blast
  have "PutChild T i c n = Some (put_Child i c m)"
    unfolding PutChild_def m(1) using assms by (simp add: SetChild_def)
  moreover have "same_but_children n (put_Child i c m)" using m(2) by (simp add: same_but_children_def)
  moreover have "\<forall>j < 2 * T. Child (put_Child i c m) ! j = (if j = i then c
       else if i < j \<and> j \<le> KeyCount n + 1 then Child n ! (j - 1) else Child n ! j)"
    using C m(2) assms by (auto simp: nth_list_update same_but_children_def)
  ultimately show ?thesis by blast
qed

lemma PutChild_view:
  assumes "kids_are T n cs" "length cs = KeyCount n + 1" "length cs < 2 * T" "i \<le> length cs"
  shows "\<exists>n'. PutChild T i (Some c) n = Some n' \<and> same_but_children n n' \<and> kids_are T n' (ins_at i c cs)"
proof -
  have len: "length (Child n) = 2 * T" using assms(1) by (rule kids_are_length)
  from PutChild_raw [OF len, of i "Some c"] assms obtain n' where
    n': "PutChild T i (Some c) n = Some n'" "same_but_children n n'"
    and C: "\<forall>j < 2 * T. Child n' ! j = (if j = i then Some c
       else if i < j \<and> j \<le> KeyCount n + 1 then Child n ! (j - 1) else Child n ! j)"
    by auto
  have "kids_are T n' (ins_at i c cs)"
  proof (rule kids_areI)
    show "Child n' ! j = (if j < length (ins_at i c cs) then Some (ins_at i c cs ! j) else None)"
      if "j < 2 * T" for j
      using that C assms kids_are_nth [OF assms(1), of j] kids_are_nth [OF assms(1), of "j - 1"]
      by (cases "j \<le> length cs") (auto simp: nth_ins_at)
  qed (use n'(2) assms len in \<open>auto simp: same_but_children_def\<close>)
  with n' show ?thesis by blast
qed

lemma PutChild_leaf_view:
  assumes "kids_are T n []" "KeyCount n + 1 < 2 * T" "i \<le> KeyCount n + 1"
  shows "\<exists>n'. PutChild T i None n = Some n' \<and> same_but_children n n' \<and> kids_are T n' []"
proof -
  have len: "length (Child n) = 2 * T" using assms(1) by (rule kids_are_length)
  from PutChild_raw [OF len assms(2,3), of None] obtain n' where
    n': "PutChild T i None n = Some n'" "same_but_children n n'"
    and C: "\<forall>j < 2 * T. Child n' ! j = (if j = i then None
       else if i < j \<and> j \<le> KeyCount n + 1 then Child n ! (j - 1) else Child n ! j)"
    by blast
  have "kids_are T n' []"
    using C kids_are_nth [OF assms(1)] n'(2) len
    by (intro kids_areI) (auto simp: same_but_children_def)
  with n' show ?thesis by blast
qed

lemma PutChild_root_view:
  assumes "kids_are T n []" "KeyCount n = 0" "2 \<le> T"
  shows "\<exists>n'. PutChild T 0 (Some c) n = Some n' \<and> same_but_children n n' \<and> kids_are T n' [c]"
proof -
  have len: "length (Child n) = 2 * T" using assms(1) by (rule kids_are_length)
  from PutChild_raw [OF len, of 0 "Some c"] assms obtain n' where
    n': "PutChild T 0 (Some c) n = Some n'" "same_but_children n n'"
    and C: "\<forall>j < 2 * T. Child n' ! j = (if j = 0 then Some c
       else if 0 < j \<and> j \<le> 1 then Child n ! (j - 1) else Child n ! j)"
    by auto
  have "kids_are T n' [c]"
    using C kids_are_nth [OF assms(1)] n'(2) len assms
    by (intro kids_areI) (auto simp: same_but_children_def)
  with n' show ?thesis by blast
qed

lemma DeleteChild_raw:
  assumes "length (Child n) = 2 * T" "KeyCount n < 2 * T" "i < KeyCount n + 1"
  shows "\<exists>n'. DeleteChild T i n = Some n' \<and> same_but_children n n' \<and>
    (\<forall>j < 2 * T. Child n' ! j = (if j = KeyCount n then None
       else if i \<le> j \<and> j < KeyCount n then Child n ! (j + 1) else Child n ! j))"
proof -
  let ?m = "put_Child i None n" and ?d = "KeyCount n - i"
  have d: "length (Child ?m) = 2 * T" "i + ?d < 2 * T" "Child ?m ! i = None" "i + 1 + ?d = KeyCount n + 1"
    using assms by auto
  from DeleteChild_loop [OF d(1-3), unfolded d(4)] obtain n' where
    n': "for_each [i + 1..<KeyCount n + 1]
       (\<lambda>i n. SetChild T (i - 1) (Child n ! i) (put_Child i None n)) ?m = Some n'"
      "same_but_children ?m n'"
    and C: "\<forall>j < 2 * T. Child n' ! j = (if j = i + ?d then None
         else if i \<le> j \<and> j < i + ?d then Child ?m ! (j + 1) else Child ?m ! j)"
    by blast
  have "DeleteChild T i n = Some n'"
    unfolding DeleteChild_def using n'(1) assms by simp
  moreover have "same_but_children n n'" using n'(2) by (simp add: same_but_children_def)
  moreover have "\<forall>j < 2 * T. Child n' ! j = (if j = KeyCount n then None
       else if i \<le> j \<and> j < KeyCount n then Child n ! (j + 1) else Child n ! j)"
    using C assms by (auto simp: nth_list_update)
  ultimately show ?thesis by blast
qed

lemma DeleteChild_view:
  assumes "kids_are T n cs" "length cs = KeyCount n + 1" "i < length cs"
  shows "\<exists>n'. DeleteChild T i n = Some n' \<and> same_but_children n n' \<and> kids_are T n' (del_at i cs)"
proof -
  have len: "length (Child n) = 2 * T" using assms(1) by (rule kids_are_length)
  have le: "length cs \<le> 2 * T" using assms(1) by (simp add: kids_are_def)
  from DeleteChild_raw [OF len, of i] assms le obtain n' where
    n': "DeleteChild T i n = Some n'" "same_but_children n n'"
    and C: "\<forall>j < 2 * T. Child n' ! j = (if j = KeyCount n then None
       else if i \<le> j \<and> j < KeyCount n then Child n ! (j + 1) else Child n ! j)"
    by auto
  have "kids_are T n' (del_at i cs)"
  proof (rule kids_areI)
    show "Child n' ! j = (if j < length (del_at i cs) then Some (del_at i cs ! j) else None)"
      if "j < 2 * T" for j
      using that C assms le kids_are_nth [OF assms(1), of j] kids_are_nth [OF assms(1), of "j + 1"]
      by (cases "j < length cs - 1") (auto simp: nth_del_at)
  qed (use n'(2) assms len le in \<open>auto simp: same_but_children_def\<close>)
  with n' show ?thesis by blast
qed

lemma DeleteChild_leaf_view:
  assumes "kids_are T n []" "KeyCount n < 2 * T" "i < KeyCount n + 1"
  shows "\<exists>n'. DeleteChild T i n = Some n' \<and> same_but_children n n' \<and> kids_are T n' []"
proof -
  have len: "length (Child n) = 2 * T" using assms(1) by (rule kids_are_length)
  from DeleteChild_raw [OF len assms(2,3)] obtain n' where
    n': "DeleteChild T i n = Some n'" "same_but_children n n'"
    and C: "\<forall>j < 2 * T. Child n' ! j = (if j = KeyCount n then None
       else if i \<le> j \<and> j < KeyCount n then Child n ! (j + 1) else Child n ! j)"
    by blast
  have "kids_are T n' []"
    using C kids_are_nth [OF assms(1)] n'(2) len assms(2)
    by (intro kids_areI) (auto simp: same_but_children_def)
  with n' show ?thesis by blast
qed


section \<open>Merging and copying nodes\<close>

lemma move_entries:
  assumes "is_node T src sks svs scs" "length (Key n) = 2 * T - 1" "length (Value n) = 2 * T - 1"
    and "length (Child n) = 2 * T" "off + d \<le> 2 * T - 1" "d \<le> length sks"
  shows "\<exists>n' s'. for_each [0..<d] (\<lambda>i. move_entry T (off + i) i) (n, src) = Some (n', s') \<and>
    KeyCount n' = KeyCount n \<and> Leaf n' = Leaf n \<and> length (Key n') = 2 * T - 1 \<and>
    length (Value n') = 2 * T - 1 \<and> length (Child n') = 2 * T \<and>
    (\<forall>j < 2 * T - 1. Key n' ! j = (if off \<le> j \<and> j < off + d then sks ! (j - off) else Key n ! j)) \<and>
    (\<forall>j < 2 * T - 1. Value n' ! j = (if off \<le> j \<and> j < off + d then svs ! (j - off) else Value n ! j)) \<and>
    (\<forall>j < 2 * T. Child n' ! j = (if off \<le> j \<and> j < off + d then Child src ! (j - off) else Child n ! j)) \<and>
    Key s' = Key src \<and> Value s' = Value src \<and> KeyCount s' = KeyCount src \<and> length (Child s') = 2 * T \<and>
    (\<forall>j < 2 * T. Child s' ! j = (if j < d then None else Child src ! j))"
  using assms(5,6)
proof (induction d)
  case 0
  then show ?case using assms(2-4) is_nodeD(8) [OF assms(1)] by auto
next
  case (Suc d)
  then obtain m s where ms: "for_each [0..<d] (\<lambda>i. move_entry T (off + i) i) (n, src) = Some (m, s)"
    "KeyCount m = KeyCount n" "Leaf m = Leaf n" "length (Key m) = 2 * T - 1"
    "length (Value m) = 2 * T - 1" "length (Child m) = 2 * T"
    and K: "\<forall>j < 2 * T - 1. Key m ! j = (if off \<le> j \<and> j < off + d then sks ! (j - off) else Key n ! j)"
    and V: "\<forall>j < 2 * T - 1. Value m ! j = (if off \<le> j \<and> j < off + d then svs ! (j - off) else Value n ! j)"
    and C: "\<forall>j < 2 * T. Child m ! j = (if off \<le> j \<and> j < off + d then Child src ! (j - off) else Child n ! j)"
    and s: "Key s = Key src" "Value s = Value src" "KeyCount s = KeyCount src" "length (Child s) = 2 * T"
      "\<forall>j < 2 * T. Child s ! j = (if j < d then None else Child src ! j)"
    by auto
  have d: "d < length sks" "d < 2 * T - 1" "off + d < 2 * T - 1" "d < 2 * T"
    "off + d < 2 * T" using Suc.prems by auto
  have src: "GetKey T d s = Some (sks ! d)" "GetValue T d s = Some (svs ! d)" "Child s ! d = Child src ! d"
    using is_node_GetKey [OF assms(1) d(1)] is_node_GetValue [OF assms(1) d(1)] s d
    by (simp_all add: GetKey_def GetValue_def)
  let ?m = "put_Child (off + d) (Child src ! d) (put_Value (off + d) (svs ! d) (put_Key (off + d) (sks ! d) m))"
  have "for_each [0..<Suc d] (\<lambda>i. move_entry T (off + i) i) (n, src) = Some (?m, put_Child d None s)"
    using ms(1) src d by (simp add: for_each_append SetKey_def SetValue_def SetChild_def)
  moreover have "Key ?m ! j = (if off \<le> j \<and> j < off + Suc d then sks ! (j - off) else Key n ! j)"
    if "j < 2 * T - 1" for j
    using that K ms d by (cases "j = off + d") (auto simp: nth_list_update)
  moreover have "Value ?m ! j = (if off \<le> j \<and> j < off + Suc d then svs ! (j - off) else Value n ! j)"
    if "j < 2 * T - 1" for j
    using that V ms d by (cases "j = off + d") (auto simp: nth_list_update)
  moreover have "Child ?m ! j = (if off \<le> j \<and> j < off + Suc d then Child src ! (j - off) else Child n ! j)"
    if "j < 2 * T" for j
    using that C ms d by (cases "j = off + d") (auto simp: nth_list_update)
  moreover have "Child (put_Child d None s) ! j = (if j < Suc d then None else Child src ! j)"
    if "j < 2 * T" for j
    using that s d by (cases "j = d") (auto simp: nth_list_update)
  ultimately show ?case using ms s by (intro exI [of _ ?m] exI [of _ "put_Child d None s"]) simp
qed

text \<open>
  The children of two nodes that are merged: both are leaves, or both have one child more than
  keys.
\<close>

definition kids_match :: "'a list \<Rightarrow> 'k list \<Rightarrow> 'a list \<Rightarrow> 'k list \<Rightarrow> bool" where
  "kids_match cs ks ds ls \<longleftrightarrow>
     cs = [] \<and> ds = [] \<or> length cs = length ks + 1 \<and> length ds = length ls + 1"

lemma Merge_view:
  assumes n: "is_node T n ks vs cs" and src: "is_node T src sks svs scs"
    and match: "kids_match cs ks scs sks" and fits: "length ks + length sks < 2 * T - 1"
  shows "\<exists>n' s'. Merge T src k v n = Some (n', s') \<and> kids_are T s' [] \<and>
    is_node T n' (ks @ k # sks) (vs @ v # svs) (cs @ scs)"
proof -
  let ?n2 = "put_Value (length ks) v (put_Key (length ks) k n)" and ?o = "length ks + 1"
  let ?d = "length sks"
  have l: "length (Key ?n2) = 2 * T - 1" "length (Value ?n2) = 2 * T - 1" "length (Child ?n2) = 2 * T"
    "?o + ?d \<le> 2 * T - 1" "?d \<le> length sks"
    using is_nodeD [OF n] fits by auto
  from move_entries [OF src l] obtain m s where
    ms: "for_each [0..<?d] (\<lambda>i. move_entry T (?o + i) i) (?n2, src) = Some (m, s)"
    "KeyCount m = KeyCount ?n2" "Leaf m = Leaf ?n2" "length (Key m) = 2 * T - 1"
    "length (Value m) = 2 * T - 1" "length (Child m) = 2 * T"
    and K: "\<forall>j < 2 * T - 1. Key m ! j = (if ?o \<le> j \<and> j < ?o + ?d then sks ! (j - ?o) else Key ?n2 ! j)"
    and V: "\<forall>j < 2 * T - 1. Value m ! j = (if ?o \<le> j \<and> j < ?o + ?d then svs ! (j - ?o) else Value ?n2 ! j)"
    and C: "\<forall>j < 2 * T. Child m ! j = (if ?o \<le> j \<and> j < ?o + ?d then Child src ! (j - ?o) else Child ?n2 ! j)"
    and s: "Key s = Key src" "Value s = Value src" "KeyCount s = KeyCount src" "length (Child s) = 2 * T"
      "\<forall>j < 2 * T. Child s ! j = (if j < ?d then None else Child src ! j)"
    by blast
  let ?n' = "put_KeyCount (?o + ?d) (put_Child (?o + ?d) (Child src ! ?d) m)"
  let ?s' = "put_Child ?d None s"
  have nk: "keys_are T n ks vs" "kids_are T n cs" "KeyCount n = length ks" "length vs = length ks"
    and sk: "keys_are T src sks svs" "kids_are T src scs" "KeyCount src = length sks" "length svs = length sks"
    using is_nodeD [OF n] is_nodeD [OF src] by auto
  have sl: "length scs \<le> ?d + 1" using match by (auto simp: kids_match_def)
  have fits': "Suc (length ks + length sks) < 2 * T" "Suc (length ks + length sks) \<le> 2 * T - 1"
    "length ks < 2 * T - 1" "length sks < 2 * T" using fits by auto
  then have "Merge T src k v n = Some (?n', ?s')"
    using ms(1,2) s(5) nk(3) sk(3) by (simp add: Merge_def accessor_defs)
  moreover have "kids_are T ?s' []"
    using s kids_are_nth [OF sk(2)] sl fits by (intro kids_areI) (auto simp: nth_list_update)
  moreover have "keys_are T ?n' (ks @ k # sks) (vs @ v # svs)"
    using K V ms nk sk fits is_nodeD(9,10) [OF n]
    by (intro keys_areI)
      (auto simp: nth_append nth_Cons' nth_list_update keys_are_nth [OF nk(1)])
  moreover have "kids_are T ?n' (cs @ scs)"
    using match unfolding kids_match_def
  proof (elim disjE conjE)
    assume e: "cs = []" "scs = []"
    have nN: "Child n ! j = None" "Child src ! j = None" if "j < 2 * T" for j
      using that kids_are_nth [OF nk(2), of j] kids_are_nth [OF sk(2), of j] e by auto
    show ?thesis
      using C nN ms(6) fits'(1,4) unfolding e
      by (intro kids_areI) (simp_all add: nth_list_update)
  next
    assume e: "length cs = length ks + 1" "length scs = length sks + 1"
    show ?thesis
    proof (rule kids_areI)
      fix j assume j: "j < 2 * T"
      consider "j < ?o" | "?o \<le> j" "j < ?o + ?d" | "j = ?o + ?d" | "?o + ?d < j" by linarith
      then show "Child ?n' ! j = (if j < length (cs @ scs) then Some ((cs @ scs) ! j) else None)"
      proof cases
        case 1
        then show ?thesis using C j e kids_are_nth [OF nk(2), of j] by simp
      next
        case 2
        then have "Child ?n' ! j = Child src ! (j - ?o)" using C j by simp
        then show ?thesis using 2 j e kids_are_nth [OF sk(2), of "j - ?o"] by (simp add: nth_append)
      next
        case 3
        then have "Child ?n' ! j = Child src ! ?d" using j ms(6) by simp
        then show ?thesis using 3 j e kids_are_nth [OF sk(2), of ?d] fits'(4) by (simp add: nth_append)
      next
        case 4
        then show ?thesis using C j e kids_are_nth [OF nk(2), of j] by simp
      qed
    qed (use ms(6) e fits' in auto)
  qed
  ultimately show ?thesis
    using match ms(3) is_nodeD(4) [OF n] by (auto simp: is_node_def kids_match_def)
qed

lemma clear_children:
  assumes "length (Child n) = 2 * T" "a + d \<le> 2 * T"
  shows "\<exists>n'. for_each [a..<a + d] (\<lambda>i n. Some (put_Child i None n)) n = Some n' \<and>
    same_but_children n n' \<and>
    (\<forall>j < 2 * T. Child n' ! j = (if a \<le> j \<and> j < a + d then None else Child n ! j))"
  using assms
proof (induction d)
  case 0
  then show ?case by (auto simp: same_but_children_def)
next
  case (Suc d)
  then obtain m where m: "for_each [a..<a + d] (\<lambda>i n. Some (put_Child i None n)) n = Some m"
    "same_but_children n m"
    and C: "\<forall>j < 2 * T. Child m ! j = (if a \<le> j \<and> j < a + d then None else Child n ! j)"
    by auto
  have "for_each [a..<a + Suc d] (\<lambda>i n. Some (put_Child i None n)) n = Some (put_Child (a + d) None m)"
    using m(1) by (simp add: for_each_append)
  moreover have "Child (put_Child (a + d) None m) ! j = (if a \<le> j \<and> j < a + Suc d then None else Child n ! j)"
    if "j < 2 * T" for j
    using that C m(2) Suc.prems by (cases "j = a + d") (auto simp: nth_list_update same_but_children_def)
  moreover have "same_but_children n (put_Child (a + d) None m)"
    using m(2) by (simp add: same_but_children_def)
  ultimately show ?case by blast
qed

lemma Copy_view:
  assumes n: "length (Key n) = 2 * T - 1" "length (Value n) = 2 * T - 1" "length (Child n) = 2 * T"
    and src: "is_node T src sks svs scs" and T: "0 < T"
  shows "\<exists>n' s'. Copy T src n = Some (n', s') \<and> kids_are T s' [] \<and> is_node T n' sks svs scs"
proof -
  let ?d = "length sks"
  have sk: "keys_are T src sks svs" "kids_are T src scs" "KeyCount src = length sks"
    "length svs = length sks" "length sks \<le> 2 * T - 1" "Leaf src \<longleftrightarrow> scs = []"
    "scs \<noteq> [] \<Longrightarrow> length scs = ?d + 1"
    using is_nodeD [OF src] by auto
  have l: "0 + ?d \<le> 2 * T - 1" "?d \<le> length sks" "?d < 2 * T" using sk(5) T by auto
  from move_entries [OF src n l(1,2)] obtain m s where
    ms: "for_each [0..<?d] (\<lambda>i. move_entry T (0 + i) i) (n, src) = Some (m, s)"
    "KeyCount m = KeyCount n" "Leaf m = Leaf n" "length (Key m) = 2 * T - 1"
    "length (Value m) = 2 * T - 1" "length (Child m) = 2 * T"
    and K: "\<forall>j < 2 * T - 1. Key m ! j = (if 0 \<le> j \<and> j < 0 + ?d then sks ! (j - 0) else Key n ! j)"
    and V: "\<forall>j < 2 * T - 1. Value m ! j = (if 0 \<le> j \<and> j < 0 + ?d then svs ! (j - 0) else Value n ! j)"
    and C: "\<forall>j < 2 * T. Child m ! j = (if 0 \<le> j \<and> j < 0 + ?d then Child src ! (j - 0) else Child n ! j)"
    and s: "Key s = Key src" "Value s = Value src" "KeyCount s = KeyCount src" "length (Child s) = 2 * T"
      "\<forall>j < 2 * T. Child s ! j = (if j < ?d then None else Child src ! j)"
    by blast
  let ?m2 = "put_Child ?d (Child src ! ?d) m" and ?s' = "put_Child ?d None s"
  have cl: "length (Child ?m2) = 2 * T" "?d + 1 + (2 * T - (?d + 1)) \<le> 2 * T"
    "?d + 1 + (2 * T - (?d + 1)) = 2 * T" using ms(6) l(3) by auto
  from clear_children [OF cl(1,2), unfolded cl(3)] obtain m3 where
    m3: "for_each [?d + 1..<2 * T] (\<lambda>i n. Some (put_Child i None n)) ?m2 = Some m3" "same_but_children ?m2 m3"
    and C3: "\<forall>j < 2 * T. Child m3 ! j = (if ?d + 1 \<le> j \<and> j < 2 * T then None else Child ?m2 ! j)"
    by blast
  let ?n' = "put_KeyCount ?d (SetLeaf (Leaf src) m3)"
  have "Copy T src n = Some (?n', ?s')"
    using ms(1) m3(1) s(5) l sk(3,5) by (simp add: Copy_def SetChild_def SetKeyCount_def)
  moreover have "kids_are T ?s' []"
    using s kids_are_nth [OF sk(2)] sk(7) l(3)
    by (intro kids_areI; cases "scs = []") (auto simp: nth_list_update)
  moreover have "keys_are T ?n' sks svs"
    using K V ms m3(2) sk by (intro keys_areI) (auto simp: same_but_children_def)
  moreover have "kids_are T ?n' scs"
  proof (rule kids_areI)
    show "Child ?n' ! j = (if j < length scs then Some (scs ! j) else None)" if "j < 2 * T" for j
      using that C C3 ms(6) kids_are_nth [OF sk(2), of j] sk(7) l(3)
      by (cases "scs = []"; cases "j < ?d"; cases "j = ?d") (auto simp: nth_list_update)
  qed (use m3(2) ms(6) sk in \<open>auto simp: same_but_children_def kids_are_def\<close>)
  ultimately show ?thesis using sk by (auto simp: is_node_def)
qed

end
