(* ===== verification/Btree_Ops.thy ===== *)
theory Btree_Ops
  imports Btree_Shape
begin

text \<open>
  The restructuring operations of \<^verbatim>\<open>src/core/btree.h\<close>: splitting a full child, moving a key from a
  sibling, merging two siblings, and rebalancing a child before the deletion descends into it,
  each with what it does to the list view of the nodes involved.

  A handle to a node that the code returns is a path: \<open>None\<close> is the node itself and \<open>Some j\<close> its
  child \<open>j\<close>. Two different slots own two different nodes, so the code's test that child and
  sibling are not the same object always passes and is not repeated here. A node whose last
  handle goes out of scope is passed to \<open>destroy_node\<close>, whose assertion is thereby part of the
  model.
\<close>

section \<open>Operations\<close>

text \<open>\<^verbatim>\<open>GetChild\<close> followed by the check that the pointer is not null.\<close>

definition GetChild_nonnull :: "nat \<Rightarrow> nat \<Rightarrow> ('k, 'v) BtreeNode \<Rightarrow> ('k, 'v) BtreeNode option" where
  "GetChild_nonnull T i n = do { c \<leftarrow> GetChild T i n; c }"

definition SplitChild ::
  "nat \<Rightarrow> nat \<Rightarrow> ('k, 'v) BtreeNode \<Rightarrow> ('k, 'v) BtreeNode \<Rightarrow> ('k, 'v) BtreeNode option" where
  "SplitChild T childIndex sibling n = do {
     child \<leftarrow> GetChild_nonnull T childIndex n;
     s1 \<leftarrow> for_each [0..<T - 1] (\<lambda>i s. CopyKey T i child (i + T) s) (SetLeaf (Leaf child) sibling);
     s2 \<leftarrow> SetKeyCount T (T - 1) s1;
     (s3, child3) \<leftarrow> (if Leaf child then Some (s2, child)
        else for_each [0..<T] (\<lambda>i (s, c). CopyChild T i c (i + T) s) (s2, child));
     n1 \<leftarrow> PutChild T (childIndex + 1) (Some s3) n;
     n2 \<leftarrow> PutKey_from T childIndex child3 (T - 1) n1;
     child4 \<leftarrow> SetKeyCount T (T - 1) child3;
     n3 \<leftarrow> IncKeyCount T 1 n2;
     Some (put_Child childIndex (Some child4) n3) }"

text \<open>
  \<^verbatim>\<open>PutChild(index, src, srcIndex)\<close> binds the moved pointer to a constant reference, so the
  source slot keeps it; the caller clears that slot next.
\<close>

definition PutChild_from ::
  "nat \<Rightarrow> nat \<Rightarrow> ('k, 'v) BtreeNode \<Rightarrow> nat \<Rightarrow> ('k, 'v) BtreeNode \<Rightarrow> ('k, 'v) BtreeNode option" where
  "PutChild_from T index src srcIndex n =
     guard (index < 2 * T) (guard (srcIndex < 2 * T) (PutChild T index (Child src ! srcIndex) n))"

text \<open>For \<open>childIndex = 0\<close> the index of the left sibling wraps around and is rejected.\<close>

definition sib_index :: "nat \<Rightarrow> nat \<Rightarrow> bool \<Rightarrow> nat option" where
  "sib_index T childIndex left =
     guard (childIndex < 2 * T)
       (if left then guard (childIndex \<noteq> 0) (Some (childIndex - 1))
        else guard (childIndex + 1 < 2 * T) (Some (childIndex + 1)))"

definition ChildGiveKey :: "nat \<Rightarrow> nat \<Rightarrow> bool \<Rightarrow> ('k, 'v) BtreeNode \<Rightarrow> ('k, 'v) BtreeNode option" where
  "ChildGiveKey T childIndex left n = do {
     sibIndex \<leftarrow> sib_index T childIndex left;
     child \<leftarrow> GetChild_nonnull T childIndex n;
     sib \<leftarrow> GetChild_nonnull T sibIndex n;
     (n1, child1, sib1) \<leftarrow>
       (if \<not> left then do {
          child1 \<leftarrow> CopyKey T (KeyCount child) n childIndex child;
          n1 \<leftarrow> CopyKey T childIndex sib 0 n;
          sib1 \<leftarrow> DeleteKey T 0 sib;
          (child2, sib2) \<leftarrow> CopyChild T (KeyCount child1 + 1) sib1 0 child1;
          sib3 \<leftarrow> DeleteChild T 0 sib2;
          Some (n1, child2, sib3) }
        else guard (KeyCount sib \<noteq> 0) (do {
          child1 \<leftarrow> PutKey_from T 0 n (childIndex - 1) child;
          n1 \<leftarrow> CopyKey T (childIndex - 1) sib (KeyCount sib - 1) n;
          sib1 \<leftarrow> DeleteKey T (KeyCount sib - 1) sib;
          child2 \<leftarrow> PutChild_from T 0 sib1 (KeyCount sib1) child1;
          sib2 \<leftarrow> DeleteChild T (KeyCount sib1) sib1;
          Some (n1, child2, sib2) }));
     child3 \<leftarrow> IncKeyCount T 1 child1;
     sib3 \<leftarrow> DecKeyCount T sib1;
     Some (put_Child sibIndex (Some sib3) (put_Child childIndex (Some child3) n1)) }"

definition ChildMerge ::
  "nat \<Rightarrow> nat \<Rightarrow> bool \<Rightarrow> ('k, 'v) BtreeNode \<Rightarrow> (('k, 'v) BtreeNode \<times> nat option) option" where
  "ChildMerge T childIndex left n = do {
     sibIndex \<leftarrow> sib_index T childIndex left;
     child \<leftarrow> GetChild_nonnull T childIndex n;
     sib \<leftarrow> GetChild_nonnull T sibIndex n;
     (n3, merged, gone) \<leftarrow>
       (if left then do {
          k \<leftarrow> GetKey T (childIndex - 1) n;
          v \<leftarrow> GetValue T (childIndex - 1) n;
          (sib1, child1) \<leftarrow> Merge T child k v sib;
          n1 \<leftarrow> DeleteKey T (childIndex - 1) (put_Child sibIndex (Some sib1) n);
          n2 \<leftarrow> DeleteChild T childIndex n1;
          Some (n2, sib1, child1) }
        else do {
          k \<leftarrow> GetKey T childIndex n;
          v \<leftarrow> GetValue T childIndex n;
          (child1, sib1) \<leftarrow> Merge T sib k v child;
          n1 \<leftarrow> DeleteKey T childIndex (put_Child childIndex (Some child1) n);
          n2 \<leftarrow> DeleteChild T (childIndex + 1) n1;
          Some (n2, child1, sib1) });
     n4 \<leftarrow> DecKeyCount T n3;
     if KeyCount n4 = 0 then do {
       (n5, merged1) \<leftarrow> Copy T merged n4;
       _ \<leftarrow> destroy_node T merged1;
       _ \<leftarrow> destroy_node T gone;
       Some (n5, None) }
     else do {
       _ \<leftarrow> destroy_node T gone;
       Some (n4, Some (if left then sibIndex else childIndex)) } }"

definition has_spare :: "nat \<Rightarrow> ('k, 'v) BtreeNode option \<Rightarrow> bool" where
  "has_spare T c \<longleftrightarrow> (case c of None \<Rightarrow> False | Some c \<Rightarrow> T \<le> KeyCount c)"

definition ChildBalance ::
  "nat \<Rightarrow> nat \<Rightarrow> ('k, 'v) BtreeNode \<Rightarrow> (('k, 'v) BtreeNode \<times> nat option) option" where
  "ChildBalance T childIndex n =
     guard (\<not> Leaf n) (guard (childIndex < 2 * T) (do {
       child \<leftarrow> GetChild_nonnull T childIndex n;
       if KeyCount child < T then do {
         left \<leftarrow> (if 0 < childIndex then GetChild T (childIndex - 1) n else Some None);
         right \<leftarrow> (if childIndex < KeyCount n then GetChild T (childIndex + 1) n else Some None);
         if has_spare T left then do {
           n' \<leftarrow> ChildGiveKey T childIndex True n; Some (n', Some childIndex) }
         else if has_spare T right then do {
           n' \<leftarrow> ChildGiveKey T childIndex False n; Some (n', Some childIndex) }
         else if left \<noteq> None then ChildMerge T childIndex True n
         else if right \<noteq> None then ChildMerge T childIndex False n
         else None }
       else Some (n, Some childIndex) }))"


section \<open>The view with key-value pairs\<close>

definition nd ::
  "nat \<Rightarrow> ('k, 'v) BtreeNode \<Rightarrow> ('k \<times> 'v) list \<Rightarrow> ('k, 'v) BtreeNode list \<Rightarrow> bool" where
  "nd T n ps cs \<longleftrightarrow> is_node T n (map fst ps) (map snd ps) cs"

lemma ndD:
  assumes "nd T n ps cs"
  shows "is_node T n (map fst ps) (map snd ps) cs" "KeyCount n = length ps" "Leaf n \<longleftrightarrow> cs = []"
    "length ps \<le> 2 * T - 1" "cs \<noteq> [] \<Longrightarrow> length cs = length ps + 1" "length (Child n) = 2 * T"
    "kids_are T n cs" "keys_are T n (map fst ps) (map snd ps)"
  using is_nodeD [OF assms [unfolded nd_def]] assms by (auto simp: nd_def)

lemma nd_unique: "nd T n ps cs \<Longrightarrow> nd T n ps' cs' \<Longrightarrow> ps = ps' \<and> cs = cs'"
  using is_node_unique [of T n "map fst ps" "map snd ps" cs] unfolding nd_def
  by (metis zip_map_fst_snd)

lemma nd_child:
  assumes "nd T n ps (as @ c # bs)"
  shows "GetChild T (length as) n = Some (Some c)" "GetChild_nonnull T (length as) n = Some c"
    "Child n ! length as = Some c" "length as < 2 * T"
proof -
  have l: "length as < length (as @ c # bs)" by simp
  show "GetChild T (length as) n = Some (Some c)"
    using is_node_GetChild [OF ndD(1) [OF assms] l] by simp
  then show "GetChild_nonnull T (length as) n = Some c" by (simp add: GetChild_nonnull_def)
  show "Child n ! length as = Some c" using is_node_Child [OF ndD(1) [OF assms] l] by simp
  show "length as < 2 * T" using ndD(7) [OF assms] by (simp add: kids_are_def)
qed

lemma nd_key:
  assumes "nd T n (qs @ (k, v) # rs) cs"
  shows "GetKey T (length qs) n = Some k" "GetValue T (length qs) n = Some v" "length qs < 2 * T - 1"
    "Key n ! length qs = k" "Value n ! length qs = v"
proof -
  note n = ndD(1) [OF assms]
  have l: "length qs < length (map fst (qs @ (k, v) # rs))" by simp
  show "GetKey T (length qs) n = Some k" using is_node_GetKey [OF n l] by (simp add: nth_append)
  then show "Key n ! length qs = k" by (simp add: GetKey_def)
  show "GetValue T (length qs) n = Some v" using is_node_GetValue [OF n l] by (simp add: nth_append)
  then show "Value n ! length qs = v" by (simp add: GetValue_def)
  show "length qs < 2 * T - 1" using ndD(4) [OF assms] by simp
qed

text \<open>Writing a child back into its slot.\<close>

lemma kids_are_put:
  assumes "kids_are T n (as @ c # bs)"
  shows "kids_are T (put_Child (length as) (Some d) n) (as @ d # bs)"
  using assms by (auto simp: kids_are_def list_update_append)

lemma nd_put:
  assumes "nd T n ps (as @ c # bs)"
  shows "nd T (put_Child (length as) (Some d) n) ps (as @ d # bs)"
  using assms kids_are_put [of T n as c bs d]
  by (auto simp: nd_def is_node_def keys_are_def)

lemma ndI:
  assumes "keys_are T n (map fst ps) (map snd ps)" "kids_are T n cs" "KeyCount n = length ps"
    and "Leaf n \<longleftrightarrow> cs = []" "cs \<noteq> [] \<Longrightarrow> length cs = length ps + 1"
  shows "nd T n ps cs"
  using assms by (auto simp: nd_def is_node_def)


section \<open>Splitting a full child\<close>

lemma Split_keys_loop:
  assumes "nd T child cps ccs" "length cps = 2 * T - 1" "keys_are T s [] []" "d \<le> T - 1"
  shows "\<exists>s'. for_each [0..<d] (\<lambda>i s. CopyKey T i child (i + T) s) s = Some s' \<and> same_but_keys s s' \<and>
    keys_are T s' (map fst (take d (drop T cps))) (map snd (take d (drop T cps)))"
  using assms(4)
proof (induction d)
  case 0
  then show ?case using assms(3) by (simp add: same_but_keys_def)
next
  case (Suc d)
  then obtain m where m: "for_each [0..<d] (\<lambda>i s. CopyKey T i child (i + T) s) s = Some m"
    "same_but_keys s m" "keys_are T m (map fst (take d (drop T cps))) (map snd (take d (drop T cps)))"
    by auto
  have d: "d < 2 * T - 1" "d + T < 2 * T - 1" "d + T < length cps" "d < T - 1"
    using Suc.prems assms(2) by auto
  then obtain k v where kv: "cps ! (d + T) = (k, v)" by (cases "cps ! (d + T)") simp
  have g: "GetKey T (d + T) child = Some k" "GetValue T (d + T) child = Some v"
    using is_node_GetKey [OF ndD(1) [OF assms(1)], of "d + T"]
      is_node_GetValue [OF ndD(1) [OF assms(1)], of "d + T"] d(3) kv by auto
  let ?m = "put_Value d v (put_Key d k m)"
  have "for_each [0..<Suc d] (\<lambda>i s. CopyKey T i child (i + T) s) s = Some ?m"
    using m(1) d g by (simp add: for_each_append CopyKey_def SetKey_def SetValue_def)
  moreover have "same_but_keys s ?m" using m(2) by (simp add: same_but_keys_def)
  moreover have "take (Suc d) (drop T cps) = take d (drop T cps) @ [(k, v)]"
    using d kv by (simp add: take_Suc_conv_app_nth add.commute)
  then have "keys_are T ?m (map fst (take (Suc d) (drop T cps))) (map snd (take (Suc d) (drop T cps)))"
    using m(3) d by (auto simp: keys_are_def take_Suc_conv_app_nth take_update_swap list_update_append min_def)
  ultimately show ?case by blast
qed

lemma Split_kids_loop:
  assumes "length (Child c) = 2 * T" "length (Child s) = 2 * T" "d \<le> T"
  shows "\<exists>s' c'. for_each [0..<d] (\<lambda>i (s, c). CopyChild T i c (i + T) s) (s, c) = Some (s', c') \<and>
    same_but_children s s' \<and> same_but_children c c' \<and>
    (\<forall>j < 2 * T. Child s' ! j = (if j < d then Child c ! (j + T) else Child s ! j)) \<and>
    (\<forall>j < 2 * T. Child c' ! j = (if T \<le> j \<and> j < T + d then None else Child c ! j))"
  using assms(3)
proof (induction d)
  case 0
  then show ?case by (auto simp: same_but_children_def)
next
  case (Suc d)
  then obtain s1 c1 where m: "for_each [0..<d] (\<lambda>i (s, c). CopyChild T i c (i + T) s) (s, c) = Some (s1, c1)"
    "same_but_children s s1" "same_but_children c c1"
    and S: "\<forall>j < 2 * T. Child s1 ! j = (if j < d then Child c ! (j + T) else Child s ! j)"
    and C: "\<forall>j < 2 * T. Child c1 ! j = (if T \<le> j \<and> j < T + d then None else Child c ! j)"
    by auto
  have d: "d < 2 * T" "d + T < 2 * T" using Suc.prems by auto
  let ?s = "put_Child d (Child c ! (d + T)) s1" and ?c = "put_Child (d + T) None c1"
  have "for_each [0..<Suc d] (\<lambda>i (s, c). CopyChild T i c (i + T) s) (s, c) = Some (?s, ?c)"
    using m(1) d C by (simp add: for_each_append CopyChild_def SetChild_def)
  moreover have "same_but_children s ?s" "same_but_children c ?c"
    using m by (simp_all add: same_but_children_def)
  moreover have "\<forall>j < 2 * T. Child ?s ! j = (if j < Suc d then Child c ! (j + T) else Child s ! j)"
    using S m(2) assms(2) d by (auto simp: nth_list_update same_but_children_def)
  moreover have "\<forall>j < 2 * T. Child ?c ! j = (if T \<le> j \<and> j < T + Suc d then None else Child c ! j)"
    using C m(3) assms(1) d by (auto simp: nth_list_update same_but_children_def)
  ultimately show ?case by blast
qed

text \<open>What becomes of the sibling and the child before the parent is updated.\<close>

lemma Split_halves:
  assumes c: "nd T c cps ccs" and full: "length cps = 2 * T - 1" and T: "2 \<le> T"
    and s: "keys_are T s [] []" "kids_are T s []" "Leaf s = Leaf c"
  shows "\<exists>s1 s3 c3. for_each [0..<T - 1] (\<lambda>i s. CopyKey T i c (i + T) s) s = Some s1 \<and>
    (if Leaf c then Some (put_KeyCount (T - 1) s1, c)
     else for_each [0..<T] (\<lambda>i (s, c). CopyChild T i c (i + T) s) (put_KeyCount (T - 1) s1, c)) = Some (s3, c3) \<and>
    nd T s3 (drop T cps) (drop T ccs) \<and> keys_are T c3 (map fst cps) (map snd cps) \<and>
    KeyCount c3 = 2 * T - 1 \<and> nd T (put_KeyCount (T - 1) c3) (take (T - 1) cps) (take T ccs)"
proof -
  from Split_keys_loop [OF c full s(1) order_refl] obtain s1 where
    s1: "for_each [0..<T - 1] (\<lambda>i s. CopyKey T i c (i + T) s) s = Some s1" "same_but_keys s s1"
      "keys_are T s1 (map fst (take (T - 1) (drop T cps))) (map snd (take (T - 1) (drop T cps)))"
    by blast
  let ?s2 = "put_KeyCount (T - 1) s1"
  have l: "take (T - 1) (drop T cps) = drop T cps" "length (drop T cps) = T - 1" using full by auto
  have k2: "keys_are T ?s2 (map fst (drop T cps)) (map snd (drop T cps))"
    using s1(3) unfolding l(1) by (simp add: keys_are_def)
  have kc: "keys_are T c (map fst cps) (map snd cps)" using ndD(8) [OF c] .
  have half: "keys_are T (put_KeyCount m c') (map fst (take (T - 1) cps)) (map snd (take (T - 1) cps))"
    if "Key c' = Key c" "Value c' = Value c" for c' m
    using kc that full by (auto simp: keys_are_def take_map [symmetric] min_def)
  show ?thesis
  proof (cases "Leaf c")
    case True
    then have [simp]: "ccs = []" using ndD(3) [OF c] by simp
    have "nd T ?s2 (drop T cps) (drop T ccs)"
      using s1(2) s True k2 l(2) full by (intro ndI) (auto simp: same_but_keys_def kids_are_def)
    moreover have "nd T (put_KeyCount (T - 1) c) (take (T - 1) cps) (take T ccs)"
      using half [of c] True full ndD(7) [OF c] by (intro ndI) (auto simp: kids_are_def)
    ultimately show ?thesis using s1(1) True kc ndD(2) [OF c] full by auto
  next
    case False
    then have lc: "length ccs = 2 * T" "ccs \<noteq> []" using ndD(3,5) [OF c] full T by auto
    have "length (Child ?s2) = 2 * T" using s1(2) kids_are_length [OF s(2)] by (simp add: same_but_keys_def)
    from Split_kids_loop [OF ndD(6) [OF c] this order_refl] obtain s3 c3 where
      sc: "for_each [0..<T] (\<lambda>i (s, c). CopyChild T i c (i + T) s) (?s2, c) = Some (s3, c3)"
        "same_but_children ?s2 s3" "same_but_children c c3"
      and S: "\<forall>j < 2 * T. Child s3 ! j = (if j < T then Child c ! (j + T) else Child ?s2 ! j)"
      and C: "\<forall>j < 2 * T. Child c3 ! j = (if T \<le> j \<and> j < T + T then None else Child c ! j)"
      by blast
    have "kids_are T s3 (drop T ccs)"
      using S sc(2) s1(2) lc kids_are_nth [OF ndD(7) [OF c]] kids_are_nth [OF s(2)] kids_are_length [OF s(2)]
      by (intro kids_areI) (auto simp: same_but_keys_def same_but_children_def add.commute)
    then have "nd T s3 (drop T cps) (drop T ccs)"
      using sc(2) s1(2) k2 s(3) False lc full T
      by (intro ndI) (auto simp: keys_are_def same_but_keys_def same_but_children_def)
    moreover have "kids_are T (put_KeyCount (T - 1) c3) (take T ccs)"
      using C sc(3) lc ndD(6) [OF c] kids_are_nth [OF ndD(7) [OF c]]
      by (intro kids_areI) (auto simp: same_but_children_def)
    then have "nd T (put_KeyCount (T - 1) c3) (take (T - 1) cps) (take T ccs)"
      using half [of c3] sc(3) False lc full T by (intro ndI) (auto simp: same_but_children_def)
    ultimately show ?thesis using s1(1) sc(1,3) False kc ndD(2) [OF c] full
      by (auto simp: same_but_children_def keys_are_def)
  qed
qed

lemma SplitChild_view:
  assumes n: "nd T n (qs @ rs) (as @ c # bs)" and i: "length as = length qs"
    and room: "length (qs @ rs) < 2 * T - 1" and T: "2 \<le> T"
    and c: "nd T c cps ccs" and full: "length cps = 2 * T - 1"
    and s: "keys_are T s [] []" "kids_are T s []"
  shows "\<exists>n' c' s'. SplitChild T (length as) s n = Some n' \<and>
    nd T n' (qs @ cps ! (T - 1) # rs) (as @ c' # s' # bs) \<and>
    nd T c' (take (T - 1) cps) (take T ccs) \<and> nd T s' (drop T cps) (drop T ccs)"
proof -
  let ?s0 = "SetLeaf (Leaf c) s"
  have s0: "keys_are T ?s0 [] []" "kids_are T ?s0 []" "Leaf ?s0 = Leaf c"
    using s by (auto simp: keys_are_def kids_are_def)
  from Split_halves [OF c full T s0] obtain s1 s3 c3 where
    h: "for_each [0..<T - 1] (\<lambda>i s. CopyKey T i c (i + T) s) ?s0 = Some s1"
    "(if Leaf c then Some (put_KeyCount (T - 1) s1, c)
     else for_each [0..<T] (\<lambda>i (s, c). CopyChild T i c (i + T) s) (put_KeyCount (T - 1) s1, c)) = Some (s3, c3)"
    "nd T s3 (drop T cps) (drop T ccs)" "keys_are T c3 (map fst cps) (map snd cps)"
    "KeyCount c3 = 2 * T - 1" "nd T (put_KeyCount (T - 1) c3) (take (T - 1) cps) (take T ccs)"
    by blast
  obtain k v where kv: "cps ! (T - 1) = (k, v)" by (cases "cps ! (T - 1)") simp
  have len: "length bs = length rs" using ndD(5) [OF n] i by simp
  have "kids_are T n ((as @ [c]) @ bs)" using ndD(7) [OF n] by simp
  moreover have "length ((as @ [c]) @ bs) = KeyCount n + 1" "length ((as @ [c]) @ bs) < 2 * T"
    using ndD(2) [OF n] i len room by auto
  ultimately obtain n1 where n1: "PutChild T (length as + 1) (Some s3) n = Some n1" "same_but_children n n1"
    "kids_are T n1 (as @ c # s3 # bs)"
    using PutChild_view [of T n "(as @ [c]) @ bs" "length as + 1" s3] by auto
  have kn1: "keys_are T n1 (map fst (qs @ rs)) (map snd (qs @ rs))" "KeyCount n1 = length (map fst (qs @ rs))"
    using n1(2) ndD(2,8) [OF n] by (auto simp: same_but_children_def keys_are_def)
  have pf: "PutKey_from T (length as) c3 (T - 1) n1 = PutKey T (length as) k v n1"
    using keys_are_nth [OF h(4), of "T - 1"] h(5) full kv T
    by (auto simp: PutKey_from_def PutKey_def GetKey_def GetValue_def guard_def split: Option.bind_split)
  have iq: "length as \<le> length (map fst (qs @ rs))" using i by simp
  from PutKey_view [OF kn1 _ iq, of k v] room obtain n2 where
    n2: "PutKey T (length as) k v n1 = Some n2" "same_but_keys n1 n2"
      "keys_are T n2 (map fst (qs @ (k, v) # rs)) (map snd (qs @ (k, v) # rs))"
    using i by auto
  let ?n3 = "put_KeyCount (KeyCount n2 + 1) n2"
  let ?n' = "put_Child (length as) (Some (put_KeyCount (T - 1) c3)) ?n3"
  have kc2: "KeyCount n2 = length (qs @ rs)" using n2(2) kn1 by (simp add: same_but_keys_def)
  have "nd T ?n3 (qs @ (k, v) # rs) (as @ c # s3 # bs)"
    using n2 n1 kc2 i len ndD(3) [OF n]
    by (intro ndI) (auto simp: same_but_keys_def same_but_children_def keys_are_def kids_are_def)
  then have "nd T ?n' (qs @ cps ! (T - 1) # rs) (as @ put_KeyCount (T - 1) c3 # s3 # bs)"
    using nd_put kv by metis
  moreover have "KeyCount n2 + 1 \<le> 2 * T - 1" "T - 1 \<le> 2 * T - 1" using kc2 room by auto
  then have "SplitChild T (length as) s n = Some ?n'"
    using nd_child(2) [OF n] h(1,2) n1(1) pf n2(1)
    by (cases "Leaf c") (auto simp: SplitChild_def SetKeyCount_def IncKeyCount_def)
  ultimately show ?thesis using h(3,6) by blast
qed


section \<open>Moving a key through the parent\<close>

lemma CopyKey_eq:
  assumes "nd T src (qs @ (k, v) # rs) cs" "i < 2 * T - 1"
  shows "CopyKey T i src (length qs) n = Some (put_Value i v (put_Key i k n))"
  using nd_key [OF assms(1)] assms(2) by (simp add: CopyKey_def SetKey_def SetValue_def)

lemma nd_CopyKey:
  assumes "nd T n (qs @ p # rs) cs"
  shows "nd T (put_Value (length qs) v (put_Key (length qs) k n)) (qs @ (k, v) # rs) cs"
proof -
  note n = ndD(8) [OF assms] and len = ndD(4) [OF assms]
  have "keys_are T (put_Value (length qs) v (put_Key (length qs) k n))
    (map fst (qs @ (k, v) # rs)) (map snd (qs @ (k, v) # rs))"
    using n by (auto simp: keys_are_def take_update_swap list_update_append)
  then show ?thesis
    using ndD [OF assms] by (intro ndI) (auto simp: kids_are_def)
qed

lemma keys_are_snoc:
  assumes "keys_are T n ks vs" "length ks < 2 * T - 1"
  shows "keys_are T (put_Value (length ks) v (put_Key (length ks) k n)) (ks @ [k]) (vs @ [v])"
  using assms keys_are_nth [OF assms(1)]
  by (intro keys_areI) (auto simp: keys_are_def nth_append nth_list_update)

lemma kids_are_snoc:
  assumes "kids_are T n cs" "length cs < 2 * T"
  shows "kids_are T (put_Child (length cs) (Some c) n) (cs @ [c])"
  using assms kids_are_nth [OF assms(1)] kids_are_length [OF assms(1)]
  by (intro kids_areI) (auto simp: nth_append nth_list_update)

lemma kids_match_pairs:
  assumes "nd T c cps ccs" "nd T d dps dcs"
  shows "kids_match ccs (map fst cps) dcs (map fst dps) \<longleftrightarrow> (ccs = [] \<longleftrightarrow> dcs = [])"
  using ndD(5) [OF assms(1)] ndD(5) [OF assms(2)] by (auto simp: kids_match_def)

lemma replicate_update_same: "(replicate m x)[i := x] = replicate m x"
  by (cases "i < m") (auto intro!: nth_equalityI simp: nth_list_update)

lemma put_Child_None_same: "kids_are T n [] \<Longrightarrow> put_Child i None n = n"
  by (cases n) (simp add: kids_are_def replicate_update_same)

text \<open>The two nodes of a transfer from the right sibling to the child.\<close>

lemma Give_right_nodes:
  assumes c: "nd T c cps ccs" and d: "nd T d (p # dps) dcs" and match: "ccs = [] \<longleftrightarrow> dcs = []"
    and room: "length cps < 2 * T - 1"
  shows "\<exists>d1 c2 d2 d3.
    DeleteKey T 0 d = Some d1 \<and>
    CopyChild T (length cps + 1) d1 0 (put_Value (length cps) v (put_Key (length cps) k c)) = Some (c2, d2) \<and>
    DeleteChild T 0 d2 = Some d3 \<and> KeyCount d3 = Suc (length dps) \<and> KeyCount c2 = length cps \<and>
    nd T (put_KeyCount (Suc (length cps)) c2) (cps @ [(k, v)]) (ccs @ take 1 dcs) \<and>
    nd T (put_KeyCount (length dps) d3) dps (drop 1 dcs)"
proof -
  have kd: "keys_are T d (map fst (p # dps)) (map snd (p # dps))" "KeyCount d = length (map fst (p # dps))"
    "0 < length (map fst (p # dps))" using ndD(2,8) [OF d] by auto
  from DeleteKey_view [OF kd] obtain d1 where d1: "DeleteKey T 0 d = Some d1" "same_but_keys d d1"
    "keys_are T d1 (map fst dps) (map snd dps)" by auto
  let ?c1 = "put_Value (length cps) v (put_Key (length cps) k c)"
  let ?c2 = "put_Child (length cps + 1) (Child d ! 0) ?c1" and ?d2 = "put_Child 0 None d1"
  have T: "length cps + 1 < 2 * T" "0 < 2 * T" "length dps + 1 < 2 * T"
    using room ndD(4) [OF d] by auto
  have cc: "CopyChild T (length cps + 1) d1 0 ?c1 = Some (?c2, ?d2)"
    using T d1(2) by (simp add: CopyChild_def SetChild_def same_but_keys_def)
  have l2: "length (Child ?d2) = 2 * T" "KeyCount ?d2 < 2 * T" "0 < KeyCount ?d2 + 1"
    using d1(2) ndD(2,6) [OF d] T(3) by (auto simp: same_but_keys_def)
  from DeleteChild_raw [OF l2] obtain d3 where d3: "DeleteChild T 0 ?d2 = Some d3" "same_but_children ?d2 d3"
    and C: "\<forall>j < 2 * T. Child d3 ! j = (if j = KeyCount ?d2 then None
       else if 0 \<le> j \<and> j < KeyCount ?d2 then Child ?d2 ! (j + 1) else Child ?d2 ! j)" by blast
  have kc: "KeyCount ?d2 = length dps + 1" "Child d1 = Child d"
    using d1(2) ndD(2) [OF d] by (auto simp: same_but_keys_def)
  have kidsd: "kids_are T d3 (drop 1 dcs)"
    using C d3(2) l2 kc T kids_are_nth [OF ndD(7) [OF d]] ndD(5) [OF d]
    by (intro kids_areI; cases "dcs = []") (auto simp: same_but_children_def nth_list_update)
  have kidsc: "kids_are T ?c2 (ccs @ take 1 dcs)"
  proof (cases dcs)
    case Nil
    then have "Child d ! 0 = None" "kids_are T c []"
      using kids_are_nth [OF ndD(7) [OF d] T(2)] match ndD(7) [OF c] by auto
    then show ?thesis
      using put_Child_None_same [of T c "length cps + 1"] Nil match
      by (auto simp: kids_are_def dest: arg_cong [of _ c Child])
  next
    case (Cons a dcs')
    then have "Child d ! 0 = Some a" "length ccs = length cps + 1"
      using kids_are_nth [OF ndD(7) [OF d] T(2)] match ndD(5) [OF c] by auto
    then show ?thesis
      using kids_are_snoc [of T ?c1 ccs a] ndD(7) [OF c] Cons T by (simp add: kids_are_def)
  qed
  have "nd T (put_KeyCount (Suc (length cps)) ?c2) (cps @ [(k, v)]) (ccs @ take 1 dcs)"
    using keys_are_snoc [OF ndD(8) [OF c], of v k] room kidsc ndD(3,5) [OF c] ndD(5) [OF d] match
    by (intro ndI; cases dcs) (auto simp: keys_are_def kids_are_def)
  moreover have "nd T (put_KeyCount (length dps) d3) dps (drop 1 dcs)"
    using d1 d3(2) kidsd ndD(3,5) [OF d]
    by (intro ndI; cases dcs) (auto simp: keys_are_def kids_are_def same_but_keys_def same_but_children_def)
  moreover have "KeyCount d3 = Suc (length dps)" "KeyCount ?c2 = length cps"
    using d3(2) kc ndD(2) [OF c] by (auto simp: same_but_children_def)
  ultimately show ?thesis using d1(1) cc d3(1) by blast
qed

text \<open>The two nodes of a transfer from the left sibling to the child.\<close>

lemma Give_left_nodes:
  assumes c: "nd T c cps ccs" and d: "nd T d (dps @ [p]) dcs" and match: "ccs = [] \<longleftrightarrow> dcs = []"
    and room: "length cps < 2 * T - 1"
  shows "\<exists>c1 d1 c2 d2. PutKey T 0 k v c = Some c1 \<and> DeleteKey T (length dps) d = Some d1 \<and>
    KeyCount d1 = Suc (length dps) \<and> PutChild_from T 0 d1 (Suc (length dps)) c1 = Some c2 \<and>
    DeleteChild T (Suc (length dps)) d1 = Some d2 \<and> KeyCount d2 = Suc (length dps) \<and> KeyCount c2 = length cps \<and>
    nd T (put_KeyCount (Suc (length cps)) c2) ((k, v) # cps) (drop (length dps + 1) dcs @ ccs) \<and>
    nd T (put_KeyCount (length dps) d2) dps (take (length dps + 1) dcs)"
proof -
  have kd: "keys_are T d (map fst (dps @ [p])) (map snd (dps @ [p]))" "KeyCount d = length (map fst (dps @ [p]))"
    "length dps < length (map fst (dps @ [p]))" using ndD(2,8) [OF d] by auto
  from DeleteKey_view [OF kd] obtain d1 where d1: "DeleteKey T (length dps) d = Some d1" "same_but_keys d d1"
    "keys_are T d1 (map fst dps) (map snd dps)" by auto
  have kc: "keys_are T c (map fst cps) (map snd cps)" "KeyCount c = length (map fst cps)"
    "length (map fst cps) < 2 * T - 1" "0 \<le> length (map fst cps)" using ndD(2,8) [OF c] room by auto
  from PutKey_view [OF kc, of k v] obtain c1 where c1: "PutKey T 0 k v c = Some c1" "same_but_keys c c1"
    "keys_are T c1 (map fst ((k, v) # cps)) (map snd ((k, v) # cps))" by auto
  have T: "length cps + 1 < 2 * T" "0 < 2 * T" "length dps + 1 < 2 * T" using room ndD(4) [OF d] by auto
  have d1k: "KeyCount d1 = Suc (length dps)" "kids_are T d1 dcs" "Leaf d1 = Leaf d"
    and c1k: "KeyCount c1 = length cps" "kids_are T c1 ccs" "Leaf c1 = Leaf c"
    using d1(2) c1(2) ndD(2,7) [OF d] ndD(2,7) [OF c] by (auto simp: same_but_keys_def kids_are_def)
  have "\<exists>c2. PutChild T 0 (Child d1 ! Suc (length dps)) c1 = Some c2 \<and> same_but_children c1 c2 \<and>
    kids_are T c2 (drop (length dps + 1) dcs @ ccs)"
  proof (cases "dcs = []")
    case True
    then have "Child d1 ! Suc (length dps) = None" using kids_are_nth [OF d1k(2), of "Suc (length dps)"] T by simp
    then show ?thesis using PutChild_leaf_view [of T c1 0] c1k True match T by auto
  next
    case False
    then have l: "length dcs = length dps + 2" "length ccs = length cps + 1"
      using ndD(5) [OF d] ndD(5) [OF c] match by auto
    then have "Child d1 ! Suc (length dps) = Some (dcs ! Suc (length dps))"
      using kids_are_nth [OF d1k(2), of "Suc (length dps)"] T by simp
    moreover have "drop (length dps + 1) dcs = [dcs ! Suc (length dps)]"
      using l(1) by (simp add: Cons_nth_drop_Suc [symmetric])
    ultimately show ?thesis
      using PutChild_view [OF c1k(2), of 0 "dcs ! Suc (length dps)"] l T c1k by simp
  qed
  then obtain c2 where c2: "PutChild T 0 (Child d1 ! Suc (length dps)) c1 = Some c2" "same_but_children c1 c2"
    "kids_are T c2 (drop (length dps + 1) dcs @ ccs)" by blast
  have "\<exists>d2. DeleteChild T (Suc (length dps)) d1 = Some d2 \<and> same_but_children d1 d2 \<and>
    kids_are T d2 (take (length dps + 1) dcs)"
    using DeleteChild_leaf_view [of T d1 "Suc (length dps)"] DeleteChild_view [OF d1k(2), of "Suc (length dps)"]
      d1k T ndD(5) [OF d] by (cases "dcs = []") auto
  then obtain d2 where d2: "DeleteChild T (Suc (length dps)) d1 = Some d2" "same_but_children d1 d2"
    "kids_are T d2 (take (length dps + 1) dcs)" by blast
  have "nd T (put_KeyCount (Suc (length cps)) c2) ((k, v) # cps) (drop (length dps + 1) dcs @ ccs)"
    using c1 c1k c2 ndD(3,5) [OF c] ndD(5) [OF d] match
    by (intro ndI; cases "dcs = []") (auto simp: keys_are_def kids_are_def same_but_children_def)
  moreover have "nd T (put_KeyCount (length dps) d2) dps (take (length dps + 1) dcs)"
    using d1 d1k d2 ndD(3,5) [OF d]
    by (intro ndI; cases "dcs = []") (auto simp: keys_are_def kids_are_def same_but_children_def)
  moreover have "PutChild_from T 0 d1 (Suc (length dps)) c1 = Some c2"
    using c2(1) T by (simp add: PutChild_from_def)
  moreover have "KeyCount d2 = Suc (length dps)" "KeyCount c2 = length cps"
    using d2(2) c2(2) d1k c1k by (auto simp: same_but_children_def)
  ultimately show ?thesis using c1(1) d1(1) d1k(1) d2(1) by blast
qed

lemma ChildGiveKey_right:
  assumes n: "nd T n (qs @ (k, v) # rs) (as @ c # d # bs)" and i: "length as = length qs"
    and c: "nd T c cps ccs" and d: "nd T d (p # dps) dcs" and match: "ccs = [] \<longleftrightarrow> dcs = []"
    and room: "length cps < 2 * T - 1"
  shows "\<exists>n' c' d'. ChildGiveKey T (length as) False n = Some n' \<and>
    nd T n' (qs @ p # rs) (as @ c' # d' # bs) \<and>
    nd T c' (cps @ [(k, v)]) (ccs @ take 1 dcs) \<and> nd T d' dps (drop 1 dcs)"
proof -
  from Give_right_nodes [OF c d match room, of v k] obtain d1 c2 d2 d3 where
    m: "DeleteKey T 0 d = Some d1"
      "CopyChild T (length cps + 1) d1 0 (put_Value (length cps) v (put_Key (length cps) k c)) = Some (c2, d2)"
      "DeleteChild T 0 d2 = Some d3" "KeyCount d3 = Suc (length dps)" "KeyCount c2 = length cps"
      "nd T (put_KeyCount (Suc (length cps)) c2) (cps @ [(k, v)]) (ccs @ take 1 dcs)"
      "nd T (put_KeyCount (length dps) d3) dps (drop 1 dcs)" by blast
  obtain pk pv where p: "p = (pk, pv)" by (cases p)
  have n2: "nd T n (qs @ (k, v) # rs) ((as @ [c]) @ d # bs)" using n by simp
  let ?n1 = "put_Value (length as) pv (put_Key (length as) pk n)"
  let ?c3 = "put_KeyCount (Suc (length cps)) c2" and ?d4 = "put_KeyCount (length dps) d3"
  let ?n' = "put_Child (Suc (length as)) (Some ?d4) (put_Child (length as) (Some ?c3) ?n1)"
  have l: "length as < 2 * T" "Suc (length as) < 2 * T" "length as < 2 * T - 1"
    "Suc (length cps) \<le> 2 * T - 1" "length dps \<le> 2 * T - 1" "length cps < 2 * T - 1"
    using nd_child(4) [OF n] nd_child(4) [OF n2] nd_key(3) [OF n] i room ndD(4) [OF d] by auto
  have ck: "CopyKey T (length cps) n (length as) c = Some (put_Value (length cps) v (put_Key (length cps) k c))"
    "CopyKey T (length as) d 0 n = Some ?n1"
    using CopyKey_eq [OF n l(6), of c] CopyKey_eq [of T d "[]" pk pv dps dcs "length as" n] d p i l(3)
    by simp_all
  have "ChildGiveKey T (length as) False n = Some ?n'"
    using nd_child(2) [OF n] nd_child(2) [OF n2] ndD(2) [OF c] l m ck
    by (simp add: ChildGiveKey_def sib_index_def IncKeyCount_def DecKeyCount_def SetKeyCount_def)
  moreover have "nd T ?n' (qs @ p # rs) (as @ ?c3 # ?d4 # bs)"
    using nd_put [of T "put_Child (length as) (Some ?c3) ?n1" "qs @ p # rs" "as @ [?c3]" d bs ?d4]
      nd_put [OF nd_CopyKey [OF n, of pv pk], of ?c3] by (simp add: p i)
  ultimately show ?thesis using m(6,7) by blast
qed

lemma ChildGiveKey_left:
  assumes n: "nd T n (qs @ (k, v) # rs) (as @ d # c # bs)" and i: "length as = length qs"
    and c: "nd T c cps ccs" and d: "nd T d (dps @ [p]) dcs" and match: "ccs = [] \<longleftrightarrow> dcs = []"
    and room: "length cps < 2 * T - 1"
  shows "\<exists>n' c' d'. ChildGiveKey T (Suc (length as)) True n = Some n' \<and>
    nd T n' (qs @ p # rs) (as @ d' # c' # bs) \<and>
    nd T c' ((k, v) # cps) (drop (length dps + 1) dcs @ ccs) \<and> nd T d' dps (take (length dps + 1) dcs)"
proof -
  from Give_left_nodes [OF c d match room, of k v] obtain c1 d1 c2 d2 where
    m: "PutKey T 0 k v c = Some c1" "DeleteKey T (length dps) d = Some d1"
      "KeyCount d1 = Suc (length dps)" "PutChild_from T 0 d1 (Suc (length dps)) c1 = Some c2"
      "DeleteChild T (Suc (length dps)) d1 = Some d2" "KeyCount d2 = Suc (length dps)" "KeyCount c2 = length cps"
      "nd T (put_KeyCount (Suc (length cps)) c2) ((k, v) # cps) (drop (length dps + 1) dcs @ ccs)"
      "nd T (put_KeyCount (length dps) d2) dps (take (length dps + 1) dcs)" by blast
  obtain pk pv where p: "p = (pk, pv)" by (cases p)
  have n2: "nd T n (qs @ (k, v) # rs) ((as @ [d]) @ c # bs)" using n by simp
  let ?n1 = "put_Value (length as) pv (put_Key (length as) pk n)"
  let ?c3 = "put_KeyCount (Suc (length cps)) c2" and ?d4 = "put_KeyCount (length dps) d2"
  let ?n' = "put_Child (length as) (Some ?d4) (put_Child (Suc (length as)) (Some ?c3) ?n1)"
  have l: "length as < 2 * T" "Suc (length as) < 2 * T" "length as < 2 * T - 1"
    "Suc (length cps) \<le> 2 * T - 1" "length dps \<le> 2 * T - 1"
    using nd_child(4) [OF n] nd_child(4) [OF n2] nd_key(3) [OF n] i room ndD(4) [OF d] by auto
  have pf: "PutKey_from T 0 n (length as) c = PutKey T 0 k v c"
    using PutKey_from_eq [OF ndD(1) [OF n], of "length as" 0 c] i by (simp add: nth_append)
  have ck: "CopyKey T (length as) d (length dps) n = Some ?n1"
    using CopyKey_eq [OF d [unfolded p], of "length as" n] l(3) by simp
  have "ChildGiveKey T (Suc (length as)) True n = Some ?n'"
    using nd_child(2) [OF n] nd_child(2) [OF n2] ndD(2) [OF d] l m pf ck
    by (simp add: ChildGiveKey_def sib_index_def IncKeyCount_def DecKeyCount_def SetKeyCount_def)
  moreover have "nd T ?n' (qs @ p # rs) (as @ ?d4 # ?c3 # bs)"
    using nd_put [of T ?n1 "qs @ p # rs" "as @ [d]" c bs ?c3] nd_CopyKey [OF n, of pv pk]
      nd_put [of T "put_Child (Suc (length as)) (Some ?c3) ?n1" "qs @ p # rs" as d "?c3 # bs" ?d4]
    by (simp add: p i)
  ultimately show ?thesis using m(8,9) by blast
qed


section \<open>Merging two siblings\<close>

text \<open>The parent loses the separating key and the right one of the two children.\<close>

lemma Merge_parent:
  assumes n: "nd T n (qs @ (k, v) # rs) (as @ c # d # bs)" and i: "length as = length qs"
  shows "\<exists>n1 n2. DeleteKey T (length as) (put_Child (length as) (Some c') n) = Some n1 \<and>
    DeleteChild T (Suc (length as)) n1 = Some n2 \<and>
    KeyCount n2 = Suc (length qs + length rs) \<and>
    nd T (put_KeyCount (length qs + length rs) n2) (qs @ rs) (as @ c' # bs)"
proof -
  let ?n0 = "put_Child (length as) (Some c') n"
  have n0: "nd T ?n0 (qs @ (k, v) # rs) (as @ c' # d # bs)" using nd_put [OF n] .
  have k0: "keys_are T ?n0 (map fst (qs @ (k, v) # rs)) (map snd (qs @ (k, v) # rs))"
    "KeyCount ?n0 = length (map fst (qs @ (k, v) # rs))" "length as < length (map fst (qs @ (k, v) # rs))"
    using ndD(2,8) [OF n0] i by auto
  from DeleteKey_view [OF k0] obtain n1 where n1: "DeleteKey T (length as) ?n0 = Some n1" "same_but_keys ?n0 n1"
    "keys_are T n1 (map fst (qs @ rs)) (map snd (qs @ rs))" using i by auto
  have k1: "kids_are T n1 (as @ c' # d # bs)" "length (as @ c' # d # bs) = KeyCount n1 + 1"
    "Suc (length as) < length (as @ c' # d # bs)" "Leaf n1 = Leaf n"
    using n1(2) ndD(2,5,7) [OF n0] by (auto simp: same_but_keys_def kids_are_def)
  from DeleteChild_view [OF k1(1-3)] obtain n2 where n2: "DeleteChild T (Suc (length as)) n1 = Some n2"
    "same_but_children n1 n2" "kids_are T n2 (as @ c' # bs)" by auto
  have "nd T (put_KeyCount (length qs + length rs) n2) (qs @ rs) (as @ c' # bs)"
    using n1(3) n2(2,3) k1 ndD(2,3,5) [OF n]
    by (intro ndI) (auto simp: keys_are_def kids_are_def same_but_children_def)
  moreover have "KeyCount n2 = Suc (length qs + length rs)"
    using n2(2) n1(2) ndD(2) [OF n] by (simp add: same_but_children_def same_but_keys_def)
  ultimately show ?thesis using n1(1) n2(1) by blast
qed

lemma Merge_nodes:
  assumes "nd T c cps ccs" "nd T d dps dcs" "ccs = [] \<longleftrightarrow> dcs = []" "length cps + length dps < 2 * T - 1"
  shows "\<exists>c' d'. Merge T d k v c = Some (c', d') \<and> destroy_node T d' = Some () \<and>
    nd T c' (cps @ (k, v) # dps) (ccs @ dcs)"
  using Merge_view [OF ndD(1) [OF assms(1)] ndD(1) [OF assms(2)], of k v] assms
    kids_match_pairs [OF assms(1,2)] destroy_ok by (fastforce simp: nd_def)

lemma Copy_nodes:
  assumes "length (Key n) = 2 * T - 1" "length (Value n) = 2 * T - 1" "length (Child n) = 2 * T"
    and "nd T m ps cs" "0 < T"
  shows "\<exists>n' m'. Copy T m n = Some (n', m') \<and> destroy_node T m' = Some () \<and> nd T n' ps cs"
  using Copy_view [OF assms(1-3) ndD(1) [OF assms(4)] assms(5)] destroy_ok by (fastforce simp: nd_def)

text \<open>Both directions of \<^verbatim>\<open>ChildMerge\<close> keep the left one of two neighbours.\<close>

lemma ChildMerge_dirs:
  assumes n: "nd T n (qs @ (k, v) # rs) (as @ c # d # bs)" and i: "length as = length qs"
  shows "ChildMerge T (Suc (length as)) True n = ChildMerge T (length as) False n"
proof -
  have n2: "nd T n (qs @ (k, v) # rs) ((as @ [c]) @ d # bs)" using n by simp
  have "Suc (length as) < 2 * T" "length as < 2 * T" using nd_child(4) [OF n2] by auto
  then show ?thesis
    using nd_child(2) [OF n] nd_child(2) [OF n2]
    by (simp add: ChildMerge_def sib_index_def)
qed

lemma ChildMerge_view:
  assumes n: "nd T n (qs @ (k, v) # rs) (as @ c # d # bs)" and i: "length as = length qs"
    and c: "nd T c cps ccs" and d: "nd T d dps dcs" and match: "ccs = [] \<longleftrightarrow> dcs = []"
    and room: "length cps + length dps < 2 * T - 1"
  shows "\<exists>n' m. nd T m (cps @ (k, v) # dps) (ccs @ dcs) \<and>
    (if qs @ rs = [] then ChildMerge T (length as) False n = Some (n', None) \<and>
       nd T n' (cps @ (k, v) # dps) (ccs @ dcs)
     else ChildMerge T (length as) False n = Some (n', Some (length as)) \<and>
       nd T n' (qs @ rs) (as @ m # bs))"
proof -
  have n2: "nd T n (qs @ (k, v) # rs) ((as @ [c]) @ d # bs)" using n by simp
  have l: "length as < 2 * T" "Suc (length as) < 2 * T" "length qs + length rs \<le> 2 * T - 1"
    using nd_child(4) [OF n] nd_child(4) [OF n2] ndD(4) [OF n] by auto
  from Merge_nodes [OF c d match room, of k v] obtain m g where
    mg: "Merge T d k v c = Some (m, g)" "destroy_node T g = Some ()" "nd T m (cps @ (k, v) # dps) (ccs @ dcs)"
    by blast
  from Merge_parent [OF n i, of m] obtain n1 n2 where
    p: "DeleteKey T (length as) (put_Child (length as) (Some m) n) = Some n1"
      "DeleteChild T (Suc (length as)) n1 = Some n2" "KeyCount n2 = Suc (length qs + length rs)"
      "nd T (put_KeyCount (length qs + length rs) n2) (qs @ rs) (as @ m # bs)" by blast
  note front = nd_child(2) [OF n] nd_child(2) [OF \<open>nd T n (qs @ (k, v) # rs) ((as @ [c]) @ d # bs)\<close>]
    nd_key(1,2) [OF n]
  show ?thesis
  proof (cases "qs @ rs = []")
    case True
    then have e: "qs = []" "rs = []" "as = []" using i by auto
    let ?n4 = "put_KeyCount 0 n2"
    have "nd T ?n4 [] (as @ m # bs)" using p(4) e by simp
    then have arr: "length (Key ?n4) = 2 * T - 1" "length (Value ?n4) = 2 * T - 1" "length (Child ?n4) = 2 * T"
      using is_nodeD(8-10) [OF ndD(1)] by blast+
    have "0 < T" using l by simp
    from Copy_nodes [OF arr mg(3) this] obtain n5 m' where
      cp: "Copy T m ?n4 = Some (n5, m')" "destroy_node T m' = Some ()" "nd T n5 (cps @ (k, v) # dps) (ccs @ dcs)"
      by blast
    have "ChildMerge T (length as) False n = Some (n5, None)"
      using front l i mg(1,2) p(1-3) cp(1,2) e
      by (simp add: ChildMerge_def sib_index_def DecKeyCount_def SetKeyCount_def)
    then show ?thesis using True mg(3) cp(3) by auto
  next
    case False
    then have "length qs + length rs \<noteq> 0" by simp
    then have "ChildMerge T (length as) False n = Some (put_KeyCount (length qs + length rs) n2, Some (length as))"
      using front l i mg(1,2) p(1-3)
      by (auto simp: ChildMerge_def sib_index_def DecKeyCount_def SetKeyCount_def)
    then show ?thesis using False mg(3) p(4) by auto
  qed
qed

end
