(* ===== verification/Btree_Balance.thy ===== *)
theory Btree_Balance
  imports Btree_Ops
begin

text \<open>
  Whole subtrees: \<open>bt T h n xs\<close> says that \<open>n\<close> is a B-tree of minimum degree \<open>T\<close> whose leaves are
  all at depth \<open>h\<close> and whose in-order list of entries is \<open>xs\<close>. The lemmas lift the node
  operations to subtrees and describe \<^verbatim>\<open>ChildBalance\<close> as moving the focus on one child.
\<close>

section \<open>Interleaving keys and subtrees\<close>

definition lft :: "'a list list \<Rightarrow> 'a list \<Rightarrow> 'a list" where
  "lft xss ps = concat (map2 (\<lambda>x p. x @ [p]) xss ps)"

definition rgt :: "'a list \<Rightarrow> 'a list list \<Rightarrow> 'a list" where
  "rgt ps xss = concat (map2 (\<lambda>p x. p # x) ps xss)"

definition il :: "'a list list \<Rightarrow> 'a list \<Rightarrow> 'a list" where
  "il xss ps = hd xss @ rgt ps (tl xss)"

lemma lft_simps [simp]:
  "lft [] ps = []" "lft xss [] = []" "lft (x # xss) (p # ps) = x @ p # lft xss ps"
  by (simp_all add: lft_def)

lemma rgt_simps [simp]:
  "rgt [] xss = []" "rgt ps [] = []" "rgt (p # ps) (x # xss) = p # x @ rgt ps xss"
  by (simp_all add: rgt_def)

lemma lft_append [simp]: "length xss = length ps \<Longrightarrow> lft (xss @ yss) (ps @ qs) = lft xss ps @ lft yss qs"
  by (simp add: lft_def)

lemma rgt_append [simp]: "length xss = length ps \<Longrightarrow> rgt (ps @ qs) (xss @ yss) = rgt ps xss @ rgt qs yss"
  by (simp add: rgt_def)

lemma il_split:
  "length ass = length qs \<Longrightarrow> il (ass @ x # bss) (qs @ rs) = lft ass qs @ x @ rgt rs bss"
proof (induction ass qs arbitrary: x rule: list_induct2)
  case Nil
  then show ?case by (simp add: il_def)
next
  case (Cons a ass q qs)
  then show ?case by (cases ass) (auto simp: il_def)
qed

lemma il_append:
  assumes "length ass = length qs + 1" "length bss = length rs + 1"
  shows "il (ass @ bss) (qs @ p # rs) = il ass qs @ p # il bss rs"
proof -
  obtain ass' x where a: "ass = ass' @ [x]" "length ass' = length qs" using assms(1)
    by (cases ass rule: rev_cases) auto
  obtain y bss' where b: "bss = y # bss'" using assms(2) by (cases bss) auto
  show ?thesis
    using il_split [OF a(2), of x bss "p # rs"] il_split [OF a(2), of x "[]" "[]"] a b
    by (simp add: il_def)
qed


section \<open>Subtrees\<close>

primrec bt :: "nat \<Rightarrow> nat \<Rightarrow> ('k, 'v) BtreeNode \<Rightarrow> ('k \<times> 'v) list \<Rightarrow> bool" where
  "bt T 0 n xs \<longleftrightarrow> nd T n xs []"
| "bt T (Suc h) n xs \<longleftrightarrow> (\<exists>ps cs xss. nd T n ps cs \<and> ps \<noteq> [] \<and> length cs = length ps + 1 \<and>
     list_all2 (\<lambda>c x. bt T h c x \<and> T - 1 \<le> KeyCount c) cs xss \<and> xs = il xss ps)"

text \<open>A child that is not the root carries at least \<open>T - 1\<close> keys.\<close>

abbreviation okc :: "nat \<Rightarrow> nat \<Rightarrow> ('k, 'v) BtreeNode \<Rightarrow> ('k \<times> 'v) list \<Rightarrow> bool" where
  "okc T h c x \<equiv> bt T h c x \<and> T - 1 \<le> KeyCount c"

text \<open>The content of a node of height \<open>h\<close> with the entries \<open>ps\<close> and the children \<open>cs\<close>.\<close>

fun body :: "nat \<Rightarrow> nat \<Rightarrow> ('k \<times> 'v) list \<Rightarrow> ('k, 'v) BtreeNode list \<Rightarrow> ('k \<times> 'v) list \<Rightarrow> bool" where
  "body T 0 ps cs xs \<longleftrightarrow> cs = [] \<and> xs = ps"
| "body T (Suc h) ps cs xs \<longleftrightarrow> length cs = length ps + 1 \<and>
     (\<exists>xss. list_all2 (\<lambda>c x. bt T h c x \<and> T - 1 \<le> KeyCount c) cs xss \<and> xs = il xss ps)"

lemma bt_SucI:
  "nd T n ps cs \<Longrightarrow> ps \<noteq> [] \<Longrightarrow> length cs = length ps + 1 \<Longrightarrow>
   list_all2 (\<lambda>c x. bt T h c x \<and> T - 1 \<le> KeyCount c) cs xss \<Longrightarrow> xs = il xss ps \<Longrightarrow> bt T (Suc h) n xs"
  unfolding bt.simps by blast

lemma bt_body: "bt T h n xs \<longleftrightarrow> (\<exists>ps cs. nd T n ps cs \<and> body T h ps cs xs \<and> (h = 0 \<or> ps \<noteq> []))"
  by (cases h) auto

lemma bt_bodyE:
  assumes "bt T h n xs"
  obtains ps cs where "nd T n ps cs" "body T h ps cs xs" "h = 0 \<or> ps \<noteq> []" "KeyCount n = length ps"
    "Leaf n \<longleftrightarrow> h = 0"
proof -
  from assms obtain ps cs where a: "nd T n ps cs" "body T h ps cs xs" "h = 0 \<or> ps \<noteq> []"
    unfolding bt_body by blast
  moreover have "KeyCount n = length ps" "Leaf n \<longleftrightarrow> h = 0" using ndD(2,3) [OF a(1)] a(2) by (cases h; auto)+
  ultimately show thesis by (rule that)
qed

lemma bt_bodyI: "nd T n ps cs \<Longrightarrow> body T h ps cs xs \<Longrightarrow> h = 0 \<or> ps \<noteq> [] \<Longrightarrow> bt T h n xs"
  unfolding bt_body by blast

lemma body_kids: "body T h ps cs xs \<Longrightarrow> (cs = [] \<longleftrightarrow> h = 0)"
  by (cases h) auto

lemma body_merge:
  assumes "body T h cps ccs x" "body T h dps dcs y"
  shows "body T h (cps @ p # dps) (ccs @ dcs) (x @ p # y)"
proof (cases h)
  case 0
  then show ?thesis using assms by simp
next
  case (Suc h')
  with assms obtain xss yss where
    a: "length ccs = length cps + 1" "list_all2 (okc T h') ccs xss" "x = il xss cps" and
    b: "length dcs = length dps + 1" "list_all2 (okc T h') dcs yss" "y = il yss dps" by auto
  then have "length xss = length cps + 1" "length yss = length dps + 1"
    by (auto dest: list_all2_lengthD)
  then show ?thesis using Suc a b il_append [of xss cps yss dps p] list_all2_appendI [OF a(2) b(2)] by auto
qed

lemma body_split:
  assumes "body T h (qs @ p # rs) cs z"
  shows "\<exists>x y. z = x @ p # y \<and> body T h qs (take (length qs + 1) cs) x \<and>
    body T h rs (drop (length qs + 1) cs) y"
proof (cases h)
  case 0
  then show ?thesis using assms by auto
next
  case (Suc h')
  let ?m = "length qs + 1"
  from assms Suc obtain xss where
    a: "length cs = length qs + length rs + 2" "list_all2 (okc T h') cs xss" "z = il xss (qs @ p # rs)" by auto
  have l: "length xss = length qs + length rs + 2" using a(1,2) by (auto dest: list_all2_lengthD)
  have "z = il (take ?m xss) qs @ p # il (drop ?m xss) rs"
    using il_append [of "take ?m xss" qs "drop ?m xss" rs p] l a(3) by simp
  moreover have "list_all2 (okc T h') (take ?m cs) (take ?m xss)" "list_all2 (okc T h') (drop ?m cs) (drop ?m xss)"
    using a(2) by (auto intro: list_all2_takeI list_all2_dropI)
  ultimately show ?thesis using Suc a(1) by auto
qed

lemma body_split_at:
  assumes "body T h ps cs z" "i < length ps"
  shows "\<exists>x y. z = x @ ps ! i # y \<and> body T h (take i ps) (take (Suc i) cs) x \<and>
    body T h (drop (Suc i) ps) (drop (Suc i) cs) y"
  using body_split [of T h "take i ps" "ps ! i" "drop (Suc i) ps" cs z] assms
  by (simp add: id_take_nth_drop [symmetric] min_def)

text \<open>The focus on the child in slot \<open>j\<close>: \<open>L\<close> and \<open>R\<close> are the entries to its left and right.\<close>

definition focus ::
  "nat \<Rightarrow> nat \<Rightarrow> ('k, 'v) BtreeNode \<Rightarrow> nat \<Rightarrow> ('k, 'v) BtreeNode \<Rightarrow> ('k \<times> 'v) list
     \<Rightarrow> ('k \<times> 'v) list \<Rightarrow> ('k \<times> 'v) list \<Rightarrow> bool" where
  "focus T h n j c L x R \<longleftrightarrow> (\<exists>qs rs as bs ass bss. nd T n (qs @ rs) (as @ c # bs) \<and> qs @ rs \<noteq> [] \<and>
     j = length as \<and> length as = length qs \<and> list_all2 (\<lambda>c x. bt T h c x \<and> T - 1 \<le> KeyCount c) as ass \<and>
     list_all2 (\<lambda>c x. bt T h c x \<and> T - 1 \<le> KeyCount c) bs bss \<and> bt T h c x \<and> L = lft ass qs \<and> R = rgt rs bss)"

lemma focusD:
  assumes "focus T h n j c L x R"
  shows "GetChild_nonnull T j n = Some c" "Child n ! j = Some c" "bt T h c x" "j < 2 * T" "\<not> Leaf n"
    "j \<le> KeyCount n"
  using assms nd_child ndD(2,3) unfolding focus_def by fastforce+

lemma focus_plug:
  assumes "focus T h n j c L x R" "bt T h c' x'" "T - 1 \<le> KeyCount c'"
  shows "bt T (Suc h) (put_Child j (Some c') n) (L @ x' @ R)"
proof -
  from assms(1) obtain qs rs as bs ass bss where
    f: "nd T n (qs @ rs) (as @ c # bs)" "qs @ rs \<noteq> []" "j = length as" "length as = length qs"
      "list_all2 (okc T h) as ass" "list_all2 (okc T h) bs bss" "L = lft ass qs" "R = rgt rs bss"
    unfolding focus_def by blast
  have "length bs = length rs" using ndD(5) [OF f(1)] f(4) by simp
  moreover have "L @ x' @ R = il (ass @ x' # bss) (qs @ rs)"
    using il_split [of ass qs x' bss rs] f by (auto dest: list_all2_lengthD)
  moreover have "list_all2 (okc T h) (as @ c' # bs) (ass @ x' # bss)"
    using f assms(2,3) by (auto intro!: list_all2_appendI)
  ultimately show ?thesis
    using nd_put [OF f(1), of c'] f(2-4) by (intro bt_SucI) simp_all
qed

lemma focus_at:
  assumes "bt T (Suc h) n xs" "j \<le> KeyCount n"
  obtains c L x R qs rs where "focus T h n j c L x R" "T - 1 \<le> KeyCount c" "xs = L @ x @ R"
    "keys_are T n (map fst (qs @ rs)) (map snd (qs @ rs))" "KeyCount n = length (qs @ rs)" "length qs = j"
    "if qs = [] then L = [] else \<exists>l. L = l @ [last qs]"
    "if rs = [] then R = [] else \<exists>r. R = hd rs # r"
proof -
  from assms(1) obtain ps cs xss where
    b: "nd T n ps cs" "ps \<noteq> []" "length cs = length ps + 1" "list_all2 (okc T h) cs xss" "xs = il xss ps" by auto
  let ?q = "take j ps" and ?r = "drop j ps"
  have j: "j \<le> length ps" "j < length cs" "length xss = length cs"
    using assms(2) ndD(2) [OF b(1)] b(3,4) by (auto dest: list_all2_lengthD)
  have cs: "cs = take j cs @ cs ! j # drop (Suc j) cs" using j by (simp add: id_take_nth_drop)
  have xss: "xss = take j xss @ xss ! j # drop (Suc j) xss" using j by (simp add: id_take_nth_drop)
  have all: "list_all2 (okc T h) (take j cs) (take j xss)" "list_all2 (okc T h) (drop (Suc j) cs) (drop (Suc j) xss)"
    "okc T h (cs ! j) (xss ! j)"
    using b(4) j by (auto intro: list_all2_takeI list_all2_dropI list_all2_nthD2 simp: list_all2_conv_all_nth)
  let ?L = "lft (take j xss) ?q" and ?R = "rgt ?r (drop (Suc j) xss)"
  have "focus T h n j (cs ! j) ?L (xss ! j) ?R"
    unfolding focus_def using b(1,2) cs j all
    by (intro exI [of _ ?q] exI [of _ ?r] exI [of _ "take j cs"] exI [of _ "drop (Suc j) cs"]
        exI [of _ "take j xss"] exI [of _ "drop (Suc j) xss"]) simp
  moreover have "xs = ?L @ xss ! j @ ?R"
    using il_split [of "take j xss" ?q "xss ! j" "drop (Suc j) xss" ?r] j b(5) xss by simp
  moreover have "if ?q = [] then ?L = [] else \<exists>l. ?L = l @ [last ?q]"
  proof (cases ?q rule: rev_cases)
    case (snoc q p)
    then have "length (take j xss) = length q + 1" using j
      by (metis append_take_drop_id length_append_singleton length_take min.absorb2 Suc_eq_plus1 le_SucI order.trans
          le_Suc_eq Suc_leI less_imp_le_nat)
    then obtain us u where "take j xss = us @ [u]" "length us = length q"
      by (cases "take j xss" rule: rev_cases) auto
    then show ?thesis using snoc by (simp add: lft_def)
  qed auto
  moreover have "if ?r = [] then ?R = [] else \<exists>r. ?R = hd ?r # r"
  proof (cases ?r)
    case (Cons p r)
    then have "length (drop (Suc j) xss) = Suc (length r)" using j b(3)
      by (metis length_drop length_Cons diff_Suc_Suc Suc_eq_plus1)
    then obtain u us where "drop (Suc j) xss = u # us" by (cases "drop (Suc j) xss") auto
    then show ?thesis using Cons by simp
  qed simp
  ultimately show thesis
    using that [of "cs ! j" ?L "xss ! j" ?R ?q ?r] all(3) ndD(2,8) [OF b(1)] j by simp
qed


section \<open>Rebalancing one child\<close>

lemma Give_right_bt:
  assumes n: "nd T n (qs @ (k, v) # rs) (as @ c # d # bs)" and i: "length as = length qs"
    and c: "bt T h c x" "KeyCount c < 2 * T - 1" and d: "bt T h d y" "2 \<le> KeyCount d"
  shows "\<exists>n' c' d' p a y'. ChildGiveKey T (length as) False n = Some n' \<and>
    nd T n' (qs @ p # rs) (as @ c' # d' # bs) \<and> bt T h c' (x @ (k, v) # a) \<and> bt T h d' y' \<and>
    y = a @ p # y' \<and> KeyCount c' = KeyCount c + 1 \<and> KeyCount d' = KeyCount d - 1"
proof -
  from c(1) obtain cps ccs where c': "nd T c cps ccs" "body T h cps ccs x" "KeyCount c = length cps"
    by (blast elim: bt_bodyE)
  from d(1) obtain dps' dcs where d0: "nd T d dps' dcs" "body T h dps' dcs y" "KeyCount d = length dps'"
    by (blast elim: bt_bodyE)
  with d(2) obtain p dps where d': "nd T d (p # dps) dcs" "body T h (p # dps) dcs y" "dps \<noteq> []"
    "KeyCount d = Suc (length dps)" by (cases dps'; cases "tl dps'") auto
  have match: "ccs = [] \<longleftrightarrow> dcs = []" using body_kids c'(2) d'(2) by blast
  from ChildGiveKey_right [OF n i c'(1) d'(1) match] c c'(3) obtain n' e f where
    r: "ChildGiveKey T (length as) False n = Some n'" "nd T n' (qs @ p # rs) (as @ e # f # bs)"
      "nd T e (cps @ [(k, v)]) (ccs @ take 1 dcs)" "nd T f dps (drop 1 dcs)" by auto
  from body_split_at [OF d'(2), of 0] obtain a y' where
    b: "y = a @ p # y'" "body T h [] (take 1 dcs) a" "body T h dps (drop 1 dcs) y'" by auto
  have "bt T h e (x @ (k, v) # a)" using r(3) body_merge [OF c'(2) b(2)] by (intro bt_bodyI) auto
  moreover have "bt T h f y'" using r(4) b(3) d'(3) by (intro bt_bodyI) auto
  ultimately show ?thesis using r(1,2) b(1) ndD(2) [OF r(3)] ndD(2) [OF r(4)] c'(3) d'(4)
    by (intro exI [of _ n'] exI [of _ e] exI [of _ f] exI [of _ p] exI [of _ a] exI [of _ y']) simp
qed

lemma Give_left_bt:
  assumes n: "nd T n (qs @ (k, v) # rs) (as @ d # c # bs)" and i: "length as = length qs"
    and c: "bt T h c x" "KeyCount c < 2 * T - 1" and d: "bt T h d y" "2 \<le> KeyCount d"
  shows "\<exists>n' c' d' p a y'. ChildGiveKey T (Suc (length as)) True n = Some n' \<and>
    nd T n' (qs @ p # rs) (as @ d' # c' # bs) \<and> bt T h c' (a @ (k, v) # x) \<and> bt T h d' y' \<and>
    y = y' @ p # a \<and> KeyCount c' = KeyCount c + 1 \<and> KeyCount d' = KeyCount d - 1"
proof -
  from c(1) obtain cps ccs where c': "nd T c cps ccs" "body T h cps ccs x" "KeyCount c = length cps"
    by (blast elim: bt_bodyE)
  from d(1) obtain dps' dcs where d0: "nd T d dps' dcs" "body T h dps' dcs y" "KeyCount d = length dps'"
    by (blast elim: bt_bodyE)
  with d(2) obtain p dps where d': "nd T d (dps @ [p]) dcs" "body T h (dps @ [p]) dcs y" "dps \<noteq> []"
    "KeyCount d = Suc (length dps)"
    by (cases dps' rule: rev_cases) fastforce+
  have match: "ccs = [] \<longleftrightarrow> dcs = []" using body_kids c'(2) d'(2) by blast
  from ChildGiveKey_left [OF n i c'(1) d'(1) match] c c'(3) obtain n' e f where
    r: "ChildGiveKey T (Suc (length as)) True n = Some n'" "nd T n' (qs @ p # rs) (as @ f # e # bs)"
      "nd T e ((k, v) # cps) (drop (length dps + 1) dcs @ ccs)" "nd T f dps (take (length dps + 1) dcs)" by auto
  from body_split [OF d'(2)] obtain y' a where
    b: "y = y' @ p # a" "body T h dps (take (length dps + 1) dcs) y'" "body T h [] (drop (length dps + 1) dcs) a"
    by auto
  have "bt T h e (a @ (k, v) # x)" using r(3) body_merge [OF b(3) c'(2)] by (intro bt_bodyI) auto
  moreover have "bt T h f y'" using r(4) b(2) d'(3) by (intro bt_bodyI) auto
  ultimately show ?thesis using r(1,2) b(1) ndD(2) [OF r(3)] ndD(2) [OF r(4)] c'(3) d'(4)
    by (intro exI [of _ n'] exI [of _ e] exI [of _ f] exI [of _ p] exI [of _ a] exI [of _ y']) simp
qed

lemma Merge_bt:
  assumes n: "nd T n (qs @ (k, v) # rs) (as @ c # d # bs)" and i: "length as = length qs"
    and c: "bt T h c x" and d: "bt T h d y" and room: "KeyCount c + KeyCount d < 2 * T - 1"
  shows "\<exists>n' m. bt T h m (x @ (k, v) # y) \<and> KeyCount m = KeyCount c + KeyCount d + 1 \<and>
    Key m ! KeyCount c = k \<and>
    (if qs @ rs = [] then ChildMerge T (length as) False n = Some (n', None) \<and>
       bt T h n' (x @ (k, v) # y) \<and> KeyCount n' = KeyCount c + KeyCount d + 1 \<and> Key n' ! KeyCount c = k
     else ChildMerge T (length as) False n = Some (n', Some (length as)) \<and>
       nd T n' (qs @ rs) (as @ m # bs))"
proof -
  from c(1) obtain cps ccs where c': "nd T c cps ccs" "body T h cps ccs x" "KeyCount c = length cps"
    by (blast elim: bt_bodyE)
  from d(1) obtain dps dcs where d': "nd T d dps dcs" "body T h dps dcs y" "KeyCount d = length dps"
    by (blast elim: bt_bodyE)
  have match: "ccs = [] \<longleftrightarrow> dcs = []" using body_kids c'(2) d'(2) by blast
  from ChildMerge_view [OF n i c'(1) d'(1) match] room c'(3) d'(3) obtain n' m where
    m: "nd T m (cps @ (k, v) # dps) (ccs @ dcs)"
      "if qs @ rs = [] then ChildMerge T (length as) False n = Some (n', None) \<and>
         nd T n' (cps @ (k, v) # dps) (ccs @ dcs)
       else ChildMerge T (length as) False n = Some (n', Some (length as)) \<and> nd T n' (qs @ rs) (as @ m # bs)"
    by auto
  have merged: "bt T h e (x @ (k, v) # y)" "KeyCount e = KeyCount c + KeyCount d + 1" "Key e ! KeyCount c = k"
    if "nd T e (cps @ (k, v) # dps) (ccs @ dcs)" for e
    using bt_bodyI [OF that body_merge [OF c'(2) d'(2)]] ndD(2) [OF that] nd_key(4) [OF that] c'(3) d'(3)
    by simp_all
  show ?thesis
    using m(2) merged [OF m(1)] merged [of n']
    by (intro exI [of _ n'] exI [of _ m]; cases "qs @ rs = []") simp_all
qed


text \<open>The outcome of a rebalancing step that starts from a focus with the sides \<open>L\<close> and \<open>R\<close>.\<close>

definition balanced ::
  "nat \<Rightarrow> nat \<Rightarrow> ('k, 'v) BtreeNode \<Rightarrow> ('k \<times> 'v) list \<Rightarrow> ('k \<times> 'v) list \<Rightarrow> ('k \<times> 'v) list
     \<Rightarrow> ('k, 'v) BtreeNode \<Rightarrow> nat option \<Rightarrow> bool" where
  "balanced T h n L x R n' p \<longleftrightarrow>
     (case p of
        None \<Rightarrow> KeyCount n = 1 \<and> bt T h n' (L @ x @ R) \<and> T \<le> KeyCount n'
      | Some j \<Rightarrow> \<exists>c a b L' R'. focus T h n' j c L' (a @ x @ b) R' \<and> L = L' @ a \<and> R = b @ R' \<and>
          T \<le> KeyCount c \<and> KeyCount n \<le> KeyCount n' + 1)"

lemma balanced_right:
  assumes n: "nd T n (qs @ (k, v) # rs) (as @ c # d # bs)" and i: "length as = length qs"
    and A: "list_all2 (okc T h) as ass" and B: "list_all2 (okc T h) bs bss"
    and c: "bt T h c x" "KeyCount c = T - 1" and d: "bt T h d y" "T - 1 \<le> KeyCount d" and T: "2 \<le> T"
  shows "if T \<le> KeyCount d
    then \<exists>n'. ChildGiveKey T (length as) False n = Some n' \<and>
      balanced T h n (lft ass qs) x ((k, v) # y @ rgt rs bss) n' (Some (length as))
    else \<exists>n' p. ChildMerge T (length as) False n = Some (n', p) \<and>
      balanced T h n (lft ass qs) x ((k, v) # y @ rgt rs bss) n' p"
proof (cases "T \<le> KeyCount d")
  case True
  then have "KeyCount c < 2 * T - 1" "2 \<le> KeyCount d" using c(2) T by auto
  from Give_right_bt [OF n i c(1) this(1) d(1) this(2)] obtain n' c' d' p a y' where
    r: "ChildGiveKey T (length as) False n = Some n'" "nd T n' (qs @ p # rs) (as @ c' # d' # bs)"
      "bt T h c' (x @ (k, v) # a)" "bt T h d' y'" "y = a @ p # y'" "KeyCount c' = KeyCount c + 1"
      "KeyCount d' = KeyCount d - 1" by blast
  have "list_all2 (okc T h) (d' # bs) (y' # bss)" using B r True by auto
  then have "focus T h n' (length as) c' (lft ass qs) (x @ (k, v) # a) (p # y' @ rgt rs bss)"
    unfolding focus_def using r i A
    by (intro exI [of _ qs] exI [of _ "p # rs"] exI [of _ as] exI [of _ "d' # bs"] exI [of _ ass]
        exI [of _ "y' # bss"]) simp
  moreover have "T \<le> KeyCount c'" using r(6) c(2) T by simp
  ultimately have "balanced T h n (lft ass qs) x ((k, v) # y @ rgt rs bss) n' (Some (length as))"
    unfolding balanced_def using r(5) ndD(2) [OF n] ndD(2) [OF r(2)]
    by simp (rule exI [of _ c'], rule exI [of _ "[]"], rule exI [of _ "(k, v) # a"], simp)
  then show ?thesis using True r(1) by auto
next
  case False
  then have "KeyCount c + KeyCount d < 2 * T - 1" using c(2) T by simp
  from Merge_bt [OF n i c(1) d(1) this] obtain n' m where
    m: "bt T h m (x @ (k, v) # y)" "KeyCount m = KeyCount c + KeyCount d + 1"
      "if qs @ rs = [] then ChildMerge T (length as) False n = Some (n', None) \<and>
         bt T h n' (x @ (k, v) # y) \<and> KeyCount n' = KeyCount c + KeyCount d + 1 \<and> Key n' ! KeyCount c = k
       else ChildMerge T (length as) False n = Some (n', Some (length as)) \<and>
         nd T n' (qs @ rs) (as @ m # bs)" by blast
  have kc: "T \<le> KeyCount c + KeyCount d + 1" using c(2) d(2) T by simp
  show ?thesis
  proof (cases "qs @ rs = []")
    case True
    then show ?thesis using False m(3) kc ndD(2) [OF n] by (auto simp: balanced_def)
  next
    case ne: False
    with m(3) have m3: "ChildMerge T (length as) False n = Some (n', Some (length as))"
      "nd T n' (qs @ rs) (as @ m # bs)" by auto
    have "focus T h n' (length as) m (lft ass qs) (x @ (k, v) # y) (rgt rs bss)"
      unfolding focus_def using m3(2) ne i A B m(1) by blast
    then have "balanced T h n (lft ass qs) x ((k, v) # y @ rgt rs bss) n' (Some (length as))"
      unfolding balanced_def using kc m(2) ndD(2) [OF n] ndD(2) [OF m3(2)]
      by simp (rule exI [of _ m], rule exI [of _ "[]"], rule exI [of _ "(k, v) # y"], simp)
    then show ?thesis using False m3(1) by auto
  qed
qed

lemma balanced_left:
  assumes n: "nd T n (qs @ (k, v) # rs) (as @ d # c # bs)" and i: "length as = length qs"
    and A: "list_all2 (okc T h) as ass" and B: "list_all2 (okc T h) bs bss"
    and c: "bt T h c x" "KeyCount c = T - 1" and d: "bt T h d y" "T - 1 \<le> KeyCount d" and T: "2 \<le> T"
  shows "if T \<le> KeyCount d
    then \<exists>n'. ChildGiveKey T (Suc (length as)) True n = Some n' \<and>
      balanced T h n (lft ass qs @ y @ [(k, v)]) x (rgt rs bss) n' (Some (Suc (length as)))
    else \<exists>n' p. ChildMerge T (Suc (length as)) True n = Some (n', p) \<and>
      balanced T h n (lft ass qs @ y @ [(k, v)]) x (rgt rs bss) n' p"
proof (cases "T \<le> KeyCount d")
  case True
  then have "KeyCount c < 2 * T - 1" "2 \<le> KeyCount d" using c(2) T by auto
  from Give_left_bt [OF n i c(1) this(1) d(1) this(2)] obtain n' c' d' p a y' where
    r: "ChildGiveKey T (Suc (length as)) True n = Some n'" "nd T n' (qs @ p # rs) (as @ d' # c' # bs)"
      "bt T h c' (a @ (k, v) # x)" "bt T h d' y'" "y = y' @ p # a" "KeyCount c' = KeyCount c + 1"
      "KeyCount d' = KeyCount d - 1" by blast
  have "list_all2 (okc T h) (as @ [d']) (ass @ [y'])" using A r True by (auto intro!: list_all2_appendI)
  then have "focus T h n' (Suc (length as)) c' (lft ass qs @ y' @ [p]) (a @ (k, v) # x) (rgt rs bss)"
    unfolding focus_def using r i A B list_all2_lengthD [OF A]
    by (intro exI [of _ "qs @ [p]"] exI [of _ rs] exI [of _ "as @ [d']"] exI [of _ bs]
        exI [of _ "ass @ [y']"] exI [of _ bss]) simp
  moreover have "T \<le> KeyCount c'" using r(6) c(2) T by simp
  ultimately have "balanced T h n (lft ass qs @ y @ [(k, v)]) x (rgt rs bss) n' (Some (Suc (length as)))"
    unfolding balanced_def using r(5) ndD(2) [OF n] ndD(2) [OF r(2)]
    by simp (rule exI [of _ c'], rule exI [of _ "a @ [(k, v)]"], rule exI [of _ "[]"], simp)
  then show ?thesis using True r(1) by auto
next
  case False
  then have "KeyCount d + KeyCount c < 2 * T - 1" using c(2) T by simp
  from Merge_bt [OF n i d(1) c(1) this] obtain n' m where
    m: "bt T h m (y @ (k, v) # x)" "KeyCount m = KeyCount d + KeyCount c + 1"
      "if qs @ rs = [] then ChildMerge T (length as) False n = Some (n', None) \<and>
         bt T h n' (y @ (k, v) # x) \<and> KeyCount n' = KeyCount d + KeyCount c + 1 \<and> Key n' ! KeyCount d = k
       else ChildMerge T (length as) False n = Some (n', Some (length as)) \<and>
         nd T n' (qs @ rs) (as @ m # bs)" by blast
  have kc: "T \<le> KeyCount d + KeyCount c + 1" using c(2) d(2) T by simp
  note dir = ChildMerge_dirs [OF n i]
  show ?thesis
  proof (cases "qs @ rs = []")
    case True
    then show ?thesis using False m(3) kc dir ndD(2) [OF n] by (auto simp: balanced_def)
  next
    case ne: False
    with m(3) have m3: "ChildMerge T (length as) False n = Some (n', Some (length as))"
      "nd T n' (qs @ rs) (as @ m # bs)" by auto
    have "focus T h n' (length as) m (lft ass qs) (y @ (k, v) # x) (rgt rs bss)"
      unfolding focus_def using m3(2) ne i A B m(1) by blast
    then have "balanced T h n (lft ass qs @ y @ [(k, v)]) x (rgt rs bss) n' (Some (length as))"
      unfolding balanced_def using kc m(2) ndD(2) [OF n] ndD(2) [OF m3(2)]
      by simp (rule exI [of _ m], rule exI [of _ "y @ [(k, v)]"], rule exI [of _ "[]"], simp)
    then show ?thesis using False m3(1) dir by auto
  qed
qed


lemma ChildBalance_focus:
  assumes f: "focus T h n j c L x R" and kc: "T - 1 \<le> KeyCount c" and T: "2 \<le> T"
  shows "\<exists>n' p. ChildBalance T j n = Some (n', p) \<and> balanced T h n L x R n' p"
proof (cases "KeyCount c < T")
  case False
  then have "balanced T h n L x R n (Some j)"
    using f unfolding balanced_def by simp (rule exI [of _ c], rule exI [of _ "[]"], rule exI [of _ "[]"], simp)
  then show ?thesis using False focusD [OF f] by (simp add: ChildBalance_def)
next
  case True
  then have c1: "KeyCount c = T - 1" using kc by simp
  from f obtain qs rs as bs ass bss where
    n: "nd T n (qs @ rs) (as @ c # bs)" and ne: "qs @ rs \<noteq> []" and j: "j = length as" "length as = length qs"
    and A: "list_all2 (okc T h) as ass" and B: "list_all2 (okc T h) bs bss" and c: "bt T h c x"
    and LR: "L = lft ass qs" "R = rgt rs bss"
    unfolding focus_def by blast
  have lb: "length bs = length rs" using ndD(5) [OF n] j by simp
  define le ri where "le = (if 0 < j then Child n ! (j - 1) else None)"
    and "ri = (if j < KeyCount n then Child n ! (j + 1) else None)"
  have l2: "j < KeyCount n \<Longrightarrow> j + 1 < 2 * T" "j - 1 < 2 * T" using ndD(2,4) [OF n] focusD(4) [OF f] by auto
  have look: "(if 0 < j then GetChild T (j - 1) n else Some None) = Some le"
    "(if j < KeyCount n then GetChild T (j + 1) n else Some None) = Some ri"
    using l2 unfolding le_def ri_def GetChild_def by (simp_all del: One_nat_def)
  have unf: "ChildBalance T j n = (if has_spare T le then
           do { n' \<leftarrow> ChildGiveKey T j True n; Some (n', Some j) }
         else if has_spare T ri then do { n' \<leftarrow> ChildGiveKey T j False n; Some (n', Some j) }
         else if le \<noteq> None then ChildMerge T j True n
         else if ri \<noteq> None then ChildMerge T j False n else None)"
    unfolding ChildBalance_def look using True focusD(1,4,5) [OF f] by simp
  have left: "\<exists>d. le = Some d \<and> (if T \<le> KeyCount d
      then \<exists>n'. ChildGiveKey T j True n = Some n' \<and> balanced T h n L x R n' (Some j)
      else \<exists>n' p. ChildMerge T j True n = Some (n', p) \<and> balanced T h n L x R n' p)" if "qs \<noteq> []"
  proof -
    from that obtain qs' k v where q: "qs = qs' @ [(k, v)]" by (cases qs rule: rev_cases) auto
    with j obtain as' d where a: "as = as' @ [d]" "length as' = length qs'" by (cases as rule: rev_cases) auto
    with A obtain ass' y where s: "ass = ass' @ [y]" "list_all2 (okc T h) as' ass'" "okc T h d y"
      by (auto simp: list_all2_append1 list_all2_Cons1)
    have n': "nd T n (qs' @ (k, v) # rs) (as' @ d # c # bs)" using n q a by simp
    have "le = Some d" using nd_child(3) [OF n'] j a by (simp add: le_def q)
    moreover have "L = lft ass' qs' @ y @ [(k, v)]" "j = Suc (length as')"
      using LR(1) q s(1,2) a j by (auto dest: list_all2_lengthD)
    ultimately show ?thesis
      using balanced_left [OF n' a(2) s(2) B c c1 _ _ T, of y] s(3) LR(2) by simp
  qed
  have right: "\<exists>d. ri = Some d \<and> (if T \<le> KeyCount d
      then \<exists>n'. ChildGiveKey T j False n = Some n' \<and> balanced T h n L x R n' (Some j)
      else \<exists>n' p. ChildMerge T j False n = Some (n', p) \<and> balanced T h n L x R n' p)" if "rs \<noteq> []"
  proof -
    from that obtain rs' k v where q: "rs = (k, v) # rs'" by (cases rs) auto
    with lb obtain bs' d where a: "bs = d # bs'" by (cases bs) auto
    with B obtain bss' y where s: "bss = y # bss'" "list_all2 (okc T h) bs' bss'" "okc T h d y"
      by (auto simp: list_all2_Cons1)
    have n': "nd T n (qs @ (k, v) # rs') (as @ c # d # bs')" using n q a by simp
    have "nd T n (qs @ (k, v) # rs') ((as @ [c]) @ d # bs')" using n' by simp
    from nd_child(3) [OF this] have "ri = Some d" using ndD(2) [OF n'] j by (simp add: ri_def)
    moreover have "R = (k, v) # y @ rgt rs' bss'" using LR(2) q s(1) by simp
    ultimately show ?thesis
      using balanced_right [OF n' j(2) A s(2) c c1 _ _ T, of y] s(3) LR(1) j(1) by simp
  qed
  have none: "qs = [] \<Longrightarrow> le = None" "rs = [] \<Longrightarrow> ri = None"
    using j ndD(2) [OF n] by (auto simp: le_def ri_def)
  consider d where "le = Some d" "T \<le> KeyCount d" | "\<not> has_spare T le" "has_spare T ri"
    | d where "le = Some d" "\<not> T \<le> KeyCount d" "\<not> has_spare T ri" | "le = None" "\<not> has_spare T ri" "rs \<noteq> []"
    using left none ne by (cases le) (auto simp: has_spare_def)
  then show ?thesis
  proof cases
    case 1
    then show ?thesis using left none(1) unf by (cases "qs = []") (auto simp: has_spare_def)
  next
    case 2
    then show ?thesis using right none(2) unf by (cases "rs = []") (auto simp: has_spare_def)
  next
    case 3
    then show ?thesis using left none(1) unf by (cases "qs = []") (auto simp: has_spare_def)
  next
    case 4
    then show ?thesis using right unf by (auto simp: has_spare_def)
  qed
qed

end
