(* ===== verification/Btree.thy ===== *)
theory Btree
  imports Btree_Balance
begin

text \<open>
  The tree class of \<^verbatim>\<open>src/core/btree.h\<close> (\<^verbatim>\<open>Core::Btree\<close>): lookup, insertion, deletion, the
  structural check, the depth functions and the clearing loop.

  The loops of the source that walk down the tree are partial functions into \<open>option\<close>: \<open>None\<close>
  stands for a panic and for a loop that does not end. Every theorem about them states that
  they return.
\<close>

section \<open>Descending loops\<close>

lemma guard_mono [partial_function_mono]:
  assumes "mono_option B"
  shows "mono_option (\<lambda>f. guard b (B f))"
  using assms by (auto simp: monotone_def guard_def flat_ord_def fun_ord_def)

text \<open>\<^verbatim>\<open>LookupLocked\<close> from a node on: the value returned and the flag \<open>exist\<close>.\<close>

partial_function (option) LookupLocked_node ::
  "nat \<Rightarrow> 'v \<Rightarrow> ('k::linorder) \<Rightarrow> ('k, 'v) BtreeNode \<Rightarrow> ('v \<times> bool) option" where
  [code]: "LookupLocked_node T ev key n =
     (if KeyCount n = 0 then Some (ev, False)
      else let i = FindKeyIndex key n in
        if i < KeyCount n \<and> Some key = GetKey T i n then do { v \<leftarrow> GetValue T i n; Some (v, True) }
        else if Leaf n then Some (ev, False)
        else do { c \<leftarrow> GetChild_nonnull T i n; LookupLocked_node T ev key c })"

text \<open>
  \<^verbatim>\<open>InsertNonFull\<close>: the new subtree, the result and the remaining allocation schedule. A new
  node gets the default key and value of the node's own \<^verbatim>\<open>EmptyKey\<close> and \<^verbatim>\<open>EmptyValue\<close>.
\<close>

partial_function (option) InsertNonFull ::
  "nat \<Rightarrow> ('k::linorder) \<Rightarrow> 'v \<Rightarrow> mem \<Rightarrow> ('k, 'v) BtreeNode
     \<Rightarrow> (('k, 'v) BtreeNode \<times> bool \<times> mem) option" where
  [code]: "InsertNonFull T key val m n =
     (if GetKeyIndex key n \<noteq> None then Some (n, False, m)
      else let i = FindKeyIndex key n in
        if Leaf n then do {
          n1 \<leftarrow> PutKey T i key val n;
          n2 \<leftarrow> IncKeyCount T 1 n1;
          Some (n2, True, m) }
        else do {
          child \<leftarrow> GetChild_nonnull T i n;
          if IsFull T child then
            (if fst (MakeShared m) then do {
               n' \<leftarrow> SplitChild T i (make_node T (EmptyKey n) (EmptyValue n) False) n;
               InsertNonFull T key val (snd (MakeShared m)) n' }
             else Some (n, False, snd (MakeShared m)))
          else do {
            r \<leftarrow> InsertNonFull T key val m child;
            Some (put_Child i (Some (fst r)) n, snd r) } })"

text \<open>
  The two searches for a neighbouring key rebalance on the way down; they return the subtree, the
  path to the leaf reached, and the index in it.
\<close>

partial_function (option) FindLeftMost ::
  "nat \<Rightarrow> ('k, 'v) BtreeNode \<Rightarrow> (('k, 'v) BtreeNode \<times> nat list \<times> nat) option" where
  [code]: "FindLeftMost T node =
     guard (KeyCount node \<noteq> 0)
       (if Leaf node then Some (node, [], KeyCount node - 1)
        else do {
          r \<leftarrow> ChildBalance T (KeyCount node) node;
          case snd r of
            None \<Rightarrow> FindLeftMost T (fst r)
          | Some j \<Rightarrow> do {
              c \<leftarrow> Child (fst r) ! j;
              q \<leftarrow> FindLeftMost T c;
              Some (put_Child j (Some (fst q)) (fst r), j # fst (snd q), snd (snd q)) } })"

partial_function (option) FindRightMost ::
  "nat \<Rightarrow> ('k, 'v) BtreeNode \<Rightarrow> (('k, 'v) BtreeNode \<times> nat list \<times> nat) option" where
  [code]: "FindRightMost T node =
     guard (KeyCount node \<noteq> 0)
       (if Leaf node then Some (node, [], 0)
        else do {
          r \<leftarrow> ChildBalance T 0 node;
          case snd r of
            None \<Rightarrow> FindRightMost T (fst r)
          | Some j \<Rightarrow> do {
              c \<leftarrow> Child (fst r) ! j;
              q \<leftarrow> FindRightMost T c;
              Some (put_Child j (Some (fst q)) (fst r), j # fst (snd q), snd (snd q)) } })"

text \<open>The node a path leads to, and writing it back.\<close>

fun node_at :: "nat list \<Rightarrow> ('k, 'v) BtreeNode \<Rightarrow> ('k, 'v) BtreeNode option" where
  "node_at [] n = Some n"
| "node_at (j # p) n = do { c \<leftarrow> Child n ! j; node_at p c }"

fun put_at :: "nat list \<Rightarrow> ('k, 'v) BtreeNode \<Rightarrow> ('k, 'v) BtreeNode \<Rightarrow> ('k, 'v) BtreeNode option" where
  "put_at [] m n = Some m"
| "put_at (j # p) m n = do { c \<leftarrow> Child n ! j; c' \<leftarrow> put_at p m c; Some (put_Child j (Some c') n) }"

text \<open>
  The branch of \<^verbatim>\<open>Delete\<close> that merges the two children around key \<open>i\<close>. The result is the node, the
  handle the loop continues with, and the index of the key in it.
\<close>

definition Delete_merge ::
  "nat \<Rightarrow> nat \<Rightarrow> ('k, 'v) BtreeNode \<Rightarrow> ('k, 'v) BtreeNode \<Rightarrow> ('k, 'v) BtreeNode
     \<Rightarrow> (('k, 'v) BtreeNode \<times> nat option \<times> nat) option" where
  "Delete_merge T i preChild sucChild n = do {
     k \<leftarrow> GetKey T i n;
     v \<leftarrow> GetValue T i n;
     (pre1, suc1) \<leftarrow> Merge T sucChild k v preChild;
     n1 \<leftarrow> DeleteKey T i (put_Child i (Some pre1) n);
     n2 \<leftarrow> DeleteChild T (i + 1) n1;
     n3 \<leftarrow> DecKeyCount T n2;
     _ \<leftarrow> destroy_node T suc1;
     if KeyCount n3 = 0 then do {
       (n4, pre2) \<leftarrow> Copy T pre1 n3;
       _ \<leftarrow> destroy_node T pre2;
       Some (n4, None, KeyCount preChild) }
     else Some (n3, Some i, KeyCount preChild) }"

text \<open>
  The loop of \<^verbatim>\<open>Delete\<close> that starts at the label \<^verbatim>\<open>restart\<close>: the new subtree and the result.
\<close>

partial_function (option) Delete_restart ::
  "nat \<Rightarrow> ('k::linorder) \<Rightarrow> ('k, 'v) BtreeNode \<Rightarrow> (('k, 'v) BtreeNode \<times> bool) option" where
  [code]: "Delete_restart T keyToDelete n =
     (case GetKeyIndex keyToDelete n of
        Some i \<Rightarrow>
          if Leaf n then do { n1 \<leftarrow> DeleteKey T i n; n2 \<leftarrow> DecKeyCount T n1; Some (n2, True) }
          else do {
            preChild \<leftarrow> GetChild_nonnull T i n;
            sucChild \<leftarrow> GetChild_nonnull T (i + 1) n;
            if T \<le> KeyCount preChild then do {
              r \<leftarrow> FindLeftMost T preChild;
              preNode \<leftarrow> node_at (fst (snd r)) (fst r);
              n1 \<leftarrow> CopyKey T i preNode (snd (snd r)) n;
              newKey \<leftarrow> GetKey T (snd (snd r)) preNode;
              q \<leftarrow> Delete_restart T newKey preNode;
              pre' \<leftarrow> put_at (fst (snd r)) (fst q) (fst r);
              Some (put_Child i (Some pre') n1, snd q) }
            else if T \<le> KeyCount sucChild then do {
              r \<leftarrow> FindRightMost T sucChild;
              sucNode \<leftarrow> node_at (fst (snd r)) (fst r);
              n1 \<leftarrow> CopyKey T i sucNode (snd (snd r)) n;
              newKey \<leftarrow> GetKey T (snd (snd r)) sucNode;
              q \<leftarrow> Delete_restart T newKey sucNode;
              suc' \<leftarrow> put_at (fst (snd r)) (fst q) (fst r);
              Some (put_Child (i + 1) (Some suc') n1, snd q) }
            else do {
              r \<leftarrow> Delete_merge T i preChild sucChild n;
              case fst (snd r) of
                None \<Rightarrow> do {
                  newKey \<leftarrow> GetKey T (snd (snd r)) (fst r);
                  Delete_restart T newKey (fst r) }
              | Some j \<Rightarrow> do {
                  c \<leftarrow> Child (fst r) ! j;
                  newKey \<leftarrow> GetKey T (snd (snd r)) c;
                  q \<leftarrow> Delete_restart T newKey c;
                  Some (put_Child j (Some (fst q)) (fst r), snd q) } } }
      | None \<Rightarrow>
          if Leaf n then Some (n, False)
          else do {
            r \<leftarrow> ChildBalance T (FindKeyIndex keyToDelete n) n;
            case snd r of
              None \<Rightarrow> Delete_restart T keyToDelete (fst r)
            | Some j \<Rightarrow> do {
                c \<leftarrow> Child (fst r) ! j;
                q \<leftarrow> Delete_restart T keyToDelete c;
                Some (put_Child j (Some (fst q)) (fst r), snd q) } })"


section \<open>Sorted entries\<close>

abbreviation strict :: "(('k::linorder) \<times> 'v) list \<Rightarrow> bool" where
  "strict xs \<equiv> sorted_wrt (<) (map fst xs)"

lemma strict_append:
  "strict (xs @ ys) \<longleftrightarrow> strict xs \<and> strict ys \<and> (\<forall>p \<in> set xs. \<forall>q \<in> set ys. fst p < fst q)"
  by (auto simp: sorted_wrt_append)

lemma strict_distinct: "strict xs \<Longrightarrow> distinct (map fst xs)"
  by (simp add: strict_sorted_iff)

definition below :: "('k::linorder \<times> 'v) list \<Rightarrow> 'k \<Rightarrow> bool" where
  "below xs k \<longleftrightarrow> (\<forall>p \<in> set xs. fst p < k)"

definition above :: "'k::linorder \<Rightarrow> ('k \<times> 'v) list \<Rightarrow> bool" where
  "above k xs \<longleftrightarrow> (\<forall>p \<in> set xs. k < fst p)"

lemma below_append [simp]: "below (xs @ ys) k \<longleftrightarrow> below xs k \<and> below ys k"
  by (auto simp: below_def)

lemma above_append [simp]: "above k (xs @ ys) \<longleftrightarrow> above k xs \<and> above k ys"
  by (auto simp: above_def)

lemma belowI_last: "strict (l @ [p]) \<Longrightarrow> fst p < k \<Longrightarrow> below (l @ [p]) k"
  unfolding strict_append below_def by (auto intro: order.strict_trans)

lemma aboveI_hd: "strict (p # r) \<Longrightarrow> k < fst p \<Longrightarrow> above k (p # r)"
  unfolding above_def by (auto intro: order.strict_trans)

lemma below_map_of: "below xs k \<Longrightarrow> map_of xs k = None"
  by (auto simp: below_def map_of_eq_None_iff)

lemma above_map_of: "above k xs \<Longrightarrow> map_of xs k = None"
  by (auto simp: above_def map_of_eq_None_iff)

lemma map_of_between:
  assumes "below L k" "above k R"
  shows "map_of (L @ x @ R) k = map_of x k"
  using below_map_of [OF assms(1)] above_map_of [OF assms(2)]
  by (simp add: map_add_def split: option.split)

text \<open>The entries other than those with key \<open>k\<close>.\<close>

definition without :: "'k \<Rightarrow> ('k \<times> 'v) list \<Rightarrow> ('k \<times> 'v) list" where
  "without k xs = filter (\<lambda>p. fst p \<noteq> k) xs"

lemma without_append [simp]: "without k (xs @ ys) = without k xs @ without k ys"
  by (simp add: without_def)

lemma without_below: "below xs k \<Longrightarrow> without k xs = xs"
  by (auto simp: without_def below_def filter_id_conv)

lemma without_above: "above k xs \<Longrightarrow> without k xs = xs"
  by (auto simp: without_def above_def filter_id_conv)

lemma without_Cons_eq [simp]: "without k ((k, v) # xs) = without k xs"
  by (simp add: without_def)

lemma without_absent: "k \<notin> fst ` set xs \<Longrightarrow> without k xs = xs"
  by (auto simp: without_def filter_id_conv)

lemma strict_without: "strict xs \<Longrightarrow> strict (without k xs)"
  by (induction xs) (auto simp: without_def)

lemma strict_snocD: "strict (xs @ [(k, v)]) \<Longrightarrow> below xs k"
  unfolding strict_append below_def by auto

lemma strict_midD: "strict (xs @ (k, v) # ys) \<Longrightarrow> below xs k \<and> above k ys"
  unfolding strict_append below_def above_def by auto


section \<open>Searching a node\<close>

lemma key_search_spec:
  assumes "sorted_wrt (<) ks" "e \<le> length ks" "s \<le> e" "\<forall>j < s. ks ! j < key"
    "\<forall>j < length ks. e \<le> j \<longrightarrow> key < ks ! j"
  shows "case key_search ks key s e of
      Inl i \<Rightarrow> i < length ks \<and> ks ! i = key
    | Inr i \<Rightarrow> i \<le> length ks \<and> (\<forall>j < i. ks ! j < key) \<and> (\<forall>j < length ks. i \<le> j \<longrightarrow> key < ks ! j)"
  using assms
proof (induction ks key s e rule: key_search.induct)
  case (1 ks key s e)
  show ?case
  proof (cases "s < e")
    case False
    then show ?thesis using "1.prems" by (subst key_search.simps) auto
  next
    case True
    let ?m = "(s + e) div 2"
    have m: "s \<le> ?m" "?m < e" "?m < length ks" using True "1.prems" by auto
    have lo: "ks ! j \<le> ks ! ?m" if "j \<le> ?m" for j
      using "1.prems"(1) m(3) that by (metis sorted_wrt_nth_less order.order_iff_strict)
    have hi: "ks ! ?m \<le> ks ! j" if "?m \<le> j" "j < length ks" for j
      using "1.prems"(1) that by (metis sorted_wrt_nth_less order.order_iff_strict)
    consider "key = ks ! ?m" | "key < ks ! ?m" | "ks ! ?m < key" by force
    then show ?thesis
    proof cases
      case 1
      then show ?thesis using True m by (subst key_search.simps) (auto simp: Let_def)
    next
      case 2
      then have "\<forall>j < length ks. ?m \<le> j \<longrightarrow> key < ks ! j" using hi by (meson order.strict_trans2)
      then show ?thesis
        using True 2 "1.IH"(1) [OF True refl] "1.prems" m
        by (subst key_search.simps) (auto simp: Let_def)
    next
      case 3
      then have "\<forall>j < ?m + 1. ks ! j < key" using lo by (metis less_Suc_eq_le Suc_eq_plus1 order.strict_trans1)
      then show ?thesis
        using True 3 "1.IH"(2) [OF True refl] "1.prems" m
        by (subst key_search.simps) (auto simp: Let_def)
    qed
  qed
qed

lemma key_search_take:
  "e \<le> m \<Longrightarrow> key_search (take m ks) key s e = key_search ks key s e"
proof (induction ks key s e rule: key_search.induct)
  case (1 ks key s e)
  have "(s + e) div 2 < m" if "s < e" using 1(3) that by auto
  then show ?case
    using 1(1) [OF _ refl] 1(2) [OF _ refl] 1(3)
    by (subst (1 2) key_search.simps) (auto simp: Let_def)
qed

lemma key_search_node:
  assumes "keys_are T n ks vs"
  shows "key_search (Key n) key 0 (length ks) = key_search ks key 0 (length ks)"
  using key_search_take [of "length ks" "length ks" "Key n" key 0] assms by (simp add: keys_are_def)

lemma FindKeyIndex_spec:
  assumes k: "keys_are T n ks vs" "KeyCount n = length ks" and s: "sorted_wrt (<) ks"
  shows "FindKeyIndex key n \<le> length ks" "\<forall>j < FindKeyIndex key n. ks ! j < key"
    "\<forall>j < length ks. FindKeyIndex key n \<le> j \<longrightarrow> key \<le> ks ! j"
proof -
  note sp = key_search_spec [OF s order_refl le0, of key]
  have le: "ks ! i \<le> ks ! j" if "i \<le> j" "j < length ks" for i j
    using that s by (metis sorted_wrt_nth_less order.order_iff_strict)
  have "FindKeyIndex key n \<le> length ks \<and> (\<forall>j < FindKeyIndex key n. ks ! j < key) \<and>
    (\<forall>j < length ks. FindKeyIndex key n \<le> j \<longrightarrow> key \<le> ks ! j)"
  proof (cases "ks = []")
    case True
    then show ?thesis using k(2) by (simp add: FindKeyIndex_def)
  next
    case False
    then have kn: "Key n ! (length ks - 1) = ks ! (length ks - 1)" "Key n ! 0 = ks ! 0"
      using keys_are_nth(1) [OF k(1)] by auto
    consider "key > ks ! (length ks - 1)" | "\<not> key > ks ! (length ks - 1)" "key < ks ! 0"
      | "\<not> key > ks ! (length ks - 1)" "\<not> key < ks ! 0" by blast
    then show ?thesis
    proof cases
      case 1
      then have "FindKeyIndex key n = length ks" using False k(2) kn by (simp add: FindKeyIndex_def)
      moreover have "ks ! j \<le> ks ! (length ks - 1)" if "j < length ks" for j
        by (rule le) (use that in auto)
      then have "ks ! j < key" if "j < length ks" for j using that 1 by (metis order.strict_trans1)
      ultimately show ?thesis by simp
    next
      case 2
      then have "FindKeyIndex key n = 0" using False k(2) kn by (simp add: FindKeyIndex_def)
      then show ?thesis using 2 le [of 0] by (auto intro: less_imp_le order.trans)
    next
      case 3
      then have "FindKeyIndex key n = (case key_search ks key 0 (length ks) of Inl i \<Rightarrow> i | Inr i \<Rightarrow> i)"
        using False k(2) kn key_search_node [OF k(1)] by (simp add: FindKeyIndex_def)
      then show ?thesis
      proof (cases "key_search ks key 0 (length ks)")
        case (Inl i)
        then have "i < length ks" "ks ! i = key" using sp by auto
        then show ?thesis
          using Inl 3 sorted_wrt_nth_less [OF s, of _ i] le [of i] False k(2) kn key_search_node [OF k(1)]
          by (auto simp: FindKeyIndex_def)
      qed (use sp in \<open>auto intro: less_imp_le\<close>)
    qed
  qed
  then show "FindKeyIndex key n \<le> length ks" "\<forall>j < FindKeyIndex key n. ks ! j < key"
    "\<forall>j < length ks. FindKeyIndex key n \<le> j \<longrightarrow> key \<le> ks ! j" by auto
qed

lemma GetKeyIndex_spec:
  assumes k: "keys_are T n ks vs" "KeyCount n = length ks" and s: "sorted_wrt (<) ks"
  shows "case GetKeyIndex key n of Some i \<Rightarrow> i < length ks \<and> ks ! i = key | None \<Rightarrow> key \<notin> set ks"
proof -
  note sp = key_search_spec [OF s order_refl le0, of key]
  have le: "ks ! i \<le> ks ! j" if "i \<le> j" "j < length ks" for i j
    using that s by (metis sorted_wrt_nth_less order.order_iff_strict)
  have last: "ks ! j \<le> ks ! (length ks - 1)" if "j < length ks" for j
    by (rule le) (use that in auto)
  have out: "key \<notin> set ks" if "\<not> IsKeyProbablyInside key n"
  proof
    assume "key \<in> set ks"
    then obtain j where j: "j < length ks" "ks ! j = key" by (auto simp: in_set_conv_nth)
    then show False
      using that k(2) keys_are_nth(1) [OF k(1), of 0] keys_are_nth(1) [OF k(1), of "length ks - 1"]
        le [of 0 j] last [of j]
      by (auto simp: IsKeyProbablyInside_def split: if_splits)
  qed
  have "key \<notin> set ks" if "key_search ks key 0 (length ks) = Inr i" for i
    using sp that by (auto simp: in_set_conv_nth) (metis less_irrefl not_le)
  then show ?thesis
    using sp out key_search_node [OF k(1)] k(2)
    by (auto simp: GetKeyIndex_def split: sum.splits)
qed


section \<open>Lookup\<close>

lemma set_rgt: "length xss = length ps \<Longrightarrow> set ps \<subseteq> set (rgt ps xss)"
  by (induction xss ps rule: list_induct2) auto

lemma strict_rgt: "length xss = length ps \<Longrightarrow> strict (rgt ps xss) \<Longrightarrow> strict ps"
proof (induction xss ps rule: list_induct2)
  case (Cons x xss p ps)
  then show ?case using set_rgt [OF Cons.hyps] by (auto simp: sorted_wrt_append)
qed simp

lemma strict_node:
  assumes "bt T h n xs" "strict xs" "keys_are T n (map fst ps) (map snd ps)" "KeyCount n = length ps"
  shows "strict ps"
proof -
  from assms(1) obtain qs cs where n: "nd T n qs cs" "body T h qs cs xs" by (blast elim: bt_bodyE)
  have "map fst qs = map fst ps"
    using ndD(2,8) [OF n(1)] assms(3,4) unfolding keys_are_def by (metis length_map)
  moreover have "strict qs"
  proof (cases h)
    case 0
    then show ?thesis using n(2) assms(2) by simp
  next
    case (Suc h')
    then obtain xss where x: "length xss = length qs + 1" "xs = il xss qs"
      using n(2) by (auto dest: list_all2_lengthD)
    then show ?thesis using assms(2) strict_rgt [of "tl xss" qs] by (auto simp: il_def sorted_wrt_append)
  qed
  ultimately show ?thesis by simp
qed

text \<open>What the two searches tell about a node with the entries \<open>ps\<close>, and its value for a hit.\<close>

definition hit :: "nat \<Rightarrow> ('k::linorder) \<Rightarrow> ('k, 'v) BtreeNode \<Rightarrow> 'v \<Rightarrow> bool" where
  "hit T key n v \<longleftrightarrow> (let i = FindKeyIndex key n in GetKeyIndex key n = Some i \<and> i < KeyCount n \<and>
     GetKey T i n = Some key \<and> GetValue T i n = Some v)"

definition miss :: "nat \<Rightarrow> ('k::linorder) \<Rightarrow> ('k, 'v) BtreeNode \<Rightarrow> bool" where
  "miss T key n \<longleftrightarrow> (let i = FindKeyIndex key n in GetKeyIndex key n = None \<and>
     \<not> (i < KeyCount n \<and> Some key = GetKey T i n))"

lemma node_find:
  assumes n: "nd T n ps cs" and s: "strict ps"
  obtains qs rs where "ps = qs @ rs" "length qs = FindKeyIndex key n" "below qs key"
    "(\<exists>v r. rs = (key, v) # r \<and> hit T key n v) \<or> above key rs \<and> miss T key n"
proof -
  let ?i = "FindKeyIndex key n" let ?qs = "take ?i ps" and ?rs = "drop ?i ps"
  have p: "keys_are T n (map fst ps) (map snd ps)" "KeyCount n = length (map fst ps)"
    using ndD(2,8) [OF n] by auto
  note fk = FindKeyIndex_spec [OF p s, of key] and gk = GetKeyIndex_spec [OF p s, of key]
  have i: "?i \<le> length ps" using fk(1) by simp
  have below: "below ?qs key" using fk(1,2) by (force simp: below_def in_set_conv_nth)
  have none: "GetKeyIndex key n = None" if "key \<notin> set (map fst ps)"
    using gk that by (auto split: option.splits simp del: nth_map set_map)
  have "(\<exists>v r. ?rs = (key, v) # r \<and> hit T key n v) \<or> above key ?rs \<and> miss T key n"
  proof (cases ?rs)
    case Nil
    then have "?qs = ps" by simp
    then have "key \<notin> set (map fst ps)" using below by (auto simp: below_def)
    then show ?thesis using none Nil p(2) i by (auto simp: above_def miss_def)
  next
    case (Cons r rs')
    obtain k v where r: "r = (k, v)" by (cases r)
    have ps: "ps = ?qs @ (k, v) # rs'" using Cons r by (metis append_take_drop_id)
    have l: "length ?qs = ?i" "?i < length ps" using i ps by (auto simp: min_def) (metis Cons drop_eq_Nil list.distinct(1) not_le)
    have get: "GetKey T ?i n = Some k" "GetValue T ?i n = Some v"
      using nd_key [of T n ?qs k v rs' cs] n ps l(1) by auto
    have nth: "map fst ps ! ?i = k" using arg_cong [OF ps, of "\<lambda>l. map fst l ! ?i"] l by (simp add: nth_append)
    then have kk: "key \<le> k" using fk(3) l(2) by auto
    have sr: "strict ((k, v) # rs')" using s ps by (metis strict_append)
    show ?thesis
    proof (cases "key = k")
      case True
      have "key \<in> set (map fst ps)" using nth True l(2) by (metis length_map nth_mem)
      then obtain i where i: "GetKeyIndex key n = Some i" "i < length ps" "map fst ps ! i = key"
        using gk by (auto split: option.splits simp del: nth_map set_map)
      then have "i = ?i" using strict_distinct [OF s] nth True l(2) by (metis nth_eq_iff_index_eq length_map)
      then show ?thesis using get Cons r True i p(2) by (auto simp: hit_def)
    next
      case False
      then have ab: "above key ?rs" using aboveI_hd [OF sr] kk Cons r by simp
      moreover have "set ps = set ?qs \<union> set ?rs" by (metis append_take_drop_id set_append)
      ultimately have "key \<notin> set (map fst ps)" using below by (auto simp: below_def above_def)
      then show ?thesis using none ab get False by (auto simp: miss_def)
    qed
  qed
  then show thesis using that [of ?qs ?rs] below i by simp
qed

text \<open>The same for an inner node, in terms of the entries around the child it points to.\<close>

lemma focus_find:
  assumes b: "bt T (Suc h) n xs" and s: "strict xs"
  obtains c L x R where "focus T h n (FindKeyIndex key n) c L x R" "T - 1 \<le> KeyCount c"
    "xs = L @ x @ R" "below L key"
    "(\<exists>v r. R = (key, v) # r \<and> hit T key n v) \<or> above key R \<and> miss T key n"
proof -
  obtain ps cs where p: "nd T n ps cs" using b by (blast elim: bt_bodyE)
  have sp: "strict ps" using strict_node [OF b s ndD(8,2) [OF p]] .
  from node_find [OF p sp, where key = key] obtain qs rs where
    q: "ps = qs @ rs" "length qs = FindKeyIndex key n" "below qs key"
      "(\<exists>v r. rs = (key, v) # r \<and> hit T key n v) \<or> above key rs \<and> miss T key n" by blast
  have "FindKeyIndex key n \<le> KeyCount n" using q(1,2) ndD(2) [OF p] by simp
  from focus_at [OF b this] obtain c L x R qs' rs' where
    f: "focus T h n (FindKeyIndex key n) c L x R" "T - 1 \<le> KeyCount c" "xs = L @ x @ R"
      "keys_are T n (map fst (qs' @ rs')) (map snd (qs' @ rs'))" "KeyCount n = length (qs' @ rs')"
      "length qs' = FindKeyIndex key n" "if qs' = [] then L = [] else \<exists>l. L = l @ [last qs']"
      "if rs' = [] then R = [] else \<exists>r. R = hd rs' # r" by blast
  have "ps = qs' @ rs'"
    using ndD(2,8) [OF p] f(4,5) unfolding keys_are_def by (metis length_map zip_map_fst_snd)
  then have qr: "qs' = qs" "rs' = rs" using q(1,2) f(6) by auto
  have st: "strict L" "strict R" using s f(3) by (auto simp: sorted_wrt_append)
  have "below L key"
  proof (cases "qs = []")
    case False
    then obtain l where "L = l @ [last qs]" "fst (last qs) < key" using f(7) q(3) qr by (auto simp: below_def)
    then show ?thesis using st(1) belowI_last by blast
  qed (use f(7) qr in \<open>simp add: below_def\<close>)
  moreover have "(\<exists>v r. R = (key, v) # r \<and> hit T key n v) \<or> above key R \<and> miss T key n"
  proof (cases rs)
    case Nil
    then show ?thesis using f(8) qr q(4) by (simp add: above_def)
  next
    case (Cons r rs'')
    then obtain R' where R: "R = r # R'" using f(8) qr by auto
    then show ?thesis using q(4) Cons aboveI_hd [of r R' key] st(2) by (auto simp: above_def)
  qed
  ultimately show thesis using that [OF f(1-3)] by blast
qed

lemma LookupLocked_hit: "hit T key n v \<Longrightarrow> LookupLocked_node T ev key n = Some (v, True)"
  by (subst LookupLocked_node.simps) (simp add: hit_def Let_def)

lemma LookupLocked_miss:
  assumes "miss T key n"
  shows "LookupLocked_node T ev key n = (if KeyCount n = 0 \<or> Leaf n then Some (ev, False)
    else do { c \<leftarrow> GetChild_nonnull T (FindKeyIndex key n) n; LookupLocked_node T ev key c })"
  using assms unfolding miss_def Let_def LookupLocked_node.simps [of T ev key n] by auto

lemma LookupLocked_bt:
  "bt T h n xs \<Longrightarrow> strict xs \<Longrightarrow> LookupLocked_node T ev key n =
     Some (case map_of xs key of None \<Rightarrow> (ev, False) | Some v \<Rightarrow> (v, True))"
proof (induction h arbitrary: n xs)
  case 0
  then have n: "nd T n xs []" by simp
  obtain qs rs where q: "xs = qs @ rs" "length qs = FindKeyIndex key n" "below qs key"
    "(\<exists>v r. rs = (key, v) # r \<and> hit T key n v) \<or> above key rs \<and> miss T key n"
    by (rule node_find [OF n 0(2), where key = key])
  from q(4) show ?case
  proof (elim disjE exE conjE)
    fix v r assume v: "rs = (key, v) # r" "hit T key n v"
    then show ?thesis using LookupLocked_hit [OF v(2)] below_map_of [OF q(3)] q(1) by (simp add: map_add_def)
  next
    assume a: "above key rs" "miss T key n"
    then show ?thesis
      using LookupLocked_miss [OF a(2)] map_of_between [OF q(3) a(1), of "[]"] q(1) ndD(3) [OF n]
      by (simp add: map_add_def)
  qed
next
  case (Suc h)
  obtain c L x R where
    f: "focus T h n (FindKeyIndex key n) c L x R" "T - 1 \<le> KeyCount c" "xs = L @ x @ R" "below L key"
      "(\<exists>v r. R = (key, v) # r \<and> hit T key n v) \<or> above key R \<and> miss T key n"
    by (rule focus_find [OF Suc.prems, where key = key])
  have kc: "KeyCount n \<noteq> 0" using Suc.prems(1) by (auto dest: ndD(2))
  from f(5) show ?case
  proof (elim disjE exE conjE)
    fix v r assume v: "R = (key, v) # r" "hit T key n v"
    have "(key, v) \<in> set xs" using f(3) v by simp
    then have "map_of xs key = Some v" using strict_distinct [OF Suc.prems(2)] by simp
    then show ?thesis using LookupLocked_hit [OF v(2)] by simp
  next
    assume a: "above key R" "miss T key n"
    have "strict x" using Suc.prems(2) f(3) by (simp add: sorted_wrt_append)
    then show ?thesis
      using Suc.IH [OF focusD(3) [OF f(1)]] LookupLocked_miss [OF a(2)] kc focusD(1,5) [OF f(1)]
        map_of_between [OF f(4) a(1), of x] f(3) by simp
  qed
qed



section \<open>Insertion\<close>

lemma FindKeyIndex_at:
  assumes n: "nd T n (qs @ rs) cs" and s: "strict (qs @ rs)" and b: "below qs key" "above key rs"
  shows "FindKeyIndex key n = length qs"
proof -
  obtain qs' rs' where q: "qs @ rs = qs' @ rs'" "length qs' = FindKeyIndex key n" "below qs' key"
    "(\<exists>v r. rs' = (key, v) # r \<and> hit T key n v) \<or> above key rs' \<and> miss T key n"
    by (rule node_find [OF n s, where key = key])
  have k: "key \<le> fst p" if "p \<in> set rs'" for p
    using q(4) that s [unfolded q(1) strict_append] by (fastforce simp: above_def)
  from q(1) consider us where "qs = qs' @ us" "us @ rs = rs'" | us where "qs @ us = qs'" "rs = us @ rs'"
    by (auto simp: append_eq_append_conv2)
  then have "qs = qs'"
  proof cases
    case 1
    then show ?thesis using b(1) k by (cases us) (force simp: below_def)+
  next
    case 2
    then show ?thesis using b(2) q(3) by (cases us) (force simp: below_def above_def)+
  qed
  then show ?thesis using q(2) by simp
qed

lemma put_Child_same: "Child n ! j = c \<Longrightarrow> put_Child j c n = n"
  by (cases n) auto

lemma focus_bt: "focus T h n j c L x R \<Longrightarrow> T - 1 \<le> KeyCount c \<Longrightarrow> bt T (Suc h) n (L @ x @ R)"
  using focus_plug [of T h n j c L x R c x] focusD(2,3) [of T h n j c L x R] put_Child_same by metis

lemma set_lft: "length xss = length ps \<Longrightarrow> set ps \<subseteq> set (lft xss ps)"
  by (induction xss ps rule: list_induct2) auto

lemma Split_bt:
  assumes n: "nd T n (qs @ rs) (as @ c # bs)" and i: "length as = length qs"
    and A: "list_all2 (okc T h) as ass" and B: "list_all2 (okc T h) bs bss"
    and c: "bt T h c x" "KeyCount c = 2 * T - 1" and room: "KeyCount n < 2 * T - 1" and T: "2 \<le> T"
  shows "\<exists>n' c1 c2 mid x1 x2. SplitChild T (length as) (make_node T ek ev False) n = Some n' \<and>
    nd T n' (qs @ mid # rs) (as @ c1 # c2 # bs) \<and> x = x1 @ mid # x2 \<and>
    bt T h c1 x1 \<and> bt T h c2 x2 \<and> KeyCount c1 = T - 1 \<and> KeyCount c2 = T - 1"
proof -
  from c(1) obtain cps ccs where c': "nd T c cps ccs" "body T h cps ccs x" "length cps = 2 * T - 1"
    using c(2) by (metis bt_bodyE)
  have r: "length (qs @ rs) < 2 * T - 1" using room ndD(2) [OF n] by simp
  from SplitChild_view [OF n i r T c'(1,3) is_node_inner_make(1,2), of ek ev False] obtain n' c1 c2 where
    sp: "SplitChild T (length as) (make_node T ek ev False) n = Some n'"
      "nd T n' (qs @ cps ! (T - 1) # rs) (as @ c1 # c2 # bs)"
      "nd T c1 (take (T - 1) cps) (take T ccs)" "nd T c2 (drop T cps) (drop T ccs)" by blast
  have t: "T - 1 < length cps" "Suc (T - 1) = T" using c'(3) T by auto
  from body_split_at [OF c'(2) t(1), unfolded t(2)] obtain x1 x2 where
    x: "x = x1 @ cps ! (T - 1) # x2" "body T h (take (T - 1) cps) (take T ccs) x1"
      "body T h (drop T cps) (drop T ccs) x2" by blast
  have ne: "take (T - 1) cps \<noteq> []" "drop T cps \<noteq> []" using c'(3) T by auto
  have "bt T h c1 x1" "bt T h c2 x2" using bt_bodyI [OF sp(3) x(2)] bt_bodyI [OF sp(4) x(3)] ne by auto
  moreover have "KeyCount c1 = T - 1" "KeyCount c2 = T - 1"
    using ndD(2) [OF sp(3)] ndD(2) [OF sp(4)] c'(3) T by auto
  ultimately show ?thesis using sp(1,2) x(1) by blast
qed

text \<open>
  One split of the child \<^verbatim>\<open>FindKeyIndex\<close> points to keeps the content and leaves that position on a
  child that is not full.
\<close>

lemma Split_at_FindKeyIndex:
  assumes b: "bt T (Suc h) n xs" and s: "strict xs" and new: "key \<notin> fst ` set xs"
    and room: "KeyCount n < 2 * T - 1" and T: "2 \<le> T"
    and c: "GetChild_nonnull T (FindKeyIndex key n) n = Some c" "KeyCount c = 2 * T - 1"
  shows "\<exists>n' c'. SplitChild T (FindKeyIndex key n) (make_node T ek ev False) n = Some n' \<and>
    bt T (Suc h) n' xs \<and> KeyCount n' = KeyCount n + 1 \<and>
    GetChild_nonnull T (FindKeyIndex key n') n' = Some c' \<and> KeyCount c' = T - 1"
proof -
  obtain c0 L x R where f: "focus T h n (FindKeyIndex key n) c0 L x R" "T - 1 \<le> KeyCount c0"
    "xs = L @ x @ R" "below L key" "(\<exists>v r. R = (key, v) # r \<and> hit T key n v) \<or> above key R \<and> miss T key n"
    by (rule focus_find [OF b s, where key = key])
  have c0: "c0 = c" using focusD(1) [OF f(1)] c(1) by simp
  from f(1) obtain qs rs as bs ass bss where
    n: "nd T n (qs @ rs) (as @ c # bs)" and i: "FindKeyIndex key n = length as" "length as = length qs"
    and A: "list_all2 (okc T h) as ass" and B: "list_all2 (okc T h) bs bss" and cx: "bt T h c x"
    and LR: "L = lft ass qs" "R = rgt rs bss" unfolding focus_def c0 by blast
  from Split_bt [OF n i(2) A B cx c(2) room T, of ek ev] obtain n' c1 c2 mid x1 x2 where
    sp: "SplitChild T (length as) (make_node T ek ev False) n = Some n'"
      "nd T n' (qs @ mid # rs) (as @ c1 # c2 # bs)" "x = x1 @ mid # x2"
      "bt T h c1 x1" "bt T h c2 x2" "KeyCount c1 = T - 1" "KeyCount c2 = T - 1" by blast
  have lb: "length bs = length rs" using ndD(5) [OF n] i by simp
  have "xs = il (ass @ x1 # x2 # bss) (qs @ mid # rs)"
    using il_split [of ass qs x1 "x2 # bss" "mid # rs"] f(3) sp(3) LR i(2) list_all2_lengthD [OF A] by simp
  moreover have "list_all2 (okc T h) (as @ c1 # c2 # bs) (ass @ x1 # x2 # bss)"
    using A B sp(4-7) by (auto intro!: list_all2_appendI)
  ultimately have b': "bt T (Suc h) n' xs" using sp(2) i(2) lb by (intro bt_SucI) simp_all
  have st: "strict (qs @ mid # rs)" using strict_node [OF b' s ndD(8,2) [OF sp(2)]] .
  have l: "length ass = length qs" "length bss = length rs"
    using A B i(2) lb by (auto dest: list_all2_lengthD)
  have q: "below qs key" "above key rs"
    using set_lft [OF l(1)] set_rgt [OF l(2)] f(3-5) LR new by (auto simp: below_def above_def)
  have "fst mid \<noteq> key" using new f(3) sp(3) by auto
  then consider "fst mid < key" | "key < fst mid" by force
  then have "\<exists>c'. GetChild_nonnull T (FindKeyIndex key n') n' = Some c' \<and> KeyCount c' = T - 1"
  proof cases
    case 1
    have e: "nd T n' ((qs @ [mid]) @ rs) ((as @ [c1]) @ c2 # bs)" using sp(2) by simp
    have "FindKeyIndex key n' = length (qs @ [mid])"
      using FindKeyIndex_at [OF e, of key] st q 1 by (simp add: below_def)
    then show ?thesis using nd_child(2) [OF e] i(2) sp(7) by simp
  next
    case 2
    have "FindKeyIndex key n' = length qs"
      using FindKeyIndex_at [OF sp(2) st q(1)] q(2) 2 by (simp add: above_def)
    then show ?thesis using nd_child(2) [OF sp(2)] i(2) sp(6) by simp
  qed
  then show ?thesis using sp(1) b' i(1) ndD(2) [OF sp(2)] ndD(2) [OF n] by auto
qed

text \<open>What an insertion leaves: the entry between the smaller and the larger keys, or nothing new.\<close>

definition inserted ::
  "nat \<Rightarrow> nat \<Rightarrow> ('k::linorder) \<Rightarrow> 'v \<Rightarrow> ('k \<times> 'v) list \<Rightarrow> bool \<Rightarrow> ('k, 'v) BtreeNode \<Rightarrow> bool" where
  "inserted T h key val xs r n' \<longleftrightarrow>
     (if r then \<exists>L R. xs = L @ R \<and> below L key \<and> above key R \<and> bt T h n' (L @ (key, val) # R)
      else bt T h n' xs)"

lemma inserted_plug:
  assumes f: "focus T h n j c L x R" "below L key" "above key R"
    and c': "inserted T h key val x r c'" "T - 1 \<le> KeyCount c'"
  shows "inserted T (Suc h) key val (L @ x @ R) r (put_Child j (Some c') n)"
proof (cases r)
  case True
  then obtain l r' where x: "x = l @ r'" "below l key" "above key r'" "bt T h c' (l @ (key, val) # r')"
    using c'(1) by (auto simp: inserted_def)
  then have "bt T (Suc h) (put_Child j (Some c') n) ((L @ l) @ (key, val) # (r' @ R))"
    using focus_plug [OF f(1) x(4) c'(2)] by simp
  then show ?thesis
    using True x f(2,3) unfolding inserted_def
    by simp (rule exI [of _ "L @ l"], rule exI [of _ "r' @ R"], simp)
qed (use focus_plug [OF f(1) _ c'(2)] c'(1) in \<open>simp add: inserted_def\<close>)

lemma MakeShared_mem:
  "set (snd (MakeShared m)) \<subseteq> set m" "fst (MakeShared m) \<or> False \<in> set m"
  by (cases m rule: new.cases; cases "snd (new m)" rule: new.cases; auto simp: MakeShared_def)+

lemma InsertNonFull_leaf:
  assumes n: "nd T n xs []" and s: "strict xs" and room: "KeyCount n < 2 * T - 1"
    and new: "key \<notin> fst ` set xs"
  shows "\<exists>n'. InsertNonFull T key val m n = Some (n', True, m) \<and> inserted T 0 key val xs True n' \<and>
    KeyCount n' = KeyCount n + 1"
proof -
  obtain qs rs where q: "xs = qs @ rs" "length qs = FindKeyIndex key n" "below qs key"
    "(\<exists>v r. rs = (key, v) # r \<and> hit T key n v) \<or> above key rs \<and> miss T key n"
    by (rule node_find [OF n s, where key = key])
  then have a: "above key rs" "miss T key n" using new by auto
  have k: "keys_are T n (map fst xs) (map snd xs)" "KeyCount n = length (map fst xs)"
    "length (map fst xs) < 2 * T - 1" "length qs \<le> length (map fst xs)"
    using ndD(2,8) [OF n] room q(1) by auto
  from PutKey_view [OF k, of key val] obtain n1 where n1: "PutKey T (length qs) key val n = Some n1"
    "same_but_keys n n1"
    "keys_are T n1 (map fst (qs @ (key, val) # rs)) (map snd (qs @ (key, val) # rs))"
    using q(1) by auto
  let ?n' = "put_KeyCount (KeyCount n + 1) n1"
  have "KeyCount n1 = KeyCount n" using n1(2) by (simp add: same_but_keys_def)
  then have "InsertNonFull T key val m n = Some (?n', True, m)"
    using a(2) n1(1) ndD(3) [OF n] k(2,3) q(2)
    unfolding InsertNonFull.simps [of T key val m n]
    by (simp add: miss_def Let_def IncKeyCount_def SetKeyCount_def)
  moreover have "nd T ?n' (qs @ (key, val) # rs) []"
    using n1(2,3) k(2) q(1) ndD(3,7) [OF n]
    by (intro ndI) (auto simp: keys_are_def kids_are_def same_but_keys_def)
  then have "inserted T 0 key val xs True ?n'" using q(1,3) a(1) by (auto simp: inserted_def)
  ultimately show ?thesis by auto
qed

lemma InsertNonFull_bt:
  assumes "bt T h n xs" "strict xs" "key \<notin> fst ` set xs" "KeyCount n < 2 * T - 1" "2 \<le> T"
  shows "\<exists>n' r m'. InsertNonFull T key val m n = Some (n', r, m') \<and> inserted T h key val xs r n' \<and>
    KeyCount n \<le> KeyCount n' \<and> set m' \<subseteq> set m \<and> (r \<or> False \<in> set m)"
  using assms
proof (induction h arbitrary: n xs m)
  case 0
  then show ?case using InsertNonFull_leaf [of T n xs key val m] by fastforce
next
  case (Suc h)
  text \<open>The loop on a node whose next child is not full.\<close>
  have down: "\<exists>n' r m'. InsertNonFull T key val m n = Some (n', r, m') \<and> inserted T (Suc h) key val xs r n' \<and>
    KeyCount n \<le> KeyCount n' \<and> set m' \<subseteq> set m \<and> (r \<or> False \<in> set m)"
    if b: "bt T (Suc h) n xs"
      and g: "GetChild_nonnull T (FindKeyIndex key n) n = Some c" "KeyCount c < 2 * T - 1" for n c m
  proof -
    obtain c0 L x R where f: "focus T h n (FindKeyIndex key n) c0 L x R" "T - 1 \<le> KeyCount c0"
      "xs = L @ x @ R" "below L key" "(\<exists>v r. R = (key, v) # r \<and> hit T key n v) \<or> above key R \<and> miss T key n"
      by (rule focus_find [OF b Suc.prems(2), where key = key])
    have a: "above key R" "miss T key n" "c0 = c" using f Suc.prems(3) focusD(1) [OF f(1)] g(1) by auto
    have x: "strict x" "key \<notin> fst ` set x" using f(3) Suc.prems(2,3) by (auto simp: sorted_wrt_append)
    from Suc.IH [OF focusD(3) [OF f(1)] x _ Suc.prems(5), of m] g(2) a(3) obtain c' r m' where
      c': "InsertNonFull T key val m c = Some (c', r, m')" "inserted T h key val x r c'"
        "KeyCount c \<le> KeyCount c'" "set m' \<subseteq> set m" "r \<or> False \<in> set m" by auto
    have "\<not> IsFull T c" using g(2) by (simp add: IsFull_def)
    then have "InsertNonFull T key val m n = Some (put_Child (FindKeyIndex key n) (Some c') n, r, m')"
      using a(2) g(1) c'(1) focusD(5) [OF f(1)]
      unfolding InsertNonFull.simps [of T key val m n] by (simp add: miss_def Let_def)
    moreover have "inserted T (Suc h) key val xs r (put_Child (FindKeyIndex key n) (Some c') n)"
      unfolding f(3) using inserted_plug [OF f(1,4) a(1) c'(2)] c'(3) f(2) a(3) by simp
    ultimately show ?thesis using c'(4,5) by auto
  qed
  obtain c L x R where f: "focus T h n (FindKeyIndex key n) c L x R" "T - 1 \<le> KeyCount c"
    "xs = L @ x @ R" "below L key" "(\<exists>v r. R = (key, v) # r \<and> hit T key n v) \<or> above key R \<and> miss T key n"
    by (rule focus_find [OF Suc.prems(1,2), where key = key])
  have miss: "miss T key n" using f Suc.prems(3) by auto
  have le: "KeyCount c \<le> 2 * T - 1"
    using focusD(3) [OF f(1)] by (auto elim!: bt_bodyE dest: ndD(4))
  show ?case
  proof (cases "IsFull T c")
    case False
    then show ?thesis using down [OF Suc.prems(1) focusD(1) [OF f(1)], of m] le by (simp add: IsFull_def)
  next
    case True
    then have "KeyCount c = 2 * T - 1" by (simp add: IsFull_def)
    from Split_at_FindKeyIndex [OF Suc.prems(1-5) focusD(1) [OF f(1)] this,
        of "EmptyKey n" "EmptyValue n"] obtain n1 c1 where
      sp: "SplitChild T (FindKeyIndex key n) (make_node T (EmptyKey n) (EmptyValue n) False) n = Some n1"
        "bt T (Suc h) n1 xs" "KeyCount n1 = KeyCount n + 1"
        "GetChild_nonnull T (FindKeyIndex key n1) n1 = Some c1" "KeyCount c1 = T - 1" by blast
    have "KeyCount c1 < 2 * T - 1" using sp(5) Suc.prems(5) by simp
    from down [OF sp(2,4) this, of "snd (MakeShared m)"] obtain n' r m' where
      d: "InsertNonFull T key val (snd (MakeShared m)) n1 = Some (n', r, m')"
        "inserted T (Suc h) key val xs r n'" "KeyCount n1 \<le> KeyCount n'"
        "set m' \<subseteq> set (snd (MakeShared m))" "r \<or> False \<in> set (snd (MakeShared m))" by blast
    have "InsertNonFull T key val m n = (if fst (MakeShared m) then Some (n', r, m')
        else Some (n, False, snd (MakeShared m)))"
      using miss True focusD(1,5) [OF f(1)] sp(1) d(1)
      unfolding InsertNonFull.simps [of T key val m n] by (simp add: miss_def Let_def)
    then show ?thesis
      using d sp(3) MakeShared_mem [of m] Suc.prems(1)
      by (cases "fst (MakeShared m)") (auto simp: inserted_def)
  qed
qed

end
