(* ===== verification/Btree_Delete.thy ===== *)
theory Btree_Delete
  imports Btree
begin

text \<open>
  Deletion from a B-tree: the searches for the neighbouring key, the merge of two children and
  the loop of \<^verbatim>\<open>Delete\<close> remove exactly the entries of the given key, keep all leaves at one
  depth, and never reach an assertion.
\<close>

declare bt.simps(2) [simp del]


section \<open>The neighbouring key\<close>

text \<open>
  \<open>reached T h n p leaf L ys R\<close>: the path \<open>p\<close> leads from \<open>n\<close> to the leaf with the entries \<open>ys\<close>,
  and a leaf that is not too small may be put in its place.
\<close>

definition reached ::
  "nat \<Rightarrow> nat \<Rightarrow> ('k, 'v) BtreeNode \<Rightarrow> nat list \<Rightarrow> ('k, 'v) BtreeNode \<Rightarrow> ('k \<times> 'v) list
     \<Rightarrow> ('k \<times> 'v) list \<Rightarrow> ('k \<times> 'v) list \<Rightarrow> bool" where
  "reached T h n p leaf L ys R \<longleftrightarrow> node_at p n = Some leaf \<and> nd T leaf ys [] \<and> T \<le> length ys \<and>
     (\<forall>leaf' ys'. nd T leaf' ys' [] \<and> T - 1 \<le> length ys' \<longrightarrow>
        (\<exists>n'. put_at p leaf' n = Some n' \<and> bt T h n' (L @ ys' @ R) \<and> T - 1 \<le> KeyCount n'))"

lemma put_Child_twice [simp]: "put_Child j c (put_Child j d n) = put_Child j c n"
  by (cases n) simp

lemma reached_step:
  assumes f: "focus T h n j c L x R" "T - 1 \<le> KeyCount n" and r: "reached T h c' p leaf l ys r"
  shows "reached T (Suc h) (put_Child j (Some c') n) (j # p) leaf (L @ l) ys (r @ R)"
proof -
  have j: "j < length (Child n)" using focusD(4) [OF f(1)] f(1) unfolding focus_def by (auto dest: ndD(6))
  have "\<exists>n'. put_at (j # p) leaf' (put_Child j (Some c') n) = Some n' \<and>
      bt T (Suc h) n' ((L @ l) @ ys' @ r @ R) \<and> T - 1 \<le> KeyCount n'"
    if new: "nd T leaf' ys' []" "T - 1 \<le> length ys'" for leaf' ys'
  proof -
    obtain d where d: "put_at p leaf' c' = Some d" "bt T h d (l @ ys' @ r)" "T - 1 \<le> KeyCount d"
      using r new unfolding reached_def by blast
    show ?thesis using focus_plug [OF f(1) d(2,3)] d(1) j f(2) by simp
  qed
  then show ?thesis using r j unfolding reached_def by simp
qed

lemma reached_leaf: "nd T n ys [] \<Longrightarrow> T \<le> length ys \<Longrightarrow> reached T 0 n [] n [] ys []"
  unfolding reached_def by (auto dest: ndD(2))

lemma FindLeftMost_bt:
  assumes "bt T h n xs" "T \<le> KeyCount n" "2 \<le> T"
  shows "\<exists>n' p leaf l ys k v. FindLeftMost T n = Some (n', p, length ys) \<and>
    reached T h n' p leaf l (ys @ [(k, v)]) [] \<and> xs = l @ ys @ [(k, v)]"
  using assms
proof (induction h arbitrary: n xs)
  case 0
  then have n: "nd T n xs []" by simp
  have "xs \<noteq> []" using ndD(2) [OF n] 0 by auto
  then obtain ys k v where y: "xs = ys @ [(k, v)]" by (cases xs rule: rev_cases) auto
  have "FindLeftMost T n = Some (n, [], length ys)"
    using ndD(2,3) [OF n] y by (subst FindLeftMost.simps) simp
  moreover have "reached T 0 n [] n [] (ys @ [(k, v)]) []"
    using reached_leaf [OF n] ndD(2) [OF n] y 0 by simp
  moreover have "xs = [] @ ys @ [(k, v)]" using y by simp
  ultimately show ?case by blast
next
  case (Suc h)
  obtain c L x R qs rs where f: "focus T h n (KeyCount n) c L x R" "T - 1 \<le> KeyCount c" "xs = L @ x @ R"
    "keys_are T n (map fst (qs @ rs)) (map snd (qs @ rs))" "KeyCount n = length (qs @ rs)"
    "length qs = KeyCount n" "if qs = [] then L = [] else \<exists>l. L = l @ [last qs]"
    "if rs = [] then R = [] else \<exists>r. R = hd rs # r"
    by (rule focus_at [OF Suc.prems(1) order_refl])
  have "length rs = 0" using f(5) [unfolded length_append] f(6) by linarith
  then have R: "R = []" using f(8) by simp
  from ChildBalance_focus [OF f(1,2) Suc.prems(3)] obtain n1 p where
    cb: "ChildBalance T (KeyCount n) n = Some (n1, p)" "balanced T h n L x R n1 p" by blast
  with Suc.prems obtain j c1 a L' where
    b: "p = Some j" "focus T h n1 j c1 L' (a @ x) []" "L = L' @ a" "T \<le> KeyCount c1" "KeyCount n \<le> KeyCount n1 + 1"
    unfolding balanced_def R by (cases p) auto
  from Suc.IH [OF focusD(3) [OF b(2)] b(4) Suc.prems(3)] obtain c' q leaf l ys k v where
    c': "FindLeftMost T c1 = Some (c', q, length ys)" "reached T h c' q leaf l (ys @ [(k, v)]) []"
      "a @ x = l @ ys @ [(k, v)]" by blast
  have "FindLeftMost T n = Some (put_Child j (Some c') n1, j # q, length ys)"
    using cb(1) b(1) focusD(2) [OF b(2)] focusD(5) [OF f(1)] c'(1) Suc.prems
    by (subst FindLeftMost.simps) simp
  moreover have "reached T (Suc h) (put_Child j (Some c') n1) (j # q) leaf (L' @ l) (ys @ [(k, v)]) []"
    using reached_step [OF b(2) _ c'(2)] b(5) Suc.prems by simp
  moreover have "xs = (L' @ l) @ ys @ [(k, v)]" using f(3) R b(3) c'(3) by simp
  ultimately show ?case by blast
qed

lemma FindRightMost_bt:
  assumes "bt T h n xs" "T \<le> KeyCount n" "2 \<le> T"
  shows "\<exists>n' p leaf r ys k v. FindRightMost T n = Some (n', p, 0) \<and>
    reached T h n' p leaf [] ((k, v) # ys) r \<and> xs = (k, v) # ys @ r"
  using assms
proof (induction h arbitrary: n xs)
  case 0
  then have n: "nd T n xs []" by simp
  have "xs \<noteq> []" using ndD(2) [OF n] 0 by auto
  then obtain ys k v where y: "xs = (k, v) # ys" by (cases xs) auto
  have "FindRightMost T n = Some (n, [], 0)"
    using ndD(2,3) [OF n] y by (subst FindRightMost.simps) simp
  moreover have "reached T 0 n [] n [] ((k, v) # ys) []"
    using reached_leaf [OF n] ndD(2) [OF n] y 0 by simp
  moreover have "xs = (k, v) # ys @ []" using y by simp
  ultimately show ?case by blast
next
  case (Suc h)
  obtain c L x R qs rs where f: "focus T h n 0 c L x R" "T - 1 \<le> KeyCount c" "xs = L @ x @ R"
    "keys_are T n (map fst (qs @ rs)) (map snd (qs @ rs))" "KeyCount n = length (qs @ rs)"
    "length qs = 0" "if qs = [] then L = [] else \<exists>l. L = l @ [last qs]"
    "if rs = [] then R = [] else \<exists>r. R = hd rs # r"
    by (rule focus_at [OF Suc.prems(1) le0])
  have L: "L = []" using f(6,7) by simp
  from ChildBalance_focus [OF f(1,2) Suc.prems(3)] obtain n1 p where
    cb: "ChildBalance T 0 n = Some (n1, p)" "balanced T h n L x R n1 p" by blast
  with Suc.prems obtain j c1 b R' where
    b: "p = Some j" "focus T h n1 j c1 [] (x @ b) R'" "R = b @ R'" "T \<le> KeyCount c1" "KeyCount n \<le> KeyCount n1 + 1"
    unfolding balanced_def L by (cases p) auto
  from Suc.IH [OF focusD(3) [OF b(2)] b(4) Suc.prems(3)] obtain c' q leaf r ys k v where
    c': "FindRightMost T c1 = Some (c', q, 0)" "reached T h c' q leaf [] ((k, v) # ys) r"
      "x @ b = (k, v) # ys @ r" by blast
  have "FindRightMost T n = Some (put_Child j (Some c') n1, j # q, 0)"
    using cb(1) b(1) focusD(2) [OF b(2)] focusD(5) [OF f(1)] c'(1) Suc.prems
    by (subst FindRightMost.simps) simp
  moreover have "reached T (Suc h) (put_Child j (Some c') n1) (j # q) leaf [] ((k, v) # ys) (r @ R')"
    using reached_step [OF b(2) _ c'(2)] b(5) Suc.prems by simp
  moreover have "xs = (k, v) # ys @ r @ R'" using f(3) L b(3) c'(3) by (metis append.assoc append_Cons append_Nil)
  ultimately show ?case by blast
qed



section \<open>The deletion loop\<close>

lemma Delete_leaf:
  assumes n: "nd T n xs []" and s: "strict xs"
  shows "\<exists>n'. Delete_restart T k n = Some (n', k \<in> fst ` set xs) \<and> nd T n' (without k xs) [] \<and>
    KeyCount n \<le> KeyCount n' + 1"
proof -
  obtain qs rs where q: "xs = qs @ rs" "length qs = FindKeyIndex k n" "below qs k"
    "(\<exists>v r. rs = (k, v) # r \<and> hit T k n v) \<or> above k rs \<and> miss T k n"
    by (rule node_find [OF n s, where key = k])
  from q(4) show ?thesis
  proof (elim disjE exE conjE)
    fix v r assume h: "rs = (k, v) # r" "hit T k n v"
    have ks: "keys_are T n (map fst xs) (map snd xs)" "KeyCount n = length (map fst xs)"
      "length qs < length (map fst xs)" using ndD(2,8) [OF n] q(1) h(1) by auto
    from DeleteKey_view [OF ks] obtain n1 where n1: "DeleteKey T (length qs) n = Some n1" "same_but_keys n n1"
      "keys_are T n1 (map fst (qs @ r)) (map snd (qs @ r))" using q(1) h(1) by auto
    let ?n' = "put_KeyCount (length (qs @ r)) n1"
    have kc: "KeyCount n1 = Suc (length (qs @ r))" using n1(2) ks(2) q(1) h(1) by (simp add: same_but_keys_def)
    moreover have "length (qs @ r) \<le> 2 * T - 1" using n1(3) by (simp add: keys_are_def)
    ultimately have "Delete_restart T k n = Some (?n', True)"
      using h(2) n1(1) ndD(3) [OF n] q(2) unfolding Delete_restart.simps [of T k n]
      by (simp add: hit_def Let_def DecKeyCount_def SetKeyCount_def)
    moreover have "nd T ?n' (qs @ r) []"
      using n1(2,3) ndD(3,7) [OF n] by (intro ndI) (auto simp: keys_are_def kids_are_def same_but_keys_def)
    moreover have "without k xs = qs @ r"
      using q(1,3) h(1) strict_midD [of qs k v r] s by (simp add: without_below without_above)
    ultimately show ?thesis using q(1) h(1) ks(2) by auto
  next
    assume a: "above k rs" "miss T k n"
    then have "k \<notin> fst ` set xs" using q(1,3) by (force simp: below_def above_def)
    moreover have "Delete_restart T k n = Some (n, False)"
      using a(2) ndD(3) [OF n] unfolding Delete_restart.simps [of T k n] by (simp add: miss_def Let_def)
    ultimately show ?thesis using n by (auto simp: without_absent)
  qed
qed

text \<open>What the loop has to achieve on a subtree, and the step into a rebalanced child.\<close>

definition deleted ::
  "nat \<Rightarrow> nat \<Rightarrow> ('k::linorder) \<Rightarrow> ('k, 'v) BtreeNode \<Rightarrow> ('k \<times> 'v) list
     \<Rightarrow> (('k, 'v) BtreeNode \<times> bool) option \<Rightarrow> bool" where
  "deleted T h k n xs res \<longleftrightarrow> (\<exists>n' h'. res = Some (n', k \<in> fst ` set xs) \<and> bt T h' n' (without k xs) \<and>
     (T \<le> KeyCount n \<longrightarrow> h' = h \<and> T - 1 \<le> KeyCount n'))"

lemma without_mid:
  "below L k \<Longrightarrow> above k R \<Longrightarrow> without k (L @ x @ R) = L @ without k x @ R"
  by (simp add: without_below without_above)

lemma key_mid:
  "below L k \<Longrightarrow> above k R \<Longrightarrow> k \<in> fst ` set (L @ x @ R) \<longleftrightarrow> k \<in> fst ` set x"
  by (force simp: below_def above_def)

lemma Delete_descend:
  fixes n :: "('k::linorder, 'v) BtreeNode"
  assumes bal: "balanced T h n L x R n1 p" and s: "strict (L @ x @ R)" and k: "below L k" "above k R"
    and IH: "\<And>(n::('k, 'v) BtreeNode) xs. bt T h n xs \<Longrightarrow> strict xs \<Longrightarrow> deleted T h k n xs (Delete_restart T k n)" and T: "2 \<le> T"
  shows "deleted T (Suc h) k n (L @ x @ R)
    (case p of None \<Rightarrow> Delete_restart T k n1
     | Some j \<Rightarrow> do { c \<leftarrow> Child n1 ! j; q \<leftarrow> Delete_restart T k c; Some (put_Child j (Some (fst q)) n1, snd q) })"
proof (cases p)
  case None
  then have "KeyCount n = 1" "bt T h n1 (L @ x @ R)" "T \<le> KeyCount n1" using bal by (auto simp: balanced_def)
  then show ?thesis using IH [OF _ s, of n1] None T by (auto simp: deleted_def)
next
  case (Some j)
  with bal obtain c a b L' R' where b: "focus T h n1 j c L' (a @ x @ b) R'" "L = L' @ a" "R = b @ R'"
    "T \<le> KeyCount c" "KeyCount n \<le> KeyCount n1 + 1" unfolding balanced_def by auto
  let ?x = "a @ x @ b"
  have e: "L @ x @ R = L' @ ?x @ R'" using b by simp
  have k': "below L' k" "above k R'" using k b by auto
  have "strict ?x" using s unfolding e strict_append by blast
  from IH [OF focusD(3) [OF b(1)] this] b(4) obtain c' where
    c': "Delete_restart T k c = Some (c', k \<in> fst ` set ?x)" "bt T h c' (without k ?x)" "T - 1 \<le> KeyCount c'"
    by (auto simp: deleted_def)
  have "bt T (Suc h) (put_Child j (Some c') n1) (without k (L @ x @ R))"
    using focus_plug [OF b(1) c'(2,3)] unfolding e without_mid [OF k'] .
  then show ?thesis
    using Some focusD(2) [OF b(1)] c'(1) b(5) unfolding e deleted_def key_mid [OF k'] by auto
qed

text \<open>The merge of the two children around the key is the merge of \<^verbatim>\<open>ChildMerge\<close>.\<close>

lemma Delete_merge_eq:
  assumes "GetChild_nonnull T i n = Some c" "GetChild_nonnull T (Suc i) n = Some d" "Suc i < 2 * T"
  shows "Delete_merge T i c d n = map_option (\<lambda>(n', p). (n', p, KeyCount c)) (ChildMerge T i False n)"
  using assms
  by (auto simp: Delete_merge_def ChildMerge_def sib_index_def split: Option.bind_split option.split)


lemma focus_key:
  assumes f: "focus T h n i c L x R" and R: "R = (k, v) # r"
  obtains qs rs as bs ass bss d y where "nd T n (qs @ (k, v) # rs) (as @ c # d # bs)" "i = length as"
    "length as = length qs" "list_all2 (okc T h) as ass" "list_all2 (okc T h) bs bss" "bt T h c x"
    "okc T h d y" "L = lft ass qs" "r = y @ rgt rs bss"
proof -
  from f obtain qs rs' as bs' ass bss' where
    n: "nd T n (qs @ rs') (as @ c # bs')" "i = length as" "length as = length qs" "list_all2 (okc T h) as ass"
      "list_all2 (okc T h) bs' bss'" "bt T h c x" "L = lft ass qs" "R = rgt rs' bss'"
    unfolding focus_def by blast
  have l: "length bs' = length rs'" "length bss' = length bs'"
    using ndD(5) [OF n(1)] n(3,5) by (auto dest: list_all2_lengthD)
  have "rs' \<noteq> []" using n(8) R by auto
  then obtain p rs where r: "rs' = p # rs" by (cases rs') auto
  with l obtain d bs y bss where b: "bs' = d # bs" "bss' = y # bss" by (cases bs'; cases bss') auto
  have "p = (k, v)" "r = y @ rgt rs bss" using n(8) R r b by auto
  then show thesis
    using n r b
    by (intro that [where qs = qs and rs = rs and as = as and d = d and bs = bs and ass = ass and bss = bss
        and y = y]) auto
qed

text \<open>The three ways of deleting a key that an inner node holds.\<close>

lemma Delete_pre:
  assumes n: "nd T n (qs @ (k, v) # rs) (as @ c # d # bs)" and i: "length as = length qs"
    and A: "list_all2 (okc T h) as ass" and B: "list_all2 (okc T h) (d # bs) (y # bss)"
    and c: "bt T h c x" "T \<le> KeyCount c" and T: "2 \<le> T" and s: "strict x"
  shows "\<exists>r leaf n1 k' q c'. FindLeftMost T c = Some r \<and> node_at (fst (snd r)) (fst r) = Some leaf \<and>
    CopyKey T (length as) leaf (snd (snd r)) n = Some n1 \<and> GetKey T (snd (snd r)) leaf = Some k' \<and>
    Delete_restart T k' leaf = Some q \<and> snd q \<and> put_at (fst (snd r)) (fst q) (fst r) = Some c' \<and>
    bt T (Suc h) (put_Child (length as) (Some c') n1) (lft ass qs @ x @ y @ rgt rs bss) \<and>
    KeyCount n1 = KeyCount n"
proof -
  from FindLeftMost_bt [OF c T] obtain c1 p leaf l ys k' v' where
    r: "FindLeftMost T c = Some (c1, p, length ys)" "reached T h c1 p leaf l (ys @ [(k', v')]) []"
      "x = l @ ys @ [(k', v')]" by blast
  have leaf: "node_at p c1 = Some leaf" "nd T leaf (ys @ [(k', v')]) []" "T \<le> length (ys @ [(k', v')])"
    and put: "\<And>leaf' ys'. nd T leaf' ys' [] \<Longrightarrow> T - 1 \<le> length ys' \<Longrightarrow>
      \<exists>n'. put_at p leaf' c1 = Some n' \<and> bt T h n' (l @ ys') \<and> T - 1 \<le> KeyCount n'"
    using r(2) unfolding reached_def by auto
  have sy: "strict (ys @ [(k', v')])" using s r(3) by (simp add: sorted_wrt_append)
  have "without k' (ys @ [(k', v')]) = ys" using without_below [OF strict_snocD [OF sy]] by (simp add: without_def)
  with Delete_leaf [OF leaf(2) sy, of k'] obtain leaf' where
    d: "Delete_restart T k' leaf = Some (leaf', True)" "nd T leaf' ys []" by auto
  have "T - 1 \<le> length ys" using leaf(3) by simp
  from put [OF d(2) this] obtain c' where c': "put_at p leaf' c1 = Some c'" "bt T h c' (l @ ys)"
    "T - 1 \<le> KeyCount c'" by auto
  let ?n1 = "put_Value (length as) v' (put_Key (length as) k' n)"
  have ck: "CopyKey T (length as) leaf (length ys) n = Some ?n1" "GetKey T (length ys) leaf = Some k'"
    using CopyKey_eq [OF leaf(2), of "length as" n] nd_key(1) [OF leaf(2)] nd_key(3) [OF n] i by auto
  have n1: "nd T ?n1 (qs @ (k', v') # rs) (as @ c # d # bs)" using nd_CopyKey [OF n] i by simp
  have "focus T h ?n1 (length as) c (lft ass qs) x ((k', v') # y @ rgt rs bss)"
    unfolding focus_def using n1 i A B c(1)
    by (intro exI [of _ qs] exI [of _ "(k', v') # rs"] exI [of _ as] exI [of _ "d # bs"] exI [of _ ass]
        exI [of _ "y # bss"]) simp
  from focus_plug [OF this c'(2,3)]
  have "bt T (Suc h) (put_Child (length as) (Some c') ?n1) (lft ass qs @ x @ y @ rgt rs bss)"
    using r(3) by simp
  then show ?thesis using r(1) leaf(1) ck d(1) c'(1) by auto
qed

lemma Delete_suc:
  assumes n: "nd T n (qs @ (k, v) # rs) (as @ c # d # bs)" and i: "length as = length qs"
    and A: "list_all2 (okc T h) (as @ [c]) (ass @ [x])" and B: "list_all2 (okc T h) bs bss"
    and d: "bt T h d y" "T \<le> KeyCount d" and T: "2 \<le> T" and s: "strict y"
  shows "\<exists>r leaf n1 k' q d'. FindRightMost T d = Some r \<and> node_at (fst (snd r)) (fst r) = Some leaf \<and>
    CopyKey T (length as) leaf (snd (snd r)) n = Some n1 \<and> GetKey T (snd (snd r)) leaf = Some k' \<and>
    Delete_restart T k' leaf = Some q \<and> snd q \<and> put_at (fst (snd r)) (fst q) (fst r) = Some d' \<and>
    bt T (Suc h) (put_Child (Suc (length as)) (Some d') n1) (lft ass qs @ x @ y @ rgt rs bss) \<and>
    KeyCount n1 = KeyCount n"
proof -
  from FindRightMost_bt [OF d T] obtain d1 p leaf l ys k' v' where
    r: "FindRightMost T d = Some (d1, p, 0)" "reached T h d1 p leaf [] ((k', v') # ys) l"
      "y = (k', v') # ys @ l" by blast
  have leaf: "node_at p d1 = Some leaf" "nd T leaf ([] @ (k', v') # ys) []" "T \<le> length ((k', v') # ys)"
    and put: "\<And>leaf' ys'. nd T leaf' ys' [] \<Longrightarrow> T - 1 \<le> length ys' \<Longrightarrow>
      \<exists>n'. put_at p leaf' d1 = Some n' \<and> bt T h n' (ys' @ l) \<and> T - 1 \<le> KeyCount n'"
    using r(2) unfolding reached_def by auto
  have sy: "strict ([] @ (k', v') # ys)" using s r(3) by (simp add: sorted_wrt_append)
  have "without k' ((k', v') # ys) = ys" using strict_midD [OF sy] by (simp add: without_above)
  with Delete_leaf [OF leaf(2) sy, of k'] obtain leaf' where
    e: "Delete_restart T k' leaf = Some (leaf', True)" "nd T leaf' ys []" by auto
  have "T - 1 \<le> length ys" using leaf(3) by simp
  from put [OF e(2) this] obtain d' where d': "put_at p leaf' d1 = Some d'" "bt T h d' (ys @ l)"
    "T - 1 \<le> KeyCount d'" by auto
  let ?n1 = "put_Value (length as) v' (put_Key (length as) k' n)"
  have ck: "CopyKey T (length as) leaf 0 n = Some ?n1" "GetKey T 0 leaf = Some k'"
    using CopyKey_eq [OF leaf(2), of "length as" n] nd_key(1) [OF leaf(2)] nd_key(3) [OF n] i by auto
  have n1: "nd T ?n1 (qs @ (k', v') # rs) (as @ c # d # bs)" using nd_CopyKey [OF n] i by simp
  have la: "length ass = length qs" using list_all2_lengthD [OF A] i by simp
  have "focus T h ?n1 (Suc (length as)) d (lft ass qs @ x @ [(k', v')]) y (rgt rs bss)"
    unfolding focus_def using n1 i A B d(1) la
    by (intro exI [of _ "qs @ [(k', v')]"] exI [of _ rs] exI [of _ "as @ [c]"] exI [of _ bs]
        exI [of _ "ass @ [x]"] exI [of _ bss]) simp
  from focus_plug [OF this d'(2,3)]
  have "bt T (Suc h) (put_Child (Suc (length as)) (Some d') ?n1) (lft ass qs @ x @ y @ rgt rs bss)"
    using r(3) by simp
  then show ?thesis using r(1) leaf(1) ck e(1) d'(1) by auto
qed


lemma Delete_merge_bt:
  assumes n: "nd T n (qs @ (k, v) # rs) (as @ c # d # bs)" and i: "length as = length qs"
    and A: "list_all2 (okc T h) as ass" and B: "list_all2 (okc T h) bs bss"
    and c: "bt T h c x" "KeyCount c = T - 1" and d: "bt T h d y" "KeyCount d = T - 1" and T: "2 \<le> T"
  shows "\<exists>n1 p. Delete_merge T (length as) c d n = Some (n1, p, KeyCount c) \<and>
    balanced T h n (lft ass qs) (x @ (k, v) # y) (rgt rs bss) n1 p \<and>
    (case p of None \<Rightarrow> GetKey T (KeyCount c) n1 = Some k
     | Some j \<Rightarrow> \<exists>m. Child n1 ! j = Some m \<and> GetKey T (KeyCount c) m = Some k)"
proof -
  have n2: "nd T n (qs @ (k, v) # rs) ((as @ [c]) @ d # bs)" using n by simp
  have "KeyCount c + KeyCount d < 2 * T - 1" using c(2) d(2) T by simp
  from Merge_bt [OF n i c(1) d(1) this] obtain n1 m where
    m: "bt T h m (x @ (k, v) # y)" "KeyCount m = KeyCount c + KeyCount d + 1" "Key m ! KeyCount c = k"
      "if qs @ rs = [] then ChildMerge T (length as) False n = Some (n1, None) \<and>
         bt T h n1 (x @ (k, v) # y) \<and> KeyCount n1 = KeyCount c + KeyCount d + 1 \<and> Key n1 ! KeyCount c = k
       else ChildMerge T (length as) False n = Some (n1, Some (length as)) \<and>
         nd T n1 (qs @ rs) (as @ m # bs)" by blast
  have kc: "T \<le> KeyCount c + KeyCount d + 1" "KeyCount c < 2 * T - 1" using c(2) d(2) T by auto
  have gk: "GetKey T (KeyCount c) e = Some k" if "KeyCount e = KeyCount c + KeyCount d + 1" "Key e ! KeyCount c = k" for e
    using that kc(2) by (simp add: GetKey_def)
  note eq = Delete_merge_eq [of T "length as" n c d] nd_child(2) [OF n] nd_child(2,4) [OF n2]
  show ?thesis
  proof (cases "qs @ rs = []")
    case True
    then show ?thesis using m(4) eq kc(1) gk ndD(2) [OF n] i A B by (auto simp: balanced_def)
  next
    case False
    with m(4) have m4: "ChildMerge T (length as) False n = Some (n1, Some (length as))"
      "nd T n1 (qs @ rs) (as @ m # bs)" by auto
    have f: "focus T h n1 (length as) m (lft ass qs) (x @ (k, v) # y) (rgt rs bss)"
      unfolding focus_def using m4(2) False i A B m(1) by blast
    then have "balanced T h n (lft ass qs) (x @ (k, v) # y) (rgt rs bss) n1 (Some (length as))"
      unfolding balanced_def using kc m(2) ndD(2) [OF n] ndD(2) [OF m4(2)]
      by simp (rule exI [of _ m], rule exI [of _ "[]"], rule exI [of _ "[]"], simp)
    then show ?thesis using m4(1) eq focusD(2) [OF f] gk [OF m(2,3)] by auto
  qed
qed

lemma Delete_inner_hit:
  fixes n :: "('k::linorder, 'v) BtreeNode"
  assumes f: "focus T h n (FindKeyIndex k n) c L x ((k, v) # r)" and hit: "hit T k n v"
    and kc: "T - 1 \<le> KeyCount c" and s: "strict (L @ x @ (k, v) # r)" and T: "2 \<le> T"
    and IH: "\<And>(n::('k, 'v) BtreeNode) xs. bt T h n xs \<Longrightarrow> strict xs \<Longrightarrow> deleted T h k n xs (Delete_restart T k n)"
  shows "deleted T (Suc h) k n (L @ x @ (k, v) # r) (Delete_restart T k n)"
proof -
  obtain qs rs as bs ass bss d y where
    n: "nd T n (qs @ (k, v) # rs) (as @ c # d # bs)" and i: "FindKeyIndex k n = length as" "length as = length qs"
    and A: "list_all2 (okc T h) as ass" and B: "list_all2 (okc T h) bs bss" and c: "bt T h c x"
    and d: "okc T h d y" and LR: "L = lft ass qs" "r = y @ rgt rs bss"
    by (rule focus_key [OF f refl])
  have n2: "nd T n (qs @ (k, v) # rs) ((as @ [c]) @ d # bs)" using n by simp
  have g: "GetChild_nonnull T (length as) n = Some c" "GetChild_nonnull T (Suc (length as)) n = Some d"
    using nd_child(2) [OF n] nd_child(2) [OF n2] by auto
  have gi: "GetKeyIndex k n = Some (length as)" "\<not> Leaf n" "GetKey T (length as) n = Some k"
    using hit i(1) ndD(3) [OF n] by (auto simp: hit_def Let_def)
  have st: "strict x" "strict y" "strict (L @ (x @ (k, v) # y) @ rgt rs bss)"
    using s LR(2) by (auto simp: sorted_wrt_append)
  have kb: "below (L @ x) k" "above k r" using s strict_midD [of "L @ x" k v r] by auto
  have wo: "without k (L @ x @ (k, v) # r) = L @ x @ y @ rgt rs bss"
    using kb by (simp add: without_below without_above LR(2))
  show ?thesis
  proof (cases "T \<le> KeyCount c")
    case True
    have B': "list_all2 (okc T h) (d # bs) (y # bss)" using B d by simp
    from Delete_pre [OF n i(2) A B' c True T st(1)] obtain p leaf n1 k' q c' where
      p: "FindLeftMost T c = Some p" "node_at (fst (snd p)) (fst p) = Some leaf"
        "CopyKey T (length as) leaf (snd (snd p)) n = Some n1" "GetKey T (snd (snd p)) leaf = Some k'"
        "Delete_restart T k' leaf = Some q" "snd q" "put_at (fst (snd p)) (fst q) (fst p) = Some c'"
        "bt T (Suc h) (put_Child (length as) (Some c') n1) (lft ass qs @ x @ y @ rgt rs bss)"
        "KeyCount n1 = KeyCount n" by blast
    then have "Delete_restart T k n = Some (put_Child (length as) (Some c') n1, True)"
      using g gi True unfolding Delete_restart.simps [of T k n] by simp
    then show ?thesis
      using p(8,9) wo unfolding deleted_def LR(1) [symmetric]
      by (intro exI [of _ "put_Child (length as) (Some c') n1"] exI [of _ "Suc h"]) auto
  next
    case c1: False
    show ?thesis
    proof (cases "T \<le> KeyCount d")
      case True
      have A': "list_all2 (okc T h) (as @ [c]) (ass @ [x])" using A c kc by (auto intro!: list_all2_appendI)
      from Delete_suc [OF n i(2) A' B _ True T st(2)] d obtain p leaf n1 k' q d' where
        p: "FindRightMost T d = Some p" "node_at (fst (snd p)) (fst p) = Some leaf"
          "CopyKey T (length as) leaf (snd (snd p)) n = Some n1" "GetKey T (snd (snd p)) leaf = Some k'"
          "Delete_restart T k' leaf = Some q" "snd q" "put_at (fst (snd p)) (fst q) (fst p) = Some d'"
          "bt T (Suc h) (put_Child (Suc (length as)) (Some d') n1) (lft ass qs @ x @ y @ rgt rs bss)"
          "KeyCount n1 = KeyCount n" by blast
      then have "Delete_restart T k n = Some (put_Child (Suc (length as)) (Some d') n1, True)"
        using g gi True c1 unfolding Delete_restart.simps [of T k n] by simp
      then show ?thesis
        using p(8,9) wo unfolding deleted_def LR(1) [symmetric]
        by (intro exI [of _ "put_Child (Suc (length as)) (Some d') n1"] exI [of _ "Suc h"]) auto
    next
      case d1: False
      have kcs: "KeyCount c = T - 1" "KeyCount d = T - 1" using c1 d1 kc d by auto
      from Delete_merge_bt [OF n i(2) A B c kcs(1) _ kcs(2) T] d obtain n1 p where
        m: "Delete_merge T (length as) c d n = Some (n1, p, KeyCount c)"
          "balanced T h n (lft ass qs) (x @ (k, v) # y) (rgt rs bss) n1 p"
          "case p of None \<Rightarrow> GetKey T (KeyCount c) n1 = Some k
           | Some j \<Rightarrow> \<exists>m. Child n1 ! j = Some m \<and> GetKey T (KeyCount c) m = Some k" by blast
      have "Delete_restart T k n = (case p of None \<Rightarrow> Delete_restart T k n1
         | Some j \<Rightarrow> do { c \<leftarrow> Child n1 ! j; q \<leftarrow> Delete_restart T k c; Some (put_Child j (Some (fst q)) n1, snd q) })"
        using g gi c1 d1 m(1,3) unfolding Delete_restart.simps [of T k n] by (cases p) auto
      moreover have "below L k" "above k (rgt rs bss)" using kb LR by auto
      ultimately show ?thesis
        using Delete_descend [OF m(2) [folded LR(1)] st(3) _ _ IH T] LR(2) by simp
    qed
  qed
qed

theorem Delete_restart_bt:
  fixes n :: "('k::linorder, 'v) BtreeNode"
  assumes "bt T h n xs" "strict xs" "2 \<le> T"
  shows "deleted T h k n xs (Delete_restart T k n)"
  using assms
proof (induction h arbitrary: n xs)
  case 0
  then have n: "nd T n xs []" by simp
  from Delete_leaf [OF n 0(2), of k] ndD(2) [OF n] show ?case unfolding deleted_def
    by (auto intro!: exI [of _ 0])
next
  case (Suc h)
  obtain c L x R where f: "focus T h n (FindKeyIndex k n) c L x R" "T - 1 \<le> KeyCount c"
    "xs = L @ x @ R" "below L k" "(\<exists>v r. R = (k, v) # r \<and> hit T k n v) \<or> above k R \<and> miss T k n"
    by (rule focus_find [OF Suc.prems(1,2), where key = k])
  have IH: "deleted T h k m ys (Delete_restart T k m)" if "bt T h m ys" "strict ys"
    for m :: "('k, 'v) BtreeNode" and ys
    using Suc.IH [OF that Suc.prems(3)] .
  from f(5) show ?case
  proof (elim disjE exE conjE)
    fix v r assume R: "R = (k, v) # r" "hit T k n v"
    show ?thesis
      using Delete_inner_hit [OF f(1) [unfolded R(1)] R(2) f(2) _ Suc.prems(3) IH] Suc.prems(2)
      unfolding f(3) R(1) by blast
  next
    assume a: "above k R" "miss T k n"
    from ChildBalance_focus [OF f(1,2) Suc.prems(3)] obtain n1 p where
      cb: "ChildBalance T (FindKeyIndex k n) n = Some (n1, p)" "balanced T h n L x R n1 p" by blast
    have "Delete_restart T k n = (case p of None \<Rightarrow> Delete_restart T k n1
         | Some j \<Rightarrow> do { c \<leftarrow> Child n1 ! j; q \<leftarrow> Delete_restart T k c; Some (put_Child j (Some (fst q)) n1, snd q) })"
      using a(2) focusD(5) [OF f(1)] cb(1) unfolding Delete_restart.simps [of T k n]
      by (cases p) (simp_all add: miss_def Let_def)
    then show ?thesis
      using Delete_descend [OF cb(2) Suc.prems(2) [unfolded f(3)] f(4) a(1) IH Suc.prems(3)] f(3) by simp
  qed
qed

end
