(* ===== verification/Kv_Map.thy ===== *)
theory Kv_Map
  imports Prelude "HOL-Library.Monad_Syntax"
begin

text \<open>
  The contract of the associative containers of \<^verbatim>\<open>src/core\<close> (\<^verbatim>\<open>Btree\<close> and \<^verbatim>\<open>HashTable\<close>): what an
  insertion, a deletion and a lookup do to the map the container stands for. An insertion is
  refused when the key is present and may fail when an allocation fails; a deletion reports
  whether the key was there. Client facts are proved once here.
\<close>

datatype ('k, 'v) kv_op = Ins 'k 'v | Del 'k

text \<open>What a sequence of requests does to a map when no allocation fails, with the results.\<close>

fun kv_spec :: "('k, 'v) kv_op list \<Rightarrow> ('k \<rightharpoonup> 'v) \<Rightarrow> ('k \<rightharpoonup> 'v) \<times> bool list" where
  "kv_spec [] f = (f, [])"
| "kv_spec (Ins k v # ops) f =
     (let r = (f k = None); (g, rs) = kv_spec ops (if r then f(k \<mapsto> v) else f) in (g, r # rs))"
| "kv_spec (Del k # ops) f =
     (let r = (f k \<noteq> None); (g, rs) = kv_spec ops (f(k := None)) in (g, r # rs))"

text \<open>Running the requests against a container, with successful allocations.\<close>

fun kv_run ::
  "('k \<Rightarrow> 'v \<Rightarrow> mem \<Rightarrow> 's \<Rightarrow> ('s \<times> bool \<times> mem) option) \<Rightarrow> ('k \<Rightarrow> 's \<Rightarrow> ('s \<times> bool) option)
     \<Rightarrow> ('k, 'v) kv_op list \<Rightarrow> 's \<Rightarrow> ('s \<times> bool list) option" where
  "kv_run ins del [] s = Some (s, [])"
| "kv_run ins del (Ins k v # ops) s = do {
     (s1, r, m) \<leftarrow> ins k v [] s;
     (s2, rs) \<leftarrow> kv_run ins del ops s1;
     Some (s2, r # rs) }"
| "kv_run ins del (Del k # ops) s = do {
     (s1, r) \<leftarrow> del k s;
     (s2, rs) \<leftarrow> kv_run ins del ops s1;
     Some (s2, r # rs) }"

locale kv_map =
  fixes inv :: "'s \<Rightarrow> bool" and content :: "'s \<Rightarrow> ('k \<rightharpoonup> 'v)"
    and ins :: "'k \<Rightarrow> 'v \<Rightarrow> mem \<Rightarrow> 's \<Rightarrow> ('s \<times> bool \<times> mem) option"
    and del :: "'k \<Rightarrow> 's \<Rightarrow> ('s \<times> bool) option"
    and look :: "'k \<Rightarrow> 's \<Rightarrow> ('v \<times> bool) option"
  assumes ins_law: "inv s \<Longrightarrow> \<exists>s' r m'. ins k v m s = Some (s', r, m') \<and> inv s' \<and>
      content s' = (if r then (content s)(k \<mapsto> v) else content s) \<and>
      (r \<longrightarrow> content s k = None) \<and> (\<not> r \<longrightarrow> content s k \<noteq> None \<or> False \<in> set m)"
    and del_law: "inv s \<Longrightarrow> \<exists>s'. del k s = Some (s', content s k \<noteq> None) \<and> inv s' \<and>
      content s' = (content s)(k := None)"
    and look_law: "inv s \<Longrightarrow> \<exists>w. look k s = Some (case content s k of None \<Rightarrow> (w, False) | Some v \<Rightarrow> (v, True))"
begin

lemma ins_ok:
  assumes "inv s"
  shows "\<exists>s' m'. ins k v [] s = Some (s', content s k = None, m') \<and> inv s' \<and>
    content s' = (if content s k = None then (content s)(k \<mapsto> v) else content s)"
  using ins_law [OF assms, of k v "[]"] by fastforce

text \<open>Any sequence of requests returns, keeps the invariant and behaves as the map does.\<close>

lemma run_refines:
  assumes "inv s"
  shows "\<exists>s'. kv_run ins del ops s = Some (s', snd (kv_spec ops (content s))) \<and> inv s' \<and>
    content s' = fst (kv_spec ops (content s))"
  using assms
proof (induction ops arbitrary: s)
  case Nil
  then show ?case by simp
next
  case (Cons a ops)
  show ?case
  proof (cases a)
    case (Ins k v)
    obtain s1 m where 1: "ins k v [] s = Some (s1, content s k = None, m)" "inv s1"
      "content s1 = (if content s k = None then (content s)(k \<mapsto> v) else content s)"
      using ins_ok [OF Cons.prems] by blast
    from Cons.IH [OF 1(2)] obtain s2 where
      2: "kv_run ins del ops s1 = Some (s2, snd (kv_spec ops (content s1)))" "inv s2"
        "content s2 = fst (kv_spec ops (content s1))" by blast
    show ?thesis using Ins 1 2 by (simp add: Let_def split: prod.split)
  next
    case (Del k)
    obtain s1 where 1: "del k s = Some (s1, content s k \<noteq> None)" "inv s1"
      "content s1 = (content s)(k := None)"
      using del_law [OF Cons.prems] by blast
    from Cons.IH [OF 1(2)] obtain s2 where
      2: "kv_run ins del ops s1 = Some (s2, snd (kv_spec ops (content s1)))" "inv s2"
        "content s2 = fst (kv_spec ops (content s1))" by blast
    show ?thesis using Del 1 2 by (simp add: Let_def split: prod.split)
  qed
qed

text \<open>A key that was inserted is found with its value; a deleted one is not.\<close>

lemma look_after_ins:
  assumes "inv s" "ins k v m s = Some (s', True, m')"
  shows "look k s' = Some (v, True)"
  using ins_law [OF assms(1), of k v m] look_law [of s' k] assms(2) by auto

lemma look_after_del:
  assumes "inv s" "del k s = Some (s', r)"
  shows "\<exists>w. look k s' = Some (w, False)"
  using del_law [OF assms(1), of k] look_law [of s' k] assms(2) by auto

end

end
