(* ===== verification/Btree_Map.thy ===== *)
theory Btree_Map
  imports Btree_Delete Kv_Map
begin

text \<open>
  The public interface of \<^verbatim>\<open>Core::Btree\<close> (\<^verbatim>\<open>src/core/btree.h\<close>) and its correctness: the tree is a map
  from keys to values. The lock of the source makes every operation atomic, so an operation is a
  function from the state before to the state after.
\<close>

section \<open>The tree\<close>

text \<open>
  The root pointer and the default key and value. The member \<^verbatim>\<open>KeyToDelete\<close> is written before
  every use and is an argument of the loop here.
\<close>

record ('k, 'v) Btree =
  Root :: "('k, 'v) BtreeNode option"
  DefKey :: 'k
  DefValue :: 'v

definition make_Btree :: "'k \<Rightarrow> 'v \<Rightarrow> ('k, 'v) Btree" where
  "make_Btree ek ev = \<lparr>Root = None, DefKey = ek, DefValue = ev\<rparr>"

definition LookupLocked :: "nat \<Rightarrow> ('k::linorder) \<Rightarrow> ('k, 'v) Btree \<Rightarrow> ('v \<times> bool) option" where
  "LookupLocked T key t =
     (case Root t of None \<Rightarrow> Some (DefValue t, False) | Some n \<Rightarrow> LookupLocked_node T (DefValue t) key n)"

definition Lookup :: "nat \<Rightarrow> ('k::linorder) \<Rightarrow> ('k, 'v) Btree \<Rightarrow> ('v \<times> bool) option" where
  "Lookup T key t = LookupLocked T key t"

text \<open>The part of \<^verbatim>\<open>Insert\<close> after the root exists: a full root is split below a new one first.\<close>

definition Insert_at_root ::
  "nat \<Rightarrow> ('k::linorder) \<Rightarrow> 'v \<Rightarrow> mem \<Rightarrow> ('k, 'v) BtreeNode \<Rightarrow> ('k, 'v) Btree
     \<Rightarrow> (('k, 'v) Btree \<times> bool \<times> mem) option" where
  "Insert_at_root T key val m root t =
     (let new = make_node T (DefKey t) (DefValue t) False in
      if IsFull T root then
        (if \<not> fst (MakeShared m) then Some (t\<lparr>Root := Some root\<rparr>, False, snd (MakeShared m))
         else let m1 = snd (MakeShared m) in
         if \<not> fst (MakeShared m1) then do {
           _ \<leftarrow> destroy_node T new;
           Some (t\<lparr>Root := Some root\<rparr>, False, snd (MakeShared m1)) }
         else do {
           n1 \<leftarrow> PutChild T 0 (Some root) new;
           n2 \<leftarrow> SplitChild T 0 new n1;
           r \<leftarrow> InsertNonFull T key val (snd (MakeShared m1)) n2;
           Some (t\<lparr>Root := Some (fst r)\<rparr>, snd r) })
      else do {
        r \<leftarrow> InsertNonFull T key val m root;
        Some (t\<lparr>Root := Some (fst r)\<rparr>, snd r) })"

definition Insert ::
  "nat \<Rightarrow> ('k::linorder) \<Rightarrow> 'v \<Rightarrow> mem \<Rightarrow> ('k, 'v) Btree \<Rightarrow> (('k, 'v) Btree \<times> bool \<times> mem) option" where
  "Insert T key val m t = do {
     r \<leftarrow> LookupLocked T key t;
     if snd r then Some (t, False, m)
     else case Root t of
       None \<Rightarrow>
         (if fst (MakeShared m)
          then Insert_at_root T key val (snd (MakeShared m)) (make_node T (DefKey t) (DefValue t) True) t
          else Some (t, False, snd (MakeShared m)))
     | Some root \<Rightarrow> Insert_at_root T key val m root t }"

definition Delete :: "nat \<Rightarrow> ('k::linorder) \<Rightarrow> ('k, 'v) Btree \<Rightarrow> (('k, 'v) Btree \<times> bool) option" where
  "Delete T key t =
     (case Root t of
        None \<Rightarrow> Some (t, False)
      | Some root \<Rightarrow> do {
          r \<leftarrow> Delete_restart T key root;
          Some (t\<lparr>Root := Some (fst r)\<rparr>, snd r) })"


section \<open>Walking the whole tree\<close>

lemma Child_size: "Some c \<in> set (Child n) \<Longrightarrow> size c < size n"
  by (cases n) (auto simp: size_list_estimation' [where y = "size_option size (Some c)"] less_Suc_eq_le
      dest: size_list_estimation' [where f = "size_option size" and y = "Suc (size c)"])

lemma Child_take_size: "Some c \<in> set (take i (Child n)) \<Longrightarrow> size c < size n"
  by (meson Child_size in_set_takeD)

text \<open>
  \<^verbatim>\<open>MinDepth\<close> and \<^verbatim>\<open>MaxDepth\<close> recurse over the children \<open>0..KeyCount\<close>; a null child is a panic.
\<close>

definition all_some :: "'a option list \<Rightarrow> 'a list option" where
  "all_some xs = guard (list_all (\<lambda>x. x \<noteq> None) xs) (Some (map the xs))"

function MinDepth_node :: "nat \<Rightarrow> ('k, 'v) BtreeNode \<Rightarrow> nat option" where
  "MinDepth_node T n =
     (if Leaf n then Some 1
      else guard (KeyCount n + 1 \<le> 2 * T) (do {
        ds \<leftarrow> all_some (map (\<lambda>c. case c of None \<Rightarrow> None | Some c \<Rightarrow> MinDepth_node T c)
                (take (KeyCount n + 1) (Child n)));
        Some (1 + foldl min (hd ds) (tl ds)) }))"
  by pat_completeness auto
termination
  by (relation "measure (\<lambda>(T, n). size n)") (auto dest: Child_take_size)

function MaxDepth_node :: "nat \<Rightarrow> ('k, 'v) BtreeNode \<Rightarrow> nat option" where
  "MaxDepth_node T n =
     (if Leaf n then Some 1
      else guard (KeyCount n + 1 \<le> 2 * T) (do {
        ds \<leftarrow> all_some (map (\<lambda>c. case c of None \<Rightarrow> None | Some c \<Rightarrow> MaxDepth_node T c)
                (take (KeyCount n + 1) (Child n)));
        Some (1 + foldl max (hd ds) (tl ds)) }))"
  by pat_completeness auto
termination
  by (relation "measure (\<lambda>(T, n). size n)") (auto dest: Child_take_size)

function Check_node :: "nat \<Rightarrow> bool \<Rightarrow> ('k::linorder, 'v) BtreeNode \<Rightarrow> bool" where
  "Check_node T root n \<longleftrightarrow>
     \<not> KeyCount n > 2 * T - 1 \<and> (root \<or> \<not> KeyCount n < T - 1) \<and>
     list_all (\<lambda>i. \<not> Key n ! i \<ge> Key n ! (i + 1)) [0..<KeyCount n - 1] \<and>
     (if \<not> Leaf n then
        list_all (\<lambda>c. case c of None \<Rightarrow> False | Some c \<Rightarrow> Check_node T False c) (take (KeyCount n + 1) (Child n)) \<and>
        list_all (\<lambda>c. c = None) (drop (KeyCount n + 1) (take (2 * T) (Child n)))
      else list_all (\<lambda>c. c = None) (take (2 * T) (Child n)))"
  by pat_completeness auto
termination
  by (relation "measure (\<lambda>(T, r, n). size n)") (auto dest: Child_take_size)

declare MinDepth_node.simps [simp del] MaxDepth_node.simps [simp del] Check_node.simps [simp del]

definition MinDepth :: "nat \<Rightarrow> ('k, 'v) Btree \<Rightarrow> nat option" where
  "MinDepth T t = (case Root t of None \<Rightarrow> Some 0 | Some n \<Rightarrow> MinDepth_node T n)"

definition MaxDepth :: "nat \<Rightarrow> ('k, 'v) Btree \<Rightarrow> nat option" where
  "MaxDepth T t = (case Root t of None \<Rightarrow> Some 0 | Some n \<Rightarrow> MaxDepth_node T n)"

definition Check :: "nat \<Rightarrow> ('k::linorder, 'v) Btree \<Rightarrow> bool" where
  "Check T t = (case Root t of None \<Rightarrow> True | Some n \<Rightarrow> Check_node T True n)"

text \<open>
  One round of \<^verbatim>\<open>Clear\<close> below an inner node: the inner loop always takes child 0, so \<open>childIndex\<close> is
  0 when a leaf is reached and the branch that also deletes a key is never taken. The detached
  leaf is destroyed when the loop restarts.
\<close>

partial_function (option) Clear_descend :: "nat \<Rightarrow> ('k, 'v) BtreeNode \<Rightarrow> ('k, 'v) BtreeNode option" where
  [code]: "Clear_descend T parent = do {
     node \<leftarrow> GetChild_nonnull T 0 parent;
     if Leaf node then do {
       p1 \<leftarrow> DeleteChild T 0 parent;
       cc \<leftarrow> GetChildCount T p1;
       _ \<leftarrow> destroy_node T node;
       Some (if cc = 0 then SetLeaf True p1 else p1) }
     else do {
       node' \<leftarrow> Clear_descend T node;
       Some (put_Child 0 (Some node') parent) } }"

partial_function (option) Clear_loop :: "nat \<Rightarrow> ('k, 'v) BtreeNode \<Rightarrow> unit option" where
  [code]: "Clear_loop T root =
     (if Leaf root then do {
        cc \<leftarrow> GetChildCount T root;
        guard (cc = 0) (destroy_node T root) }
      else do { root' \<leftarrow> Clear_descend T root; Clear_loop T root' })"

definition Clear :: "nat \<Rightarrow> ('k, 'v) Btree \<Rightarrow> ('k, 'v) Btree option" where
  "Clear T t = (case Root t of None \<Rightarrow> Some t
     | Some root \<Rightarrow> do { _ \<leftarrow> Clear_loop T root; Some (t\<lparr>Root := None\<rparr>) })"


section \<open>What a tree holds\<close>

function entries :: "('k, 'v) BtreeNode \<Rightarrow> ('k \<times> 'v) list" where
  "entries n =
     (let ps = zip (take (KeyCount n) (Key n)) (take (KeyCount n) (Value n)) in
      if Leaf n then ps
      else il (map (\<lambda>c. case c of None \<Rightarrow> [] | Some c \<Rightarrow> entries c) (take (KeyCount n + 1) (Child n))) ps)"
  by pat_completeness auto
termination
  by (relation "measure size") (auto dest: Child_take_size)

declare entries.simps [simp del]

definition tree_entries :: "('k, 'v) Btree \<Rightarrow> ('k \<times> 'v) list" where
  "tree_entries t = (case Root t of None \<Rightarrow> [] | Some n \<Rightarrow> entries n)"

definition tree_map :: "('k, 'v) Btree \<Rightarrow> ('k \<rightharpoonup> 'v)" where
  "tree_map t = map_of (tree_entries t)"

definition btree_inv :: "nat \<Rightarrow> ('k::linorder, 'v) Btree \<Rightarrow> bool" where
  "btree_inv T t \<longleftrightarrow> strict (tree_entries t) \<and>
     (case Root t of None \<Rightarrow> True | Some n \<Rightarrow> \<exists>h. bt T h n (entries n))"

lemma nd_take_Child: "nd T n ps cs \<Longrightarrow> cs \<noteq> [] \<Longrightarrow> take (KeyCount n + 1) (Child n) = map Some cs"
  using ndD(2,5,7) [of T n ps cs] by (simp add: kids_are_def)

lemma nd_zip: "nd T n ps cs \<Longrightarrow> zip (take (KeyCount n) (Key n)) (take (KeyCount n) (Value n)) = ps"
  using ndD(2,8) [of T n ps cs] by (simp add: keys_are_def zip_map_fst_snd)

lemma bt_entries: "bt T h n xs \<Longrightarrow> entries n = xs"
proof (induction h arbitrary: n xs)
  case 0
  then show ?case using nd_zip [of T n xs "[]"] ndD(3) [of T n xs "[]"]
    by (subst entries.simps) (simp add: Let_def)
next
  case (Suc h)
  then obtain ps cs xss where b: "nd T n ps cs" "ps \<noteq> []" "length cs = length ps + 1"
    "list_all2 (okc T h) cs xss" "xs = il xss ps" by (auto simp: bt.simps(2))
  have "map entries cs = xss"
    using b(4) Suc.IH by (auto simp: list_all2_conv_all_nth intro!: nth_equalityI)
  then show ?case
    using nd_zip [OF b(1)] nd_take_Child [OF b(1)] ndD(3) [OF b(1)] b(3,5)
    by (subst entries.simps) (auto simp: Let_def comp_def)
qed


lemma btree_invI: "bt T h n xs \<Longrightarrow> strict xs \<Longrightarrow> btree_inv T (t\<lparr>Root := Some n\<rparr>)"
  by (auto simp: btree_inv_def tree_entries_def bt_entries)

lemma btree_invE:
  assumes "btree_inv T t" "Root t = Some n"
  obtains h where "bt T h n (entries n)" "strict (entries n)" "tree_entries t = entries n"
  using assms by (auto simp: btree_inv_def tree_entries_def)

lemma tree_map_root: "bt T h n xs \<Longrightarrow> tree_map (t\<lparr>Root := Some n\<rparr>) = map_of xs"
  by (simp add: tree_map_def tree_entries_def bt_entries)

lemma map_of_insert_between:
  assumes "below L k" "above k R"
  shows "map_of (L @ (k, v) # R) = (map_of (L @ R))(k \<mapsto> v)"
proof
  fix x
  show "map_of (L @ (k, v) # R) x = ((map_of (L @ R))(k \<mapsto> v)) x"
    using below_map_of [OF assms(1)] by (auto simp: map_add_def split: option.split)
qed

lemma map_of_without: "map_of (without k xs) = (map_of xs)(k := None)"
  by (induction xs) (auto simp: without_def)

lemma LookupLocked_map:
  assumes "btree_inv T t"
  shows "LookupLocked T k t = Some (case tree_map t k of None \<Rightarrow> (DefValue t, False) | Some v \<Rightarrow> (v, True))"
proof (cases "Root t")
  case None
  then show ?thesis by (simp add: LookupLocked_def tree_map_def tree_entries_def)
next
  case (Some n)
  with assms show ?thesis
    by (auto simp: LookupLocked_def tree_map_def tree_entries_def btree_inv_def LookupLocked_bt)
qed

lemma Delete_map:
  assumes "btree_inv T t" "2 \<le> T"
  shows "\<exists>t'. Delete T k t = Some (t', tree_map t k \<noteq> None) \<and> btree_inv T t' \<and>
    tree_entries t' = without k (tree_entries t) \<and> tree_map t' = (tree_map t)(k := None)"
proof (cases "Root t")
  case None
  then show ?thesis using assms(1)
    by (auto simp: Delete_def tree_map_def tree_entries_def without_def)
next
  case (Some n)
  with assms(1) obtain h where h: "bt T h n (entries n)" "strict (entries n)" "tree_entries t = entries n"
    by (blast elim: btree_invE)
  from Delete_restart_bt [OF h(1,2) assms(2), of k] obtain n' h' where
    d: "Delete_restart T k n = Some (n', k \<in> fst ` set (entries n))" "bt T h' n' (without k (entries n))"
    unfolding deleted_def by blast
  have "Delete T k t = Some (t\<lparr>Root := Some n'\<rparr>, tree_map t k \<noteq> None)"
    using Some d(1) h(3) by (simp add: Delete_def tree_map_def map_of_eq_None_iff)
  moreover have "tree_entries (t\<lparr>Root := Some n'\<rparr>) = without k (tree_entries t)"
    using bt_entries [OF d(2)] h(3) by (simp add: tree_entries_def)
  moreover have "tree_map (t\<lparr>Root := Some n'\<rparr>) = (tree_map t)(k := None)"
    using tree_map_root [OF d(2)] h(3) map_of_without by (metis tree_map_def)
  ultimately show ?thesis using btree_invI [OF d(2) strict_without [OF h(2)]] by blast
qed


section \<open>Insertion\<close>

text \<open>Splitting a full root below a new one.\<close>

lemma Grow_root:
  assumes b: "bt T h r xs" "KeyCount r = 2 * T - 1" and T: "2 \<le> T"
  shows "\<exists>n1 n2. PutChild T 0 (Some r) (make_node T ek ev False) = Some n1 \<and>
    SplitChild T 0 (make_node T ek' ev' False) n1 = Some n2 \<and> bt T (Suc h) n2 xs \<and> KeyCount n2 = 1"
proof -
  let ?new = "make_node T ek ev False"
  from PutChild_root_view [of T ?new r, OF is_node_inner_make(2,3) T] obtain n1 where
    n1: "PutChild T 0 (Some r) ?new = Some n1" "same_but_children ?new n1" "kids_are T n1 [r]" by blast
  have nd1: "nd T n1 ([] @ []) ([] @ r # [])"
    using n1(2,3) is_node_inner_make [of T ek ev False]
    by (intro ndI) (auto simp: same_but_children_def keys_are_def)
  have "KeyCount n1 < 2 * T - 1" using ndD(2) [OF nd1] T by simp
  from Split_bt [where ass = "[]" and bss = "[]" and ek = ek' and ev = ev', OF nd1 _ _ _ b this T] obtain n2 c1 c2 mid x1 x2
    where sp: "SplitChild T 0 (make_node T ek' ev' False) n1 = Some n2" "nd T n2 ([] @ mid # []) ([] @ c1 # c2 # [])"
      "xs = x1 @ mid # x2" "bt T h c1 x1" "bt T h c2 x2" "KeyCount c1 = T - 1" "KeyCount c2 = T - 1"
    by auto
  have "list_all2 (okc T h) [c1, c2] [x1, x2]" using sp by simp
  moreover have "xs = il [x1, x2] [mid]" using sp(3) by (simp add: il_def)
  ultimately have "bt T (Suc h) n2 xs" using sp(2) by (intro bt_SucI [of T n2 "[mid]" "[c1, c2]"]) auto
  then show ?thesis using n1(1) sp(1) ndD(2) [OF sp(2)] by auto
qed

lemma InsertNonFull_root:
  assumes b: "bt T h n xs" "strict xs" "k \<notin> fst ` set xs" "KeyCount n < 2 * T - 1" "2 \<le> T"
  shows "\<exists>n' r m'. InsertNonFull T k v m n = Some (n', r, m') \<and> btree_inv T (t\<lparr>Root := Some n'\<rparr>) \<and>
    tree_map (t\<lparr>Root := Some n'\<rparr>) = (if r then (map_of xs)(k \<mapsto> v) else map_of xs) \<and>
    set m' \<subseteq> set m \<and> (r \<or> False \<in> set m)"
proof -
  from InsertNonFull_bt [OF assms, of v m] obtain n' r m' where
    i: "InsertNonFull T k v m n = Some (n', r, m')" "inserted T h k v xs r n'" "set m' \<subseteq> set m"
      "r \<or> False \<in> set m" by blast
  show ?thesis
  proof (cases r)
    case True
    then obtain L R where x: "xs = L @ R" "below L k" "above k R" "bt T h n' (L @ (k, v) # R)"
      using i(2) by (auto simp: inserted_def)
    have "strict (L @ (k, v) # R)"
      using b(2) x(1-3) by (auto simp: sorted_wrt_append below_def above_def)
    then show ?thesis
      using i x True btree_invI [OF x(4), of t] tree_map_root [OF x(4), of t] map_of_insert_between [OF x(2,3)]
      by (intro exI [of _ n'] exI [of _ r] exI [of _ m']) simp
  next
    case False
    then have "bt T h n' xs" using i(2) by (simp add: inserted_def)
    then show ?thesis
      using i False btree_invI [of T h n' xs t] b(2) tree_map_root [of T h n' xs t]
      by (intro exI [of _ n'] exI [of _ r] exI [of _ m']) simp
  qed
qed

definition insert_post ::
  "nat \<Rightarrow> ('k::linorder) \<Rightarrow> 'v \<Rightarrow> mem \<Rightarrow> ('k \<rightharpoonup> 'v) \<Rightarrow> (('k, 'v) Btree \<times> bool \<times> mem) option \<Rightarrow> bool" where
  "insert_post T k v m f res \<longleftrightarrow> (\<exists>t' r m'. res = Some (t', r, m') \<and> btree_inv T t' \<and>
     tree_map t' = (if r then f(k \<mapsto> v) else f) \<and> (r \<or> False \<in> set m))"

lemma destroy_make_node [simp]: "destroy_node T (make_node T ek ev l) = Some ()"
  by (rule destroy_ok [OF is_node_inner_make(2)])

lemma Insert_at_root_map:
  assumes b: "bt T h root xs" "strict xs" "k \<notin> fst ` set xs" and T: "2 \<le> T"
  shows "insert_post T k v m (map_of xs) (Insert_at_root T k v m root t)"
proof (cases "IsFull T root")
  case False
  have "KeyCount root \<le> 2 * T - 1" using b(1) by (auto elim!: bt_bodyE dest: ndD(4))
  then have "KeyCount root < 2 * T - 1" using False by (simp add: IsFull_def)
  from InsertNonFull_root [OF b this T, of v m t] obtain n' r m' where
    i: "InsertNonFull T k v m root = Some (n', r, m')" "btree_inv T (t\<lparr>Root := Some n'\<rparr>)"
      "tree_map (t\<lparr>Root := Some n'\<rparr>) = (if r then (map_of xs)(k \<mapsto> v) else map_of xs)"
      "r \<or> False \<in> set m" by blast
  then have "Insert_at_root T k v m root t = Some (t\<lparr>Root := Some n'\<rparr>, r, m')"
    using False by (simp add: Insert_at_root_def)
  then show ?thesis using i unfolding insert_post_def by blast
next
  case True
  then have full: "KeyCount root = 2 * T - 1" by (simp add: IsFull_def)
  let ?new = "make_node T (DefKey t) (DefValue t) False" and ?m1 = "snd (MakeShared m)"
  from Grow_root [OF b(1) full T, of "DefKey t" "DefValue t" "DefKey t" "DefValue t"] obtain n1 n2 where
    g: "PutChild T 0 (Some root) ?new = Some n1" "SplitChild T 0 ?new n1 = Some n2"
      "bt T (Suc h) n2 xs" "KeyCount n2 = 1" by blast
  have "KeyCount n2 < 2 * T - 1" using g(4) T by simp
  from InsertNonFull_root [OF g(3) b(2,3) this T, of v "snd (MakeShared ?m1)" t] obtain n' r m' where
    i: "InsertNonFull T k v (snd (MakeShared ?m1)) n2 = Some (n', r, m')" "btree_inv T (t\<lparr>Root := Some n'\<rparr>)"
      "tree_map (t\<lparr>Root := Some n'\<rparr>) = (if r then (map_of xs)(k \<mapsto> v) else map_of xs)"
      "r \<or> False \<in> set (snd (MakeShared ?m1))" by blast
  have m: "fst (MakeShared m) \<or> False \<in> set m" "fst (MakeShared ?m1) \<or> False \<in> set m"
    "r \<or> False \<in> set m"
    using MakeShared_mem [of m] MakeShared_mem [of ?m1] i(4) by auto
  have same: "btree_inv T (t\<lparr>Root := Some root\<rparr>)" "tree_map (t\<lparr>Root := Some root\<rparr>) = map_of xs"
    using btree_invI [OF b(1,2)] tree_map_root [OF b(1)] by auto
  show ?thesis
    using True g(1,2) i(1-3) m same
    by (auto simp: Insert_at_root_def insert_post_def Let_def)
qed

lemma Insert_map:
  assumes inv: "btree_inv T t" and T: "2 \<le> T"
  shows "\<exists>t' r m'. Insert T k v m t = Some (t', r, m') \<and> btree_inv T t' \<and>
    tree_map t' = (if r then (tree_map t)(k \<mapsto> v) else tree_map t) \<and>
    (r \<longrightarrow> tree_map t k = None) \<and> (\<not> r \<longrightarrow> tree_map t k \<noteq> None \<or> False \<in> set m)"
proof (cases "tree_map t k")
  case (Some w)
  then have "Insert T k v m t = Some (t, False, m)" using LookupLocked_map [OF inv, of k] by (simp add: Insert_def)
  then show ?thesis using inv Some by auto
next
  case None
  then have look: "LookupLocked T k t = Some (DefValue t, False)" using LookupLocked_map [OF inv, of k] by simp
  show ?thesis
  proof (cases "Root t")
    case (Some n)
    with inv obtain h where h: "bt T h n (entries n)" "strict (entries n)" "tree_entries t = entries n"
      by (blast elim: btree_invE)
    have "k \<notin> fst ` set (entries n)" using None h(3) by (simp add: tree_map_def map_of_eq_None_iff)
    from Insert_at_root_map [OF h(1,2) this T, of v m t] obtain t' r m' where
      i: "Insert_at_root T k v m n t = Some (t', r, m')" "btree_inv T t'" "r \<or> False \<in> set m"
        "tree_map t' = (if r then (tree_map t)(k \<mapsto> v) else tree_map t)"
      unfolding insert_post_def tree_map_def h(3) by blast
    have "Insert T k v m t = Some (t', r, m')" using look Some i(1) by (simp add: Insert_def)
    then show ?thesis using i(2-4) None by blast
  next
    case root: None
    let ?n = "make_node T (DefKey t) (DefValue t) True"
    have e: "tree_map t = Map.empty" using root by (simp add: tree_map_def tree_entries_def)
    have "bt T 0 ?n []" using is_node_make by (simp add: nd_def)
    from Insert_at_root_map [OF this _ _ T, of k v "snd (MakeShared m)" t]
    have "insert_post T k v (snd (MakeShared m)) Map.empty (Insert_at_root T k v (snd (MakeShared m)) ?n t)"
      by simp
    then obtain t' r m' where
      i: "Insert_at_root T k v (snd (MakeShared m)) ?n t = Some (t', r, m')" "btree_inv T t'"
        "r \<or> False \<in> set (snd (MakeShared m))" "tree_map t' = (if r then (tree_map t)(k \<mapsto> v) else tree_map t)"
      unfolding insert_post_def e by blast
    have res: "Insert T k v m t = (if fst (MakeShared m) then Some (t', r, m') else Some (t, False, snd (MakeShared m)))"
      using look root i(1) by (simp add: Insert_def)
    have mem: "r \<or> False \<in> set m" "fst (MakeShared m) \<or> False \<in> set m"
      using MakeShared_mem [of m] i(3) by auto
    show ?thesis
    proof (cases "fst (MakeShared m)")
      case True
      then have "Insert T k v m t = Some (t', r, m')" using res by simp
      then show ?thesis using i(2,4) mem(1) None by blast
    next
      case False
      then have "Insert T k v m t = Some (t, False, snd (MakeShared m))" "False \<in> set m" using res mem by auto
      then show ?thesis using inv by auto
    qed
  qed
qed

text \<open>For every minimum degree of at least two the tree is a map in the sense of \<^verbatim>\<open>Kv_Map\<close>.\<close>

lemma Btree_kv_map:
  assumes "2 \<le> T"
  shows "kv_map (btree_inv T) tree_map (Insert T) (Delete T) (Lookup T)"
proof
  fix t :: "('a, 'b) Btree" and k v m
  assume t: "btree_inv T t"
  show "\<exists>s' r m'. Insert T k v m t = Some (s', r, m') \<and> btree_inv T s' \<and>
      tree_map s' = (if r then (tree_map t)(k \<mapsto> v) else tree_map t) \<and>
      (r \<longrightarrow> tree_map t k = None) \<and> (\<not> r \<longrightarrow> tree_map t k \<noteq> None \<or> False \<in> set m)"
    by (rule Insert_map [OF t assms])
  show "\<exists>s'. Delete T k t = Some (s', tree_map t k \<noteq> None) \<and> btree_inv T s' \<and>
      tree_map s' = (tree_map t)(k := None)"
    using Delete_map [OF t assms, of k] by blast
  show "\<exists>w. Lookup T k t = Some (case tree_map t k of None \<Rightarrow> (w, False) | Some v \<Rightarrow> (v, True))"
    using LookupLocked_map [OF t, of k] unfolding Lookup_def by blast
qed

text \<open>The degrees the module instantiates.\<close>

interpretation bt2: kv_map "btree_inv 2" tree_map "Insert 2" "Delete 2" "Lookup 2"
  by (rule Btree_kv_map) simp

interpretation bt4: kv_map "btree_inv 4" tree_map "Insert 4" "Delete 4" "Lookup 4"
  by (rule Btree_kv_map) simp



section \<open>Depth and structure\<close>

lemma foldl_const: "f x x = x \<Longrightarrow> foldl f x (replicate m x) = x"
  by (induction m) auto

lemma all_some_replicate [simp]: "all_some (replicate m (Some x)) = Some (replicate m x)"
  by (simp add: all_some_def list_all_iff)

lemma bt_kids:
  assumes "bt T (Suc h) n xs"
  obtains ps cs where "nd T n ps cs" "\<not> Leaf n" "KeyCount n + 1 \<le> 2 * T" "length cs = KeyCount n + 1"
    "take (KeyCount n + 1) (Child n) = map Some cs" "\<And>c. c \<in> set cs \<Longrightarrow> \<exists>x. bt T h c x \<and> T - 1 \<le> KeyCount c"
proof -
  from assms obtain ps cs xss where b: "nd T n ps cs" "ps \<noteq> []" "length cs = length ps + 1"
    "list_all2 (okc T h) cs xss" by (auto simp: bt.simps(2))
  have "\<exists>x. bt T h c x \<and> T - 1 \<le> KeyCount c" if "c \<in> set cs" for c
    using b(4) that by (auto simp: list_all2_conv_all_nth in_set_conv_nth)
  moreover have "cs \<noteq> []" using b(3) by auto
  moreover have "length ps + 1 \<le> 2 * T" using ndD(4) [OF b(1)] b(2) by (cases ps) auto
  ultimately show thesis
    using nd_take_Child [OF b(1)] ndD(2,3) [OF b(1)] b(3) by (intro that [OF b(1)]) auto
qed

lemma depth_step:
  assumes "length cs = KeyCount n + 1" "\<And>c. c \<in> set cs \<Longrightarrow> f c = Some d"
  shows "all_some (map (\<lambda>c. case c of None \<Rightarrow> None | Some c \<Rightarrow> f c) (map Some cs)) = Some (replicate (KeyCount n + 1) d)"
proof -
  have "map (\<lambda>c. case c of None \<Rightarrow> None | Some c \<Rightarrow> f c) (map Some cs) = replicate (KeyCount n + 1) (Some d)"
    using assms by (intro nth_equalityI) (auto simp del: replicate_Suc)
  then show ?thesis by (simp del: replicate_Suc)
qed

lemma MinDepth_bt: "bt T h n xs \<Longrightarrow> MinDepth_node T n = Some (h + 1)"
proof (induction h arbitrary: n xs)
  case 0
  then show ?case by (subst MinDepth_node.simps) (auto dest: ndD(3))
next
  case (Suc h)
  from Suc.prems obtain ps cs where c: "nd T n ps cs" "\<not> Leaf n" "KeyCount n + 1 \<le> 2 * T"
    "length cs = KeyCount n + 1" "take (KeyCount n + 1) (Child n) = map Some cs"
    "\<And>c. c \<in> set cs \<Longrightarrow> \<exists>x. bt T h c x \<and> T - 1 \<le> KeyCount c" by (rule bt_kids) blast
  have "MinDepth_node T c = Some (h + 1)" if "c \<in> set cs" for c using c(6) [OF that] Suc.IH by blast
  from depth_step [of cs n "MinDepth_node T", OF c(4) this] show ?case
    using c(2,3) unfolding MinDepth_node.simps [of T n] c(5) by (simp add: foldl_const)
qed

lemma MaxDepth_bt: "bt T h n xs \<Longrightarrow> MaxDepth_node T n = Some (h + 1)"
proof (induction h arbitrary: n xs)
  case 0
  then show ?case by (subst MaxDepth_node.simps) (auto dest: ndD(3))
next
  case (Suc h)
  from Suc.prems obtain ps cs where c: "nd T n ps cs" "\<not> Leaf n" "KeyCount n + 1 \<le> 2 * T"
    "length cs = KeyCount n + 1" "take (KeyCount n + 1) (Child n) = map Some cs"
    "\<And>c. c \<in> set cs \<Longrightarrow> \<exists>x. bt T h c x \<and> T - 1 \<le> KeyCount c" by (rule bt_kids) blast
  have "MaxDepth_node T c = Some (h + 1)" if "c \<in> set cs" for c using c(6) [OF that] Suc.IH by blast
  from depth_step [of cs n "MaxDepth_node T", OF c(4) this] show ?case
    using c(2,3) unfolding MaxDepth_node.simps [of T n] c(5) by (simp add: foldl_const)
qed

lemma strict_child:
  assumes "bt T (Suc h) n xs" "strict xs" "nd T n ps cs" "c \<in> set cs"
  shows "\<exists>x. bt T h c x \<and> strict x \<and> T - 1 \<le> KeyCount c"
proof -
  from assms(3,4) obtain j where j: "j < length cs" "cs ! j = c" by (auto simp: in_set_conv_nth)
  have "cs \<noteq> []" using assms(4) by auto
  then have jk: "j \<le> KeyCount n" using ndD(2,5) [OF assms(3)] j by simp
  from focus_at [OF assms(1) jk] obtain c' L x R where
    f: "focus T h n j c' L x R" "T - 1 \<le> KeyCount c'" "xs = L @ x @ R" by metis
  have "c' = c" using focusD(2) [OF f(1)] is_node_Child [OF ndD(1) [OF assms(3)] j(1)] j(2) by simp
  then show ?thesis using focusD(3) [OF f(1)] f(2,3) assms(2) by (auto simp: sorted_wrt_append)
qed

lemma Check_keys:
  assumes "nd T n ps cs" "strict ps"
  shows "\<not> KeyCount n > 2 * T - 1" "list_all (\<lambda>i. \<not> Key n ! i \<ge> Key n ! (i + 1)) [0..<KeyCount n - 1]"
proof -
  show "\<not> KeyCount n > 2 * T - 1" using ndD(2,4) [OF assms(1)] by simp
  have "Key n ! i < Key n ! (i + 1)" if "i < length ps - 1" for i
    using keys_are_nth(1) [OF ndD(8) [OF assms(1)], of i] keys_are_nth(1) [OF ndD(8) [OF assms(1)], of "i + 1"]
      sorted_wrt_nth_less [OF assms(2), of i "i + 1"] that by simp
  then show "list_all (\<lambda>i. \<not> Key n ! i \<ge> Key n ! (i + 1)) [0..<KeyCount n - 1]"
    using ndD(2) [OF assms(1)] by (simp add: list_all_iff not_le)
qed

lemma Check_bt:
  "bt T h n xs \<Longrightarrow> strict xs \<Longrightarrow> root \<or> T - 1 \<le> KeyCount n \<Longrightarrow> Check_node T root n"
proof (induction h arbitrary: n xs root)
  case 0
  then have n: "nd T n xs []" by simp
  then show ?case
    using Check_keys [OF n 0(2)] 0(3) ndD(3,7) [OF n]
    by (subst Check_node.simps) (auto simp: kids_are_def list_all_iff)
next
  case (Suc h)
  from Suc.prems(1) obtain ps cs where c: "nd T n ps cs" "\<not> Leaf n" "KeyCount n + 1 \<le> 2 * T"
    "length cs = KeyCount n + 1" "take (KeyCount n + 1) (Child n) = map Some cs"
    "\<And>c. c \<in> set cs \<Longrightarrow> \<exists>x. bt T h c x \<and> T - 1 \<le> KeyCount c" by (rule bt_kids) blast
  have sp: "strict ps" using strict_node [OF Suc.prems(1,2) ndD(8,2) [OF c(1)]] .
  have "Check_node T False d" if "d \<in> set cs" for d
    using strict_child [OF Suc.prems(1,2) c(1) that] Suc.IH by blast
  then have "list_all (\<lambda>c. case c of None \<Rightarrow> False | Some c \<Rightarrow> Check_node T False c) (map Some cs)"
    by (simp add: list_all_iff)
  moreover have "list_all (\<lambda>c. c = None) (drop (KeyCount n + 1) (take (2 * T) (Child n)))"
    using ndD(7) [OF c(1)] c(4) by (simp add: kids_are_def list_all_iff)
  moreover note Check_keys [OF c(1) sp]
  ultimately show ?case
    using c(2) Suc.prems(3) unfolding Check_node.simps [of T root n] c(5) by auto
qed



section \<open>Clearing\<close>

text \<open>
  While the tree is cleared an inner node keeps its keys and loses its children one by one; this
  is the shape that remains, with the number of nodes as a measure.
\<close>

inductive clearing :: "nat \<Rightarrow> nat \<Rightarrow> ('k, 'v) BtreeNode \<Rightarrow> bool" for T where
  clearing: "kids_are T n cs \<Longrightarrow> (Leaf n \<longleftrightarrow> cs = []) \<Longrightarrow> length cs \<le> KeyCount n + 1 \<Longrightarrow> KeyCount n < 2 * T \<Longrightarrow>
    list_all2 (clearing T) ss cs \<Longrightarrow> clearing T (Suc (sum_list ss)) n"
monos list_all2_mono

lemma bt_clearing: "bt T h n xs \<Longrightarrow> 2 \<le> T \<Longrightarrow> \<exists>s. clearing T s n"
proof (induction h arbitrary: n xs)
  case 0
  then have n: "nd T n xs []" by simp
  have "KeyCount n < 2 * T" using ndD(2,4) [OF n] 0(2) by simp
  then show ?case using clearing [of T n "[]" "[]"] ndD(3,7) [OF n] by auto
next
  case (Suc h)
  from Suc.prems(1) obtain ps cs where c: "nd T n ps cs" "\<not> Leaf n" "KeyCount n + 1 \<le> 2 * T"
    "length cs = KeyCount n + 1" "take (KeyCount n + 1) (Child n) = map Some cs"
    "\<And>c. c \<in> set cs \<Longrightarrow> \<exists>x. bt T h c x \<and> T - 1 \<le> KeyCount c" by (rule bt_kids) blast
  have "\<forall>c \<in> set cs. \<exists>s. clearing T s c" using c(6) Suc.IH Suc.prems(2) by blast
  then obtain f where "\<forall>c \<in> set cs. clearing T (f c) c" by metis
  then have "list_all2 (clearing T) (map f cs) cs" by (auto simp: list_all2_conv_all_nth)
  then show ?case
    using clearing [of T n cs "map f cs"] ndD(3,7) [OF c(1)] c(3,4) by auto
qed

lemma GetChildCount_kids: "kids_are T n cs \<Longrightarrow> GetChildCount T n = Some (length cs)"
proof -
  assume k: "kids_are T n cs"
  then have e: "take (2 * T) (Child n) = map Some cs @ replicate (2 * T - length cs) None"
    by (simp add: kids_are_def)
  have "takeWhile (\<lambda>c. c \<noteq> None) (map Some cs @ replicate m None) = map Some cs" for m
    by (induction cs; cases m) simp_all
  then show ?thesis unfolding GetChildCount_def e by (simp add: list_all_iff)
qed

lemma clearing_del_first:
  assumes k: "kids_are T n (c # cs)" and l: "length (c # cs) \<le> KeyCount n + 1" and T: "KeyCount n < 2 * T"
  shows "\<exists>n1. DeleteChild T 0 n = Some n1 \<and> same_but_children n n1 \<and> kids_are T n1 cs"
proof -
  have len: "length (Child n) = 2 * T" using k by (rule kids_are_length)
  from DeleteChild_raw [OF len T, of 0] obtain n1 where
    n1: "DeleteChild T 0 n = Some n1" "same_but_children n n1"
    and C: "\<forall>j < 2 * T. Child n1 ! j = (if j = KeyCount n then None
       else if 0 \<le> j \<and> j < KeyCount n then Child n ! (j + 1) else Child n ! j)" by auto
  have "kids_are T n1 cs"
  proof (rule kids_areI)
    fix j assume j: "j < 2 * T"
    consider "j < KeyCount n" | "j = KeyCount n" | "KeyCount n < j" by linarith
    then show "Child n1 ! j = (if j < length cs then Some (cs ! j) else None)"
      using C j l T kids_are_nth [OF k, of "j + 1"] kids_are_nth [OF k, of j] by cases auto
  qed (use n1(2) len l T in \<open>auto simp: same_but_children_def\<close>)
  then show ?thesis using n1 by blast
qed

text \<open>One round removes exactly one node.\<close>

lemma Clear_descend_step:
  "clearing T s n \<Longrightarrow> \<not> Leaf n \<Longrightarrow> \<exists>n' s'. Clear_descend T n = Some n' \<and> clearing T s' n' \<and> Suc s' = s"
proof (induction s n rule: clearing.induct)
  case (clearing n cs ss)
  then obtain c cs' s0 ss' where e: "cs = c # cs'" "ss = s0 # ss'" by (cases cs; cases ss) auto
  have g: "GetChild_nonnull T 0 n = Some c"
    using kids_are_nth [OF clearing(1), of 0] clearing(4) e by (simp add: GetChild_nonnull_def GetChild_def)
  have c0: "clearing T s0 c" "list_all2 (clearing T) ss' cs'" using clearing(5) e
    list_all2_mono [of _ ss' cs' "clearing T"] by auto
  show ?case
  proof (cases "Leaf c")
    case True
    with c0(1) have "kids_are T c []" "s0 = 1" by (auto elim: clearing.cases)
    moreover from clearing_del_first [OF clearing(1) [unfolded e]] clearing(3,4) e obtain n1 where
      n1: "DeleteChild T 0 n = Some n1" "same_but_children n n1" "kids_are T n1 cs'" by auto
    moreover let ?n' = "if length cs' = 0 then SetLeaf True n1 else n1"
    have "clearing T (Suc (sum_list ss')) ?n'"
      using n1(2,3) clearing(2-4) e c0(2)
      by (intro clearing.intros [where cs = cs']) (auto simp: same_but_children_def kids_are_def)
    moreover have "Clear_descend T n = Some ?n'"
      using g True n1(1) GetChildCount_kids [OF n1(3)] destroy_ok [OF \<open>kids_are T c []\<close>]
      by (subst Clear_descend.simps) simp
    ultimately show ?thesis using e by auto
  next
    case False
    have "\<exists>n' s'. Clear_descend T c = Some n' \<and> clearing T s' n' \<and> Suc s' = s0"
      using clearing(5) False e by simp
    then obtain c' s' where c': "Clear_descend T c = Some c'" "clearing T s' c'" "Suc s' = s0" by blast
    have "Clear_descend T n = Some (put_Child 0 (Some c') n)"
      using g False c'(1) by (subst Clear_descend.simps) simp
    moreover have "clearing T (Suc (sum_list (s' # ss'))) (put_Child 0 (Some c') n)"
      using clearing(1-4) e c0(2) c'(2) kids_are_put [of T n "[]" c cs' c']
      by (intro clearing.intros [where cs = "c' # cs'"]) auto
    ultimately show ?thesis using e c'(3) by auto
  qed
qed

lemma Clear_loop_done: "clearing T s n \<Longrightarrow> Clear_loop T n = Some ()"
proof (induction s arbitrary: n)
  case 0
  then show ?case by (auto elim: clearing.cases)
next
  case (Suc s)
  show ?case
  proof (cases "Leaf n")
    case True
    then have "kids_are T n []" using Suc.prems by (auto elim: clearing.cases)
    then show ?thesis using True GetChildCount_kids [of T n "[]"] destroy_ok [of T n]
      by (subst Clear_loop.simps) simp
  next
    case False
    from Clear_descend_step [OF Suc.prems this] obtain n' where
      "Clear_descend T n = Some n'" "clearing T s n'" by auto
    then show ?thesis using False Suc.IH by (subst Clear_loop.simps) simp
  qed
qed



section \<open>Height\<close>

text \<open>A subtree of height \<open>h\<close> that is not the root holds at least \<open>T ^ (h + 1) - 1\<close> entries.\<close>

lemma length_rgt: "length ps = length xss \<Longrightarrow> length (rgt ps xss) = length ps + sum_list (map length xss)"
  by (induction ps xss rule: list_induct2) auto

lemma length_il:
  assumes "length xss = length ps + 1"
  shows "length (il xss ps) = length ps + sum_list (map length xss)"
proof -
  from assms obtain x yss where "xss = x # yss" "length yss = length ps" by (cases xss) auto
  then show ?thesis using length_rgt [of ps yss] by (simp add: il_def)
qed

lemma sum_list_bound: "(\<And>x. x \<in> set xs \<Longrightarrow> (m::nat) \<le> f x) \<Longrightarrow> length xs * m \<le> sum_list (map f xs)"
  by (induction xs) (auto intro: add_mono)

lemma bt_size_kids:
  fixes n :: "('k, 'v) BtreeNode"
  assumes b: "bt T (Suc h) n xs"
    and IH: "\<And>(c::('k, 'v) BtreeNode) x. bt T h c x \<Longrightarrow> T - 1 \<le> KeyCount c \<Longrightarrow> T ^ (h + 1) \<le> length x + 1"
  shows "(KeyCount n + 1) * T ^ (h + 1) \<le> length xs + 1"
proof -
  from b obtain ps cs xss where d: "nd T n ps cs" "length cs = length ps + 1" "list_all2 (okc T h) cs xss" "xs = il xss ps"
    by (auto simp: bt.simps(2))
  have l: "length xss = length ps + 1" using d(2,3) by (auto dest: list_all2_lengthD)
  have "T ^ (h + 1) \<le> length x + 1" if "x \<in> set xss" for x
  proof -
    from that obtain i where "i < length xss" "x = xss ! i" by (auto simp: in_set_conv_nth)
    then show ?thesis using list_all2_nthD2 [OF d(3)] IH by blast
  qed
  then have "length xss * T ^ (h + 1) \<le> sum_list (map (\<lambda>x. length x + 1) xss)"
    by (rule sum_list_bound)
  moreover have "sum_list (map (\<lambda>x. length x + 1) yss) = sum_list (map length yss) + length yss"
    for yss :: "('k \<times> 'v) list list" by (induction yss) auto
  ultimately show ?thesis using l ndD(2) [OF d(1)] length_il [OF l] d(4) by simp
qed

lemma bt_size: "bt T h n xs \<Longrightarrow> T - 1 \<le> KeyCount n \<Longrightarrow> T ^ (h + 1) \<le> length xs + 1"
proof (induction h arbitrary: n xs)
  case 0
  then show ?case by (auto dest: ndD(2))
next
  case (Suc h)
  have "T * T ^ (h + 1) \<le> (KeyCount n + 1) * T ^ (h + 1)" using Suc.prems(2) by (intro mult_right_mono) auto
  also have "\<dots> \<le> length xs + 1" by (rule bt_size_kids [OF Suc.prems(1) Suc.IH])
  finally show ?case by simp
qed

lemma bt_root_size:
  assumes "bt T (Suc h) n xs"
  shows "2 * T ^ (h + 1) \<le> length xs + 1"
proof -
  from assms have "KeyCount n \<noteq> 0" by (auto simp: bt.simps(2) dest: ndD(2))
  then have "2 * T ^ (h + 1) \<le> (KeyCount n + 1) * T ^ (h + 1)" by (intro mult_right_mono) auto
  also have "\<dots> \<le> length xs + 1" by (rule bt_size_kids [OF assms bt_size])
  finally show ?thesis .
qed


text \<open>The check, the depths and the release of a well-formed tree.\<close>

lemma Check_depth_inv:
  assumes "btree_inv T t"
  shows "Check T t \<and> (\<exists>d. MinDepth T t = Some d \<and> MaxDepth T t = Some d \<and>
    (2 \<le> d \<longrightarrow> 2 * T ^ (d - 1) \<le> length (tree_entries t) + 1))"
proof (cases "Root t")
  case None
  then show ?thesis by (simp add: Check_def MinDepth_def MaxDepth_def)
next
  case (Some n)
  with assms obtain h where h: "bt T h n (entries n)" "strict (entries n)" "tree_entries t = entries n"
    by (blast elim: btree_invE)
  have "2 \<le> h + 1 \<longrightarrow> 2 * T ^ (h + 1 - 1) \<le> length (entries n) + 1"
    using bt_root_size [of T "h - 1" n "entries n"] h(1) by (cases h) auto
  then show ?thesis
    using Check_bt [OF h(1,2), of True] MinDepth_bt [OF h(1)] MaxDepth_bt [OF h(1)] Some h(3)
    by (simp add: Check_def MinDepth_def MaxDepth_def)
qed

lemma Clear_inv:
  assumes "btree_inv T t" "2 \<le> T"
  shows "Clear T t = Some (t\<lparr>Root := None\<rparr>)"
proof (cases "Root t")
  case None
  then show ?thesis by (simp add: Clear_def)
next
  case (Some n)
  with assms(1) obtain h where "bt T h n (entries n)" by (blast elim: btree_invE)
  from bt_clearing [OF this assms(2)] obtain s where "clearing T s n" by blast
  from Clear_loop_done [OF this] show ?thesis using Some by (simp add: Clear_def)
qed

section \<open>Properties\<close>

text \<open>A tree of degree two for the examples: built by the code from nothing.\<close>

definition sample_ops :: "(nat, nat) kv_op list" where
  "sample_ops = [Ins 5 50, Ins 1 10, Ins 9 90, Ins 3 30, Ins 7 70, Ins 2 20, Del 9, Ins 8 80]"

definition sample_tree :: "(nat, nat) Btree" where
  "sample_tree = fst (the (kv_run (Insert 2) (Delete 2) sample_ops (make_Btree 0 0)))"

lemma make_Btree_inv [simp]: "btree_inv T (make_Btree ek ev)" "tree_map (make_Btree ek ev) = Map.empty"
  by (simp_all add: btree_inv_def make_Btree_def tree_entries_def tree_map_def)

lemma sample_tree: "btree_inv 2 sample_tree" "tree_map sample_tree 3 = Some 30" "tree_map sample_tree 9 = None"
proof -
  from bt2.run_refines [OF make_Btree_inv(1), of sample_ops 0 0] obtain t where
    t: "kv_run (Insert 2) (Delete 2) sample_ops (make_Btree 0 0) = Some (t, snd (kv_spec sample_ops Map.empty))"
      "btree_inv 2 t" "tree_map t = fst (kv_spec sample_ops Map.empty)" by auto
  then have s: "sample_tree = t" by (simp add: sample_tree_def)
  show "btree_inv 2 sample_tree" using t(2) s by simp
  show "tree_map sample_tree 3 = Some 30" "tree_map sample_tree 9 = None"
    using t(3) s by (simp_all add: sample_ops_def)
qed

text \<open>
  Claim C1. Every sequence of insertions and deletions on a new tree of any minimum degree
  \<open>T \<ge> 2\<close> runs to its end without a panic, returns exactly the results a map would give
  (an insertion succeeds if and only if the key was absent, a deletion reports whether it was
  present), and leaves a well-formed tree that holds the entries of that map.
\<close>

theorem btree_run_refines_map:
  fixes ops :: "('k::linorder, 'v) kv_op list"
  assumes "2 \<le> T"
  shows "\<exists>t. kv_run (Insert T) (Delete T) ops (make_Btree ek ev) = Some (t, snd (kv_spec ops Map.empty)) \<and>
    btree_inv T t \<and> tree_map t = fst (kv_spec ops Map.empty)"
  using kv_map.run_refines [OF Btree_kv_map [OF assms] make_Btree_inv(1), of ops ek ev] by simp

theorem btree_run_refines_map_witness:
  "\<exists>t. kv_run (Insert 2) (Delete 2) [Ins (4::nat) (1::nat), Ins 6 2, Del 4, Ins 6 3] (make_Btree 0 0) =
     Some (t, [True, True, True, False]) \<and> btree_inv 2 t \<and> tree_map t = [6 \<mapsto> 2]"
  using btree_run_refines_map [of 2 "[Ins (4::nat) (1::nat), Ins 6 2, Del 4, Ins 6 3]" 0 0]
  by (simp add: fun_upd_twist)

text \<open>
  Claim C23. A deletion from a well-formed tree never panics and always returns: it reports whether
  the key was present, the remaining tree is well formed, its in-order list of entries is the old
  one without that key, and no other entry is lost or changed.
\<close>

theorem btree_delete:
  assumes "btree_inv T t" "2 \<le> T"
  shows "\<exists>t'. Delete T k t = Some (t', tree_map t k \<noteq> None) \<and> btree_inv T t' \<and>
    tree_entries t' = without k (tree_entries t) \<and> tree_map t' = (tree_map t)(k := None)"
  by (rule Delete_map [OF assms])

theorem btree_delete_witness:
  "\<exists>t'. Delete 2 3 sample_tree = Some (t', True) \<and> btree_inv 2 t' \<and>
    tree_entries t' = without 3 (tree_entries sample_tree) \<and> tree_map t' = (tree_map sample_tree)(3 := None)"
  using btree_delete [OF sample_tree(1), of 3] sample_tree(2) by simp



text \<open>
  A lookup in a well-formed tree returns: the value of the key and \<open>true\<close> when it is there,
  the default value and \<open>false\<close> otherwise.
\<close>

theorem btree_lookup:
  assumes "btree_inv T t"
  shows "Lookup T k t = Some (case tree_map t k of None \<Rightarrow> (DefValue t, False) | Some v \<Rightarrow> (v, True))"
  unfolding Lookup_def by (rule LookupLocked_map [OF assms])

theorem btree_lookup_witness: "Lookup 2 3 sample_tree = Some (30, True)"
  using btree_lookup [OF sample_tree(1), of 3] sample_tree(2) by simp

text \<open>
  Claim C24. The self-check of the tree accepts every well-formed tree, the smallest and the largest
  depth of a leaf agree (all leaves are at one level), and the depth is logarithmic in the number of
  entries: a tree of depth \<open>d + 2\<close> holds at least \<open>2 * T ^ (d + 1) - 1\<close> of them.
\<close>

theorem btree_balanced:
  assumes "btree_inv T t"
  shows "Check T t \<and> (\<exists>d. MinDepth T t = Some d \<and> MaxDepth T t = Some d \<and>
    (2 \<le> d \<longrightarrow> 2 * T ^ (d - 1) \<le> length (tree_entries t) + 1))"
  by (rule Check_depth_inv [OF assms])

theorem btree_balanced_witness:
  "Check 2 sample_tree \<and> (\<exists>d. MinDepth 2 sample_tree = Some d \<and> MaxDepth 2 sample_tree = Some d \<and>
    (2 \<le> d \<longrightarrow> 2 * 2 ^ (d - 1) \<le> length (tree_entries sample_tree) + 1))"
  by (rule btree_balanced [OF sample_tree(1)])

text \<open>
  The clearing loop of the destructor terminates on every well-formed tree without a panic:
  every node is destroyed after all its children, and the tree ends empty.
\<close>

theorem btree_clear:
  assumes "btree_inv T t" "2 \<le> T"
  shows "Clear T t = Some (t\<lparr>Root := None\<rparr>)"
  by (rule Clear_inv [OF assms])

theorem btree_clear_witness: "Clear 2 sample_tree = Some (sample_tree\<lparr>Root := None\<rparr>)"
  using btree_clear [OF sample_tree(1)] by simp

text \<open>
  For the two instances the module uses (degree 2 for the block allocator, degree 4 for the
  self-test): a lookup right after a successful insertion returns the inserted value, and after a
  deletion the key is not found.
\<close>

theorem btree_lookup_after:
  fixes t :: "(uint64_t, 'v) Btree"
  shows "(btree_inv 2 t \<and> Insert 2 k v m t = Some (t', True, m') \<longrightarrow> Lookup 2 k t' = Some (v, True)) \<and>
    (btree_inv 4 t \<and> Insert 4 k v m t = Some (t', True, m') \<longrightarrow> Lookup 4 k t' = Some (v, True)) \<and>
    (btree_inv 2 t \<and> Delete 2 k t = Some (t', r) \<longrightarrow> (\<exists>w. Lookup 2 k t' = Some (w, False))) \<and>
    (btree_inv 4 t \<and> Delete 4 k t = Some (t', r) \<longrightarrow> (\<exists>w. Lookup 4 k t' = Some (w, False)))"
  by (intro conjI impI; elim conjE)
    (auto intro: bt2.look_after_ins bt4.look_after_ins bt2.look_after_del bt4.look_after_del)

theorem btree_lookup_after_witness:
  "\<exists>t' m'. Insert 2 (7::uint64_t) (70::nat) [] (make_Btree 0 0) = Some (t', True, m') \<and>
    Lookup 2 7 t' = Some (70, True)"
proof -
  obtain t' m' where "Insert 2 (7::uint64_t) (70::nat) [] (make_Btree 0 0) = Some (t', True, m')"
    using bt2.ins_ok [OF make_Btree_inv(1), of 7 70 0 0] by auto
  then show ?thesis using btree_lookup_after [of "make_Btree 0 0" 7 70 "[]" t' m'] by auto
qed

end
