(* ===== verification/Memory_Utils.thy ===== *)
theory Memory_Utils
  imports Prelude
begin

text \<open>
  The small algorithms of \<^verbatim>\<open>src/core/memory.h\<close>: string length, array comparison, minimum and
  maximum, and the tests on half-open ranges. The remaining functions of that file hand over to the
  kernel interface.
\<close>

text \<open>\<open>None\<close>: the string has no terminator in the memory given, so the loop leaves it.\<close>

fun StrLen_from :: "bytes \<Rightarrow> nat \<Rightarrow> nat option" where
  "StrLen_from [] i = None"
| "StrLen_from (c # cs) i = (if c \<noteq> 0 then StrLen_from cs (i + 1) else Some i)"

definition StrLen :: "bytes \<Rightarrow> nat option" where
  "StrLen s = StrLen_from s 0"

fun ArrayEqual_from :: "nat \<Rightarrow> 'a list \<Rightarrow> 'a list \<Rightarrow> bool" where
  "ArrayEqual_from 0 s1 s2 = True"
| "ArrayEqual_from (Suc n) s1 s2 = (if hd s1 \<noteq> hd s2 then False else ArrayEqual_from n (tl s1) (tl s2))"

definition ArrayEqual :: "nat \<Rightarrow> 'a list \<Rightarrow> 'a list \<Rightarrow> bool" where
  "ArrayEqual S s1 s2 = ArrayEqual_from S s1 s2"

definition Min :: "'a::linorder \<Rightarrow> 'a \<Rightarrow> 'a" where
  "Min a b = (if a < b then a else b)"

definition Max :: "'a::linorder \<Rightarrow> 'a \<Rightarrow> 'a" where
  "Max a b = (if a > b then a else b)"

definition CheckRange :: "'a::linorder \<Rightarrow> 'a \<Rightarrow> bool" where
  "CheckRange start end' = (if end' \<le> start then False else True)"

definition CheckIntersection :: "'a::linorder \<Rightarrow> 'a \<Rightarrow> 'a \<Rightarrow> 'a \<Rightarrow> bool" where
  "CheckIntersection start1 end1 start2 end2 =
     (if \<not> CheckRange start1 end1 then False
      else if \<not> CheckRange start2 end2 then False
      else if start2 \<ge> end1 then False
      else if end2 \<le> start1 then False
      else True)"

lemma Min_min [simp]: "Min a b = min a b"
  by (auto simp: Min_def min_def)

lemma Max_max [simp]: "Max a b = max a b"
  by (auto simp: Max_def max_def)

lemma StrLen_from_spec: "StrLen_from (s @ 0 # r) i = Some (i + length s)" if "0 \<notin> set s"
  using that by (induction s arbitrary: i) auto

lemma ArrayEqual_same [simp]: "ArrayEqual n xs xs"
  unfolding ArrayEqual_def by (induction n arbitrary: xs) auto

lemma ArrayEqual_prefix: "length ys = n \<Longrightarrow> length zs = n \<Longrightarrow> ArrayEqual n (ys @ x) zs \<longleftrightarrow> ys = zs"
  unfolding ArrayEqual_def
proof (induction n arbitrary: ys zs)
  case (Suc n)
  then show ?case by (cases ys; cases zs) simp_all
qed simp

lemma ArrayEqual_from_spec:
  "length s1 = n \<Longrightarrow> length s2 = n \<Longrightarrow> ArrayEqual_from n s1 s2 \<longleftrightarrow> s1 = s2"
proof (induction n arbitrary: s1 s2)
  case (Suc n)
  then show ?case by (cases s1; cases s2) auto
qed simp

text \<open>
  The range test is exact: two half-open ranges intersect in its sense if and only if some
  point lies in both (empty ranges intersect nothing). The string length is the position of the first
  terminator, and the array comparison decides equality of two arrays of the given size.
\<close>

theorem memory_helpers_exact:
  fixes start1 :: "'a::linorder"
  shows "(CheckIntersection start1 end1 start2 end2 \<longleftrightarrow>
      (\<exists>x. start1 \<le> x \<and> x < end1 \<and> start2 \<le> x \<and> x < end2)) \<and>
    (0 \<notin> set s \<longrightarrow> StrLen (s @ 0 # r) = Some (length s)) \<and>
    (length s1 = n \<and> length s2 = n \<longrightarrow> (ArrayEqual n s1 s2 \<longleftrightarrow> s1 = s2))"
proof (intro conjI impI)
  show "CheckIntersection start1 end1 start2 end2 \<longleftrightarrow>
      (\<exists>x. start1 \<le> x \<and> x < end1 \<and> start2 \<le> x \<and> x < end2)"
  proof
    assume "CheckIntersection start1 end1 start2 end2"
    then show "\<exists>x. start1 \<le> x \<and> x < end1 \<and> start2 \<le> x \<and> x < end2"
      by (intro exI [of _ "max start1 start2"])
        (auto simp: CheckIntersection_def CheckRange_def split: if_splits)
  qed (force simp: CheckIntersection_def CheckRange_def)
qed (auto simp: StrLen_def StrLen_from_spec ArrayEqual_def ArrayEqual_from_spec)

theorem memory_helpers_exact_witness:
  "(CheckIntersection 2 5 4 (9::nat) \<longleftrightarrow> (\<exists>x. 2 \<le> x \<and> x < 5 \<and> 4 \<le> x \<and> x < (9::nat))) \<and>
   StrLen [104, 105, 0, 7] = Some 2 \<and> \<not> ArrayEqual 2 [1, 2] [1, 3::nat]"
  using memory_helpers_exact [of 2 5 4 "9::nat" "[104, 105]" "[7]" "[1, 2::nat]" 2 "[1, 3]"] by simp

end
