(* ===== verification/Errors.thy ===== *)
theory Errors
  imports Prelude
begin

text \<open>
  The error class of \<^verbatim>\<open>src/core/error.h\<close> and \<^verbatim>\<open>src/core/error.cpp\<close>. An \<open>Error\<close> carries a code and the
  place where it was made; the other components only look at the code, so they return the code.
\<close>

type_synonym err = int

definition Success :: err where "Success = 0"
definition Again :: err where "Again = - 11"
definition NoMemory :: err where "NoMemory = - 12"
definition InvalidValue :: err where "InvalidValue = - 22"
definition ConnReset :: err where "ConnReset = - 104"
definition Cancelled :: err where "Cancelled = - 125"
definition NotExecuted :: err where "NotExecuted = - 500"
definition InvalidState :: err where "InvalidState = - 501"
definition Unsuccessful :: err where "Unsuccessful = - 502"
definition NotImplemented :: err where "NotImplemented = - 503"
definition UnknownCode :: err where "UnknownCode = - 504"
definition NotFound :: err where "NotFound = - 505"
definition EndOfFile :: err where "EndOfFile = - 506"
definition BufToBig :: err where "BufToBig = - 507"
definition IOError :: err where "IOError = - 508"
definition BadMagic :: err where "BadMagic = - 509"
definition HeaderCorrupt :: err where "HeaderCorrupt = - 510"
definition DataCorrupt :: err where "DataCorrupt = - 511"
definition BadSize :: err where "BadSize = - 512"
definition AlreadyExists :: err where "AlreadyExists = - 513"
definition UnexpectedEOF :: err where "UnexpectedEOF = - 514"
definition Overflow :: err where "Overflow = - 515"
definition Overlap :: err where "Overlap = - 515"

lemmas error_codes = Success_def Again_def NoMemory_def InvalidValue_def ConnReset_def Cancelled_def
  NotExecuted_def InvalidState_def Unsuccessful_def NotImplemented_def UnknownCode_def NotFound_def
  EndOfFile_def BufToBig_def IOError_def BadMagic_def HeaderCorrupt_def DataCorrupt_def BadSize_def
  AlreadyExists_def UnexpectedEOF_def Overflow_def Overlap_def

text \<open>The names of the source in the order of its declarations.\<close>

definition all_codes :: "err list" where
  "all_codes = [Success, Again, InvalidValue, NoMemory, ConnReset, Cancelled, NotExecuted, InvalidState,
     Unsuccessful, NotImplemented, UnknownCode, NotFound, EndOfFile, BufToBig, IOError, BadMagic,
     HeaderCorrupt, DataCorrupt, BadSize, AlreadyExists, UnexpectedEOF, Overflow, Overlap]"

record Error =
  Func :: "string option"
  File :: "string option"
  Line :: int
  Code :: err

definition Error_default :: Error where
  "Error_default = \<lparr>Func = None, File = None, Line = 0, Code = Success\<rparr>"

definition Error_code :: "err \<Rightarrow> Error" where
  "Error_code c = Error_default\<lparr>Code := c\<rparr>"

definition MakeError :: "err \<Rightarrow> string \<Rightarrow> string \<Rightarrow> int \<Rightarrow> Error" where
  "MakeError c f fl l = Error_default\<lparr>Code := c, Func := Some f, File := Some fl, Line := l\<rparr>"

definition SetCode :: "err \<Rightarrow> Error \<Rightarrow> Error" where
  "SetCode c e = e\<lparr>Code := c\<rparr>"

definition Reset_error :: "Error \<Rightarrow> Error" where
  "Reset_error e = e\<lparr>Code := Success\<rparr>"

definition Ok :: "Error \<Rightarrow> bool" where
  "Ok e \<longleftrightarrow> Code e = Success"

definition Error_eq :: "Error \<Rightarrow> Error \<Rightarrow> bool" where
  "Error_eq e f \<longleftrightarrow> Code e = Code f"

text \<open>Copy construction, and move assignment: the target and what is left in the source.\<close>

definition Error_copy :: "Error \<Rightarrow> Error" where
  "Error_copy other = Error_default\<lparr>Code := Code other, Func := Func other, File := File other, Line := Line other\<rparr>"

definition Error_move :: "Error \<Rightarrow> Error \<times> Error" where
  "Error_move other =
     (\<lparr>Func = Func other, File = File other, Line = Line other, Code = Code other\<rparr>, Reset_error other)"

definition GetDescription :: "Error \<Rightarrow> string" where
  "GetDescription e =
     (if Code e = Success then ''Success''
      else if Code e = InvalidValue then ''Invalid value''
      else if Code e = NoMemory then ''No memory''
      else if Code e = Cancelled then ''Cancelled''
      else ''Unknown'')"

text \<open>
  Every failure code is negative and so different from success, and the codes are pairwise
  different except that the overflow and the overlap error share one value. Moving an error hands its
  code over and leaves a successful error behind; a copy compares equal to its source.
\<close>

theorem error_codes_distinct:
  "distinct (butlast all_codes) \<and> Overlap = Overflow \<and> list_all (\<lambda>c. c < Success) (tl all_codes) \<and>
   (let (new, old) = Error_move e in Code new = Code e \<and> Ok old \<and> (Ok new \<longleftrightarrow> Ok e)) \<and>
   Error_eq (Error_copy e) e \<and> (GetDescription e = ''Success'' \<longleftrightarrow> Ok e)"
  by (simp add: all_codes_def error_codes Error_move_def Reset_error_def Ok_def Error_eq_def
      Error_copy_def GetDescription_def)

end
