(* ===== verification/Ring_Buffer.thy ===== *)
theory Ring_Buffer
  imports Errors "HOL-Library.Sublist"
begin

text \<open>
  \<^verbatim>\<open>Core::RingBuffer\<close> of \<^verbatim>\<open>src/core/ring_buffer.h\<close>: the allocator of log slots. The buffer stores no
  data; a push hands out the position behind the last one and a pop gives back the first. All
  fields are 64-bit words and the index arithmetic is the wrapping one of the code.
\<close>

record RingBuffer =
  StartIndex :: size_t
  EndIndex :: size_t
  Size :: size_t
  Capacity :: size_t

text \<open>\<open>None\<close>: the arguments are refused and the fields stay as they are.\<close>

definition Reset :: "size_t \<Rightarrow> size_t \<Rightarrow> size_t \<Rightarrow> size_t \<Rightarrow> RingBuffer option" where
  "Reset startIndex endIndex size' capacity =
     (if capacity = 0 then None
      else if size' \<ge> capacity then None
      else if startIndex \<ge> capacity then None
      else if endIndex \<ge> capacity then None
      else if (if endIndex \<ge> startIndex then endIndex - startIndex \<noteq> size'
               else (endIndex + capacity) - startIndex \<noteq> size') then None
      else Some \<lparr>StartIndex = startIndex, EndIndex = endIndex, Size = size', Capacity = capacity\<rparr>)"

definition make_RingBuffer :: "size_t \<Rightarrow> RingBuffer option" where
  "make_RingBuffer capacity = Reset 0 0 0 capacity"

text \<open>The error, the position (when there is one) and the new state.\<close>

definition PushBack :: "RingBuffer \<Rightarrow> err \<times> size_t option \<times> RingBuffer" where
  "PushBack rb =
     (if Size rb = Capacity rb then (NoMemory, None, rb)
      else (Success, Some (EndIndex rb),
            rb\<lparr>EndIndex := (EndIndex rb + 1) mod Capacity rb, Size := Size rb + 1\<rparr>))"

definition PopFront :: "RingBuffer \<Rightarrow> err \<times> size_t option \<times> RingBuffer" where
  "PopFront rb =
     (if Size rb = 0 then (NotFound, None, rb)
      else (Success, Some (StartIndex rb),
            rb\<lparr>StartIndex := (StartIndex rb + 1) mod Capacity rb, Size := Size rb - 1\<rparr>))"

text \<open>The loop of \<^verbatim>\<open>Erase\<close> on its two local variables.\<close>

fun Erase_loop :: "size_t \<Rightarrow> size_t list \<Rightarrow> size_t \<Rightarrow> size_t \<Rightarrow> (size_t \<times> size_t) option" where
  "Erase_loop cap [] startIndex size' = Some (startIndex, size')"
| "Erase_loop cap (index # is) startIndex size' =
     (if size' = 0 then None
      else if index \<noteq> startIndex then None
      else Erase_loop cap is ((startIndex + 1) mod cap) (size' - 1))"

definition Erase :: "size_t list \<Rightarrow> RingBuffer \<Rightarrow> bool \<times> RingBuffer" where
  "Erase indexList rb =
     (case Erase_loop (Capacity rb) indexList (StartIndex rb) (Size rb) of
        None \<Rightarrow> (False, rb)
      | Some (s, n) \<Rightarrow> (True, rb\<lparr>StartIndex := s, Size := n\<rparr>))"


section \<open>The queue of positions\<close>

definition ring_inv :: "RingBuffer \<Rightarrow> bool" where
  "ring_inv rb \<longleftrightarrow> StartIndex rb < Capacity rb \<and> Size rb \<le> Capacity rb \<and>
     unat (EndIndex rb) = (unat (StartIndex rb) + unat (Size rb)) mod unat (Capacity rb)"

text \<open>The positions in use, oldest first.\<close>

definition slots_from :: "nat \<Rightarrow> nat \<Rightarrow> nat \<Rightarrow> size_t list" where
  "slots_from cap s n = map (\<lambda>i. of_nat ((s + i) mod cap)) [0..<n]"

definition slots :: "RingBuffer \<Rightarrow> size_t list" where
  "slots rb = slots_from (unat (Capacity rb)) (unat (StartIndex rb)) (unat (Size rb))"

lemma slots_from_Suc: "slots_from cap s (Suc n) = slots_from cap s n @ [of_nat ((s + n) mod cap)]"
  by (simp add: slots_from_def)

lemma slots_from_Cons:
  "slots_from cap s (Suc n) = of_nat (s mod cap) # slots_from cap ((s + 1) mod cap) n"
  by (simp add: slots_from_def map_upt_Suc mod_simps del: upt_Suc)

lemma length_slots [simp]: "length (slots rb) = unat (Size rb)"
  by (simp add: slots_def slots_from_def)

lemma inj_add_mod: "inj_on (\<lambda>i. (s + i) mod c) {..<c::nat}"
proof (rule linorder_inj_onI')
  fix i j assume "i \<in> {..<c}" "j \<in> {..<c}" "i < j"
  then have "\<not> c dvd (s + j) - (s + i)" by (auto dest: dvd_imp_le)
  then show "(s + i) mod c \<noteq> (s + j) mod c"
    using mod_eq_dvd_iff_nat [of "s + i" "s + j" c] \<open>i < j\<close> by auto
qed

lemma slots_distinct:
  assumes "ring_inv rb"
  shows "distinct (slots rb)"
proof -
  let ?c = "unat (Capacity rb)" and ?s = "unat (StartIndex rb)" and ?n = "unat (Size rb)"
  have n: "?n \<le> ?c" "0 < ?c" using assms
    by (auto simp: ring_inv_def word_le_nat_alt word_less_nat_alt)
  have u: "unat (of_nat ((?s + i) mod ?c) :: size_t) = (?s + i) mod ?c" for i
    using unat_lt_64 [of "Capacity rb"] mod_less_divisor [OF n(2), of "?s + i"] by (intro unat_of_nat_64) linarith
  have "inj_on (\<lambda>i. of_nat ((?s + i) mod ?c) :: size_t) {..<?n}"
  proof (rule inj_onI)
    fix i j assume ij: "i \<in> {..<?n}" "j \<in> {..<?n}"
      "(of_nat ((?s + i) mod ?c) :: size_t) = of_nat ((?s + j) mod ?c)"
    from arg_cong [OF ij(3), of unat] have "(?s + i) mod ?c = (?s + j) mod ?c" unfolding u .
    then show "i = j" by (rule inj_onD [OF inj_add_mod]) (use ij(1,2) n(1) in auto)
  qed
  then show ?thesis by (simp add: slots_def slots_from_def distinct_map atLeast0LessThan)
qed

lemma ring_invD:
  assumes "ring_inv rb"
  shows "0 < unat (Capacity rb)" "unat (StartIndex rb) < unat (Capacity rb)" "unat (Size rb) \<le> unat (Capacity rb)"
    "unat (EndIndex rb) = (unat (StartIndex rb) + unat (Size rb)) mod unat (Capacity rb)" "EndIndex rb < Capacity rb"
proof -
  show c: "0 < unat (Capacity rb)" "unat (StartIndex rb) < unat (Capacity rb)" "unat (Size rb) \<le> unat (Capacity rb)"
    "unat (EndIndex rb) = (unat (StartIndex rb) + unat (Size rb)) mod unat (Capacity rb)"
    using assms by (auto simp: ring_inv_def word_less_nat_alt word_le_nat_alt)
  then show "EndIndex rb < Capacity rb" by (simp add: word_less_nat_alt)
qed

lemma PushBack_ok:
  assumes inv: "ring_inv rb" and room: "Size rb \<noteq> Capacity rb"
  shows "\<exists>rb'. PushBack rb = (Success, Some (EndIndex rb), rb') \<and> ring_inv rb' \<and>
    slots rb' = slots rb @ [EndIndex rb] \<and> Capacity rb' = Capacity rb \<and> EndIndex rb \<notin> set (slots rb)"
proof -
  note i = ring_invD [OF inv]
  let ?rb = "rb\<lparr>EndIndex := (EndIndex rb + 1) mod Capacity rb, Size := Size rb + 1\<rparr>"
  have lt: "Size rb < Capacity rb" using inv room by (simp add: ring_inv_def order.not_eq_order_implies_strict)
  have s: "unat (Size rb + 1) = Suc (unat (Size rb))" using unat_inc [OF lt] by simp
  have inv': "ring_inv ?rb"
    using i inv lt s unat_inc_mod [OF i(5)]
    by (auto simp: ring_inv_def word_le_nat_alt word_less_nat_alt mod_simps)
  have "(of_nat ((unat (StartIndex rb) + unat (Size rb)) mod unat (Capacity rb)) :: size_t) = EndIndex rb"
    unfolding i(4) [symmetric] by simp
  then have sl: "slots ?rb = slots rb @ [EndIndex rb]" by (simp add: slots_def s slots_from_Suc)
  then show ?thesis
    using inv' slots_distinct [OF inv'] room by (simp add: PushBack_def)
qed

lemma PopFront_ok:
  assumes inv: "ring_inv rb" and ne: "Size rb \<noteq> 0"
  shows "\<exists>rb'. PopFront rb = (Success, Some (StartIndex rb), rb') \<and> ring_inv rb' \<and>
    slots rb = StartIndex rb # slots rb' \<and> Capacity rb' = Capacity rb"
proof -
  note i = ring_invD [OF inv]
  let ?rb = "rb\<lparr>StartIndex := (StartIndex rb + 1) mod Capacity rb, Size := Size rb - 1\<rparr>"
  have lt: "StartIndex rb < Capacity rb" using inv by (simp add: ring_inv_def)
  have s: "unat (Size rb) = Suc (unat (Size rb - 1))"
    using ne by (simp add: unat_minus_one unat_gt_0)
  note st = unat_inc_mod [OF lt]
  have "unat ((StartIndex rb + 1) mod Capacity rb) < unat (Capacity rb)" using st i(1) by simp
  moreover have "unat (EndIndex rb) =
      (unat ((StartIndex rb + 1) mod Capacity rb) + unat (Size rb - 1)) mod unat (Capacity rb)"
    using i(4) s st by (simp add: mod_simps)
  moreover have "unat (Size rb - 1) \<le> unat (Capacity rb)" using i(3) s by simp
  ultimately have "ring_inv ?rb" by (simp add: ring_inv_def word_less_nat_alt word_le_nat_alt)
  moreover have "slots rb = StartIndex rb # slots ?rb"
    using i(2) st by (simp add: slots_def s slots_from_Cons)
  ultimately show ?thesis using ne by (simp add: PopFront_def)
qed


lemma Erase_loop_spec:
  assumes "ring_inv rb"
  shows "case Erase_loop (Capacity rb) is (StartIndex rb) (Size rb) of
      None \<Rightarrow> \<not> prefix is (slots rb)
    | Some (s, n) \<Rightarrow> ring_inv (rb\<lparr>StartIndex := s, Size := n\<rparr>) \<and>
        slots rb = is @ slots (rb\<lparr>StartIndex := s, Size := n\<rparr>)"
  using assms
proof (induction "is" arbitrary: rb)
  case Nil
  then show ?case by simp
next
  case (Cons x xs)
  show ?case
  proof (cases "Size rb = 0")
    case True
    then have "slots rb = []" using length_slots [of rb] by (metis length_0_conv unat_0)
    then show ?thesis using True by simp
  next
    case False
    from PopFront_ok [OF Cons.prems False] obtain rb' where
      p: "PopFront rb = (Success, Some (StartIndex rb), rb')" "ring_inv rb'" "slots rb = StartIndex rb # slots rb'"
        "Capacity rb' = Capacity rb" by blast
    have rb': "rb' = rb\<lparr>StartIndex := (StartIndex rb + 1) mod Capacity rb, Size := Size rb - 1\<rparr>"
      using p(1) False by (simp add: PopFront_def)
    show ?thesis
    proof (cases "x = StartIndex rb")
      case True
      then show ?thesis
        using Cons.IH [OF p(2)] p(3) False unfolding rb'
        by (auto split: option.splits)
    qed (use p(3) False in simp)
  qed
qed

lemma Erase_spec:
  assumes "ring_inv rb"
  shows "if prefix is (slots rb)
    then \<exists>rb'. Erase is rb = (True, rb') \<and> ring_inv rb' \<and> slots rb = is @ slots rb' \<and> Capacity rb' = Capacity rb
    else Erase is rb = (False, rb)"
  using Erase_loop_spec [OF assms, of "is"]
  by (auto simp: Erase_def split: option.splits)

lemma Reset_spec:
  "Reset s e n c = Some rb \<longleftrightarrow>
     rb = \<lparr>StartIndex = s, EndIndex = e, Size = n, Capacity = c\<rparr> \<and> ring_inv rb \<and> n < c"
proof (cases "s < c \<and> e < c \<and> n < c")
  case False
  have "s < c \<and> e < c" if "ring_inv \<lparr>StartIndex = s, EndIndex = e, Size = n, Capacity = c\<rparr>"
    using ring_invD(2,5) [OF that] by (simp add: word_less_nat_alt)
  then show ?thesis using False by (auto simp: Reset_def not_less split: if_splits)
next
  case True
  then have u: "unat s < unat c" "unat e < unat c" "unat n < unat c" by (auto simp: word_less_nat_alt)
  have eq: "((if e \<ge> s then e - s else (e + c) - s) = n) \<longleftrightarrow> unat e = (unat s + unat n) mod unat c"
  proof (cases "s \<le> e")
    case le: True
    then have "unat (e - s) = unat e - unat s" "unat s \<le> unat e" by (auto simp: unat_sub word_le_nat_alt)
    then have "e - s = n \<longleftrightarrow> unat e = unat s + unat n" by (auto simp: word_unat_eq_iff)
    then show ?thesis using le u by (auto simp: word_le_nat_alt mod_if)
  next
    case lt: False
    then have l: "unat e < unat s" by (simp add: word_le_nat_alt)
    then have "unat (s - e) = unat s - unat e" by (simp add: unat_sub word_le_nat_alt)
    moreover have "unat (c - (s - e)) = unat c - unat (s - e)"
      by (rule unat_sub) (use u l calculation in \<open>simp add: word_le_nat_alt\<close>)
    moreover have "(e + c) - s = c - (s - e)" by simp
    ultimately have "unat ((e + c) - s) = unat c - (unat s - unat e)" by metis
    then have "(e + c) - s = n \<longleftrightarrow> unat c - (unat s - unat e) = unat n" by (metis word_unat_eq_iff)
    then show ?thesis using lt u l by (auto simp: word_le_nat_alt mod_if)
  qed
  have "c \<noteq> 0" using True by auto
  then show ?thesis using True eq
    by (auto simp: Reset_def ring_inv_def not_le split: if_splits)
qed


section \<open>The contract of a slot allocator\<close>

text \<open>
  The log uses the ring only through this contract: fresh slots at the back, an error when all are in
  use, and release of the oldest ones in order.
\<close>

fun take_slots :: "('s \<Rightarrow> err \<times> 'p option \<times> 's) \<Rightarrow> nat \<Rightarrow> 's \<Rightarrow> ('p list \<times> 's) option" where
  "take_slots push 0 s = Some ([], s)"
| "take_slots push (Suc n) s =
     (case push s of
        (e, Some p, s1) \<Rightarrow> (case take_slots push n s1 of None \<Rightarrow> None | Some (ps, s2) \<Rightarrow> Some (p # ps, s2))
      | (e, None, s1) \<Rightarrow> None)"

locale slot_allocator =
  fixes inv :: "'s \<Rightarrow> bool" and used :: "'s \<Rightarrow> 'p list" and cap :: "'s \<Rightarrow> nat"
    and push :: "'s \<Rightarrow> err \<times> 'p option \<times> 's" and release :: "'p list \<Rightarrow> 's \<Rightarrow> bool \<times> 's"
  assumes used_distinct: "inv s \<Longrightarrow> distinct (used s)" and used_cap: "inv s \<Longrightarrow> length (used s) \<le> cap s"
    and push_ok: "inv s \<Longrightarrow> length (used s) < cap s \<Longrightarrow>
      \<exists>p s'. push s = (Success, Some p, s') \<and> inv s' \<and> used s' = used s @ [p] \<and> cap s' = cap s"
    and push_full: "inv s \<Longrightarrow> length (used s) = cap s \<Longrightarrow> push s = (NoMemory, None, s)"
    and release_ok: "inv s \<Longrightarrow> used s = xs @ ys \<Longrightarrow>
      \<exists>s'. release xs s = (True, s') \<and> inv s' \<and> used s' = ys \<and> cap s' = cap s"
    and release_bad: "inv s \<Longrightarrow> \<not> prefix xs (used s) \<Longrightarrow> release xs s = (False, s)"
begin

text \<open>Taking \<open>n\<close> slots succeeds exactly when so many are free, and the slots are new.\<close>

lemma take_slots_spec:
  assumes "inv s"
  shows "if length (used s) + n \<le> cap s
    then \<exists>ps s'. take_slots push n s = Some (ps, s') \<and> inv s' \<and> used s' = used s @ ps \<and> length ps = n \<and>
      cap s' = cap s
    else take_slots push n s = None"
  using assms
proof (induction n arbitrary: s)
  case 0
  then show ?case using used_cap by simp
next
  case (Suc n)
  show ?case
  proof (cases "length (used s) < cap s")
    case True
    from push_ok [OF Suc.prems True] obtain p s1 where
      p: "push s = (Success, Some p, s1)" "inv s1" "used s1 = used s @ [p]" "cap s1 = cap s" by blast
    show ?thesis
    proof (cases "length (used s) + Suc n \<le> cap s")
      case room: True
      then have "length (used s1) + n \<le> cap s1" using p by simp
      with Suc.IH [OF p(2)] obtain ps s' where
        "take_slots push n s1 = Some (ps, s')" "inv s'" "used s' = used s1 @ ps" "length ps = n" "cap s' = cap s1"
        by auto
      then show ?thesis using p room by simp
    next
      case no: False
      then have "\<not> length (used s1) + n \<le> cap s1" using p by simp
      then have "take_slots push n s1 = None" using Suc.IH [OF p(2)] by simp
      then show ?thesis using p no by simp
    qed
  next
    case False
    then have "length (used s) = cap s" using used_cap [OF Suc.prems] by simp
    then show ?thesis using push_full [OF Suc.prems] False by simp
  qed
qed

text \<open>Slots come back in the order they were taken; out of order nothing is released.\<close>

lemma take_then_release:
  assumes "inv s" "used s = []" "take_slots push n s = Some (ps, s')"
  shows "distinct ps \<and> length ps = n \<and> used s' = ps \<and>
    (\<forall>m \<le> n. \<exists>s''. release (take m ps) s' = (True, s'') \<and> inv s'' \<and> used s'' = drop m ps)"
proof -
  from take_slots_spec [OF assms(1), of n] assms(2,3) have
    t: "inv s'" "used s' = ps" "length ps = n" by (auto split: if_splits)
  moreover have "\<exists>s''. release (take m ps) s' = (True, s'') \<and> inv s'' \<and> used s'' = drop m ps" for m
    using release_ok [OF t(1), of "take m ps" "drop m ps"] t(2) by auto
  ultimately show ?thesis using used_distinct [OF t(1)] by auto
qed

end

interpretation ring: slot_allocator ring_inv slots "\<lambda>rb. unat (Capacity rb)" PushBack Erase
proof
  fix rb :: RingBuffer and xs ys
  assume i: "ring_inv rb"
  show "distinct (slots rb)" by (rule slots_distinct [OF i])
  show "length (slots rb) \<le> unat (Capacity rb)" using ring_invD(3) [OF i] by simp
  show "\<exists>p s'. PushBack rb = (Success, Some p, s') \<and> ring_inv s' \<and> slots s' = slots rb @ [p] \<and>
      unat (Capacity s') = unat (Capacity rb)" if "length (slots rb) < unat (Capacity rb)"
  proof -
    have "Size rb \<noteq> Capacity rb" using that by auto
    from PushBack_ok [OF i this] show ?thesis by auto
  qed
  show "PushBack rb = (NoMemory, None, rb)" if "length (slots rb) = unat (Capacity rb)"
    using that by (simp add: PushBack_def word_unat_eq_iff)
  show "\<exists>s'. Erase xs rb = (True, s') \<and> ring_inv s' \<and> slots s' = ys \<and> unat (Capacity s') = unat (Capacity rb)"
    if "slots rb = xs @ ys" using Erase_spec [OF i, of xs] that by auto
  show "Erase xs rb = (False, rb)" if "\<not> prefix xs (slots rb)" using Erase_spec [OF i, of xs] that by simp
qed


section \<open>Properties\<close>

text \<open>
  \<^verbatim>\<open>Reset\<close> accepts exactly the consistent descriptions of a ring that is not full: indices
  below the capacity, a size below the capacity, and an end index that is the start index plus the
  size around the ring, with the wrapping 64-bit arithmetic of the code. A full ring is refused.
\<close>

theorem ring_reset_exact:
  "Reset s e n c = Some rb \<longleftrightarrow>
     rb = \<lparr>StartIndex = s, EndIndex = e, Size = n, Capacity = c\<rparr> \<and> ring_inv rb \<and> n < c"
  by (rule Reset_spec)

text \<open>
  The ring is a queue of slots. A push on a well-formed ring fails with \<^verbatim>\<open>NoMemory\<close> and changes
  nothing when every slot is in use; otherwise it hands out a slot that was not in use and adds it at
  the back. A pop returns the oldest slot, or \<^verbatim>\<open>NotFound\<close> on an empty ring.
\<close>

theorem ring_is_queue:
  assumes "ring_inv rb"
  shows "(if length (slots rb) = unat (Capacity rb) then PushBack rb = (NoMemory, None, rb)
      else \<exists>p rb'. PushBack rb = (Success, Some p, rb') \<and> ring_inv rb' \<and> p \<notin> set (slots rb) \<and>
        slots rb' = slots rb @ [p]) \<and>
    (if slots rb = [] then PopFront rb = (NotFound, None, rb)
      else \<exists>rb'. PopFront rb = (Success, Some (hd (slots rb)), rb') \<and> ring_inv rb' \<and> slots rb' = tl (slots rb))"
proof
  show "if length (slots rb) = unat (Capacity rb) then PushBack rb = (NoMemory, None, rb)
      else \<exists>p rb'. PushBack rb = (Success, Some p, rb') \<and> ring_inv rb' \<and> p \<notin> set (slots rb) \<and>
        slots rb' = slots rb @ [p]"
    using PushBack_ok [OF assms] ring.push_full [OF assms] by (cases "Size rb = Capacity rb") auto
  have e: "slots rb = [] \<longleftrightarrow> Size rb = 0" using length_slots [of rb]
    by (metis length_0_conv unat_eq_0)
  show "if slots rb = [] then PopFront rb = (NotFound, None, rb)
      else \<exists>rb'. PopFront rb = (Success, Some (hd (slots rb)), rb') \<and> ring_inv rb' \<and> slots rb' = tl (slots rb)"
    using PopFront_ok [OF assms] e by (auto simp: PopFront_def)
qed

theorem ring_is_queue_witness:
  "\<exists>rb. make_RingBuffer 3 = Some rb \<and>
    (\<exists>p rb'. PushBack rb = (Success, Some p, rb') \<and> ring_inv rb' \<and> p \<notin> set (slots rb) \<and> slots rb' = slots rb @ [p])"
proof -
  let ?rb = "\<lparr>StartIndex = 0, EndIndex = 0, Size = 0, Capacity = 3\<rparr> :: RingBuffer"
  have "ring_inv ?rb" by (simp add: ring_inv_def)
  from ring_is_queue [OF this] show ?thesis
    by (simp add: make_RingBuffer_def Reset_def)
qed

text \<open>
  Releasing slots is all or nothing and in order: \<^verbatim>\<open>Erase\<close> succeeds exactly when the given
  indices are the oldest slots in use, and then precisely these are free again; otherwise the ring is
  unchanged. So slots that were taken from an empty ring can be given back in the order they came.
\<close>

theorem ring_erase_in_order:
  assumes "ring_inv rb"
  shows "(if prefix is (slots rb)
     then \<exists>rb'. Erase is rb = (True, rb') \<and> ring_inv rb' \<and> slots rb = is @ slots rb'
     else Erase is rb = (False, rb)) \<and>
    (slots rb = [] \<and> take_slots PushBack n rb = Some (ps, rb1) \<longrightarrow>
      distinct ps \<and> length ps = n \<and>
      (\<forall>m \<le> n. \<exists>rb2. Erase (take m ps) rb1 = (True, rb2) \<and> ring_inv rb2 \<and> slots rb2 = drop m ps))"
  using Erase_spec [OF assms, of "is"] ring.take_then_release [OF assms, of n ps rb1] by auto

theorem ring_erase_in_order_witness:
  "(let rb = \<lparr>StartIndex = 2, EndIndex = 1, Size = 2, Capacity = 3\<rparr> in
    ring_inv rb \<and> slots rb = [2, 0] \<and> Erase [0] rb = (False, rb) \<and>
    (\<exists>rb'. Erase [2] rb = (True, rb') \<and> ring_inv rb' \<and> slots rb = [2] @ slots rb'))"
proof -
  let ?rb = "\<lparr>StartIndex = 2, EndIndex = 1, Size = 2, Capacity = 3\<rparr> :: RingBuffer"
  have i: "ring_inv ?rb" by (simp add: ring_inv_def)
  have s: "slots ?rb = [2, 0]" by (simp add: slots_def slots_from_def upt_conv_Cons)
  show ?thesis
    using ring_erase_in_order [OF i, of "[0]" 0 "[]" ?rb] ring_erase_in_order [OF i, of "[2]" 0 "[]" ?rb] i s
    by simp
qed

end
