(* ===== verification/List_Entry.thy ===== *)
theory List_Entry
  imports Prelude
begin

text \<open>
  The intrusive doubly linked lists of \<^verbatim>\<open>src/core/list_entry.h\<close> and \<^verbatim>\<open>src/core/list_entry.cpp\<close>. A list is a
  ring of entries that goes through its head; the links live in a heap that maps addresses to their
  two pointer fields, and every function of the source is the sequence of its pointer writes.
\<close>

type_synonym addr = nat

text \<open>The heap: the two links of every entry, and the value of every allocated list node.\<close>

record 'a list_heap =
  Flink :: "addr \<Rightarrow> addr"
  Blink :: "addr \<Rightarrow> addr"
  Node :: "addr \<rightharpoonup> 'a"
  Fresh :: addr

definition set_Flink :: "addr \<Rightarrow> addr \<Rightarrow> 'a list_heap \<Rightarrow> 'a list_heap" where
  "set_Flink a b h = h\<lparr>Flink := (Flink h)(a := b)\<rparr>"

definition set_Blink :: "addr \<Rightarrow> addr \<Rightarrow> 'a list_heap \<Rightarrow> 'a list_heap" where
  "set_Blink a b h = h\<lparr>Blink := (Blink h)(a := b)\<rparr>"

definition InitializeListHead :: "addr \<Rightarrow> 'a list_heap \<Rightarrow> 'a list_heap" where
  "InitializeListHead listHead h = set_Flink listHead listHead (set_Blink listHead listHead h)"

definition IsListEmpty :: "addr \<Rightarrow> 'a list_heap \<Rightarrow> bool" where
  "IsListEmpty listHead h \<longleftrightarrow> Flink h listHead = listHead"

definition RemoveEntryList :: "addr \<Rightarrow> 'a list_heap \<Rightarrow> bool \<times> 'a list_heap" where
  "RemoveEntryList entry h =
     (let flink = Flink h entry; blink = Blink h entry;
          h1 = set_Flink blink flink h; h2 = set_Blink flink blink h1
      in (flink = blink, h2))"

definition RemoveInitEntryList :: "addr \<Rightarrow> 'a list_heap \<Rightarrow> 'a list_heap" where
  "RemoveInitEntryList entry h = InitializeListHead entry (snd (RemoveEntryList entry h))"

definition RemoveHeadList :: "addr \<Rightarrow> 'a list_heap \<Rightarrow> addr \<times> 'a list_heap" where
  "RemoveHeadList listHead h =
     (let entry = Flink h listHead; flink = Flink h entry;
          h1 = set_Flink listHead flink h; h2 = set_Blink flink listHead h1
      in (entry, h2))"

definition RemoveTailList :: "addr \<Rightarrow> 'a list_heap \<Rightarrow> addr \<times> 'a list_heap" where
  "RemoveTailList listHead h =
     (let entry = Blink h listHead; blink = Blink h entry;
          h1 = set_Blink listHead blink h; h2 = set_Flink blink listHead h1
      in (entry, h2))"

definition InsertTailList :: "addr \<Rightarrow> addr \<Rightarrow> 'a list_heap \<Rightarrow> 'a list_heap" where
  "InsertTailList listHead entry h =
     (let blink = Blink h listHead;
          h1 = set_Flink entry listHead h; h2 = set_Blink entry blink h1;
          h3 = set_Flink blink entry h2
      in set_Blink listHead entry h3)"

definition InsertHeadList :: "addr \<Rightarrow> addr \<Rightarrow> 'a list_heap \<Rightarrow> 'a list_heap" where
  "InsertHeadList listHead entry h =
     (let flink = Flink h listHead;
          h1 = set_Flink entry flink h; h2 = set_Blink entry listHead h1;
          h3 = set_Blink flink entry h2
      in set_Flink listHead entry h3)"

definition AppendTailList :: "addr \<Rightarrow> addr \<Rightarrow> 'a list_heap \<Rightarrow> 'a list_heap" where
  "AppendTailList listHead listToAppend h =
     (let listEnd = Blink h listHead;
          h1 = set_Flink (Blink h listHead) listToAppend h;
          h2 = set_Blink listHead (Blink h1 listToAppend) h1;
          h3 = set_Flink (Blink h2 listToAppend) listHead h2
      in set_Blink listToAppend listEnd h3)"


section \<open>Rings\<close>

lemma set_link_sel [simp]:
  "Flink (set_Flink a b h) = (Flink h)(a := b)" "Blink (set_Flink a b h) = Blink h"
  "Flink (set_Blink a b h) = Flink h" "Blink (set_Blink a b h) = (Blink h)(a := b)"
  "Node (set_Flink a b h) = Node h" "Node (set_Blink a b h) = Node h"
  "Fresh (set_Flink a b h) = Fresh h" "Fresh (set_Blink a b h) = Fresh h"
  by (simp_all add: set_Flink_def set_Blink_def)

text \<open>Consecutive entries point to each other.\<close>

fun linked :: "'a list_heap \<Rightarrow> addr list \<Rightarrow> bool" where
  "linked h (a # b # zs) \<longleftrightarrow> Flink h a = b \<and> Blink h b = a \<and> linked h (b # zs)"
| "linked h _ \<longleftrightarrow> True"

lemma linked_split: "linked h (us @ a # vs) \<longleftrightarrow> linked h (us @ [a]) \<and> linked h (a # vs)"
proof (induction us)
  case (Cons u us)
  then show ?case by (cases us) auto
qed simp

lemma linked_snoc2: "linked h (us @ [a, b]) \<longleftrightarrow> linked h (us @ [a]) \<and> Flink h a = b \<and> Blink h b = a"
  using linked_split [of h us a "[b]"] by simp

lemma linked_join:
  assumes "us \<noteq> []" "vs \<noteq> []"
  shows "linked h (us @ vs) \<longleftrightarrow>
    linked h us \<and> linked h vs \<and> Flink h (last us) = hd vs \<and> Blink h (hd vs) = last us"
proof -
  obtain us' p where u: "us = us' @ [p]" using assms(1) by (cases us rule: rev_cases) auto
  obtain q vs' where v: "vs = q # vs'" using assms(2) by (cases vs) auto
  show ?thesis using linked_split [of h us' p "q # vs'"] u v by auto
qed

lemma linked_cong:
  assumes "\<And>a. a \<in> set (butlast zs) \<Longrightarrow> Flink h' a = Flink h a" "\<And>a. a \<in> set (tl zs) \<Longrightarrow> Blink h' a = Blink h a"
  shows "linked h' zs = linked h zs"
  using assms
proof (induction h zs rule: linked.induct)
  case (1 h a b zs)
  have "linked h' (b # zs) = linked h (b # zs)"
    by (rule "1.IH") (use "1.prems" in auto)
  then show ?case using "1.prems"(1) [of a] "1.prems"(2) [of b] by auto
qed auto

definition ring :: "'a list_heap \<Rightarrow> addr list \<Rightarrow> bool" where
  "ring h zs \<longleftrightarrow> distinct zs \<and> zs \<noteq> [] \<and> linked h (zs @ [hd zs])"

text \<open>A ring has no distinguished entry.\<close>

lemma ring_rotate: "ring h (a # zs) \<longleftrightarrow> ring h (zs @ [a])"
proof (cases zs)
  case Nil
  then show ?thesis by simp
next
  case (Cons b ys)
  have "linked h (a # b # ys @ [a]) \<longleftrightarrow> linked h (b # ys @ [a, b])"
    using linked_snoc2 [of h "b # ys" a b] by auto
  then show ?thesis using Cons by (auto simp: ring_def)
qed

lemma ring_cong:
  assumes "\<And>a. a \<in> set zs \<Longrightarrow> Flink h' a = Flink h a \<and> Blink h' a = Blink h a"
  shows "ring h' zs = ring h zs"
proof (cases zs)
  case (Cons a ys)
  have "linked h' (zs @ [a]) = linked h (zs @ [a])"
    by (rule linked_cong) (use assms Cons in auto)
  then show ?thesis using Cons by (simp add: ring_def)
qed (simp add: ring_def)

lemma ring_ends:
  assumes "ring h (a # zs)"
  shows "Flink h a = hd (zs @ [a])" "Blink h a = last (a # zs)"
proof -
  have l: "linked h (a # zs @ [a])" using assms by (simp add: ring_def)
  then show "Flink h a = hd (zs @ [a])" by (cases zs) auto
  show "Blink h a = last (a # zs)"
  proof (cases zs rule: rev_cases)
    case (snoc ys y)
    then show ?thesis using l linked_snoc2 [of h "a # ys" y a] by simp
  qed (use l in simp)
qed

text \<open>The links outside a set of addresses are untouched.\<close>

definition same_outside :: "addr set \<Rightarrow> 'a list_heap \<Rightarrow> 'a list_heap \<Rightarrow> bool" where
  "same_outside A h h' \<longleftrightarrow> (\<forall>a. a \<notin> A \<longrightarrow> Flink h' a = Flink h a \<and> Blink h' a = Blink h a)"

lemma ring_frame: "same_outside A h h' \<Longrightarrow> A \<inter> set zs = {} \<Longrightarrow> ring h zs \<Longrightarrow> ring h' zs"
  using ring_cong [of zs h' h] by (auto simp: same_outside_def)


section \<open>What the operations do to rings\<close>

lemma InitializeListHead_ring: "ring (InitializeListHead a h) [a]" "same_outside {a} h (InitializeListHead a h)"
  by (simp_all add: InitializeListHead_def ring_def same_outside_def)

lemma IsListEmpty_ring: "ring h (a # zs) \<Longrightarrow> IsListEmpty a h \<longleftrightarrow> zs = []"
  using ring_ends(1) [of h a zs] by (cases zs) (auto simp: IsListEmpty_def ring_def)

text \<open>Unlinking the entry at the front of the ring.\<close>

lemma unlink_linked:
  assumes "linked h (a # zs @ [a])" "distinct (a # zs)" "zs = b # ys" "p = last zs" "n = b"
    and h': "Flink h' = (Flink h)(p := n)" "Blink h' = (Blink h)(n := p)"
  shows "linked h' (zs @ [b])"
proof (cases ys rule: rev_cases)
  case Nil
  then show ?thesis using assms by simp
next
  case (snoc us u)
  then have e: "p = u" "zs = b # us @ [u]" "linked h (b # us @ [u])"
    using assms linked_split [of h "a # b # us" u "[a]"] by auto
  have d: "u \<notin> set us" "b \<notin> set us" "b \<noteq> u" using assms(2,3) snoc by auto
  have "linked h' (b # us @ [u]) = linked h (b # us @ [u])"
    by (rule linked_cong) (use d e(1) assms(5) h' in \<open>auto simp: butlast_append\<close>)
  then show ?thesis using e linked_snoc2 [of h' "b # us" u b] h' assms(5) by simp
qed

lemma RemoveEntryList_ring:
  assumes "ring h (a # zs)" "zs \<noteq> []"
  shows "ring (snd (RemoveEntryList a h)) zs" "same_outside (set zs) h (snd (RemoveEntryList a h))"
    "fst (RemoveEntryList a h) \<longleftrightarrow> length zs = 1"
    "Node (snd (RemoveEntryList a h)) = Node h" "Fresh (snd (RemoveEntryList a h)) = Fresh h"
proof -
  from assms(2) obtain b ys where z: "zs = b # ys" by (cases zs) auto
  have e: "Flink h a = b" "Blink h a = last zs" using ring_ends [OF assms(1)] z by auto
  have "linked (snd (RemoveEntryList a h)) (zs @ [b])"
    by (rule unlink_linked [of h a zs b ys "last zs" b])
      (use assms z e in \<open>auto simp: ring_def RemoveEntryList_def Let_def\<close>)
  then show "ring (snd (RemoveEntryList a h)) zs" using assms z by (auto simp: ring_def)
  show "same_outside (set zs) h (snd (RemoveEntryList a h))"
    using e z by (auto simp: same_outside_def RemoveEntryList_def Let_def)
  have "b = last zs \<longleftrightarrow> ys = []" using assms(1) z by (cases ys rule: rev_cases) (auto simp: ring_def)
  then show "fst (RemoveEntryList a h) \<longleftrightarrow> length zs = 1"
    using e z by (auto simp: RemoveEntryList_def Let_def)
  show "Node (snd (RemoveEntryList a h)) = Node h" "Fresh (snd (RemoveEntryList a h)) = Fresh h"
    by (simp_all add: RemoveEntryList_def Let_def)
qed


lemma RemoveInitEntryList_ring:
  assumes "ring h (a # zs)" "zs \<noteq> []"
  shows "ring (RemoveInitEntryList a h) zs" "ring (RemoveInitEntryList a h) [a]"
    "same_outside (set (a # zs)) h (RemoveInitEntryList a h)"
    "Node (RemoveInitEntryList a h) = Node h" "Fresh (RemoveInitEntryList a h) = Fresh h"
proof -
  note r = RemoveEntryList_ring [OF assms]
  have "a \<notin> set zs" using assms(1) by (simp add: ring_def)
  then show "ring (RemoveInitEntryList a h) zs"
    unfolding RemoveInitEntryList_def using ring_frame [OF InitializeListHead_ring(2) _ r(1)] by simp
  show "ring (RemoveInitEntryList a h) [a]"
    unfolding RemoveInitEntryList_def by (rule InitializeListHead_ring)
  show "same_outside (set (a # zs)) h (RemoveInitEntryList a h)"
    using r(2) by (auto simp: RemoveInitEntryList_def InitializeListHead_def same_outside_def)
  show "Node (RemoveInitEntryList a h) = Node h" "Fresh (RemoveInitEntryList a h) = Fresh h"
    using r(4,5) by (simp_all add: RemoveInitEntryList_def InitializeListHead_def)
qed

text \<open>Removing the first or the last entry is unlinking it, written with the head.\<close>

lemma RemoveHeadList_eq:
  assumes "ring h (a # b # ys)"
  shows "RemoveHeadList a h = (b, snd (RemoveEntryList b h))"
proof -
  have "ring h (b # ys @ [a])" using assms ring_rotate [of h a "b # ys"] by simp
  from ring_ends(2) [OF this] ring_ends(1) [OF assms] show ?thesis
    by (simp add: RemoveHeadList_def RemoveEntryList_def Let_def)
qed

lemma RemoveTailList_eq:
  assumes "ring h (a # ys @ [b])"
  shows "RemoveTailList a h = (b, snd (RemoveEntryList b h))"
proof -
  have "ring h (b # a # ys)" using assms ring_rotate [of h b "a # ys"] by simp
  from ring_ends(1) [OF this] ring_ends(2) [OF assms] show ?thesis
    by (simp add: RemoveTailList_def RemoveEntryList_def Let_def set_Flink_def set_Blink_def)
qed

lemma RemoveHeadList_ring:
  assumes "ring h (a # b # ys)"
  shows "fst (RemoveHeadList a h) = b" "ring (snd (RemoveHeadList a h)) (a # ys)"
    "same_outside (set (a # ys)) h (snd (RemoveHeadList a h))"
    "Node (snd (RemoveHeadList a h)) = Node h" "Fresh (snd (RemoveHeadList a h)) = Fresh h"
proof -
  have r: "ring h (b # ys @ [a])" using assms ring_rotate [of h a "b # ys"] by simp
  note e = RemoveHeadList_eq [OF assms] and u = RemoveEntryList_ring [OF r]
  show "fst (RemoveHeadList a h) = b" using e by simp
  show "ring (snd (RemoveHeadList a h)) (a # ys)" using u(1) by (simp add: e ring_rotate [of _ a ys])
  show "same_outside (set (a # ys)) h (snd (RemoveHeadList a h))" using e u(2) by simp
  show "Node (snd (RemoveHeadList a h)) = Node h" "Fresh (snd (RemoveHeadList a h)) = Fresh h"
    using e u(4,5) by simp_all
qed

lemma RemoveTailList_ring:
  assumes "ring h (a # ys @ [b])"
  shows "fst (RemoveTailList a h) = b" "ring (snd (RemoveTailList a h)) (a # ys)"
    "same_outside (set (a # ys)) h (snd (RemoveTailList a h))"
    "Node (snd (RemoveTailList a h)) = Node h" "Fresh (snd (RemoveTailList a h)) = Fresh h"
proof -
  have r: "ring h (b # a # ys)" using assms ring_rotate [of h b "a # ys"] by simp
  note e = RemoveTailList_eq [OF assms] and u = RemoveEntryList_ring [OF r]
  show "fst (RemoveTailList a h) = b" using e by simp
  show "ring (snd (RemoveTailList a h)) (a # ys)" using e u(1) by simp
  show "same_outside (set (a # ys)) h (snd (RemoveTailList a h))" using e u(2) by simp
  show "Node (snd (RemoveTailList a h)) = Node h" "Fresh (snd (RemoveTailList a h)) = Fresh h"
    using e u(4,5) by simp_all
qed

text \<open>Appending one ring to another; inserting one entry is the case of a single entry.\<close>

lemma AppendTailList_ring:
  assumes h: "ring h (a # xs)" "ring h (b # ys)" and dj: "set (a # xs) \<inter> set (b # ys) = {}"
  shows "ring (AppendTailList a b h) (a # xs @ b # ys)"
    "same_outside (set (a # xs @ b # ys)) h (AppendTailList a b h)"
    "Node (AppendTailList a b h) = Node h" "Fresh (AppendTailList a b h) = Fresh h"
proof -
  let ?p = "last (a # xs)" and ?q = "last (b # ys)" and ?h = "AppendTailList a b h"
  have e: "Blink h a = ?p" "Blink h b = ?q" using ring_ends [OF h(1)] ring_ends [OF h(2)] by auto
  have ab: "a \<noteq> b" "?p \<in> set (a # xs)" "?q \<in> set (b # ys)"
    using dj last_in_set [of "a # xs"] last_in_set [of "b # ys"] by auto
  have F: "Flink ?h = (Flink h)(?p := b, ?q := a)" and B: "Blink ?h = (Blink h)(a := ?q, b := ?p)"
    using e ab by (auto simp: AppendTailList_def Let_def)
  have d: "distinct (a # xs)" "distinct (b # ys)" using h by (auto simp: ring_def)
  have 1: "linked ?h (a # xs) = linked h (a # xs)"
  proof (rule linked_cong)
    fix z assume z: "z \<in> set (butlast (a # xs))"
    then have "z \<noteq> ?p" using d(1) by (metis append_butlast_last_id distinct_append distinct.simps(2)
          disjoint_iff list.set_intros(1) list.discI)
    moreover have "z \<in> set (a # xs)" using z by (rule in_set_butlastD)
    ultimately show "Flink ?h z = Flink h z" using F dj ab(3) by auto
  next
    fix z assume "z \<in> set (tl (a # xs))"
    then show "Blink ?h z = Blink h z" using B d(1) dj by auto
  qed
  have 2: "linked ?h (b # ys) = linked h (b # ys)"
  proof (rule linked_cong)
    fix z assume z: "z \<in> set (butlast (b # ys))"
    then have "z \<noteq> ?q" using d(2) by (metis append_butlast_last_id distinct_append distinct.simps(2)
          disjoint_iff list.set_intros(1) list.discI)
    moreover have "z \<in> set (b # ys)" using z by (rule in_set_butlastD)
    ultimately show "Flink ?h z = Flink h z" using F dj ab(2) by auto
  next
    fix z assume "z \<in> set (tl (b # ys))"
    then show "Blink ?h z = Blink h z" using B d(2) dj by auto
  qed
  have l: "linked h (a # xs)" "linked h (b # ys)"
    using h linked_join [of "a # xs" "[a]" h] linked_join [of "b # ys" "[b]" h] by (auto simp: ring_def)
  have pq: "?p \<noteq> ?q" using ab(2,3) dj by auto
  have "linked ?h ((a # xs) @ (b # ys) @ [a])"
    using linked_join [of "a # xs" "(b # ys) @ [a]" ?h] linked_join [of "b # ys" "[a]" ?h] 1 2 l F B ab(1) pq
    by auto
  then show "ring ?h (a # xs @ b # ys)" using d dj by (auto simp: ring_def)
  show "same_outside (set (a # xs @ b # ys)) h ?h"
    using F B ab(2,3) by (auto simp: same_outside_def)
  show "Node ?h = Node h" "Fresh ?h = Fresh h" by (simp_all add: AppendTailList_def Let_def)
qed


lemma InsertTailList_ring:
  assumes h: "ring h (a # xs)" and b: "b \<notin> set (a # xs)"
  shows "ring (InsertTailList a b h) (a # xs @ [b])" "same_outside (set (a # xs @ [b])) h (InsertTailList a b h)"
    "Node (InsertTailList a b h) = Node h" "Fresh (InsertTailList a b h) = Fresh h"
proof -
  let ?h0 = "InitializeListHead b h"
  have "ring ?h0 (a # xs)" using ring_frame [OF InitializeListHead_ring(2) _ h] b by simp
  moreover have "last (a # xs) \<noteq> b" using b last_in_set [of "a # xs"] by auto
  then have eq: "InsertTailList a b h = AppendTailList a b ?h0"
    using b ring_ends(2) [OF h]
    by (auto simp: InsertTailList_def AppendTailList_def InitializeListHead_def Let_def set_Flink_def set_Blink_def
        fun_upd_twist)
  ultimately have r: "ring (InsertTailList a b h) (a # xs @ [b])"
    "same_outside (set (a # xs @ [b])) ?h0 (InsertTailList a b h)"
    using AppendTailList_ring [of ?h0 a xs b "[]"] InitializeListHead_ring(1) [of b h] b by auto
  then show "ring (InsertTailList a b h) (a # xs @ [b])" by simp
  show "same_outside (set (a # xs @ [b])) h (InsertTailList a b h)"
    using r(2) by (auto simp: same_outside_def InitializeListHead_def)
  show "Node (InsertTailList a b h) = Node h" "Fresh (InsertTailList a b h) = Fresh h"
    by (simp_all add: InsertTailList_def Let_def)
qed

text \<open>Inserting at the head is inserting in front of the first entry.\<close>

lemma InsertHeadList_ring:
  assumes h: "ring h (a # xs)" and b: "b \<notin> set (a # xs)"
  shows "ring (InsertHeadList a b h) (a # b # xs)" "same_outside (set (a # b # xs)) h (InsertHeadList a b h)"
    "Node (InsertHeadList a b h) = Node h" "Fresh (InsertHeadList a b h) = Fresh h"
proof -
  have "ring (InsertHeadList a b h) (a # b # xs) \<and> same_outside (set (a # b # xs)) h (InsertHeadList a b h)"
  proof (cases xs)
    case Nil
    then have e: "Flink h a = a" "Blink h a = a" using ring_ends [OF h] by auto
    then show ?thesis using Nil b by (auto simp: InsertHeadList_def Let_def ring_def same_outside_def)
  next
    case (Cons c ys)
    have rc: "ring h (c # ys @ [a])" using h Cons ring_rotate [of h a "c # ys"] by simp
    have e: "Flink h a = c" "Blink h c = a" using ring_ends(1) [OF h] ring_ends(2) [OF rc] Cons by auto
    have eq: "InsertHeadList a b h = InsertTailList c b h"
      using e b Cons by (auto simp: InsertHeadList_def InsertTailList_def Let_def set_Flink_def set_Blink_def fun_upd_twist)
    have bc: "b \<notin> set (c # ys @ [a])" using b Cons by auto
    have "ring (InsertHeadList a b h) ((c # ys) @ [a, b])" using InsertTailList_ring(1) [OF rc bc] eq by simp
    then have "ring (InsertHeadList a b h) (b # c # ys @ [a])" by (simp add: ring_rotate [of _ b "c # ys @ [a]"])
    then have "ring (InsertHeadList a b h) (a # b # xs)" using Cons by (simp add: ring_rotate [of _ a "b # c # ys"])
    moreover have "same_outside (set (a # b # xs)) h (InsertHeadList a b h)"
      using InsertTailList_ring(2) [OF rc bc] eq Cons by (auto simp: same_outside_def)
    ultimately show ?thesis by blast
  qed
  then show "ring (InsertHeadList a b h) (a # b # xs)" "same_outside (set (a # b # xs)) h (InsertHeadList a b h)"
    by auto
  show "Node (InsertHeadList a b h) = Node h" "Fresh (InsertHeadList a b h) = Fresh h"
    by (simp_all add: InsertHeadList_def Let_def)
qed

end
