(* ===== verification/Linked_List.thy ===== *)
theory Linked_List
  imports List_Entry "HOL-Library.Monad_Syntax"
begin

text \<open>
  \<^verbatim>\<open>Core::LinkedList\<close> of \<^verbatim>\<open>src/core/list.h\<close>: owning doubly linked lists over the intrusive entries, with
  their iterator. A list is named by the address of its head entry. Nodes are allocated at fresh
  addresses; reading or freeing a node that is not allocated is a panic (\<open>None\<close>), as is every failed
  assertion of the source.
\<close>

text \<open>\<^verbatim>\<open>new LinkedListNode(value)\<close>: the constructor links the entry to itself. \<open>None\<close>: out of memory.\<close>

definition new_node :: "'a \<Rightarrow> 'a list_heap \<Rightarrow> addr \<times> 'a list_heap" where
  "new_node v h = (let a = Fresh h in (a, InitializeListHead a (h\<lparr>Node := (Node h)(a \<mapsto> v), Fresh := Suc a\<rparr>)))"

definition delete_node :: "addr \<Rightarrow> 'a list_heap \<Rightarrow> 'a list_heap option" where
  "delete_node a h = guard (Node h a \<noteq> None) (Some (h\<lparr>Node := (Node h)(a := None)\<rparr>))"

definition LinkedList :: "addr \<Rightarrow> 'a list_heap \<Rightarrow> 'a list_heap" where
  "LinkedList L h = InitializeListHead L h"

definition AddHead :: "addr \<Rightarrow> 'a \<Rightarrow> mem \<Rightarrow> 'a list_heap \<Rightarrow> bool \<times> 'a list_heap \<times> mem" where
  "AddHead L v m h =
     (if \<not> fst (new m) then (False, h, snd (new m))
      else let (a, h1) = new_node v h in (True, InsertHeadList L a h1, snd (new m)))"

definition AddTail :: "addr \<Rightarrow> 'a \<Rightarrow> mem \<Rightarrow> 'a list_heap \<Rightarrow> bool \<times> 'a list_heap \<times> mem" where
  "AddTail L v m h =
     (if \<not> fst (new m) then (False, h, snd (new m))
      else let (a, h1) = new_node v h in (True, InsertTailList L a h1, snd (new m)))"

definition AddTail_list :: "addr \<Rightarrow> addr \<Rightarrow> 'a list_heap \<Rightarrow> 'a list_heap" where
  "AddTail_list L other h =
     (if IsListEmpty other h then h
      else let entry = Flink h other; h1 = RemoveInitEntryList other h in AppendTailList L entry h1)"

definition Head :: "addr \<Rightarrow> 'a list_heap \<Rightarrow> 'a option" where
  "Head L h = guard (\<not> IsListEmpty L h) (Node h (Flink h L))"

definition Tail :: "addr \<Rightarrow> 'a list_heap \<Rightarrow> 'a option" where
  "Tail L h = guard (\<not> IsListEmpty L h) (Node h (Blink h L))"

definition PopHead :: "addr \<Rightarrow> 'a list_heap \<Rightarrow> 'a list_heap option" where
  "PopHead L h = guard (\<not> IsListEmpty L h) (let (a, h1) = RemoveHeadList L h in delete_node a h1)"

definition PopTail :: "addr \<Rightarrow> 'a list_heap \<Rightarrow> 'a list_heap option" where
  "PopTail L h = guard (\<not> IsListEmpty L h) (let (a, h1) = RemoveTailList L h in delete_node a h1)"

definition IsEmpty :: "addr \<Rightarrow> 'a list_heap \<Rightarrow> bool" where
  "IsEmpty L h = IsListEmpty L h"

text \<open>\<^verbatim>\<open>Release\<close>, \<^verbatim>\<open>Clear\<close> and the destructor free every node.\<close>

partial_function (option) Release :: "addr \<Rightarrow> 'a list_heap \<Rightarrow> 'a list_heap option" where
  [code]: "Release L h =
     (if IsListEmpty L h then Some h
      else do {
        h1 \<leftarrow> delete_node (fst (RemoveHeadList L h)) (snd (RemoveHeadList L h));
        Release L h1 })"

definition move_assign :: "addr \<Rightarrow> addr \<Rightarrow> 'a list_heap \<Rightarrow> 'a list_heap option" where
  "move_assign L other h =
     (if L = other then Some h
      else do { h1 \<leftarrow> Release L h; Some (AddTail_list L other (InitializeListHead L h1)) })"

definition move_construct :: "addr \<Rightarrow> addr \<Rightarrow> 'a list_heap \<Rightarrow> 'a list_heap" where
  "move_construct L other h = AddTail_list L other (InitializeListHead L h)"

text \<open>The iterator.\<close>

record Iterator =
  CurrListEntry :: "addr option"
  EndList :: "addr option"

definition GetIterator :: "addr \<Rightarrow> 'a list_heap \<Rightarrow> Iterator" where
  "GetIterator L h = \<lparr>CurrListEntry = Some (Flink h L), EndList = Some L\<rparr>"

definition It_IsValid :: "Iterator \<Rightarrow> bool" where
  "It_IsValid it \<longleftrightarrow>
     (if CurrListEntry it \<noteq> None \<and> EndList it \<noteq> None then CurrListEntry it \<noteq> EndList it else False)"

definition It_Get :: "Iterator \<Rightarrow> 'a list_heap \<Rightarrow> 'a option" where
  "It_Get it h = guard (CurrListEntry it \<noteq> EndList it) (do { a \<leftarrow> CurrListEntry it; Node h a })"

definition It_Next :: "Iterator \<Rightarrow> 'a list_heap \<Rightarrow> Iterator" where
  "It_Next it h = (if It_IsValid it then it\<lparr>CurrListEntry := map_option (Flink h) (CurrListEntry it)\<rparr> else it)"

definition It_Erase :: "Iterator \<Rightarrow> 'a list_heap \<Rightarrow> (Iterator \<times> 'a list_heap) option" where
  "It_Erase it h = guard (It_IsValid it) (do {
     a \<leftarrow> CurrListEntry it;
     h1 \<leftarrow> delete_node a (snd (RemoveEntryList a h));
     Some (it\<lparr>CurrListEntry := Some (Flink h a)\<rparr>, h1) })"

partial_function (option) Count_loop :: "Iterator \<Rightarrow> 'a list_heap \<Rightarrow> nat \<Rightarrow> nat option" where
  [code]: "Count_loop it h count = (if It_IsValid it then Count_loop (It_Next it h) h (count + 1) else Some count)"

definition Count :: "addr \<Rightarrow> 'a list_heap \<Rightarrow> nat option" where
  "Count L h = Count_loop (GetIterator L h) h 0"

text \<open>The values a walk with the iterator sees.\<close>

partial_function (option) walk :: "Iterator \<Rightarrow> 'a list_heap \<Rightarrow> 'a list option" where
  [code]: "walk it h =
     (if It_IsValid it then do { v \<leftarrow> It_Get it h; vs \<leftarrow> walk (It_Next it h) h; Some (v # vs) } else Some [])"


section \<open>Representation\<close>

definition is_list :: "addr \<Rightarrow> addr list \<Rightarrow> 'a list \<Rightarrow> 'a list_heap \<Rightarrow> bool" where
  "is_list L xs vs h \<longleftrightarrow> ring h (L # xs) \<and> map (Node h) xs = map Some vs \<and>
     (\<forall>a \<in> set (L # xs). a < Fresh h) \<and> Node h L = None"

text \<open>What an operation on the entries \<open>A\<close> leaves alone.\<close>

definition frame :: "addr set \<Rightarrow> 'a list_heap \<Rightarrow> 'a list_heap \<Rightarrow> bool" where
  "frame A h h' \<longleftrightarrow> Fresh h \<le> Fresh h' \<and> (\<forall>a. a \<notin> A \<and> a < Fresh h \<longrightarrow>
     Flink h' a = Flink h a \<and> Blink h' a = Blink h a \<and> Node h' a = Node h a)"

lemma is_list_frame:
  assumes "frame A h h'" "A \<inter> set (M # ys) = {}" "is_list M ys ws h"
  shows "is_list M ys ws h'"
proof -
  have a: "Flink h' a = Flink h a \<and> Blink h' a = Blink h a \<and> Node h' a = Node h a" if "a \<in> set (M # ys)" for a
    using assms that by (auto simp: frame_def is_list_def)
  then have "ring h' (M # ys)" using assms(3) ring_cong [of "M # ys" h' h] by (simp add: is_list_def)
  moreover have "map (Node h') ys = map Some ws" 
    using a assms(3) map_cong [OF refl, of ys "Node h'" "Node h"] by (simp add: is_list_def)
  ultimately show ?thesis using a [of M] assms by (auto simp: is_list_def frame_def)
qed

lemma is_list_length: "is_list L xs vs h \<Longrightarrow> length xs = length vs"
  unfolding is_list_def by (metis length_map)

lemma is_list_empty: "is_list L xs vs h \<Longrightarrow> IsListEmpty L h \<longleftrightarrow> vs = []"
  using is_list_length [of L xs vs h] by (auto simp: is_list_def IsListEmpty_ring)

lemma fresh_notin: "is_list L xs vs h \<Longrightarrow> Fresh h \<notin> set (L # xs)"
  by (auto simp: is_list_def)

lemma new_node_list:
  assumes l: "is_list L xs vs h"
  shows "fst (new_node v h) = Fresh h" "is_list L xs vs (snd (new_node v h))"
    "Node (snd (new_node v h)) (Fresh h) = Some v" "Fresh (snd (new_node v h)) = Suc (Fresh h)"
    "frame {} h (snd (new_node v h))"
proof -
  show f: "frame {} h (snd (new_node v h))"
    by (auto simp: frame_def new_node_def Let_def InitializeListHead_def)
  from is_list_frame [OF this _ l] show "is_list L xs vs (snd (new_node v h))" by simp
  show "fst (new_node v h) = Fresh h" "Node (snd (new_node v h)) (Fresh h) = Some v"
    "Fresh (snd (new_node v h)) = Suc (Fresh h)"
    by (simp_all add: new_node_def Let_def InitializeListHead_def)
qed

lemma AddTail_list_ok:
  assumes l: "is_list L xs vs h"
  shows "if fst (new m)
    then \<exists>h'. AddTail L v m h = (True, h', snd (new m)) \<and> is_list L (xs @ [Fresh h]) (vs @ [v]) h' \<and>
      frame (set (L # xs)) h h'
    else AddTail L v m h = (False, h, snd (new m))"
proof (cases "fst (new m)")
  case True
  let ?h1 = "snd (new_node v h)" and ?a = "Fresh h"
  note n = new_node_list [OF l, of v] and nf = fresh_notin [OF l]
  have r: "ring ?h1 (L # xs)" using n(2) by (simp add: is_list_def)
  note i = InsertTailList_ring [OF r nf]
  have "is_list L (xs @ [?a]) (vs @ [v]) (InsertTailList L ?a ?h1)"
    using i(1) n(2-4) nf unfolding is_list_def i(3,4) by auto
  moreover have "frame (set (L # xs)) h (InsertTailList L ?a ?h1)"
    using i(2) n(5) unfolding frame_def i(3,4) same_outside_def by auto
  ultimately show ?thesis using True n(1) by (simp add: AddTail_def Let_def case_prod_beta)
qed (simp add: AddTail_def)

lemma AddHead_list_ok:
  assumes l: "is_list L xs vs h"
  shows "if fst (new m)
    then \<exists>h'. AddHead L v m h = (True, h', snd (new m)) \<and> is_list L (Fresh h # xs) (v # vs) h' \<and>
      frame (set (L # xs)) h h'
    else AddHead L v m h = (False, h, snd (new m))"
proof (cases "fst (new m)")
  case True
  let ?h1 = "snd (new_node v h)" and ?a = "Fresh h"
  note n = new_node_list [OF l, of v] and nf = fresh_notin [OF l]
  have r: "ring ?h1 (L # xs)" using n(2) by (simp add: is_list_def)
  note i = InsertHeadList_ring [OF r nf]
  have "is_list L (?a # xs) (v # vs) (InsertHeadList L ?a ?h1)"
    using i(1) n(2-4) nf unfolding is_list_def i(3,4) by auto
  moreover have "frame (set (L # xs)) h (InsertHeadList L ?a ?h1)"
    using i(2) n(5) unfolding frame_def i(3,4) same_outside_def by auto
  ultimately show ?thesis using True n(1) by (simp add: AddHead_def Let_def case_prod_beta)
qed (simp add: AddHead_def)


lemma delete_list:
  assumes l: "is_list L ys ws h" and a: "Node h a = Some v" "a \<notin> set (L # ys)"
  shows "\<exists>h'. delete_node a h = Some h' \<and> is_list L ys ws h' \<and> frame {a} h h' \<and> Node h' a = None"
proof -
  let ?h = "h\<lparr>Node := (Node h)(a := None)\<rparr>"
  have f: "frame {a} h ?h" by (simp add: frame_def)
  then show ?thesis using is_list_frame [OF f _ l] a by (simp add: delete_node_def)
qed

lemma PopHead_list_ok:
  assumes l: "is_list L (b # ys) (v # ws) h"
  shows "\<exists>h'. PopHead L h = Some h' \<and> is_list L ys ws h' \<and> frame (set (L # b # ys)) h h' \<and> Node h' b = None"
    "Head L h = Some v"
proof -
  have r: "ring h (L # b # ys)" and nb: "Node h b = Some v" using l by (auto simp: is_list_def)
  note i = RemoveHeadList_ring [OF r]
  have e: "\<not> IsListEmpty L h" using IsListEmpty_ring [OF r] by simp
  have "is_list L ys ws (snd (RemoveHeadList L h))" using l i unfolding is_list_def by auto
  from delete_list [OF this, of b v] i(4) nb r obtain h' where
    h': "delete_node b (snd (RemoveHeadList L h)) = Some h'" "is_list L ys ws h'"
      "frame {b} (snd (RemoveHeadList L h)) h'" "Node h' b = None" by (auto simp: ring_def)
  have "frame (set (L # b # ys)) h h'"
    using h'(3) i(3-5) by (auto simp: frame_def same_outside_def)
  then show "\<exists>h'. PopHead L h = Some h' \<and> is_list L ys ws h' \<and> frame (set (L # b # ys)) h h' \<and> Node h' b = None"
    using h' e i(1) by (simp add: PopHead_def case_prod_beta)
  show "Head L h = Some v" using e nb ring_ends(1) [OF r] by (simp add: Head_def)
qed

lemma PopTail_list_ok:
  assumes l: "is_list L (ys @ [b]) (ws @ [v]) h"
  shows "\<exists>h'. PopTail L h = Some h' \<and> is_list L ys ws h' \<and> frame (set (L # ys @ [b])) h h' \<and> Node h' b = None"
    "Tail L h = Some v"
proof -
  have r: "ring h (L # ys @ [b])" and nb: "Node h b = Some v" using l by (auto simp: is_list_def)
  note i = RemoveTailList_ring [OF r]
  have e: "\<not> IsListEmpty L h" using IsListEmpty_ring [OF r] by simp
  have "is_list L ys ws (snd (RemoveTailList L h))" using l i unfolding is_list_def by auto
  from delete_list [OF this, of b v] i(4) nb r obtain h' where
    h': "delete_node b (snd (RemoveTailList L h)) = Some h'" "is_list L ys ws h'"
      "frame {b} (snd (RemoveTailList L h)) h'" "Node h' b = None" by (auto simp: ring_def)
  have "frame (set (L # ys @ [b])) h h'"
    using h'(3) i(3-5) by (auto simp: frame_def same_outside_def)
  then show "\<exists>h'. PopTail L h = Some h' \<and> is_list L ys ws h' \<and> frame (set (L # ys @ [b])) h h' \<and> Node h' b = None"
    using h' e i(1) by (simp add: PopTail_def case_prod_beta)
  show "Tail L h = Some v" using e nb ring_ends(2) [OF r] by (simp add: Tail_def)
qed

lemma frame_trans: "frame A h h1 \<Longrightarrow> frame B h1 h2 \<Longrightarrow> frame (A \<union> B) h h2"
  by (auto simp: frame_def)

lemma frame_mono: "frame A h h' \<Longrightarrow> A \<subseteq> B \<Longrightarrow> frame B h h'"
  by (auto simp: frame_def)

text \<open>Releasing a list frees exactly its nodes.\<close>

lemma Release_list_ok:
  assumes "is_list L xs vs h"
  shows "\<exists>h'. Release L h = Some h' \<and> is_list L [] [] h' \<and> frame (set (L # xs)) h h' \<and>
    (\<forall>a \<in> set xs. Node h' a = None)"
  using assms
proof (induction xs arbitrary: vs h)
  case Nil
  then have "vs = []" using is_list_length [of L "[]" vs h] by simp
  then show ?case using Nil is_list_empty [of L "[]" vs h]
    by (subst Release.simps) (simp add: frame_def)
next
  case (Cons b ys)
  then obtain v ws where v: "vs = v # ws" using is_list_length [OF Cons.prems] by (cases vs) auto
  from PopHead_list_ok [OF Cons.prems [unfolded v]] obtain h1 where
    h1: "PopHead L h = Some h1" "is_list L ys ws h1" "frame (set (L # b # ys)) h h1" "Node h1 b = None" by blast
  from Cons.IH [OF h1(2)] obtain h' where
    h': "Release L h1 = Some h'" "is_list L [] [] h'" "frame (set (L # ys)) h1 h'" "\<forall>a \<in> set ys. Node h' a = None"
    by blast
  have e: "\<not> IsListEmpty L h" using is_list_empty [OF Cons.prems] v by simp
  have "Release L h = Some h'"
    using h1(1) h'(1) e by (subst Release.simps) (simp add: PopHead_def case_prod_beta)
  moreover have "frame (set (L # b # ys)) h h'"
    using frame_mono [OF frame_trans [OF h1(3) h'(3)]] by auto
  moreover have "Node h' b = None"
  proof -
    have "b < Fresh h1" "b \<notin> set (L # ys)" using Cons.prems h1(3) by (auto simp: is_list_def frame_def ring_def)
    then show ?thesis using h'(3) h1(4) by (auto simp: frame_def)
  qed
  ultimately show ?case using h'(2,4) by auto
qed

text \<open>Splicing one list behind another.\<close>

lemma AddTail_list_splice:
  assumes l: "is_list L xs vs h" and o': "is_list M ys ws h" and dj: "set (L # xs) \<inter> set (M # ys) = {}"
  shows "is_list L (xs @ ys) (vs @ ws) (AddTail_list L M h)" "is_list M [] [] (AddTail_list L M h)"
    "frame (set (L # xs) \<union> set (M # ys)) h (AddTail_list L M h)"
proof -
  have "is_list L (xs @ ys) (vs @ ws) (AddTail_list L M h) \<and> is_list M [] [] (AddTail_list L M h) \<and>
    frame (set (L # xs) \<union> set (M # ys)) h (AddTail_list L M h)"
  proof (cases ys)
    case Nil
    then have "ws = []" using is_list_length [OF o'] by simp
    then show ?thesis using Nil l o' is_list_empty [OF o'] by (simp add: AddTail_list_def frame_def)
  next
    case (Cons b zs)
    let ?h1 = "RemoveInitEntryList M h"
    have rM: "ring h (M # ys)" and rL: "ring h (L # xs)" using o' l by (auto simp: is_list_def)
    have ne: "ys \<noteq> []" using Cons by simp
    note i = RemoveInitEntryList_ring [OF rM ne]
    have L1: "ring ?h1 (L # xs)" using ring_frame [OF i(3) _ rL] dj by auto
    have djb: "set (L # xs) \<inter> set (b # zs) = {}" using dj Cons by auto
    note a = AppendTailList_ring [OF L1 i(1) [unfolded Cons] djb]
    have eq: "AddTail_list L M h = AppendTailList L b ?h1"
      using ring_ends(1) [OF rM] IsListEmpty_ring [OF rM] Cons by (simp add: AddTail_list_def)
    have M1: "ring (AppendTailList L b ?h1) [M]"
      using ring_frame [OF a(2) _ i(2)] dj rM Cons by (auto simp: ring_def)
    show ?thesis
      unfolding eq is_list_def a(3,4) i(4,5)
      using a(1,2) M1 l o' Cons i(3) unfolding is_list_def frame_def same_outside_def by (auto simp: a(3,4) i(4,5))
  qed
  then show "is_list L (xs @ ys) (vs @ ws) (AddTail_list L M h)" "is_list M [] [] (AddTail_list L M h)"
    "frame (set (L # xs) \<union> set (M # ys)) h (AddTail_list L M h)" by auto
qed



section \<open>The iterator\<close>

lemma ring_rotate_append: "ring h (us @ vs) \<longleftrightarrow> ring h (vs @ us)"
proof (induction us arbitrary: vs)
  case (Cons u us)
  then show ?case using Cons [of "vs @ [u]"] ring_rotate [of h u "us @ vs"] by simp
qed simp

definition at_pos :: "addr \<Rightarrow> addr list \<Rightarrow> nat \<Rightarrow> Iterator" where
  "at_pos L xs i = \<lparr>CurrListEntry = Some ((xs @ [L]) ! i), EndList = Some L\<rparr>"

lemma at_pos_valid: "ring h (L # xs) \<Longrightarrow> i \<le> length xs \<Longrightarrow> It_IsValid (at_pos L xs i) \<longleftrightarrow> i < length xs"
  by (auto simp: at_pos_def It_IsValid_def ring_def nth_append)

lemma ring_Flink:
  assumes "ring h (L # us @ a # vs)"
  shows "Flink h a = hd (vs @ [L])"
proof -
  have "ring h (a # vs @ L # us)" using assms ring_rotate_append [of h "L # us" "a # vs"] by simp
  from ring_ends(1) [OF this] show ?thesis by (cases vs) auto
qed

lemma at_pos_next:
  assumes "ring h (L # xs)" "i < length xs"
  shows "Flink h (xs ! i) = (xs @ [L]) ! Suc i" "It_Next (at_pos L xs i) h = at_pos L xs (Suc i)"
proof -
  have x: "xs = take i xs @ xs ! i # drop (Suc i) xs" using assms(2) by (simp add: id_take_nth_drop)
  have "ring h (L # take i xs @ xs ! i # drop (Suc i) xs)" using assms(1) x by simp
  then have "Flink h (xs ! i) = hd (drop (Suc i) xs @ [L])" by (rule ring_Flink)
  also have "\<dots> = (xs @ [L]) ! Suc i"
    using assms(2) by (cases "Suc i < length xs") (auto simp: hd_drop_conv_nth nth_append hd_append)
  finally show f: "Flink h (xs ! i) = (xs @ [L]) ! Suc i" .
  show "It_Next (at_pos L xs i) h = at_pos L xs (Suc i)"
    using at_pos_valid [OF assms(1), of i] assms(2) f by (simp add: It_Next_def at_pos_def nth_append)
qed

lemma GetIterator_pos: "ring h (L # xs) \<Longrightarrow> GetIterator L h = at_pos L xs 0"
  using ring_ends(1) [of h L xs] by (cases xs) (auto simp: GetIterator_def at_pos_def)

lemma at_pos_get:
  assumes "is_list L xs vs h" "i < length xs"
  shows "It_Get (at_pos L xs i) h = Some (vs ! i)"
proof -
  have "map (Node h) xs ! i = map Some vs ! i" using assms(1) by (simp add: is_list_def)
  moreover have "xs ! i \<noteq> L" using assms by (auto simp: is_list_def ring_def)
  ultimately show ?thesis
    using assms is_list_length [OF assms(1)] by (simp add: It_Get_def at_pos_def nth_append)
qed

lemma walk_from:
  assumes "is_list L xs vs h" "i \<le> length xs"
  shows "walk (at_pos L xs i) h = Some (drop i vs)" "Count_loop (at_pos L xs i) h c = Some (c + (length xs - i))"
proof -
  have r: "ring h (L # xs)" using assms(1) by (simp add: is_list_def)
  have "walk (at_pos L xs i) h = Some (drop i vs) \<and> Count_loop (at_pos L xs i) h c = Some (c + (length xs - i))"
    using assms(2)
  proof (induction "length xs - i" arbitrary: i c)
    case 0
    then show ?case using at_pos_valid [OF r, of i] is_list_length [OF assms(1)]
      by (subst walk.simps, subst Count_loop.simps) simp
  next
    case (Suc m)
    then have i: "i < length xs" by simp
    have "walk (at_pos L xs (Suc i)) h = Some (drop (Suc i) vs) \<and>
        Count_loop (at_pos L xs (Suc i)) h (c + 1) = Some ((c + 1) + (length xs - Suc i))"
      using Suc(1) [of "Suc i" "c + 1"] Suc(2) i by simp
    then show ?case
      using at_pos_valid [OF r, of i] i at_pos_next(2) [OF r i] at_pos_get [OF assms(1) i]
        is_list_length [OF assms(1)] Cons_nth_drop_Suc [of i vs]
      by (subst walk.simps, subst Count_loop.simps) simp
  qed
  then show "walk (at_pos L xs i) h = Some (drop i vs)" "Count_loop (at_pos L xs i) h c = Some (c + (length xs - i))"
    by auto
qed

lemma It_Erase_ok:
  assumes l: "is_list L xs vs h" and i: "i < length xs"
  shows "\<exists>h'. It_Erase (at_pos L xs i) h = Some (at_pos L (take i xs @ drop (Suc i) xs) i, h') \<and>
    is_list L (take i xs @ drop (Suc i) xs) (take i vs @ drop (Suc i) vs) h' \<and> frame (set (L # xs)) h h' \<and>
    Node h' (xs ! i) = None"
proof -
  let ?us = "take i xs" and ?a = "xs ! i" and ?ws = "drop (Suc i) xs"
  have x: "xs = ?us @ ?a # ?ws" using i by (simp add: id_take_nth_drop)
  have lv: "length xs = length vs" by (rule is_list_length [OF l])
  then have vx: "vs = take i vs @ vs ! i # drop (Suc i) vs" using i by (simp add: id_take_nth_drop)
  have r: "ring h (L # xs)" using l by (simp add: is_list_def)
  have "ring h ((L # ?us) @ (?a # ?ws))" using r x by (metis append_Cons)
  then have ra: "ring h (?a # ?ws @ L # ?us)" using ring_rotate_append [of h "L # ?us" "?a # ?ws"] by simp
  have ne: "?ws @ L # ?us \<noteq> []" by simp
  note e = RemoveEntryList_ring [OF ra ne]
  let ?h1 = "snd (RemoveEntryList ?a h)"
  have r1: "ring ?h1 (L # ?us @ ?ws)" using e(1) ring_rotate_append [of ?h1 ?ws "L # ?us"] by simp
  have "map (Node h) xs = map Some vs" using l by (simp add: is_list_def)
  then have nodes: "map (Node h) (?us @ ?ws) = map Some (take i vs @ drop (Suc i) vs)"
    "map (Node h) xs ! i = map Some vs ! i"
    by (simp_all add: take_map [symmetric] drop_map [symmetric])
  then have nodes: "map (Node h) (?us @ ?ws) = map Some (take i vs @ drop (Suc i) vs)" "Node h ?a = Some (vs ! i)"
    using i lv by simp_all
  have sub: "set (?us @ ?ws) \<subseteq> set xs" using set_take_subset set_drop_subset by fastforce
  have an: "?a \<notin> set (L # ?us @ ?ws)" using ra by (auto simp: ring_def)
  have "is_list L (?us @ ?ws) (take i vs @ drop (Suc i) vs) ?h1"
    unfolding is_list_def e(4,5) using r1 nodes(1) l sub by (auto simp: is_list_def)
  from delete_list [OF this, of ?a "vs ! i"] an nodes(2) e(4) obtain h' where
    h': "delete_node ?a ?h1 = Some h'" "is_list L (?us @ ?ws) (take i vs @ drop (Suc i) vs) h'" "frame {?a} ?h1 h'"
      "Node h' ?a = None" by auto
  have set_eq: "set (?ws @ L # ?us) \<union> {?a} = set (L # xs)" using arg_cong [OF x, of set] by auto
  have fr: "frame (set (?ws @ L # ?us)) h ?h1" using e(2,4,5) by (auto simp: frame_def same_outside_def)
  have "frame (set (L # xs)) h h'" using frame_trans [OF fr h'(3)] unfolding set_eq .
  moreover have "(?us @ ?ws @ [L]) ! i = (xs @ [L]) ! Suc i"
    using i by (auto simp: nth_append)
  then have "It_Erase (at_pos L xs i) h = Some (at_pos L (?us @ ?ws) i, h')"
    using at_pos_valid [OF r, of i] i h'(1) at_pos_next(1) [OF r i]
    by (simp add: It_Erase_def at_pos_def nth_append)
  ultimately show ?thesis using h'(2,4) by blast
qed



section \<open>The contract of a double-ended queue\<close>

fun push_all :: "('a \<Rightarrow> mem \<Rightarrow> 's \<Rightarrow> bool \<times> 's \<times> mem) \<Rightarrow> 'a list \<Rightarrow> 's \<Rightarrow> 's" where
  "push_all add [] s = s"
| "push_all add (v # vs) s = push_all add vs (fst (snd (add v [] s)))"

fun pop_all :: "('s \<Rightarrow> 'a option) \<Rightarrow> ('s \<Rightarrow> 's option) \<Rightarrow> nat \<Rightarrow> 's \<Rightarrow> ('a list \<times> 's) option" where
  "pop_all look pop 0 s = Some ([], s)"
| "pop_all look pop (Suc n) s = do {
     v \<leftarrow> look s; s1 \<leftarrow> pop s; (vs, s2) \<leftarrow> pop_all look pop n s1; Some (v # vs, s2) }"

locale deque =
  fixes repr :: "'a list \<Rightarrow> 's \<Rightarrow> bool"
    and add_head add_tail :: "'a \<Rightarrow> mem \<Rightarrow> 's \<Rightarrow> bool \<times> 's \<times> mem"
    and head tail :: "'s \<Rightarrow> 'a option" and pop_head pop_tail :: "'s \<Rightarrow> 's option" and empty :: "'s \<Rightarrow> bool"
  assumes add_head_law: "repr vs s \<Longrightarrow> \<exists>ok s' m'. add_head v m s = (ok, s', m') \<and>
      repr (if ok then v # vs else vs) s' \<and> (ok \<or> False \<in> set m)"
    and add_tail_law: "repr vs s \<Longrightarrow> \<exists>ok s' m'. add_tail v m s = (ok, s', m') \<and>
      repr (if ok then vs @ [v] else vs) s' \<and> (ok \<or> False \<in> set m)"
    and pop_head_law: "repr (v # vs) s \<Longrightarrow> head s = Some v \<and> (\<exists>s'. pop_head s = Some s' \<and> repr vs s')"
    and pop_tail_law: "repr (vs @ [v]) s \<Longrightarrow> tail s = Some v \<and> (\<exists>s'. pop_tail s = Some s' \<and> repr vs s')"
    and pop_none: "repr [] s \<Longrightarrow> pop_head s = None \<and> pop_tail s = None \<and> head s = None \<and> tail s = None"
    and empty_law: "repr vs s \<Longrightarrow> empty s \<longleftrightarrow> vs = []"
begin

lemma push_all_repr: "repr vs s \<Longrightarrow> repr (vs @ ws) (push_all add_tail ws s)"
proof (induction ws arbitrary: vs s)
  case (Cons w ws)
  from add_tail_law [OF Cons.prems, of w "[]"] obtain s' m' where
    "add_tail w [] s = (True, s', m')" "repr (vs @ [w]) s'" by auto
  with Cons.IH show ?case by fastforce
qed simp

lemma pop_all_repr: "repr (vs @ ws) s \<Longrightarrow> \<exists>s'. pop_all head pop_head (length vs) s = Some (vs, s') \<and> repr ws s'"
proof (induction vs arbitrary: s)
  case (Cons v vs)
  from pop_head_law [of v "vs @ ws" s] Cons.prems obtain s1 where
    "head s = Some v" "pop_head s = Some s1" "repr (vs @ ws) s1" by auto
  with Cons.IH [OF this(3)] show ?case by auto
qed simp

text \<open>First in, first out.\<close>

lemma fifo:
  assumes "repr [] s"
  shows "\<exists>s'. pop_all head pop_head (length vs) (push_all add_tail vs s) = Some (vs, s') \<and> repr [] s' \<and> empty s'"
  using pop_all_repr [of vs "[]"] push_all_repr [OF assms, of vs] empty_law by fastforce

end

definition list_repr :: "addr \<Rightarrow> 'a list \<Rightarrow> 'a list_heap \<Rightarrow> bool" where
  "list_repr L vs h \<longleftrightarrow> (\<exists>xs. is_list L xs vs h)"

lemma new_mem: "fst (new m) \<or> False \<in> set m"
  by (cases m rule: new.cases) auto

interpretation ll: deque "list_repr L" "AddHead L" "AddTail L" "Head L" "Tail L" "PopHead L" "PopTail L" "IsEmpty L" for L
proof
  fix vs :: "'a list" and v m h
  show "\<exists>ok s' m'. AddHead L v m h = (ok, s', m') \<and> list_repr L (if ok then v # vs else vs) s' \<and> (ok \<or> False \<in> set m)"
    if "list_repr L vs h"
  proof -
    from that obtain xs where l: "is_list L xs vs h" by (auto simp: list_repr_def)
    show ?thesis using AddHead_list_ok [OF l, of m v] new_mem [of m] l
      by (cases "fst (new m)") (auto simp: list_repr_def)
  qed
  show "\<exists>ok s' m'. AddTail L v m h = (ok, s', m') \<and> list_repr L (if ok then vs @ [v] else vs) s' \<and> (ok \<or> False \<in> set m)"
    if "list_repr L vs h"
  proof -
    from that obtain xs where l: "is_list L xs vs h" by (auto simp: list_repr_def)
    show ?thesis using AddTail_list_ok [OF l, of m v] new_mem [of m] l
      by (cases "fst (new m)") (auto simp: list_repr_def)
  qed
  show "Head L h = Some v \<and> (\<exists>s'. PopHead L h = Some s' \<and> list_repr L vs s')" if r: "list_repr L (v # vs) h"
  proof -
    from r obtain xs where l: "is_list L xs (v # vs) h" by (auto simp: list_repr_def)
    then obtain b ys where "xs = b # ys" using is_list_length [OF l] by (cases xs) auto
    with PopHead_list_ok [of L b ys v vs h] l show ?thesis by (auto simp: list_repr_def)
  qed
  show "Tail L h = Some v \<and> (\<exists>s'. PopTail L h = Some s' \<and> list_repr L vs s')" if r: "list_repr L (vs @ [v]) h"
  proof -
    from r obtain xs where l: "is_list L xs (vs @ [v]) h" by (auto simp: list_repr_def)
    then obtain b ys where "xs = ys @ [b]" using is_list_length [OF l] by (cases xs rule: rev_cases) auto
    with PopTail_list_ok [of L ys b vs v h] l show ?thesis by (auto simp: list_repr_def)
  qed
  show "PopHead L h = None \<and> PopTail L h = None \<and> Head L h = None \<and> Tail L h = None" if "list_repr L [] h"
    using that is_list_empty [of L _ "[]" h]
    by (auto simp: list_repr_def PopHead_def PopTail_def Head_def Tail_def)
  show "IsEmpty L h \<longleftrightarrow> vs = []" if "list_repr L vs h"
    using that is_list_empty [of L _ vs h] by (auto simp: list_repr_def IsEmpty_def)
qed


section \<open>Properties\<close>

text \<open>Two lists for the examples, built by the code in an empty heap.\<close>

definition sample_heap :: "nat list_heap" where
  "sample_heap = push_all (AddTail 1) [30, 40] (push_all (AddTail 0) [10, 20]
     (LinkedList 1 (LinkedList 0 \<lparr>Flink = (\<lambda>_. 0), Blink = (\<lambda>_. 0), Node = Map.empty, Fresh = 2\<rparr>)))"

lemma sample_lists: "is_list 0 [2, 3] [10, 20] sample_heap" "is_list 1 [4, 5] [30, 40] sample_heap"
  by (simp_all add: sample_heap_def LinkedList_def InitializeListHead_def AddTail_def new_node_def InsertTailList_def
      is_list_def ring_def Let_def)

text \<open>
  The linked list implements a double-ended queue in the heap: adding at either end succeeds
  exactly when the allocation does and otherwise changes nothing; the two ends are read and removed
  as in the sequence of values; and an operation on one list leaves every other list of the heap, its
  links, nodes and values, as it was.
\<close>

theorem linked_list_deque:
  assumes l: "is_list L xs vs h" and other: "is_list M ys ws h" "set (L # xs) \<inter> set (M # ys) = {}"
  shows "(\<exists>h' xs'. AddTail L v m h = (fst (new m), h', snd (new m)) \<and>
      is_list L xs' (if fst (new m) then vs @ [v] else vs) h' \<and> is_list M ys ws h') \<and>
    (\<exists>h' xs'. AddHead L v m h = (fst (new m), h', snd (new m)) \<and>
      is_list L xs' (if fst (new m) then v # vs else vs) h' \<and> is_list M ys ws h') \<and>
    (vs = w # us \<longrightarrow> Head L h = Some w \<and>
      (\<exists>h'. PopHead L h = Some h' \<and> is_list L (tl xs) us h' \<and> is_list M ys ws h')) \<and>
    (vs = us @ [w] \<longrightarrow> Tail L h = Some w \<and>
      (\<exists>h'. PopTail L h = Some h' \<and> is_list L (butlast xs) us h' \<and> is_list M ys ws h')) \<and>
    (IsEmpty L h \<longleftrightarrow> vs = [])"
proof (intro conjI impI)
  have keep: "is_list M ys ws h'" if "frame (set (L # xs)) h h'" for h'
    using is_list_frame [OF that other(2,1)] .
  show "\<exists>h' xs'. AddTail L v m h = (fst (new m), h', snd (new m)) \<and>
      is_list L xs' (if fst (new m) then vs @ [v] else vs) h' \<and> is_list M ys ws h'"
    using AddTail_list_ok [OF l, of m v] keep l other(1) by (cases "fst (new m)") auto
  show "\<exists>h' xs'. AddHead L v m h = (fst (new m), h', snd (new m)) \<and>
      is_list L xs' (if fst (new m) then v # vs else vs) h' \<and> is_list M ys ws h'"
    using AddHead_list_ok [OF l, of m v] keep l other(1) by (cases "fst (new m)") auto
  note len = is_list_length [OF l]
  show "Head L h = Some w" "\<exists>h'. PopHead L h = Some h' \<and> is_list L (tl xs) us h' \<and> is_list M ys ws h'"
    if "vs = w # us"
    using PopHead_list_ok [of L "hd xs" "tl xs" w us h] l len that keep by (cases xs; auto)+
  show "Tail L h = Some w" "\<exists>h'. PopTail L h = Some h' \<and> is_list L (butlast xs) us h' \<and> is_list M ys ws h'"
    if "vs = us @ [w]"
    using PopTail_list_ok [of L "butlast xs" "last xs" us w h] l len that keep
    by (cases xs rule: rev_cases; auto)+
  show "IsEmpty L h \<longleftrightarrow> vs = []" using is_list_empty [OF l] by (simp add: IsEmpty_def)
qed

theorem linked_list_deque_witness:
  "\<exists>h' xs'. AddTail 0 50 [True] sample_heap = (True, h', []) \<and> is_list 0 xs' [10, 20, 50] h' \<and>
    is_list 1 [4, 5] [30, 40] h' \<and> Head 0 sample_heap = Some 10 \<and> Tail 0 sample_heap = Some 20"
proof -
  have dj: "set [0, 2, 3 :: nat] \<inter> set [1, 4, 5] = {}" by simp
  show ?thesis
    using linked_list_deque [OF sample_lists dj, of 50 "[True]" 10 "[20]"]
      linked_list_deque [OF sample_lists dj, of 50 "[True]" 20 "[10]"] by auto
qed

text \<open>
  Appending one list to another moves all nodes in order and leaves the source empty; a
  release terminates, frees exactly the nodes of the list (none is freed twice, none leaks) and leaves
  other lists alone; move assignment frees the old content and takes over the other list.
\<close>

theorem linked_list_splice_release:
  assumes l: "is_list L xs vs h" and other: "is_list M ys ws h" "set (L # xs) \<inter> set (M # ys) = {}"
  shows "is_list L (xs @ ys) (vs @ ws) (AddTail_list L M h) \<and> is_list M [] [] (AddTail_list L M h) \<and>
    (\<exists>h'. Release L h = Some h' \<and> is_list L [] [] h' \<and> (\<forall>a \<in> set xs. Node h' a = None) \<and> is_list M ys ws h') \<and>
    (\<exists>h'. move_assign L M h = Some h' \<and> is_list L ys ws h' \<and> is_list M [] [] h')"
proof (intro conjI)
  show "is_list L (xs @ ys) (vs @ ws) (AddTail_list L M h)" "is_list M [] [] (AddTail_list L M h)"
    by (rule AddTail_list_splice [OF l other])+
  from Release_list_ok [OF l] obtain h' where
    r: "Release L h = Some h'" "is_list L [] [] h'" "frame (set (L # xs)) h h'" "\<forall>a \<in> set xs. Node h' a = None" by blast
  have m: "is_list M ys ws h'" by (rule is_list_frame [OF r(3) other(2,1)])
  with r show "\<exists>h'. Release L h = Some h' \<and> is_list L [] [] h' \<and> (\<forall>a \<in> set xs. Node h' a = None) \<and> is_list M ys ws h'"
    by blast
  let ?h = "InitializeListHead L h'"
  have i: "is_list L [] [] ?h" "frame {L} h' ?h"
    using r(2) InitializeListHead_ring(1) [of L h']
    by (auto simp: is_list_def InitializeListHead_def frame_def)
  have m2: "is_list M ys ws ?h" using is_list_frame [OF i(2) _ m] other(2) by auto
  have dj: "set [L] \<inter> set (M # ys) = {}" using other(2) by auto
  show "\<exists>h'. move_assign L M h = Some h' \<and> is_list L ys ws h' \<and> is_list M [] [] h'"
    using AddTail_list_splice(1,2) [OF i(1) m2 dj] r(1) other(2) by (auto simp: move_assign_def)
qed

theorem linked_list_splice_release_witness:
  "is_list 0 ([2, 3] @ [4, 5]) ([10, 20] @ [30, 40]) (AddTail_list 0 1 sample_heap) \<and>
   is_list 1 [] [] (AddTail_list 0 1 sample_heap) \<and>
   (\<exists>h'. Release 0 sample_heap = Some h' \<and> is_list 0 [] [] h' \<and> Node h' 2 = None \<and> is_list 1 [4, 5] [30, 40] h')"
proof -
  have dj: "set [0, 2, 3 :: nat] \<inter> set [1, 4, 5] = {}" by simp
  show ?thesis using linked_list_splice_release [OF sample_lists dj] by auto
qed

text \<open>
  The iterator visits the values in order and stops after the last one, so counting
  terminates with the length; erasing at the current position removes exactly that value, frees its
  node, and leaves the iterator on the next one. Values pushed at the tail are popped from the head in
  the same order.
\<close>

theorem linked_list_iterator:
  assumes "is_list L xs vs h"
  shows "walk (GetIterator L h) h = Some vs \<and> Count L h = Some (length vs) \<and>
    (i < length vs \<longrightarrow> (\<exists>it' h'. It_Erase (at_pos L xs i) h = Some (it', h') \<and>
      is_list L (take i xs @ drop (Suc i) xs) (take i vs @ drop (Suc i) vs) h' \<and> Node h' (xs ! i) = None \<and>
      walk it' h' = Some (drop (Suc i) vs))) \<and>
    (vs = [] \<longrightarrow> (\<exists>h'. pop_all (Head L) (PopHead L) (length us) (push_all (AddTail L) us h) = Some (us, h') \<and>
      IsEmpty L h'))"
proof (intro conjI impI)
  have r: "ring h (L # xs)" using assms by (simp add: is_list_def)
  show "walk (GetIterator L h) h = Some vs" "Count L h = Some (length vs)"
    using walk_from [OF assms le0] is_list_length [OF assms] by (simp_all add: GetIterator_pos [OF r] Count_def)
  show "\<exists>it' h'. It_Erase (at_pos L xs i) h = Some (it', h') \<and>
      is_list L (take i xs @ drop (Suc i) xs) (take i vs @ drop (Suc i) vs) h' \<and> Node h' (xs ! i) = None \<and>
      walk it' h' = Some (drop (Suc i) vs)" if i: "i < length vs"
  proof -
    have ix: "i < length xs" using i is_list_length [OF assms] by simp
    from It_Erase_ok [OF assms ix] obtain h' where
      e: "It_Erase (at_pos L xs i) h = Some (at_pos L (take i xs @ drop (Suc i) xs) i, h')"
        "is_list L (take i xs @ drop (Suc i) xs) (take i vs @ drop (Suc i) vs) h'" "Node h' (xs ! i) = None" by blast
    have "walk (at_pos L (take i xs @ drop (Suc i) xs) i) h' = Some (drop i (take i vs @ drop (Suc i) vs))"
      by (rule walk_from(1) [OF e(2)]) (use ix in simp)
    then show ?thesis using e i by simp
  qed
  show "\<exists>h'. pop_all (Head L) (PopHead L) (length us) (push_all (AddTail L) us h) = Some (us, h') \<and> IsEmpty L h'"
    if "vs = []" using ll.fifo [of L h us] assms that by (auto simp: list_repr_def)
qed

theorem linked_list_iterator_witness:
  "walk (GetIterator 0 sample_heap) sample_heap = Some [10, 20] \<and> Count 0 sample_heap = Some 2 \<and>
   (\<exists>it' h'. It_Erase (at_pos 0 [2, 3] 0) sample_heap = Some (it', h') \<and> walk it' h' = Some [20])"
  using linked_list_iterator [OF sample_lists(1), of 0] by auto

end
