(* ===== verification/Hash_Table.thy ===== *)
theory Hash_Table
  imports Kv_Map Errors
begin

text \<open>
  \<^verbatim>\<open>Core::HashTable\<close> of \<^verbatim>\<open>src/core/hash_table.h\<close>: chained hashing with a fixed number of buckets. A bucket is a
  linked list of entries, represented by the sequence of its values (\<^verbatim>\<open>Linked_List\<close> shows that the list
  class is such a sequence). The hash of a key is a method of the key type, so it is a parameter; the
  bucket locks make every operation atomic.
\<close>

record ('k, 'v) HashTable =
  Bucket :: "('k \<times> 'v) list list"
  EmptyVal :: 'v

definition make_HashTable :: "nat \<Rightarrow> 'v \<Rightarrow> ('k, 'v) HashTable" where
  "make_HashTable bucketCount ev = \<lparr>Bucket = replicate bucketCount [], EmptyVal = ev\<rparr>"

definition bucket_of :: "('k \<Rightarrow> nat) \<Rightarrow> nat \<Rightarrow> 'k \<Rightarrow> nat" where
  "bucket_of hash bucketCount key = hash key mod bucketCount"

text \<open>The scanning loop of the operations: the value of the first entry with the key.\<close>

fun scan :: "'k \<Rightarrow> ('k \<times> 'v) list \<Rightarrow> 'v option" where
  "scan key [] = None"
| "scan key (e # es) = (if fst e = key then Some (snd e) else scan key es)"

text \<open>The same loop in \<^verbatim>\<open>Delete\<close>, which erases the entry it finds.\<close>

fun erase_first :: "'k \<Rightarrow> ('k \<times> 'v) list \<Rightarrow> ('k \<times> 'v) list option" where
  "erase_first key [] = None"
| "erase_first key (e # es) = (if fst e = key then Some es else map_option (Cons e) (erase_first key es))"

text \<open>\<^verbatim>\<open>AddTail\<close> of an entry: refused when the node cannot be allocated.\<close>

definition bucket_add ::
  "nat \<Rightarrow> 'k \<Rightarrow> 'v \<Rightarrow> mem \<Rightarrow> ('k, 'v) HashTable \<Rightarrow> ('k, 'v) HashTable \<times> bool \<times> mem" where
  "bucket_add b key val m t =
     (if fst (new m) then (t\<lparr>Bucket := (Bucket t)[b := Bucket t ! b @ [(key, val)]]\<rparr>, True, snd (new m))
      else (t, False, snd (new m)))"

text \<open>\<^verbatim>\<open>Insert(const K&, const V&)\<close> does not look at the result of \<^verbatim>\<open>AddTail\<close>.\<close>

definition Insert_copy ::
  "('k \<Rightarrow> nat) \<Rightarrow> nat \<Rightarrow> 'k \<Rightarrow> 'v \<Rightarrow> mem \<Rightarrow> ('k, 'v) HashTable \<Rightarrow> ('k, 'v) HashTable \<times> bool \<times> mem" where
  "Insert_copy hash bucketCount key val m t =
     (let b = bucket_of hash bucketCount key in
      if scan key (Bucket t ! b) \<noteq> None then (t, False, m)
      else let (t1, _, m1) = bucket_add b key val m t in (t1, True, m1))"

text \<open>
  \<^verbatim>\<open>Insert(const K&, const V&, Error&)\<close>: copying the key and the value may fail; \<open>copy\<close> is the error these
  copies report.
\<close>

definition Insert_err ::
  "('k \<Rightarrow> nat) \<Rightarrow> nat \<Rightarrow> 'k \<Rightarrow> 'v \<Rightarrow> err \<Rightarrow> err \<Rightarrow> mem \<Rightarrow> ('k, 'v) HashTable
     \<Rightarrow> ('k, 'v) HashTable \<times> bool \<times> err \<times> mem" where
  "Insert_err hash bucketCount key val copy e m t =
     (if e \<noteq> Success then (t, False, e, m)
      else let b = bucket_of hash bucketCount key in
        if scan key (Bucket t ! b) \<noteq> None then (t, False, e, m)
        else if copy \<noteq> Success then (t, False, copy, m)
        else let (t1, r, m1) = bucket_add b key val m t in (t1, r, copy, m1))"

text \<open>\<^verbatim>\<open>Insert(K&&, V&&)\<close>.\<close>

definition Insert_move ::
  "('k \<Rightarrow> nat) \<Rightarrow> nat \<Rightarrow> 'k \<Rightarrow> 'v \<Rightarrow> mem \<Rightarrow> ('k, 'v) HashTable \<Rightarrow> ('k, 'v) HashTable \<times> bool \<times> mem" where
  "Insert_move hash bucketCount key val m t =
     (let b = bucket_of hash bucketCount key in
      if scan key (Bucket t ! b) \<noteq> None then (t, False, m) else bucket_add b key val m t)"

definition Delete_key ::
  "('k \<Rightarrow> nat) \<Rightarrow> nat \<Rightarrow> 'k \<Rightarrow> ('k, 'v) HashTable \<Rightarrow> ('k, 'v) HashTable \<times> bool" where
  "Delete_key hash bucketCount key t =
     (let b = bucket_of hash bucketCount key in
      case erase_first key (Bucket t ! b) of
        None \<Rightarrow> (t, False)
      | Some es \<Rightarrow> (t\<lparr>Bucket := (Bucket t)[b := es]\<rparr>, True))"

definition Lookup_key :: "('k \<Rightarrow> nat) \<Rightarrow> nat \<Rightarrow> 'k \<Rightarrow> ('k, 'v) HashTable \<Rightarrow> 'v \<times> bool" where
  "Lookup_key hash bucketCount key t =
     (case scan key (Bucket t ! bucket_of hash bucketCount key) of
        None \<Rightarrow> (EmptyVal t, False) | Some v \<Rightarrow> (v, True))"

definition CheckExist :: "('k \<Rightarrow> nat) \<Rightarrow> nat \<Rightarrow> 'k \<Rightarrow> ('k, 'v) HashTable \<Rightarrow> bool" where
  "CheckExist hash bucketCount key t \<longleftrightarrow> scan key (Bucket t ! bucket_of hash bucketCount key) \<noteq> None"


section \<open>The map a table stands for\<close>

definition ht_inv :: "('k \<Rightarrow> nat) \<Rightarrow> nat \<Rightarrow> ('k, 'v) HashTable \<Rightarrow> bool" where
  "ht_inv hash n t \<longleftrightarrow> 0 < n \<and> length (Bucket t) = n \<and>
     (\<forall>b < n. distinct (map fst (Bucket t ! b)) \<and> (\<forall>e \<in> set (Bucket t ! b). bucket_of hash n (fst e) = b))"

definition ht_map :: "('k, 'v) HashTable \<Rightarrow> ('k \<rightharpoonup> 'v)" where
  "ht_map t = map_of (concat (Bucket t))"

lemma scan_map_of: "scan k es = map_of es k"
  by (induction es) auto

lemma filter_absent: "k \<notin> fst ` set es \<Longrightarrow> filter (\<lambda>e. fst e \<noteq> k) es = es"
  by (auto simp: filter_id_conv)

lemma map_of_filter_ne: "map_of (filter (\<lambda>e. fst e \<noteq> k) es) k' = (if k' = k then None else map_of es k')"
  by (induction es) auto

lemma erase_first_spec:
  assumes "distinct (map fst es)"
  shows "erase_first k es = (if k \<in> fst ` set es then Some (filter (\<lambda>e. fst e \<noteq> k) es) else None)"
  using assms
proof (induction es)
  case (Cons e es)
  have "filter (\<lambda>e. fst e \<noteq> k) es = es" if "fst e = k" by (rule filter_absent) (use Cons.prems that in auto)
  then show ?case using Cons by auto
qed simp

lemma bucket_lt: "ht_inv hash n t \<Longrightarrow> bucket_of hash n k < length (Bucket t)"
  by (simp add: ht_inv_def bucket_of_def)

text \<open>A key can only be in its own bucket.\<close>

lemma map_of_concat_bucket:
  assumes "b < length bs" "\<And>i. i < length bs \<Longrightarrow> i \<noteq> b \<Longrightarrow> k \<notin> fst ` set (bs ! i)"
  shows "map_of (concat bs) k = map_of (bs ! b) k"
proof -
  have bs: "bs = take b bs @ bs ! b # drop (Suc b) bs" using assms(1) by (simp add: id_take_nth_drop)
  have "k \<notin> fst ` set x" if x: "x \<in> set (take b bs) \<union> set (drop (Suc b) bs)" for x
  proof -
    from x obtain i where "i < length bs" "i \<noteq> b" "x = bs ! i"
    proof
      assume "x \<in> set (take b bs)"
      then obtain i where "i < b" "i < length bs" "x = bs ! i" by (auto simp: in_set_conv_nth)
      then show thesis using that by blast
    next
      assume "x \<in> set (drop (Suc b) bs)"
      then obtain i where "i < length bs - Suc b" "x = bs ! (Suc b + i)" by (auto simp: in_set_conv_nth)
      then show thesis using that [of "Suc b + i"] by simp
    qed
    then show ?thesis using assms(2) by blast
  qed
  then have "k \<notin> fst ` set (concat (take b bs))" "k \<notin> fst ` set (concat (drop (Suc b) bs))"
    by (simp_all add: image_Union)
  then have "map_of (concat (take b bs)) k = None" "map_of (concat (drop (Suc b) bs)) k = None"
    by (auto simp: map_of_eq_None_iff)
  then show ?thesis by (subst bs) (simp add: map_add_def split: option.split)
qed

lemma ht_map_bucket:
  assumes "ht_inv hash n t"
  shows "ht_map t k = map_of (Bucket t ! bucket_of hash n k) k"
  unfolding ht_map_def
proof (rule map_of_concat_bucket [OF bucket_lt [OF assms]])
  fix i assume "i < length (Bucket t)" "i \<noteq> bucket_of hash n k"
  then show "k \<notin> fst ` set (Bucket t ! i)" using assms by (auto simp: ht_inv_def)
qed

lemma ht_inv_update:
  assumes "ht_inv hash n t" "b < n" "distinct (map fst es)" "\<forall>e \<in> set es. bucket_of hash n (fst e) = b"
  shows "ht_inv hash n (t\<lparr>Bucket := (Bucket t)[b := es]\<rparr>)"
  using assms by (auto simp: ht_inv_def nth_list_update)

lemma ht_map_update:
  assumes inv: "ht_inv hash n t" "ht_inv hash n (t\<lparr>Bucket := (Bucket t)[bucket_of hash n k := es]\<rparr>)"
    and es: "\<And>k'. k' \<noteq> k \<Longrightarrow> map_of es k' = map_of (Bucket t ! bucket_of hash n k) k'"
  shows "ht_map (t\<lparr>Bucket := (Bucket t)[bucket_of hash n k := es]\<rparr>) = (ht_map t)(k := map_of es k)"
proof
  fix k'
  show "ht_map (t\<lparr>Bucket := (Bucket t)[bucket_of hash n k := es]\<rparr>) k' = ((ht_map t)(k := map_of es k)) k'"
    using ht_map_bucket [OF inv(1), of k'] ht_map_bucket [OF inv(2), of k'] bucket_lt [OF inv(1), of k] es [of k']
    by (cases "bucket_of hash n k' = bucket_of hash n k") (auto simp: nth_list_update)
qed

lemma bucket_add_ok:
  assumes inv: "ht_inv hash n t" and new: "ht_map t k = None"
  shows "\<exists>t' r m'. bucket_add (bucket_of hash n k) k v m t = (t', r, m') \<and> ht_inv hash n t' \<and>
    ht_map t' = (if r then (ht_map t)(k \<mapsto> v) else ht_map t) \<and> (r \<longleftrightarrow> fst (Prelude.new m))"
proof (cases "fst (Prelude.new m)")
  case True
  let ?b = "bucket_of hash n k" let ?es = "Bucket t ! ?b @ [(k, v)]"
  have b: "?b < n" using bucket_lt [OF inv, of k] inv by (simp add: ht_inv_def)
  have none: "map_of (Bucket t ! ?b) k = None" using new ht_map_bucket [OF inv] by simp
  then have "distinct (map fst ?es)" "\<forall>e \<in> set ?es. bucket_of hash n (fst e) = ?b"
    using inv b by (auto simp: ht_inv_def map_of_eq_None_iff)
  from ht_inv_update [OF inv b this] have i: "ht_inv hash n (t\<lparr>Bucket := (Bucket t)[?b := ?es]\<rparr>)" .
  have "ht_map (t\<lparr>Bucket := (Bucket t)[?b := ?es]\<rparr>) = (ht_map t)(k := map_of ?es k)"
    by (rule ht_map_update [OF inv i]) (auto simp: map_add_def split: option.split)
  then show ?thesis using True i none by (auto simp: bucket_add_def map_add_def)
qed (use inv in \<open>auto simp: bucket_add_def\<close>)

lemma new_fail: "\<not> fst (Prelude.new m) \<Longrightarrow> False \<in> set m"
  by (cases m rule: new.cases) auto

lemma Insert_move_ok:
  assumes inv: "ht_inv hash n t"
  shows "\<exists>t' r m'. Insert_move hash n k v m t = (t', r, m') \<and> ht_inv hash n t' \<and>
    ht_map t' = (if r then (ht_map t)(k \<mapsto> v) else ht_map t) \<and>
    (r \<longrightarrow> ht_map t k = None) \<and> (\<not> r \<longrightarrow> ht_map t k \<noteq> None \<or> False \<in> set m)"
proof (cases "ht_map t k")
  case None
  then have e: "Insert_move hash n k v m t = bucket_add (bucket_of hash n k) k v m t"
    using ht_map_bucket [OF inv, of k] by (simp add: Insert_move_def scan_map_of)
  from bucket_add_ok [OF inv None, of v m] obtain t' r m' where
    "bucket_add (bucket_of hash n k) k v m t = (t', r, m')" "ht_inv hash n t'"
    "ht_map t' = (if r then (ht_map t)(k \<mapsto> v) else ht_map t)" "r \<longleftrightarrow> fst (Prelude.new m)" by blast
  then show ?thesis unfolding e using None new_fail [of m] by auto
next
  case (Some w)
  then show ?thesis using inv ht_map_bucket [OF inv, of k] by (auto simp: Insert_move_def scan_map_of)
qed

lemma Delete_key_ok:
  assumes inv: "ht_inv hash n t"
  shows "\<exists>t'. Delete_key hash n k t = (t', ht_map t k \<noteq> None) \<and> ht_inv hash n t' \<and> ht_map t' = (ht_map t)(k := None)"
proof -
  let ?b = "bucket_of hash n k" let ?B = "Bucket t ! ?b" let ?es = "filter (\<lambda>e. fst e \<noteq> k) ?B"
  have b: "?b < n" using bucket_lt [OF inv, of k] inv by (simp add: ht_inv_def)
  have d: "distinct (map fst ?B)" "\<forall>e \<in> set ?B. bucket_of hash n (fst e) = ?b" using inv b by (auto simp: ht_inv_def)
  note er = erase_first_spec [OF d(1), of k] and m = ht_map_bucket [OF inv, of k]
  show ?thesis
  proof (cases "k \<in> fst ` set ?B")
    case False
    then have "ht_map t k = None" using m by (simp add: map_of_eq_None_iff)
    then show ?thesis using False er inv by (auto simp: Delete_key_def)
  next
    case True
    have i: "ht_inv hash n (t\<lparr>Bucket := (Bucket t)[?b := ?es]\<rparr>)"
      by (rule ht_inv_update [OF inv b]) (use d in \<open>auto simp: distinct_map_filter\<close>)
    note f = map_of_filter_ne [of k ?B]
    have "ht_map (t\<lparr>Bucket := (Bucket t)[?b := ?es]\<rparr>) = (ht_map t)(k := map_of ?es k)"
      by (rule ht_map_update [OF inv i]) (simp add: f)
    moreover have "ht_map t k \<noteq> None" using True m by (simp add: map_of_eq_None_iff)
    ultimately show ?thesis using True er i f by (auto simp: Delete_key_def Let_def)
  qed
qed


lemma Lookup_key_ok:
  assumes "ht_inv hash n t"
  shows "Lookup_key hash n k t = (case ht_map t k of None \<Rightarrow> (EmptyVal t, False) | Some v \<Rightarrow> (v, True))"
    "CheckExist hash n k t \<longleftrightarrow> ht_map t k \<noteq> None"
  using ht_map_bucket [OF assms, of k] by (simp_all add: Lookup_key_def CheckExist_def scan_map_of)

lemma make_HashTable_inv [simp]: "0 < n \<Longrightarrow> ht_inv hash n (make_HashTable n ev)" "ht_map (make_HashTable n ev) = Map.empty"
  by (simp_all add: ht_inv_def make_HashTable_def ht_map_def)

interpretation ht: kv_map "ht_inv hash n" ht_map "\<lambda>k v m t. Some (Insert_move hash n k v m t)"
  "\<lambda>k t. Some (Delete_key hash n k t)" "\<lambda>k t. Some (Lookup_key hash n k t)" for hash n
proof
  fix t :: "('a, 'b) HashTable" and k v m
  assume t: "ht_inv hash n t"
  show "\<exists>s' r m'. Some (Insert_move hash n k v m t) = Some (s', r, m') \<and> ht_inv hash n s' \<and>
      ht_map s' = (if r then (ht_map t)(k \<mapsto> v) else ht_map t) \<and>
      (r \<longrightarrow> ht_map t k = None) \<and> (\<not> r \<longrightarrow> ht_map t k \<noteq> None \<or> False \<in> set m)"
    using Insert_move_ok [OF t, of k v m] by simp
  show "\<exists>s'. Some (Delete_key hash n k t) = Some (s', ht_map t k \<noteq> None) \<and> ht_inv hash n s' \<and>
      ht_map s' = (ht_map t)(k := None)"
    using Delete_key_ok [OF t, of k] by simp
  show "\<exists>w. Some (Lookup_key hash n k t) = Some (case ht_map t k of None \<Rightarrow> (w, False) | Some v \<Rightarrow> (v, True))"
    using Lookup_key_ok(1) [OF t, of k] by auto
qed


section \<open>Properties\<close>

text \<open>
  Claim C20. For every hash function and every positive number of buckets the table behaves as a map:
  any sequence of moving insertions and deletions on a new table gives the results of the map and leaves
  the table in a state where lookups and existence tests agree with it.
\<close>

theorem hash_table_refines_map:
  fixes ops :: "('k, 'v) kv_op list"
  assumes "0 < n"
  shows "\<exists>t. kv_run (\<lambda>k v m t. Some (Insert_move hash n k v m t)) (\<lambda>k t. Some (Delete_key hash n k t)) ops
      (make_HashTable n ev) = Some (t, snd (kv_spec ops Map.empty)) \<and> ht_inv hash n t \<and>
    (\<forall>k. (CheckExist hash n k t \<longleftrightarrow> fst (kv_spec ops Map.empty) k \<noteq> None) \<and>
      Lookup_key hash n k t = (case fst (kv_spec ops Map.empty) k of None \<Rightarrow> (EmptyVal t, False) | Some v \<Rightarrow> (v, True)))"
proof -
  from ht.run_refines [OF make_HashTable_inv(1) [OF assms], of hash ops ev] obtain t where
    t: "kv_run (\<lambda>k v m t. Some (Insert_move hash n k v m t)) (\<lambda>k t. Some (Delete_key hash n k t)) ops
      (make_HashTable n ev) = Some (t, snd (kv_spec ops Map.empty))" "ht_inv hash n t"
      "ht_map t = fst (kv_spec ops Map.empty)" by auto
  then show ?thesis using Lookup_key_ok [OF t(2)] by auto
qed

theorem hash_table_refines_map_witness:
  "\<exists>t. kv_run (\<lambda>k v m t. Some (Insert_move id 2 k v m t)) (\<lambda>k t. Some (Delete_key id 2 k t))
      [Ins 1 (10::nat), Ins 3 20, Del 1, Ins 3 30] (make_HashTable 2 0) = Some (t, [True, True, True, False]) \<and>
    CheckExist id 2 3 t"
  using hash_table_refines_map [of 2 id "[Ins 1 (10::nat), Ins 3 20, Del 1, Ins 3 30]" 0] by fastforce

text \<open>
  The copying insertion reports success although the entry was not added when its allocation
  fails: a lookup after it does not find the key. The moving insertion reports that failure.
\<close>

theorem hash_table_insert_copy_hides_failure:
  assumes "ht_inv hash n t" "ht_map t k = None" "\<not> fst (new m)"
  shows "Insert_copy hash n k v m t = (t, True, snd (new m)) \<and> \<not> CheckExist hash n k t \<and>
    Insert_move hash n k v m t = (t, False, snd (new m))"
  using assms Lookup_key_ok(2) [OF assms(1), of k] ht_map_bucket [OF assms(1), of k]
  by (simp add: Insert_copy_def Insert_move_def bucket_add_def scan_map_of)

theorem hash_table_insert_copy_hides_failure_witness:
  "Insert_copy id 1 (5::nat) True [False] (make_HashTable 1 False) = (make_HashTable 1 False, True, []) \<and>
   \<not> CheckExist id 1 5 (make_HashTable 1 False)"
  using hash_table_insert_copy_hides_failure [of id 1 "make_HashTable 1 False" 5 "[False]" True] by simp

end
