(* ===== verification/Byte_Order.thy ===== *)
theory Byte_Order
  imports Prelude
begin

unbundle bit_operations_syntax

text \<open>
  Machine words in memory. The storage formats of the program are little-endian on every host: a value is
  converted by the functions of \<^verbatim>\<open>src/core/bitops.cpp\<close> before it is stored in a packed structure and
  after it is loaded. The byte order of the host is a parameter of the loads, the stores and the
  conversions, and the facts below say that it cancels.
\<close>

datatype host = BigEndian | LittleEndian

section \<open>Values of byte sequences\<close>

text \<open>The value of a sequence of bytes, least significant byte first, at a given width.\<close>

fun le_value :: "bytes \<Rightarrow> 'a::len word" where
  "le_value [] = 0"
| "le_value (b # bs) = ucast b OR push_bit 8 (le_value bs)"

text \<open>The lowest \<open>n\<close> bytes of a word, least significant byte first.\<close>

fun le_bytes :: "nat \<Rightarrow> 'a::len word \<Rightarrow> bytes" where
  "le_bytes 0 x = []"
| "le_bytes (Suc n) x = ucast x # le_bytes n (drop_bit 8 x)"

definition load32 :: "host \<Rightarrow> bytes \<Rightarrow> uint32_t" where
  "load32 host p = (case host of LittleEndian \<Rightarrow> le_value (take 4 p) | BigEndian \<Rightarrow> le_value (rev (take 4 p)))"

definition load64 :: "host \<Rightarrow> bytes \<Rightarrow> uint64_t" where
  "load64 host p = (case host of LittleEndian \<Rightarrow> le_value (take 8 p) | BigEndian \<Rightarrow> le_value (rev (take 8 p)))"

definition store32 :: "host \<Rightarrow> uint32_t \<Rightarrow> bytes" where
  "store32 host x = (case host of LittleEndian \<Rightarrow> le_bytes 4 x | BigEndian \<Rightarrow> rev (le_bytes 4 x))"

definition store64 :: "host \<Rightarrow> uint64_t \<Rightarrow> bytes" where
  "store64 host x = (case host of LittleEndian \<Rightarrow> le_bytes 8 x | BigEndian \<Rightarrow> rev (le_bytes 8 x))"

section \<open>Conversions\<close>

text \<open>The kernel's conversions: the identity on a little-endian host, a byte swap on the other.\<close>

definition swab32 :: "uint32_t \<Rightarrow> uint32_t" where
  "swab32 x = le_value (rev (le_bytes 4 x))"

definition swab64 :: "uint64_t \<Rightarrow> uint64_t" where
  "swab64 x = le_value (rev (le_bytes 8 x))"

definition CpuToLe32 :: "host \<Rightarrow> uint32_t \<Rightarrow> uint32_t" where
  "CpuToLe32 host x = (case host of LittleEndian \<Rightarrow> x | BigEndian \<Rightarrow> swab32 x)"

definition Le32ToCpu :: "host \<Rightarrow> uint32_t \<Rightarrow> uint32_t" where
  "Le32ToCpu host x = (case host of LittleEndian \<Rightarrow> x | BigEndian \<Rightarrow> swab32 x)"

definition CpuToLe64 :: "host \<Rightarrow> uint64_t \<Rightarrow> uint64_t" where
  "CpuToLe64 host x = (case host of LittleEndian \<Rightarrow> x | BigEndian \<Rightarrow> swab64 x)"

definition Le64ToCpu :: "host \<Rightarrow> uint64_t \<Rightarrow> uint64_t" where
  "Le64ToCpu host x = (case host of LittleEndian \<Rightarrow> x | BigEndian \<Rightarrow> swab64 x)"

section \<open>Facts\<close>

lemma bit_le_value:
  "bit (le_value bs :: 'a::len word) n \<longleftrightarrow> n < LENGTH('a) \<and> n div 8 < length bs \<and> bit (bs ! (n div 8)) (n mod 8)"
proof (induction bs arbitrary: n)
  case (Cons b bs)
  show ?case
  proof (cases "n < 8")
    case True
    then show ?thesis by (auto simp: bit_simps)
  next
    case False
    then obtain m where n: "n = m + 8" using le_Suc_ex [of 8 n] by (auto simp: add.commute)
    have "\<not> bit b (m + 8)" by (auto dest: bit_imp_le_length)
    moreover have "(m + 8) div 8 = Suc (m div 8)" by simp
    ultimately show ?thesis by (auto simp add: n bit_simps Cons.IH)
  qed
qed simp

lemma length_le_bytes [simp]: "length (le_bytes n x) = n"
  by (induction n arbitrary: x) simp_all

lemma nth_le_bytes: "i < n \<Longrightarrow> le_bytes n x ! i = ucast (drop_bit (8 * i) x)"
  by (induction n arbitrary: x i) (auto simp: less_Suc_eq_0_disj drop_bit_drop_bit add.commute)

lemma le_value_bytes:
  assumes "LENGTH('a) = 8 * n"
  shows "le_value (le_bytes n x) = (x :: 'a::len word)"
proof (rule bit_word_eqI)
  fix k assume "k < LENGTH('a)"
  then have k: "k < LENGTH('a)" "k div 8 < n" using assms by auto
  then show "bit (le_value (le_bytes n x) :: 'a word) k = bit x k"
    by (simp add: bit_le_value nth_le_bytes bit_simps)
qed

lemma le_bytes_value:
  assumes "LENGTH('a) = 8 * length bs"
  shows "le_bytes (length bs) (le_value bs :: 'a::len word) = bs"
proof (rule nth_equalityI)
  fix i assume "i < length (le_bytes (length bs) (le_value bs :: 'a word))"
  then have i: "i < length bs" by simp
  show "le_bytes (length bs) (le_value bs :: 'a word) ! i = bs ! i"
  proof (rule bit_word_eqI)
    fix k assume k: "k < LENGTH(8)"
    then have "(8 * i + k) div 8 = i" "(8 * i + k) mod 8 = k" "8 * i + k < LENGTH('a)" using i assms by auto
    then show "bit (le_bytes (length bs) (le_value bs :: 'a word) ! i) k = bit (bs ! i) k"
      using i k by (simp add: nth_le_bytes bit_simps bit_le_value)
  qed
qed simp

lemma swab32_rev: "length p = 4 \<Longrightarrow> swab32 (le_value (rev p)) = le_value p"
  using le_bytes_value [where ?'a = 32, of "rev p"] by (simp add: swab32_def)

lemma swab64_rev: "length p = 8 \<Longrightarrow> swab64 (le_value (rev p)) = le_value p"
  using le_bytes_value [where ?'a = 64, of "rev p"] by (simp add: swab64_def)

lemma store32_le [simp]: "store32 host (CpuToLe32 host x) = le_bytes 4 x"
  using le_bytes_value [where ?'a = 32, of "rev (le_bytes 4 x)"]
  by (simp add: store32_def CpuToLe32_def swab32_def split: host.split)

lemma store64_le [simp]: "store64 host (CpuToLe64 host x) = le_bytes 8 x"
  using le_bytes_value [where ?'a = 64, of "rev (le_bytes 8 x)"]
  by (simp add: store64_def CpuToLe64_def swab64_def split: host.split)

lemma load32_le: "4 \<le> length p \<Longrightarrow> Le32ToCpu host (load32 host p) = le_value (take 4 p)"
  by (simp add: load32_def Le32ToCpu_def swab32_rev split: host.split)

lemma load64_le: "8 \<le> length p \<Longrightarrow> Le64ToCpu host (load64 host p) = le_value (take 8 p)"
  by (simp add: load64_def Le64ToCpu_def swab64_rev split: host.split)

lemma load_store32 [simp]: "load32 host (store32 host x @ p) = x"
  by (simp add: load32_def store32_def le_value_bytes split: host.split)

lemma load_store64 [simp]: "load64 host (store64 host x @ p) = x"
  by (simp add: load64_def store64_def le_value_bytes split: host.split)

lemma length_store [simp]: "length (store32 host x) = 4" "length (store64 host y) = 8"
  by (simp_all add: store32_def store64_def split: host.split)

lemma le_bytes4_value [simp]: "le_value (le_bytes 4 x) = (x :: uint32_t)"
  by (simp add: le_value_bytes)

lemma le_bytes8_value [simp]: "le_value (le_bytes 8 x) = (x :: uint64_t)"
  by (simp add: le_value_bytes)

end
