(* ===== verification/Streaming.thy ===== *)
theory Streaming
  imports Prelude
begin

text \<open>
  Hashing a message in pieces. The incremental hashes of \<^verbatim>\<open>src/core/xxhash.cpp\<close> and \<^verbatim>\<open>src/core/sha256.cpp\<close> follow one scheme: whole
  stripes are absorbed as soon as they are complete, the rest is kept. The locale states what the scheme needs of a hash and proves that the result
  does not depend on how the message is cut.
\<close>

fun absorb :: "nat \<Rightarrow> ('v \<Rightarrow> bytes \<Rightarrow> 'v) \<Rightarrow> nat \<Rightarrow> 'v \<Rightarrow> bytes \<Rightarrow> 'v" where
  "absorb W stripe 0 v p = v"
| "absorb W stripe (Suc n) v p = absorb W stripe n (stripe v p) (drop W p)"

definition feed :: "nat \<Rightarrow> ('v \<Rightarrow> bytes \<Rightarrow> 'v) \<Rightarrow> ('v \<Rightarrow> bytes \<Rightarrow> 'v \<times> bytes) \<Rightarrow> 'v \<Rightarrow> bytes \<Rightarrow> bytes \<Rightarrow> 'v \<times> bytes" where
  "feed W stripe stripes v buf input =
     (if length buf + length input < W then (v, buf @ input)
      else
        let n = W - length buf;
            (v, p) = (if buf \<noteq> [] then (stripe v (buf @ take n input), drop n input) else (v, input))
        in if W \<le> length p then stripes v p else (v, p))"

definition digests :: "nat \<Rightarrow> ('v \<Rightarrow> bytes \<Rightarrow> 'v) \<Rightarrow> 'v \<Rightarrow> bytes \<Rightarrow> 'v \<Rightarrow> bytes \<Rightarrow> bool" where
  "digests W stripe v0 msg v buf \<longleftrightarrow>
     v = absorb W stripe (length msg div W) v0 msg \<and> buf = drop (W * (length msg div W)) msg"

locale stripe_hash =
  fixes W :: nat and stripe :: "'v \<Rightarrow> bytes \<Rightarrow> 'v" and stripes :: "'v \<Rightarrow> bytes \<Rightarrow> 'v \<times> bytes"
  assumes width: "0 < W"
    and stripe_local: "W \<le> length p \<Longrightarrow> stripe v (p @ q) = stripe v p"
    and stripes_step: "stripes v p =
      (if W \<le> length (drop W p) then stripes (stripe v p) (drop W p) else (stripe v p, drop W p))"
begin

lemma stripes_absorb:
  assumes "W \<le> length p"
  shows "stripes v p = (absorb W stripe (length p div W) v p, drop (W * (length p div W)) p)"
  using assms
proof (induction "length p" arbitrary: v p rule: less_induct)
  case less
  have d: "length p div W = Suc ((length p - W) div W)" using less.prems width by (simp add: le_div_geq)
  show ?case
  proof (cases "W \<le> length p - W")
    case True
    then have "stripes (stripe v p) (drop W p) =
        (absorb W stripe (length (drop W p) div W) (stripe v p) (drop W p),
         drop (W * (length (drop W p) div W)) (drop W p))"
      using less.prems width by (intro less.hyps) auto
    then show ?thesis using True by (subst stripes_step) (simp add: d algebra_simps)
  next
    case False
    then have "(length p - W) div W = 0" by simp
    then show ?thesis using False by (subst stripes_step) (simp add: d)
  qed
qed

lemma absorb_append: "W * m \<le> length p \<Longrightarrow> absorb W stripe m v (p @ q) = absorb W stripe m v p"
proof (induction m arbitrary: v p)
  case (Suc m)
  then show ?case using stripe_local [of p v q] by simp
qed simp

lemma absorb_plus:
  "absorb W stripe (m + n) v p = absorb W stripe n (absorb W stripe m v p) (drop (W * m) p)"
  by (induction m arbitrary: v p) (simp_all add: algebra_simps)

lemma feed_digests:
  assumes "digests W stripe v0 msg v buf"
  shows "case feed W stripe stripes v buf input of (v', buf') \<Rightarrow> digests W stripe v0 (msg @ input) v' buf'"
proof -
  let ?m = "length msg div W"
  have v: "v = absorb W stripe ?m v0 msg" and buf: "buf = drop (W * ?m) msg"
    using assms by (auto simp: digests_def)
  have le: "W * ?m \<le> length msg" by simp
  have lb: "length buf = length msg mod W" by (simp add: buf minus_mult_div_eq_mod)
  have lt: "length buf < W" using lb width by simp
  let ?all = "msg @ input"
  have rest: "drop (W * ?m) ?all = buf @ input" using le by (simp add: buf)
  have total: "absorb W stripe (?m + n) v0 ?all = absorb W stripe n v (buf @ input)" for n
    using le by (simp add: absorb_plus absorb_append v buf)
  have cnt: "length ?all div W = ?m + (length buf + length input) div W"
  proof -
    have "length ?all = W * ?m + (length buf + length input)" by (simp add: lb)
    moreover have "(W * ?m + x) div W = ?m + x div W" for x using width by simp
    ultimately show ?thesis by (simp only:)
  qed
  have goal: "digests W stripe v0 ?all v' buf' \<longleftrightarrow>
      v' = absorb W stripe (length (buf @ input) div W) v (buf @ input) \<and>
      buf' = drop (W * (length (buf @ input) div W)) (buf @ input)" for v' buf'
  proof -
    have "drop (W * (?m + n)) ?all = drop (W * n) (buf @ input)" for n
      by (simp only: distrib_left add.commute [of "W * ?m"] drop_drop [symmetric] rest)
    then show ?thesis by (simp only: digests_def cnt total length_append [of buf])
  qed
  show ?thesis
  proof (cases "length buf + length input < W")
    case True
    then show ?thesis by (simp add: feed_def goal)
  next
    case False
    let ?n = "W - length buf"
    show ?thesis
    proof (cases "buf = []")
      case True
      with False have "W \<le> length input" by simp
      then show ?thesis using True by (simp add: feed_def goal stripes_absorb)
    next
      case ne: False
      let ?p = "drop ?n input" and ?s = "buf @ take ?n input"
      have ls: "length ?s = W" using False lt by simp
      have split: "buf @ input = ?s @ ?p" by simp
      have d: "length (buf @ input) div W = Suc (length ?p div W)"
        unfolding split length_append [of ?s] ls using width by (simp add: div_add_self1)
      have s: "stripe v (buf @ input) = stripe v ?s"
        unfolding split by (rule stripe_local) (simp only: ls order.refl)
      have dr: "drop W (buf @ input) = ?p" unfolding split using ls by simp
      have g: "absorb W stripe (length (buf @ input) div W) v (buf @ input) =
          absorb W stripe (length ?p div W) (stripe v ?s) ?p"
        unfolding d absorb.simps s dr ..
      have g2: "drop (W * (length (buf @ input) div W)) (buf @ input) = drop (W * (length ?p div W)) ?p"
        unfolding d mult_Suc_right add.commute [of W] drop_drop [symmetric] dr ..
      have f: "feed W stripe stripes v buf input =
          (if W \<le> length ?p then stripes (stripe v ?s) ?p else (stripe v ?s, ?p))"
        using False ne by (simp add: feed_def Let_def)
      show ?thesis
      proof (cases "W \<le> length ?p")
        case True
        then show ?thesis unfolding f goal g g2 by (simp add: stripes_absorb)
      next
        case False
        then have "length ?p div W = 0" by simp
        then show ?thesis unfolding f goal g g2 using False by (simp only: if_False) simp
      qed
    qed
  qed
qed

lemma digests_short: "digests W stripe v0 msg v buf \<Longrightarrow> length buf < W"
  using width by (simp add: digests_def minus_mult_div_eq_mod)

lemma digests_Nil: "digests W stripe v0 [] v0 []"
  by (simp add: digests_def)

lemma digests_long:
  assumes "digests W stripe v0 msg v buf" "W \<le> length msg"
  shows "stripes v0 msg = (v, buf)"
  using assms by (simp add: digests_def stripes_absorb)

lemma digests_all: "digests W stripe v0 msg v buf \<Longrightarrow> length msg < W \<Longrightarrow> buf = msg"
  by (simp add: digests_def)

end

end
