(* ===== verification/XX_Hash.thy ===== *)
theory XX_Hash
  imports Byte_Order Streaming
begin

unbundle bit_operations_syntax

text \<open>
  The hash functions of \<^verbatim>\<open>src/core/xxhash.cpp\<close>: the one-shot functions \<open>XXH32\<close> and \<open>XXH64\<close>, the
  incremental interface (reset, update, digest) for both widths, and the class \<open>XXHash\<close> with which the
  journal, the volume and the network packets are protected.

  A memory area is the list of its bytes, a pointer that runs through it is the list of the bytes that
  are left. The byte order of the host is a parameter of every function that loads a machine word from
  memory; the functions are run with \<^verbatim>\<open>XXH_FORCE_NATIVE_FORMAT\<close> set to 0 as in the source.
\<close>

type_synonym U32 = "32 word"
type_synonym U64 = "64 word"

section \<open>Loads\<close>

text \<open>The swaps as the source writes them, and the loads in the byte order of the format.\<close>

definition XXH_swap32 :: "U32 \<Rightarrow> U32" where
  "XXH_swap32 x =
     ((push_bit 24 x) AND 0xff000000) OR ((push_bit 8 x) AND 0x00ff0000) OR
     ((drop_bit 8 x) AND 0x0000ff00) OR ((drop_bit 24 x) AND 0x000000ff)"

definition XXH_swap64 :: "U64 \<Rightarrow> U64" where
  "XXH_swap64 x =
     ((push_bit 56 x) AND 0xff00000000000000) OR ((push_bit 40 x) AND 0x00ff000000000000) OR
     ((push_bit 24 x) AND 0x0000ff0000000000) OR ((push_bit 8 x) AND 0x000000ff00000000) OR
     ((drop_bit 8 x) AND 0x00000000ff000000) OR ((drop_bit 24 x) AND 0x0000000000ff0000) OR
     ((drop_bit 40 x) AND 0x000000000000ff00) OR ((drop_bit 56 x) AND 0x00000000000000ff)"

definition XXH_readLE32 :: "host \<Rightarrow> bytes \<Rightarrow> U32" where
  "XXH_readLE32 host p = (if host = LittleEndian then load32 host p else XXH_swap32 (load32 host p))"

definition XXH_readLE64 :: "host \<Rightarrow> bytes \<Rightarrow> U64" where
  "XXH_readLE64 host p = (if host = LittleEndian then load64 host p else XXH_swap64 (load64 host p))"

definition XXH_rotl32 :: "U32 \<Rightarrow> nat \<Rightarrow> U32" where
  "XXH_rotl32 x r = (push_bit r x) OR (drop_bit (32 - r) x)"

definition XXH_rotl64 :: "U64 \<Rightarrow> nat \<Rightarrow> U64" where
  "XXH_rotl64 x r = (push_bit r x) OR (drop_bit (64 - r) x)"

section \<open>The 32-bit hash\<close>

definition PRIME32_1 :: U32 where "PRIME32_1 = 2654435761"
definition PRIME32_2 :: U32 where "PRIME32_2 = 2246822519"
definition PRIME32_3 :: U32 where "PRIME32_3 = 3266489917"
definition PRIME32_4 :: U32 where "PRIME32_4 = 668265263"
definition PRIME32_5 :: U32 where "PRIME32_5 = 374761393"

type_synonym lanes32 = "U32 \<times> U32 \<times> U32 \<times> U32"

definition round32 :: "U32 \<Rightarrow> U32 \<Rightarrow> U32" where
  "round32 v k = XXH_rotl32 (v + k * PRIME32_2) 13 * PRIME32_1"

text \<open>The body of the loop over stripes of 16 bytes.\<close>

definition stripe32 :: "host \<Rightarrow> lanes32 \<Rightarrow> bytes \<Rightarrow> lanes32" where
  "stripe32 host v p = (case v of (v1, v2, v3, v4) \<Rightarrow>
     (round32 v1 (XXH_readLE32 host p), round32 v2 (XXH_readLE32 host (drop 4 p)),
      round32 v3 (XXH_readLE32 host (drop 8 p)), round32 v4 (XXH_readLE32 host (drop 12 p))))"

text \<open>The loop \<^verbatim>\<open>do { ... } while (p <= limit)\<close>, where \<open>limit\<close> is 16 bytes before the end.\<close>

function stripes32 :: "host \<Rightarrow> lanes32 \<Rightarrow> bytes \<Rightarrow> lanes32 \<times> bytes" where
  "stripes32 host v p =
     (let v' = stripe32 host v p; p' = drop 16 p
      in if 16 \<le> length p' then stripes32 host v' p' else (v', p'))"
  by pat_completeness auto
termination by (relation "measure (\<lambda>(host, v, p). length p)") auto

definition lanes32_init :: "U32 \<Rightarrow> lanes32" where
  "lanes32_init seed = (seed + PRIME32_1 + PRIME32_2, seed + PRIME32_2, seed + 0, seed - PRIME32_1)"

definition lanes32_merge :: "lanes32 \<Rightarrow> U32" where
  "lanes32_merge v = (case v of (v1, v2, v3, v4) \<Rightarrow>
     XXH_rotl32 v1 1 + XXH_rotl32 v2 7 + XXH_rotl32 v3 12 + XXH_rotl32 v4 18)"

text \<open>The rest of the input: whole words, then single bytes, then the final mixing.\<close>

function tail32_words :: "host \<Rightarrow> U32 \<Rightarrow> bytes \<Rightarrow> U32 \<times> bytes" where
  "tail32_words host h p =
     (if 4 \<le> length p
      then tail32_words host (XXH_rotl32 (h + XXH_readLE32 host p * PRIME32_3) 17 * PRIME32_4) (drop 4 p)
      else (h, p))"
  by pat_completeness auto
termination by (relation "measure (\<lambda>(host, h, p). length p)") auto

fun tail32_bytes :: "U32 \<Rightarrow> bytes \<Rightarrow> U32" where
  "tail32_bytes h [] = h"
| "tail32_bytes h (c # p) = tail32_bytes (XXH_rotl32 (h + ucast c * PRIME32_5) 11 * PRIME32_1) p"

definition finish32 :: "host \<Rightarrow> U32 \<Rightarrow> bytes \<Rightarrow> U32" where
  "finish32 host h p =
     (let (h, p) = tail32_words host h p;
          h = tail32_bytes h p;
          h = h XOR drop_bit 15 h;
          h = h * PRIME32_2;
          h = h XOR drop_bit 13 h;
          h = h * PRIME32_3
      in h XOR drop_bit 16 h)"

definition XXH32 :: "host \<Rightarrow> bytes \<Rightarrow> U32 \<Rightarrow> U32" where
  "XXH32 host input seed =
     (let (h, p) = (if length input \<ge> 16
                    then let (v, p) = stripes32 host (lanes32_init seed) input in (lanes32_merge v, p)
                    else (seed + PRIME32_5, input))
      in finish32 host (h + of_nat (length input)) p)"

section \<open>The 64-bit hash\<close>

definition PRIME64_1 :: U64 where "PRIME64_1 = 11400714785074694791"
definition PRIME64_2 :: U64 where "PRIME64_2 = 14029467366897019727"
definition PRIME64_3 :: U64 where "PRIME64_3 = 1609587929392839161"
definition PRIME64_4 :: U64 where "PRIME64_4 = 9650029242287828579"
definition PRIME64_5 :: U64 where "PRIME64_5 = 2870177450012600261"

type_synonym lanes64 = "U64 \<times> U64 \<times> U64 \<times> U64"

definition round64 :: "U64 \<Rightarrow> U64 \<Rightarrow> U64" where
  "round64 v k = XXH_rotl64 (v + k * PRIME64_2) 31 * PRIME64_1"

definition stripe64 :: "host \<Rightarrow> lanes64 \<Rightarrow> bytes \<Rightarrow> lanes64" where
  "stripe64 host v p = (case v of (v1, v2, v3, v4) \<Rightarrow>
     (round64 v1 (XXH_readLE64 host p), round64 v2 (XXH_readLE64 host (drop 8 p)),
      round64 v3 (XXH_readLE64 host (drop 16 p)), round64 v4 (XXH_readLE64 host (drop 24 p))))"

function stripes64 :: "host \<Rightarrow> lanes64 \<Rightarrow> bytes \<Rightarrow> lanes64 \<times> bytes" where
  "stripes64 host v p =
     (let v' = stripe64 host v p; p' = drop 32 p
      in if 32 \<le> length p' then stripes64 host v' p' else (v', p'))"
  by pat_completeness auto
termination by (relation "measure (\<lambda>(host, v, p). length p)") auto

definition lanes64_init :: "U64 \<Rightarrow> lanes64" where
  "lanes64_init seed = (seed + PRIME64_1 + PRIME64_2, seed + PRIME64_2, seed + 0, seed - PRIME64_1)"

definition merge_lane64 :: "U64 \<Rightarrow> U64 \<Rightarrow> U64" where
  "merge_lane64 h v = (h XOR (XXH_rotl64 (v * PRIME64_2) 31 * PRIME64_1)) * PRIME64_1 + PRIME64_4"

definition lanes64_merge :: "lanes64 \<Rightarrow> U64" where
  "lanes64_merge v = (case v of (v1, v2, v3, v4) \<Rightarrow>
     (let h = XXH_rotl64 v1 1 + XXH_rotl64 v2 7 + XXH_rotl64 v3 12 + XXH_rotl64 v4 18;
          h = merge_lane64 h v1;
          h = merge_lane64 h v2;
          h = merge_lane64 h v3
      in merge_lane64 h v4))"

function tail64_words :: "host \<Rightarrow> U64 \<Rightarrow> bytes \<Rightarrow> U64 \<times> bytes" where
  "tail64_words host h p =
     (if 8 \<le> length p
      then let k1 = XXH_readLE64 host p * PRIME64_2;
               k1 = XXH_rotl64 k1 31 * PRIME64_1;
               h = h XOR k1
           in tail64_words host (XXH_rotl64 h 27 * PRIME64_1 + PRIME64_4) (drop 8 p)
      else (h, p))"
  by pat_completeness auto
termination by (relation "measure (\<lambda>(host, h, p). length p)") auto

fun tail64_bytes :: "U64 \<Rightarrow> bytes \<Rightarrow> U64" where
  "tail64_bytes h [] = h"
| "tail64_bytes h (c # p) = tail64_bytes (XXH_rotl64 (h XOR (ucast c * PRIME64_5)) 11 * PRIME64_1) p"

definition finish64 :: "host \<Rightarrow> U64 \<Rightarrow> bytes \<Rightarrow> U64" where
  "finish64 host h p =
     (let (h, p) = tail64_words host h p;
          (h, p) = (if 4 \<le> length p
                    then let h = h XOR (ucast (XXH_readLE32 host p) * PRIME64_1)
                         in (XXH_rotl64 h 23 * PRIME64_2 + PRIME64_3, drop 4 p)
                    else (h, p));
          h = tail64_bytes h p;
          h = h XOR drop_bit 33 h;
          h = h * PRIME64_2;
          h = h XOR drop_bit 29 h;
          h = h * PRIME64_3
      in h XOR drop_bit 32 h)"

definition XXH64 :: "host \<Rightarrow> bytes \<Rightarrow> U64 \<Rightarrow> U64" where
  "XXH64 host input seed =
     (let (h, p) = (if length input \<ge> 32
                    then let (v, p) = stripes64 host (lanes64_init seed) input in (lanes64_merge v, p)
                    else (seed + PRIME64_5, input))
      in finish64 host (h + of_nat (length input)) p)"

declare stripes32.simps [simp del] stripes64.simps [simp del] tail32_words.simps [simp del] tail64_words.simps [simp del]

section \<open>The incremental interface\<close>

text \<open>
  The state keeps the four lanes, the number of bytes seen and the bytes that do not fill a stripe yet.
  The counter \<open>memsize\<close> stays below the stripe width, so its 32 bits never wrap.
\<close>

record XXH_istate32_t =
  total_len32 :: U64
  seed32 :: U32
  lanes32 :: lanes32
  mem32 :: bytes
  memsize32 :: nat

record XXH_istate64_t =
  total_len64 :: U64
  seed64 :: U64
  lanes64 :: lanes64
  mem64 :: bytes
  memsize64 :: nat

definition XXH_memcpy :: "bytes \<Rightarrow> nat \<Rightarrow> bytes \<Rightarrow> bytes" where
  "XXH_memcpy dest off src = take off dest @ src @ drop (off + length src) dest"

definition XXH32_reset :: "XXH_istate32_t \<Rightarrow> U32 \<Rightarrow> XXH_istate32_t" where
  "XXH32_reset st seed = st\<lparr>seed32 := seed, lanes32 := lanes32_init seed, total_len32 := 0, memsize32 := 0\<rparr>"

definition XXH64_reset :: "XXH_istate64_t \<Rightarrow> U64 \<Rightarrow> XXH_istate64_t" where
  "XXH64_reset st seed = st\<lparr>seed64 := seed, lanes64 := lanes64_init seed, total_len64 := 0, memsize64 := 0\<rparr>"

definition XXH32_update :: "host \<Rightarrow> XXH_istate32_t \<Rightarrow> bytes \<Rightarrow> XXH_istate32_t" where
  "XXH32_update host st input =
     (let len = length input;
          st = st\<lparr>total_len32 := total_len32 st + of_nat len\<rparr>
      in if memsize32 st + len < 16
         then st\<lparr>mem32 := XXH_memcpy (mem32 st) (memsize32 st) input, memsize32 := memsize32 st + len\<rparr>
         else
           let n = 16 - memsize32 st;
               (st, p) =
                 (if memsize32 st \<noteq> 0
                  then let m = XXH_memcpy (mem32 st) (memsize32 st) (take n input)
                       in (st\<lparr>mem32 := m, lanes32 := stripe32 host (lanes32 st) m, memsize32 := 0\<rparr>, drop n input)
                  else (st, input));
               (st, p) =
                 (if 16 \<le> length p
                  then let (v, p') = stripes32 host (lanes32 st) p in (st\<lparr>lanes32 := v\<rparr>, p')
                  else (st, p))
           in if p \<noteq> [] then st\<lparr>mem32 := XXH_memcpy (mem32 st) 0 p, memsize32 := length p\<rparr> else st)"

definition XXH64_update :: "host \<Rightarrow> XXH_istate64_t \<Rightarrow> bytes \<Rightarrow> XXH_istate64_t" where
  "XXH64_update host st input =
     (let len = length input;
          st = st\<lparr>total_len64 := total_len64 st + of_nat len\<rparr>
      in if memsize64 st + len < 32
         then st\<lparr>mem64 := XXH_memcpy (mem64 st) (memsize64 st) input, memsize64 := memsize64 st + len\<rparr>
         else
           let n = 32 - memsize64 st;
               (st, p) =
                 (if memsize64 st \<noteq> 0
                  then let m = XXH_memcpy (mem64 st) (memsize64 st) (take n input)
                       in (st\<lparr>mem64 := m, lanes64 := stripe64 host (lanes64 st) m, memsize64 := 0\<rparr>, drop n input)
                  else (st, input));
               (st, p) =
                 (if 32 \<le> length p
                  then let (v, p') = stripes64 host (lanes64 st) p in (st\<lparr>lanes64 := v\<rparr>, p')
                  else (st, p))
           in if p \<noteq> [] then st\<lparr>mem64 := XXH_memcpy (mem64 st) 0 p, memsize64 := length p\<rparr> else st)"

definition XXH32_digest :: "host \<Rightarrow> XXH_istate32_t \<Rightarrow> U32" where
  "XXH32_digest host st =
     (let h = (if total_len32 st \<ge> 16 then lanes32_merge (lanes32 st) else seed32 st + PRIME32_5)
      in finish32 host (h + ucast (total_len32 st)) (take (memsize32 st) (mem32 st)))"

definition XXH64_digest :: "host \<Rightarrow> XXH_istate64_t \<Rightarrow> U64" where
  "XXH64_digest host st =
     (let h = (if total_len64 st \<ge> 32 then lanes64_merge (lanes64 st) else seed64 st + PRIME64_5)
      in finish64 host (h + total_len64 st) (take (memsize64 st) (mem64 st)))"

text \<open>The class \<open>XXHash\<close>; \<open>st\<close> is whatever the freshly declared object holds.\<close>

definition XXHash_ctor :: "XXH_istate64_t \<Rightarrow> XXH_istate64_t" where
  "XXHash_ctor st = XXH64_reset st 0"

definition GetSum :: "host \<Rightarrow> XXH_istate64_t \<Rightarrow> bytes" where
  "GetSum host st = store64 host (CpuToLe64 host (XXH64_digest host st))"

definition blank64 :: XXH_istate64_t where
  "blank64 = \<lparr>total_len64 = 0, seed64 = 0, lanes64 = (0, 0, 0, 0), mem64 = replicate 32 0, memsize64 = 0\<rparr>"

definition Sum :: "host \<Rightarrow> bytes \<Rightarrow> bytes" where
  "Sum host buf = GetSum host (XXH64_update host (XXHash_ctor blank64) buf)"


section \<open>Loads do not depend on the host\<close>

text \<open>On a big-endian host the swap restores the little-endian value, so both hosts read the same number.\<close>

lemma less_eight_blocks:
  fixes n :: nat
  assumes "n < 8 * k"
  obtains i j where "n = 8 * i + j" "i < k" "j < 8"
proof (rule that)
  show "n = 8 * (n div 8) + n mod 8" by simp
  show "n div 8 < k" using assms by (simp add: less_mult_imp_div_less mult.commute)
  show "n mod 8 < 8" by simp
qed

lemma byte_masks32:
  "(0xff000000::U32) = push_bit 24 (mask 8)" "(0xff0000::U32) = push_bit 16 (mask 8)"
  "(0xff00::U32) = push_bit 8 (mask 8)" "(0xff::U32) = mask 8"
  by (simp_all add: mask_numeral push_bit_eq_mult)

lemma byte_masks64:
  "(0xff00000000000000::U64) = push_bit 56 (mask 8)" "(0xff000000000000::U64) = push_bit 48 (mask 8)"
  "(0xff0000000000::U64) = push_bit 40 (mask 8)" "(0xff00000000::U64) = push_bit 32 (mask 8)"
  "(0xff000000::U64) = push_bit 24 (mask 8)" "(0xff0000::U64) = push_bit 16 (mask 8)"
  "(0xff00::U64) = push_bit 8 (mask 8)" "(0xff::U64) = mask 8"
  by (simp_all add: mask_numeral push_bit_eq_mult)

lemma bit_byte_field:
  "bit (x AND push_bit k (mask 8) :: 'a::len word) n \<longleftrightarrow> bit x n \<and> k \<le> n \<and> n < k + 8"
  by (auto simp: bit_simps dest: bit_imp_le_length)

lemma bit_low_byte: "bit (x AND mask 8 :: 'a::len word) n \<longleftrightarrow> bit x n \<and> n < 8"
  by (auto simp: bit_simps dest: bit_imp_le_length)

lemma bit_swap32:
  assumes "i < 4" "j < 8"
  shows "bit (XXH_swap32 x) (8 * i + j) = bit x (8 * (3 - i) + j)"
proof -
  from assms(1) consider "i = 0" | "i = 1" | "i = 2" | "i = 3" by linarith
  then show ?thesis using assms(2)
    by cases (simp_all add: XXH_swap32_def byte_masks32 bit_or_iff bit_byte_field bit_low_byte
        bit_push_bit_iff bit_drop_bit_eq)
qed

lemma bit_swap64:
  assumes "i < 8" "j < 8"
  shows "bit (XXH_swap64 x) (8 * i + j) = bit x (8 * (7 - i) + j)"
proof -
  from assms(1) consider "i = 0" | "i = 1" | "i = 2" | "i = 3" | "i = 4" | "i = 5" | "i = 6" | "i = 7" by linarith
  then show ?thesis using assms(2)
    by cases (simp_all add: XXH_swap64_def byte_masks64 bit_or_iff bit_byte_field bit_low_byte
        bit_push_bit_iff bit_drop_bit_eq)
qed

lemma swap32_rev: "length p = 4 \<Longrightarrow> XXH_swap32 (le_value (rev p)) = le_value p"
proof (rule bit_word_eqI)
  fix n assume l: "length p = 4" and "n < LENGTH(32)"
  then have "n < 8 * 4" by simp
  then obtain i j where n: "n = 8 * i + j" "i < 4" "j < 8" by (rule less_eight_blocks)
  then show "bit (XXH_swap32 (le_value (rev p))) n = bit (le_value p :: U32) n"
    using l by (auto simp add: bit_swap32 bit_le_value rev_nth)
qed

lemma swap64_rev: "length p = 8 \<Longrightarrow> XXH_swap64 (le_value (rev p)) = le_value p"
proof (rule bit_word_eqI)
  fix n assume l: "length p = 8" and "n < LENGTH(64)"
  then have "n < 8 * 8" by simp
  then obtain i j where n: "n = 8 * i + j" "i < 8" "j < 8" by (rule less_eight_blocks)
  then show "bit (XXH_swap64 (le_value (rev p))) n = bit (le_value p :: U64) n"
    using l by (auto simp add: bit_swap64 bit_le_value rev_nth)
qed

lemma readLE32 [simp]: "4 \<le> length p \<Longrightarrow> XXH_readLE32 host p = le_value (take 4 p)"
  by (cases host) (simp_all add: XXH_readLE32_def load32_def swap32_rev)

lemma readLE64 [simp]: "8 \<le> length p \<Longrightarrow> XXH_readLE64 host p = le_value (take 8 p)"
  by (cases host) (simp_all add: XXH_readLE64_def load64_def swap64_rev)

lemma stripe32_host: "16 \<le> length p \<Longrightarrow> stripe32 host v p = stripe32 host' v p"
  by (simp add: stripe32_def split: prod.split)

lemma stripe64_host: "32 \<le> length p \<Longrightarrow> stripe64 host v p = stripe64 host' v p"
  by (simp add: stripe64_def split: prod.split)

lemma stripes32_host: "16 \<le> length p \<Longrightarrow> stripes32 host v p = stripes32 host' v p"
proof (induction host v p rule: stripes32.induct)
  case (1 host v p)
  then show ?case
    by (subst (1 2) stripes32.simps) (simp add: stripe32_host [of p host _ host'] Let_def)
qed

lemma stripes64_host: "32 \<le> length p \<Longrightarrow> stripes64 host v p = stripes64 host' v p"
proof (induction host v p rule: stripes64.induct)
  case (1 host v p)
  then show ?case
    by (subst (1 2) stripes64.simps) (simp add: stripe64_host [of p host _ host'] Let_def)
qed

lemma tail32_words_host: "tail32_words host h p = tail32_words host' h p"
proof (induction host h p rule: tail32_words.induct)
  case (1 host h p)
  then show ?case by (subst (1 2) tail32_words.simps) simp
qed

lemma tail64_words_host: "tail64_words host h p = tail64_words host' h p"
proof (induction host h p rule: tail64_words.induct)
  case (1 host h p)
  then show ?case by (subst (1 2) tail64_words.simps) (simp add: Let_def)
qed

lemma finish32_host: "finish32 host h p = finish32 host' h p"
  by (simp add: finish32_def tail32_words_host [of host h p host'])

lemma finish64_host: "finish64 host h p = finish64 host' h p"
  by (simp add: finish64_def tail64_words_host [of host h p host'] split: prod.split)

lemma XXH32_host: "XXH32 host p seed = XXH32 host' p seed"
  by (simp add: XXH32_def finish32_host [of host _ _ host'] stripes32_host [of p host _ host'] split: prod.split)

lemma XXH64_host: "XXH64 host p seed = XXH64 host' p seed"
  by (simp add: XXH64_def finish64_host [of host _ _ host'] stripes64_host [of p host _ host'] split: prod.split)


section \<open>Both widths as streams\<close>

interpretation h32: stripe_hash 16 "stripe32 host" "stripes32 host" for host
proof
  fix p q :: bytes and v
  show "stripe32 host v (p @ q) = stripe32 host v p" if "16 \<le> length p"
    using that by (simp add: stripe32_def split: prod.split)
  show "stripes32 host v p = (if 16 \<le> length (drop 16 p) then stripes32 host (stripe32 host v p) (drop 16 p)
      else (stripe32 host v p, drop 16 p))"
    by (subst stripes32.simps) (simp only: Let_def)
qed simp

interpretation h64: stripe_hash 32 "stripe64 host" "stripes64 host" for host
proof
  fix p q :: bytes and v
  show "stripe64 host v (p @ q) = stripe64 host v p" if "32 \<le> length p"
    using that by (simp add: stripe64_def split: prod.split)
  show "stripes64 host v p = (if 32 \<le> length (drop 32 p) then stripes64 host (stripe64 host v p) (drop 32 p)
      else (stripe64 host v p, drop 32 p))"
    by (subst stripes64.simps) (simp only: Let_def)
qed simp


section \<open>The incremental states\<close>

definition buf32 :: "XXH_istate32_t \<Rightarrow> bytes" where
  "buf32 st = take (memsize32 st) (mem32 st)"

definition buf64 :: "XXH_istate64_t \<Rightarrow> bytes" where
  "buf64 st = take (memsize64 st) (mem64 st)"

definition holds32 :: "host \<Rightarrow> U32 \<Rightarrow> bytes \<Rightarrow> XXH_istate32_t \<Rightarrow> bool" where
  "holds32 host seed msg st \<longleftrightarrow> length (mem32 st) = 16 \<and> memsize32 st < 16 \<and> seed32 st = seed \<and>
     total_len32 st = of_nat (length msg) \<and> digests 16 (stripe32 host) (lanes32_init seed) msg (lanes32 st) (buf32 st)"

definition holds64 :: "host \<Rightarrow> U64 \<Rightarrow> bytes \<Rightarrow> XXH_istate64_t \<Rightarrow> bool" where
  "holds64 host seed msg st \<longleftrightarrow> length (mem64 st) = 32 \<and> memsize64 st < 32 \<and> seed64 st = seed \<and>
     total_len64 st = of_nat (length msg) \<and> digests 32 (stripe64 host) (lanes64_init seed) msg (lanes64 st) (buf64 st)"

lemma holds32_reset: "length (mem32 st) = 16 \<Longrightarrow> holds32 host seed [] (XXH32_reset st seed)"
  by (simp add: holds32_def XXH32_reset_def buf32_def digests_def)

lemma holds64_reset: "length (mem64 st) = 32 \<Longrightarrow> holds64 host seed [] (XXH64_reset st seed)"
  by (simp add: holds64_def XXH64_reset_def buf64_def digests_def)

lemma stripes32_rest: "16 \<le> length p \<Longrightarrow> stripes32 host v p = (v', p') \<Longrightarrow> length p' < 16"
  by (simp add: h32.stripes_absorb) (auto simp: minus_mult_div_eq_mod)

lemma stripes64_rest: "32 \<le> length p \<Longrightarrow> stripes64 host v p = (v', p') \<Longrightarrow> length p' < 32"
  by (simp add: h64.stripes_absorb) (auto simp: minus_mult_div_eq_mod)

lemma XXH32_update_feed:
  assumes "length (mem32 st) = 16" "memsize32 st < 16"
  shows "let st' = XXH32_update host st input in
    (lanes32 st', buf32 st') = feed 16 (stripe32 host) (stripes32 host) (lanes32 st) (buf32 st) input \<and>
    length (mem32 st') = 16 \<and> memsize32 st' < 16 \<and> seed32 st' = seed32 st \<and>
    total_len32 st' = total_len32 st + of_nat (length input)"
proof (cases "memsize32 st + length input < 16")
  case True
  then show ?thesis using assms by (simp add: XXH32_update_def feed_def buf32_def XXH_memcpy_def Let_def)
next
  case False
  let ?n = "16 - memsize32 st"
  let ?s = "buf32 st @ take ?n input"
  define v where "v = (if memsize32 st \<noteq> 0 then stripe32 host (lanes32 st) ?s else lanes32 st)"
  define p where "p = (if memsize32 st \<noteq> 0 then drop ?n input else input)"
  obtain v' p' where vp: "stripes32 host v p = (v', p')" by (cases "stripes32 host v p")
  have e: "buf32 st = [] \<longleftrightarrow> memsize32 st = 0" "length (buf32 st) = memsize32 st"
    "XXH_memcpy (mem32 st) (memsize32 st) (take ?n input) = ?s"
    using assms False by (auto simp: buf32_def XXH_memcpy_def)
  have ls: "length ?s = 16" using assms False by (simp add: e)
  have f: "feed 16 (stripe32 host) (stripes32 host) (lanes32 st) (buf32 st) input =
      (if 16 \<le> length p then (v', p') else (v, p))"
    using False vp by (cases "memsize32 st = 0") (simp_all add: feed_def e Let_def v_def p_def)
  show ?thesis
  proof (cases "16 \<le> length p")
    case True
    then have "length p' < 16" using stripes32_rest [OF _ vp] by simp
    then show ?thesis using False True assms ls vp unfolding f
      by (auto simp: XXH32_update_def buf32_def XXH_memcpy_def e v_def p_def Let_def split: if_splits)
  next
    case False2: False
    then show ?thesis using False assms ls unfolding f
      by (auto simp: XXH32_update_def buf32_def XXH_memcpy_def e v_def p_def Let_def split: if_splits)
  qed
qed

lemma XXH64_update_feed:
  assumes "length (mem64 st) = 32" "memsize64 st < 32"
  shows "let st' = XXH64_update host st input in
    (lanes64 st', buf64 st') = feed 32 (stripe64 host) (stripes64 host) (lanes64 st) (buf64 st) input \<and>
    length (mem64 st') = 32 \<and> memsize64 st' < 32 \<and> seed64 st' = seed64 st \<and>
    total_len64 st' = total_len64 st + of_nat (length input)"
proof (cases "memsize64 st + length input < 32")
  case True
  then show ?thesis using assms by (simp add: XXH64_update_def feed_def buf64_def XXH_memcpy_def Let_def)
next
  case False
  let ?n = "32 - memsize64 st"
  let ?s = "buf64 st @ take ?n input"
  define v where "v = (if memsize64 st \<noteq> 0 then stripe64 host (lanes64 st) ?s else lanes64 st)"
  define p where "p = (if memsize64 st \<noteq> 0 then drop ?n input else input)"
  obtain v' p' where vp: "stripes64 host v p = (v', p')" by (cases "stripes64 host v p")
  have e: "buf64 st = [] \<longleftrightarrow> memsize64 st = 0" "length (buf64 st) = memsize64 st"
    "XXH_memcpy (mem64 st) (memsize64 st) (take ?n input) = ?s"
    using assms False by (auto simp: buf64_def XXH_memcpy_def)
  have ls: "length ?s = 32" using assms False by (simp add: e)
  have f: "feed 32 (stripe64 host) (stripes64 host) (lanes64 st) (buf64 st) input =
      (if 32 \<le> length p then (v', p') else (v, p))"
    using False vp by (cases "memsize64 st = 0") (simp_all add: feed_def e Let_def v_def p_def)
  show ?thesis
  proof (cases "32 \<le> length p")
    case True
    then have "length p' < 32" using stripes64_rest [OF _ vp] by simp
    then show ?thesis using False True assms ls vp unfolding f
      by (auto simp: XXH64_update_def buf64_def XXH_memcpy_def e v_def p_def Let_def split: if_splits)
  next
    case False2: False
    then show ?thesis using False assms ls unfolding f
      by (auto simp: XXH64_update_def buf64_def XXH_memcpy_def e v_def p_def Let_def split: if_splits)
  qed
qed

lemma holds32_update: "holds32 host seed msg st \<Longrightarrow> holds32 host seed (msg @ input) (XXH32_update host st input)"
  using XXH32_update_feed [of st host input] h32.feed_digests [of host "lanes32_init seed" msg "lanes32 st" "buf32 st" input]
  by (auto simp: holds32_def Let_def split: prod.splits)

lemma holds64_update: "holds64 host seed msg st \<Longrightarrow> holds64 host seed (msg @ input) (XXH64_update host st input)"
  using XXH64_update_feed [of st host input] h64.feed_digests [of host "lanes64_init seed" msg "lanes64 st" "buf64 st" input]
  by (auto simp: holds64_def Let_def split: prod.splits)

lemma holds32_updates: "holds32 host seed msg st \<Longrightarrow> holds32 host seed (msg @ concat chunks) (foldl (XXH32_update host) st chunks)"
proof (induction chunks arbitrary: msg st)
  case (Cons c chunks)
  from Cons.IH [OF holds32_update [OF Cons.prems, of c]] show ?case by simp
qed simp

lemma holds64_updates: "holds64 host seed msg st \<Longrightarrow> holds64 host seed (msg @ concat chunks) (foldl (XXH64_update host) st chunks)"
proof (induction chunks arbitrary: msg st)
  case (Cons c chunks)
  from Cons.IH [OF holds64_update [OF Cons.prems, of c]] show ?case by simp
qed simp

lemma of_nat_ge_64:
  assumes "n < 18446744073709551616" "m < 18446744073709551616"
  shows "(of_nat n :: 64 word) \<ge> of_nat m \<longleftrightarrow> m \<le> n"
  using assms by (simp add: word_le_nat_alt unat_of_nat_64)

lemma ucast_of_nat_64: "(ucast (of_nat n :: 64 word) :: 32 word) = of_nat n"
  by (rule bit_word_eqI) (simp add: bit_simps)

lemma holds32_digest:
  assumes h: "holds32 host seed msg st" and len: "length msg < 18446744073709551616"
  shows "XXH32_digest host st = XXH32 host msg seed"
proof -
  have t: "total_len32 st \<ge> 16 \<longleftrightarrow> 16 \<le> length msg"
    using h of_nat_ge_64 [OF len, of 16] by (simp add: holds32_def)
  have u: "(ucast (total_len32 st) :: U32) = of_nat (length msg)" using h by (simp add: holds32_def ucast_of_nat_64)
  note d = h [unfolded holds32_def, THEN conjunct2, THEN conjunct2, THEN conjunct2, THEN conjunct2]
  show ?thesis
  proof (cases "16 \<le> length msg")
    case True
    then show ?thesis using t u h32.digests_long [OF d] by (simp add: XXH32_digest_def XXH32_def buf32_def)
  next
    case False
    then have "buf32 st = msg" using h32.digests_all [OF d] by simp
    then show ?thesis using False t u h by (simp add: XXH32_digest_def XXH32_def buf32_def holds32_def)
  qed
qed

lemma holds64_digest:
  assumes h: "holds64 host seed msg st" and len: "length msg < 18446744073709551616"
  shows "XXH64_digest host st = XXH64 host msg seed"
proof -
  have t: "total_len64 st \<ge> 32 \<longleftrightarrow> 32 \<le> length msg"
    using h of_nat_ge_64 [OF len, of 32] by (simp add: holds64_def)
  note d = h [unfolded holds64_def, THEN conjunct2, THEN conjunct2, THEN conjunct2, THEN conjunct2]
  show ?thesis
  proof (cases "32 \<le> length msg")
    case True
    then show ?thesis using t h h64.digests_long [OF d] by (simp add: XXH64_digest_def XXH64_def buf64_def holds64_def)
  next
    case False
    then have "buf64 st = msg" using h64.digests_all [OF d] by simp
    then show ?thesis using False t h by (simp add: XXH64_digest_def XXH64_def buf64_def holds64_def)
  qed
qed

lemma Sum_eq:
  assumes "length buf < 18446744073709551616"
  shows "Sum host buf = le_bytes 8 (XXH64 LittleEndian buf 0)"
proof -
  have "holds64 host 0 ([] @ buf) (XXH64_update host (XXHash_ctor blank64) buf)"
    unfolding XXHash_ctor_def by (intro holds64_update holds64_reset) (simp add: blank64_def)
  from holds64_digest [OF this] assms show ?thesis
    by (simp add: Sum_def GetSum_def XXH64_host [of host _ _ LittleEndian])
qed

lemma length_Sum [simp]: "length (Sum host buf) = 8"
  by (simp add: Sum_def GetSum_def)


section \<open>Properties\<close>

text \<open>
  Claim C21. Feeding a message to either incremental hash in pieces of any sizes, empty pieces included,
  and then asking for the digest gives the one-shot hash of the concatenation, whatever the state object
  held before the reset.
\<close>

theorem xxhash_streaming:
  assumes "length (concat chunks) < 18446744073709551616" "length (mem64 st) = 32" "length (mem32 st') = 16"
  shows "XXH64_digest host (foldl (XXH64_update host) (XXH64_reset st seed) chunks) = XXH64 host (concat chunks) seed \<and>
    XXH32_digest host (foldl (XXH32_update host) (XXH32_reset st' seed') chunks) = XXH32 host (concat chunks) seed'"
  using holds64_digest [OF holds64_updates [OF holds64_reset [OF assms(2)]], of chunks host seed]
    holds32_digest [OF holds32_updates [OF holds32_reset [OF assms(3)]], of chunks host seed'] assms(1)
  by simp

theorem xxhash_streaming_witness:
  "XXH64_digest LittleEndian (foldl (XXH64_update LittleEndian) (XXH64_reset blank64 0) [[], [97]]) = 0xD24EC4F1A98C6E5B"
proof -
  have v: "XXH64 LittleEndian [97] 0 = 0xD24EC4F1A98C6E5B" by code_simp
  show ?thesis
    using xxhash_streaming [of "[[], [97]]" blank64
      "\<lparr>total_len32 = 0, seed32 = 0, lanes32 = (0, 0, 0, 0), mem32 = replicate 16 0, memsize32 = 0\<rparr>" LittleEndian 0 0] v
    by (simp add: blank64_def)
qed

text \<open>
  The checksum stored with a structure is the eight bytes, least significant first, of the
  one-shot hash with seed zero, and it is the same on little-endian and big-endian hosts.
\<close>

theorem xxhash_sum_portable:
  assumes "length buf < 18446744073709551616"
  shows "Sum host buf = le_bytes 8 (XXH64 host buf 0) \<and> Sum host buf = Sum host' buf \<and> length (Sum host buf) = 8 \<and>
    XXH64 host buf seed = XXH64 host' buf seed \<and> XXH32 host buf seed' = XXH32 host' buf seed'"
  using Sum_eq [OF assms] XXH64_host [of host buf _ host'] XXH64_host [of host buf _ LittleEndian]
    XXH32_host [of host buf seed' host'] by simp

theorem xxhash_sum_portable_witness:
  "Sum BigEndian [] = [0x99, 0xE9, 0xD8, 0x51, 0x37, 0xDB, 0x46, 0xEF] \<and> Sum BigEndian [] = Sum LittleEndian []"
proof -
  have v: "le_bytes 8 (XXH64 BigEndian [] 0) = [0x99, 0xE9, 0xD8, 0x51, 0x37, 0xDB, 0x46, 0xEF]" by code_simp
  have w: "Sum BigEndian [] = le_bytes 8 (XXH64 BigEndian [] 0) \<and> Sum BigEndian [] = Sum LittleEndian []"
    using xxhash_sum_portable [of "[]" BigEndian LittleEndian 0 0] by auto
  show ?thesis using w unfolding v .
qed

end
