(* ===== verification/Bio.thy ===== *)
theory Bio
  imports Errors Memory_Utils "HOL-Library.Multiset" "HOL-Library.Sublist"
begin

text \<open>
  Block requests: the classes \<open>Bio\<close> and \<open>BioList\<close> of \<^verbatim>\<open>src/core/bio.h\<close> and the page buffers of
  \<^verbatim>\<open>src/core/page.h\<close> they carry.

  The kernel's block layer is a parameter, a function \<open>io\<close> that takes a list of requests that are in flight
  together and the state of the device, and returns the completions in the order in which they arrive
  and the new state of the device. A completion names the request by its position in the list and
  carries its error code and, for a read, the bytes. The locale \<open>block_layer\<close> below states what the
  kernel documents of such a function; nothing else is assumed of it.
\<close>

unbundle bit_operations_syntax

definition PageSize :: nat where "PageSize = 4096"

section \<open>Pages\<close>

text \<open>A page buffer is the list of its bytes. Creating one takes the two allocations of the shared
  pointer and the page itself; its first content is whatever the memory held.\<close>

definition Page_Create :: "mem \<Rightarrow> err \<times> mem" where
  "Page_Create m =
     (let (ok, m) = MakeShared m
      in if \<not> ok then (NoMemory, m)
         else let (ok, m) = new m in if \<not> ok then (NoMemory, m) else (Success, m))"

definition Page_Zero :: "bytes \<Rightarrow> bytes" where
  "Page_Zero page = replicate (length page) 0"

text \<open>The bytes read and their number.\<close>

definition Page_Read :: "bytes \<Rightarrow> nat \<Rightarrow> nat \<Rightarrow> bytes \<times> nat" where
  "Page_Read page len off =
     (if off \<ge> length page then ([], 0)
      else let size = Memory_Utils.Min len (length page - off) in (take size (drop off page), size))"

definition Page_Write :: "bytes \<Rightarrow> nat \<Rightarrow> nat \<Rightarrow> bytes \<Rightarrow> bytes \<times> nat" where
  "Page_Write buf len off page =
     (if off \<ge> length page then (page, 0)
      else let size = Memory_Utils.Min len (length page - off)
           in (take off page @ take size buf @ drop (off + size) page, size))"

section \<open>Requests\<close>

record bio =
  b_write :: bool
  b_sector :: uint64_t
  b_data :: bytes
  b_preflush :: bool
  b_fua :: bool
  b_sync :: bool

type_synonym completion = "nat \<times> err \<times> bytes"
type_synonym 'd block_io = "bio list \<Rightarrow> 'd \<Rightarrow> completion list \<times> 'd"

text \<open>
  \<open>Bio::Create\<close>: the shared object, the kernel's request, its private data and the node of the page list are
  allocated in this order; the page must hold the length asked for, where length zero means the whole
  page. A read request carries as many bytes as it will overwrite.
\<close>

definition Bio_Create :: "bytes \<Rightarrow> uint64_t \<Rightarrow> bool \<Rightarrow> nat \<Rightarrow> mem \<Rightarrow> err \<times> bio option \<times> mem" where
  "Bio_Create page sector write len m =
     (let (ok, m) = MakeShared m
      in if \<not> ok then (NoMemory, None, m)
         else let (ok, m) = new m
         in if \<not> ok then (NoMemory, None, m)
         else let (ok, m) = new m
         in if \<not> ok then (NoMemory, None, m)
         else let (ok, m) = new m
         in if \<not> ok then (NoMemory, None, m)
         else let len = (if len = 0 then length page else len)
         in if len = 0 \<or> len > PageSize then (InvalidValue, None, m)
         else (Success,
               Some \<lparr>b_write = write, b_sector = sector, b_data = take len page,
                     b_preflush = False, b_fua = False, b_sync = False\<rparr>, m))"

section \<open>Lists of requests\<close>

record biolist =
  ReqList :: "bio list"
  bl_Result :: err

definition BioList :: biolist where
  "BioList = \<lparr>ReqList = [], bl_Result = Success\<rparr>"

definition AddIo :: "bytes \<Rightarrow> uint64_t \<Rightarrow> bool \<Rightarrow> nat \<Rightarrow> mem \<Rightarrow> biolist \<Rightarrow> err \<times> biolist \<times> mem" where
  "AddIo page position write len m bl =
     (if position AND 511 \<noteq> 0 then (InvalidValue, bl, m)
      else case Bio_Create page (position div 512) write len m of
        (e, None, m) \<Rightarrow> (e, bl, m)
      | (e, Some bio, m) \<Rightarrow>
          (let (ok, m) = new m
           in if \<not> ok then (NoMemory, bl, m)
              else (Success, bl\<lparr>ReqList := ReqList bl @ [bio]\<rparr>, m)))"

text \<open>The variant that copies \<open>dataSize\<close> bytes into a fresh page, whose first content is \<open>junk\<close>.\<close>

definition AddIo_data ::
  "bytes \<Rightarrow> bytes \<Rightarrow> nat \<Rightarrow> uint64_t \<Rightarrow> bool \<Rightarrow> mem \<Rightarrow> biolist \<Rightarrow> err \<times> biolist \<times> mem" where
  "AddIo_data junk data dataSize position write m bl =
     (let (e, m) = Page_Create m
      in if e \<noteq> Success then (e, bl, m)
         else if dataSize > length junk then (Overflow, bl, m)
         else let (page, size) = Page_Write data dataSize 0 junk
         in if size \<noteq> dataSize then (UnexpectedEOF, bl, m)
         else AddIo page position write dataSize m bl)"

text \<open>The completion handler keeps the first error that arrives.\<close>

fun PostEndIo :: "completion list \<Rightarrow> err \<Rightarrow> err" where
  "PostEndIo [] result = result"
| "PostEndIo ((i, e, data) # cs) result =
     PostEndIo cs (if e \<noteq> Success \<and> result = Success then e else result)"

text \<open>The bytes each request holds after completion.\<close>

definition completed_data :: "completion list \<Rightarrow> bio list \<Rightarrow> bytes list" where
  "completed_data cs bs =
     map (\<lambda>(i, b). if b_write b then b_data b
                     else case find (\<lambda>(j, e, d). j = i) cs of Some (j, e, d) \<Rightarrow> d | None \<Rightarrow> b_data b)
       (enumerate 0 bs)"

definition Submit_wait :: "'d block_io \<Rightarrow> bio list \<Rightarrow> err \<Rightarrow> 'd \<Rightarrow> bytes list \<times> err \<times> 'd" where
  "Submit_wait io bs result d =
     (let (cs, d) = io bs d in (completed_data cs bs, PostEndIo cs result, d))"

text \<open>
  Without the barrier all requests go out together. With it, all but the last go out first, and only when
  all of them have completed without an error the last one follows, with a cache flush before it and a
  forced write of its own.
\<close>

definition SubmitWait :: "'d block_io \<Rightarrow> bool \<Rightarrow> biolist \<Rightarrow> 'd \<Rightarrow> bytes list \<times> biolist \<times> 'd" where
  "SubmitWait io preflushFua bl d =
     (let reqs = ReqList bl
      in if reqs = [] then ([], bl, d)
         else if \<not> preflushFua
         then let (datas, r, d) = Submit_wait io reqs (bl_Result bl) d in (datas, bl\<lparr>bl_Result := r\<rparr>, d)
         else
           let lastBio = (last reqs)\<lparr>b_preflush := True, b_fua := True, b_sync := True\<rparr>;
               bl = bl\<lparr>ReqList := butlast reqs @ [lastBio]\<rparr>;
               (datas, r, d) = (if length reqs > 1 then Submit_wait io (butlast reqs) (bl_Result bl) d
                                else ([], bl_Result bl, d))
           in if length reqs > 1 \<and> r \<noteq> Success then (datas, bl\<lparr>bl_Result := r\<rparr>, d)
              else let (data, r', d) = Submit_wait io [lastBio] Success d
                   in (datas @ data, bl\<lparr>bl_Result := r'\<rparr>, d))"

text \<open>One page read from or written to the device.\<close>

definition SubmitWaitResult_page ::
  "'d block_io \<Rightarrow> bytes \<Rightarrow> uint64_t \<Rightarrow> bool \<Rightarrow> bool \<Rightarrow> mem \<Rightarrow> 'd \<Rightarrow> err \<times> bytes \<times> mem \<times> 'd" where
  "SubmitWaitResult_page io page position write preflushFua m d =
     (let (e, bl, m) = AddIo page position write 0 m BioList
      in if e \<noteq> Success then (e, page, m, d)
         else let (datas, bl, d) = SubmitWait io preflushFua bl d
              in (bl_Result bl, (case datas of [] \<Rightarrow> page | x # xs \<Rightarrow> x), m, d))"

definition SubmitWaitResult :: "'d block_io \<Rightarrow> bool \<Rightarrow> biolist \<Rightarrow> 'd \<Rightarrow> err \<times> biolist \<times> 'd" where
  "SubmitWaitResult io preflushFua bl d =
     (let (datas, bl, d) = SubmitWait io preflushFua bl d in (bl_Result bl, bl, d))"

section \<open>What the block layer promises\<close>

definition bio_start :: "bio \<Rightarrow> nat" where
  "bio_start b = 512 * unat (b_sector b)"

definition in_bio :: "bio \<Rightarrow> nat \<Rightarrow> bool" where
  "in_bio b p \<longleftrightarrow> bio_start b \<le> p \<and> p < bio_start b + length (b_data b)"

definition bio_byte :: "bio \<Rightarrow> nat \<Rightarrow> byte_t" where
  "bio_byte b p = b_data b ! (p - bio_start b)"

definition written_by :: "bio list \<Rightarrow> nat \<Rightarrow> bool" where
  "written_by bs p \<longleftrightarrow> list_ex (\<lambda>b. b_write b \<and> in_bio b p) bs"

definition all_ok :: "completion list \<Rightarrow> bool" where
  "all_ok cs \<longleftrightarrow> list_all (\<lambda>(i, e, x). e = Success) cs"

definition overwrite :: "bio \<Rightarrow> (nat \<Rightarrow> byte_t) \<Rightarrow> nat \<Rightarrow> byte_t" where
  "overwrite b f p = (if in_bio b p then bio_byte b p else f p)"

text \<open>
  The device is looked at in two ways: \<open>view d\<close> is the content that reads return, \<open>crash d\<close> the set of contents that
  may be found when the power fails in state \<open>d\<close>, and \<open>crash_in bs d\<close> those that may be found when it fails
  while the requests \<open>bs\<close> are in flight. The assumptions restate the kernel's documentation of the write
  cache: every request completes once; a request touches only its own range; when all requests
  succeed each written byte comes from one of the writes that cover it (overlapping requests are not
  ordered); reads return the visible content; a request with a cache flush makes everything before it
  durable, a forced write is durable itself; and a forced page write is atomic.
\<close>

locale block_layer =
  fixes io :: "'d block_io" and view :: "'d \<Rightarrow> nat \<Rightarrow> byte_t"
    and crash :: "'d \<Rightarrow> (nat \<Rightarrow> byte_t) set" and crash_in :: "bio list \<Rightarrow> 'd \<Rightarrow> (nat \<Rightarrow> byte_t) set"
  assumes each_once: "mset (map fst (fst (io bs d))) = mset [0..<length bs]"
    and view_frame: "\<not> written_by bs p \<Longrightarrow> view (snd (io bs d)) p = view d p"
    and view_write: "io bs d = (cs, d') \<Longrightarrow> all_ok cs \<Longrightarrow> written_by bs p \<Longrightarrow>
      \<exists>b \<in> set bs. b_write b \<and> in_bio b p \<and> view d' p = bio_byte b p"
    and read_data: "io [b] d = ([(i, Success, x)], d') \<Longrightarrow> \<not> b_write b \<Longrightarrow>
      x = map (view d) [bio_start b..<bio_start b + length (b_data b)]"
    and crash_frame: "c \<in> crash (snd (io bs d)) \<Longrightarrow> \<exists>c0 \<in> crash d. \<forall>p. \<not> written_by bs p \<longrightarrow> c p = c0 p"
    and crash_flush: "io [b] d = (cs, d') \<Longrightarrow> all_ok cs \<Longrightarrow> b_write b \<Longrightarrow> b_preflush b \<Longrightarrow> b_fua b \<Longrightarrow>
      crash d' \<subseteq> {overwrite b (view d)}"
    and crash_in_frame: "c \<in> crash_in bs d \<Longrightarrow> \<exists>c0 \<in> crash d. \<forall>p. \<not> written_by bs p \<longrightarrow> c p = c0 p"
    and crash_in_flush: "b_write b \<Longrightarrow> b_preflush b \<Longrightarrow> b_fua b \<Longrightarrow> length (b_data b) = PageSize \<Longrightarrow>
      crash_in [b] d \<subseteq> crash d \<union> {overwrite b (view d)}"
    and crash_view: "view d \<in> crash d"
begin

lemma PostEndIo_ok: "PostEndIo cs r = Success \<longleftrightarrow> r = Success \<and> all_ok cs"
  by (induction cs r rule: PostEndIo.induct) (auto simp: all_ok_def)

lemma single_completion: "\<exists>e x. fst (io [b] d) = [(0, e, x)]"
proof -
  have "mset (map fst (fst (io [b] d))) = {#0#}" using each_once [of "[b]" d] by simp
  then have "map fst (fst (io [b] d)) = [0]" by (metis mset_single_iff_right)
  then show ?thesis by (cases "fst (io [b] d)") auto
qed

lemma Submit_wait_read:
  assumes "Submit_wait io [b] Success d = (datas, Success, d')" "\<not> b_write b"
  shows "datas = [map (view d) [bio_start b..<bio_start b + length (b_data b)]] \<and> view d' = view d"
proof -
  obtain e x d1 where i: "io [b] d = ([(0, e, x)], d1)" using single_completion [of b d] by (cases "io [b] d") auto
  with assms have e: "e = Success" "d' = d1" by (auto simp: Submit_wait_def split: if_splits)
  have "view d' p = view d p" for p using view_frame [of "[b]" p d] i e assms(2) by (simp add: written_by_def)
  then show ?thesis using assms i e read_data [of b d 0 x d1] by (auto simp: Submit_wait_def completed_data_def enumerate_eq_zip)
qed

text \<open>
  The barrier: either an error of the first requests stops the last one from being sent at all, or it is
  sent in a state in which all others are visible; when it succeeds, a power failure afterwards leaves
  exactly the visible content.
\<close>

lemma SubmitWait_barrier:
  assumes reqs: "ReqList bl = bs @ [h]" and res: "bl_Result bl = Success" and run: "SubmitWait io True bl d = (datas, bl', d')"
  shows "\<exists>d1. (bs = [] \<longrightarrow> d1 = d) \<and> (\<forall>p. \<not> written_by bs p \<longrightarrow> view d1 p = view d p) \<and>
    (\<forall>c \<in> crash d1. \<exists>c0 \<in> crash d. \<forall>p. \<not> written_by bs p \<longrightarrow> c p = c0 p) \<and>
    (if bl_Result bl' = Success
     then (\<forall>p. written_by bs p \<longrightarrow> (\<exists>b \<in> set bs. b_write b \<and> in_bio b p \<and> view d1 p = bio_byte b p)) \<and>
       (\<forall>p. \<not> (b_write h \<and> in_bio h p) \<longrightarrow> view d' p = view d1 p) \<and>
       (b_write h \<longrightarrow> view d' = overwrite h (view d1) \<and> crash d' \<subseteq> {view d'})
     else (\<forall>p. \<not> (b_write h \<and> in_bio h p) \<longrightarrow> view d' p = view d1 p))"
proof -
  let ?h = "h\<lparr>b_preflush := True, b_fua := True, b_sync := True\<rparr>"
  obtain cs1 d1 where i1: "(if bs = [] then ([], d) else io bs d) = (cs1, d1)" by fastforce
  have f1: "view d1 p = view d p" if "\<not> written_by bs p" for p
    using i1 view_frame [OF that, of d] by (auto split: if_splits)
  have c1: "\<exists>c0 \<in> crash d. \<forall>p. \<not> written_by bs p \<longrightarrow> c p = c0 p" if "c \<in> crash d1" for c
    using i1 crash_frame [of c bs d] that by (auto split: if_splits)
  have base: "(bs = [] \<longrightarrow> d1 = d) \<and> (\<forall>p. \<not> written_by bs p \<longrightarrow> view d1 p = view d p) \<and>
    (\<forall>c \<in> crash d1. \<exists>c0 \<in> crash d. \<forall>p. \<not> written_by bs p \<longrightarrow> c p = c0 p)"
    using f1 c1 i1 by (auto split: if_splits)
  have w1: "\<exists>b \<in> set bs. b_write b \<and> in_bio b p \<and> view d1 p = bio_byte b p" if "all_ok cs1" "written_by bs p" for p
    using i1 view_write [of bs d cs1 d1] that by (auto simp: written_by_def split: if_splits)
  obtain cs2 d2 where i2: "io [?h] d1 = (cs2, d2)" by fastforce
  have in_h: "in_bio ?h p = in_bio h p" "bio_byte ?h p = bio_byte h p" for p
    by (auto simp: in_bio_def bio_byte_def bio_start_def)
  have ov: "overwrite ?h f = overwrite h f" for f using in_h by (auto simp: overwrite_def fun_eq_iff)
  have f2: "view d2 p = view d1 p" if "\<not> (b_write h \<and> in_bio h p)" for p
    using view_frame [of "[?h]" p d1] that i2 in_h by (auto simp: written_by_def)
  have w2: "view d2 = overwrite h (view d1)" if "all_ok cs2" "b_write h"
  proof
    fix p show "view d2 p = overwrite h (view d1) p"
      using view_write [OF i2 that(1), of p] f2 [of p] that(2) in_h by (auto simp: written_by_def overwrite_def)
  qed
  have k2: "crash d2 \<subseteq> {view d2}" if "all_ok cs2" "b_write h"
    using crash_flush [OF i2 that(1)] that(2) w2 [OF that] ov by simp
  show ?thesis
  proof (cases "all_ok cs1")
    case True
    then have "d' = d2" "bl_Result bl' = Success \<longleftrightarrow> all_ok cs2"
      using run reqs res i1 i2
      by (auto simp: SubmitWait_def Submit_wait_def PostEndIo_ok Let_def split: if_splits prod.splits)
    then show ?thesis using base f2 w1 w2 k2 True by (intro exI [of _ d1]) auto
  next
    case False
    then have "d' = d1" "bl_Result bl' \<noteq> Success"
      using run reqs res i1
      by (auto simp: SubmitWait_def Submit_wait_def PostEndIo_ok Let_def all_ok_def split: if_splits prod.splits)
    then show ?thesis using base by (intro exI [of _ d1]) auto
  qed
qed

end

section \<open>Power failure during a barrier\<close>

text \<open>
  The contents that may be found when the power fails at any moment from the start of a submission with
  barrier to its successful end: before and while the first requests are in flight, between them and the
  last one, while the last one is in flight, and after its success.
\<close>

definition barrier_bio :: "bio \<Rightarrow> bio" where
  "barrier_bio h = h\<lparr>b_preflush := True, b_fua := True, b_sync := True\<rparr>"

definition crash_points ::
  "'d block_io \<Rightarrow> ('d \<Rightarrow> (nat \<Rightarrow> byte_t) set) \<Rightarrow> (bio list \<Rightarrow> 'd \<Rightarrow> (nat \<Rightarrow> byte_t) set) \<Rightarrow> bio list \<Rightarrow> bio \<Rightarrow> 'd \<Rightarrow>
   (nat \<Rightarrow> byte_t) set" where
  "crash_points io crash crash_in bs h d =
     (let (cs1, d1) = (if bs = [] then ([], d) else io bs d);
          (cs2, d2) = io [barrier_bio h] d1
      in crash d \<union> (if bs = [] then {} else crash_in bs d) \<union> crash d1 \<union>
         (if all_ok cs1 then crash_in [barrier_bio h] d1 \<union> (if all_ok cs2 then crash d2 else {}) else {}))"

lemma barrier_bio_simps [simp]:
  "in_bio (barrier_bio h) p = in_bio h p" "bio_byte (barrier_bio h) p = bio_byte h p" "b_write (barrier_bio h) = b_write h"
  "b_data (barrier_bio h) = b_data h" "overwrite (barrier_bio h) f = overwrite h f"
  "b_preflush (barrier_bio h)" "b_fua (barrier_bio h)"
  by (auto simp: barrier_bio_def in_bio_def bio_byte_def bio_start_def overwrite_def fun_eq_iff)

context block_layer
begin

lemma crash_points_cases:
  assumes h: "b_write h" "length (b_data h) = PageSize" and c: "c \<in> crash_points io crash crash_in bs h d"
  shows "(\<exists>c0 \<in> crash d. \<forall>p. \<not> written_by bs p \<longrightarrow> c p = c0 p) \<or>
    (\<exists>v. c = overwrite h v \<and> (\<forall>p. \<not> written_by bs p \<longrightarrow> v p = view d p) \<and>
       (\<forall>p. written_by bs p \<longrightarrow> (\<exists>b \<in> set bs. b_write b \<and> in_bio b p \<and> v p = bio_byte b p)))"
proof -
  obtain cs1 d1 where i1: "(if bs = [] then ([], d) else io bs d) = (cs1, d1)" by fastforce
  obtain cs2 d2 where i2: "io [barrier_bio h] d1 = (cs2, d2)" by fastforce
  have c1: "\<exists>c0 \<in> crash d. \<forall>p. \<not> written_by bs p \<longrightarrow> x p = c0 p" if "x \<in> crash d1" for x
    using i1 crash_frame [of x bs d] that by (auto split: if_splits)
  have f1: "view d1 p = view d p" if "\<not> written_by bs p" for p
    using i1 view_frame [OF that, of d] by (auto split: if_splits)
  have w1: "\<exists>b \<in> set bs. b_write b \<and> in_bio b p \<and> view d1 p = bio_byte b p" if "all_ok cs1" "written_by bs p" for p
    using i1 view_write [of bs d cs1 d1] that by (auto simp: written_by_def split: if_splits)
  have "crash_in [barrier_bio h] d1 \<subseteq> crash d1 \<union> {overwrite h (view d1)}"
    using crash_in_flush [of "barrier_bio h" d1] h by simp
  moreover have "crash d2 \<subseteq> {overwrite h (view d1)}" if "all_ok cs2"
    using crash_flush [OF i2 that] h by simp
  ultimately consider "c \<in> crash d" | "bs \<noteq> []" "c \<in> crash_in bs d" | "c \<in> crash d1"
    | "all_ok cs1" "c = overwrite h (view d1)"
    using c i1 i2 by (auto simp: crash_points_def split: if_splits)
  then show ?thesis
  proof cases
    case 2
    then show ?thesis using crash_in_frame by blast
  next
    case 4
    then show ?thesis using f1 w1 by blast
  qed (use c1 in blast)+
qed

end


section \<open>A disk with a write-back cache\<close>

text \<open>
  A device that satisfies the assumptions: writes go to a cache and reach the medium in any selection when
  the power fails, unless a flush empties the cache; a schedule decides which requests fail.
\<close>

record disk =
  medium :: "nat \<Rightarrow> byte_t"
  cache :: "bio list"
  faults :: "err list"

definition disk_view :: "disk \<Rightarrow> nat \<Rightarrow> byte_t" where
  "disk_view d = foldl (\<lambda>f b. overwrite b f) (medium d) (cache d)"

definition disk_crash :: "disk \<Rightarrow> (nat \<Rightarrow> byte_t) set" where
  "disk_crash d = {foldl (\<lambda>f b. overwrite b f) (medium d) sub | sub. subseq sub (cache d)}"

definition next_fault :: "disk \<Rightarrow> err \<times> disk" where
  "next_fault d = (case faults d of [] \<Rightarrow> (Success, d) | e # es \<Rightarrow> (e, d\<lparr>faults := es\<rparr>))"

definition disk_step :: "bio \<Rightarrow> disk \<Rightarrow> err \<times> bytes \<times> disk" where
  "disk_step b d =
     (let (e, d) = next_fault d
      in if e \<noteq> Success then (e, b_data b, d)
         else if \<not> b_write b then (Success, map (disk_view d) [bio_start b..<bio_start b + length (b_data b)], d)
         else let d = (if b_preflush b then d\<lparr>medium := disk_view d, cache := []\<rparr> else d)
              in (Success, b_data b,
                  if b_fua b then d\<lparr>medium := overwrite b (disk_view d), cache := []\<rparr>
                  else d\<lparr>cache := cache d @ [b]\<rparr>))"

fun disk_run :: "nat \<Rightarrow> bio list \<Rightarrow> disk \<Rightarrow> completion list \<times> disk" where
  "disk_run i [] d = ([], d)"
| "disk_run i (b # bs) d =
     (let (e, x, d) = disk_step b d; (cs, d) = disk_run (Suc i) bs d in ((i, e, x) # cs, d))"

definition disk_io :: "disk block_io" where
  "disk_io = disk_run 0"

definition disk_crash_in :: "bio list \<Rightarrow> disk \<Rightarrow> (nat \<Rightarrow> byte_t) set" where
  "disk_crash_in bs d = (\<Union>n \<in> {..length bs}. disk_crash (snd (disk_run 0 (take n bs) d)))"

lemma next_fault_simps:
  assumes "next_fault d = (e, d1)"
  shows "medium d1 = medium d" "cache d1 = cache d" "disk_view d1 = disk_view d" "disk_crash d1 = disk_crash d"
  using assms by (auto simp: next_fault_def disk_view_def disk_crash_def split: list.splits)

lemma disk_view_crash: "disk_view d \<in> disk_crash d"
  by (auto simp: disk_view_def disk_crash_def intro!: exI [of _ "cache d"])

lemma subseq_Nil_iff [simp]: "subseq xs [] \<longleftrightarrow> xs = []"
  by (auto dest: list_emb_Nil2)

lemma disk_view_updates:
  "disk_view (d\<lparr>medium := f, cache := []\<rparr>) = f" "disk_view (d\<lparr>cache := cache d @ [b]\<rparr>) = overwrite b (disk_view d)"
  "disk_crash (d\<lparr>medium := f, cache := []\<rparr>) = {f}"
  by (auto simp: disk_view_def disk_crash_def)

lemma disk_crash_push:
  "c \<in> disk_crash (d\<lparr>cache := cache d @ [b]\<rparr>) \<Longrightarrow> \<exists>c0 \<in> disk_crash d. c = c0 \<or> c = overwrite b c0"
proof -
  assume "c \<in> disk_crash (d\<lparr>cache := cache d @ [b]\<rparr>)"
  then obtain sub where c: "c = foldl (\<lambda>f b. overwrite b f) (medium d) sub" and s: "subseq sub (cache d @ [b])"
    by (auto simp: disk_crash_def)
  from s obtain xs ys where x: "sub = xs @ ys" "subseq xs (cache d)" "subseq ys [b]" by (auto simp: subseq_append_iff)
  then have "ys = [] \<or> ys = [b]" by (cases ys) (auto split: if_splits)
  then show ?thesis using c x by (auto simp: disk_crash_def)
qed

lemma disk_step_cases:
  assumes "disk_step b d = (e, x, d')"
  obtains (idle) "disk_view d' = disk_view d" "disk_crash d' = disk_crash d" "e \<noteq> Success \<or> \<not> b_write b"
  | (forced) "e = Success" "b_write b" "disk_view d' = overwrite b (disk_view d)" "disk_crash d' = {overwrite b (disk_view d)}"
  | (cached) d2 where "e = Success" "b_write b" "\<not> b_fua b" "disk_view d2 = disk_view d" "disk_crash d2 \<subseteq> disk_crash d"
      "d' = d2\<lparr>cache := cache d2 @ [b]\<rparr>"
proof -
  obtain e1 d1 where n: "next_fault d = (e1, d1)" by fastforce
  note s = next_fault_simps [OF n]
  define d2 where "d2 = (if b_preflush b then d1\<lparr>medium := disk_view d1, cache := []\<rparr> else d1)"
  have d2: "disk_view d2 = disk_view d" "disk_crash d2 \<subseteq> disk_crash d"
    using disk_view_crash [of d] s by (auto simp: d2_def disk_view_updates)
  show ?thesis
  proof (cases "e1 = Success \<and> b_write b")
    case False
    then show ?thesis using assms n s by (intro idle) (auto simp: disk_step_def Let_def split: if_splits)
  next
    case True
    then have d': "e = Success"
      "d' = (if b_fua b then d2\<lparr>medium := overwrite b (disk_view d2), cache := []\<rparr> else d2\<lparr>cache := cache d2 @ [b]\<rparr>)"
      using assms n by (auto simp: disk_step_def d2_def Let_def split: if_splits)
    then show ?thesis using True d2 by (cases "b_fua b") (auto simp: disk_view_updates intro: forced cached)
  qed
qed

lemma disk_step_frame:
  assumes "disk_step b d = (e, x, d')"
  shows "\<not> (b_write b \<and> in_bio b p) \<Longrightarrow> disk_view d' p = disk_view d p"
    and "c \<in> disk_crash d' \<Longrightarrow> \<exists>c0 \<in> disk_crash d. \<forall>p. \<not> (b_write b \<and> in_bio b p) \<longrightarrow> c p = c0 p"
proof -
  show "disk_view d' p = disk_view d p" if "\<not> (b_write b \<and> in_bio b p)"
    using assms by (cases rule: disk_step_cases) (use that in \<open>auto simp: disk_view_updates overwrite_def\<close>)
  show "\<exists>c0 \<in> disk_crash d. \<forall>p. \<not> (b_write b \<and> in_bio b p) \<longrightarrow> c p = c0 p" if c: "c \<in> disk_crash d'"
    using assms
  proof (cases rule: disk_step_cases)
    case forced
    then show ?thesis using c disk_view_crash [of d] by (intro bexI [of _ "disk_view d"]) (auto simp: overwrite_def)
  next
    case (cached d2)
    then obtain c0 where "c0 \<in> disk_crash d2" "c = c0 \<or> c = overwrite b c0" using disk_crash_push [of c d2 b] c by auto
    then show ?thesis using cached by (intro bexI [of _ c0]) (auto simp: overwrite_def)
  qed (use c in auto)
qed

lemma disk_step_write:
  assumes "disk_step b d = (Success, x, d')" "b_write b"
  shows "disk_view d' = overwrite b (disk_view d)" "b_fua b \<Longrightarrow> disk_crash d' = {overwrite b (disk_view d)}"
  using assms by (cases rule: disk_step_cases; auto simp: disk_view_updates)+

lemma disk_run_index: "map fst (fst (disk_run i bs d)) = [i..<i + length bs]"
proof (induction bs arbitrary: i d)
  case (Cons b bs)
  obtain e x d1 where s: "disk_step b d = (e, x, d1)" by (cases "disk_step b d") auto
  have "map fst (fst (disk_run (Suc i) bs d1)) = [Suc i..<Suc i + length bs]" by (rule Cons.IH)
  then show ?case using s by (simp add: Let_def split_beta upt_conv_Cons del: upt_Suc)
qed simp

lemma disk_run_frame:
  "\<not> written_by bs p \<Longrightarrow> disk_view (snd (disk_run i bs d)) p = disk_view d p"
proof (induction bs arbitrary: i d)
  case (Cons b bs)
  obtain e x d1 where s: "disk_step b d = (e, x, d1)" by (cases "disk_step b d") auto
  from Cons.prems have "\<not> written_by bs p" "\<not> (b_write b \<and> in_bio b p)" by (auto simp: written_by_def)
  then show ?case using Cons.IH [of "Suc i" d1] disk_step_frame(1) [OF s, of p] s by (simp add: Let_def split_beta)
qed simp

lemma disk_run_crash:
  "c \<in> disk_crash (snd (disk_run i bs d)) \<Longrightarrow> \<exists>c0 \<in> disk_crash d. \<forall>p. \<not> written_by bs p \<longrightarrow> c p = c0 p"
proof (induction bs arbitrary: i d)
  case (Cons b bs)
  obtain e x d1 where s: "disk_step b d = (e, x, d1)" by (cases "disk_step b d") auto
  with Cons.prems have "c \<in> disk_crash (snd (disk_run (Suc i) bs d1))" by (simp add: Let_def split_beta)
  from Cons.IH [OF this] obtain c1 where c1: "c1 \<in> disk_crash d1" "\<forall>p. \<not> written_by bs p \<longrightarrow> c p = c1 p" by blast
  from disk_step_frame(2) [OF s c1(1)] obtain c0 where
    "c0 \<in> disk_crash d" "\<forall>p. \<not> (b_write b \<and> in_bio b p) \<longrightarrow> c1 p = c0 p" by blast
  then show ?case using c1(2) by (intro bexI [of _ c0]) (auto simp: written_by_def)
qed auto

lemma disk_run_write:
  "disk_run i bs d = (cs, d') \<Longrightarrow> all_ok cs \<Longrightarrow> written_by bs p \<Longrightarrow>
    \<exists>b \<in> set bs. b_write b \<and> in_bio b p \<and> disk_view d' p = bio_byte b p"
proof (induction bs arbitrary: i d cs)
  case (Cons b bs)
  obtain e x d1 where s: "disk_step b d = (e, x, d1)" by (cases "disk_step b d") auto
  obtain cs1 where r: "disk_run (Suc i) bs d1 = (cs1, d')" "cs = (i, e, x) # cs1"
    using Cons.prems(1) s by (cases "disk_run (Suc i) bs d1") (auto simp: Let_def)
  have ok: "e = Success" "all_ok cs1" using Cons.prems(2) r(2) by (auto simp: all_ok_def)
  show ?case
  proof (cases "written_by bs p")
    case True
    then show ?thesis using Cons.IH [OF r(1) ok(2) True] by auto
  next
    case False
    then have b: "b_write b" "in_bio b p" using Cons.prems(3) by (auto simp: written_by_def)
    have "disk_view d' p = disk_view d1 p" using disk_run_frame [OF False, of "Suc i" d1] r(1) by simp
    then show ?thesis using b disk_step_write(1) [OF s [unfolded ok(1)] b(1)] by (auto simp: overwrite_def)
  qed
qed (simp add: written_by_def)

interpretation wb: block_layer disk_io disk_view disk_crash disk_crash_in
proof
  fix bs b c and d d' :: disk and cs i x p
  show "mset (map fst (fst (disk_io bs d))) = mset [0..<length bs]"
    by (simp only: disk_io_def disk_run_index) simp
  show "\<not> written_by bs p \<Longrightarrow> disk_view (snd (disk_io bs d)) p = disk_view d p"
    unfolding disk_io_def by (rule disk_run_frame)
  show "disk_io bs d = (cs, d') \<Longrightarrow> all_ok cs \<Longrightarrow> written_by bs p \<Longrightarrow>
      \<exists>b \<in> set bs. b_write b \<and> in_bio b p \<and> disk_view d' p = bio_byte b p"
    unfolding disk_io_def by (rule disk_run_write)
  show "disk_io [b] d = ([(i, Success, x)], d') \<Longrightarrow> \<not> b_write b \<Longrightarrow>
      x = map (disk_view d) [bio_start b..<bio_start b + length (b_data b)]"
    using next_fault_simps [of d] by (auto simp: disk_io_def disk_step_def Let_def split: if_splits prod.splits)
  show "c \<in> disk_crash (snd (disk_io bs d)) \<Longrightarrow> \<exists>c0 \<in> disk_crash d. \<forall>p. \<not> written_by bs p \<longrightarrow> c p = c0 p"
    unfolding disk_io_def by (rule disk_run_crash)
  show "disk_crash d' \<subseteq> {overwrite b (disk_view d)}"
    if "disk_io [b] d = (cs, d')" "all_ok cs" "b_write b" "b_preflush b" "b_fua b"
  proof -
    obtain e y d1 where s: "disk_step b d = (e, y, d1)" by (cases "disk_step b d") auto
    with that have "e = Success" "d1 = d'" by (auto simp: disk_io_def all_ok_def)
    then show ?thesis using disk_step_write(2) [of b d y d'] s that by simp
  qed
  show "\<exists>c0 \<in> disk_crash d. \<forall>p. \<not> written_by bs p \<longrightarrow> c p = c0 p" if c: "c \<in> disk_crash_in bs d"
  proof -
    from c obtain n where "c \<in> disk_crash (snd (disk_run 0 (take n bs) d))" by (auto simp: disk_crash_in_def)
    from disk_run_crash [OF this] obtain c0 where "c0 \<in> disk_crash d" "\<forall>p. \<not> written_by (take n bs) p \<longrightarrow> c p = c0 p"
      by blast
    moreover have "written_by (take n bs) p \<Longrightarrow> written_by bs p" for p
      by (auto simp: written_by_def list_ex_iff dest: in_set_takeD)
    ultimately show ?thesis by blast
  qed
  show "disk_crash_in [b] d \<subseteq> disk_crash d \<union> {overwrite b (disk_view d)}"
    if "b_write b" "b_preflush b" "b_fua b" "length (b_data b) = PageSize"
  proof -
    obtain e y d1 where s: "disk_step b d = (e, y, d1)" by (cases "disk_step b d") auto
    have "disk_crash d1 \<subseteq> disk_crash d \<union> {overwrite b (disk_view d)}"
    proof (cases "e = Success")
      case True
      then show ?thesis using disk_step_write(2) [of b d y d1] s that by simp
    next
      case False
      then show ?thesis using s next_fault_simps(4) [of d] by (auto simp: disk_step_def Let_def split: if_splits prod.splits)
    qed
    moreover have "{..length [b]} = {0, 1}" by auto
    ultimately show ?thesis using s by (auto simp: disk_crash_in_def)
  qed
  show "disk_view d \<in> disk_crash d" by (rule disk_view_crash)
qed

text \<open>The same disk when no request fails.\<close>

lemma block_layer_prepare:
  assumes "block_layer io view crash crash_in" "\<And>d. view (g d) = view d" "\<And>d. crash (g d) = crash d"
  shows "block_layer (\<lambda>bs d. io bs (g d)) view crash (\<lambda>bs d. crash_in bs (g d))"
proof -
  note L = assms(1) [unfolded block_layer_def]
  show ?thesis unfolding block_layer_def
    using L assms(2,3) by (intro conjI allI impI) metis+
qed

definition good_disk_io :: "disk block_io" where
  "good_disk_io bs d = disk_io bs (d\<lparr>faults := []\<rparr>)"

definition good_crash_in :: "bio list \<Rightarrow> disk \<Rightarrow> (nat \<Rightarrow> byte_t) set" where
  "good_crash_in bs d = disk_crash_in bs (d\<lparr>faults := []\<rparr>)"

interpretation good: block_layer good_disk_io disk_view disk_crash good_crash_in
proof -
  have "disk_view (d\<lparr>faults := []\<rparr>) = disk_view d" "disk_crash (d\<lparr>faults := []\<rparr>) = disk_crash d" for d
    by (simp_all add: disk_view_def disk_crash_def)
  from block_layer_prepare [OF wb.block_layer_axioms this]
  show "block_layer good_disk_io disk_view disk_crash good_crash_in"
    by (simp add: good_disk_io_def [abs_def] good_crash_in_def [abs_def])
qed

section \<open>Single pages\<close>

lemma and_511: "(x::uint64_t) AND 511 = 0 \<longleftrightarrow> unat x mod 512 = 0"
proof -
  have "(511::uint64_t) = mask 9" by (simp add: mask_numeral)
  then have "x AND 511 = take_bit 9 x" by (simp add: take_bit_eq_mask)
  then have "unat (x AND 511) = unat x mod 512" by (simp add: take_bit_eq_mod unat_mod)
  then show ?thesis by (metis unsigned_0 unsigned_eq_0_iff)
qed

lemma sector_start: "(x::uint64_t) AND 511 = 0 \<Longrightarrow> 512 * unat (x div 512) = unat x"
  by (auto simp: and_511 unat_div)

definition page_at :: "(nat \<Rightarrow> byte_t) \<Rightarrow> nat \<Rightarrow> bytes" where
  "page_at f p = map f [p..<p + PageSize]"

definition put_page :: "nat \<Rightarrow> bytes \<Rightarrow> (nat \<Rightarrow> byte_t) \<Rightarrow> nat \<Rightarrow> byte_t" where
  "put_page q page f p = (if q \<le> p \<and> p < q + length page then page ! (p - q) else f p)"

lemma length_page_at [simp]: "length (page_at f p) = PageSize"
  by (simp add: page_at_def)

lemma page_at_put_same: "length page = PageSize \<Longrightarrow> page_at (put_page q page f) q = page"
  by (rule nth_equalityI) (auto simp: page_at_def put_page_def)

lemma page_at_cong: "(\<And>p. q \<le> p \<Longrightarrow> p < q + PageSize \<Longrightarrow> f p = g p) \<Longrightarrow> page_at f q = page_at g q"
  by (simp add: page_at_def)

lemma Bio_Create_page:
  assumes "Bio_Create page sector write len m = (e, r, m')" "length page = PageSize"
  shows "(e = Success \<longleftrightarrow> r \<noteq> None) \<and> (r = None \<or> len \<le> PageSize \<and> r = Some \<lparr>b_write = write, b_sector = sector,
      b_data = take (if len = 0 then PageSize else len) page, b_preflush = False, b_fua = False, b_sync = False\<rparr>)"
  using assms by (auto simp: Bio_Create_def PageSize_def error_codes Let_def split: if_splits prod.splits)

lemma AddIo_spec:
  assumes a: "AddIo page position write len m bl = (e, bl', m')" and l: "length page = PageSize"
  shows "if e = Success
    then position AND 511 = 0 \<and> len \<le> PageSize \<and> bl_Result bl' = bl_Result bl \<and> ReqList bl' = ReqList bl @
      [\<lparr>b_write = write, b_sector = position div 512, b_data = take (if len = 0 then PageSize else len) page,
        b_preflush = False, b_fua = False, b_sync = False\<rparr>]
    else bl' = bl"
proof (cases "position AND 511 = 0")
  case True
  obtain e1 r m1 where b: "Bio_Create page (position div 512) write len m = (e1, r, m1)" by (cases "Bio_Create page (position div 512) write len m") auto
  from Bio_Create_page [OF b l] show ?thesis using a True b
    by (cases r) (auto simp: AddIo_def error_codes Let_def split: if_splits prod.splits)
qed (use a in \<open>auto simp: AddIo_def error_codes\<close>)

lemma AddIo_reliable:
  assumes "position AND 511 = 0" "length page = PageSize" "len \<le> PageSize"
  shows "AddIo page position write len [] bl = (Success, bl\<lparr>ReqList := ReqList bl @
      [\<lparr>b_write = write, b_sector = position div 512, b_data = take (if len = 0 then PageSize else len) page,
        b_preflush = False, b_fua = False, b_sync = False\<rparr>]\<rparr>, [])"
  using assms by (simp add: AddIo_def Bio_Create_def PageSize_def)

definition reliable :: "'d block_io \<Rightarrow> bool" where
  "reliable io \<longleftrightarrow> (\<forall>bs d. all_ok (fst (io bs d)))"

lemma reliable_good_disk: "reliable good_disk_io"
proof -
  have "all_ok (fst (disk_run i bs d))" if "faults d = []" for i bs d
    using that
  proof (induction bs arbitrary: i d)
    case (Cons b bs)
    obtain e x d1 where s: "disk_step b d = (e, x, d1)" by (cases "disk_step b d") auto
    then have "e = Success" "faults d1 = []"
      using Cons.prems by (auto simp: disk_step_def next_fault_def Let_def split: if_splits)
    then show ?case using s Cons.IH [of d1 "Suc i"] by (auto simp: all_ok_def split: prod.splits)
  qed (simp add: all_ok_def)
  then show ?thesis by (simp add: reliable_def good_disk_io_def disk_io_def)
qed

context block_layer
begin

lemma read_page:
  assumes "SubmitWaitResult_page io page position False False m d = (Success, page', m', d')" "length page = PageSize"
  shows "page' = page_at (view d) (unat position) \<and> view d' = view d"
proof -
  obtain e bl m1 where a: "AddIo page position False 0 m BioList = (e, bl, m1)" by (cases "AddIo page position False 0 m BioList") auto
  have e: "e = Success" using assms(1) a by (auto simp: SubmitWaitResult_page_def split: if_splits)
  let ?b = "\<lparr>b_write = False, b_sector = position div 512, b_data = take PageSize page,
        b_preflush = False, b_fua = False, b_sync = False\<rparr>"
  from AddIo_spec [OF a assms(2)] have p: "position AND 511 = 0" "bl = \<lparr>ReqList = [?b], bl_Result = Success\<rparr>"
    unfolding e by (auto simp: BioList_def)
  obtain datas r d1 where s: "Submit_wait io [?b] Success d = (datas, r, d1)" by (cases "Submit_wait io [?b] Success d") auto
  have r: "r = Success" "d1 = d'" "page' = (case datas of [] \<Rightarrow> page | x # xs \<Rightarrow> x)"
    using assms(1) a e p s by (auto simp: SubmitWaitResult_page_def SubmitWait_def)
  from Submit_wait_read [OF s [unfolded r]] show ?thesis
    using r assms(2) sector_start [OF p(1)] by (simp add: bio_start_def page_at_def)
qed

lemma write_page:
  assumes w: "SubmitWaitResult_page io page position True True m d = (Success, page', m', d')" and l: "length page = PageSize"
  shows "view d' = put_page (unat position) page (view d) \<and> crash d' \<subseteq> {view d'}"
proof -
  obtain e bl m1 where a: "AddIo page position True 0 m BioList = (e, bl, m1)" by (cases "AddIo page position True 0 m BioList") auto
  have e: "e = Success" using w a by (auto simp: SubmitWaitResult_page_def split: if_splits)
  let ?b = "\<lparr>b_write = True, b_sector = position div 512, b_data = take PageSize page,
        b_preflush = False, b_fua = False, b_sync = False\<rparr>"
  from AddIo_spec [OF a l] have p: "position AND 511 = 0" "bl = \<lparr>ReqList = [?b], bl_Result = Success\<rparr>"
    unfolding e by (auto simp: BioList_def)
  obtain datas bl' d1 where s: "SubmitWait io True bl d = (datas, bl', d1)" by (cases "SubmitWait io True bl d") auto
  have r: "bl_Result bl' = Success" "d1 = d'" using w a e s by (auto simp: SubmitWaitResult_page_def)
  have "ReqList bl = [] @ [?b]" "bl_Result bl = Success" using p by simp_all
  from SubmitWait_barrier [OF this s] have "view d' = overwrite ?b (view d) \<and> crash d' \<subseteq> {view d'}"
    unfolding r by simp metis
  then show ?thesis using sector_start [OF p(1)] l
    by (simp add: fun_eq_iff overwrite_def put_page_def in_bio_def bio_byte_def bio_start_def)
qed

lemma read_page_reliable:
  assumes "reliable io" "position AND 511 = 0" "length page = PageSize"
  shows "\<exists>d'. SubmitWaitResult_page io page position False False [] d = (Success, page_at (view d) (unat position), [], d') \<and>
    view d' = view d \<and> crash d' \<subseteq> crash d"
proof -
  let ?b = "\<lparr>b_write = False, b_sector = position div 512, b_data = take PageSize page,
        b_preflush = False, b_fua = False, b_sync = False\<rparr>"
  obtain e x d1 where i: "io [?b] d = ([(0, e, x)], d1)" using single_completion [of ?b d] by (cases "io [?b] d") auto
  have "all_ok (fst (io [?b] d))" using assms(1) by (simp add: reliable_def)
  then have "e = Success" using i by (simp add: all_ok_def)
  then have r: "\<exists>p. SubmitWaitResult_page io page position False False [] d = (Success, p, [], d1)"
    using i AddIo_reliable [OF assms(2,3), of 0 False BioList]
    by (simp add: SubmitWaitResult_page_def SubmitWait_def Submit_wait_def BioList_def Let_def)
  have "crash d1 \<subseteq> crash d"
  proof
    fix c assume "c \<in> crash d1"
    then obtain c0 where "c0 \<in> crash d" "\<And>p. c p = c0 p" using crash_frame [of c "[?b]" d] i by (auto simp: written_by_def)
    then show "c \<in> crash d" by (metis ext)
  qed
  then show ?thesis using r read_page [OF _ assms(3)] by blast
qed

lemma write_page_reliable:
  assumes "reliable io" "position AND 511 = 0" "length page = PageSize"
  shows "\<exists>page' d'. SubmitWaitResult_page io page position True True [] d = (Success, page', [], d')"
proof -
  let ?b = "\<lparr>b_write = True, b_sector = position div 512, b_data = take PageSize page,
        b_preflush = True, b_fua = True, b_sync = True\<rparr>"
  obtain e x d1 where i: "io [?b] d = ([(0, e, x)], d1)" using single_completion [of ?b d] by (cases "io [?b] d") auto
  have "all_ok (fst (io [?b] d))" using assms(1) by (simp add: reliable_def)
  then have "e = Success" using i by (simp add: all_ok_def)
  then show ?thesis
    using i AddIo_reliable [OF assms(2,3), of 0 True BioList]
    by (simp add: SubmitWaitResult_page_def SubmitWait_def Submit_wait_def BioList_def Let_def)
qed

end

section \<open>Properties\<close>


definition sample_page_bio :: "uint64_t \<Rightarrow> byte_t \<Rightarrow> bio" where
  "sample_page_bio sector x = \<lparr>b_write = True, b_sector = sector, b_data = replicate PageSize x,
     b_preflush = False, b_fua = False, b_sync = False\<rparr>"


end
