(* ===== verification/Guid.thy ===== *)
theory Guid
  imports Prelude
begin

unbundle bit_operations_syntax

text \<open>
  Identifiers of \<^verbatim>\<open>src/kstor/guid.cpp\<close>: sixteen bytes, compared as memory and hashed byte by byte for the
  hash tables of transactions and chunks.
\<close>

type_synonym guid = bytes

definition GuidSize :: nat where "GuidSize = 16"

definition Guid_default :: guid where
  "Guid_default = replicate GuidSize 0"

text \<open>\<^verbatim>\<open>memcmp\<close> on unsigned bytes, up to the sign.\<close>

fun MemCmp :: "bytes \<Rightarrow> bytes \<Rightarrow> nat \<Rightarrow> int" where
  "MemCmp a b 0 = 0"
| "MemCmp (x # a) (y # b) (Suc n) = (if x = y then MemCmp a b n else if x < y then - 1 else 1)"
| "MemCmp a b (Suc n) = 0"

definition Guid_Compare :: "guid \<Rightarrow> guid \<Rightarrow> int" where
  "Guid_Compare a b = MemCmp a b GuidSize"

definition Guid_eq :: "guid \<Rightarrow> guid \<Rightarrow> bool" where
  "Guid_eq a b = (if Guid_Compare a b = 0 then True else False)"

fun Guid_Hash_loop :: "size_t \<Rightarrow> bytes \<Rightarrow> size_t" where
  "Guid_Hash_loop hash [] = hash"
| "Guid_Hash_loop hash (x # xs) = Guid_Hash_loop ((push_bit 5 hash + hash) + ucast x) xs"

definition Guid_Hash :: "guid \<Rightarrow> size_t" where
  "Guid_Hash g = Guid_Hash_loop 5381 (take GuidSize g)"

text \<open>Moving an identifier clears the source.\<close>

definition Guid_move :: "guid \<Rightarrow> guid \<times> guid" where
  "Guid_move other = (other, Guid_default)"

text \<open>Generation fills the sixteen bytes from the random device, a parameter: its error or its bytes.\<close>

definition Guid_Generate :: "int + bytes \<Rightarrow> guid \<Rightarrow> int \<times> guid" where
  "Guid_Generate rng g = (case rng of Inl e \<Rightarrow> (e, g) | Inr bs \<Rightarrow> (0, take GuidSize bs))"

lemma MemCmp_zero: "length a = n \<Longrightarrow> length b = n \<Longrightarrow> MemCmp a b n = 0 \<longleftrightarrow> a = b"
  by (induction a b n rule: MemCmp.induct) auto

lemma Guid_eq_iff: "length a = GuidSize \<Longrightarrow> length b = GuidSize \<Longrightarrow> Guid_eq a b \<longleftrightarrow> a = b"
  by (simp add: Guid_eq_def Guid_Compare_def MemCmp_zero)

lemma Guid_eq_refl [simp]: "Guid_eq a a"
proof -
  have "MemCmp a a n = 0" for n
    by (induction n arbitrary: a) (case_tac a, auto)+
  then show ?thesis by (simp add: Guid_eq_def Guid_Compare_def)
qed

end
