(* ===== verification/Layout.thy ===== *)
theory Layout
  imports Byte_Order
begin

text \<open>
  Packed structures in memory: a structure is its bytes, and a field is a range of them, read and written in the
  byte order of the host. The structures of \<^verbatim>\<open>src/kstor/api.h\<close> are all of this kind. The facts say that
  writing a field changes that field only, and that the conversions to little-endian make the bytes the
  same on every host.
\<close>

section \<open>Fields of a structure in memory\<close>

definition put :: "nat \<Rightarrow> bytes \<Rightarrow> bytes \<Rightarrow> bytes" where
  "put off bs p = take off p @ bs @ drop (off + length bs) p"

definition get32 :: "host \<Rightarrow> nat \<Rightarrow> bytes \<Rightarrow> uint32_t" where
  "get32 h off p = load32 h (drop off p)"

definition get64 :: "host \<Rightarrow> nat \<Rightarrow> bytes \<Rightarrow> uint64_t" where
  "get64 h off p = load64 h (drop off p)"

definition put32 :: "host \<Rightarrow> nat \<Rightarrow> uint32_t \<Rightarrow> bytes \<Rightarrow> bytes" where
  "put32 h off x p = put off (store32 h x) p"

definition put64 :: "host \<Rightarrow> nat \<Rightarrow> uint64_t \<Rightarrow> bytes \<Rightarrow> bytes" where
  "put64 h off x p = put off (store64 h x) p"

section \<open>Facts\<close>

lemma length_put [simp]: "off + length bs \<le> length p \<Longrightarrow> length (put off bs p) = length p"
  by (simp add: put_def)

lemma nth_put:
  "off + length bs \<le> length p \<Longrightarrow> k < length p \<Longrightarrow>
    put off bs p ! k = (if k < off then p ! k else if k < off + length bs then bs ! (k - off) else p ! k)"
  by (auto simp: put_def nth_append min_def)

lemma field_put_same: "off + length bs \<le> length p \<Longrightarrow> n = length bs \<Longrightarrow> take n (drop off (put off bs p)) = bs"
  by (simp add: put_def)

lemma field_put_other:
  assumes "off' + length bs \<le> length p" "off + n \<le> off' \<or> off' + length bs \<le> off" "off + n \<le> length p"
  shows "take n (drop off (put off' bs p)) = take n (drop off p)"
  using assms by (intro nth_equalityI) (auto simp: nth_put)

lemma take_put: "n \<le> off \<Longrightarrow> off + length bs \<le> length p \<Longrightarrow> take n (put off bs p) = take n p"
  by (simp add: put_def min_absorb1)

lemma get_le:
  "off + 4 \<le> length p \<Longrightarrow> Le32ToCpu h (get32 h off p) = le_value (take 4 (drop off p))"
  "off + 8 \<le> length p \<Longrightarrow> Le64ToCpu h (get64 h off p) = le_value (take 8 (drop off p))"
  by (simp_all add: get32_def get64_def load32_le load64_le)

lemma put_le: "put32 h off (CpuToLe32 h x) p = put off (le_bytes 4 x) p" "put64 h off (CpuToLe64 h y) p = put off (le_bytes 8 y) p"
  by (simp_all add: put32_def put64_def)

lemmas field_puts = field_put_same field_put_other length_put length_le_bytes

end
