(* ===== verification/Journal_Block.thy ===== *)
theory Journal_Block
  imports XX_Hash Bio Guid Layout
begin

text \<open>
  The blocks of the journal (\<^verbatim>\<open>src/kstor/api.h\<close>) and their conversion between memory and disk
  (\<^verbatim>\<open>Journal::WriteTxBlockPrepare\<close> and \<^verbatim>\<open>Journal::ReadTxBlockComplete\<close> of \<^verbatim>\<open>src/kstor/journal.cpp\<close>).

  A block is a packed structure of one page: the transaction identifier in bytes 0 to 15, the type in
  bytes 16 to 19, two 32-bit fields, one 64-bit field, the data, and the checksum in the last eight
  bytes. The conversions are modelled on the bytes, with the fields read and written where the structure
  has them; \<open>TxBlock\<close> is the structure with its three variants as the rest of the journal uses it.
\<close>

definition JournalMagic :: uint32_t where "JournalMagic = 0xBCDEBCDE"
definition JournalBlockTypeTxBegin :: uint32_t where "JournalBlockTypeTxBegin = 1"
definition JournalBlockTypeTxData :: uint32_t where "JournalBlockTypeTxData = 2"
definition JournalBlockTypeTxCommit :: uint32_t where "JournalBlockTypeTxCommit = 3"
definition JournalTxStateNew :: uint32_t where "JournalTxStateNew = 1"
definition JournalTxStateCommiting :: uint32_t where "JournalTxStateCommiting = 2"
definition JournalTxStateCommited :: uint32_t where "JournalTxStateCommited = 3"
definition JournalTxStateCanceled :: uint32_t where "JournalTxStateCanceled = 4"

lemmas journal_constants = JournalBlockTypeTxBegin_def JournalBlockTypeTxData_def JournalBlockTypeTxCommit_def
  JournalTxStateNew_def JournalTxStateCommiting_def JournalTxStateCommited_def JournalTxStateCanceled_def

text \<open>\<open>OFFSET_OF(JournalTxBlock, Hash)\<close>, and the size of the data of a data block.\<close>

definition HashOffset :: nat where "HashOffset = 4088"
definition TxDataSize :: nat where "TxDataSize = 4052"

lemmas layout = PageSize_def HashOffset_def TxDataSize_def

section \<open>The three kinds of block\<close>

datatype TxBlock =
  TxBegin (TxId: guid)
| TxData (TxId: guid) (Index: uint32_t) (DataSize: uint32_t) (Position: uint64_t) (Data: bytes)
| TxCommit (TxId: guid) (CommitState: uint32_t) (BlockCount: uint32_t) (CommitTime: uint64_t)

fun block_type :: "TxBlock \<Rightarrow> uint32_t" where
  "block_type (TxBegin g) = JournalBlockTypeTxBegin"
| "block_type (TxData g i n p x) = JournalBlockTypeTxData"
| "block_type (TxCommit g s c t) = JournalBlockTypeTxCommit"

text \<open>The structure in the memory of the host, the checksum not yet set.\<close>

fun block_mem :: "host \<Rightarrow> TxBlock \<Rightarrow> bytes" where
  "block_mem h (TxBegin g) =
     g @ store32 h JournalBlockTypeTxBegin @ replicate (HashOffset - 20) 0 @ replicate 8 0"
| "block_mem h (TxData g i n p x) =
     g @ store32 h JournalBlockTypeTxData @ store32 h i @ store32 h n @ store64 h p @ x @ replicate 8 0"
| "block_mem h (TxCommit g s c t) =
     g @ store32 h JournalBlockTypeTxCommit @ store32 h s @ store32 h c @ store64 h t @ replicate TxDataSize 0 @ replicate 8 0"

text \<open>What a reader of the structure sees; \<open>None\<close> for a type that does not exist.\<close>

definition block_view :: "host \<Rightarrow> bytes \<Rightarrow> TxBlock option" where
  "block_view h p =
     (let t = get32 h 16 p; g = take 16 p
      in if t = JournalBlockTypeTxBegin then Some (TxBegin g)
         else if t = JournalBlockTypeTxData
         then Some (TxData g (get32 h 20 p) (get32 h 24 p) (get64 h 28 p) (take TxDataSize (drop 36 p)))
         else if t = JournalBlockTypeTxCommit
         then Some (TxCommit g (get32 h 20 p) (get32 h 24 p) (get64 h 28 p))
         else None)"

section \<open>Conversion\<close>

definition WriteTxBlockPrepare :: "host \<Rightarrow> bytes \<Rightarrow> err \<times> bytes" where
  "WriteTxBlockPrepare h page =
     (if length page \<noteq> PageSize then (BadSize, page)
      else
        let type = get32 h 16 page;
            r = (if type = JournalBlockTypeTxBegin then Some page
                 else if type = JournalBlockTypeTxData then
                   let page = put64 h 28 (CpuToLe64 h (get64 h 28 page)) page;
                       page = put32 h 24 (CpuToLe32 h (get32 h 24 page)) page;
                       page = put32 h 20 (CpuToLe32 h (get32 h 20 page)) page
                   in Some page
                 else if type = JournalBlockTypeTxCommit then
                   let page = put32 h 20 (CpuToLe32 h (get32 h 20 page)) page;
                       page = put64 h 28 (CpuToLe64 h (get64 h 28 page)) page;
                       page = put32 h 24 (CpuToLe32 h (get32 h 24 page)) page
                   in Some page
                 else None)
        in case r of
             None \<Rightarrow> (InvalidValue, page)
           | Some page \<Rightarrow>
               (let page = put32 h 16 (CpuToLe32 h (get32 h 16 page)) page
                in (Success, put HashOffset (Sum h (take HashOffset page)) page)))"

definition ReadTxBlockComplete :: "host \<Rightarrow> bytes \<Rightarrow> err \<times> bytes" where
  "ReadTxBlockComplete h page =
     (if length page \<noteq> PageSize then (BadSize, page)
      else if \<not> ArrayEqual 8 (Sum h (take HashOffset page)) (drop HashOffset page) then (DataCorrupt, page)
      else
        let page = put32 h 16 (Le32ToCpu h (get32 h 16 page)) page;
            type = get32 h 16 page
        in if type = JournalBlockTypeTxBegin then (Success, page)
           else if type = JournalBlockTypeTxData then
             let page = put64 h 28 (Le64ToCpu h (get64 h 28 page)) page;
                 page = put32 h 24 (Le32ToCpu h (get32 h 24 page)) page;
                 page = put32 h 20 (Le32ToCpu h (get32 h 20 page)) page
             in (Success, page)
           else if type = JournalBlockTypeTxCommit then
             let page = put32 h 20 (Le32ToCpu h (get32 h 20 page)) page;
                 page = put64 h 28 (Le64ToCpu h (get64 h 28 page)) page;
                 page = put32 h 24 (Le32ToCpu h (get32 h 24 page)) page
             in (Success, page)
           else (DataCorrupt, page))"


section \<open>The layout as a concatenation\<close>

definition wf_block :: "TxBlock \<Rightarrow> bool" where
  "wf_block b \<longleftrightarrow> length (TxId b) = GuidSize \<and>
     (case b of TxData g i n p x \<Rightarrow> length x = TxDataSize | _ \<Rightarrow> True)"

lemma fields_in_sequence:
  assumes "length g = 16" "length t = 4" "length a = 4" "length c = 4" "length d = 8"
  shows "take 16 (g @ t @ a @ c @ d @ r) = g"
    "get32 h 16 (g @ t @ a @ c @ d @ r) = load32 h t" "get32 h 20 (g @ t @ a @ c @ d @ r) = load32 h a"
    "get32 h 24 (g @ t @ a @ c @ d @ r) = load32 h c" "get64 h 28 (g @ t @ a @ c @ d @ r) = load64 h d"
    "drop 36 (g @ t @ a @ c @ d @ r) = r"
    "put32 h 16 x (g @ t @ a @ c @ d @ r) = g @ store32 h x @ a @ c @ d @ r"
    "put32 h 20 x (g @ t @ a @ c @ d @ r) = g @ t @ store32 h x @ c @ d @ r"
    "put32 h 24 x (g @ t @ a @ c @ d @ r) = g @ t @ a @ store32 h x @ d @ r"
    "put64 h 28 y (g @ t @ a @ c @ d @ r) = g @ t @ a @ c @ store64 h y @ r"
  using assms by (simp_all add: get32_def get64_def put32_def put64_def put_def load32_def load64_def split: host.split)

lemma split_page:
  assumes "length p = PageSize"
  obtains g t a c d x s where "p = g @ t @ a @ c @ d @ x @ s" "length g = 16" "length t = 4" "length a = 4"
    "length c = 4" "length d = 8" "length x = TxDataSize" "length s = 8"
proof (rule that)
  show "p = take 16 p @ take 4 (drop 16 p) @ take 4 (drop 20 p) @ take 4 (drop 24 p) @ take 8 (drop 28 p) @
      take TxDataSize (drop 36 p) @ drop HashOffset p"
    using append_take_drop_id [of 16 p] append_take_drop_id [of 4 "drop 16 p"] append_take_drop_id [of 4 "drop 20 p"]
      append_take_drop_id [of 4 "drop 24 p"] append_take_drop_id [of 8 "drop 28 p"]
      append_take_drop_id [of TxDataSize "drop 36 p"]
    by (simp add: layout)
qed (use assms in \<open>simp_all add: layout\<close>)

lemma hash_in_sequence:
  assumes "length g = 16" "length t = 4" "length a = 4" "length c = 4" "length d = 8" "length x = TxDataSize" "length s = 8"
  shows "take HashOffset (g @ t @ a @ c @ d @ x @ s) = g @ t @ a @ c @ d @ x"
    "drop HashOffset (g @ t @ a @ c @ d @ x @ s) = s"
    "put HashOffset s' (g @ t @ a @ c @ d @ x @ s) = g @ t @ a @ c @ d @ x @ s' @ drop (length s') s"
    "length (g @ t @ a @ c @ d @ x @ s) = PageSize"
  using assms by (simp_all add: layout put_def)

section \<open>The image on disk\<close>

text \<open>The bytes of a block on disk: every number least significant byte first, whatever the host.\<close>

fun disk_body :: "TxBlock \<Rightarrow> bytes" where
  "disk_body (TxBegin g) =
     g @ le_bytes 4 JournalBlockTypeTxBegin @ replicate 4 0 @ replicate 4 0 @ replicate 8 0 @ replicate TxDataSize 0"
| "disk_body (TxData g i n p x) =
     g @ le_bytes 4 JournalBlockTypeTxData @ le_bytes 4 i @ le_bytes 4 n @ le_bytes 8 p @ x"
| "disk_body (TxCommit g s c t) =
     g @ le_bytes 4 JournalBlockTypeTxCommit @ le_bytes 4 s @ le_bytes 4 c @ le_bytes 8 t @ replicate TxDataSize 0"

definition on_disk :: "TxBlock \<Rightarrow> bytes" where
  "on_disk b = disk_body b @ le_bytes 8 (XXH64 LittleEndian (disk_body b) 0)"

lemma zero_pad: "replicate (HashOffset - 20) (0::byte_t) = replicate 4 0 @ replicate 4 0 @ replicate 8 0 @ replicate TxDataSize 0"
  by (simp only: replicate_add [symmetric] layout) simp

lemma length_disk_body: "wf_block b \<Longrightarrow> length (disk_body b) = HashOffset"
  by (cases b) (simp_all add: wf_block_def layout GuidSize_def)

lemma length_on_disk: "wf_block b \<Longrightarrow> length (on_disk b) = PageSize"
  by (simp add: on_disk_def length_disk_body layout)

lemma length_block_mem: "wf_block b \<Longrightarrow> length (block_mem h b) = PageSize"
  by (cases b) (simp_all add: wf_block_def layout GuidSize_def)

lemma Sum_short [simp]: "length p < 18446744073709551616 \<Longrightarrow> Sum h p = le_bytes 8 (XXH64 LittleEndian p 0)"
  by (rule Sum_eq)

lemma WriteTxBlockPrepare_ok:
  assumes "wf_block b"
  shows "WriteTxBlockPrepare h (block_mem h b) = (Success, on_disk b)"
proof (cases b)
  case (TxBegin g)
  then have g: "length g = 16" using assms by (simp add: wf_block_def GuidSize_def)
  define z4 :: bytes where "z4 = replicate 4 0"
  define z8 :: bytes where "z8 = replicate 8 0"
  define x :: bytes where "x = replicate TxDataSize 0"
  have z: "length z4 = 4" "length z8 = 8" "length x = TxDataSize" by (simp_all add: z4_def z8_def x_def)
  have m: "block_mem h b = g @ store32 h JournalBlockTypeTxBegin @ z4 @ z4 @ z8 @ x @ z8"
    "on_disk b = g @ le_bytes 4 JournalBlockTypeTxBegin @ z4 @ z4 @ z8 @ x @
      le_bytes 8 (XXH64 LittleEndian (g @ le_bytes 4 JournalBlockTypeTxBegin @ z4 @ z4 @ z8 @ x) 0)"
    by (simp_all only: TxBegin block_mem.simps on_disk_def disk_body.simps zero_pad append_assoc z4_def z8_def x_def)
  show ?thesis unfolding m using g z
    by (simp add: WriteTxBlockPrepare_def fields_in_sequence hash_in_sequence load_store32 [where p = "[]", simplified]
        layout put_def)
next
  case (TxData g i n p x)
  then have g: "length g = 16" "length x = TxDataSize" using assms by (simp_all add: wf_block_def GuidSize_def)
  show ?thesis unfolding TxData block_mem.simps using g
    by (simp add: WriteTxBlockPrepare_def fields_in_sequence hash_in_sequence load_store32 [where p = "[]", simplified]
        load_store64 [where p = "[]", simplified] on_disk_def journal_constants layout put_def)
next
  case (TxCommit g s c t)
  then have g: "length g = 16" using assms by (simp add: wf_block_def GuidSize_def)
  show ?thesis unfolding TxCommit block_mem.simps using g
    by (simp add: WriteTxBlockPrepare_def fields_in_sequence hash_in_sequence load_store32 [where p = "[]", simplified]
        load_store64 [where p = "[]", simplified] on_disk_def journal_constants layout put_def)
qed

lemma ReadTxBlockComplete_ok:
  assumes "wf_block b"
  shows "\<exists>page. ReadTxBlockComplete h (on_disk b) = (Success, page) \<and> length page = PageSize \<and> block_view h page = Some b"
proof (cases b)
  case (TxBegin g)
  then have g: "length g = 16" using assms by (simp add: wf_block_def GuidSize_def)
  define z4 :: bytes where "z4 = replicate 4 0"
  define z8 :: bytes where "z8 = replicate 8 0"
  define x :: bytes where "x = replicate TxDataSize 0"
  have z: "length z4 = 4" "length z8 = 8" "length x = TxDataSize" by (simp_all add: z4_def z8_def x_def)
  show ?thesis
    unfolding TxBegin on_disk_def disk_body.simps append_assoc z4_def [symmetric] z8_def [symmetric] x_def [symmetric]
    using g z by (simp add: ReadTxBlockComplete_def fields_in_sequence hash_in_sequence load32_le block_view_def
        load_store32 [where p = "[]", simplified] layout)
next
  case (TxData g i n p x)
  then have g: "length g = 16" "length x = TxDataSize" using assms by (simp_all add: wf_block_def GuidSize_def)
  show ?thesis unfolding TxData on_disk_def disk_body.simps append_assoc using g
    by (simp add: ReadTxBlockComplete_def fields_in_sequence hash_in_sequence load32_le load64_le block_view_def
        load_store32 [where p = "[]", simplified] load_store64 [where p = "[]", simplified] journal_constants layout)
next
  case (TxCommit g s c t)
  then have g: "length g = 16" using assms by (simp add: wf_block_def GuidSize_def)
  show ?thesis unfolding TxCommit on_disk_def disk_body.simps append_assoc using g
    by (simp add: ReadTxBlockComplete_def fields_in_sequence hash_in_sequence load32_le load64_le block_view_def
        load_store32 [where p = "[]", simplified] load_store64 [where p = "[]", simplified] journal_constants layout)
qed

section \<open>Properties\<close>

lemma ReadTxBlockComplete_corrupt:
  "length page = PageSize \<Longrightarrow> drop HashOffset page \<noteq> Sum h (take HashOffset page) \<Longrightarrow>
    fst (ReadTxBlockComplete h page) = DataCorrupt"
  using ArrayEqual_from_spec [of "Sum h (take HashOffset page)" 8 "drop HashOffset page"]
  by (auto simp: ReadTxBlockComplete_def ArrayEqual_def layout)

text \<open>
  Claim C36. A block of the journal survives the way to the disk and back: every host writes the same page, and every
  host reads the block from it as it was, whatever the two byte orders; and a page whose checksum does not fit its
  content is reported as corrupt.
\<close>

theorem journal_block_roundtrip:
  assumes "wf_block b"
  shows "(\<exists>img page. WriteTxBlockPrepare h (block_mem h b) = (Success, img) \<and>
      WriteTxBlockPrepare h' (block_mem h' b) = (Success, img) \<and> length img = PageSize \<and>
      ReadTxBlockComplete h' img = (Success, page) \<and> block_view h' page = Some b) \<and>
    (length q = PageSize \<and> drop HashOffset q \<noteq> Sum h (take HashOffset q) \<longrightarrow> fst (ReadTxBlockComplete h q) = DataCorrupt)"
  using WriteTxBlockPrepare_ok [OF assms] ReadTxBlockComplete_ok [OF assms, of h'] length_on_disk [OF assms]
    ReadTxBlockComplete_corrupt [of q h] by auto

theorem journal_block_roundtrip_witness:
  "\<exists>img page. WriteTxBlockPrepare BigEndian (block_mem BigEndian (TxCommit (replicate 16 7) 3 2 5)) = (Success, img) \<and>
     ReadTxBlockComplete LittleEndian img = (Success, page) \<and> block_view LittleEndian page = Some (TxCommit (replicate 16 7) 3 2 5)"
  using journal_block_roundtrip [of "TxCommit (replicate 16 7) 3 2 5" BigEndian LittleEndian "[]"]
  by (auto simp: wf_block_def GuidSize_def)

end
