(* ===== verification/Journal.thy ===== *)
theory Journal
  imports Journal_Block Ring_Buffer Hash_Table
begin

text \<open>
  The transaction journal of \<^verbatim>\<open>src/kstor/journal.h\<close> and \<^verbatim>\<open>src/kstor/journal.cpp\<close>: all operations of \<open>Transaction\<close> and
  \<open>Journal\<close>.

  Parameters of the operations are the byte order \<open>h\<close> of the host, the block layer \<open>io\<close> with the device
  state \<open>d\<close>, the outcomes \<open>m\<close> of the allocations, and the size \<open>vsize\<close> of the volume; \<open>junk\<close> is the content of a
  fresh page. Transactions live in a store \<open>Txs\<close> and are named by their place in it, as the code names
  them by pointers. An operation holds the locks of the code for its whole duration, so it is one step;
  \<open>Commit\<close>, which waits in the middle for the journal's thread, is two, and one pass of the thread's loop is
  one step. \<open>None\<close> stands for behaviour that C++ leaves undefined (reading past an array).
\<close>

definition BlockSize :: uint64_t where "BlockSize = 4096"

definition JournalStateNew :: uint32_t where "JournalStateNew = 1"
definition JournalStateReplaying :: uint32_t where "JournalStateReplaying = 2"
definition JournalStateRunning :: uint32_t where "JournalStateRunning = 3"
definition JournalStateStopping :: uint32_t where "JournalStateStopping = 4"
definition JournalStateStopped :: uint32_t where "JournalStateStopped = 4"

lemmas journal_states = JournalStateNew_def JournalStateReplaying_def JournalStateRunning_def
  JournalStateStopping_def JournalStateStopped_def

record Transaction =
  txState :: uint32_t
  txId :: guid
  DataBlockList :: "TxBlock list"
  IndexList :: "size_t list"
  CommitResult :: err
  CommitEvent :: bool

text \<open>\<open>TxThread\<close>: no thread object, or one that runs (\<open>Some True\<close>) or could not be started (\<open>Some False\<close>).\<close>

record Journal =
  TxTable :: "(guid, nat) HashTable"
  TxList :: "nat list"
  TxThread :: "bool option"
  LogRb :: RingBuffer
  TxToErase :: "nat list"
  jStart :: uint64_t
  jSize :: uint64_t
  jState :: uint32_t
  Txs :: "nat \<Rightarrow> Transaction"
  NextTx :: nat

definition TxBuckets :: nat where "TxBuckets = 512"

definition guid_hash :: "guid \<Rightarrow> nat" where
  "guid_hash g = unat (Guid_Hash g)"

text \<open>The constructor; the ring keeps whatever its memory held.\<close>

definition make_Journal :: "RingBuffer \<Rightarrow> Journal" where
  "make_Journal rb0 = \<lparr>TxTable = make_HashTable TxBuckets 0, TxList = [], TxThread = None, LogRb = rb0, TxToErase = [],
     jStart = 0, jSize = 0, jState = JournalStateNew,
     Txs = (\<lambda>_. \<lparr>txState = 0, txId = [], DataBlockList = [], IndexList = [], CommitResult = Success, CommitEvent = False\<rparr>),
     NextTx = 0\<rparr>"

section \<open>Positions\<close>

definition IndexToPosition :: "Journal \<Rightarrow> size_t \<Rightarrow> err \<times> uint64_t" where
  "IndexToPosition j index =
     (if index + 1 \<ge> jSize j then (Overflow, 0)
      else (Success, (jStart j + 1 + index) * BlockSize))"

definition PositionToIndex :: "Journal \<Rightarrow> uint64_t \<Rightarrow> err \<times> size_t" where
  "PositionToIndex j position =
     (if position mod BlockSize \<noteq> 0 then (InvalidValue, 0)
      else let localIndex = position div BlockSize
           in if localIndex < jStart j + 1 \<or> position \<ge> jStart j + jSize j then (Overflow, 0)
              else (Success, localIndex - (jStart j + 1)))"

definition CheckPosition :: "uint64_t \<Rightarrow> Journal \<Rightarrow> uint64_t \<Rightarrow> size_t \<Rightarrow> err" where
  "CheckPosition vsize j position size' =
     (if position AND 511 \<noteq> 0 then InvalidValue
      else if position < BlockSize then Overlap
      else if CheckIntersection position (position + size') (jStart j * BlockSize) ((jStart j + jSize j) * BlockSize)
      then Overlap
      else if position \<ge> vsize then Overflow
      else if position + size' > vsize then Overflow
      else Success)"

section \<open>Blocks of the log\<close>

definition ReadTxBlock ::
  "'d block_io \<Rightarrow> host \<Rightarrow> bytes \<Rightarrow> Journal \<Rightarrow> size_t \<Rightarrow> mem \<Rightarrow> 'd \<Rightarrow> err \<times> TxBlock option \<times> mem \<times> 'd" where
  "ReadTxBlock io h junk j index m d =
     (let (e, position) = IndexToPosition j index
      in if e \<noteq> Success then (e, None, m, d)
         else let (e, m) = Page_Create m
         in if e \<noteq> Success then (e, None, m, d)
         else let (e, page, m, d) = SubmitWaitResult_page io junk position False False m d
         in if e \<noteq> Success then (e, None, m, d)
         else let (e, page) = ReadTxBlockComplete h page
         in if e \<noteq> Success then (e, None, m, d)
         else let (ok, m) = MakeShared m
         in if \<not> ok then (NoMemory, None, m, d)
         else (Success, block_view h page, m, d))"

definition WriteTxBlock ::
  "host \<Rightarrow> bytes \<Rightarrow> Journal \<Rightarrow> size_t \<Rightarrow> TxBlock \<Rightarrow> mem \<Rightarrow> biolist \<Rightarrow> err \<times> biolist \<times> mem" where
  "WriteTxBlock h junk j index block m bl =
     (let (e, position) = IndexToPosition j index
      in if e \<noteq> Success then (e, bl, m)
         else let (e, m) = Page_Create m
         in if e \<noteq> Success then (e, bl, m)
         else let (page, n) = Page_Write (block_mem h block) PageSize 0 junk
         in if n \<noteq> length page then (UnexpectedEOF, bl, m)
         else let (e, page) = WriteTxBlockPrepare h page
         in if e \<noteq> Success then (e, bl, m)
         else AddIo page position True 0 m bl)"

section \<open>Replay\<close>

text \<open>The requests of \<open>ApplyBlocks\<close>, one for each data block.\<close>

fun ApplyBlocks_add ::
  "uint64_t \<Rightarrow> Journal \<Rightarrow> bytes \<Rightarrow> TxBlock list \<Rightarrow> mem \<Rightarrow> biolist \<Rightarrow> (err \<times> biolist \<times> mem) option" where
  "ApplyBlocks_add vsize j junk [] m bl = Some (Success, bl, m)"
| "ApplyBlocks_add vsize j junk (TxData g i n p x # bs) m bl =
     (let e = CheckPosition vsize j p (ucast n)
      in if e \<noteq> Success then Some (e, bl, m)
         else if length x < unat n \<and> unat n \<le> length junk \<and> fst (Page_Create m) = Success then None
         else let (e, bl, m) = AddIo_data junk x (unat n) p True m bl
         in if e \<noteq> Success then Some (e, bl, m)
         else ApplyBlocks_add vsize j junk bs m bl)"
| "ApplyBlocks_add vsize j junk (b # bs) m bl = Some (InvalidValue, bl, m)"

definition ApplyBlocks ::
  "'d block_io \<Rightarrow> uint64_t \<Rightarrow> bytes \<Rightarrow> Journal \<Rightarrow> TxBlock list \<Rightarrow> bool \<Rightarrow> mem \<Rightarrow> 'd \<Rightarrow> (err \<times> mem \<times> 'd) option" where
  "ApplyBlocks io vsize junk j blockList preflushFua m d =
     (case ApplyBlocks_add vsize j junk blockList m BioList of
        None \<Rightarrow> None
      | Some (e, bl, m) \<Rightarrow>
          (if e \<noteq> Success then Some (e, m, d)
           else let (r, bl, d) = SubmitWaitResult io preflushFua bl d in Some (r, m, d)))"

text \<open>The check of the data blocks of one logged transaction.\<close>

fun check_data_blocks :: "guid \<Rightarrow> uint32_t \<Rightarrow> TxBlock list \<Rightarrow> bool" where
  "check_data_blocks g index [] = True"
| "check_data_blocks g index (TxData g' i n p x # bs) =
     (if \<not> Guid_eq g g' then False else if i \<noteq> index then False else check_data_blocks g (index + 1) bs)"
| "check_data_blocks g index (b # bs) = False"

text \<open>\<open>Replay(blockList)\<close>: one transaction, from its begin block to its commit block.\<close>

definition Replay_tx ::
  "'d block_io \<Rightarrow> uint64_t \<Rightarrow> bytes \<Rightarrow> Journal \<Rightarrow> TxBlock list \<Rightarrow> mem \<Rightarrow> 'd \<Rightarrow> (err \<times> mem \<times> 'd) option" where
  "Replay_tx io vsize junk j blockList m d =
     (if length blockList < 3 then Some (DataCorrupt, m, d)
      else
        let beginBlock = hd blockList; commitBlock = last blockList; local = butlast (tl blockList)
        in case beginBlock of
             TxBegin g \<Rightarrow>
               (case commitBlock of
                  TxCommit g' s c t \<Rightarrow>
                    (if s \<noteq> JournalTxStateCommited then Some (DataCorrupt, m, d)
                     else if \<not> Guid_eq g g' then Some (DataCorrupt, m, d)
                     else if unat c \<noteq> length local then Some (DataCorrupt, m, d)
                     else if \<not> check_data_blocks g 0 local then Some (DataCorrupt, m, d)
                     else ApplyBlocks io vsize junk j local True m d)
                | _ \<Rightarrow> Some (DataCorrupt, m, d))
           | _ \<Rightarrow> Some (DataCorrupt, m, d))"

text \<open>
  One block of the replay loop: the error and the list of the blocks of the transaction that is being
  read. The list is handed over when a commit block arrives.
\<close>

definition Replay_block ::
  "'d block_io \<Rightarrow> uint64_t \<Rightarrow> bytes \<Rightarrow> Journal \<Rightarrow> TxBlock option \<Rightarrow> TxBlock list \<Rightarrow> mem \<Rightarrow> 'd \<Rightarrow>
   (err \<times> TxBlock list \<times> mem \<times> 'd) option" where
  "Replay_block io vsize junk j block blockList m d =
     (case block of
        Some (TxBegin g) \<Rightarrow>
          (if blockList \<noteq> [] then Some (DataCorrupt, blockList, m, d)
           else let (ok, m) = new m
                in if \<not> ok then Some (NoMemory, blockList, m, d) else Some (Success, [TxBegin g], m, d))
      | Some (TxData g i n p x) \<Rightarrow>
          (if blockList = [] then Some (DataCorrupt, blockList, m, d)
           else let (ok, m) = new m
                in if \<not> ok then Some (NoMemory, blockList, m, d)
                   else Some (Success, blockList @ [TxData g i n p x], m, d))
      | Some (TxCommit g s c t) \<Rightarrow>
          (if length blockList < 2 then Some (DataCorrupt, blockList, m, d)
           else let (ok, m) = new m
                in if \<not> ok then Some (NoMemory, blockList, m, d)
                   else case Replay_tx io vsize junk j (blockList @ [TxCommit g s c t]) m d of
                          None \<Rightarrow> None
                        | Some (e, m, d) \<Rightarrow> Some (e, [], m, d))
      | None \<Rightarrow> Some (DataCorrupt, blockList, m, d))"

function Replay_loop ::
  "'d block_io \<Rightarrow> host \<Rightarrow> uint64_t \<Rightarrow> bytes \<Rightarrow> Journal \<Rightarrow> RingBuffer \<Rightarrow> TxBlock list \<Rightarrow> mem \<Rightarrow> 'd \<Rightarrow>
   (err \<times> RingBuffer \<times> mem \<times> 'd) option" where
  "Replay_loop io h vsize junk j rb blockList m d =
     (case PopFront rb of
        (e, None, rb') \<Rightarrow> Some (if e = NotFound then Success else e, rb', m, d)
      | (e, Some index, rb') \<Rightarrow>
          (case ReadTxBlock io h junk j index m d of
             (e, block, m, d) \<Rightarrow>
               (if e \<noteq> Success then Some (e, rb', m, d)
                else case Replay_block io vsize junk j block blockList m d of
                       None \<Rightarrow> None
                     | Some (e, blockList, m, d) \<Rightarrow>
                         (if e \<noteq> Success then Some (e, rb', m, d)
                          else Replay_loop io h vsize junk j rb' blockList m d))))"
  by pat_completeness auto
termination
  by (relation "measure (\<lambda>(io, h, vsize, junk, j, rb, blockList, m, d). unat (Size rb))")
    (auto simp: PopFront_def measure_unat split: if_splits)

declare Replay_loop.simps [simp del]

definition Replay ::
  "'d block_io \<Rightarrow> host \<Rightarrow> uint64_t \<Rightarrow> bytes \<Rightarrow> mem \<Rightarrow> 'd \<Rightarrow> Journal \<Rightarrow> (err \<times> Journal \<times> mem \<times> 'd) option" where
  "Replay io h vsize junk m d j =
     (let j = j\<lparr>jState := JournalStateReplaying\<rparr>
      in case Replay_loop io h vsize junk j (LogRb j) [] m d of
           None \<Rightarrow> None
         | Some (e, rb, m, d) \<Rightarrow> Some (e, j\<lparr>LogRb := rb\<rparr>, m, d))"

section \<open>Loading and formatting\<close>

text \<open>The page of the journal header; the fields are stored in the order of the arguments.\<close>

definition header_page :: "host \<Rightarrow> uint64_t \<Rightarrow> size_t \<Rightarrow> size_t \<Rightarrow> size_t \<Rightarrow> size_t \<Rightarrow> bytes \<Rightarrow> bytes" where
  "header_page h size' logStart logEnd logSize logCapacity page =
     (let p = Page_Zero page;
          p = put32 h 0 (CpuToLe32 h JournalMagic) p;
          p = put64 h 16 (CpuToLe64 h size') p;
          p = put64 h 24 (CpuToLe64 h logStart) p;
          p = put64 h 32 (CpuToLe64 h logEnd) p;
          p = put64 h 40 (CpuToLe64 h logSize) p;
          p = put64 h 48 (CpuToLe64 h logCapacity) p
      in put HashOffset (Sum h (take HashOffset p)) p)"

text \<open>The checks of \<open>Load\<close> on the header: the size of the journal and the state of its log.\<close>

definition read_header :: "host \<Rightarrow> bytes \<Rightarrow> err + (uint64_t \<times> RingBuffer)" where
  "read_header h page =
     (if Le32ToCpu h (get32 h 0 page) \<noteq> JournalMagic then Inl BadMagic
      else if \<not> ArrayEqual 8 (Sum h (take HashOffset page)) (drop HashOffset page) then Inl DataCorrupt
      else
        let size' = Le64ToCpu h (get64 h 16 page)
        in if size' \<le> 1 then Inl BadSize
           else let logSize = Le64ToCpu h (get64 h 40 page);
                    logStart = Le64ToCpu h (get64 h 24 page);
                    logEnd = Le64ToCpu h (get64 h 32 page);
                    logCapacity = Le64ToCpu h (get64 h 48 page)
           in if logCapacity \<noteq> size' - 1 then Inl BadSize
           else case Reset logStart logEnd logSize logCapacity of
                  None \<Rightarrow> Inl BadSize
                | Some rb \<Rightarrow> Inr (size', rb))"

text \<open>The end of \<open>Load\<close>: the thread's name, the thread object, its copy of the name, and the kernel task.\<close>

definition start_thread :: "mem \<Rightarrow> err \<times> bool option \<times> mem" where
  "start_thread m =
     (let (ok, m) = new m
      in if \<not> ok then (NoMemory, None, m)
         else let (ok, m) = new m
         in if \<not> ok then (NoMemory, None, m)
         else let (ok, m) = new m
         in if \<not> ok then (Success, Some False, m)
         else let (ok, m) = new m in (Success, Some ok, m))"

definition Load ::
  "'d block_io \<Rightarrow> host \<Rightarrow> uint64_t \<Rightarrow> bytes \<Rightarrow> uint64_t \<Rightarrow> mem \<Rightarrow> 'd \<Rightarrow> Journal \<Rightarrow> (err \<times> Journal \<times> mem \<times> 'd) option" where
  "Load io h vsize junk start m d j =
     (if jState j \<noteq> JournalStateNew then Some (InvalidState, j, m, d)
      else let (e, m) = Page_Create m
      in if e \<noteq> Success then Some (e, j, m, d)
      else let (e, page, m, d) = SubmitWaitResult_page io junk (start * BlockSize) False False m d
      in if e \<noteq> Success then Some (e, j, m, d)
      else case read_header h page of
        Inl e \<Rightarrow> Some (e, j, m, d)
      | Inr (size', rb) \<Rightarrow>
          (case Replay io h vsize junk m d (j\<lparr>LogRb := rb, jStart := start, jSize := size'\<rparr>) of
             None \<Rightarrow> None
           | Some (e, j, m, d) \<Rightarrow>
               (if e \<noteq> Success \<and> e \<noteq> DataCorrupt then Some (e, j, m, d)
                else let (e, thread, m) = start_thread m
                in if e \<noteq> Success then Some (e, j, m, d)
                else Some (Success, j\<lparr>TxThread := thread, jState := JournalStateRunning\<rparr>, m, d))))"

definition Format ::
  "'d block_io \<Rightarrow> host \<Rightarrow> bytes \<Rightarrow> uint64_t \<Rightarrow> uint64_t \<Rightarrow> mem \<Rightarrow> 'd \<Rightarrow> Journal \<Rightarrow> err \<times> Journal \<times> mem \<times> 'd" where
  "Format io h junk start size' m d j =
     (if size' \<le> 1 then (InvalidValue, j, m, d)
      else if jState j \<noteq> JournalStateNew then (InvalidState, j, m, d)
      else let (e, m) = Page_Create m
      in if e \<noteq> Success then (e, j, m, d)
      else let (e, page, m, d) =
             SubmitWaitResult_page io (header_page h size' 0 0 0 (size' - 1) junk) (start * BlockSize) True True m d
      in if e \<noteq> Success then (e, j, m, d)
      else (Success, j\<lparr>jStart := start, jSize := size'\<rparr>, m, d))"

section \<open>Compaction and flush\<close>

text \<open>
  One pass of \<open>CompactLog\<close> over the transactions to erase: the ring, the transactions that stay and the number
  erased. After an erasure the iterator already stands on the next transaction, and the loop's own step
  then passes over it.
\<close>

fun CompactLog_pass :: "(nat \<Rightarrow> Transaction) \<Rightarrow> RingBuffer \<Rightarrow> nat list \<Rightarrow> RingBuffer \<times> nat list \<times> nat" where
  "CompactLog_pass txs rb [] = (rb, [], 0)"
| "CompactLog_pass txs rb (t # ts) =
     (let (erased, rb') = Erase (IndexList (txs t)) rb
      in if erased
         then (case ts of
                 [] \<Rightarrow> (rb', [], 1)
               | u # us \<Rightarrow> (let (rb'', ks, n) = CompactLog_pass txs rb' us in (rb'', u # ks, n + 1)))
         else (let (rb'', ks, n) = CompactLog_pass txs rb' ts in (rb'', t # ks, n)))"

lemma CompactLog_pass_length: "CompactLog_pass txs rb ts = (rb', ks, n) \<Longrightarrow> length ks + n = length ts"
proof (induction txs rb ts arbitrary: rb' ks n rule: CompactLog_pass.induct)
  case (2 txs rb t ts)
  obtain erased rb1 where e: "Erase (IndexList (txs t)) rb = (erased, rb1)" by fastforce
  show ?case
  proof (cases erased)
    case False
    obtain rb2 ks2 n2 where "CompactLog_pass txs rb1 ts = (rb2, ks2, n2)" by (cases "CompactLog_pass txs rb1 ts") auto
    with 2(2) [OF e [symmetric] refl False this] 2(3) e False show ?thesis by auto
  next
    case True
    show ?thesis
    proof (cases ts)
      case Nil
      then show ?thesis using 2(3) e True by auto
    next
      case (Cons u us)
      obtain rb2 ks2 n2 where "CompactLog_pass txs rb1 us = (rb2, ks2, n2)" by (cases "CompactLog_pass txs rb1 us") auto
      with 2(1) [OF e [symmetric] refl True Cons this] 2(3) e True Cons show ?thesis by auto
    qed
  qed
qed simp

function CompactLog_loop :: "(nat \<Rightarrow> Transaction) \<Rightarrow> RingBuffer \<Rightarrow> nat list \<Rightarrow> RingBuffer \<times> nat list" where
  "CompactLog_loop txs rb ts =
     (case CompactLog_pass txs rb ts of
        (rb', ks, n) \<Rightarrow> (if n = 0 then (rb', ks) else CompactLog_loop txs rb' ks))"
  by pat_completeness auto
termination
  by (relation "measure (\<lambda>(txs, rb, ts). length ts)") (auto dest: CompactLog_pass_length [OF sym])

declare CompactLog_loop.simps [simp del]

definition CompactLog :: "Journal \<Rightarrow> Journal" where
  "CompactLog j = (let (rb, ks) = CompactLog_loop (Txs j) (LogRb j) (TxToErase j) in j\<lparr>LogRb := rb, TxToErase := []\<rparr>)"

definition Flush :: "'d block_io \<Rightarrow> host \<Rightarrow> bytes \<Rightarrow> biolist \<Rightarrow> mem \<Rightarrow> 'd \<Rightarrow> Journal \<Rightarrow> err \<times> Journal \<times> mem \<times> 'd" where
  "Flush io h junk bl m d j =
     (let (e, m) = Page_Create m
      in if e \<noteq> Success then (e, j, m, d)
         else let rb = LogRb j;
                  page = header_page h (jSize j) (StartIndex rb) (EndIndex rb) (Size rb) (Capacity rb) junk;
                  (e, bl, m) = AddIo page (jStart j * BlockSize) True 0 m bl
         in if e \<noteq> Success then (e, j, m, d)
         else let (e, bl, d) = SubmitWaitResult io True bl d
         in if e \<noteq> Success then (e, j, m, d)
         else (e, CompactLog j, m, d))"

section \<open>Transactions\<close>

definition upd_tx :: "nat \<Rightarrow> Transaction \<Rightarrow> Journal \<Rightarrow> Journal" where
  "upd_tx t tx j = j\<lparr>Txs := (Txs j)(t := tx)\<rparr>"

definition UnlinkTx :: "nat \<Rightarrow> Journal \<Rightarrow> Journal" where
  "UnlinkTx t j =
     (let (txPtr, exist) = Lookup_key guid_hash TxBuckets (txId (Txs j t)) (TxTable j)
      in if \<not> exist \<or> txPtr \<noteq> t then j
         else j\<lparr>TxTable := fst (Delete_key guid_hash TxBuckets (txId (Txs j t)) (TxTable j))\<rparr>)"

text \<open>\<open>BeginTx\<close> with the constructor of the transaction; \<open>rng\<close> is what the random device delivers.\<close>

definition BeginTx :: "err + bytes \<Rightarrow> mem \<Rightarrow> Journal \<Rightarrow> nat option \<times> Journal \<times> mem" where
  "BeginTx rng m j =
     (if jState j \<noteq> JournalStateRunning then (None, j, m)
      else let (ok, m) = MakeShared m
      in if \<not> ok then (None, j, m)
      else let (e, g) = Guid_Generate rng Guid_default
      in if e \<noteq> Success then (None, j, m)
      else let (ok, m) = MakeShared m
      in if \<not> ok then (None, j, m)
      else let (ok, m) = MakeShared m
      in if \<not> ok then (None, j, m)
      else let t = NextTx j;
               tx = \<lparr>txState = JournalTxStateNew, txId = g, DataBlockList = [], IndexList = [],
                     CommitResult = Success, CommitEvent = False\<rparr>;
               j = (upd_tx t tx j)\<lparr>NextTx := t + 1\<rparr>;
               (table, inserted, m) = Insert_copy guid_hash TxBuckets g t m (TxTable j)
      in if \<not> inserted then (None, j, m) else (Some t, j\<lparr>TxTable := table\<rparr>, m))"

text \<open>The loop of \<open>Transaction::Write\<close> that cuts the page into data blocks.\<close>

function Write_loop ::
  "guid \<Rightarrow> bytes \<Rightarrow> uint64_t \<Rightarrow> nat \<Rightarrow> uint32_t \<Rightarrow> TxBlock list \<Rightarrow> mem \<Rightarrow> err \<times> TxBlock list \<times> mem" where
  "Write_loop g page position off index blockList m =
     (if off < length page then
        if position AND 511 \<noteq> 0 then (InvalidValue, blockList, m)
        else let (ok, m) = MakeShared m
        in if \<not> ok then (NoMemory, blockList, m)
        else let sizeToRead = (TxDataSize div 512) * 512
        in if sizeToRead = 0 then (InvalidValue, blockList, m)
        else let (buf, read) = Page_Read page sizeToRead off;
                 block = TxData g index (of_nat read) position (buf @ replicate (TxDataSize - read) 0);
                 (ok, m) = new m
        in if \<not> ok then (NoMemory, blockList, m)
        else Write_loop g page (position + of_nat read) (off + read) (index + 1) (blockList @ [block]) m
      else (Success, blockList, m))"
  by pat_completeness auto
termination
  by (relation "measure (\<lambda>(g, page, position, off, index, blockList, m). length page - off)")
    (auto simp: Page_Read_def TxDataSize_def Let_def split: if_splits)

declare Write_loop.simps [simp del]

definition Write :: "uint64_t \<Rightarrow> nat \<Rightarrow> bytes \<Rightarrow> uint64_t \<Rightarrow> mem \<Rightarrow> Journal \<Rightarrow> err \<times> Journal \<times> mem" where
  "Write vsize t page position m j =
     (let tx = Txs j t
      in if txState tx \<noteq> JournalTxStateNew then (InvalidState, j, m)
         else let e = CheckPosition vsize j position (of_nat (length page))
         in if e \<noteq> Success then (e, j, m)
         else let (e, blockList, m) =
                Write_loop (txId tx) page position 0 (of_nat (length (DataBlockList tx))) [] m
         in if e \<noteq> Success then (e, j, m)
         else (Success, upd_tx t (tx\<lparr>DataBlockList := DataBlockList tx @ blockList\<rparr>) j, m))"

definition StartCommitTx :: "nat \<Rightarrow> mem \<Rightarrow> Journal \<Rightarrow> err \<times> Journal \<times> mem" where
  "StartCommitTx t m j =
     (let (txPtr, exist) = Lookup_key guid_hash TxBuckets (txId (Txs j t)) (TxTable j)
      in if \<not> exist \<or> txPtr \<noteq> t then (NotFound, j, m)
         else let (ok, m) = new m
              in if \<not> ok then (NoMemory, j, m) else (Success, j\<lparr>TxList := TxList j @ [t]\<rparr>, m))"

text \<open>\<open>Commit\<close> up to the point where it waits for the journal's thread; \<open>Success\<close> means that it waits.\<close>

definition Commit_begin :: "nat \<Rightarrow> mem \<Rightarrow> Journal \<Rightarrow> err \<times> Journal \<times> mem" where
  "Commit_begin t m j =
     (let tx = Txs j t
      in if txState tx \<noteq> JournalTxStateNew then (InvalidState, j, m)
         else let j = upd_tx t (tx\<lparr>txState := JournalTxStateCommiting\<rparr>) j;
                  (e, j, m) = StartCommitTx t m j
         in if e \<noteq> Success
            then (e, UnlinkTx t (upd_tx t ((Txs j t)\<lparr>txState := JournalTxStateCanceled\<rparr>) j), m)
            else (Success, j, m))"

definition EraseTx :: "nat \<Rightarrow> mem \<Rightarrow> Journal \<Rightarrow> err \<times> Journal \<times> mem" where
  "EraseTx t m j =
     (let (txPtr, exist) = Lookup_key guid_hash TxBuckets (txId (Txs j t)) (TxTable j)
      in if \<not> exist \<or> txPtr \<noteq> t then (NotFound, j, m)
         else let (ok, m) = new m
              in if \<not> ok then (NoMemory, j, m) else (Success, j\<lparr>TxToErase := TxToErase j @ [t]\<rparr>, m))"

text \<open>The rest of \<open>Commit\<close>, after the event was set.\<close>

definition Commit_finish ::
  "'d block_io \<Rightarrow> uint64_t \<Rightarrow> bytes \<Rightarrow> nat \<Rightarrow> mem \<Rightarrow> 'd \<Rightarrow> Journal \<Rightarrow> (err \<times> Journal \<times> mem \<times> 'd) option" where
  "Commit_finish io vsize junk t m d j =
     (let tx = Txs j t
      in if CommitResult tx \<noteq> Success then Some (CommitResult tx, j, m, d)
         else if txState tx \<noteq> JournalTxStateCommited then Some (InvalidState, j, m, d)
         else case ApplyBlocks io vsize junk j (DataBlockList tx) False m d of
                None \<Rightarrow> None
              | Some (e, m, d) \<Rightarrow>
                  (if e = Success
                   then let (e, j, m) = EraseTx t m j in Some (Success, j, m, d)
                   else Some (Success, j, m, d)))"

definition Cancel :: "nat \<Rightarrow> Journal \<Rightarrow> Journal" where
  "Cancel t j =
     (let j = upd_tx t ((Txs j t)\<lparr>txState := JournalTxStateCanceled\<rparr>) j;
          j = UnlinkTx t j
      in upd_tx t ((Txs j t)\<lparr>CommitResult := Cancelled\<rparr>) j)"

definition OnCommitComplete :: "nat \<Rightarrow> err \<Rightarrow> Journal \<Rightarrow> Journal" where
  "OnCommitComplete t result j =
     (let j = (if result \<noteq> Success
               then UnlinkTx t (upd_tx t ((Txs j t)\<lparr>txState := JournalTxStateCanceled\<rparr>) j)
               else upd_tx t ((Txs j t)\<lparr>txState := JournalTxStateCommited\<rparr>) j)
      in upd_tx t ((Txs j t)\<lparr>CommitResult := result, CommitEvent := True\<rparr>) j)"

definition GetNextIndex :: "Journal \<Rightarrow> err \<times> size_t \<times> Journal" where
  "GetNextIndex j =
     (case PushBack (LogRb j) of
        (e, Some index, rb) \<Rightarrow> (Success, index, j\<lparr>LogRb := rb\<rparr>)
      | (e, None, rb) \<Rightarrow> (e, 0, j))"

text \<open>The blocks of a transaction one after the other, each at the next free place of the log.\<close>

fun WriteTx_blocks ::
  "host \<Rightarrow> bytes \<Rightarrow> TxBlock list \<Rightarrow> size_t list \<Rightarrow> mem \<Rightarrow> biolist \<Rightarrow> Journal \<Rightarrow> err \<times> size_t list \<times> mem \<times> biolist \<times> Journal" where
  "WriteTx_blocks h junk [] idx m bl j = (Success, idx, m, bl, j)"
| "WriteTx_blocks h junk (b # bs) idx m bl j =
     (let (e, index, j) = GetNextIndex j
      in if e \<noteq> Success then (e, idx, m, bl, j)
         else let (ok, m) = new m
         in if \<not> ok then (NoMemory, idx, m, bl, j)
         else let (e, bl, m) = WriteTxBlock h junk j index b m bl
         in if e \<noteq> Success then (e, idx @ [index], m, bl, j)
         else WriteTx_blocks h junk bs (idx @ [index]) m bl j)"

definition tx_blocks :: "Transaction \<Rightarrow> TxBlock list" where
  "tx_blocks tx = [TxBegin (txId tx)] @ DataBlockList tx @
     [TxCommit (txId tx) JournalTxStateCommited (of_nat (length (DataBlockList tx))) 0]"

definition WriteTx :: "host \<Rightarrow> bytes \<Rightarrow> nat \<Rightarrow> mem \<Rightarrow> biolist \<Rightarrow> Journal \<Rightarrow> err \<times> mem \<times> biolist \<times> Journal" where
  "WriteTx h junk t m bl j =
     (let tx = Txs j t
      in if txState tx \<noteq> JournalTxStateCommiting
         then (InvalidState, m, bl, OnCommitComplete t InvalidState (upd_tx t (tx\<lparr>IndexList := []\<rparr>) j))
         else let (e, idx, m, bl, j) = WriteTx_blocks h junk (tx_blocks tx) (IndexList tx) m bl j
         in if e \<noteq> Success
            then (e, m, bl, OnCommitComplete t e (upd_tx t ((Txs j t)\<lparr>IndexList := []\<rparr>) j))
            else (Success, m, bl, upd_tx t ((Txs j t)\<lparr>IndexList := idx\<rparr>) j))"

section \<open>The journal's thread\<close>

fun Run_write :: "host \<Rightarrow> bytes \<Rightarrow> nat list \<Rightarrow> mem \<Rightarrow> biolist \<Rightarrow> Journal \<Rightarrow> err \<times> mem \<times> biolist \<times> Journal" where
  "Run_write h junk [] m bl j = (Success, m, bl, j)"
| "Run_write h junk (t # ts) m bl j =
     (let (e, m, bl, j) = WriteTx h junk t m bl j
      in if e \<noteq> Success then (e, m, bl, j) else Run_write h junk ts m bl j)"

definition complete_all :: "nat list \<Rightarrow> err \<Rightarrow> Journal \<Rightarrow> Journal" where
  "complete_all ts e j = foldl (\<lambda>j t. OnCommitComplete t e j) j ts"

text \<open>One pass of the loop of \<open>Run\<close>.\<close>

definition Run_pass :: "'d block_io \<Rightarrow> host \<Rightarrow> bytes \<Rightarrow> mem \<Rightarrow> 'd \<Rightarrow> Journal \<Rightarrow> Journal \<times> mem \<times> 'd" where
  "Run_pass io h junk m d j =
     (let txList = TxList j
      in if txList = [] then (j, m, d)
         else let j = j\<lparr>TxList := []\<rparr>;
                  (e, m, bl, j) = Run_write h junk txList m BioList j;
                  (e, j, m, d) = (if e = Success then Flush io h junk bl m d j else (e, j, m, d))
         in (complete_all txList e j, m, d))"

definition Unload :: "'d block_io \<Rightarrow> host \<Rightarrow> bytes \<Rightarrow> mem \<Rightarrow> 'd \<Rightarrow> Journal \<Rightarrow> err \<times> Journal \<times> mem \<times> 'd" where
  "Unload io h junk m d j =
     (if jState j = JournalStateStopped then (Success, j, m, d)
      else if jState j \<noteq> JournalStateRunning then (InvalidState, j, m, d)
      else
        let j = j\<lparr>jState := JournalStateStopping, TxThread := None\<rparr>;
            txList = TxList j;
            j = foldl (\<lambda>j t. Cancel t j) (j\<lparr>TxList := []\<rparr>) txList;
            (e, j, m, d) = Flush io h junk BioList m d j
        in (e, j\<lparr>jState := JournalStateStopped\<rparr>, m, d))"

end
