(* ===== verification/Journal_Replay.thy ===== *)
theory Journal_Replay
  imports Journal
begin

text \<open>
  Replay of the log. The log holds transactions, each as a begin block, data blocks and a commit block, in
  the slots that the ring buffer lists; loading the journal applies them in order. The theory fixes when
  a device holds such a log, what applying a transaction does to its content, and proves that replay
  applies exactly the complete transactions of the log, in order, and makes them durable.
\<close>

section \<open>Geometry\<close>

text \<open>The journal lies inside the volume, behind its first block, and the arithmetic does not wrap.\<close>

definition geom :: "uint64_t \<Rightarrow> Journal \<Rightarrow> bool" where
  "geom vsize j \<longleftrightarrow> 0 < unat (jStart j) \<and> 1 < unat (jSize j) \<and>
     (unat (jStart j) + unat (jSize j)) * 4096 \<le> unat vsize \<and> unat vsize < 9223372036854775808"

definition slot_pos :: "Journal \<Rightarrow> size_t \<Rightarrow> nat" where
  "slot_pos j s = (unat (jStart j) + 1 + unat s) * 4096"

definition journal_start :: "Journal \<Rightarrow> nat" where
  "journal_start j = unat (jStart j) * 4096"

definition journal_end :: "Journal \<Rightarrow> nat" where
  "journal_end j = (unat (jStart j) + unat (jSize j)) * 4096"

lemma unat_small_mult: "unat (x::uint64_t) * 4096 < 18446744073709551616 \<Longrightarrow> unat (x * 4096) = unat x * 4096"
  by (simp add: unat_word_ariths)

lemma unat_small_add: "unat (x::uint64_t) + unat y < 18446744073709551616 \<Longrightarrow> unat (x + y) = unat x + unat y"
  by (simp add: unat_word_ariths)

lemma geomD:
  assumes "geom vsize j"
  shows "0 < unat (jStart j)" "1 < unat (jSize j)" "unat (jStart j) * 4096 + unat (jSize j) * 4096 \<le> unat vsize"
    "unat vsize < 9223372036854775808"
  using assms by (auto simp: geom_def)

lemma geom_unat:
  assumes "geom vsize j"
  shows "unat (jStart j * BlockSize) = journal_start j" "unat ((jStart j + jSize j) * BlockSize) = journal_end j"
proof -
  note g = geomD [OF assms]
  have s: "unat (jStart j + jSize j) = unat (jStart j) + unat (jSize j)" using g by (intro unat_small_add) linarith
  show "unat (jStart j * BlockSize) = journal_start j"
    unfolding BlockSize_def journal_start_def using g by (intro unat_small_mult) linarith
  show "unat ((jStart j + jSize j) * BlockSize) = journal_end j"
    unfolding BlockSize_def journal_end_def s [symmetric] using g s by (intro unat_small_mult) linarith
qed

lemma IndexToPosition_ok:
  assumes "geom vsize j" "unat s + 1 < unat (jSize j)"
  shows "\<exists>p. IndexToPosition j s = (Success, p) \<and> unat p = slot_pos j s \<and> p AND 511 = 0"
proof -
  note g = geomD [OF assms(1)]
  have i: "unat (s + 1) = unat s + 1" using assms g by (simp add: unat_word_ariths)
  have "unat (jStart j + 1) = unat (jStart j) + 1" using g by (simp add: unat_word_ariths)
  then have a: "unat (jStart j + 1 + s) = unat (jStart j) + 1 + unat s"
    using g assms(2) by (simp add: unat_word_ariths)
  have b: "unat ((jStart j + 1 + s) * 4096) = (unat (jStart j) + 1 + unat s) * 4096"
    unfolding a [symmetric] using g assms(2) a by (intro unat_small_mult) linarith
  have "\<not> s + 1 \<ge> jSize j" using i assms(2) by (simp add: word_le_nat_alt)
  then show ?thesis using b by (simp add: IndexToPosition_def BlockSize_def slot_pos_def and_511)
qed

text \<open>The position test, on numbers: aligned, behind the first block, inside the volume, outside the journal.\<close>

lemma CheckPosition_iff:
  assumes g: "geom vsize j" and n: "unat n < 4294967296"
  shows "CheckPosition vsize j p n = Success \<longleftrightarrow>
    unat p mod 512 = 0 \<and> 4096 \<le> unat p \<and> unat p < unat vsize \<and> unat p + unat n \<le> unat vsize \<and>
    (unat n = 0 \<or> unat p + unat n \<le> journal_start j \<or> journal_end j \<le> unat p)"
proof (cases "unat p < unat vsize")
  case False
  then have "p \<ge> vsize" by (simp add: word_le_nat_alt)
  then show ?thesis using False by (simp add: CheckPosition_def error_codes)
next
  case True
  note g' = geomD [OF g]
  have a: "unat (p + n) = unat p + unat n" using True g' n by (intro unat_small_add) linarith
  have b: "unat BlockSize = 4096" by (simp add: BlockSize_def)
  have lt: "journal_start j < journal_end j" using g' by (simp add: journal_start_def journal_end_def)
  show ?thesis using True g' lt
    by (auto simp: CheckPosition_def error_codes and_511 CheckIntersection_def CheckRange_def word_le_nat_alt word_less_nat_alt
        a geom_unat [OF g] b)
qed

section \<open>Logged transactions\<close>

text \<open>A logged transaction: its identifier, its data blocks, and the time in its commit block.\<close>

type_synonym ltx = "guid \<times> TxBlock list \<times> uint64_t"

definition block_pos :: "TxBlock \<Rightarrow> nat" where
  "block_pos b = unat (Position b)"

definition block_bytes :: "TxBlock \<Rightarrow> bytes" where
  "block_bytes b = take (unat (DataSize b)) (Data b)"

definition apart_blocks :: "TxBlock \<Rightarrow> TxBlock \<Rightarrow> bool" where
  "apart_blocks b c \<longleftrightarrow> block_pos b + length (block_bytes b) \<le> block_pos c \<or>
     block_pos c + length (block_bytes c) \<le> block_pos b"

fun apart :: "TxBlock list \<Rightarrow> bool" where
  "apart [] = True"
| "apart (b # bs) = (list_all (apart_blocks b) bs \<and> apart bs)"

definition valid_data :: "uint64_t \<Rightarrow> Journal \<Rightarrow> TxBlock \<Rightarrow> bool" where
  "valid_data vsize j b = (case b of
     TxData g i n p x \<Rightarrow> length g = GuidSize \<and> length x = TxDataSize \<and> 0 < unat n \<and> unat n \<le> TxDataSize \<and>
       CheckPosition vsize j p (ucast n) = Success
   | _ \<Rightarrow> False)"

fun valid_tx :: "uint64_t \<Rightarrow> Journal \<Rightarrow> ltx \<Rightarrow> bool" where
  "valid_tx vsize j (g, bs, t) \<longleftrightarrow> length g = GuidSize \<and> bs \<noteq> [] \<and> length bs < 4294967296 \<and>
     list_all (valid_data vsize j) bs \<and> list_all (\<lambda>(i, b). TxId b = g \<and> Index b = of_nat i) (enumerate 0 bs) \<and> apart bs"

fun tx_log :: "ltx \<Rightarrow> TxBlock list" where
  "tx_log (g, bs, t) = TxBegin g # bs @ [TxCommit g JournalTxStateCommited (of_nat (length bs)) t]"

text \<open>Applying blocks to the content of the device, and transactions one after the other.\<close>

definition put_block :: "(nat \<Rightarrow> byte_t) \<Rightarrow> TxBlock \<Rightarrow> nat \<Rightarrow> byte_t" where
  "put_block f b = put_page (block_pos b) (block_bytes b) f"

definition apply_blocks :: "TxBlock list \<Rightarrow> (nat \<Rightarrow> byte_t) \<Rightarrow> nat \<Rightarrow> byte_t" where
  "apply_blocks bs f = foldl put_block f bs"

definition apply_txs :: "ltx list \<Rightarrow> (nat \<Rightarrow> byte_t) \<Rightarrow> nat \<Rightarrow> byte_t" where
  "apply_txs txs f = foldl (\<lambda>f (g, bs, t). apply_blocks bs f) f txs"

text \<open>The slots hold the blocks.\<close>

definition holds :: "(nat \<Rightarrow> byte_t) \<Rightarrow> Journal \<Rightarrow> size_t list \<Rightarrow> TxBlock list \<Rightarrow> bool" where
  "holds v j ss bs \<longleftrightarrow>
     list_all2 (\<lambda>s b. unat s + 1 < unat (jSize j) \<and> wf_block b \<and> page_at v (slot_pos j s) = on_disk b) ss bs"

definition covers :: "TxBlock \<Rightarrow> nat \<Rightarrow> bool" where
  "covers b p \<longleftrightarrow> block_pos b \<le> p \<and> p < block_pos b + length (block_bytes b)"

definition block_byte :: "TxBlock \<Rightarrow> nat \<Rightarrow> byte_t" where
  "block_byte b p = block_bytes b ! (p - block_pos b)"

lemma put_block_at: "put_block f b p = (if covers b p then block_byte b p else f p)"
  by (simp add: put_block_def put_page_def covers_def block_byte_def)

lemma apply_blocks_simps [simp]: "apply_blocks [] f = f" "apply_blocks (b # bs) f = apply_blocks bs (put_block f b)"
  "apply_blocks (bs @ cs) f = apply_blocks cs (apply_blocks bs f)"
  by (simp_all add: apply_blocks_def)

lemma apply_blocks_frame: "(\<And>b. b \<in> set bs \<Longrightarrow> \<not> covers b p) \<Longrightarrow> apply_blocks bs f p = f p"
  by (induction bs arbitrary: f) (simp_all add: put_block_at)

lemma apart_blocks_iff: "apart_blocks b c \<Longrightarrow> covers b p \<Longrightarrow> \<not> covers c p"
  by (auto simp: apart_blocks_def covers_def)

lemma apply_blocks_covered:
  assumes "apart bs" "b \<in> set bs" "covers b p"
  shows "apply_blocks bs f p = block_byte b p"
  using assms
proof (induction bs arbitrary: f)
  case (Cons c bs)
  show ?case
  proof (cases "b \<in> set bs")
    case True
    then show ?thesis using Cons by simp
  next
    case False
    then have b: "b = c" using Cons.prems by simp
    then have "\<not> covers d p" if "d \<in> set bs" for d
      using that Cons.prems apart_blocks_iff [of c d p] by (auto simp: list_all_iff)
    then show ?thesis using b Cons.prems by (simp add: apply_blocks_frame put_block_at)
  qed
qed simp

lemma apart_append: "apart (bs @ cs) \<Longrightarrow> apart bs \<and> apart cs"
  by (induction bs) auto

section \<open>One block\<close>

lemma valid_dataE:
  assumes "valid_data vsize j b"
  obtains g i n p x where "b = TxData g i n p x" "length g = GuidSize" "length x = TxDataSize" "0 < unat n"
    "unat n \<le> TxDataSize" "CheckPosition vsize j p (ucast n) = Success"
  using assms by (auto simp: valid_data_def split: TxBlock.splits)

lemma unat_ucast_32: "unat (ucast (n::uint32_t) :: uint64_t) = unat n"
proof -
  have "unat n < 2 ^ 32" using unsigned_less [of n, where ?'a = nat] by simp
  then show ?thesis by (simp add: unsigned_ucast_eq take_bit_nat_eq_self)
qed

lemma valid_data_outside:
  assumes g: "geom vsize j" and v: "valid_data vsize j b" and c: "covers b p"
  shows "p < journal_start j \<or> journal_end j \<le> p"
proof -
  from v obtain g i n q x where b: "b = TxData g i n q x" "length x = TxDataSize" "0 < unat n" "unat n \<le> TxDataSize"
    and ok: "CheckPosition vsize j q (ucast n) = Success" by (rule valid_dataE)
  have "unat (ucast n :: uint64_t) < 4294967296" using b(4) by (simp add: unat_ucast_32 TxDataSize_def)
  from CheckPosition_iff [OF g this, of q] ok b c show ?thesis
    by (auto simp: covers_def block_pos_def block_bytes_def unat_ucast_32)
qed

definition data_bio :: "TxBlock \<Rightarrow> bio" where
  "data_bio b = \<lparr>b_write = True, b_sector = Position b div 512, b_data = block_bytes b,
     b_preflush = False, b_fua = False, b_sync = False\<rparr>"

lemma data_bio_range:
  assumes "valid_data vsize j b"
  shows "in_bio (data_bio b) p \<longleftrightarrow> covers b p" "bio_byte (data_bio b) p = block_byte b p" "b_write (data_bio b)"
proof -
  from assms obtain g i n q x where b: "b = TxData g i n q x" and ok: "CheckPosition vsize j q (ucast n) = Success"
    by (rule valid_dataE)
  have "q AND 511 = 0" using ok by (auto simp: CheckPosition_def error_codes split: if_splits)
  then have s: "bio_start (data_bio b) = block_pos b"
    using sector_start by (simp add: bio_start_def data_bio_def block_pos_def b)
  show "in_bio (data_bio b) p \<longleftrightarrow> covers b p" "bio_byte (data_bio b) p = block_byte b p" "b_write (data_bio b)"
    using s by (simp_all add: in_bio_def covers_def bio_byte_def block_byte_def) (simp_all add: data_bio_def)
qed

lemma ApplyBlocks_add_ok:
  assumes "list_all (valid_data vsize j) bs" "length junk = PageSize"
  shows "ApplyBlocks_add vsize j junk bs [] bl = Some (Success, bl\<lparr>ReqList := ReqList bl @ map data_bio bs\<rparr>, [])"
  using assms(1)
proof (induction bs arbitrary: bl)
  case (Cons b bs)
  from Cons.prems have "valid_data vsize j b" by simp
  then obtain g i n q x where b: "b = TxData g i n q x" "length x = TxDataSize" "0 < unat n" "unat n \<le> TxDataSize"
    and ok: "CheckPosition vsize j q (ucast n) = Success" by (rule valid_dataE)
  have q: "q AND 511 = 0" using ok by (auto simp: CheckPosition_def error_codes split: if_splits)
  have le: "unat n \<le> PageSize" using b(4) by (simp add: layout)
  let ?page = "take (unat n) x @ drop (unat n) junk"
  have pw: "Page_Write x (unat n) 0 junk = (?page, unat n)"
    using le assms(2) b(3) by (simp add: Page_Write_def layout Let_def)
  have lp: "length ?page = PageSize" using le assms(2) b(2,4) by simp
  have "AddIo_data junk x (unat n) q True [] bl = (Success, bl\<lparr>ReqList := ReqList bl @ [data_bio b]\<rparr>, [])"
    using AddIo_reliable [OF q lp le, of True bl] pw le assms(2) b
    by (simp add: AddIo_data_def Page_Create_def data_bio_def block_bytes_def)
  then show ?case using Cons b ok by simp
qed simp

section \<open>Applying and reading with a working device\<close>

context block_layer
begin

lemma SubmitWait_reliable:
  assumes "reliable io" "ReqList bl \<noteq> []" "bl_Result bl = Success" "SubmitWait io True bl d = (datas, bl', d')"
  shows "bl_Result bl' = Success"
  using assms
  by (auto simp: SubmitWait_def Submit_wait_def Let_def reliable_def PostEndIo_ok split: prod.splits if_splits)
    (metis PostEndIo_ok fst_conv)+

lemma ApplyBlocks_ok:
  assumes rel: "reliable io" and v: "list_all (valid_data vsize j) bs" and ne: "bs \<noteq> []" and ap: "apart bs"
    and junk: "length junk = PageSize"
  shows "\<exists>d'. ApplyBlocks io vsize junk j bs True [] d = Some (Success, [], d') \<and>
    view d' = apply_blocks bs (view d) \<and> crash d' \<subseteq> {view d'}"
proof -
  define bl where "bl = BioList\<lparr>ReqList := map data_bio bs\<rparr>"
  from ne obtain cs b where bs: "bs = cs @ [b]" by (cases bs rule: rev_cases) auto
  have r: "ReqList bl = map data_bio cs @ [data_bio b]" "bl_Result bl = Success" by (simp_all add: bl_def BioList_def bs)
  obtain datas bl' d' where s: "SubmitWait io True bl d = (datas, bl', d')" by (cases "SubmitWait io True bl d") auto
  have ok: "bl_Result bl' = Success" using SubmitWait_reliable [OF rel _ r(2) s] r(1) by simp
  have vb: "valid_data vsize j c" if "c \<in> set bs" for c using v that by (simp add: list_all_iff)
  have w: "written_by (map data_bio cs) p \<longleftrightarrow> (\<exists>c \<in> set cs. covers c p)" for p
    using data_bio_range [OF vb] by (auto simp: written_by_def list_ex_iff bs)
  from SubmitWait_barrier [OF r s] ok obtain d1 where
    f: "\<And>p. \<not> written_by (map data_bio cs) p \<Longrightarrow> view d1 p = view d p" and
    c: "\<And>p. written_by (map data_bio cs) p \<Longrightarrow>
      \<exists>b \<in> set (map data_bio cs). b_write b \<and> in_bio b p \<and> view d1 p = bio_byte b p" and
    h: "b_write (data_bio b) \<longrightarrow> view d' = overwrite (data_bio b) (view d1) \<and> crash d' \<subseteq> {view d'}" by auto
  have d1: "view d1 p = apply_blocks cs (view d) p" for p
  proof (cases "\<exists>c \<in> set cs. covers c p")
    case True
    with c [of p] w obtain x where "x \<in> set cs" "in_bio (data_bio x) p" "view d1 p = bio_byte (data_bio x) p" by auto
    then have "x \<in> set cs" "covers x p" "view d1 p = block_byte x p" using data_bio_range [OF vb] bs by auto
    then show ?thesis using apart_append [of cs "[b]"] ap bs apply_blocks_covered [of cs x p] by simp
  next
    case False
    then show ?thesis using f [of p] w apply_blocks_frame [of cs p] by auto
  qed
  have "view d' = apply_blocks bs (view d)"
    using h data_bio_range [OF vb [of b]] d1 by (auto simp: bs overwrite_def put_block_at)
  moreover have "crash d' \<subseteq> {view d'}" using h data_bio_range(3) [OF vb [of b]] unfolding bs by auto
  moreover have "ApplyBlocks io vsize junk j bs True [] d = Some (Success, [], d')"
    using ApplyBlocks_add_ok [OF v junk, of BioList] s ok
    by (simp add: ApplyBlocks_def SubmitWaitResult_def bl_def BioList_def)
  ultimately show ?thesis by blast
qed

lemma ReadTxBlock_ok:
  assumes rel: "reliable io" and g: "geom vsize j" and s: "unat s + 1 < unat (jSize j)" and junk: "length junk = PageSize"
    and b: "wf_block b" "page_at (view d) (slot_pos j s) = on_disk b"
  shows "\<exists>d'. ReadTxBlock io h junk j s [] d = (Success, Some b, [], d') \<and> view d' = view d"
proof -
  from IndexToPosition_ok [OF g s] obtain p where p: "IndexToPosition j s = (Success, p)" "unat p = slot_pos j s" "p AND 511 = 0"
    by blast
  from read_page_reliable [OF rel p(3) junk, of d] obtain d' where
    d': "SubmitWaitResult_page io junk p False False [] d = (Success, on_disk b, [], d')" "view d' = view d"
    using p(2) b(2) by auto
  from ReadTxBlockComplete_ok [OF b(1), of h] obtain page where
    "ReadTxBlockComplete h (on_disk b) = (Success, page)" "block_view h page = Some b" by blast
  then show ?thesis using p d' by (simp add: ReadTxBlock_def Page_Create_def)
qed

end

lemma check_data_blocks_ok:
  assumes "list_all (valid_data vsize j) bs" "list_all (\<lambda>(i, b). TxId b = g \<and> Index b = of_nat i) (enumerate k bs)"
  shows "check_data_blocks g (of_nat k) bs"
  using assms
proof (induction bs arbitrary: k)
  case (Cons b bs)
  from Cons.prems have "valid_data vsize j b" by simp
  then obtain g' i n q x where b: "b = TxData g' i n q x" by (rule valid_dataE)
  have "check_data_blocks g (of_nat (Suc k)) bs" using Cons.prems by (intro Cons.IH) simp_all
  then show ?case using Cons.prems b by (simp add: add.commute)
qed simp

lemma wf_tx_log:
  assumes "valid_tx vsize j (g, bs, t)"
  shows "list_all wf_block (tx_log (g, bs, t))"
  using assms by (auto simp: wf_block_def list_all_iff valid_data_def split: TxBlock.splits)

lemma holds_Cons: "holds v j (s # ss) (b # bs) \<longleftrightarrow>
    unat s + 1 < unat (jSize j) \<and> wf_block b \<and> page_at v (slot_pos j s) = on_disk b \<and> holds v j ss bs"
  by (auto simp: holds_def)

lemma holds_append: "holds v j ss (bs @ cs) \<longleftrightarrow> holds v j (take (length bs) ss) bs \<and> holds v j (drop (length bs) ss) cs"
proof
  assume "holds v j ss (bs @ cs)"
  then show "holds v j (take (length bs) ss) bs \<and> holds v j (drop (length bs) ss) cs"
    by (auto simp: holds_def list_all2_append2)
next
  assume "holds v j (take (length bs) ss) bs \<and> holds v j (drop (length bs) ss) cs"
  then have "holds v j (take (length bs) ss @ drop (length bs) ss) (bs @ cs)"
    unfolding holds_def by (intro list_all2_appendI) auto
  then show "holds v j ss (bs @ cs)" by simp
qed

lemma holds_length: "holds v j ss bs \<Longrightarrow> length ss = length bs"
  by (simp add: holds_def list_all2_lengthD)

lemma slot_inside:
  assumes "geom vsize j" "unat s + 1 < unat (jSize j)" "slot_pos j s \<le> p" "p < slot_pos j s + PageSize"
  shows "journal_start j + 4096 \<le> p" "p < journal_end j"
  using assms by (auto simp: slot_pos_def journal_start_def journal_end_def PageSize_def)

lemma holds_cong:
  assumes "geom vsize j" "holds v j ss bs" "\<And>p. journal_start j + 4096 \<le> p \<Longrightarrow> p < journal_end j \<Longrightarrow> v' p = v p"
  shows "holds v' j ss bs"
  unfolding holds_def
proof (rule list_all2_mono [OF assms(2) [unfolded holds_def]])
  fix s b assume a: "unat s + 1 < unat (jSize j) \<and> wf_block b \<and> page_at v (slot_pos j s) = on_disk b"
  then have "page_at v' (slot_pos j s) = page_at v (slot_pos j s)"
    using slot_inside [OF assms(1), of s] assms(3) by (intro page_at_cong) auto
  then show "unat s + 1 < unat (jSize j) \<and> wf_block b \<and> page_at v' (slot_pos j s) = on_disk b" using a by simp
qed

lemma apply_blocks_outside:
  assumes "geom vsize j" "list_all (valid_data vsize j) bs" "journal_start j \<le> p" "p < journal_end j"
  shows "apply_blocks bs f p = f p"
  using assms valid_data_outside [OF assms(1)] by (intro apply_blocks_frame) (force simp: list_all_iff)

lemma apply_txs_Cons [simp]: "apply_txs ((g, bs, t) # txs) f = apply_txs txs (apply_blocks bs f)"
  by (simp add: apply_txs_def)

lemma apply_txs_append: "apply_txs (xs @ ys) f = apply_txs ys (apply_txs xs f)"
  by (simp add: apply_txs_def)

lemma apply_txs_Nil [simp]: "apply_txs [] f = f"
  by (simp add: apply_txs_def)

lemma apply_txs_outside:
  assumes "geom vsize j" "list_all (valid_tx vsize j) txs" "journal_start j \<le> p" "p < journal_end j"
  shows "apply_txs txs f p = f p"
  using assms(2)
proof (induction txs arbitrary: f)
  case (Cons x txs)
  obtain g bs t where x: "x = (g, bs, t)" by (cases x)
  show ?case using Cons apply_blocks_outside [OF assms(1) _ assms(3,4), of bs f] by (simp add: x)
qed simp

section \<open>The replay loop\<close>

context block_layer
begin

lemma Replay_tx_ok:
  assumes "reliable io" "valid_tx vsize j (g, bs, t)" "length junk = PageSize"
  shows "\<exists>d'. Replay_tx io vsize junk j (tx_log (g, bs, t)) [] d = Some (Success, [], d') \<and>
    view d' = apply_blocks bs (view d) \<and> crash d' \<subseteq> {view d'}"
proof -
  have c: "check_data_blocks g 0 bs" using check_data_blocks_ok [of vsize j bs g 0] assms(2) by simp
  have l: "unat (of_nat (length bs) :: uint32_t) = length bs"
    using assms(2) by (simp add: unat_of_nat take_bit_nat_eq_self)
  have "length bs \<noteq> 0" using assms(2) by auto
  then have "Replay_tx io vsize junk j (tx_log (g, bs, t)) [] d = ApplyBlocks io vsize junk j bs True [] d"
    using c l by (simp add: Replay_tx_def)
  then show ?thesis using ApplyBlocks_ok [OF assms(1) _ _ _ assms(3), of vsize j bs d] assms(2) by auto
qed

lemma Replay_step:
  assumes rel: "reliable io" and g: "geom vsize j" and junk: "length junk = PageSize"
    and rb: "ring_inv rb" "slots rb = s # ss" and b: "unat s + 1 < unat (jSize j)" "wf_block b" "page_at (view d) (slot_pos j s) = on_disk b"
  shows "\<exists>rb' d1. ring_inv rb' \<and> slots rb' = ss \<and> Capacity rb' = Capacity rb \<and> view d1 = view d \<and>
    Replay_loop io h vsize junk j rb acc [] d =
      (case Replay_block io vsize junk j (Some b) acc [] d1 of
         None \<Rightarrow> None
       | Some (e, acc', m, d2) \<Rightarrow> (if e \<noteq> Success then Some (e, rb', m, d2) else Replay_loop io h vsize junk j rb' acc' m d2))"
proof -
  have "Size rb \<noteq> 0" using arg_cong [OF rb(2), of length] by auto
  from PopFront_ok [OF rb(1) this] rb(2) obtain rb' where
    p: "PopFront rb = (Success, Some s, rb')" "ring_inv rb'" "slots rb' = ss" "Capacity rb' = Capacity rb" by auto
  from ReadTxBlock_ok [OF rel g b(1) junk b(2,3)] obtain d1 where
    "ReadTxBlock io h junk j s [] d = (Success, Some b, [], d1)" "view d1 = view d" by blast
  then show ?thesis using p by (intro exI [of _ rb'] exI [of _ d1]) (simp add: Replay_loop.simps [of io h vsize junk j rb])
qed

lemma Replay_data:
  assumes rel: "reliable io" and g: "geom vsize j" and junk: "length junk = PageSize"
    and "ring_inv rb" "slots rb = ss @ rest" "holds (view d) j ss bs" "list_all (valid_data vsize j) bs" "acc \<noteq> []"
  shows "\<exists>rb' d1. ring_inv rb' \<and> slots rb' = rest \<and> Capacity rb' = Capacity rb \<and> view d1 = view d \<and>
    Replay_loop io h vsize junk j rb acc [] d = Replay_loop io h vsize junk j rb' (acc @ bs) [] d1"
  using assms(4-)
proof (induction bs arbitrary: rb ss acc d)
  case Nil
  then have "ss = []" using holds_length by fastforce
  then show ?case using Nil by auto
next
  case (Cons b bs)
  then obtain s ss' where ss: "ss = s # ss'" using holds_length [OF Cons.prems(3)] by (cases ss) auto
  note hb = Cons.prems(3) [unfolded ss holds_Cons]
  from Replay_step [OF rel g junk Cons.prems(1), of s "ss' @ rest" b d h acc] Cons.prems(2) hb ss obtain rb1 d1 where
    r1: "ring_inv rb1" "slots rb1 = ss' @ rest" "Capacity rb1 = Capacity rb" "view d1 = view d"
    "Replay_loop io h vsize junk j rb acc [] d =
      (case Replay_block io vsize junk j (Some b) acc [] d1 of
         None \<Rightarrow> None
       | Some (e, acc', m, d2) \<Rightarrow> (if e \<noteq> Success then Some (e, rb1, m, d2) else Replay_loop io h vsize junk j rb1 acc' m d2))"
    by auto
  have "valid_data vsize j b" using Cons.prems(4) by simp
  then obtain gd i n q x where "b = TxData gd i n q x" by (rule valid_dataE)
  then have "Replay_block io vsize junk j (Some b) acc [] d1 = Some (Success, acc @ [b], [], d1)"
    using Cons.prems(5) by (simp add: Replay_block_def)
  then have "Replay_loop io h vsize junk j rb acc [] d = Replay_loop io h vsize junk j rb1 (acc @ [b]) [] d1" using r1(5) by simp
  moreover have "holds (view d1) j ss' bs" using hb r1(4) by simp
  ultimately show ?case using Cons.IH [OF r1(1,2), of d1 "acc @ [b]"] Cons.prems(4) r1(3,4) by simp
qed

lemma Replay_one:
  assumes rel: "reliable io" and g: "geom vsize j" and junk: "length junk = PageSize"
    and rb: "ring_inv rb" "slots rb = ss @ rest" "holds (view d) j ss (tx_log x)" and v: "valid_tx vsize j x"
  shows "\<exists>rb' d1. ring_inv rb' \<and> slots rb' = rest \<and> Capacity rb' = Capacity rb \<and>
    view d1 = apply_txs [x] (view d) \<and> crash d1 \<subseteq> {view d1} \<and>
    Replay_loop io h vsize junk j rb [] [] d = Replay_loop io h vsize junk j rb' [] [] d1"
proof -
  obtain g0 bs t where x: "x = (g0, bs, t)" by (cases x)
  let ?c = "TxCommit g0 JournalTxStateCommited (of_nat (length bs)) t"
  obtain s1 ss1 where ss: "ss = s1 # ss1" using holds_length [OF rb(3)] by (cases ss) (auto simp: x)
  have h1: "unat s1 + 1 < unat (jSize j)" "wf_block (TxBegin g0)" "page_at (view d) (slot_pos j s1) = on_disk (TxBegin g0)"
    "holds (view d) j ss1 (bs @ [?c])" using rb(3) by (auto simp: ss x holds_Cons)
  from Replay_step [OF rel g junk rb(1) _ h1(1-3), of "ss1 @ rest" h "[]"] rb(2) ss obtain rb1 d1 where
    r1: "ring_inv rb1" "slots rb1 = ss1 @ rest" "Capacity rb1 = Capacity rb" "view d1 = view d"
    and l1: "Replay_loop io h vsize junk j rb [] [] d = Replay_loop io h vsize junk j rb1 [TxBegin g0] [] d1"
    by (auto simp: Replay_block_def)
  define ss2 where "ss2 = take (length bs) ss1"
  have "length ss1 = length bs + 1" using holds_length [OF h1(4)] by simp
  then obtain s3 where s3: "drop (length bs) ss1 = [s3]" by (metis Cons_nth_drop_Suc Suc_eq_plus1 append_Nil2 drop_all lessI order_refl)
  have ss1: "ss1 = ss2 @ [s3]" using append_take_drop_id [of "length bs" ss1] s3 by (simp add: ss2_def)
  have h2: "holds (view d1) j ss2 bs" and h3: "holds (view d1) j [s3] [?c]"
    using h1(4) r1(4) s3 by (auto simp: holds_append ss2_def)
  have vd: "list_all (valid_data vsize j) bs" using v x by simp
  from Replay_data [OF rel g junk r1(1) _ h2 vd, of "s3 # rest" "[TxBegin g0]" h] r1(2) ss1 obtain rb2 d2 where
    r2: "ring_inv rb2" "slots rb2 = s3 # rest" "Capacity rb2 = Capacity rb1" "view d2 = view d1"
    and l2: "Replay_loop io h vsize junk j rb1 [TxBegin g0] [] d1 = Replay_loop io h vsize junk j rb2 (TxBegin g0 # bs) [] d2"
    by auto
  have h4: "unat s3 + 1 < unat (jSize j)" "wf_block ?c" "page_at (view d2) (slot_pos j s3) = on_disk ?c"
    using h3 r2(4) by (auto simp: holds_Cons)
  from Replay_step [OF rel g junk r2(1,2) h4, of h "TxBegin g0 # bs"] obtain rb3 d3 where
    r3: "ring_inv rb3" "slots rb3 = rest" "Capacity rb3 = Capacity rb2" "view d3 = view d2"
    and l3: "Replay_loop io h vsize junk j rb2 (TxBegin g0 # bs) [] d2 =
      (case Replay_block io vsize junk j (Some ?c) (TxBegin g0 # bs) [] d3 of
         None \<Rightarrow> None
       | Some (e, acc', m, d2) \<Rightarrow> (if e \<noteq> Success then Some (e, rb3, m, d2) else Replay_loop io h vsize junk j rb3 acc' m d2))"
    by blast
  from Replay_tx_ok [OF rel v [unfolded x] junk, of d3] obtain d4 where
    t: "Replay_tx io vsize junk j (tx_log (g0, bs, t)) [] d3 = Some (Success, [], d4)"
    "view d4 = apply_blocks bs (view d3)" "crash d4 \<subseteq> {view d4}" by blast
  have "bs \<noteq> []" using v x by simp
  then have "Replay_block io vsize junk j (Some ?c) (TxBegin g0 # bs) [] d3 = Some (Success, [], [], d4)"
    using t(1) by (cases bs) (simp_all add: Replay_block_def)
  then have "Replay_loop io h vsize junk j rb2 (TxBegin g0 # bs) [] d2 = Replay_loop io h vsize junk j rb3 [] [] d4"
    using l3 by simp
  then show ?thesis using l1 l2 t r1 r2 r3 x by (intro exI [of _ rb3] exI [of _ d4]) simp
qed

lemma Replay_many:
  fixes hh :: host
  assumes rel: "reliable io" and g: "geom vsize j" and junk: "length junk = PageSize"
    and "ring_inv rb" "slots rb = ss @ rest" "holds (view d) j ss (concat (map tx_log txs))" "list_all (valid_tx vsize j) txs"
  shows "\<exists>rb' d1. ring_inv rb' \<and> slots rb' = rest \<and> Capacity rb' = Capacity rb \<and>
    view d1 = apply_txs txs (view d) \<and> (txs = [] \<and> d1 = d \<or> crash d1 \<subseteq> {view d1}) \<and>
    Replay_loop io hh vsize junk j rb [] [] d = Replay_loop io hh vsize junk j rb' [] [] d1"
  using assms(4-)
proof (induction txs arbitrary: rb ss d)
  case Nil
  then have "ss = []" using holds_length by fastforce
  then show ?case using Nil by auto
next
  case (Cons x txs)
  obtain g0 bs t where x: "x = (g0, bs, t)" by (cases x)
  let ?n = "length (tx_log x)"
  have h: "holds (view d) j (take ?n ss) (tx_log x)" "holds (view d) j (drop ?n ss) (concat (map tx_log txs))"
    using Cons.prems(3) by (simp_all add: holds_append del: tx_log.simps)
  from Replay_one [OF rel g junk Cons.prems(1) _ h(1), of "drop ?n ss @ rest" hh] Cons.prems(2,4) obtain rb1 d1 where
    r1: "ring_inv rb1" "slots rb1 = drop ?n ss @ rest" "Capacity rb1 = Capacity rb"
    "view d1 = apply_txs [x] (view d)" "crash d1 \<subseteq> {view d1}"
    and l1: "Replay_loop io hh vsize junk j rb [] [] d = Replay_loop io hh vsize junk j rb1 [] [] d1"
    by (auto simp: append_assoc [symmetric] simp del: append_assoc)
  have "holds (view d1) j (drop ?n ss) (concat (map tx_log txs))"
    using holds_cong [OF g h(2), of "view d1"] r1(4) apply_txs_outside [OF g, of "[x]"] Cons.prems(4) by simp
  from Cons.IH [OF r1(1,2) this] Cons.prems(4) obtain rb2 d2 where
    "ring_inv rb2" "slots rb2 = rest" "Capacity rb2 = Capacity rb1" "view d2 = apply_txs txs (view d1)"
    "txs = [] \<and> d2 = d1 \<or> crash d2 \<subseteq> {view d2}"
    "Replay_loop io hh vsize junk j rb1 [] [] d1 = Replay_loop io hh vsize junk j rb2 [] [] d2" by auto
  then show ?case using r1 l1 by (intro exI [of _ rb2] exI [of _ d2]) (auto simp: x)
qed

end

text \<open>The tests depend on the place of the journal only.\<close>

lemma place_cong:
  assumes "jStart j = jStart j'" "jSize j = jSize j'"
  shows "CheckPosition vsize j = CheckPosition vsize j'" "valid_data vsize j = valid_data vsize j'"
    "valid_tx vsize j = valid_tx vsize j'" "geom vsize j = geom vsize j'" "slot_pos j = slot_pos j'"
    "holds v j = holds v j'" "journal_start j = journal_start j'" "journal_end j = journal_end j'"
proof -
  show c: "CheckPosition vsize j = CheckPosition vsize j'" using assms by (intro ext) (simp add: CheckPosition_def)
  show d: "valid_data vsize j = valid_data vsize j'" by (intro ext) (simp add: valid_data_def c split: TxBlock.split)
  show "valid_tx vsize j = valid_tx vsize j'"
  proof
    fix x show "valid_tx vsize j x = valid_tx vsize j' x" by (cases x) (simp add: d)
  qed
  show "slot_pos j = slot_pos j'" using assms by (intro ext) (simp add: slot_pos_def)
  then show "holds v j = holds v j'" using assms by (intro ext) (simp add: holds_def)
  show "geom vsize j = geom vsize j'" "journal_start j = journal_start j'" "journal_end j = journal_end j'"
    using assms by (simp_all add: geom_def journal_start_def journal_end_def)
qed

section \<open>The header\<close>

lemma header_page_length: "length junk = PageSize \<Longrightarrow> length (header_page h n s e k c junk) = PageSize"
  by (simp add: header_page_def put_le Page_Zero_def layout Let_def)

text \<open>The fields of the header page, and its checksum.\<close>

lemma header_page_fields:
  assumes l: "length junk = PageSize" and p_def: "p = header_page h n s e k c junk"
  shows "take 4 (drop 0 p) = le_bytes 4 JournalMagic" "take 8 (drop 16 p) = le_bytes 8 n" "take 8 (drop 24 p) = le_bytes 8 s"
    "take 8 (drop 32 p) = le_bytes 8 e" "take 8 (drop 40 p) = le_bytes 8 k" "take 8 (drop 48 p) = le_bytes 8 c"
    "drop HashOffset p = le_bytes 8 (XXH64 LittleEndian (take HashOffset p) 0)"
proof -
  define q where "q = put 48 (le_bytes 8 c) (put 40 (le_bytes 8 k) (put 32 (le_bytes 8 e) (put 24 (le_bytes 8 s)
    (put 16 (le_bytes 8 n) (put 0 (le_bytes 4 JournalMagic) (Page_Zero junk))))))"
  have q: "p = put HashOffset (Sum h (take HashOffset q)) q" by (simp add: p_def header_page_def put_le q_def Let_def)
  have lq: "length q = 4096" using l by (simp add: q_def Page_Zero_def layout)
  have low: "take n' (drop off p) = take n' (drop off q)" if "off + n' \<le> 4088" for off n'
    unfolding q using that lq by (intro field_put_other) (simp_all add: layout)
  show "take 4 (drop 0 p) = le_bytes 4 JournalMagic"
  proof -
    have "take 4 q = le_bytes 4 JournalMagic"
      using l by (simp add: q_def take_put Page_Zero_def layout) (simp add: put_def)
    then show ?thesis using low [of 0 4] by simp
  qed
  show "take 8 (drop 16 p) = le_bytes 8 n" "take 8 (drop 24 p) = le_bytes 8 s"
    "take 8 (drop 32 p) = le_bytes 8 e" "take 8 (drop 40 p) = le_bytes 8 k" "take 8 (drop 48 p) = le_bytes 8 c"
    using l by (simp_all add: low) (simp_all add: q_def field_puts Page_Zero_def layout)
  have t: "take HashOffset p = take HashOffset q" unfolding q using lq by (intro take_put) (simp_all add: layout)
  have "drop HashOffset p = Sum h (take HashOffset q)" unfolding q using lq by (simp add: put_def layout)
  then show "drop HashOffset p = le_bytes 8 (XXH64 LittleEndian (take HashOffset p) 0)" using lq t by (simp add: layout)
qed

lemma read_header_ok:
  assumes "length junk = PageSize" "1 < unat n" "Reset s e k (n - 1) = Some rb"
  shows "read_header h (header_page h' n s e k (n - 1) junk) = Inr (n, rb)"
proof -
  let ?p = "header_page h' n s e k (n - 1) junk"
  note f = header_page_fields [OF assms(1) refl, of h' n s e k "n - 1"]
  have l: "length ?p = 4096" using header_page_length [OF assms(1)] by (simp add: layout)
  have a: "ArrayEqual 8 (Sum h (take HashOffset ?p)) (drop HashOffset ?p)"
    unfolding f(7) using l by (simp add: layout)
  have n: "\<not> n \<le> 1" using assms(2) by (simp add: word_le_nat_alt)
  show ?thesis using a n assms(3) l f(1) by (simp add: read_header_def get_le f)
qed

section \<open>Properties\<close>

lemma Reset_ring:
  assumes "Reset s e k c = Some rb"
  shows "ring_inv rb" "Capacity rb = c"
  using Reset_spec [of s e k c] assms by (auto simp: Reset_def split: if_splits)

lemma Replay_loop_ring:
  assumes "Replay_loop io h vsize junk j rb acc m d = Some (e, rb', m', d')" "ring_inv rb"
  shows "ring_inv rb' \<and> EndIndex rb' = EndIndex rb \<and> Capacity rb' = Capacity rb"
  using assms
proof (induction io h vsize junk j rb acc m d rule: Replay_loop.induct)
  case (1 io h vsize junk j rb acc m d)
  show ?case
  proof (cases "Size rb = 0")
    case True
    then have "PopFront rb = (NotFound, None, rb)" by (simp add: PopFront_def)
    then show ?thesis using 1(2,3) by (simp add: Replay_loop.simps [of io h vsize junk j rb])
  next
    case False
    from PopFront_ok [OF 1(3) this] obtain s rb1 where
      p: "PopFront rb = (Success, Some s, rb1)" "ring_inv rb1" "Capacity rb1 = Capacity rb" by blast
    then have e: "EndIndex rb1 = EndIndex rb" by (auto simp: PopFront_def split: if_splits)
    obtain e1 b m1 d1 where r: "ReadTxBlock io h junk j s m d = (e1, b, m1, d1)" by (cases "ReadTxBlock io h junk j s m d") auto
    show ?thesis
      using 1(1) [OF p(1) [symmetric] refl refl r [symmetric] refl refl] 1(2) p e r
      by (auto simp: Replay_loop.simps [of io h vsize junk j rb] split: if_splits option.splits)
  qed
qed

context block_layer
begin

lemma Load_reads:
  assumes rel: "reliable io" and junk: "length junk = PageSize" "length junk' = PageSize" and new: "jState j = JournalStateNew"
    and rb: "Reset s e k (n - 1) = Some rb"
    and g: "geom vsize (j\<lparr>LogRb := rb, jStart := start, jSize := n\<rparr>)"
    and header: "page_at (view d) (unat start * 4096) = header_page h' n s e k (n - 1) junk'"
  shows "\<exists>d1. view d1 = view d \<and> crash d1 \<subseteq> crash d \<and> Load io h vsize junk start [] d j =
    (case Replay io h vsize junk [] d1 (j\<lparr>LogRb := rb, jStart := start, jSize := n\<rparr>) of
       None \<Rightarrow> None
     | Some (e, j, m, d) \<Rightarrow>
         (if e \<noteq> Success \<and> e \<noteq> DataCorrupt then Some (e, j, m, d)
          else let (e, thread, m) = start_thread m
          in if e \<noteq> Success then Some (e, j, m, d)
          else Some (Success, j\<lparr>TxThread := thread, jState := JournalStateRunning\<rparr>, m, d)))"
proof -
  have u: "unat (start * BlockSize) = unat start * 4096" using geom_unat(1) [OF g] by (simp add: journal_start_def)
  then have al: "(start * BlockSize) AND 511 = 0" by (simp add: and_511)
  from read_page_reliable [OF rel al junk(1), of d] u header obtain d1 where
    "SubmitWaitResult_page io junk (start * BlockSize) False False [] d = (Success, header_page h' n s e k (n - 1) junk', [], d1)"
    "view d1 = view d" "crash d1 \<subseteq> crash d" by auto
  moreover have "1 < unat n" using geomD(2) [OF g] by simp
  ultimately show ?thesis using new read_header_ok [OF junk(2) _ rb, of h h']
    by (intro exI [of _ d1]) (simp add: Load_def Page_Create_def)
qed

lemma start_thread_ok: "start_thread [] = (Success, Some True, [])"
  by (simp add: start_thread_def)

lemma Load_ok:
  assumes rel: "reliable io" and junk: "length junk = PageSize" "length junk' = PageSize" and new: "jState j = JournalStateNew"
    and rb: "Reset s e k (n - 1) = Some rb"
    and g: "geom vsize (j\<lparr>LogRb := rb, jStart := start, jSize := n\<rparr>)"
    and header: "page_at (view d) (unat start * 4096) = header_page h' n s e k (n - 1) junk'"
    and log: "slots rb = ss @ rest" "holds (view d) (j\<lparr>LogRb := rb, jStart := start, jSize := n\<rparr>) ss (concat (map tx_log txs))"
      "list_all (valid_tx vsize (j\<lparr>LogRb := rb, jStart := start, jSize := n\<rparr>)) txs"
    and stop: "rest = [] \<or> (\<exists>t rest'. rest = t # rest' \<and> unat t + 1 < unat n \<and>
      (\<forall>v. (\<forall>p. unat start * 4096 \<le> p \<and> p < (unat start + unat n) * 4096 \<longrightarrow> v p = view d p) \<longrightarrow>
         fst (ReadTxBlockComplete h (page_at v ((unat start + 1 + unat t) * 4096))) = DataCorrupt))"
  shows "\<exists>j2 d'. Load io h vsize junk start [] d j = Some (Success, j2, [], d') \<and> jState j2 = JournalStateRunning \<and>
    TxThread j2 = Some True \<and> slots (LogRb j2) = tl rest \<and> jStart j2 = start \<and> jSize j2 = n \<and>
    ring_inv (LogRb j2) \<and> EndIndex (LogRb j2) = EndIndex rb \<and> Capacity (LogRb j2) = Capacity rb \<and>
    view d' = apply_txs txs (view d) \<and> (rest = [] \<longrightarrow> crash d' \<subseteq> (if txs = [] then crash d else {view d'}))"
proof -
  let ?j = "j\<lparr>LogRb := rb, jStart := start, jSize := n\<rparr>"
  let ?r = "?j\<lparr>jState := JournalStateReplaying\<rparr>"
  from Load_reads [OF rel junk new rb g header, of h] obtain d1 where
    d1: "view d1 = view d" "crash d1 \<subseteq> crash d" and L: "Load io h vsize junk start [] d j =
    (case Replay io h vsize junk [] d1 ?j of
       None \<Rightarrow> None
     | Some (e, j, m, d) \<Rightarrow>
         (if e \<noteq> Success \<and> e \<noteq> DataCorrupt then Some (e, j, m, d)
          else let (e, thread, m) = start_thread m
          in if e \<noteq> Success then Some (e, j, m, d)
          else Some (Success, j\<lparr>TxThread := thread, jState := JournalStateRunning\<rparr>, m, d)))" by blast
  have gr: "geom vsize ?r" using g by (simp add: geom_def)
  have lr: "holds (view d1) ?r ss (concat (map tx_log txs))" "list_all (valid_tx vsize ?r) txs"
  proof -
    show "holds (view d1) ?r ss (concat (map tx_log txs))" using log(2) d1 by (simp add: holds_def slot_pos_def)
    have "valid_tx vsize ?r = valid_tx vsize ?j" by (rule place_cong) simp_all
    then show "list_all (valid_tx vsize ?r) txs" using log(3) by simp
  qed
  from Replay_many [OF rel gr junk(1) Reset_ring(1) [OF rb] log(1) lr, of h] obtain rb' d2 where
    r: "ring_inv rb'" "slots rb' = rest" "view d2 = apply_txs txs (view d1)" "txs = [] \<and> d2 = d1 \<or> crash d2 \<subseteq> {view d2}"
    "Replay_loop io h vsize junk ?r rb [] [] d1 = Replay_loop io h vsize junk ?r rb' [] [] d2" by blast
  note ring = Replay_loop_ring [of io h vsize junk ?r rb "[]" "[]" d1, OF _ Reset_ring(1) [OF rb]]
  show ?thesis
  proof (cases rest)
    case Nil
    then have "unat (Size rb') = 0" using arg_cong [OF r(2), of length] by simp
    then have "Size rb' = 0" by (simp only: unat_eq_zero)
    then have l: "Replay_loop io h vsize junk ?r rb' [] [] d2 = Some (Success, rb', [], d2)"
      by (simp add: Replay_loop.simps [of io h vsize junk _ rb'] PopFront_def)
    then have "Replay io h vsize junk [] d1 ?j = Some (Success, ?r\<lparr>LogRb := rb'\<rparr>, [], d2)"
      using r(5) by (simp add: Replay_def)
    then show ?thesis using L r Nil d1 ring [of Success rb' "[]" d2] l crash_view [of d] by (auto simp: start_thread_ok)
  next
    case (Cons t rest')
    with stop have t: "unat t + 1 < unat n" and bad: "\<And>v. (\<And>p. unat start * 4096 \<le> p \<Longrightarrow> p < (unat start + unat n) * 4096 \<Longrightarrow> v p = view d p) \<Longrightarrow>
         fst (ReadTxBlockComplete h (page_at v ((unat start + 1 + unat t) * 4096))) = DataCorrupt" by auto
    have "Size rb' \<noteq> 0" using arg_cong [OF r(2), of length] Cons by auto
    from PopFront_ok [OF r(1) this] r(2) Cons obtain rb2 where
      p: "PopFront rb' = (Success, Some t, rb2)" "slots rb2 = rest'" by auto
    from IndexToPosition_ok [OF gr, of t] t obtain q where
      q: "IndexToPosition ?r t = (Success, q)" "unat q = slot_pos ?r t" "q AND 511 = 0" by auto
    from read_page_reliable [OF rel q(3) junk(1), of d2] obtain d3 where
      d3: "SubmitWaitResult_page io junk q False False [] d2 = (Success, page_at (view d2) (unat q), [], d3)" "view d3 = view d2"
      by blast
    have "fst (ReadTxBlockComplete h (page_at (view d2) (unat q))) = DataCorrupt"
      using bad [of "view d2"] apply_txs_outside [OF gr lr(2), of _ "view d1"] r(3) d1 q(2)
      by (simp add: slot_pos_def journal_start_def journal_end_def)
    then have "ReadTxBlock io h junk ?r t [] d2 = (DataCorrupt, None, [], d3)"
      using q d3 by (auto simp: ReadTxBlock_def Page_Create_def error_codes split: prod.splits)
    then have l: "Replay_loop io h vsize junk ?r rb' [] [] d2 = Some (DataCorrupt, rb2, [], d3)"
      using p by (simp add: Replay_loop.simps [of io h vsize junk _ rb'] error_codes)
    then have "Replay io h vsize junk [] d1 ?j = Some (DataCorrupt, ?r\<lparr>LogRb := rb2\<rparr>, [], d3)"
      using r(5) by (simp add: Replay_def)
    then show ?thesis using L r Cons d1 d3 p ring [of DataCorrupt rb2 "[]" d3] l by (auto simp: start_thread_ok)
  qed
qed

text \<open>A logged transaction without data blocks ends the replay.\<close>

lemma Load_empty_tx:
  assumes rel: "reliable io" and junk: "length junk = PageSize" "length junk' = PageSize" and new: "jState j = JournalStateNew"
    and rb: "Reset s e k (n - 1) = Some rb"
    and g: "geom vsize (j\<lparr>LogRb := rb, jStart := start, jSize := n\<rparr>)"
    and header: "page_at (view d) (unat start * 4096) = header_page h' n s e k (n - 1) junk'"
    and log: "slots rb = ss @ [s1, s2] @ rest" "holds (view d) (j\<lparr>LogRb := rb, jStart := start, jSize := n\<rparr>) ss (concat (map tx_log txs))"
      "list_all (valid_tx vsize (j\<lparr>LogRb := rb, jStart := start, jSize := n\<rparr>)) txs"
    and empty: "holds (view d) (j\<lparr>LogRb := rb, jStart := start, jSize := n\<rparr>) [s1, s2] [TxBegin g0, TxCommit g0 c 0 t]"
  shows "\<exists>j2 d'. Load io h vsize junk start [] d j = Some (Success, j2, [], d') \<and> jState j2 = JournalStateRunning \<and>
    slots (LogRb j2) = rest \<and> view d' = apply_txs txs (view d)"
proof -
  let ?j = "j\<lparr>LogRb := rb, jStart := start, jSize := n\<rparr>"
  let ?r = "?j\<lparr>jState := JournalStateReplaying\<rparr>"
  from Load_reads [OF rel junk new rb g header, of h] obtain d1 where
    d1: "view d1 = view d" and L: "Load io h vsize junk start [] d j =
    (case Replay io h vsize junk [] d1 ?j of
       None \<Rightarrow> None
     | Some (e, j, m, d) \<Rightarrow>
         (if e \<noteq> Success \<and> e \<noteq> DataCorrupt then Some (e, j, m, d)
          else let (e, thread, m) = start_thread m
          in if e \<noteq> Success then Some (e, j, m, d)
          else Some (Success, j\<lparr>TxThread := thread, jState := JournalStateRunning\<rparr>, m, d)))" by blast
  note pc = place_cong [of ?r ?j]
  have gr: "geom vsize ?r" using g by (simp add: geom_def)
  have lr: "holds (view d1) ?r ss (concat (map tx_log txs))" "list_all (valid_tx vsize ?r) txs"
    "holds (view d1) ?r [s1, s2] [TxBegin g0, TxCommit g0 c 0 t]"
    using log empty d1 pc(3,6) by simp_all
  from Replay_many [OF rel gr junk(1) Reset_ring(1) [OF rb] log(1) lr(1,2), of h] obtain rb' d2 where
    r: "ring_inv rb'" "slots rb' = s1 # s2 # rest" "view d2 = apply_txs txs (view d1)"
    "Replay_loop io h vsize junk ?r rb [] [] d1 = Replay_loop io h vsize junk ?r rb' [] [] d2" by auto
  have "holds (view d2) ?r [s1, s2] [TxBegin g0, TxCommit g0 c 0 t]"
    using holds_cong [OF gr lr(3)] r(3) apply_txs_outside [OF gr lr(2)] by simp
  note h2 = this [unfolded holds_Cons]
  from Replay_step [OF rel gr junk(1) r(1,2), of "TxBegin g0" d2 h "[]"] h2 obtain rb3 d3 where
    r3: "ring_inv rb3" "slots rb3 = s2 # rest" "view d3 = view d2"
    "Replay_loop io h vsize junk ?r rb' [] [] d2 = Replay_loop io h vsize junk ?r rb3 [TxBegin g0] [] d3"
    by (auto simp: Replay_block_def)
  from Replay_step [OF rel gr junk(1) r3(1,2), of "TxCommit g0 c 0 t" d3 h "[TxBegin g0]"] h2 r3(3) obtain rb4 d4 where
    r4: "slots rb4 = rest" "view d4 = view d3"
    "Replay_loop io h vsize junk ?r rb3 [TxBegin g0] [] d3 = Some (DataCorrupt, rb4, [], d4)"
    by (auto simp: Replay_block_def error_codes)
  then have "Replay io h vsize junk [] d1 ?j = Some (DataCorrupt, ?r\<lparr>LogRb := rb4\<rparr>, [], d4)"
    using r(4) r3(4) by (simp add: Replay_def)
  then show ?thesis using L r r3 r4 d1 by (auto simp: start_thread_ok)
qed

end

end
