(* ===== verification/Journal_Commit.thy ===== *)
theory Journal_Commit
  imports Journal_Replay
begin

text \<open>
  Commit of a batch of transactions by the journal's thread, and what a power failure leaves of it. The
  thread writes the blocks of the batch into free slots of the log and then the header that makes them part
  of the log; the barrier between the two makes the batch atomic.
\<close>

section \<open>Writing the blocks\<close>

definition slot_bio :: "Journal \<Rightarrow> size_t \<Rightarrow> TxBlock \<Rightarrow> bio" where
  "slot_bio j s b = \<lparr>b_write = True, b_sector = ((jStart j + 1 + s) * BlockSize) div 512, b_data = on_disk b,
     b_preflush = False, b_fua = False, b_sync = False\<rparr>"

lemma slot_bio_range:
  assumes "geom vsize j" "unat s + 1 < unat (jSize j)" "wf_block b"
  shows "bio_start (slot_bio j s b) = slot_pos j s" "length (b_data (slot_bio j s b)) = PageSize" "b_write (slot_bio j s b)"
    "in_bio (slot_bio j s b) p \<longleftrightarrow> slot_pos j s \<le> p \<and> p < slot_pos j s + PageSize"
proof -
  from IndexToPosition_ok [OF assms(1,2)] have
    "unat ((jStart j + 1 + s) * BlockSize) = slot_pos j s" "((jStart j + 1 + s) * BlockSize) AND 511 = 0"
    by (auto simp: IndexToPosition_def error_codes split: if_splits)
  then show s: "bio_start (slot_bio j s b) = slot_pos j s" using sector_start by (simp add: bio_start_def slot_bio_def)
  show l: "length (b_data (slot_bio j s b)) = PageSize" using assms(3) by (simp add: slot_bio_def length_on_disk)
  show "b_write (slot_bio j s b)" by (simp add: slot_bio_def)
  show "in_bio (slot_bio j s b) p \<longleftrightarrow> slot_pos j s \<le> p \<and> p < slot_pos j s + PageSize" by (simp add: in_bio_def s l)
qed

lemma WriteTxBlock_ok:
  assumes g: "geom vsize j" and s: "unat s + 1 < unat (jSize j)" and b: "wf_block b" and junk: "length junk = PageSize"
  shows "WriteTxBlock h junk j s b [] bl = (Success, bl\<lparr>ReqList := ReqList bl @ [slot_bio j s b]\<rparr>, [])"
proof -
  from IndexToPosition_ok [OF g s] obtain p where p: "IndexToPosition j s = (Success, p)" "p AND 511 = 0" by blast
  have pd: "p = (jStart j + 1 + s) * BlockSize" using p(1) by (auto simp: IndexToPosition_def error_codes split: if_splits)
  have w: "Page_Write (block_mem h b) PageSize 0 junk = (block_mem h b, PageSize)"
    using junk length_block_mem [OF b] by (simp add: Page_Write_def layout Let_def)
  show ?thesis using p w AddIo_reliable [OF p(2) length_on_disk [OF b], of 0 True bl] length_block_mem [OF b, of h]
      length_on_disk [OF b]
    by (simp add: WriteTxBlock_def Page_Create_def WriteTxBlockPrepare_ok [OF b] slot_bio_def pd)
qed

lemma slots_below:
  assumes "ring_inv rb" "s \<in> set (slots rb)"
  shows "unat s < unat (Capacity rb)"
proof -
  note r = ring_invD [OF assms(1)]
  from assms(2) obtain i where i: "s = of_nat ((unat (StartIndex rb) + i) mod unat (Capacity rb))"
    by (auto simp: slots_def slots_from_def)
  have lt: "(unat (StartIndex rb) + i) mod unat (Capacity rb) < unat (Capacity rb)" using r(1) by simp
  then have "unat s = (unat (StartIndex rb) + i) mod unat (Capacity rb)"
    unfolding i using unat_lt_64 [of "Capacity rb"] by (intro unat_of_nat_64) linarith
  then show ?thesis using lt by simp
qed

lemma WriteTx_blocks_ok:
  assumes g: "geom vsize j" and junk: "length junk = PageSize" and cap: "Capacity (LogRb j) = jSize j - 1"
    and inv: "ring_inv (LogRb j)" and wf: "list_all wf_block bs"
    and room: "length (slots (LogRb j)) + length bs \<le> unat (Capacity (LogRb j))"
  shows "\<exists>rb' ss. WriteTx_blocks h junk bs idx [] bl j =
      (Success, idx @ ss, [], bl\<lparr>ReqList := ReqList bl @ map2 (slot_bio j) ss bs\<rparr>, j\<lparr>LogRb := rb'\<rparr>) \<and>
    ring_inv rb' \<and> slots rb' = slots (LogRb j) @ ss \<and> length ss = length bs \<and> Capacity rb' = Capacity (LogRb j) \<and>
    StartIndex rb' = StartIndex (LogRb j)"
  using assms
proof (induction bs arbitrary: idx bl j)
  case Nil
  then show ?case by (intro exI [of _ "LogRb j"] exI [of _ "[]"]) simp
next
  case (Cons b bs)
  have "Size (LogRb j) \<noteq> Capacity (LogRb j)" using Cons.prems(6) by auto
  from PushBack_ok [OF Cons.prems(4) this] obtain rb1 where
    r1: "PushBack (LogRb j) = (Success, Some (EndIndex (LogRb j)), rb1)" "ring_inv rb1"
    "slots rb1 = slots (LogRb j) @ [EndIndex (LogRb j)]" "Capacity rb1 = Capacity (LogRb j)" by blast
  have st: "StartIndex rb1 = StartIndex (LogRb j)" using r1(1) by (auto simp: PushBack_def split: if_splits)
  define s where "s = EndIndex (LogRb j)"
  define j1 where "j1 = j\<lparr>LogRb := rb1\<rparr>"
  have j1: "jStart j1 = jStart j" "jSize j1 = jSize j" "LogRb j1 = rb1" by (simp_all add: j1_def)
  have g1: "geom vsize j1" using Cons.prems(1) by (simp add: geom_def j1)
  have "1 < unat (jSize j)" using geomD(2) [OF Cons.prems(1)] .
  then have cap: "unat (jSize j - 1) = unat (jSize j) - 1" by (simp add: unat_sub word_le_nat_alt)
  have "unat s < unat (Capacity rb1)" using slots_below [OF r1(2), of s] r1(3) by (simp add: s_def)
  then have s: "unat s + 1 < unat (jSize j1)" using r1(4) Cons.prems(3) cap by (simp add: j1)
  have sb: "slot_bio j1 = slot_bio j" by (intro ext) (simp add: slot_bio_def j1)
  have W: "WriteTxBlock h junk j1 s b [] bl = (Success, bl\<lparr>ReqList := ReqList bl @ [slot_bio j s b]\<rparr>, [])"
    using WriteTxBlock_ok [OF g1 s _ Cons.prems(2)] Cons.prems(5) sb by simp
  have step: "WriteTx_blocks h junk (b # bs) idx [] bl j =
      WriteTx_blocks h junk bs (idx @ [s]) [] (bl\<lparr>ReqList := ReqList bl @ [slot_bio j s b]\<rparr>) j1"
    using r1(1) W by (simp add: GetNextIndex_def s_def j1_def)
  have "length (slots (LogRb j1)) + length bs \<le> unat (Capacity (LogRb j1))" using r1(3,4) Cons.prems(6) by (simp add: j1)
  from Cons.IH [OF g1 Cons.prems(2) _ _ _ this, of "idx @ [s]" "bl\<lparr>ReqList := ReqList bl @ [slot_bio j s b]\<rparr>"]
  obtain rb' ss where
    "WriteTx_blocks h junk bs (idx @ [s]) [] (bl\<lparr>ReqList := ReqList bl @ [slot_bio j s b]\<rparr>) j1 =
      (Success, (idx @ [s]) @ ss, [], bl\<lparr>ReqList := (ReqList bl @ [slot_bio j s b]) @ map2 (slot_bio j) ss bs\<rparr>, j1\<lparr>LogRb := rb'\<rparr>)"
    "ring_inv rb'" "slots rb' = slots rb1 @ ss" "length ss = length bs" "Capacity rb' = Capacity rb1"
    "StartIndex rb' = StartIndex rb1"
    using Cons.prems(3,5) r1 sb by (auto simp: j1)
  then show ?case using step r1 st by (intro exI [of _ rb'] exI [of _ "s # ss"]) (simp add: s_def j1_def)
qed

section \<open>A batch\<close>

definition ltx_of :: "Transaction \<Rightarrow> ltx" where
  "ltx_of tx = (txId tx, DataBlockList tx, 0)"

lemma tx_blocks_log: "tx_blocks tx = tx_log (ltx_of tx)"
  by (simp add: tx_blocks_def ltx_of_def)

text \<open>A transaction that waits for the thread.\<close>

definition ready :: "uint64_t \<Rightarrow> Journal \<Rightarrow> nat \<Rightarrow> bool" where
  "ready vsize j t \<longleftrightarrow> txState (Txs j t) = JournalTxStateCommiting \<and> IndexList (Txs j t) = [] \<and>
     valid_tx vsize j (ltx_of (Txs j t))"

definition batch :: "Journal \<Rightarrow> nat list \<Rightarrow> ltx list" where
  "batch j ts = map (\<lambda>t. ltx_of (Txs j t)) ts"

definition log_of :: "ltx list \<Rightarrow> TxBlock list" where
  "log_of txs = concat (map tx_log txs)"

lemma log_of_simps [simp]: "log_of [] = []" "log_of (x # txs) = tx_log x @ log_of txs" "log_of (xs @ ys) = log_of xs @ log_of ys"
  by (simp_all add: log_of_def)

lemma slot_bio_cong: "jStart j = jStart j' \<Longrightarrow> slot_bio j = slot_bio j'"
  by (intro ext) (simp add: slot_bio_def)

lemma map2_append: "length xs = length us \<Longrightarrow> map2 f (xs @ ys) (us @ vs) = map2 f xs us @ map2 f ys vs"
  by (simp add: zip_append)

lemma WriteTx_ok:
  assumes g: "geom vsize j" and junk: "length junk = PageSize" and cap: "Capacity (LogRb j) = jSize j - 1"
    and inv: "ring_inv (LogRb j)" and t: "ready vsize j t"
    and room: "length (slots (LogRb j)) + length (tx_log (ltx_of (Txs j t))) \<le> unat (Capacity (LogRb j))"
  shows "\<exists>rb' ss. WriteTx h junk t [] bl j =
      (Success, [], bl\<lparr>ReqList := ReqList bl @ map2 (slot_bio j) ss (tx_log (ltx_of (Txs j t)))\<rparr>,
       j\<lparr>LogRb := rb', Txs := (Txs j)(t := (Txs j t)\<lparr>IndexList := ss\<rparr>)\<rparr>) \<and>
    ring_inv rb' \<and> slots rb' = slots (LogRb j) @ ss \<and> length ss = length (tx_log (ltx_of (Txs j t))) \<and>
    Capacity rb' = Capacity (LogRb j) \<and> StartIndex rb' = StartIndex (LogRb j)"
proof -
  have wf: "list_all wf_block (tx_log (ltx_of (Txs j t)))"
    using t wf_tx_log unfolding ready_def ltx_of_def by blast
  from WriteTx_blocks_ok [OF g junk cap inv wf room, of h "[]" bl] obtain rb' ss where
    "WriteTx_blocks h junk (tx_log (ltx_of (Txs j t))) [] [] bl j =
      (Success, ss, [], bl\<lparr>ReqList := ReqList bl @ map2 (slot_bio j) ss (tx_log (ltx_of (Txs j t)))\<rparr>, j\<lparr>LogRb := rb'\<rparr>)"
    "ring_inv rb'" "slots rb' = slots (LogRb j) @ ss" "length ss = length (tx_log (ltx_of (Txs j t)))"
    "Capacity rb' = Capacity (LogRb j)" "StartIndex rb' = StartIndex (LogRb j)" by auto
  then show ?thesis using t
    by (intro exI [of _ rb'] exI [of _ ss]) (simp add: WriteTx_def tx_blocks_log ready_def upd_tx_def Let_def)
qed

lemma Run_write_ok:
  assumes "geom vsize j" and junk: "length junk = PageSize" and "Capacity (LogRb j) = jSize j - 1"
    and "ring_inv (LogRb j)" "distinct ts" "list_all (ready vsize j) ts"
    and "length (slots (LogRb j)) + length (log_of (batch j ts)) \<le> unat (Capacity (LogRb j))"
  shows "\<exists>rb' ss txs'. Run_write h junk ts [] bl j =
      (Success, [], bl\<lparr>ReqList := ReqList bl @ map2 (slot_bio j) ss (log_of (batch j ts))\<rparr>, j\<lparr>LogRb := rb', Txs := txs'\<rparr>) \<and>
    ring_inv rb' \<and> slots rb' = slots (LogRb j) @ ss \<and> length ss = length (log_of (batch j ts)) \<and>
    Capacity rb' = Capacity (LogRb j) \<and> StartIndex rb' = StartIndex (LogRb j) \<and> (\<forall>t. txs' t = (Txs j t)\<lparr>IndexList := IndexList (txs' t)\<rparr>) \<and>
    (\<forall>t. t \<notin> set ts \<longrightarrow> txs' t = Txs j t) \<and> concat (map (\<lambda>t. IndexList (txs' t)) ts) = ss"
  using assms
proof (induction ts arbitrary: bl j)
  case Nil
  then show ?case by (intro exI [of _ "LogRb j"] exI [of _ "[]"] exI [of _ "Txs j"]) (simp add: batch_def)
next
  case (Cons t ts)
  let ?b = "tx_log (ltx_of (Txs j t))"
  have "ready vsize j t" using Cons.prems(6) by simp
  moreover have "length (slots (LogRb j)) + length ?b \<le> unat (Capacity (LogRb j))" using Cons.prems(7) by (simp add: batch_def)
  ultimately obtain rb1 ss1 where
    w: "WriteTx h junk t [] bl j = (Success, [], bl\<lparr>ReqList := ReqList bl @ map2 (slot_bio j) ss1 ?b\<rparr>,
       j\<lparr>LogRb := rb1, Txs := (Txs j)(t := (Txs j t)\<lparr>IndexList := ss1\<rparr>)\<rparr>)"
    and r1: "ring_inv rb1" "slots rb1 = slots (LogRb j) @ ss1" "length ss1 = length ?b" "Capacity rb1 = Capacity (LogRb j)"
    "StartIndex rb1 = StartIndex (LogRb j)"
    using WriteTx_ok [OF Cons.prems(1) junk Cons.prems(3,4), of t h bl] by blast
  define j1 where "j1 = j\<lparr>LogRb := rb1, Txs := (Txs j)(t := (Txs j t)\<lparr>IndexList := ss1\<rparr>)\<rparr>"
  have j1: "jStart j1 = jStart j" "jSize j1 = jSize j" "LogRb j1 = rb1" by (simp_all add: j1_def)
  note pc = place_cong [OF j1(1,2)]
  have same: "Txs j1 u = Txs j u" if "u \<in> set ts" for u using that Cons.prems(5) by (auto simp: j1_def)
  have b: "batch j1 ts = batch j ts" using same by (simp add: batch_def)
  have rd: "list_all (ready vsize j1) ts"
    using Cons.prems(6) same by (auto simp: list_all_iff ready_def pc)
  have room: "length (slots (LogRb j1)) + length (log_of (batch j1 ts)) \<le> unat (Capacity (LogRb j1))"
  proof -
    have "batch j (t # ts) = ltx_of (Txs j t) # batch j ts" by (simp add: batch_def)
    then show ?thesis using Cons.prems(7) r1 by (simp only: b j1) simp
  qed
  from Cons.IH [of j1 "bl\<lparr>ReqList := ReqList bl @ map2 (slot_bio j) ss1 ?b\<rparr>"] Cons.prems(1,3,5) rd room r1 junk
  obtain rb' ss txs' where
    I: "Run_write h junk ts [] (bl\<lparr>ReqList := ReqList bl @ map2 (slot_bio j) ss1 ?b\<rparr>) j1 =
      (Success, [], bl\<lparr>ReqList := (ReqList bl @ map2 (slot_bio j) ss1 ?b) @ map2 (slot_bio j) ss (log_of (batch j ts))\<rparr>,
       j1\<lparr>LogRb := rb', Txs := txs'\<rparr>)"
    "ring_inv rb'" "slots rb' = slots rb1 @ ss" "length ss = length (log_of (batch j ts))" "Capacity rb' = Capacity rb1"
    "\<And>u. txs' u = (Txs j1 u)\<lparr>IndexList := IndexList (txs' u)\<rparr>" "\<And>u. u \<notin> set ts \<Longrightarrow> txs' u = Txs j1 u"
    "concat (map (\<lambda>u. IndexList (txs' u)) ts) = ss" "StartIndex rb' = StartIndex rb1"
    by (auto simp: j1 pc b slot_bio_cong [OF j1(1)])
  have t: "txs' t = (Txs j t)\<lparr>IndexList := ss1\<rparr>" using I(7) [of t] Cons.prems(5) by (simp add: j1_def)
  have u: "txs' u = (Txs j u)\<lparr>IndexList := IndexList (txs' u)\<rparr>" for u
  proof (cases "u = t")
    case True
    then show ?thesis by (simp add: t)
  next
    case False
    then show ?thesis using I(6) [of u] by (simp add: j1_def)
  qed
  have "Run_write h junk (t # ts) [] bl j = (Success, [], bl\<lparr>ReqList := ReqList bl @
      map2 (slot_bio j) (ss1 @ ss) (log_of (batch j (t # ts)))\<rparr>, j\<lparr>LogRb := rb', Txs := txs'\<rparr>)"
    using w I(1) r1(3) by (simp add: j1_def [symmetric] batch_def map2_append) (simp add: j1_def)
  moreover have "txs' v = Txs j v" if "v \<notin> set (t # ts)" for v using I(7) [of v] that by (simp add: j1_def)
  ultimately show ?case using I r1 t u
    by (intro exI [of _ rb'] exI [of _ "ss1 @ ss"] exI [of _ txs']) (simp add: batch_def)
qed

section \<open>Fresh slots\<close>

lemma slots_from_add: "slots_from c s (k + n) = slots_from c s k @ slots_from c (s + k) n"
proof (induction n)
  case (Suc n)
  then show ?case by (simp add: slots_from_Suc add.assoc)
qed (simp add: slots_from_def)

lemma slots_from_mod: "slots_from c (s mod c) n = slots_from c s n"
  by (simp add: slots_from_def mod_simps)

lemma slots_from_distinct:
  assumes "n \<le> c" "0 < c" "c < 18446744073709551616"
  shows "distinct (slots_from c s n)"
proof -
  let ?rb = "\<lparr>StartIndex = of_nat (s mod c), EndIndex = of_nat ((s + n) mod c), Size = of_nat n, Capacity = of_nat c\<rparr>"
  have m: "s mod c < c" "(s + n) mod c < c" using assms(2) by simp_all
  have u: "unat (of_nat (s mod c) :: size_t) = s mod c" "unat (of_nat ((s + n) mod c) :: size_t) = (s + n) mod c"
    "unat (of_nat n :: size_t) = n" "unat (of_nat c :: size_t) = c"
    using assms m by (intro unat_of_nat_64; linarith)+
  have "ring_inv ?rb" using assms m by (simp add: ring_inv_def word_less_nat_alt word_le_nat_alt u mod_simps)
  from slots_distinct [OF this] show ?thesis by (simp add: slots_def u slots_from_mod)
qed

text \<open>
  The slots a ring hands out next are different from those that another ring with the same end lists, as
  long as all of them fit into the capacity.
\<close>

lemma fresh_slots:
  assumes inv: "ring_inv rb0" "ring_inv rb" "ring_inv rb'" and cap: "Capacity rb = Capacity rb0" "Capacity rb' = Capacity rb0"
    and ends: "EndIndex rb0 = EndIndex rb" "StartIndex rb' = StartIndex rb" and new: "slots rb' = slots rb @ ss"
    and room: "length (slots rb0) + length ss \<le> unat (Capacity rb0)"
  shows "distinct (slots rb0 @ ss)"
proof -
  let ?c = "unat (Capacity rb0)"
  have "unat (Size rb') = unat (Size rb) + length ss" using arg_cong [OF new, of length] by simp
  then have "slots rb' = slots_from ?c (unat (StartIndex rb)) (unat (Size rb) + length ss)"
    by (simp add: slots_def [of rb'] cap ends)
  then have "ss = slots_from ?c (unat (StartIndex rb) + unat (Size rb)) (length ss)"
    using new by (simp add: slots_from_add slots_def cap)
  also have "\<dots> = slots_from ?c (unat (EndIndex rb)) (length ss)"
    using ring_invD(4) [OF inv(2)] by (simp add: cap slots_from_mod)
  also have "\<dots> = slots_from ?c (unat (StartIndex rb0) + unat (Size rb0)) (length ss)"
    using ring_invD(4) [OF inv(1)] ends(1) slots_from_mod by metis
  finally have "slots rb0 @ ss = slots_from ?c (unat (StartIndex rb0)) (unat (Size rb0) + length ss)"
    by (simp add: slots_from_add slots_def [of rb0])
  then show ?thesis using slots_from_distinct [OF _ ring_invD(1) [OF inv(1)] unat_lt_64] room by simp
qed

lemma Reset_self:
  assumes "ring_inv rb" "unat (Size rb) < unat (Capacity rb)"
  shows "Reset (StartIndex rb) (EndIndex rb) (Size rb) (Capacity rb) = Some rb"
  using assms by (simp add: Reset_spec word_less_nat_alt)

section \<open>The log on the medium\<close>

definition header_image :: "uint64_t \<Rightarrow> RingBuffer \<Rightarrow> bytes" where
  "header_image n rb = header_page LittleEndian n (StartIndex rb) (EndIndex rb) (Size rb) (Capacity rb) (replicate PageSize 0)"

lemma header_page_image:
  assumes "length junk = PageSize"
  shows "header_page h n (StartIndex rb) (EndIndex rb) (Size rb) (Capacity rb) junk = header_image n rb"
  using assms by (simp add: header_page_def header_image_def put_le Page_Zero_def Let_def layout)

definition on_medium :: "Journal \<Rightarrow> RingBuffer \<Rightarrow> ltx list \<Rightarrow> (nat \<Rightarrow> byte_t) \<Rightarrow> bool" where
  "on_medium j rb txs c \<longleftrightarrow> page_at c (journal_start j) = header_image (jSize j) rb \<and> holds c j (slots rb) (log_of txs)"

text \<open>Equal content outside the area of the journal.\<close>

definition outside :: "Journal \<Rightarrow> (nat \<Rightarrow> byte_t) \<Rightarrow> (nat \<Rightarrow> byte_t) \<Rightarrow> bool" where
  "outside j f g \<longleftrightarrow> (\<forall>p. p < journal_start j \<or> journal_end j \<le> p \<longrightarrow> f p = g p)"

lemma apply_blocks_cong: "f p = g p \<Longrightarrow> apply_blocks bs f p = apply_blocks bs g p"
proof (induction bs arbitrary: f g)
  case (Cons b bs)
  have "put_block f b p = put_block g b p" using Cons.prems by (simp add: put_block_at)
  from Cons.IH [of "put_block f b" "put_block g b"] this show ?case by simp
qed simp

lemma apply_txs_cong: "f p = g p \<Longrightarrow> apply_txs txs f p = apply_txs txs g p"
proof (induction txs arbitrary: f g)
  case (Cons x txs)
  obtain g0 bs t where "x = (g0, bs, t)" by (cases x)
  then show ?case using Cons.IH [of "apply_blocks bs f" "apply_blocks bs g"] apply_blocks_cong [of f p g bs] Cons.prems
    by simp
qed simp

lemma outside_apply: "outside j f g \<Longrightarrow> outside j (apply_txs txs f) (apply_txs txs g)"
  by (auto simp: outside_def intro: apply_txs_cong)

lemma outside_trans: "outside j f g \<Longrightarrow> outside j g k \<Longrightarrow> outside j f k"
  by (simp add: outside_def)

context block_layer
begin

text \<open>Recovery: a new journal object loads the log of the medium.\<close>

lemma recover:
  assumes rel: "reliable io" and junk: "length junk = PageSize" and new: "jState j0 = JournalStateNew"
    and g: "geom vsize j" and rb: "ring_inv rb" "unat (Size rb) < unat (Capacity rb)" "Capacity rb = jSize j - 1"
    and txs: "list_all (valid_tx vsize j) txs" and med: "on_medium j rb txs (view d)"
  shows "\<exists>j2 d'. Load io h vsize junk (jStart j) [] d j0 = Some (Success, j2, [], d') \<and> jState j2 = JournalStateRunning \<and>
    slots (LogRb j2) = [] \<and> jStart j2 = jStart j \<and> jSize j2 = jSize j \<and> ring_inv (LogRb j2) \<and>
    EndIndex (LogRb j2) = EndIndex rb \<and> Capacity (LogRb j2) = Capacity rb \<and>
    view d' = apply_txs txs (view d) \<and> crash d' \<subseteq> (if txs = [] then crash d else {view d'})"
proof -
  let ?j = "j0\<lparr>LogRb := rb, jStart := jStart j, jSize := jSize j\<rparr>"
  note pc = place_cong [of ?j j]
  have r: "Reset (StartIndex rb) (EndIndex rb) (Size rb) (jSize j - 1) = Some rb" using Reset_self [OF rb(1,2)] rb(3) by simp
  have h: "page_at (view d) (unat (jStart j) * 4096) =
      header_page LittleEndian (jSize j) (StartIndex rb) (EndIndex rb) (Size rb) (jSize j - 1) (replicate PageSize 0)"
    using med rb(3) by (simp add: on_medium_def header_image_def journal_start_def)
  have "holds (view d) ?j (slots rb) (concat (map tx_log txs))" "list_all (valid_tx vsize ?j) txs" "geom vsize ?j"
    using med txs g pc(3,4,6) by (simp_all add: on_medium_def log_of_def)
  from Load_ok [OF rel junk _ new r this(3) h _ this(1,2), of "[]" h] obtain j2 d' where
    "Load io h vsize junk (jStart j) [] d j0 = Some (Success, j2, [], d')" "jState j2 = JournalStateRunning"
    "slots (LogRb j2) = []" "jStart j2 = jStart j" "jSize j2 = jSize j" "ring_inv (LogRb j2)"
    "EndIndex (LogRb j2) = EndIndex rb" "Capacity (LogRb j2) = Capacity rb"
    "view d' = apply_txs txs (view d)" "crash d' \<subseteq> (if txs = [] then crash d else {view d'})" by auto
  then show ?thesis by blast
qed

end

section \<open>The pages of a batch\<close>

definition header_bio :: "Journal \<Rightarrow> RingBuffer \<Rightarrow> bio" where
  "header_bio j rb = \<lparr>b_write = True, b_sector = (jStart j * BlockSize) div 512, b_data = header_image (jSize j) rb,
     b_preflush = False, b_fua = False, b_sync = False\<rparr>"

lemma length_header_image [simp]: "length (header_image n rb) = PageSize"
  by (simp add: header_image_def header_page_length)

lemma header_bio_range:
  assumes "geom vsize j"
  shows "in_bio (header_bio j rb) p \<longleftrightarrow> journal_start j \<le> p \<and> p < journal_start j + PageSize" "b_write (header_bio j rb)"
    "length (b_data (header_bio j rb)) = PageSize" "bio_byte (header_bio j rb) p = header_image (jSize j) rb ! (p - journal_start j)"
proof -
  have "(jStart j * BlockSize) AND 511 = 0" using geom_unat(1) [OF assms] by (simp add: and_511 journal_start_def)
  from sector_start [OF this] have s: "bio_start (header_bio j rb) = journal_start j"
    using geom_unat(1) [OF assms] by (simp add: bio_start_def header_bio_def)
  show "b_write (header_bio j rb)" "length (b_data (header_bio j rb)) = PageSize" by (simp_all add: header_bio_def)
  show "in_bio (header_bio j rb) p \<longleftrightarrow> journal_start j \<le> p \<and> p < journal_start j + PageSize"
    "bio_byte (header_bio j rb) p = header_image (jSize j) rb ! (p - journal_start j)"
    by (simp_all add: in_bio_def bio_byte_def s) (simp_all add: header_bio_def)
qed

lemma slot_pages_apart:
  assumes "slot_pos j s \<le> p" "p < slot_pos j s + PageSize" "slot_pos j t \<le> p" "p < slot_pos j t + PageSize"
  shows "s = t"
proof -
  have "p div 4096 = unat (jStart j) + 1 + unat s" "p div 4096 = unat (jStart j) + 1 + unat t"
    using assms by (auto simp: slot_pos_def PageSize_def intro!: div_nat_eqI)
  then show ?thesis by (simp add: word_unat_eq_iff)
qed

definition slots_ok :: "Journal \<Rightarrow> size_t list \<Rightarrow> bool" where
  "slots_ok j ss \<longleftrightarrow> list_all (\<lambda>s. unat s + 1 < unat (jSize j)) ss"

lemma written_slots:
  assumes g: "geom vsize j" and l: "length ss = length bs" and ok: "slots_ok j ss" and wf: "list_all wf_block bs"
  shows "written_by (map2 (slot_bio j) ss bs) p \<longleftrightarrow> (\<exists>s \<in> set ss. slot_pos j s \<le> p \<and> p < slot_pos j s + PageSize)"
proof -
  have "in_bio (slot_bio j s b) p \<longleftrightarrow> slot_pos j s \<le> p \<and> p < slot_pos j s + PageSize" "b_write (slot_bio j s b)"
    if "(s, b) \<in> set (zip ss bs)" for s b
    using slot_bio_range [OF g, of s b] that ok wf
    by (auto simp: slots_ok_def list_all_iff dest: set_zip_leftD set_zip_rightD)
  then have "written_by (map2 (slot_bio j) ss bs) p \<longleftrightarrow>
      (\<exists>(s, b) \<in> set (zip ss bs). slot_pos j s \<le> p \<and> p < slot_pos j s + PageSize)"
    unfolding written_by_def list_ex_iff by force
  also have "\<dots> \<longleftrightarrow> (\<exists>s \<in> fst ` set (zip ss bs). slot_pos j s \<le> p \<and> p < slot_pos j s + PageSize)" by force
  also have "fst ` set (zip ss bs) = set ss" using l by (metis map_fst_zip set_map)
  finally show ?thesis .
qed

lemma pages_written:
  assumes g: "geom vsize j" and l: "length ss = length bs" and ok: "slots_ok j ss" and wf: "list_all wf_block bs"
    and d: "distinct ss"
    and v: "\<And>p. written_by (map2 (slot_bio j) ss bs) p \<Longrightarrow>
      \<exists>b \<in> set (map2 (slot_bio j) ss bs). b_write b \<and> in_bio b p \<and> v p = bio_byte b p"
  shows "holds v j ss bs"
  unfolding holds_def list_all2_conv_all_nth
proof (intro conjI allI impI)
  show "length ss = length bs" by (rule l)
next
  fix i assume i: "i < length ss"
  have r: "unat (ss ! k) + 1 < unat (jSize j) \<and> wf_block (bs ! k)" if "k < length ss" for k
    using ok wf l that by (simp add: slots_ok_def list_all_length)
  then show "unat (ss ! i) + 1 < unat (jSize j)" "wf_block (bs ! i)" using i by simp_all
  show "page_at v (slot_pos j (ss ! i)) = on_disk (bs ! i)"
  proof (rule nth_equalityI)
    show "length (page_at v (slot_pos j (ss ! i))) = length (on_disk (bs ! i))" using r [OF i] by (simp add: length_on_disk)
  next
    fix n assume n: "n < length (page_at v (slot_pos j (ss ! i)))"
    let ?p = "slot_pos j (ss ! i) + n"
    have p: "slot_pos j (ss ! i) \<le> ?p" "?p < slot_pos j (ss ! i) + PageSize" using n by simp_all
    have "written_by (map2 (slot_bio j) ss bs) ?p" using written_slots [OF g l ok wf, of ?p] p i by (metis nth_mem)
    from v [OF this] obtain b where b: "b \<in> set (map2 (slot_bio j) ss bs)" "in_bio b ?p" "v ?p = bio_byte b ?p" by blast
    from b(1) obtain k where k: "k < length ss" "b = slot_bio j (ss ! k) (bs ! k)" using l by (auto simp: set_zip)
    have "slot_pos j (ss ! k) \<le> ?p" "?p < slot_pos j (ss ! k) + PageSize"
      using b(2) slot_bio_range(4) [OF g] r [OF k(1)] by (auto simp: k(2))
    then have "ss ! k = ss ! i" using slot_pages_apart p by blast
    then have "k = i" using d i k(1) by (simp add: nth_eq_iff_index_eq)
    then have "v ?p = on_disk (bs ! i) ! n"
      using b(3) slot_bio_range(1) [OF g] r [OF i] by (simp add: k(2) bio_byte_def) (simp add: slot_bio_def)
    then show "page_at v (slot_pos j (ss ! i)) ! n = on_disk (bs ! i) ! n" using n by (simp add: page_at_def)
  qed
qed

section \<open>The invariant of the log\<close>

text \<open>
  \<open>rb0\<close> is the ring that the header on the medium describes; the ring in memory may have given up some of its
  first slots since, those of the transactions \<open>gone\<close>, which are applied. \<open>S\<close> is the committed content: whatever
  a power failure leaves, replaying the log on it gives \<open>S\<close> outside the journal.
\<close>

definition log_inv ::
  "('d \<Rightarrow> nat \<Rightarrow> byte_t) \<Rightarrow> ('d \<Rightarrow> (nat \<Rightarrow> byte_t) set) \<Rightarrow> uint64_t \<Rightarrow> Journal \<Rightarrow> RingBuffer \<Rightarrow> ltx list \<Rightarrow> ltx list \<Rightarrow>
   (nat \<Rightarrow> byte_t) \<Rightarrow> 'd \<Rightarrow> bool" where
  "log_inv view crash vsize j rb0 gone live S d \<longleftrightarrow>
     geom vsize j \<and> ring_inv (LogRb j) \<and> ring_inv rb0 \<and> Capacity (LogRb j) = jSize j - 1 \<and> Capacity rb0 = jSize j - 1 \<and>
     unat (Size rb0) < unat (jSize j - 1) \<and> EndIndex rb0 = EndIndex (LogRb j) \<and>
     slots (LogRb j) = drop (length (log_of gone)) (slots rb0) \<and> list_all (valid_tx vsize j) (gone @ live) \<and>
     (\<forall>c \<in> crash d. on_medium j rb0 (gone @ live) c \<and> outside j (apply_txs (gone @ live) c) S) \<and>
     outside j (apply_txs live (view d)) S"

lemma medium_cong:
  assumes "jStart j' = jStart j" "jSize j' = jSize j"
  shows "on_medium j' = on_medium j" "outside j' = outside j"
  using assms place_cong [OF assms] by (simp_all add: on_medium_def [abs_def] outside_def [abs_def])

lemma log_inv_cong:
  assumes "jStart j' = jStart j" "jSize j' = jSize j" "LogRb j' = LogRb j"
  shows "log_inv view crash vsize j' rb0 gone live S d = log_inv view crash vsize j rb0 gone live S d"
  unfolding log_inv_def place_cong [OF assms(1,2)] medium_cong [OF assms(1,2)] assms ..

lemma holds_same:
  assumes "holds c0 j ss bs" "\<And>s p. s \<in> set ss \<Longrightarrow> slot_pos j s \<le> p \<Longrightarrow> p < slot_pos j s + PageSize \<Longrightarrow> c p = c0 p"
  shows "holds c j ss bs"
  unfolding holds_def list_all2_conv_all_nth
proof (intro conjI allI impI)
  note h = assms(1) [unfolded holds_def list_all2_conv_all_nth]
  show "length ss = length bs" using h by simp
  fix i assume i: "i < length ss"
  show "unat (ss ! i) + 1 < unat (jSize j)" "wf_block (bs ! i)" using h i by simp_all
  have "page_at c (slot_pos j (ss ! i)) = page_at c0 (slot_pos j (ss ! i))"
    using assms(2) [OF nth_mem [OF i]] by (intro page_at_cong) auto
  then show "page_at c (slot_pos j (ss ! i)) = on_disk (bs ! i)" using h i by simp
qed

lemma wf_log_of: "list_all (valid_tx vsize j) txs \<Longrightarrow> list_all wf_block (log_of txs)"
proof (induction txs)
  case (Cons x txs)
  obtain g bs t where "x = (g, bs, t)" by (cases x)
  then have "list_all wf_block (tx_log x)" using Cons.prems wf_tx_log [of vsize j g bs t] by (simp del: tx_log.simps valid_tx.simps)
  then show ?case using Cons by (simp del: tx_log.simps)
qed simp

lemma holds_slots_ok: "holds c j ss bs \<Longrightarrow> slots_ok j ss"
  by (auto simp: holds_def slots_ok_def list_all2_conv_all_nth list_all_length)

text \<open>
  A batch that is being written: the transactions \<open>txs\<close> go to the slots \<open>ss\<close> that the ring hands out next, and \<open>rb'\<close> is
  the ring that then holds them.
\<close>

definition batch_at :: "uint64_t \<Rightarrow> Journal \<Rightarrow> RingBuffer \<Rightarrow> RingBuffer \<Rightarrow> size_t list \<Rightarrow> ltx list \<Rightarrow> bool" where
  "batch_at vsize j rb0 rb' ss txs \<longleftrightarrow>
     ring_inv rb' \<and> slots rb' = slots (LogRb j) @ ss \<and> Capacity rb' = jSize j - 1 \<and> StartIndex rb' = StartIndex (LogRb j) \<and>
     list_all (valid_tx vsize j) txs \<and> length ss = length (log_of txs) \<and> length (slots rb0) + length ss \<le> unat (jSize j - 1)"

text \<open>The pages of the batch are inside the journal, behind the header, and none of them holds a block of the old log.\<close>

lemma batch_pages:
  assumes inv: "log_inv view crash vsize j rb0 gone live S d" and bt: "batch_at vsize j rb0 rb' ss txs"
    and m: "on_medium j rb0 (gone @ live) c"
  shows "distinct (slots rb0 @ ss)" "slots_ok j ss" "slots_ok j (slots rb0)" "list_all wf_block (log_of txs)"
    "p < journal_start j + PageSize \<or> journal_end j \<le> p \<Longrightarrow> \<not> written_by (map2 (slot_bio j) ss (log_of txs)) p"
    "s \<in> set (slots rb0) \<Longrightarrow> slot_pos j s \<le> p \<Longrightarrow> p < slot_pos j s + PageSize \<Longrightarrow>
      \<not> written_by (map2 (slot_bio j) ss (log_of txs)) p"
proof -
  note I = inv [unfolded log_inv_def] and B = bt [unfolded batch_at_def]
  have g: "geom vsize j" and l: "length ss = length (log_of txs)" using I B by blast+
  show dist: "distinct (slots rb0 @ ss)" using fresh_slots [of rb0 "LogRb j" rb' ss] I B by simp
  have "1 < unat (jSize j)" using geomD(2) [OF g] .
  then have cp: "unat (jSize j - 1) = unat (jSize j) - 1" by (simp add: unat_sub word_le_nat_alt)
  have "unat s < unat (jSize j) - 1" if "s \<in> set ss" for s using slots_below [of rb' s] B that cp by simp
  then show ok: "slots_ok j ss" using \<open>1 < unat (jSize j)\<close> by (fastforce simp: slots_ok_def list_all_iff)
  show "slots_ok j (slots rb0)" using m holds_slots_ok by (auto simp: on_medium_def)
  show wf: "list_all wf_block (log_of txs)" using wf_log_of B by blast
  note ws = written_slots [OF g l ok wf]
  show "\<not> written_by (map2 (slot_bio j) ss (log_of txs)) p" if "p < journal_start j + PageSize \<or> journal_end j \<le> p"
  proof
    assume "written_by (map2 (slot_bio j) ss (log_of txs)) p"
    then obtain s where s: "s \<in> set ss" "slot_pos j s \<le> p" "p < slot_pos j s + PageSize" using ws by blast
    then have "unat s + 1 < unat (jSize j)" using ok by (simp add: slots_ok_def list_all_iff)
    from slot_inside [OF g this s(2,3)] that show False by (simp add: PageSize_def)
  qed
  show "\<not> written_by (map2 (slot_bio j) ss (log_of txs)) p"
    if "s \<in> set (slots rb0)" "slot_pos j s \<le> p" "p < slot_pos j s + PageSize"
    using ws slot_pages_apart [OF that(2,3)] dist that(1) by auto
qed

context block_layer
begin

text \<open>Before the header is written, the log on the medium is the old one.\<close>

lemma batch_old:
  assumes inv: "log_inv view crash vsize j rb0 gone live S d" and bt: "batch_at vsize j rb0 rb' ss txs"
    and c0: "c0 \<in> crash d" "\<And>p. \<not> written_by (map2 (slot_bio j) ss (log_of txs)) p \<Longrightarrow> c p = c0 p"
  shows "on_medium j rb0 (gone @ live) c \<and> outside j (apply_txs (gone @ live) c) S"
proof -
  have m0: "on_medium j rb0 (gone @ live) c0" "outside j (apply_txs (gone @ live) c0) S"
    using inv c0(1) unfolding log_inv_def by blast+
  note P = batch_pages [OF inv bt m0(1)]
  have "page_at c (journal_start j) = page_at c0 (journal_start j)" using c0(2) P(5) by (intro page_at_cong) auto
  moreover have "holds c j (slots rb0) (log_of (gone @ live))"
  proof (rule holds_same)
    show "holds c0 j (slots rb0) (log_of (gone @ live))" using m0(1) unfolding on_medium_def by blast
  qed (use c0(2) P(6) in blast)
  moreover have "outside j c c0" using c0(2) P(5) by (auto simp: outside_def)
  then have "outside j (apply_txs (gone @ live) c) S"
    using outside_trans [OF outside_apply [of j c c0 "gone @ live"] m0(2)] by simp
  ultimately show ?thesis using m0(1) by (simp add: on_medium_def)
qed

text \<open>Once the header is written on top of the complete batch, the log is the new one.\<close>

lemma batch_new:
  assumes inv: "log_inv view crash vsize j rb0 gone live S d" and bt: "batch_at vsize j rb0 rb' ss txs"
    and v: "c = overwrite (header_bio j rb') v"
      "\<And>p. \<not> written_by (map2 (slot_bio j) ss (log_of txs)) p \<Longrightarrow> v p = view d p"
      "\<And>p. written_by (map2 (slot_bio j) ss (log_of txs)) p \<Longrightarrow>
        \<exists>b \<in> set (map2 (slot_bio j) ss (log_of txs)). b_write b \<and> in_bio b p \<and> v p = bio_byte b p"
  shows "on_medium j rb' (live @ txs) c \<and> outside j (apply_txs (live @ txs) c) (apply_txs txs S)"
proof -
  note I = inv [unfolded log_inv_def] and B = bt [unfolded batch_at_def]
  have g: "geom vsize j" and l: "length ss = length (log_of txs)" using I B by blast+
  have m: "on_medium j rb0 (gone @ live) (view d)" using I crash_view by blast
  note P = batch_pages [OF inv bt m] and hb = header_bio_range [OF g]
  have js: "journal_start j + PageSize \<le> journal_end j"
    using geomD(2) [OF g] by (simp add: journal_start_def journal_end_def PageSize_def)
  have cv: "c p = v p" if "\<not> (journal_start j \<le> p \<and> p < journal_start j + PageSize)" for p
    using that by (auto simp: v(1) overwrite_def hb(1))
  have behind: "journal_start j + PageSize \<le> p"
    if "s \<in> set ss \<union> set (slots rb0)" "slot_pos j s \<le> p" "p < slot_pos j s + PageSize" for s p
  proof -
    have "unat s + 1 < unat (jSize j)" using P(2,3) that(1) by (auto simp: slots_ok_def list_all_iff)
    from slot_inside(1) [OF g this that(2,3)] show ?thesis by (simp add: PageSize_def)
  qed
  have page: "page_at c (journal_start j) = header_image (jSize j) rb'"
    by (rule nth_equalityI) (auto simp: page_at_def v(1) overwrite_def hb)
  have hl: "holds (view d) j (slots (LogRb j)) (log_of live)" using m I by (simp add: on_medium_def holds_append)
  have sub: "set (slots (LogRb j)) \<subseteq> set (slots rb0)" using I set_drop_subset by metis
  have "holds c j (slots (LogRb j)) (log_of live)"
  proof (rule holds_same [OF hl])
    fix s p assume s: "s \<in> set (slots (LogRb j))" "slot_pos j s \<le> p" "p < slot_pos j s + PageSize"
    then show "c p = view d p" using P(6) [of s p] behind [of s p] sub v(2) cv [of p] by auto
  qed
  moreover have "holds v j ss (log_of txs)" using P(1) v(3) by (intro pages_written [OF g l P(2,4)]) auto
  then have "holds c j ss (log_of txs)"
  proof (rule holds_same)
    fix s p assume "s \<in> set ss" "slot_pos j s \<le> p" "p < slot_pos j s + PageSize"
    then show "c p = v p" using behind [of s p] cv [of p] by auto
  qed
  ultimately have "holds c j (slots rb') (log_of (live @ txs))" using holds_length [OF hl] B by (simp add: holds_append)
  moreover have "outside j c (view d)" using v(2) cv P(5) js by (auto simp: outside_def)
  then have "outside j (apply_txs (live @ txs) c) (apply_txs txs S)"
    using outside_apply [OF outside_trans [OF outside_apply], of j c "view d" live S txs] I by (simp add: apply_txs_append)
  ultimately show ?thesis using page by (simp add: on_medium_def)
qed

text \<open>What a power failure during the submission of a batch leaves: the old log, or the new one.\<close>

lemma batch_crash:
  assumes inv: "log_inv view crash vsize j rb0 gone live S d" and bt: "batch_at vsize j rb0 rb' ss txs"
    and c: "c \<in> crash_points io crash crash_in (map2 (slot_bio j) ss (log_of txs)) (header_bio j rb') d"
  shows "on_medium j rb0 (gone @ live) c \<and> outside j (apply_txs (gone @ live) c) S \<or>
    on_medium j rb' (live @ txs) c \<and> outside j (apply_txs (live @ txs) c) (apply_txs txs S)"
proof -
  have "geom vsize j" using inv by (simp add: log_inv_def)
  note hb = header_bio_range [OF this]
  from crash_points_cases [OF hb(2,3) c] show ?thesis
  proof
    assume "\<exists>c0 \<in> crash d. \<forall>p. \<not> written_by (map2 (slot_bio j) ss (log_of txs)) p \<longrightarrow> c p = c0 p"
    then show ?thesis using batch_old [OF inv bt] by blast
  next
    assume "\<exists>v. c = overwrite (header_bio j rb') v \<and>
       (\<forall>p. \<not> written_by (map2 (slot_bio j) ss (log_of txs)) p \<longrightarrow> v p = view d p) \<and>
       (\<forall>p. written_by (map2 (slot_bio j) ss (log_of txs)) p \<longrightarrow>
         (\<exists>b \<in> set (map2 (slot_bio j) ss (log_of txs)). b_write b \<and> in_bio b p \<and> v p = bio_byte b p))"
    then show ?thesis using batch_new [OF inv bt] by blast
  qed
qed

end

end
