(* ===== verification/Journal_Flush.thy ===== *)
theory Journal_Flush
  imports Journal_Commit
begin

text \<open>
  The pass of the journal's thread as a whole: the requests it submits, what it leaves on a working device, and
  what recovery finds after a power failure at any moment of it. The properties of the journal follow.
\<close>

section \<open>The requests of a pass\<close>

text \<open>The requests that a pass submits: the blocks of the batch, and the header of the journal as the last one.\<close>

definition pass_requests :: "host \<Rightarrow> bytes \<Rightarrow> Journal \<Rightarrow> bio list" where
  "pass_requests h junk j =
     (let (e, m, bl, j) = Run_write h junk (TxList j) [] BioList (j\<lparr>TxList := []\<rparr>);
          rb = LogRb j;
          page = header_page h (jSize j) (StartIndex rb) (EndIndex rb) (Size rb) (Capacity rb) junk;
          (e, bl, m) = AddIo page (jStart j * BlockSize) True 0 m bl
      in ReqList bl)"

text \<open>The conditions on a batch that fits into the log.\<close>

definition fits :: "uint64_t \<Rightarrow> Journal \<Rightarrow> RingBuffer \<Rightarrow> bool" where
  "fits vsize j rb0 \<longleftrightarrow> TxList j \<noteq> [] \<and> distinct (TxList j) \<and> list_all (ready vsize j) (TxList j) \<and>
     length (slots rb0) + length (log_of (batch j (TxList j))) < unat (jSize j - 1)"

lemma AddIo_header:
  assumes g: "geom vsize j" and junk: "length junk = PageSize"
  shows "AddIo (header_page h (jSize j) (StartIndex rb) (EndIndex rb) (Size rb) (Capacity rb) junk) (jStart j * BlockSize) True 0 [] bl =
    (Success, bl\<lparr>ReqList := ReqList bl @ [header_bio j rb]\<rparr>, [])"
proof -
  have "(jStart j * BlockSize) AND 511 = 0" using geom_unat(1) [OF g] by (simp add: and_511 journal_start_def)
  then show ?thesis
    by (simp add: header_page_image [OF junk] AddIo_reliable header_bio_def)
qed

lemma log_inv_slots: "log_inv view crash vsize j rb0 gone live S d \<Longrightarrow> length (slots (LogRb j)) \<le> length (slots rb0)"
  by (simp add: log_inv_def del: length_slots)

lemma pass_writes:
  assumes inv: "log_inv view crash vsize j rb0 gone live S d" and f: "fits vsize j rb0" and junk: "length junk = PageSize"
  obtains rb' ss txs' where
    "Run_write h junk (TxList j) [] BioList (j\<lparr>TxList := []\<rparr>) =
      (Success, [], BioList\<lparr>ReqList := map2 (slot_bio j) ss (log_of (batch j (TxList j)))\<rparr>, j\<lparr>TxList := [], LogRb := rb', Txs := txs'\<rparr>)"
    "batch_at vsize j rb0 rb' ss (batch j (TxList j))" "unat (Size rb') < unat (Capacity rb')"
    "\<And>t. txs' t = (Txs j t)\<lparr>IndexList := IndexList (txs' t)\<rparr>"
    "pass_requests h junk j = map2 (slot_bio j) ss (log_of (batch j (TxList j))) @ [header_bio j rb']"
proof -
  let ?j = "j\<lparr>TxList := []\<rparr>" and ?b = "batch j (TxList j)"
  have s: "jStart ?j = jStart j" "jSize ?j = jSize j" "LogRb ?j = LogRb j" "Txs ?j = Txs j" by simp_all
  note pc = place_cong [OF s(1,2)]
  note I = inv [unfolded log_inv_def] and F = f [unfolded fits_def]
  have g: "geom vsize j" using I by blast
  have b: "batch ?j (TxList j) = ?b" by (simp add: batch_def)
  have rd: "list_all (ready vsize ?j) (TxList j)" using F by (simp add: list_all_iff ready_def pc)
  have room: "length (slots (LogRb j)) + length (log_of ?b) < unat (jSize j - 1)" using F log_inv_slots [OF inv] by linarith
  from Run_write_ok [of vsize ?j junk "TxList j" h BioList] I F rd room junk obtain rb' ss txs' where
    r: "Run_write h junk (TxList j) [] BioList ?j =
      (Success, [], BioList\<lparr>ReqList := map2 (slot_bio j) ss (log_of ?b)\<rparr>, j\<lparr>TxList := [], LogRb := rb', Txs := txs'\<rparr>)"
    "ring_inv rb'" "slots rb' = slots (LogRb j) @ ss" "length ss = length (log_of ?b)" "Capacity rb' = jSize j - 1"
    "StartIndex rb' = StartIndex (LogRb j)" "\<And>t. txs' t = (Txs j t)\<lparr>IndexList := IndexList (txs' t)\<rparr>"
    by (auto simp: pc b slot_bio_cong [OF s(1)] BioList_def)
  have v: "list_all (valid_tx vsize j) ?b" using F by (auto simp: batch_def list_all_iff ready_def)
  have sz: "unat (Size rb') < unat (Capacity rb')" using arg_cong [OF r(3), of length] room r(4,5) by simp
  have "batch_at vsize j rb0 rb' ss ?b" using r v F by (simp add: batch_at_def)
  moreover have "geom vsize (j\<lparr>TxList := [], LogRb := rb', Txs := txs'\<rparr>)" using g by (simp add: geom_def)
  from AddIo_header [OF this junk, of h rb'] have
    "pass_requests h junk j = map2 (slot_bio j) ss (log_of ?b) @ [header_bio j rb']"
    by (simp add: pass_requests_def r(1) header_bio_def Let_def)
  ultimately show thesis using that r sz by blast
qed

section \<open>The pass on a working device\<close>

lemma complete_all_state:
  "jStart (complete_all ts e j) = jStart j \<and> jSize (complete_all ts e j) = jSize j \<and> LogRb (complete_all ts e j) = LogRb j \<and>
    TxList (complete_all ts e j) = TxList j \<and> TxToErase (complete_all ts e j) = TxToErase j \<and> jState (complete_all ts e j) = jState j"
  unfolding complete_all_def
  by (induction ts arbitrary: j) (auto simp: OnCommitComplete_def UnlinkTx_def upd_tx_def Let_def split: prod.splits)

lemma OnCommitComplete_tx:
  "Txs (OnCommitComplete t e j) u =
     (if u = t then (Txs j t)\<lparr>txState := (if e = Success then JournalTxStateCommited else JournalTxStateCanceled),
        CommitResult := e, CommitEvent := True\<rparr> else Txs j u)"
  by (auto simp: OnCommitComplete_def UnlinkTx_def upd_tx_def Let_def split: prod.splits)

lemma complete_all_tx:
  "Txs (complete_all ts e j) u =
     (if u \<in> set ts then (Txs j u)\<lparr>txState := (if e = Success then JournalTxStateCommited else JournalTxStateCanceled),
        CommitResult := e, CommitEvent := True\<rparr> else Txs j u)"
proof (induction ts arbitrary: j)
  case (Cons t ts)
  have "Txs (complete_all (t # ts) e j) u = Txs (complete_all ts e (OnCommitComplete t e j)) u" by (simp add: complete_all_def)
  then show ?case using Cons.IH [of "OnCommitComplete t e j"] by (auto simp: OnCommitComplete_tx)
qed (simp add: complete_all_def)

lemma CompactLog_none: "TxToErase j = [] \<Longrightarrow> CompactLog j = j"
  by (simp add: CompactLog_def CompactLog_loop.simps)

context block_layer
begin

lemma pass_durable:
  assumes rel: "reliable io" and inv: "log_inv view crash vsize j rb0 gone live S d" and f: "fits vsize j rb0"
    and junk: "length junk = PageSize" and te: "TxToErase j = []"
  shows "\<exists>j' d'. Run_pass io h junk [] d j = (j', [], d') \<and> TxList j' = [] \<and> TxToErase j' = [] \<and>
    jStart j' = jStart j \<and> jSize j' = jSize j \<and> jState j' = jState j \<and>
    (\<forall>t. Txs j' t = (if t \<in> set (TxList j)
       then (Txs j t)\<lparr>txState := JournalTxStateCommited, IndexList := IndexList (Txs j' t), CommitResult := Success, CommitEvent := True\<rparr>
       else (Txs j t)\<lparr>IndexList := IndexList (Txs j' t)\<rparr>)) \<and>
    log_inv view crash vsize j' (LogRb j') [] (live @ batch j (TxList j)) (apply_txs (batch j (TxList j)) S) d'"
proof -
  let ?b = "batch j (TxList j)"
  from pass_writes [OF inv f junk, of h] obtain rb' ss txs' where
    w: "Run_write h junk (TxList j) [] BioList (j\<lparr>TxList := []\<rparr>) =
      (Success, [], BioList\<lparr>ReqList := map2 (slot_bio j) ss (log_of ?b)\<rparr>, j\<lparr>TxList := [], LogRb := rb', Txs := txs'\<rparr>)"
    and bt: "batch_at vsize j rb0 rb' ss ?b" and sz: "unat (Size rb') < unat (Capacity rb')"
    and tx: "\<And>t. txs' t = (Txs j t)\<lparr>IndexList := IndexList (txs' t)\<rparr>" by metis
  note I = inv [unfolded log_inv_def] and B = bt [unfolded batch_at_def]
  have g: "geom vsize j" using I by blast
  let ?j1 = "j\<lparr>TxList := [], LogRb := rb', Txs := txs'\<rparr>"
  let ?bl = "BioList\<lparr>ReqList := map2 (slot_bio j) ss (log_of ?b) @ [header_bio j rb']\<rparr>"
  have "geom vsize ?j1" using g by (simp add: geom_def)
  from AddIo_header [OF this junk, of h rb'] have
    a: "AddIo (header_page h (jSize j) (StartIndex rb') (EndIndex rb') (Size rb') (Capacity rb') junk) (jStart j * BlockSize) True 0 []
      (BioList\<lparr>ReqList := map2 (slot_bio j) ss (log_of ?b)\<rparr>) = (Success, ?bl, [])"
    by (simp add: header_bio_def)
  obtain datas bl' d' where s: "SubmitWait io True ?bl d = (datas, bl', d')" by (cases "SubmitWait io True ?bl d") auto
  have ok: "bl_Result bl' = Success" using SubmitWait_reliable [OF rel _ _ s] by (simp add: BioList_def)
  have "ReqList ?bl = map2 (slot_bio j) ss (log_of ?b) @ [header_bio j rb']" "bl_Result ?bl = Success" by (simp_all add: BioList_def)
  from SubmitWait_barrier [OF this s, unfolded ok] header_bio_range(2) [OF g, of rb'] obtain d1 where
    d1: "\<And>p. \<not> written_by (map2 (slot_bio j) ss (log_of ?b)) p \<Longrightarrow> view d1 p = view d p"
    "\<And>p. written_by (map2 (slot_bio j) ss (log_of ?b)) p \<Longrightarrow>
      \<exists>b \<in> set (map2 (slot_bio j) ss (log_of ?b)). b_write b \<and> in_bio b p \<and> view d1 p = bio_byte b p"
    "view d' = overwrite (header_bio j rb') (view d1)" "crash d' \<subseteq> {view d'}" by (simp only: refl if_True) blast
  from batch_new [OF inv bt d1(3,1,2)] have
    m: "on_medium j rb' (live @ ?b) (view d')" "outside j (apply_txs (live @ ?b) (view d')) (apply_txs ?b S)" by blast+
  define j' where "j' = complete_all (TxList j) Success ?j1"
  have c: "jStart j' = jStart j" "jSize j' = jSize j" "LogRb j' = rb'" "TxList j' = []" "TxToErase j' = []" "jState j' = jState j"
    using complete_all_state [of "TxList j" Success ?j1] te by (simp_all add: j'_def)
  have "Run_pass io h junk [] d j = (j', [], d')"
    using f w a s ok te by (simp add: Run_pass_def fits_def Flush_def Page_Create_def SubmitWaitResult_def CompactLog_none j'_def Let_def)
  moreover have "Txs j' t = (if t \<in> set (TxList j)
       then (Txs j t)\<lparr>txState := JournalTxStateCommited, IndexList := IndexList (Txs j' t), CommitResult := Success, CommitEvent := True\<rparr>
       else (Txs j t)\<lparr>IndexList := IndexList (Txs j' t)\<rparr>)" for t
  proof -
    obtain i where "txs' t = (Txs j t)\<lparr>IndexList := i\<rparr>" using tx by blast
    then show ?thesis by (cases "Txs j t") (simp add: j'_def complete_all_tx)
  qed
  moreover have "log_inv view crash vsize j' rb' [] (live @ ?b) (apply_txs ?b S) d'"
  proof -
    have "on_medium j' = on_medium j" "outside j' = outside j"
      using c place_cong [OF c(1,2)] by (simp_all add: on_medium_def [abs_def] outside_def [abs_def])
    then show ?thesis using I B m d1(4) sz c place_cong [OF c(1,2)] by (auto simp: log_inv_def)
  qed
  ultimately show ?thesis using c by (intro exI [of _ j'] exI [of _ d']) simp
qed

lemma pass_atomic:
  assumes inv: "log_inv view crash vsize j rb0 gone live S d" and f: "fits vsize j rb0"
    and junk: "length junk = PageSize"
    and c: "c \<in> crash_points io crash crash_in (butlast (pass_requests h junk j)) (last (pass_requests h junk j)) d"
  shows "\<exists>rb txs. ring_inv rb \<and> unat (Size rb) < unat (Capacity rb) \<and> Capacity rb = jSize j - 1 \<and> list_all (valid_tx vsize j) txs \<and>
    on_medium j rb txs c \<and> (outside j (apply_txs txs c) S \<or> outside j (apply_txs txs c) (apply_txs (batch j (TxList j)) S))"
proof -
  let ?b = "batch j (TxList j)"
  from pass_writes [OF inv f junk, of h] obtain rb' ss where
    bt: "batch_at vsize j rb0 rb' ss ?b" and sz: "unat (Size rb') < unat (Capacity rb')"
    and r: "pass_requests h junk j = map2 (slot_bio j) ss (log_of ?b) @ [header_bio j rb']" by metis
  note I = inv [unfolded log_inv_def] and B = bt [unfolded batch_at_def]
  from batch_crash [OF inv bt] c r have
    "on_medium j rb0 (gone @ live) c \<and> outside j (apply_txs (gone @ live) c) S \<or>
     on_medium j rb' (live @ ?b) c \<and> outside j (apply_txs (live @ ?b) c) (apply_txs ?b S)" by simp
  then show ?thesis
  proof
    assume "on_medium j rb0 (gone @ live) c \<and> outside j (apply_txs (gone @ live) c) S"
    then show ?thesis using I by (intro exI [of _ rb0] exI [of _ "gone @ live"]) simp
  next
    assume "on_medium j rb' (live @ ?b) c \<and> outside j (apply_txs (live @ ?b) c) (apply_txs ?b S)"
    then show ?thesis using I B sz by (intro exI [of _ rb'] exI [of _ "live @ ?b"]) simp
  qed
qed

end

section \<open>Recovery\<close>

lemma apply_blocks_covered_any: "b \<in> set bs \<Longrightarrow> covers b p \<Longrightarrow> apply_blocks bs f p = apply_blocks bs g p"
proof (induction bs arbitrary: f g)
  case (Cons c bs)
  show ?case
  proof (cases "b \<in> set bs")
    case True
    then show ?thesis using Cons by simp
  next
    case False
    then have "put_block f c p = put_block g c p" using Cons.prems by (simp add: put_block_at)
    then show ?thesis using apply_blocks_cong [of "put_block f c" p "put_block g c" bs] by simp
  qed
qed simp

text \<open>What is underneath does not matter where a transaction of the list writes.\<close>

lemma apply_txs_covered_any:
  "(g0, bs, t) \<in> set txs \<Longrightarrow> b \<in> set bs \<Longrightarrow> covers b p \<Longrightarrow> apply_txs txs f p = apply_txs txs g p"
proof (induction txs arbitrary: f g)
  case (Cons x txs)
  obtain g1 cs s where x: "x = (g1, cs, s)" by (cases x)
  show ?case
  proof (cases "(g0, bs, t) \<in> set txs")
    case True
    then show ?thesis using Cons.IH [OF True Cons.prems(2,3)] by (simp add: x)
  next
    case False
    then have "bs = cs" using Cons.prems(1) x by simp
    then have "apply_blocks cs f p = apply_blocks cs g p" using apply_blocks_covered_any [of b cs p] Cons.prems by simp
    then show ?thesis using apply_txs_cong [of "apply_blocks cs f" p "apply_blocks cs g" txs] by (simp add: x)
  qed
qed simp

lemma apply_txs_idem: "apply_txs txs (apply_txs txs f) = apply_txs txs f"
proof
  fix p
  show "apply_txs txs (apply_txs txs f) p = apply_txs txs f p"
  proof (cases "\<exists>g0 bs t b. (g0, bs, t) \<in> set txs \<and> b \<in> set bs \<and> covers b p")
    case True
    then show ?thesis using apply_txs_covered_any by blast
  next
    case False
    then have "apply_txs txs f p = f p"
    proof (induction txs arbitrary: f)
      case (Cons x txs)
      obtain g0 bs t where x: "x = (g0, bs, t)" by (cases x)
      then have "apply_blocks bs f p = f p" using Cons.prems by (intro apply_blocks_frame) auto
      then show ?case using Cons.IH [of "apply_blocks bs f"] Cons.prems x by auto
    qed simp
    then show ?thesis by (intro apply_txs_cong)
  qed
qed

context block_layer
begin

text \<open>
  The journal that has loaded a log starts again with an empty one: all transactions of the old log are applied, and
  the invariant holds for it.
\<close>

lemma recover_inv:
  assumes rel: "reliable io" and junk: "length junk = PageSize" and new: "jState j0 = JournalStateNew"
    and g: "geom vsize j" and rb: "ring_inv rb" "unat (Size rb) < unat (Capacity rb)" "Capacity rb = jSize j - 1"
    and txs: "list_all (valid_tx vsize j) txs" and med: "on_medium j rb txs (view d)" and cr: "crash d \<subseteq> {view d}"
  shows "\<exists>j2 d'. Load io h vsize junk (jStart j) [] d j0 = Some (Success, j2, [], d') \<and> jState j2 = JournalStateRunning \<and>
    jStart j2 = jStart j \<and> jSize j2 = jSize j \<and> view d' = apply_txs txs (view d) \<and>
    log_inv view crash vsize j2 rb txs [] (view d') d'"
proof -
  from recover [OF rel junk new g rb txs med, of h] obtain j2 d' where
    l: "Load io h vsize junk (jStart j) [] d j0 = Some (Success, j2, [], d')" "jState j2 = JournalStateRunning"
    and s: "jStart j2 = jStart j" "jSize j2 = jSize j" and e: "slots (LogRb j2) = []" "ring_inv (LogRb j2)"
    "EndIndex (LogRb j2) = EndIndex rb" "Capacity (LogRb j2) = Capacity rb"
    and v: "view d' = apply_txs txs (view d)" "crash d' \<subseteq> (if txs = [] then crash d else {view d'})" by blast
  have cd: "c = view d'" if "c \<in> crash d'" for c using that v cr by (cases "txs = []") auto
  note pc = place_cong [OF s]
  have in_j: "view d' p = view d p" if "journal_start j \<le> p" "p < journal_end j" for p
    using apply_txs_outside [OF g txs that] v(1) by simp
  have "page_at (view d') (journal_start j) = page_at (view d) (journal_start j)"
    using in_j geomD(2) [OF g] by (intro page_at_cong) (auto simp: journal_start_def journal_end_def PageSize_def)
  moreover have "holds (view d') j (slots rb) (log_of txs)"
  proof (rule holds_cong [OF g])
    show "holds (view d) j (slots rb) (log_of txs)" using med unfolding on_medium_def by blast
  qed (use in_j in auto)
  ultimately have m: "on_medium j2 rb txs (view d')" using med pc s by (simp add: on_medium_def)
  have "length (slots rb) \<le> length (log_of txs)" using med holds_length by (fastforce simp: on_medium_def simp del: length_slots)
  moreover have "apply_txs txs (view d') = view d'" using v(1) apply_txs_idem by simp
  then have "on_medium j2 rb txs c \<and> outside j2 (apply_txs txs c) (view d')" if "c \<in> crash d'" for c
    using m cd [OF that] by (simp add: outside_def)
  ultimately have "log_inv view crash vsize j2 rb txs [] (view d') d'"
    using g rb txs e s pc by (simp add: log_inv_def) (simp add: outside_def)
  then show ?thesis using l s v by blast
qed

end

section \<open>A pass answers every transaction\<close>

lemma keeps_TxList:
  "TxList (OnCommitComplete t e j) = TxList j" "TxList (CompactLog j) = TxList j" "TxList (upd_tx t tx j) = TxList j"
  by (auto simp: OnCommitComplete_def UnlinkTx_def upd_tx_def CompactLog_def Let_def split: prod.splits)

lemma WriteTx_blocks_TxList: "WriteTx_blocks h junk bs idx m bl j = (e, idx', m', bl', j') \<Longrightarrow> TxList j' = TxList j"
proof (induction bs arbitrary: idx m bl j)
  case (Cons b bs)
  obtain e1 i j1 where g: "GetNextIndex j = (e1, i, j1)" by (cases "GetNextIndex j") auto
  have k: "TxList j1 = TxList j" using g by (auto simp: GetNextIndex_def split: prod.splits option.splits)
  obtain ok m1 where n: "new m = (ok, m1)" by fastforce
  obtain e2 bl2 m2 where w: "WriteTxBlock h junk j1 i b m1 bl = (e2, bl2, m2)" by (cases "WriteTxBlock h junk j1 i b m1 bl") auto
  show ?case using Cons.prems Cons.IH [of "idx @ [i]" m2 bl2 j1] g n w k by (auto split: if_splits)
qed simp

lemma WriteTx_TxList: "WriteTx h junk t m bl j = (e, m', bl', j') \<Longrightarrow> TxList j' = TxList j"
  using WriteTx_blocks_TxList [of h junk "tx_blocks (Txs j t)" "IndexList (Txs j t)" m bl j]
  by (auto simp: WriteTx_def keeps_TxList Let_def split: prod.splits if_splits)

lemma Run_write_TxList: "Run_write h junk ts m bl j = (e, m', bl', j') \<Longrightarrow> TxList j' = TxList j"
proof (induction ts arbitrary: m bl j)
  case (Cons t ts)
  obtain e1 m1 bl1 j1 where w: "WriteTx h junk t m bl j = (e1, m1, bl1, j1)" by (cases "WriteTx h junk t m bl j") auto
  show ?case using Cons WriteTx_TxList [OF w] w by (auto split: if_splits)
qed simp

lemma Flush_TxList: "Flush io h junk bl m d j = (e, j', m', d') \<Longrightarrow> TxList j' = TxList j"
  by (auto simp: Flush_def keeps_TxList Let_def split: prod.splits if_splits)

section \<open>An example\<close>

text \<open>A journal of sixteen blocks behind the first block of a volume of one megabyte, with one transaction that waits.\<close>

definition sample_rb :: RingBuffer where
  "sample_rb = \<lparr>StartIndex = 0, EndIndex = 0, Size = 0, Capacity = 15\<rparr>"

definition sample_tx :: Transaction where
  "sample_tx = \<lparr>txState = JournalTxStateCommiting, txId = replicate 16 7,
     DataBlockList = [TxData (replicate 16 7) 0 512 131072 (replicate TxDataSize 9)], IndexList = [],
     CommitResult = Success, CommitEvent = False\<rparr>"

definition sample_journal :: Journal where
  "sample_journal = (make_Journal sample_rb)\<lparr>jStart := 1, jSize := 16, jState := JournalStateRunning, TxList := [0],
     Txs := (\<lambda>_. sample_tx)\<rparr>"

definition sample_disk :: disk where
  "sample_disk = \<lparr>medium = put_page 4096 (header_image 16 sample_rb) (\<lambda>_. 0), cache = [], faults = []\<rparr>"

definition sample_vsize :: uint64_t where "sample_vsize = 1048576"

lemma sample_geom: "geom sample_vsize sample_journal"
  by (simp add: geom_def sample_vsize_def sample_journal_def)

lemma sample_valid: "valid_tx sample_vsize sample_journal (ltx_of sample_tx)"
proof -
  have "CheckPosition sample_vsize sample_journal 131072 512 = Success"
    using CheckPosition_iff [OF sample_geom, of 512 131072]
    by (simp add: sample_vsize_def journal_start_def journal_end_def sample_journal_def)
  then show ?thesis by (simp add: ltx_of_def sample_tx_def GuidSize_def valid_data_def TxDataSize_def)
qed

lemma sample_ring: "ring_inv sample_rb" "slots sample_rb = []"
  by (simp_all add: ring_inv_def sample_rb_def slots_def slots_from_def)

lemma sample_view: "disk_view sample_disk = put_page 4096 (header_image 16 sample_rb) (\<lambda>_. 0)" "disk_crash sample_disk = {disk_view sample_disk}"
  by (simp_all add: disk_view_def disk_crash_def sample_disk_def)

lemma sample_inv: "log_inv disk_view disk_crash sample_vsize sample_journal sample_rb [] [] (\<lambda>_. 0) sample_disk"
proof -
  have p: "journal_start sample_journal = 4096" "journal_end sample_journal = 69632" "LogRb sample_journal = sample_rb"
    "jSize sample_journal = 16" by (simp_all add: journal_start_def journal_end_def sample_journal_def make_Journal_def)
  have "on_medium sample_journal sample_rb [] (disk_view sample_disk)"
    by (simp add: on_medium_def p sample_view page_at_put_same sample_ring holds_def)
  moreover have "outside sample_journal (disk_view sample_disk) (\<lambda>_. 0)"
    by (simp add: outside_def p sample_view put_page_def PageSize_def)
  ultimately show ?thesis using sample_geom sample_ring p by (simp add: log_inv_def sample_view(2)) (simp add: sample_rb_def)
qed

lemma sample_fits: "fits sample_vsize sample_journal sample_rb"
proof -
  have "Txs sample_journal = (\<lambda>_. sample_tx)" "TxList sample_journal = [0]" "jSize sample_journal = 16"
    by (simp_all add: sample_journal_def)
  moreover have "txState sample_tx = JournalTxStateCommiting" "IndexList sample_tx = []"
    "length (log_of [ltx_of sample_tx]) = 3" by (simp_all add: sample_tx_def ltx_of_def)
  ultimately show ?thesis using sample_valid by (simp add: fits_def ready_def batch_def sample_ring del: log_of_simps length_slots)
qed

section \<open>Properties\<close>

text \<open>
  Claim C19. The journal's thread answers every transaction of its list in one pass, whatever the device and the
  allocator do: afterwards the list is empty and each of them has its event set, with one common result, and is in
  the state committed exactly if the result is success and cancelled otherwise.
\<close>

theorem journal_pass_answers_all:
  assumes "Run_pass io h junk m d j = (j', m', d')" "TxList j \<noteq> []"
  shows "TxList j' = [] \<and> (\<exists>e. \<forall>t. t \<in> set (TxList j) \<longrightarrow> CommitEvent (Txs j' t) \<and> CommitResult (Txs j' t) = e \<and>
    txState (Txs j' t) = (if e = Success then JournalTxStateCommited else JournalTxStateCanceled))"
proof -
  obtain e1 m1 bl j1 where w: "Run_write h junk (TxList j) m BioList (j\<lparr>TxList := []\<rparr>) = (e1, m1, bl, j1)"
    by (cases "Run_write h junk (TxList j) m BioList (j\<lparr>TxList := []\<rparr>)") auto
  obtain e2 j2 m2 d2 where f: "(if e1 = Success then Flush io h junk bl m1 d j1 else (e1, j1, m1, d)) = (e2, j2, m2, d2)"
    by (cases "if e1 = Success then Flush io h junk bl m1 d j1 else (e1, j1, m1, d)") auto
  have "TxList j2 = []" using Run_write_TxList [OF w] Flush_TxList [of io h junk bl m1 d j1 e2 j2 m2 d2] f by (auto split: if_splits)
  moreover have "j' = complete_all (TxList j) e2 j2" using assms w f by (simp add: Run_pass_def Let_def)
  ultimately show ?thesis using complete_all_state [of "TxList j" e2 j2] by (auto simp: complete_all_tx)
qed

theorem journal_pass_answers_all_witness:
  "\<exists>j' m' d'. Run_pass (\<lambda>bs d. (map (\<lambda>i. (i, IOError, [])) [0..<length bs], d)) LittleEndian (replicate PageSize 0) [] () sample_journal
     = (j', m', d') \<and> CommitEvent (Txs j' 0) \<and> TxList j' = []"
proof -
  obtain j' m' d' where r: "Run_pass (\<lambda>bs d. (map (\<lambda>i. (i, IOError, [])) [0..<length bs], d)) LittleEndian (replicate PageSize 0) []
    () sample_journal = (j', m', d')" by (metis prod_cases3)
  have "TxList sample_journal = [0]" by (simp add: sample_journal_def)
  then show ?thesis using journal_pass_answers_all [OF r] r by auto
qed





text \<open>
  Claim C4. Recovery closes the cycle: a journal that loads what the power failure left applies the logged
  transactions and starts with an empty log of its own for which the invariant holds again, the committed content
  being what the device now shows. So commits, failures and recoveries can follow each other in any number.
\<close>

theorem journal_recovery_invariant:
  assumes layer: "block_layer io view crash crash_in" "reliable io" and junk: "length junk = PageSize"
    and new: "jState j0 = JournalStateNew" and inv: "log_inv view0 crash0 vsize j rb0 gone live S d0"
    and c: "view d \<in> crash0 d0" and cr: "crash d \<subseteq> {view d}"
  shows "\<exists>j2 d'. Load io h vsize junk (jStart j) [] d j0 = Some (Success, j2, [], d') \<and> jState j2 = JournalStateRunning \<and>
    outside j (view d') S \<and> log_inv view crash vsize j2 rb0 (gone @ live) [] (view d') d'"
proof -
  note I = inv [unfolded log_inv_def]
  have m: "on_medium j rb0 (gone @ live) (view d)" "outside j (apply_txs (gone @ live) (view d)) S" using I c by blast+
  have "geom vsize j" "ring_inv rb0" "unat (Size rb0) < unat (Capacity rb0)" "Capacity rb0 = jSize j - 1"
    "list_all (valid_tx vsize j) (gone @ live)" using I by simp_all
  from block_layer.recover_inv [OF layer junk new this m(1) cr, of h] obtain j2 d' where
    "Load io h vsize junk (jStart j) [] d j0 = Some (Success, j2, [], d')" "jState j2 = JournalStateRunning"
    "view d' = apply_txs (gone @ live) (view d)" "log_inv view crash vsize j2 rb0 (gone @ live) [] (view d') d'" by blast
  then show ?thesis using m(2) by auto
qed

theorem journal_recovery_invariant_witness:
  "\<exists>j2 d'. Load good_disk_io BigEndian sample_vsize (replicate PageSize 0) 1 [] sample_disk (make_Journal sample_rb) =
     Some (Success, j2, [], d') \<and> log_inv disk_view disk_crash sample_vsize j2 sample_rb [] [] (disk_view d') d'"
proof -
  have c: "disk_view sample_disk \<in> disk_crash sample_disk" "disk_crash sample_disk \<subseteq> {disk_view sample_disk}"
    by (simp_all add: sample_view)
  have "jState (make_Journal sample_rb) = JournalStateNew" "jStart sample_journal = 1" "length (replicate PageSize (0::byte_t)) = PageSize"
    by (simp_all add: make_Journal_def sample_journal_def)
  with journal_recovery_invariant [OF good.block_layer_axioms reliable_good_disk _ _ sample_inv c,
      of "replicate PageSize 0" "make_Journal sample_rb" BigEndian]
  show ?thesis by auto
qed

end
