(* ===== verification/Journal_Tx.thy ===== *)
theory Journal_Tx
  imports Journal_Flush
begin

text \<open>
  A transaction from the side of its client: \<open>Write\<close> cuts a page into data blocks, and \<open>Commit\<close> applies them once the
  journal's thread has logged them.
\<close>

section \<open>Cutting a page\<close>

definition numbered :: "guid \<Rightarrow> nat \<Rightarrow> TxBlock list \<Rightarrow> bool" where
  "numbered g k bs \<longleftrightarrow> list_all (\<lambda>(i, b). TxId b = g \<and> Index b = of_nat i) (enumerate k bs)"

lemma numbered_simps [simp]:
  "numbered g k []" "numbered g k (b # bs) \<longleftrightarrow> TxId b = g \<and> Index b = of_nat k \<and> numbered g (Suc k) bs"
  by (simp_all add: numbered_def)

lemma numbered_append: "numbered g k (bs @ cs) \<longleftrightarrow> numbered g k bs \<and> numbered g (k + length bs) cs"
  by (induction bs arbitrary: k) simp_all

text \<open>A range of the volume that a client may write.\<close>

definition free_range :: "uint64_t \<Rightarrow> Journal \<Rightarrow> nat \<Rightarrow> nat \<Rightarrow> bool" where
  "free_range vsize j p n \<longleftrightarrow> 4096 \<le> p \<and> p + n \<le> unat vsize \<and> (p + n \<le> journal_start j \<or> journal_end j \<le> p)"

lemma put_page_append: "put_page (p + length xs) ys (put_page p xs f) = put_page p (xs @ ys) f"
  by (auto simp: fun_eq_iff put_page_def nth_append)

lemma put_page_Nil [simp]: "put_page p [] f = f"
  by (auto simp: fun_eq_iff put_page_def)

lemma Write_loop_ok:
  assumes "geom vsize j" "length gid = GuidSize" "length page < 4294967296"
    and "off \<le> length page" "free_range vsize j (unat pos) (length page - off)" "off < length page \<Longrightarrow> unat pos mod 512 = 0"
  shows "\<exists>bs. Write_loop gid page pos off (of_nat k) acc [] = (Success, acc @ bs, []) \<and> list_all (valid_data vsize j) bs \<and>
    numbered gid k bs \<and> apart bs \<and> length bs \<le> (length page - off + 3583) div 3584 \<and> (off < length page \<longrightarrow> bs \<noteq> []) \<and>
    (\<forall>b \<in> set bs. unat pos \<le> block_pos b) \<and> (\<forall>f. apply_blocks bs f = put_page (unat pos) (drop off page) f)"
  using assms(4-)
proof (induction "length page - off" arbitrary: pos off k acc rule: less_induct)
  case less
  show ?case
  proof (cases "off < length page")
    case False
    then show ?thesis using less.prems(1) by (simp add: Write_loop.simps)
  next
    case True
    define n where "n = min 3584 (length page - off)"
    have n: "0 < n" "n \<le> 3584" "off + n \<le> length page" using True by (auto simp: n_def)
    define b where "b = TxData gid (of_nat k) (of_nat n) pos (take n (drop off page) @ replicate (TxDataSize - n) 0)"
    note R = less.prems(2) [unfolded free_range_def]
    have u: "unat (of_nat n :: uint32_t) = n" using n(2) by (simp add: unat_of_nat take_bit_nat_eq_self)
    have v: "unat vsize < 9223372036854775808" using geomD(4) [OF assms(1)] .
    have "unat (of_nat n :: uint64_t) = n" using n(2) by (intro unat_of_nat_64) simp
    moreover have "unat pos + n < 18446744073709551616" using R v n by linarith
    ultimately have p: "unat (pos + of_nat n) = unat pos + n" by (simp add: unat_word_ariths)
    have pr: "Page_Read page ((TxDataSize div 512) * 512) off = (take n (drop off page), n)"
      using True by (simp add: Page_Read_def TxDataSize_def Memory_Utils.Min_def n_def min_def Let_def)
    have al: "pos AND 511 = 0" using less.prems(3) [OF True] by (simp add: and_511)
    have step: "Write_loop gid page pos off (of_nat k) acc [] =
        Write_loop gid page (pos + of_nat n) (off + n) (of_nat (Suc k)) (acc @ [b]) []"
      using True al pr by (simp add: Write_loop.simps [of gid page pos off] b_def TxDataSize_def add.commute)
    have bb: "block_pos b = unat pos" "block_bytes b = take n (drop off page)" "length (block_bytes b) = n"
      using u n(3) by (simp_all add: b_def block_pos_def block_bytes_def)
    have chk: "CheckPosition vsize j pos (ucast (of_nat n :: uint32_t)) = Success"
      using CheckPosition_iff [OF assms(1), of "ucast (of_nat n :: uint32_t)" pos] R n less.prems(3) [OF True]
      by (auto simp: unat_ucast_32 u)
    have vb: "valid_data vsize j b"
      using chk u n assms(2) by (simp add: b_def valid_data_def TxDataSize_def)
    have "free_range vsize j (unat (pos + of_nat n)) (length page - (off + n))" using R n by (auto simp: free_range_def p)
    moreover have "unat (pos + of_nat n) mod 512 = 0" if "off + n < length page"
    proof -
      have "n = 3584" using that by (auto simp: n_def)
      then show ?thesis using less.prems(3) [OF True] p by (simp add: mod_add_eq [symmetric])
    qed
    moreover have "length page - (off + n) < length page - off" using True n by linarith
    ultimately obtain bs where
      I: "Write_loop gid page (pos + of_nat n) (off + n) (of_nat (Suc k)) (acc @ [b]) [] = (Success, (acc @ [b]) @ bs, [])"
      "list_all (valid_data vsize j) bs" "numbered gid (Suc k) bs" "apart bs" "length bs \<le> (length page - (off + n) + 3583) div 3584"
      "\<And>x. x \<in> set bs \<Longrightarrow> unat pos + n \<le> block_pos x" "\<And>f. apply_blocks bs f = put_page (unat pos + n) (drop (off + n) page) f"
      using less.hyps [of "off + n" "pos + of_nat n" "Suc k" "acc @ [b]"] n(3) p by auto
    have "apart (b # bs)" using I(4,6) bb by (auto simp: list_all_iff apart_blocks_def)
    moreover have "apply_blocks (b # bs) f = put_page (unat pos) (drop off page) f" for f
      using put_page_append [of "unat pos" "take n (drop off page)" "drop (off + n) page" f] bb n(3)
      by (simp add: I(7) put_block_def add.commute) (metis append_take_drop_id drop_drop add.commute)
    moreover have "\<forall>x \<in> set (b # bs). unat pos \<le> block_pos x" using I(6) bb(1) by fastforce
    moreover have "length (b # bs) \<le> (length page - off + 3583) div 3584"
      using I(5) n True by (auto simp: n_def min_def split: if_splits)
    ultimately show ?thesis using step I vb True
      by (intro exI [of _ "b # bs"]) (auto simp: b_def)
  qed
qed

lemma Write_ok:
  assumes g: "geom vsize j" and t: "txState (Txs j t) = JournalTxStateNew" "length (txId (Txs j t)) = GuidSize"
    and page: "0 < length page" "length page < 4294967296"
    and c: "CheckPosition vsize j position (of_nat (length page)) = Success"
  shows "\<exists>bs. Write vsize t page position [] j =
      (Success, upd_tx t ((Txs j t)\<lparr>DataBlockList := DataBlockList (Txs j t) @ bs\<rparr>) j, []) \<and>
    bs \<noteq> [] \<and> list_all (valid_data vsize j) bs \<and> numbered (txId (Txs j t)) (length (DataBlockList (Txs j t))) bs \<and> apart bs \<and>
    length bs \<le> (length page + 3583) div 3584 \<and> (\<forall>f. apply_blocks bs f = put_page (unat position) page f)"
proof -
  have u: "unat (of_nat (length page) :: uint64_t) = length page" using page(2) by (intro unat_of_nat_64) simp
  have "free_range vsize j (unat position) (length page)" "unat position mod 512 = 0"
    using CheckPosition_iff [OF g, of "of_nat (length page)" position] c u page by (auto simp: free_range_def)
  then obtain bs where
    "Write_loop (txId (Txs j t)) page position 0 (of_nat (length (DataBlockList (Txs j t)))) [] [] = (Success, bs, [])"
    "list_all (valid_data vsize j) bs" "numbered (txId (Txs j t)) (length (DataBlockList (Txs j t))) bs" "apart bs" "bs \<noteq> []"
    "length bs \<le> (length page + 3583) div 3584"
    "\<And>f. apply_blocks bs f = put_page (unat position) page f"
    using Write_loop_ok [OF g t(2) page(2), of 0 position "length (DataBlockList (Txs j t))" "[]"] page(1) by auto
  then show ?thesis using t(1) c by (intro exI [of _ bs]) (simp add: Write_def Let_def)
qed

section \<open>Applying a logged transaction\<close>

lemma live_valid: "log_inv view crash vsize j rb0 gone live S d \<Longrightarrow> x \<in> set live \<Longrightarrow> valid_tx vsize j x"
  by (simp add: log_inv_def list_all_iff)

context block_layer
begin

text \<open>Applying without a barrier: the blocks are visible, and a power failure leaves any part of them.\<close>

lemma ApplyBlocks_lazy:
  assumes rel: "reliable io" and v: "list_all (valid_data vsize j) bs" and ap: "apart bs" and junk: "length junk = PageSize"
  shows "\<exists>d'. ApplyBlocks io vsize junk j bs False [] d = Some (Success, [], d') \<and> view d' = apply_blocks bs (view d) \<and>
    (\<forall>c \<in> crash d'. \<exists>c0 \<in> crash d. \<forall>p. (\<forall>b \<in> set bs. \<not> covers b p) \<longrightarrow> c p = c0 p)"
proof (cases "bs = []")
  case True
  then show ?thesis
    by (intro exI [of _ d]) (auto simp: ApplyBlocks_def BioList_def SubmitWaitResult_def SubmitWait_def)
next
  case False
  let ?r = "map data_bio bs"
  have vb: "valid_data vsize j c" if "c \<in> set bs" for c using v that by (simp add: list_all_iff)
  have w: "written_by ?r p \<longleftrightarrow> (\<exists>b \<in> set bs. covers b p)" for p
    using data_bio_range [OF vb] by (auto simp: written_by_def list_ex_iff)
  obtain cs d' where i: "io ?r d = (cs, d')" by fastforce
  have ok: "all_ok cs" using rel i unfolding reliable_def by (metis fst_conv)
  have "view d' p = apply_blocks bs (view d) p" for p
  proof (cases "\<exists>b \<in> set bs. covers b p")
    case True
    with view_write [OF i ok, of p] w obtain b where "b \<in> set bs" "in_bio (data_bio b) p" "view d' p = bio_byte (data_bio b) p"
      by auto
    then show ?thesis using data_bio_range [OF vb] apply_blocks_covered [OF ap, of b p] by simp
  next
    case False
    then show ?thesis using view_frame [of ?r p d] i w apply_blocks_frame [of bs p] by auto
  qed
  moreover have "\<exists>c0 \<in> crash d. \<forall>p. (\<forall>b \<in> set bs. \<not> covers b p) \<longrightarrow> c p = c0 p" if "c \<in> crash d'" for c
    using crash_frame [of c ?r d] i that w by auto
  moreover have "PostEndIo cs Success = Success" using ok by (simp add: PostEndIo_ok)
  then have "ApplyBlocks io vsize junk j bs False [] d = Some (Success, [], d')"
    using ApplyBlocks_add_ok [OF v junk, of BioList] False i
    by (simp add: ApplyBlocks_def SubmitWaitResult_def SubmitWait_def Submit_wait_def BioList_def Let_def)
  ultimately show ?thesis by blast
qed

text \<open>
  Applying a transaction that the log holds keeps the log and the committed content, whatever the order in which the
  transactions are applied.
\<close>

lemma apply_keeps_log:
  assumes inv: "log_inv view crash vsize j rb0 gone live S d" and x: "(g0, bs, t) \<in> set live"
    and d': "view d' = apply_blocks bs (view d)"
      "\<And>c. c \<in> crash d' \<Longrightarrow> \<exists>c0 \<in> crash d. \<forall>p. (\<forall>b \<in> set bs. \<not> covers b p) \<longrightarrow> c p = c0 p"
  shows "log_inv view crash vsize j rb0 gone live S d'"
proof -
  note I = inv [unfolded log_inv_def]
  have g: "geom vsize j" using I by blast
  have "valid_tx vsize j (g0, bs, t)" using live_valid [OF inv x] .
  then have out: "p < journal_start j \<or> journal_end j \<le> p" if "b \<in> set bs" "covers b p" for b p
    using that valid_data_outside [OF g, of b p] by (simp add: list_all_iff)
  have cr: "on_medium j rb0 (gone @ live) c \<and> outside j (apply_txs (gone @ live) c) S" if c: "c \<in> crash d'" for c
  proof -
    obtain c0 where c0: "c0 \<in> crash d" "\<And>p. (\<forall>b \<in> set bs. \<not> covers b p) \<Longrightarrow> c p = c0 p" using d'(2) [OF c] by blast
    have m: "on_medium j rb0 (gone @ live) c0" "outside j (apply_txs (gone @ live) c0) S" using I c0(1) by blast+
    have in_j: "c p = c0 p" if "journal_start j \<le> p" "p < journal_end j" for p
    proof (rule c0(2), intro ballI notI)
      fix b assume "b \<in> set bs" "covers b p"
      then show False using out that by fastforce
    qed
    have "apply_txs (gone @ live) c p = apply_txs (gone @ live) c0 p" for p
      using apply_txs_covered_any [of g0 bs t "gone @ live" _ p c c0] apply_txs_cong [of c p c0] c0(2) [of p] x by auto
    moreover have "page_at c (journal_start j) = page_at c0 (journal_start j)"
      using in_j geomD(2) [OF g] by (intro page_at_cong) (auto simp: journal_start_def journal_end_def PageSize_def)
    moreover have "holds c j (slots rb0) (log_of (gone @ live))"
    proof (rule holds_cong [OF g])
      show "holds c0 j (slots rb0) (log_of (gone @ live))" using m(1) unfolding on_medium_def by blast
    qed (use in_j in auto)
    ultimately show ?thesis using m by (simp add: on_medium_def outside_def)
  qed
  have "apply_txs live (view d') p = apply_txs live (view d) p" for p
  proof (cases "\<exists>b \<in> set bs. covers b p")
    case True
    then show ?thesis using apply_txs_covered_any [OF x] by blast
  next
    case False
    then show ?thesis using d'(1) apply_blocks_frame [of bs p] apply_txs_cong by metis
  qed
  then show ?thesis using I cr by (simp add: log_inv_def outside_def)
qed

lemma Commit_finish_ok:
  assumes rel: "reliable io" and junk: "length junk = PageSize" and inv: "log_inv view crash vsize j rb0 gone live S d"
    and t: "CommitResult (Txs j t) = Success" "txState (Txs j t) = JournalTxStateCommited" and x: "ltx_of (Txs j t) \<in> set live"
  shows "\<exists>j' d'. Commit_finish io vsize junk t [] d j = Some (Success, j', [], d') \<and>
    view d' = apply_blocks (DataBlockList (Txs j t)) (view d) \<and> log_inv view crash vsize j' rb0 gone live S d' \<and>
    (j' = j \<or> j' = j\<lparr>TxToErase := TxToErase j @ [t]\<rparr>)"
proof -
  let ?bs = "DataBlockList (Txs j t)"
  have x': "(txId (Txs j t), ?bs, 0) \<in> set live" using x by (simp add: ltx_of_def)
  have v: "valid_tx vsize j (txId (Txs j t), ?bs, 0)" using live_valid [OF inv x'] .
  then obtain d' where d': "ApplyBlocks io vsize junk j ?bs False [] d = Some (Success, [], d')"
    "view d' = apply_blocks ?bs (view d)"
    "\<And>c. c \<in> crash d' \<Longrightarrow> \<exists>c0 \<in> crash d. \<forall>p. (\<forall>b \<in> set ?bs. \<not> covers b p) \<longrightarrow> c p = c0 p"
    using ApplyBlocks_lazy [OF rel _ _ junk, of vsize j ?bs d] by auto
  obtain u ex where "Lookup_key guid_hash TxBuckets (txId (Txs j t)) (TxTable j) = (u, ex)" by fastforce
  then obtain e j' where e: "EraseTx t [] j = (e, j', [])" "j' = j \<or> j' = j\<lparr>TxToErase := TxToErase j @ [t]\<rparr>"
    by (cases "ex \<and> u = t") (auto simp: EraseTx_def)
  have "log_inv view crash vsize j rb0 gone live S d'" using apply_keeps_log [OF inv x' d'(2,3)] .
  moreover have "jStart j' = jStart j" "jSize j' = jSize j" "LogRb j' = LogRb j" using e(2) by auto
  note log_inv_cong [OF this, of view crash vsize rb0 gone live S d']
  ultimately have "log_inv view crash vsize j' rb0 gone live S d'" by simp
  then show ?thesis using d' e t by (simp add: Commit_finish_def)
qed

end

section \<open>Formatting\<close>

context block_layer
begin

lemma Format_ok:
  assumes rel: "reliable io" and junk: "length junk = PageSize" and new: "jState j = JournalStateNew"
    and g: "geom vsize (j\<lparr>jStart := start, jSize := n\<rparr>)"
  shows "\<exists>d'. Format io h junk start n [] d j = (Success, j\<lparr>jStart := start, jSize := n\<rparr>, [], d') \<and>
    view d' = put_page (unat start * 4096) (header_image n \<lparr>StartIndex = 0, EndIndex = 0, Size = 0, Capacity = n - 1\<rparr>) (view d) \<and>
    crash d' \<subseteq> {view d'}"
proof -
  let ?rb = "\<lparr>StartIndex = 0, EndIndex = 0, Size = 0, Capacity = n - 1\<rparr>"
  have u: "unat (start * BlockSize) = unat start * 4096" using geom_unat(1) [OF g] by (simp add: journal_start_def)
  then have al: "(start * BlockSize) AND 511 = 0" by (simp add: and_511)
  have h: "header_page h n 0 0 0 (n - 1) junk = header_image n ?rb" using header_page_image [OF junk, of h n ?rb] by simp
  from write_page_reliable [OF rel al length_header_image, of n ?rb d] obtain page' d' where
    w: "SubmitWaitResult_page io (header_image n ?rb) (start * BlockSize) True True [] d = (Success, page', [], d')" by blast
  have "\<not> n \<le> 1" using geomD(2) [OF g] by (simp add: word_le_nat_alt)
  then have "Format io h junk start n [] d j = (Success, j\<lparr>jStart := start, jSize := n\<rparr>, [], d')"
    using w h new by (simp add: Format_def Page_Create_def)
  then show ?thesis using write_page [OF w length_header_image] u by auto
qed

end

section \<open>Properties\<close>

text \<open>
  The position test of the journal accepts exactly the ranges a client may touch: aligned to sectors,
  behind the first block, inside the volume and apart from the journal; no sum in it wraps around.
\<close>

theorem journal_check_position:
  assumes "geom vsize j" "unat n < 4294967296"
  shows "CheckPosition vsize j p n = Success \<longleftrightarrow>
    unat p mod 512 = 0 \<and> 4096 \<le> unat p \<and> unat p < unat vsize \<and> unat p + unat n \<le> unat vsize \<and>
    (unat n = 0 \<or> unat p + unat n \<le> journal_start j \<or> journal_end j \<le> unat p)"
  using CheckPosition_iff [OF assms] .

theorem journal_check_position_witness:
  "CheckPosition sample_vsize sample_journal 131072 512 = Success \<and> CheckPosition sample_vsize sample_journal 65536 8192 \<noteq> Success"
  using journal_check_position [OF sample_geom, of 512 131072] journal_check_position [OF sample_geom, of 8192 65536]
  by (simp add: sample_vsize_def journal_start_def journal_end_def sample_journal_def)

text \<open>
  Claim C10. Loading replays the log: the complete transactions at its front are applied in order, the loaded journal
  runs, and when the log holds nothing else it is empty. When the first block behind them is corrupt, loading still
  succeeds; nothing of that block and of what follows is applied, and the slots behind it stay in the ring.
\<close>

theorem journal_load_replays:
  assumes layer: "block_layer io view crash crash_in" "reliable io" and junk: "length junk = PageSize" "length junk' = PageSize"
    and new: "jState j = JournalStateNew" and rb: "Reset s e k (n - 1) = Some rb"
    and g: "geom vsize (j\<lparr>LogRb := rb, jStart := start, jSize := n\<rparr>)"
    and header: "page_at (view d) (unat start * 4096) = header_page h' n s e k (n - 1) junk'"
    and log: "slots rb = ss @ rest" "holds (view d) (j\<lparr>LogRb := rb, jStart := start, jSize := n\<rparr>) ss (concat (map tx_log txs))"
      "list_all (valid_tx vsize (j\<lparr>LogRb := rb, jStart := start, jSize := n\<rparr>)) txs"
    and stop: "rest = [] \<or> (\<exists>t rest'. rest = t # rest' \<and> unat t + 1 < unat n \<and>
      (\<forall>v. (\<forall>p. unat start * 4096 \<le> p \<and> p < (unat start + unat n) * 4096 \<longrightarrow> v p = view d p) \<longrightarrow>
         fst (ReadTxBlockComplete h (page_at v ((unat start + 1 + unat t) * 4096))) = DataCorrupt))"
  shows "\<exists>j2 d'. Load io h vsize junk start [] d j = Some (Success, j2, [], d') \<and> jState j2 = JournalStateRunning \<and>
    TxThread j2 = Some True \<and> slots (LogRb j2) = tl rest \<and> view d' = apply_txs txs (view d)"
proof -
  from block_layer.Load_ok [OF layer junk new rb g header log stop] obtain j2 d' where
    "Load io h vsize junk start [] d j = Some (Success, j2, [], d')" "jState j2 = JournalStateRunning" "TxThread j2 = Some True"
    "slots (LogRb j2) = tl rest" "view d' = apply_txs txs (view d)" by blast
  then show ?thesis by blast
qed

text \<open>A medium given by its pages, and one with a log of one transaction.\<close>

definition paged :: "bytes list \<Rightarrow> nat \<Rightarrow> byte_t" where
  "paged ps p = (if p div 4096 < length ps then ps ! (p div 4096) ! (p mod 4096) else 0)"

lemma page_at_paged: "k < length ps \<Longrightarrow> length (ps ! k) = PageSize \<Longrightarrow> page_at (paged ps) (k * 4096) = ps ! k"
  by (rule nth_equalityI) (auto simp: page_at_def paged_def PageSize_def)

definition logged_rb :: "size_t \<Rightarrow> RingBuffer" where
  "logged_rb n = \<lparr>StartIndex = 0, EndIndex = n, Size = n, Capacity = 15\<rparr>"

definition logged_disk :: "size_t \<Rightarrow> TxBlock list \<Rightarrow> disk" where
  "logged_disk n bs = \<lparr>medium = paged ([replicate PageSize 0, header_image 16 (logged_rb n)] @ map on_disk bs), cache = [], faults = []\<rparr>"

lemma logged_header: "page_at (disk_view (logged_disk n bs)) (unat (1::uint64_t) * 4096) =
    header_page LittleEndian 16 0 n n (16 - 1) (replicate PageSize 0)"
  using page_at_paged [of 1 "[replicate PageSize 0, header_image 16 (logged_rb n)] @ map on_disk bs"]
  by (simp add: logged_disk_def disk_view_def header_image_def logged_rb_def header_page_length)

lemma logged_block:
  assumes "i < length bs" "wf_block (bs ! i)"
  shows "page_at (disk_view (logged_disk n bs)) ((i + 2) * 4096) = on_disk (bs ! i)"
  using page_at_paged [of "i + 2" "[replicate PageSize 0, header_image 16 (logged_rb n)] @ map on_disk bs"] assms
  by (simp add: logged_disk_def disk_view_def nth_append length_on_disk)

lemma logged_slots: "slots (logged_rb 2) = [0, 1]" "slots (logged_rb 3) = [0, 1, 2]"
  "Reset 0 2 2 (16 - 1) = Some (logged_rb 2)" "Reset 0 3 3 (16 - 1) = Some (logged_rb 3)"
  by (simp_all add: logged_rb_def slots_def slots_from_def upt_conv_Cons Reset_def)

theorem journal_load_replays_witness:
  "\<exists>j2 d'. Load good_disk_io BigEndian sample_vsize (replicate PageSize 0) 1 [] (logged_disk 3 (tx_log (ltx_of sample_tx)))
       (make_Journal sample_rb) = Some (Success, j2, [], d') \<and>
     disk_view d' = apply_txs [ltx_of sample_tx] (disk_view (logged_disk 3 (tx_log (ltx_of sample_tx))))"
proof -
  let ?bs = "tx_log (ltx_of sample_tx)"
  let ?j = "(make_Journal sample_rb)\<lparr>LogRb := logged_rb 3, jStart := 1, jSize := 16\<rparr>"
  have s: "jStart ?j = jStart sample_journal" "jSize ?j = jSize sample_journal" by (simp_all add: sample_journal_def)
  have v: "valid_tx sample_vsize ?j (ltx_of sample_tx)" "geom sample_vsize ?j"
    using sample_valid sample_geom place_cong [OF s] by simp_all
  have wf: "list_all wf_block ?bs" using wf_log_of [of sample_vsize ?j "[ltx_of sample_tx]"] v(1) by simp
  have l: "length ?bs = 3" by (simp add: ltx_of_def sample_tx_def)
  have "holds (disk_view (logged_disk 3 ?bs)) ?j [0, 1, 2] ?bs"
    unfolding holds_def list_all2_conv_all_nth
  proof (intro conjI allI impI)
    fix i assume i: "i < length [0, 1, 2::size_t]"
    then have "i = 0 \<or> i = 1 \<or> i = 2" by auto
    then have e: "unat ([0, 1, 2::size_t] ! i) = i" by auto
    show "unat ([0, 1, 2::size_t] ! i) + 1 < unat (jSize ?j)" using i by (simp add: e)
    show "wf_block (?bs ! i)" using wf i l by (simp add: list_all_length)
    then show "page_at (disk_view (logged_disk 3 ?bs)) (slot_pos ?j ([0, 1, 2] ! i)) = on_disk (?bs ! i)"
      using logged_block [of i ?bs 3] i l by (simp add: slot_pos_def e add.commute)
  qed (use l in simp)
  then have h: "holds (disk_view (logged_disk 3 ?bs)) ?j [0, 1, 2] (concat (map tx_log [ltx_of sample_tx]))" by simp
  have "slots (logged_rb 3) = [0, 1, 2] @ []" "jState (make_Journal sample_rb) = JournalStateNew"
    by (simp_all add: logged_slots make_Journal_def)
  from journal_load_replays [OF good.block_layer_axioms reliable_good_disk _ _ this(2) logged_slots(4) v(2) logged_header this(1) h,
      of "replicate PageSize 0" BigEndian] v(1)
  show ?thesis by (auto simp del: tx_log.simps)
qed



text \<open>
  A formatted journal can be loaded, on a host of either byte order: the result runs with an empty log, the
  invariant of the log holds with the content of the device as the committed content, and formatting has changed
  nothing outside the journal.
\<close>

theorem journal_format_load:
  assumes layer: "block_layer io view crash crash_in" "reliable io" and junk: "length junk = PageSize"
    and new: "jState j = JournalStateNew" "jState j0 = JournalStateNew" and g: "geom vsize (j\<lparr>jStart := start, jSize := n\<rparr>)"
  shows "\<exists>j1 d1 j2 d2. Format io h junk start n [] d j = (Success, j1, [], d1) \<and>
    Load io h' vsize junk start [] d1 j0 = Some (Success, j2, [], d2) \<and> jState j2 = JournalStateRunning \<and>
    slots (LogRb j2) = [] \<and> outside j2 (view d2) (view d) \<and>
    log_inv view crash vsize j2 \<lparr>StartIndex = 0, EndIndex = 0, Size = 0, Capacity = n - 1\<rparr> [] [] (view d2) d2"
proof -
  let ?j = "j\<lparr>jStart := start, jSize := n\<rparr>"
  let ?rb = "\<lparr>StartIndex = 0, EndIndex = 0, Size = 0, Capacity = n - 1\<rparr>"
  from block_layer.Format_ok [OF layer junk new(1) g, of h d] obtain d1 where
    f: "Format io h junk start n [] d j = (Success, ?j, [], d1)"
    "view d1 = put_page (unat start * 4096) (header_image n ?rb) (view d)" "crash d1 \<subseteq> {view d1}" by blast
  have "1 < unat n" using geomD(2) [OF g] by simp
  then have n: "0 < unat (n - 1)" by (simp add: unat_sub word_le_nat_alt)
  then have "ring_inv ?rb" "unat (Size ?rb) < unat (Capacity ?rb)" "Capacity ?rb = jSize ?j - 1" "slots ?rb = []"
    by (simp_all add: ring_inv_def word_less_nat_alt slots_def slots_from_def)
  moreover from this(4) have "on_medium ?j ?rb [] (view d1)"
    by (simp add: on_medium_def f(2) journal_start_def page_at_put_same holds_def)
  ultimately obtain j2 d2 where
    r: "Load io h' vsize junk start [] d1 j0 = Some (Success, j2, [], d2)" "jState j2 = JournalStateRunning"
    "jStart j2 = start" "jSize j2 = n" "view d2 = view d1" "log_inv view crash vsize j2 ?rb [] [] (view d2) d2"
    using block_layer.recover_inv [OF layer junk new(2) g _ _ _ _ _ f(3), of ?rb "[]" h'] by auto
  have "slots (LogRb j2) = []" using r(6) \<open>slots ?rb = []\<close> by (simp add: log_inv_def)
  moreover have "outside j2 (view d2) (view d)"
    using \<open>1 < unat n\<close> r(3-5) by (auto simp: outside_def f(2) put_page_def journal_start_def journal_end_def PageSize_def)
  ultimately show ?thesis using f r by blast
qed

theorem journal_format_load_witness:
  "\<exists>j1 d1 j2 d2. Format good_disk_io LittleEndian (replicate PageSize 0) 1 16 [] \<lparr>medium = (\<lambda>_. 5), cache = [], faults = []\<rparr>
       (make_Journal sample_rb) = (Success, j1, [], d1) \<and>
     Load good_disk_io BigEndian sample_vsize (replicate PageSize 0) 1 [] d1 (make_Journal sample_rb) = Some (Success, j2, [], d2) \<and>
     jState j2 = JournalStateRunning"
proof -
  have "geom sample_vsize ((make_Journal sample_rb)\<lparr>jStart := 1, jSize := 16\<rparr>)" by (simp add: geom_def sample_vsize_def)
  moreover have "jState (make_Journal sample_rb) = JournalStateNew" "length (replicate PageSize (0::byte_t)) = PageSize"
    by (simp_all add: make_Journal_def)
  ultimately show ?thesis
    using journal_format_load [OF good.block_layer_axioms reliable_good_disk, where junk = "replicate PageSize 0" and
        j = "make_Journal sample_rb" and ?j0.0 = "make_Journal sample_rb" and vsize = sample_vsize and start = 1 and n = 16 and
        h = LittleEndian and d = "\<lparr>medium = (\<lambda>_. 5), cache = [], faults = []\<rparr>" and h' = BigEndian]
    by blast
qed



text \<open>
  Claim C34. Applying a committed transaction keeps the log: \<open>Commit\<close> returns success, the blocks of the transaction are
  visible on the device, and the invariant of the log still holds, so that a power failure while the blocks are in the
  device's cache costs nothing.
\<close>

theorem journal_apply_keeps_log:
  assumes layer: "block_layer io view crash crash_in" "reliable io" and junk: "length junk = PageSize"
    and inv: "log_inv view crash vsize j rb0 gone live S d"
    and t: "CommitResult (Txs j t) = Success" "txState (Txs j t) = JournalTxStateCommited" and x: "ltx_of (Txs j t) \<in> set live"
  shows "\<exists>j' d'. Commit_finish io vsize junk t [] d j = Some (Success, j', [], d') \<and>
    view d' = apply_blocks (DataBlockList (Txs j t)) (view d) \<and> log_inv view crash vsize j' rb0 gone live S d'"
  using block_layer.Commit_finish_ok [OF layer junk inv t x] by blast

text \<open>The sample journal after its pass.\<close>

lemma sample_committed:
  "\<exists>j rb0 S d. log_inv disk_view disk_crash sample_vsize j rb0 [] [ltx_of sample_tx] S d \<and> CommitResult (Txs j 0) = Success \<and>
    txState (Txs j 0) = JournalTxStateCommited \<and> ltx_of (Txs j 0) = ltx_of sample_tx"
proof -
  have s: "TxToErase sample_journal = []" "TxList sample_journal = [0]" "Txs sample_journal = (\<lambda>_. sample_tx)"
    "batch sample_journal [0] = [ltx_of sample_tx]"
    by (simp_all add: sample_journal_def make_Journal_def batch_def)
  from good.pass_durable [OF reliable_good_disk sample_inv sample_fits _ s(1), of "replicate PageSize 0" LittleEndian] obtain j' d' where
    i: "log_inv disk_view disk_crash sample_vsize j' (LogRb j') [] [ltx_of sample_tx] (apply_txs [ltx_of sample_tx] (\<lambda>_. 0)) d'"
    and T: "\<forall>t. Txs j' t = (if t \<in> set (TxList sample_journal)
       then (Txs sample_journal t)\<lparr>txState := JournalTxStateCommited, IndexList := IndexList (Txs j' t), CommitResult := Success,
         CommitEvent := True\<rparr>
       else (Txs sample_journal t)\<lparr>IndexList := IndexList (Txs j' t)\<rparr>)" by (auto simp: s)
  have t: "Txs j' 0 = sample_tx\<lparr>txState := JournalTxStateCommited, IndexList := IndexList (Txs j' 0), CommitResult := Success,
      CommitEvent := True\<rparr>" using spec [OF T, of 0] by (simp add: s)
  have "CommitResult (Txs j' 0) = Success" "txState (Txs j' 0) = JournalTxStateCommited" "ltx_of (Txs j' 0) = ltx_of sample_tx"
    by (subst t, simp add: sample_tx_def ltx_of_def)+
  then show ?thesis using i by blast
qed

theorem journal_apply_keeps_log_witness:
  "\<exists>j d j' d'. Commit_finish good_disk_io sample_vsize (replicate PageSize 0) 0 [] d j = Some (Success, j', [], d') \<and>
     disk_view d' = apply_blocks (DataBlockList (Txs j 0)) (disk_view d)"
proof -
  from sample_committed obtain j rb0 S d where
    j: "log_inv disk_view disk_crash sample_vsize j rb0 [] [ltx_of sample_tx] S d" "CommitResult (Txs j 0) = Success"
    "txState (Txs j 0) = JournalTxStateCommited" "ltx_of (Txs j 0) \<in> set [ltx_of sample_tx]" by auto
  show ?thesis
    using journal_apply_keeps_log [OF good.block_layer_axioms reliable_good_disk length_replicate j] by blast
qed

end
