(* ===== verification/Vector.thy ===== *)
theory Vector
  imports Errors "HOL-Library.Multiset"
begin

text \<open>
  The growing array of \<^verbatim>\<open>src/core/vector.h\<close> and the random numbers of \<^verbatim>\<open>src/core/random.cpp\<close> that its shuffle draws.

  A vector is its array with all its places, used or not, and the number of used ones; the capacity is the
  length of the array. The content of fresh memory is a parameter \<open>junk\<close>. The random device is the stream
  \<open>rnd\<close> of the words it will deliver; \<open>None\<close> means that the code still waits for a word.
\<close>

unbundle bit_operations_syntax

section \<open>Random numbers\<close>

text \<open>The number of bits up to the highest one.\<close>

function Log2_loop :: "size_t \<Rightarrow> nat \<Rightarrow> nat" where
  "Log2_loop val result = (if val > 0 then Log2_loop (drop_bit 1 val) (result + 1) else result)"
  by pat_completeness auto
termination
proof (relation "measure (\<lambda>(val, result). unat val)")
  fix val :: size_t and result :: nat
  assume "val > 0"
  then have "0 < unat val" by (simp add: word_gt_0 unat_gt_0)
  then show "((drop_bit 1 val, result + 1), val, result) \<in> measure (\<lambda>(val, result). unat val)"
    by (simp add: unat_div drop_bit_Suc)
qed simp

declare Log2_loop.simps [simp del]

definition Log2 :: "size_t \<Rightarrow> nat" where
  "Log2 val = Log2_loop val 0"

fun GetSizeT_loop :: "size_t \<Rightarrow> nat \<Rightarrow> size_t list \<Rightarrow> (size_t \<times> size_t list) option" where
  "GetSizeT_loop upper log [] = None"
| "GetSizeT_loop upper log (r # rnd) =
     (let val = r AND (push_bit log 1 - 1)
      in if val < upper then Some (val, rnd) else GetSizeT_loop upper log rnd)"

definition GetSizeT :: "size_t \<Rightarrow> size_t list \<Rightarrow> (size_t \<times> size_t list) option" where
  "GetSizeT upper rnd =
     (if upper < 2 then Some (0, rnd)
      else if upper AND (upper - 1) = 0
      then (case rnd of [] \<Rightarrow> None | r # rnd \<Rightarrow> Some (r AND (upper - 1), rnd))
      else GetSizeT_loop upper (Log2 upper) rnd)"

section \<open>The vector\<close>

record 'a Vector =
  Arr :: "'a list"
  vecSize :: nat

definition vecCapacity :: "'a Vector \<Rightarrow> nat" where
  "vecCapacity v = length (Arr v)"

definition make_Vector :: "'a Vector" where
  "make_Vector = \<lparr>Arr = [], vecSize = 0\<rparr>"

text \<open>\<open>None\<close>: the assertion on the index fails.\<close>

definition vec_nth :: "'a Vector \<Rightarrow> nat \<Rightarrow> 'a option" where
  "vec_nth v index = guard (\<not> (index \<ge> vecSize v)) (Some (Arr v ! index))"

definition vec_set :: "nat \<Rightarrow> 'a \<Rightarrow> 'a Vector \<Rightarrow> 'a Vector option" where
  "vec_set index x v = guard (\<not> (index \<ge> vecSize v)) (Some (v\<lparr>Arr := (Arr v)[index := x]\<rparr>))"

definition Reserve :: "(nat \<Rightarrow> 'a) \<Rightarrow> nat \<Rightarrow> mem \<Rightarrow> 'a Vector \<Rightarrow> bool \<times> 'a Vector \<times> mem" where
  "Reserve junk capacity m v =
     (if capacity \<le> vecCapacity v then (True, v, m)
      else let (ok, m) = new m
      in if \<not> ok then (False, v, m)
      else (True, v\<lparr>Arr := take (vecSize v) (Arr v) @ map junk [vecSize v..<capacity]\<rparr>, m))"

definition ReserveAndUse :: "(nat \<Rightarrow> 'a) \<Rightarrow> nat \<Rightarrow> mem \<Rightarrow> 'a Vector \<Rightarrow> bool \<times> 'a Vector \<times> mem" where
  "ReserveAndUse junk capacity m v =
     (let (ok, v, m) = Reserve junk capacity m v
      in if \<not> ok then (False, v, m) else (True, v\<lparr>vecSize := vecCapacity v\<rparr>, m))"

definition Truncate :: "nat \<Rightarrow> 'a Vector \<Rightarrow> bool \<times> 'a Vector" where
  "Truncate size' v = (if size' > vecSize v then (False, v) else (True, v\<lparr>vecSize := size'\<rparr>))"

definition vec_PushBack :: "(nat \<Rightarrow> 'a) \<Rightarrow> 'a \<Rightarrow> mem \<Rightarrow> 'a Vector \<Rightarrow> bool \<times> 'a Vector \<times> mem" where
  "vec_PushBack junk x m v =
     (let (ok, v, m) = (if vecSize v = vecCapacity v then Reserve junk (2 * vecSize v + 1) m v else (True, v, m))
      in if \<not> ok then (False, v, m)
         else (True, \<lparr>Arr = (Arr v)[vecSize v := x], vecSize = vecSize v + 1\<rparr>, m))"

definition vec_Clear :: "'a Vector \<Rightarrow> 'a Vector" where
  "vec_Clear v = \<lparr>Arr = [], vecSize = 0\<rparr>"

text \<open>Move construction and assignment: the target and what is left in the source.\<close>

definition vec_move :: "'a Vector \<Rightarrow> 'a Vector \<times> 'a Vector" where
  "vec_move other = (other, \<lparr>Arr = [], vecSize = 0\<rparr>)"

text \<open>The shuffle exchanges each place, from the last to the second, with a random one before it or itself.\<close>

function Shuffle_loop :: "nat \<Rightarrow> 'a list \<Rightarrow> size_t list \<Rightarrow> ('a list \<times> size_t list) option" where
  "Shuffle_loop i xs rnd =
     (if i \<ge> 1 then
        case GetSizeT (of_nat (i + 1)) rnd of
          None \<Rightarrow> None
        | Some (j, rnd) \<Rightarrow> Shuffle_loop (i - 1) (xs[i := xs ! unat j, unat j := xs ! i]) rnd
      else Some (xs, rnd))"
  by pat_completeness auto
termination
  by (relation "measure (\<lambda>(i, xs, rnd). i)") auto

declare Shuffle_loop.simps [simp del]

definition Shuffle :: "size_t list \<Rightarrow> 'a Vector \<Rightarrow> ('a Vector \<times> size_t list) option" where
  "Shuffle rnd v =
     (if vecSize v < 2 then Some (v, rnd)
      else case Shuffle_loop (vecSize v - 1) (Arr v) rnd of
             None \<Rightarrow> None
           | Some (xs, rnd) \<Rightarrow> Some (v\<lparr>Arr := xs\<rparr>, rnd))"

section \<open>Random numbers are below their bound\<close>

lemma Log2_loop_add: "Log2_loop val result = result + Log2_loop val 0"
proof (induction "unat val" arbitrary: val result rule: less_induct)
  case less
  show ?case
  proof (cases "val > 0")
    case True
    then have "unat (drop_bit 1 val) < unat val"
      by (simp add: unat_div drop_bit_Suc word_gt_0 unat_gt_0)
    from less [OF this, of "result + 1"] less [OF this, of 1] True show ?thesis
      by (simp add: Log2_loop.simps [of val])
  qed (simp add: Log2_loop.simps)
qed

lemma Log2_step: "val > 0 \<Longrightarrow> Log2 val = Suc (Log2 (drop_bit 1 val))"
  using Log2_loop_add [of "drop_bit 1 val" 1] by (simp add: Log2_def Log2_loop.simps [of val])

lemma Log2_zero [simp]: "Log2 0 = 0"
  by (simp add: Log2_def Log2_loop.simps)

lemma Log2_bound: "unat val < 2 ^ Log2 val"
proof (induction "unat val" arbitrary: val rule: less_induct)
  case less
  show ?case
  proof (cases "val > 0")
    case True
    have h: "unat (drop_bit 1 val) = unat val div 2" by (simp add: unat_div drop_bit_Suc)
    have "0 < unat val" using True by (simp add: word_gt_0 unat_gt_0)
    then have "unat val div 2 < 2 ^ Log2 (drop_bit 1 val)" using less [of "drop_bit 1 val"] h by simp
    then show ?thesis using Log2_step [OF True] by simp
  qed (simp add: word_gt_0)
qed

lemma GetSizeT_loop_bound: "GetSizeT_loop upper log rnd = Some (j, rnd') \<Longrightarrow> j < upper"
  by (induction rnd) (auto simp: Let_def split: if_splits)

lemma unat_and_le: "unat (x AND y) \<le> unat (y::size_t)"
  by (metis and.commute word_and_le1 word_le_nat_alt)

lemma GetSizeT_bound:
  assumes "GetSizeT upper rnd = Some (j, rnd')" "0 < upper"
  shows "j < upper"
proof -
  have "r AND (upper - 1) < upper" for r
  proof -
    have "unat (r AND (upper - 1)) \<le> unat (upper - 1)" by (rule unat_and_le)
    also have "\<dots> < unat upper" using assms(2) by (simp add: unat_minus_one word_gt_0 unat_gt_0)
    finally show ?thesis by (simp add: word_less_nat_alt)
  qed
  then show ?thesis using assms GetSizeT_loop_bound [of upper "Log2 upper" rnd j rnd']
    by (auto simp: GetSizeT_def split: if_splits list.splits)
qed

section \<open>The sequence a vector stands for\<close>

definition vec_inv :: "'a Vector \<Rightarrow> bool" where
  "vec_inv v \<longleftrightarrow> vecSize v \<le> vecCapacity v"

definition elems :: "'a Vector \<Rightarrow> 'a list" where
  "elems v = take (vecSize v) (Arr v)"

lemma length_elems [simp]: "vec_inv v \<Longrightarrow> length (elems v) = vecSize v"
  by (simp add: elems_def vec_inv_def vecCapacity_def)

lemma make_Vector_ok [simp]: "vec_inv make_Vector" "elems make_Vector = []" "vecCapacity make_Vector = 0"
  "vecSize make_Vector = 0"
  by (simp_all add: vec_inv_def make_Vector_def elems_def vecCapacity_def)

lemma Reserve_ok:
  assumes inv: "vec_inv v" and r: "Reserve junk c m v = (ok, v', m')"
  shows "vec_inv v' \<and> vecSize v' = vecSize v \<and> elems v' = elems v \<and> (\<not> ok \<longrightarrow> v' = v \<and> \<not> fst (new m)) \<and>
    (ok \<longrightarrow> vecCapacity v' = max c (vecCapacity v)) \<and> (ok \<and> vecCapacity v < c \<longrightarrow> Arr v' = elems v @ map junk [vecSize v..<c])"
proof (cases "c \<le> vecCapacity v \<or> \<not> fst (new m)")
  case True
  then show ?thesis using r inv by (auto simp: Reserve_def split: if_splits prod.splits)
next
  case False
  obtain m1 where n: "new m = (True, m1)" using False by (cases "new m") auto
  have l: "vecSize v \<le> length (Arr v)" using inv by (simp add: vec_inv_def vecCapacity_def)
  have "v' = v\<lparr>Arr := take (vecSize v) (Arr v) @ map junk [vecSize v..<c]\<rparr>" "ok" using r False n by (auto simp: Reserve_def)
  then show ?thesis using False l by (auto simp: vec_inv_def vecCapacity_def elems_def)
qed

lemma PushBack_vec_ok:
  assumes inv: "vec_inv v" and p: "vec_PushBack junk x m v = (ok, v', m')"
  shows "vec_inv v' \<and> elems v' = (if ok then elems v @ [x] else elems v) \<and> (\<not> ok \<longrightarrow> \<not> fst (new m)) \<and>
    (vecSize v < vecCapacity v \<longrightarrow> ok \<and> m' = m \<and> vecCapacity v' = vecCapacity v)"
proof -
  have set: "vec_inv w' \<and> elems w' = elems w @ [x] \<and> vecCapacity w' = vecCapacity w"
    if "vecSize w < vecCapacity w" "w' = \<lparr>Arr = (Arr w)[vecSize w := x], vecSize = vecSize w + 1\<rparr>" for w w' :: "'a Vector"
    using that by (simp add: vec_inv_def vecCapacity_def elems_def take_Suc_conv_app_nth)
  show ?thesis
  proof (cases "vecSize v = vecCapacity v")
    case False
    then have "vecSize v < vecCapacity v" using inv by (simp add: vec_inv_def)
    then show ?thesis using p set [of v v'] False by (auto simp: vec_PushBack_def)
  next
    case True
    obtain ok1 w m1 where r: "Reserve junk (2 * vecSize v + 1) m v = (ok1, w, m1)" by (cases "Reserve junk (2 * vecSize v + 1) m v") auto
    note R = Reserve_ok [OF inv r]
    show ?thesis
    proof (cases ok1)
      case False
      then show ?thesis using p r R True inv by (auto simp: vec_PushBack_def)
    next
      case ok: True
      then have "vecSize w < vecCapacity w" using R True by auto
      then show ?thesis using p r ok R True set [of w v'] by (auto simp: vec_PushBack_def)
    qed
  qed
qed

section \<open>Shuffling\<close>

lemma mset_swap_nth: "i < length xs \<Longrightarrow> j < length xs \<Longrightarrow> mset (xs[i := xs ! j, j := xs ! i]) = mset xs"
  using mset_swap [of j xs i] by simp

lemma Shuffle_loop_perm:
  assumes "i < n" "n \<le> length xs" "n < 18446744073709551615" "Shuffle_loop i xs rnd = Some (ys, rnd')"
  shows "length ys = length xs \<and> mset (take n ys) = mset (take n xs) \<and> drop n ys = drop n xs"
  using assms
proof (induction i xs rnd rule: Shuffle_loop.induct)
  case (1 i xs rnd)
  show ?case
  proof (cases "i \<ge> 1")
    case True
    then obtain j rnd1 where g: "GetSizeT (of_nat (i + 1)) rnd = Some (j, rnd1)"
      and s: "Shuffle_loop (i - 1) (xs[i := xs ! unat j, unat j := xs ! i]) rnd1 = Some (ys, rnd')"
      using 1(5) by (auto simp: Shuffle_loop.simps [of i xs rnd] split: option.splits)
    have u: "unat (of_nat (i + 1) :: size_t) = i + 1" using 1(2,4) by (intro unat_of_nat_64) simp
    then have "(0::size_t) < of_nat (i + 1)" by (simp add: word_less_nat_alt)
    from GetSizeT_bound [OF g this] have j: "unat j \<le> i" using u by (simp add: word_less_nat_alt)
    let ?zs = "xs[i := xs ! unat j, unat j := xs ! i]"
    from 1(1) [OF True g refl _ _ 1(4) s] 1(2,3) have
      IH: "length ys = length ?zs" "mset (take n ys) = mset (take n ?zs)" "drop n ys = drop n ?zs" by auto
    have "take n ?zs = (take n xs)[i := take n xs ! unat j, unat j := take n xs ! i]"
      using j 1(2,3) by (simp add: take_update_swap)
    then have "mset (take n ?zs) = mset (take n xs)"
      using mset_swap_nth [of i "take n xs" "unat j"] j 1(2,3) by simp
    moreover have "drop n ?zs = drop n xs" using j 1(2) by (simp add: drop_update_cancel)
    ultimately show ?thesis using IH by simp
  next
    case False
    then show ?thesis using 1(5) by (simp add: Shuffle_loop.simps)
  qed
qed

lemma Shuffle_perm:
  assumes "vec_inv v" "vecSize v < 18446744073709551615" "Shuffle rnd v = Some (v', rnd')"
  shows "vec_inv v' \<and> vecSize v' = vecSize v \<and> mset (elems v') = mset (elems v)"
proof (cases "vecSize v < 2")
  case True
  then show ?thesis using assms by (simp add: Shuffle_def)
next
  case False
  then obtain ys where s: "Shuffle_loop (vecSize v - 1) (Arr v) rnd = Some (ys, rnd')" "v' = v\<lparr>Arr := ys\<rparr>"
    using assms(3) by (auto simp: Shuffle_def split: option.splits)
  have "vecSize v - 1 < vecSize v" "vecSize v \<le> length (Arr v)" using False assms(1) by (auto simp: vec_inv_def vecCapacity_def)
  from Shuffle_loop_perm [OF this assms(2) s(1)] show ?thesis using s(2) assms(1)
    by (simp add: vec_inv_def vecCapacity_def elems_def)
qed

section \<open>Properties\<close>

text \<open>
  The vector is a sequence with amortised growth: appending adds the element at the end or, when the
  allocation fails, changes nothing; reserving keeps the content and, unless it fails, provides the capacity; truncating
  takes a prefix; and shuffling, whatever random words arrive, returns a permutation of the elements.
\<close>

theorem vector_sequence:
  assumes inv: "vec_inv v" and len: "vecSize v < 18446744073709551615"
  shows "(case vec_PushBack junk x m v of (ok, v', m') \<Rightarrow>
      vec_inv v' \<and> elems v' = (if ok then elems v @ [x] else elems v) \<and> (fst (new m) \<longrightarrow> ok)) \<and>
    (case Reserve junk c m v of (ok, v', m') \<Rightarrow>
      vec_inv v' \<and> elems v' = elems v \<and> (ok \<longrightarrow> c \<le> vecCapacity v') \<and> (fst (new m) \<longrightarrow> ok)) \<and>
    (n \<le> vecSize v \<longrightarrow> (\<exists>v'. Truncate n v = (True, v') \<and> vec_inv v' \<and> elems v' = take n (elems v))) \<and>
    (\<forall>v' rnd'. Shuffle rnd v = Some (v', rnd') \<longrightarrow> vec_inv v' \<and> mset (elems v') = mset (elems v))"
proof (intro conjI allI impI)
  show "case vec_PushBack junk x m v of (ok, v', m') \<Rightarrow>
      vec_inv v' \<and> elems v' = (if ok then elems v @ [x] else elems v) \<and> (fst (new m) \<longrightarrow> ok)"
    using PushBack_vec_ok [OF inv, of junk x m] by (cases "vec_PushBack junk x m v") auto
  show "case Reserve junk c m v of (ok, v', m') \<Rightarrow>
      vec_inv v' \<and> elems v' = elems v \<and> (ok \<longrightarrow> c \<le> vecCapacity v') \<and> (fst (new m) \<longrightarrow> ok)"
    using Reserve_ok [OF inv, of junk c m] by (cases "Reserve junk c m v") auto
  show "\<exists>v'. Truncate n v = (True, v') \<and> vec_inv v' \<and> elems v' = take n (elems v)" if "n \<le> vecSize v"
    using that inv by (auto simp: Truncate_def vec_inv_def elems_def vecCapacity_def min_def)
qed (use Shuffle_perm [OF inv len] in blast)+

theorem vector_sequence_witness:
  "(case vec_PushBack (\<lambda>_. 0) 7 [] \<lparr>Arr = [5, 6, 0, 0::nat], vecSize = 2\<rparr> of (ok, v', m') \<Rightarrow> ok \<and> elems v' = [5, 6, 7]) \<and>
   (case Shuffle [0] \<lparr>Arr = [5, 6, 0, 0::nat], vecSize = 2\<rparr> of None \<Rightarrow> False | Some (v', r) \<Rightarrow> mset (elems v') = {#5, 6#} \<and> elems v' = [6, 5])"
proof -
  let ?v = "\<lparr>Arr = [5, 6, 0, 0::nat], vecSize = 2\<rparr>"
  have inv: "vec_inv ?v" "vecSize ?v < 18446744073709551615" by (simp_all add: vec_inv_def vecCapacity_def)
  note t = vector_sequence [where v = ?v and junk = "\<lambda>_. 0" and x = 7 and m = "[]" and rnd = "[0]", OF inv]
  have s: "Shuffle [0] ?v = Some (\<lparr>Arr = [6, 5, 0, 0], vecSize = 2\<rparr>, [])"
    by (simp add: Shuffle_def Shuffle_loop.simps GetSizeT_def)
  show ?thesis using t s by (auto simp: elems_def split: prod.splits)
qed

end
