(* ===== verification/AString.thy ===== *)
theory AString
  imports Vector Memory_Utils Layout
begin

text \<open>
  The strings of \<^verbatim>\<open>src/core/astring.h\<close>: a vector of characters that ends with a zero. A \<open>char\<close> is a signed byte on the hosts of
  this module, so comparisons and the hash read it as one.
\<close>

unbundle bit_operations_syntax

section \<open>Operations\<close>

type_synonym astring = "byte_t Vector"

definition GetLen :: "astring \<Rightarrow> nat" where
  "GetLen b = (let size' = vecSize b in if size' = 0 then 0 else size' - 1)"

text \<open>The loop of the constructor over the characters in reach; \<open>None\<close> for the string when a character cannot be added.\<close>

fun AString_push :: "(nat \<Rightarrow> byte_t) \<Rightarrow> bytes \<Rightarrow> mem \<Rightarrow> astring \<Rightarrow> bool \<times> astring \<times> mem" where
  "AString_push junk [] m b = (True, b, m)"
| "AString_push junk (c # s) m b =
     (if c = 0 then (True, b, m)
      else let (ok, b, m) = vec_PushBack junk c m b in if \<not> ok then (False, vec_Clear b, m) else AString_push junk s m b)"

definition AString_len :: "(nat \<Rightarrow> byte_t) \<Rightarrow> bytes \<Rightarrow> nat \<Rightarrow> err \<Rightarrow> mem \<Rightarrow> err \<times> astring \<times> mem" where
  "AString_len junk s len err m =
     (if err \<noteq> Success then (err, make_Vector, m)
      else let (ok, b, m) = Reserve junk (len + 1) m make_Vector
      in if \<not> ok then (NoMemory, b, m)
      else let (ok, b, m) = AString_push junk (take len s) m b
      in if \<not> ok then (NoMemory, b, m)
      else let (ok, b, m) = vec_PushBack junk 0 m b
      in if \<not> ok then (NoMemory, vec_Clear b, m) else (Success, b, m))"

text \<open>From a zero-terminated string, and from another string; \<open>None\<close> when there is no zero in reach.\<close>

definition AString_cstr :: "(nat \<Rightarrow> byte_t) \<Rightarrow> bytes \<Rightarrow> err \<Rightarrow> mem \<Rightarrow> (err \<times> astring \<times> mem) option" where
  "AString_cstr junk s err m = (case StrLen s of None \<Rightarrow> None | Some n \<Rightarrow> Some (AString_len junk s n err m))"

definition AString_copy :: "(nat \<Rightarrow> byte_t) \<Rightarrow> astring \<Rightarrow> err \<Rightarrow> mem \<Rightarrow> (err \<times> astring \<times> mem) option" where
  "AString_copy junk b err m = AString_cstr junk (Arr b) err m"

definition AString_ReserveAndUse :: "(nat \<Rightarrow> byte_t) \<Rightarrow> nat \<Rightarrow> mem \<Rightarrow> astring \<Rightarrow> bool \<times> astring \<times> mem" where
  "AString_ReserveAndUse junk len m b = ReserveAndUse junk (len + 1) m b"

definition AString_Truncate :: "nat \<Rightarrow> astring \<Rightarrow> bool \<times> astring" where
  "AString_Truncate len b = Truncate (len + 1) b"

fun Compare_loop :: "bytes \<Rightarrow> bytes \<Rightarrow> nat \<Rightarrow> int" where
  "Compare_loop (x # xs) (y # ys) (Suc n) =
     (if sint x > sint y then 1 else if sint x < sint y then - 1 else Compare_loop xs ys n)"
| "Compare_loop xs ys n = 0"

definition AString_Compare :: "astring \<Rightarrow> astring \<Rightarrow> int" where
  "AString_Compare b other =
     (let len = GetLen b; otherLen = GetLen other
      in if len > otherLen then 1 else if len < otherLen then - 1 else Compare_loop (Arr b) (Arr other) len)"

fun Hash_loop :: "size_t \<Rightarrow> bytes \<Rightarrow> size_t" where
  "Hash_loop hash [] = hash"
| "Hash_loop hash (c # cs) = Hash_loop ((push_bit 5 hash + hash) + scast c) cs"

definition AString_Hash :: "astring \<Rightarrow> size_t" where
  "AString_Hash b = Hash_loop 5381 (take (GetLen b) (Arr b))"

definition AString_Append :: "(nat \<Rightarrow> byte_t) \<Rightarrow> astring \<Rightarrow> mem \<Rightarrow> astring \<Rightarrow> err \<times> astring \<times> mem" where
  "AString_Append junk other m b =
     (let otherLen = GetLen other; oldLen = GetLen b; newLen = oldLen + otherLen;
          (ok, b, m) = AString_ReserveAndUse junk newLen m b
      in if \<not> ok then (NoMemory, b, m)
      else let dst = put oldLen (take otherLen (Arr other)) (Arr b)
      in (Success, b\<lparr>Arr := dst[newLen := 0]\<rparr>, m))"

section \<open>The text of a string\<close>

definition astr :: "astring \<Rightarrow> bytes" where
  "astr b = take (GetLen b) (Arr b)"

text \<open>A string is empty memory or its text and a zero, which the text does not contain.\<close>

definition astr_ok :: "astring \<Rightarrow> bool" where
  "astr_ok b \<longleftrightarrow> vec_inv b \<and> (vecSize b \<noteq> 0 \<longrightarrow> Arr b ! GetLen b = 0) \<and> 0 \<notin> set (astr b)"

lemma length_astr: "vec_inv b \<Longrightarrow> length (astr b) = GetLen b"
  by (simp add: astr_def GetLen_def vec_inv_def vecCapacity_def Let_def)

lemma astr_elems:
  assumes "vec_inv b" "elems b = xs @ [0]" "0 \<notin> set xs"
  shows "astr_ok b" "astr b = xs"
proof -
  have n: "vecSize b = Suc (length xs)" using length_elems [OF assms(1)] assms(2) by simp
  then have e: "elems b = take (length xs) (Arr b) @ [Arr b ! length xs]"
    using assms(1) by (simp add: elems_def vec_inv_def vecCapacity_def take_Suc_conv_app_nth)
  show a: "astr b = xs" using e assms(2) n by (simp add: astr_def GetLen_def)
  show "astr_ok b" using e assms a n by (simp add: astr_ok_def GetLen_def)
qed

lemma AString_push_ok:
  assumes "vec_inv b" "length s + vecSize b < vecCapacity b"
  shows "\<exists>b'. AString_push junk s m b = (True, b', m) \<and> vec_inv b' \<and> elems b' = elems b @ takeWhile (\<lambda>c. c \<noteq> 0) s \<and> vecCapacity b' = vecCapacity b"
  using assms
proof (induction s arbitrary: b)
  case (Cons c s)
  show ?case
  proof (cases "c = 0")
    case False
    obtain ok b1 m1 where p: "vec_PushBack junk c m b = (ok, b1, m1)" by (cases "vec_PushBack junk c m b") auto
    from PushBack_vec_ok [OF Cons.prems(1) p] Cons.prems(2) have
      b1: "vec_inv b1" "ok" "m1 = m" "elems b1 = elems b @ [c]" "vecCapacity b1 = vecCapacity b" by auto
    have "vecSize b1 = Suc (vecSize b)" using length_elems [OF b1(1)] length_elems [OF Cons.prems(1)] b1(4) by simp
    then show ?thesis using Cons.IH [OF b1(1)] Cons.prems(2) b1 p False by auto
  qed (use Cons.prems in simp)
qed simp

lemma AString_len_ok:
  assumes "len \<le> length s"
  shows "\<exists>e b m'. AString_len junk s len Success m = (e, b, m') \<and> astr_ok b \<and>
    (if fst (new m) then e = Success \<and> astr b = takeWhile (\<lambda>c. c \<noteq> 0) (take len s) \<and> m' = snd (new m) else e = NoMemory \<and> b = make_Vector)"
proof -
  obtain ok b1 m1 where r: "Reserve junk (len + 1) m make_Vector = (ok, b1, m1)" by (cases "Reserve junk (len + 1) m make_Vector") auto
  note R = Reserve_ok [OF make_Vector_ok(1) r]
  have ok: "ok \<longleftrightarrow> fst (new m)" "m1 = snd (new m)" using r by (auto simp: Reserve_def split: prod.splits if_splits)
  have empty: "astr_ok make_Vector" by (simp add: astr_ok_def astr_def GetLen_def)
  show ?thesis
  proof (cases "fst (new m)")
    case False
    then show ?thesis using r ok R empty by (auto simp: AString_len_def NoMemory_def Success_def)
  next
    case True
    then have b1: "vec_inv b1" "elems b1 = []" "vecCapacity b1 = len + 1" "vecSize b1 = 0" "ok" using R ok by auto
    from AString_push_ok [OF b1(1), of "take len s" junk m1] b1 assms obtain b2 where
      b2: "AString_push junk (take len s) m1 b1 = (True, b2, m1)" "vec_inv b2" "elems b2 = takeWhile (\<lambda>c. c \<noteq> 0) (take len s)" "vecCapacity b2 = len + 1"
      by auto
    have "vecSize b2 \<le> len" using length_elems [OF b2(2)] b2(3) length_takeWhile_le [of "\<lambda>c. c \<noteq> 0" "take len s"] assms by simp
    moreover obtain ok3 b3 m3 where p: "vec_PushBack junk 0 m1 b2 = (ok3, b3, m3)" by (cases "vec_PushBack junk 0 m1 b2") auto
    ultimately have b3: "vec_inv b3" "ok3" "m3 = m1" "elems b3 = takeWhile (\<lambda>c. c \<noteq> 0) (take len s) @ [0]"
      using PushBack_vec_ok [OF b2(2) p] b2(3,4) by auto
    have "0 \<notin> set (takeWhile (\<lambda>c. c \<noteq> 0) (take len s))" by (auto dest: set_takeWhileD)
    from astr_elems [OF b3(1,4) this] show ?thesis using r b1(5) b2(1) p b3(2,3) True ok by (simp add: AString_len_def)
  qed
qed

lemma Compare_loop_zero: "n \<le> length xs \<Longrightarrow> n \<le> length ys \<Longrightarrow> Compare_loop xs ys n = 0 \<longleftrightarrow> take n xs = take n ys"
proof (induction xs ys n rule: Compare_loop.induct)
  case (1 x xs y ys n)
  have "sint x = sint y \<longleftrightarrow> x = y" by (metis word_eq_iff_signed)
  then show ?case using 1 by auto
qed auto

lemma AString_Compare_zero:
  assumes "vec_inv a" "vec_inv b"
  shows "AString_Compare a b = 0 \<longleftrightarrow> astr a = astr b"
proof (cases "GetLen a = GetLen b")
  case True
  have "GetLen a \<le> length (Arr a)" "GetLen b \<le> length (Arr b)" using assms by (auto simp: GetLen_def vec_inv_def vecCapacity_def Let_def)
  then show ?thesis using True Compare_loop_zero by (simp add: AString_Compare_def astr_def)
next
  case False
  then show ?thesis using length_astr [OF assms(1)] length_astr [OF assms(2)] by (auto simp: AString_Compare_def Let_def split: if_splits)
qed

lemma update_last: "length xs = Suc n \<Longrightarrow> xs[n := v] = take n xs @ [v]"
proof (induction xs arbitrary: n)
  case (Cons x xs)
  then show ?case by (cases n) auto
qed simp

lemma AString_Append_ok:
  assumes "astr_ok b" "astr_ok other" "vecCapacity b \<le> GetLen b + GetLen other + 1" "fst (new m)"
  shows "\<exists>b' m'. AString_Append junk other m b = (Success, b', m') \<and> astr_ok b' \<and> astr b' = astr b @ astr other"
proof -
  let ?n = "GetLen b + GetLen other"
  have inv: "vec_inv b" "vec_inv other" using assms by (simp_all add: astr_ok_def)
  obtain ok b1 m1 where r: "Reserve junk (?n + 1) m b = (ok, b1, m1)" by (cases "Reserve junk (?n + 1) m b") auto
  note R = Reserve_ok [OF inv(1) r]
  have ok: "ok" using R assms(4) by auto
  have c: "length (Arr b1) = ?n + 1" using R ok assms(3) by (simp add: vecCapacity_def max_def)
  have t: "take (GetLen b) (Arr b1) = astr b"
  proof -
    have "take (GetLen b) (elems b1) = take (GetLen b) (elems b)" using R by simp
    then show ?thesis using R by (simp add: elems_def astr_def GetLen_def Let_def min_def split: if_splits)
  qed
  have l: "length (astr b) = GetLen b" "length (astr other) = GetLen other" using length_astr inv by simp_all
  let ?dst = "put (GetLen b) (astr other) (Arr b1)"
  have "take ?n ?dst = astr b @ astr other" "length ?dst = ?n + 1" using c l t by (simp_all add: put_def)
  then have d: "?dst[?n := 0] = astr b @ astr other @ [0]" using update_last [of ?dst ?n] by simp
  let ?b = "b1\<lparr>Arr := astr b @ astr other @ [0], vecSize := ?n + 1\<rparr>"
  have "AString_Append junk other m b = (Success, ?b, m1)"
    using r ok c d by (simp add: AString_Append_def AString_ReserveAndUse_def ReserveAndUse_def vecCapacity_def Let_def astr_def [symmetric])
  moreover have "vec_inv ?b" "elems ?b = (astr b @ astr other) @ [0]" using l by (simp_all add: vec_inv_def vecCapacity_def elems_def)
  moreover have "0 \<notin> set (astr b @ astr other)" using assms(1,2) by (simp add: astr_ok_def)
  ultimately show ?thesis using astr_elems by blast
qed

section \<open>Properties\<close>

text \<open>
  A string made from memory holds exactly the characters before the first zero or the given length, and needs a single
  allocation: when that fails the string is empty and the error is reported. Two strings compare equal exactly when their texts are equal. Appending joins the
  texts, provided that the target has no spare capacity.
\<close>

theorem astring_text:
  assumes "len \<le> length s" "astr_ok a" "astr_ok b"
  shows "(\<exists>e x m'. AString_len junk s len Success m = (e, x, m') \<and> astr_ok x \<and>
      (if fst (new m) then e = Success \<and> astr x = takeWhile (\<lambda>c. c \<noteq> 0) (take len s) else e = NoMemory \<and> astr x = [])) \<and>
    (AString_Compare a b = 0 \<longleftrightarrow> astr a = astr b) \<and>
    (vecCapacity a \<le> GetLen a + GetLen b + 1 \<and> fst (new m) \<longrightarrow>
      (\<exists>x m'. AString_Append junk b m a = (Success, x, m') \<and> astr_ok x \<and> astr x = astr a @ astr b))"
proof -
  have "astr make_Vector = []" by (simp add: astr_def GetLen_def)
  then show ?thesis
    using AString_len_ok [OF assms(1), of junk m] AString_Compare_zero [of a b] AString_Append_ok [OF assms(2,3), of m junk] assms(2,3)
    by (auto simp: astr_ok_def split: if_splits)
qed

theorem astring_text_witness:
  "(\<exists>e x m'. AString_len (\<lambda>_. 0) [107, 115, 0, 9] 4 Success [] = (e, x, m') \<and> e = Success \<and> astr x = [107, 115]) \<and>
   (\<exists>x m'. AString_Append (\<lambda>_. 0) \<lparr>Arr = [98, 0], vecSize = 2\<rparr> [] \<lparr>Arr = [97, 0], vecSize = 2\<rparr> = (Success, x, m') \<and> astr x = [97, 98])"
proof -
  have ok: "astr_ok \<lparr>Arr = [97, 0], vecSize = 2\<rparr>" "astr_ok \<lparr>Arr = [98, 0], vecSize = 2\<rparr>"
    by (simp_all add: astr_ok_def vec_inv_def vecCapacity_def GetLen_def astr_def)
  have l: "4 \<le> length [107, 115, 0, 9 :: byte_t]" by simp
  show ?thesis using astring_text [OF l ok, of "\<lambda>_. 0" "[]"] by (auto simp: vecCapacity_def GetLen_def astr_def)
qed

end
