(* ===== verification/Volume.thy ===== *)
theory Volume
  imports Journal_Tx AString
begin

text \<open>
  The volume of \<^verbatim>\<open>src/kstor/volume.cpp\<close>: a block device with a header page, a journal behind it, and a table of
  chunks in memory. Chunks are shared objects, so the table holds places in a store of chunks, as it
  holds pointers in the code. The size of the device is a parameter \<open>devsize\<close>, as are the block layer
  \<open>io\<close> and the random device \<open>rng\<close>.
\<close>

definition VolumeMagic :: uint32_t where "VolumeMagic = 0xCBDACBDA"
definition ChunkSize :: nat where "ChunkSize = 65536"

definition VolumeStateNew :: uint32_t where "VolumeStateNew = 1"
definition VolumeStateRunning :: uint32_t where "VolumeStateRunning = 2"
definition VolumeStateStopping :: uint32_t where "VolumeStateStopping = 3"
definition VolumeStateStopped :: uint32_t where "VolumeStateStopped = 4"

lemmas volume_states = VolumeStateNew_def VolumeStateRunning_def VolumeStateStopping_def VolumeStateStopped_def

record Volume =
  DeviceName :: astring
  VolumeId :: guid
  ChunkTable :: "(guid, nat) HashTable"
  vSize :: uint64_t
  TxJournal :: Journal
  vState :: uint32_t
  Chunks :: "nat \<Rightarrow> bytes"
  NextChunk :: nat

definition ChunkBuckets :: nat where "ChunkBuckets = 512"

text \<open>
  The constructor: it copies the device name, and \<open>opened\<close> is what opening the block device reports. \<open>None\<close> when
  the name has no end.
\<close>

definition make_Volume :: "(nat \<Rightarrow> byte_t) \<Rightarrow> RingBuffer \<Rightarrow> astring \<Rightarrow> err \<Rightarrow> mem \<Rightarrow> (err \<times> Volume \<times> mem) option" where
  "make_Volume cell rb0 deviceName opened m =
     (case AString_copy cell deviceName Success m of
        None \<Rightarrow> None
      | Some (err, name, m) \<Rightarrow>
          (let v = \<lparr>DeviceName = name, VolumeId = Guid_default, ChunkTable = make_HashTable ChunkBuckets 0, vSize = 0,
                    TxJournal = make_Journal rb0, vState = VolumeStateNew, Chunks = (\<lambda>_. []), NextChunk = 0\<rparr>
           in Some (if err \<noteq> Success then err else opened, v, m)))"

section \<open>Header\<close>

text \<open>The header page that \<open>Format\<close> and \<open>Unload\<close> write.\<close>

definition volume_page :: "host \<Rightarrow> guid \<Rightarrow> uint64_t \<Rightarrow> uint64_t \<Rightarrow> bytes \<Rightarrow> bytes" where
  "volume_page h volumeId size' journalSize page =
     (let p = Page_Zero page;
          p = put32 h 0 (CpuToLe32 h VolumeMagic) p;
          p = put 16 volumeId p;
          p = put64 h 32 (CpuToLe64 h size') p;
          p = put64 h 40 (CpuToLe64 h journalSize) p
      in put HashOffset (Sum h (take HashOffset p)) p)"

text \<open>The checks of \<open>Load\<close>: the identifier, the size of the volume and that of its journal.\<close>

definition read_volume_header :: "host \<Rightarrow> uint64_t \<Rightarrow> bytes \<Rightarrow> err + (guid \<times> uint64_t \<times> uint64_t)" where
  "read_volume_header h devsize page =
     (if Le32ToCpu h (get32 h 0 page) \<noteq> VolumeMagic then Inl BadMagic
      else if \<not> ArrayEqual 8 (drop HashOffset page) (Sum h (take HashOffset page)) then Inl DataCorrupt
      else let size' = Le64ToCpu h (get64 h 32 page)
      in if size' mod BlockSize \<noteq> 0 then Inl BadSize
      else if size' = 0 \<or> size' \<noteq> devsize then Inl BadSize
      else Inr (take 16 (drop 16 page), size', Le64ToCpu h (get64 h 40 page)))"

section \<open>Format, load, unload\<close>

definition Volume_Format ::
  "'d block_io \<Rightarrow> host \<Rightarrow> uint64_t \<Rightarrow> err + bytes \<Rightarrow> bytes \<Rightarrow> mem \<Rightarrow> 'd \<Rightarrow> Volume \<Rightarrow> err \<times> Volume \<times> mem \<times> 'd" where
  "Volume_Format io h devsize rng junk m d v =
     (if vState v \<noteq> VolumeStateNew then (InvalidState, v, m, d)
      else if devsize = 0 \<or> devsize mod BlockSize \<noteq> 0 then (InvalidValue, v, m, d)
      else let v = v\<lparr>vSize := devsize\<rparr>;
               (e, j, m, d) = Journal.Format io h junk 1 ((devsize div 10) div BlockSize) m d (TxJournal v);
               v = v\<lparr>TxJournal := j\<rparr>
      in if e \<noteq> Success then (e, v, m, d)
      else let (e, m) = Page_Create m
      in if e \<noteq> Success then (e, v, m, d)
      else let v = v\<lparr>VolumeId := snd (Guid_Generate rng (VolumeId v))\<rparr>;
               page = volume_page h (VolumeId v) devsize (jSize (TxJournal v)) junk;
               (e, page, m, d) = SubmitWaitResult_page io page 0 True True m d
      in (e, v, m, d))"

definition Volume_Load ::
  "'d block_io \<Rightarrow> host \<Rightarrow> uint64_t \<Rightarrow> bytes \<Rightarrow> mem \<Rightarrow> 'd \<Rightarrow> Volume \<Rightarrow> (err \<times> Volume \<times> mem \<times> 'd) option" where
  "Volume_Load io h devsize junk m d v =
     (if vState v \<noteq> VolumeStateNew then Some (InvalidState, v, m, d)
      else let (e, m) = Page_Create m
      in if e \<noteq> Success then Some (e, v, m, d)
      else let (e, page, m, d) = SubmitWaitResult_page io junk 0 False False m d
      in if e \<noteq> Success then Some (e, v, m, d)
      else case read_volume_header h devsize page of
        Inl e \<Rightarrow> Some (e, v, m, d)
      | Inr (volumeId, size', journalSize) \<Rightarrow>
          (let v = v\<lparr>vSize := size'\<rparr>
           in case Journal.Load io h size' junk 1 m d (TxJournal v) of
                None \<Rightarrow> None
              | Some (e, j, m, d) \<Rightarrow>
                  (let v = v\<lparr>TxJournal := j\<rparr>
                   in if e \<noteq> Success then Some (e, v, m, d)
                      else if jSize j \<noteq> journalSize then Some (BadSize, v, m, d)
                      else Some (Success, v\<lparr>VolumeId := volumeId, vState := VolumeStateRunning\<rparr>, m, d))))"

definition Volume_Unload ::
  "'d block_io \<Rightarrow> host \<Rightarrow> bytes \<Rightarrow> mem \<Rightarrow> 'd \<Rightarrow> Volume \<Rightarrow> err \<times> Volume \<times> mem \<times> 'd" where
  "Volume_Unload io h junk m d v =
     (if vState v = VolumeStateStopped then (Success, v, m, d)
      else if vState v \<noteq> VolumeStateRunning then (InvalidState, v, m, d)
      else let v = v\<lparr>vState := VolumeStateStopping\<rparr>;
               (e, j, m, d) = Unload io h junk m d (TxJournal v);
               v = v\<lparr>TxJournal := j\<rparr>
      in if e \<noteq> Success then (e, v, m, d)
      else let (e, m) = Page_Create m
      in if e \<noteq> Success then (e, v, m, d)
      else let page = volume_page h (VolumeId v) (vSize v) (jSize (TxJournal v)) junk;
               (e, page, m, d) = SubmitWaitResult_page io page 0 True True m d
      in (e, v\<lparr>vState := VolumeStateStopped\<rparr>, m, d))"

section \<open>Chunks\<close>

text \<open>\<open>fresh\<close> is the content of the memory that a new chunk gets.\<close>

definition ChunkCreate :: "bytes \<Rightarrow> guid \<Rightarrow> mem \<Rightarrow> Volume \<Rightarrow> err \<times> Volume \<times> mem" where
  "ChunkCreate fresh chunkId m v =
     (if vState v \<noteq> VolumeStateRunning then (InvalidState, v, m)
      else let (chunk, exist) = Lookup_key guid_hash ChunkBuckets chunkId (ChunkTable v)
      in if exist then (AlreadyExists, v, m)
      else let (ok, m) = MakeShared m
      in if \<not> ok then (NoMemory, v, m)
      else let c = NextChunk v;
               v = v\<lparr>Chunks := (Chunks v)(c := fresh), NextChunk := c + 1\<rparr>;
               (table, inserted, m) = Insert_copy guid_hash ChunkBuckets chunkId c m (ChunkTable v)
      in if \<not> inserted then (NoMemory, v, m) else (Success, v\<lparr>ChunkTable := table\<rparr>, m))"

definition ChunkWrite :: "guid \<Rightarrow> bytes \<Rightarrow> Volume \<Rightarrow> err \<times> Volume" where
  "ChunkWrite chunkId data v =
     (if vState v \<noteq> VolumeStateRunning then (InvalidState, v)
      else let (chunk, exist) = Lookup_key guid_hash ChunkBuckets chunkId (ChunkTable v)
      in if \<not> exist then (NotFound, v)
      else (Success, v\<lparr>Chunks := (Chunks v)(chunk := take ChunkSize data)\<rparr>))"

text \<open>The bytes that \<open>ChunkRead\<close> leaves in the caller's buffer.\<close>

definition ChunkRead :: "guid \<Rightarrow> bytes \<Rightarrow> Volume \<Rightarrow> err \<times> bytes" where
  "ChunkRead chunkId data v =
     (if vState v \<noteq> VolumeStateRunning then (InvalidState, data)
      else let (chunk, exist) = Lookup_key guid_hash ChunkBuckets chunkId (ChunkTable v)
      in if \<not> exist then (NotFound, data)
      else (Success, Chunks v chunk))"

definition ChunkDelete :: "guid \<Rightarrow> Volume \<Rightarrow> err \<times> Volume" where
  "ChunkDelete chunkId v =
     (if vState v \<noteq> VolumeStateRunning then (InvalidState, v)
      else let (table, deleted) = Delete_key guid_hash ChunkBuckets chunkId (ChunkTable v)
      in (if deleted then Success else NotFound, v\<lparr>ChunkTable := table\<rparr>))"

definition ChunkLookup :: "guid \<Rightarrow> Volume \<Rightarrow> err" where
  "ChunkLookup chunkId v =
     (if vState v \<noteq> VolumeStateRunning then InvalidState
      else if \<not> CheckExist guid_hash ChunkBuckets chunkId (ChunkTable v) then NotFound
      else Success)"

section \<open>The journal test\<close>

text \<open>
  \<open>TestJournal\<close> writes two random pages, \<open>page1\<close> and \<open>page2\<close>, behind the journal in one transaction. It waits for the
  journal's thread inside \<open>Commit\<close>, so it is two steps; the first returns the transaction it waits for.
\<close>

definition TestJournal_begin ::
  "err + bytes \<Rightarrow> bytes \<Rightarrow> bytes \<Rightarrow> mem \<Rightarrow> Volume \<Rightarrow> err \<times> nat option \<times> Volume \<times> mem" where
  "TestJournal_begin rng page1 page2 m v =
     (if vState v \<noteq> VolumeStateRunning then (InvalidState, None, v, m)
      else case BeginTx rng m (TxJournal v) of
        (None, j, m) \<Rightarrow> (NoMemory, None, v\<lparr>TxJournal := j\<rparr>, m)
      | (Some t, j, m) \<Rightarrow>
          (let position = (jStart j + jSize j) * BlockSize;
               (e, m) = Page_Create m
           in if e \<noteq> Success then (e, None, v\<lparr>TxJournal := j\<rparr>, m)
              else let (e, j, m) = Journal.Write (vSize v) t page1 position m j
              in if e \<noteq> Success then (e, None, v\<lparr>TxJournal := j\<rparr>, m)
              else let (e, j, m) = Journal.Write (vSize v) t page2 (position + of_nat (length page1)) m j
              in if e \<noteq> Success then (e, None, v\<lparr>TxJournal := j\<rparr>, m)
              else let (e, j, m) = Commit_begin t m j
              in (e, if e = Success then Some t else None, v\<lparr>TxJournal := j\<rparr>, m)))"

definition TestJournal_finish ::
  "'d block_io \<Rightarrow> bytes \<Rightarrow> nat \<Rightarrow> mem \<Rightarrow> 'd \<Rightarrow> Volume \<Rightarrow> (err \<times> Volume \<times> mem \<times> 'd) option" where
  "TestJournal_finish io junk t m d v =
     (case Commit_finish io (vSize v) junk t m d (TxJournal v) of
        None \<Rightarrow> None
      | Some (e, j, m, d) \<Rightarrow> Some (e, v\<lparr>TxJournal := j\<rparr>, m, d))"

text \<open>A pass of the thread of the volume's journal.\<close>

definition Volume_pass :: "'d block_io \<Rightarrow> host \<Rightarrow> bytes \<Rightarrow> mem \<Rightarrow> 'd \<Rightarrow> Volume \<Rightarrow> Volume \<times> mem \<times> 'd" where
  "Volume_pass io h junk m d v = (let (j, m, d) = Run_pass io h junk m d (TxJournal v) in (v\<lparr>TxJournal := j\<rparr>, m, d))"

section \<open>The header page\<close>

lemma volume_page_length: "length junk = PageSize \<Longrightarrow> length g = GuidSize \<Longrightarrow> length (volume_page h g n k junk) = PageSize"
  by (simp add: volume_page_def put_le Page_Zero_def layout GuidSize_def Let_def)

lemma volume_page_fields:
  assumes l: "length junk = PageSize" "length g = GuidSize" and p_def: "p = volume_page h g n k junk"
  shows "take 4 (drop 0 p) = le_bytes 4 VolumeMagic" "take 16 (drop 16 p) = g" "take 8 (drop 32 p) = le_bytes 8 n"
    "take 8 (drop 40 p) = le_bytes 8 k" "drop HashOffset p = le_bytes 8 (XXH64 LittleEndian (take HashOffset p) 0)"
proof -
  define q where "q = put 40 (le_bytes 8 k) (put 32 (le_bytes 8 n) (put 16 g (put 0 (le_bytes 4 VolumeMagic) (Page_Zero junk))))"
  have q: "p = put HashOffset (Sum h (take HashOffset q)) q" by (simp add: p_def volume_page_def put_le q_def Let_def)
  have lq: "length q = 4096" using l by (simp add: q_def Page_Zero_def layout GuidSize_def)
  have low: "take n' (drop off p) = take n' (drop off q)" if "off + n' \<le> 4088" for off n'
    unfolding q using that lq by (intro field_put_other) (simp_all add: layout)
  have "take 4 q = le_bytes 4 VolumeMagic"
    using l by (simp add: q_def take_put Page_Zero_def layout GuidSize_def) (simp add: put_def)
  then show "take 4 (drop 0 p) = le_bytes 4 VolumeMagic" using low [of 0 4] by simp
  show "take 16 (drop 16 p) = g" "take 8 (drop 32 p) = le_bytes 8 n" "take 8 (drop 40 p) = le_bytes 8 k"
    using l by (simp_all add: low) (simp_all add: q_def field_puts Page_Zero_def layout GuidSize_def)
  have t: "take HashOffset p = take HashOffset q" unfolding q using lq by (intro take_put) (simp_all add: layout)
  have "drop HashOffset p = Sum h (take HashOffset q)" unfolding q using lq by (simp add: put_def layout)
  then show "drop HashOffset p = le_bytes 8 (XXH64 LittleEndian (take HashOffset p) 0)" using lq t by (simp add: layout)
qed

lemma read_volume_header_ok:
  assumes "length junk = PageSize" "length g = GuidSize" "n \<noteq> 0" "n mod BlockSize = 0"
  shows "read_volume_header h n (volume_page h' g n k junk) = Inr (g, n, k)"
proof -
  let ?p = "volume_page h' g n k junk"
  note f = volume_page_fields [OF assms(1,2) refl, of h' n k]
  have l: "length ?p = 4096" using volume_page_length [OF assms(1,2)] by (simp add: layout)
  have a: "ArrayEqual 8 (drop HashOffset ?p) (Sum h (take HashOffset ?p))"
    unfolding f(5) using l by (simp add: layout)
  show ?thesis using a assms(3,4) l f(1,2) by (simp add: read_volume_header_def get_le f)
qed

section \<open>Formatting and loading\<close>

text \<open>Loading touches only the log, the place and the state of the journal.\<close>

definition same_txs :: "Journal \<Rightarrow> Journal \<Rightarrow> bool" where
  "same_txs j j' \<longleftrightarrow> TxTable j' = TxTable j \<and> TxList j' = TxList j \<and> TxToErase j' = TxToErase j \<and> Txs j' = Txs j \<and> NextTx j' = NextTx j"

lemma Load_frame:
  assumes "Journal.Load io h vsize junk start m d j = Some (e, j2, m', d')"
  shows "same_txs j j2"
proof -
  have "same_txs j k" if "Replay io h vsize junk m d (j\<lparr>LogRb := rb, jStart := s, jSize := n\<rparr>) = Some (e, k, m', d')"
    for rb s n k e m m' d d'
    using that by (auto simp: Replay_def same_txs_def Let_def split: option.splits prod.splits)
  then show ?thesis using assms
    by (auto simp: Load_def same_txs_def Let_def split: prod.splits if_splits sum.splits option.splits)
qed

definition journal_blocks :: "uint64_t \<Rightarrow> uint64_t" where
  "journal_blocks devsize = (devsize div 10) div BlockSize"

lemma journal_blocks_geom:
  assumes "81920 \<le> unat devsize" "unat devsize < 9223372036854775808"
  shows "geom devsize (j\<lparr>jStart := 1, jSize := journal_blocks devsize\<rparr>)"
proof -
  have "unat (journal_blocks devsize) = unat devsize div 10 div 4096" by (simp add: journal_blocks_def BlockSize_def unat_div)
  then show ?thesis using assms by (simp add: geom_def) linarith
qed

text \<open>The state of a volume that runs: its journal runs, and the log invariant holds.\<close>

definition vol_running ::
  "('d \<Rightarrow> nat \<Rightarrow> byte_t) \<Rightarrow> ('d \<Rightarrow> (nat \<Rightarrow> byte_t) set) \<Rightarrow> uint64_t \<Rightarrow> Volume \<Rightarrow> RingBuffer \<Rightarrow> ltx list \<Rightarrow> ltx list \<Rightarrow>
   (nat \<Rightarrow> byte_t) \<Rightarrow> 'd \<Rightarrow> bool" where
  "vol_running view crash devsize v rb0 gone live S d \<longleftrightarrow> vState v = VolumeStateRunning \<and> vSize v = devsize \<and>
     jState (TxJournal v) = JournalStateRunning \<and> jStart (TxJournal v) = 1 \<and> jSize (TxJournal v) = journal_blocks devsize \<and>
     log_inv view crash devsize (TxJournal v) rb0 gone live S d"

definition empty_ring :: "uint64_t \<Rightarrow> RingBuffer" where
  "empty_ring n = \<lparr>StartIndex = 0, EndIndex = 0, Size = 0, Capacity = n\<rparr>"

lemma empty_ring_ok: "0 < unat n \<Longrightarrow> ring_inv (empty_ring n)" "slots (empty_ring n) = []"
  by (simp_all add: ring_inv_def word_less_nat_alt slots_def slots_from_def empty_ring_def)

context block_layer
begin

lemma Volume_Format_ok:
  assumes rel: "reliable io" and junk: "length junk = PageSize" and new: "vState v = VolumeStateNew" "jState (TxJournal v) = JournalStateNew"
    and size: "81920 \<le> unat devsize" "unat devsize < 9223372036854775808" "devsize mod BlockSize = 0" and rng: "length g = GuidSize"
  shows "\<exists>v1 d1. Volume_Format io h devsize (Inr g) junk [] d v = (Success, v1, [], d1) \<and> vState v1 = VolumeStateNew \<and>
    view d1 = put_page 0 (volume_page h g devsize (journal_blocks devsize) junk)
      (put_page 4096 (header_image (journal_blocks devsize) (empty_ring (journal_blocks devsize - 1))) (view d)) \<and> crash d1 \<subseteq> {view d1}"
proof -
  let ?n = "journal_blocks devsize"
  from Format_ok [OF rel junk new(2) journal_blocks_geom [OF size(1,2)], of h d] obtain d' where
    f: "Journal.Format io h junk 1 ?n [] d (TxJournal v) = (Success, (TxJournal v)\<lparr>jStart := 1, jSize := ?n\<rparr>, [], d')"
    "view d' = put_page 4096 (header_image ?n (empty_ring (?n - 1))) (view d)" by (auto simp: empty_ring_def)
  note l = volume_page_length [OF junk rng, of h devsize ?n]
  from write_page_reliable [OF rel _ l, of 0 d'] obtain page' d1 where
    w: "SubmitWaitResult_page io (volume_page h g devsize ?n junk) 0 True True [] d' = (Success, page', [], d1)" by auto
  have "devsize \<noteq> 0" using size(1) by auto
  then have "Volume_Format io h devsize (Inr g) junk [] d v =
      (Success, v\<lparr>vSize := devsize, TxJournal := (TxJournal v)\<lparr>jStart := 1, jSize := ?n\<rparr>, VolumeId := g\<rparr>, [], d1)"
    using new(1) size(3) f(1) w rng
    by (simp add: Volume_Format_def Page_Create_def Guid_Generate_def journal_blocks_def [symmetric])
  then show ?thesis using write_page [OF w l] f(2) new(1) by auto
qed

lemma Volume_Load_ok:
  assumes rel: "reliable io" and junk: "length junk = PageSize" "length junk' = PageSize" and g: "length g = GuidSize"
    and new: "vState v = VolumeStateNew" "jState (TxJournal v) = JournalStateNew"
    and size: "81920 \<le> unat devsize" "unat devsize < 9223372036854775808" "devsize mod BlockSize = 0"
    and header: "page_at (view d) 0 = volume_page h' g devsize (journal_blocks devsize) junk'"
    and rb: "ring_inv rb" "unat (Size rb) < unat (Capacity rb)" "Capacity rb = journal_blocks devsize - 1"
    and log: "list_all (valid_tx devsize ((TxJournal v)\<lparr>jStart := 1, jSize := journal_blocks devsize\<rparr>)) txs"
      "on_medium ((TxJournal v)\<lparr>jStart := 1, jSize := journal_blocks devsize\<rparr>) rb txs (view d)" "crash d \<subseteq> {view d}"
  shows "\<exists>v2 d2. Volume_Load io h devsize junk [] d v = Some (Success, v2, [], d2) \<and> VolumeId v2 = g \<and>
    view d2 = apply_txs txs (view d) \<and> same_txs (TxJournal v) (TxJournal v2) \<and> ChunkTable v2 = ChunkTable v \<and>
    vol_running view crash devsize v2 rb txs [] (view d2) d2"
proof -
  let ?j = "(TxJournal v)\<lparr>jStart := 1, jSize := journal_blocks devsize\<rparr>"
  from read_page_reliable [OF rel _ junk(1), of 0 d] header obtain d1 where
    r: "SubmitWaitResult_page io junk 0 False False [] d = (Success, volume_page h' g devsize (journal_blocks devsize) junk', [], d1)"
    "view d1 = view d" "crash d1 \<subseteq> crash d" by auto
  have "devsize \<noteq> 0" using size(1) by auto
  note rh = read_volume_header_ok [OF junk(2) g this size(3), of h h' "journal_blocks devsize"]
  have "crash d1 \<subseteq> {view d1}" using r log(3) by auto
  with recover_inv [OF rel junk(1) new(2) journal_blocks_geom [OF size(1,2), of "TxJournal v"], of rb txs d1 h] rb log(1,2) r(2)
  obtain j2 d2 where
    l: "Journal.Load io h devsize junk 1 [] d1 (TxJournal v) = Some (Success, j2, [], d2)" "jState j2 = JournalStateRunning"
    "jStart j2 = 1" "jSize j2 = journal_blocks devsize" "view d2 = apply_txs txs (view d)"
    "log_inv view crash devsize j2 rb txs [] (view d2) d2" by auto
  have "Volume_Load io h devsize junk [] d v = Some (Success,
      v\<lparr>vSize := devsize, TxJournal := j2, VolumeId := g, vState := VolumeStateRunning\<rparr>, [], d2)"
    using new(1) r(1) rh l by (simp add: Volume_Load_def Page_Create_def)
  then show ?thesis using l Load_frame [OF l(1)] by (auto simp: vol_running_def)
qed

end

end
