(* ===== verification/Volume_Journal.thy ===== *)
theory Volume_Journal
  imports Volume
begin

text \<open>
  The volume and its journal together: a formatted volume can be loaded, and the journal test of the volume, which runs a
  transaction through all its stages, leaves its pages durable.
\<close>

section \<open>Transactions of several writes\<close>

lemma covers_in_page:
  assumes "\<And>f. apply_blocks bs f = put_page q page f" "b \<in> set bs" "covers b p"
  shows "q \<le> p \<and> p < q + length page"
proof (rule ccontr)
  assume "\<not> (q \<le> p \<and> p < q + length page)"
  then have "apply_blocks bs f p = f p" for f by (auto simp: assms(1) put_page_def)
  moreover have "apply_blocks bs (\<lambda>_. 0) p = apply_blocks bs (\<lambda>_. 1) p" by (rule apply_blocks_covered_any [OF assms(2,3)])
  ultimately show False by simp
qed

lemma apart_blocks_sym: "apart_blocks b c \<longleftrightarrow> apart_blocks c b"
  by (auto simp: apart_blocks_def)

lemma apart_appendI: "apart bs \<Longrightarrow> apart cs \<Longrightarrow> (\<And>b c. b \<in> set bs \<Longrightarrow> c \<in> set cs \<Longrightarrow> apart_blocks b c) \<Longrightarrow> apart (bs @ cs)"
  by (induction bs) (auto simp: list_all_iff)

lemma valid_data_nonempty: "valid_data vsize j b \<Longrightarrow> 0 < length (block_bytes b)"
  by (elim valid_dataE) (simp add: block_bytes_def)

lemma covers_ends: "0 < length (block_bytes b) \<Longrightarrow> covers b (block_pos b) \<and> covers b (block_pos b + length (block_bytes b) - 1)"
  unfolding covers_def by linarith

text \<open>Two writes of pages that follow each other give a list of disjoint blocks.\<close>

lemma apart_pages:
  assumes bs: "apart bs" "list_all (valid_data vsize j) bs" "\<And>f. apply_blocks bs f = put_page q p f"
    and cs: "apart cs" "list_all (valid_data vsize j) cs" "\<And>f. apply_blocks cs f = put_page (q + length p) p' f"
  shows "apart (bs @ cs)"
proof (rule apart_appendI [OF bs(1) cs(1)])
  fix b c assume b: "b \<in> set bs" and c: "c \<in> set cs"
  then have n: "0 < length (block_bytes b)" "0 < length (block_bytes c)"
    using bs(2) cs(2) valid_data_nonempty by (auto simp: list_all_iff)
  have "block_pos b + length (block_bytes b) - 1 < q + length p"
    using covers_in_page [OF bs(3) b] covers_ends [OF n(1)] by blast
  moreover have "q + length p \<le> block_pos c" using covers_in_page [OF cs(3) c] covers_ends [OF n(2)] by blast
  ultimately show "apart_blocks b c" using n unfolding apart_blocks_def by linarith
qed

section \<open>Beginning a transaction\<close>

definition new_tx :: "guid \<Rightarrow> Transaction" where
  "new_tx g = \<lparr>txState = JournalTxStateNew, txId = g, DataBlockList = [], IndexList = [], CommitResult = Success, CommitEvent = False\<rparr>"

text \<open>The table of transactions is a map of identifiers.\<close>

definition txs_ok :: "Journal \<Rightarrow> bool" where
  "txs_ok j \<longleftrightarrow> ht_inv guid_hash TxBuckets (TxTable j)"

lemma BeginTx_ok:
  assumes run: "jState j = JournalStateRunning" and t: "txs_ok j" "ht_map (TxTable j) g = None" and g: "length g = GuidSize"
  shows "\<exists>table. BeginTx (Inr g) [] j =
      (Some (NextTx j), (upd_tx (NextTx j) (new_tx g) j)\<lparr>NextTx := NextTx j + 1, TxTable := table\<rparr>, []) \<and>
    ht_inv guid_hash TxBuckets table \<and> ht_map table = (ht_map (TxTable j))(g \<mapsto> NextTx j)"
proof -
  note inv = t(1) [unfolded txs_ok_def]
  have n: "scan g (Bucket (TxTable j) ! bucket_of guid_hash TxBuckets g) = None"
    using t(2) ht_map_bucket [OF inv, of g] by (simp add: scan_map_of)
  from bucket_add_ok [OF inv t(2), of "NextTx j" "[]"] obtain table where
    "bucket_add (bucket_of guid_hash TxBuckets g) g (NextTx j) [] (TxTable j) = (table, True, [])" "ht_inv guid_hash TxBuckets table"
    "ht_map table = (ht_map (TxTable j))(g \<mapsto> NextTx j)" by (auto simp: bucket_add_def)
  then show ?thesis using run n g
    by (intro exI [of _ table]) (simp add: BeginTx_def Guid_Generate_def Insert_copy_def new_tx_def upd_tx_def Success_def Let_def)
qed

lemma Commit_begin_ok:
  assumes "txState (Txs j t) = JournalTxStateNew" "txs_ok j" "ht_map (TxTable j) (txId (Txs j t)) = Some t"
  shows "Commit_begin t [] j = (Success, (upd_tx t ((Txs j t)\<lparr>txState := JournalTxStateCommiting\<rparr>) j)\<lparr>TxList := TxList j @ [t]\<rparr>, [])"
  using assms Lookup_key_ok(1) [of guid_hash TxBuckets "TxTable j" "txId (Txs j t)"]
  by (simp add: Commit_begin_def StartCommitTx_def txs_ok_def upd_tx_def Let_def)

section \<open>The journal test\<close>

definition test_pos :: "uint64_t \<Rightarrow> uint64_t" where
  "test_pos devsize = (1 + journal_blocks devsize) * BlockSize"

lemma test_pos_ok:
  assumes "81920 \<le> unat devsize" "unat devsize < 9223372036854775808"
  shows "unat (test_pos devsize) = (1 + unat (journal_blocks devsize)) * 4096" "unat (test_pos devsize) + 8192 \<le> unat devsize"
proof -
  have n: "unat (journal_blocks devsize) = unat devsize div 10 div 4096" by (simp add: journal_blocks_def BlockSize_def unat_div)
  then have lt: "(1 + unat (journal_blocks devsize)) * 4096 < 18446744073709551616" using assms by simp
  have a: "unat (1 + journal_blocks devsize) = 1 + unat (journal_blocks devsize)"
    using unat_small_add [of 1 "journal_blocks devsize"] lt by simp
  show u: "unat (test_pos devsize) = (1 + unat (journal_blocks devsize)) * 4096"
    unfolding test_pos_def BlockSize_def using unat_small_mult [of "1 + journal_blocks devsize"] lt by (simp only: a)
  have "unat devsize div 10 div 4096 * 4096 \<le> unat devsize div 10" "unat devsize div 10 * 10 \<le> unat devsize"
    by (rule div_times_less_eq_dividend)+
  moreover have "(1 + q) * 4096 + 8192 \<le> D" if "q * 4096 \<le> y" "y * 10 \<le> D" "81920 \<le> D" for q y D :: nat
  proof -
    have "q * 40960 \<le> D" using that by simp
    then show ?thesis using that(3) by simp
  qed
  ultimately show "unat (test_pos devsize) + 8192 \<le> unat devsize" unfolding u n using assms(1) by blast
qed

lemma test_check:
  assumes size: "81920 \<le> unat devsize" "unat devsize < 9223372036854775808" and j: "jStart j = 1" "jSize j = journal_blocks devsize"
    and p: "p = test_pos devsize \<or> p = test_pos devsize + 4096"
  shows "CheckPosition devsize j p 4096 = Success" "unat p = unat (test_pos devsize) + (if p = test_pos devsize then 0 else 4096)"
proof -
  note t = test_pos_ok [OF size]
  have g: "geom devsize j"
    using journal_blocks_geom [OF size, of j] place_cong(4) [of j "j\<lparr>jStart := 1, jSize := journal_blocks devsize\<rparr>" devsize] j by simp
  have e: "journal_end j = unat (test_pos devsize)" by (simp add: journal_end_def j t(1))
  have u: "unat (test_pos devsize + 4096) = unat (test_pos devsize) + 4096" using t(2) size by (subst unat_small_add) simp_all
  show q: "unat p = unat (test_pos devsize) + (if p = test_pos devsize then 0 else 4096)" using p u by auto
  have "unat (test_pos devsize) mod 512 = 0" unfolding t(1) by simp
  then have "unat p mod 512 = 0" unfolding q by auto
  moreover have "4096 \<le> unat p" unfolding q t(1) by simp
  moreover have "unat p + 4096 \<le> unat devsize" using q t(2) by auto
  ultimately show "CheckPosition devsize j p 4096 = Success"
    using CheckPosition_iff [OF g, of 4096 p] e q by simp
qed

lemma TestJournal_begin_ok:
  assumes size: "81920 \<le> unat devsize" "unat devsize < 9223372036854775808"
    and v: "vState v = VolumeStateRunning" "vSize v = devsize" "jState (TxJournal v) = JournalStateRunning" "jStart (TxJournal v) = 1"
      "jSize (TxJournal v) = journal_blocks devsize"
    and t: "txs_ok (TxJournal v)" "ht_map (TxTable (TxJournal v)) g = None" and g: "length g = GuidSize"
    and pages: "length p1 = PageSize" "length p2 = PageSize"
  shows "\<exists>bs table. TestJournal_begin (Inr g) p1 p2 [] v = (Success, Some (NextTx (TxJournal v)),
      v\<lparr>TxJournal := (upd_tx (NextTx (TxJournal v)) ((new_tx g)\<lparr>txState := JournalTxStateCommiting, DataBlockList := bs\<rparr>) (TxJournal v))
        \<lparr>NextTx := NextTx (TxJournal v) + 1, TxTable := table, TxList := TxList (TxJournal v) @ [NextTx (TxJournal v)]\<rparr>\<rparr>, []) \<and>
    valid_tx devsize (TxJournal v) (g, bs, 0) \<and> length bs \<le> 4 \<and>
    (\<forall>f. apply_blocks bs f = put_page (unat (test_pos devsize)) (p1 @ p2) f)"
proof -
  let ?j = "TxJournal v" let ?t = "NextTx ?j"
  from BeginTx_ok [OF v(3) t g] obtain table where
    b: "BeginTx (Inr g) [] ?j = (Some ?t, (upd_tx ?t (new_tx g) ?j)\<lparr>NextTx := ?t + 1, TxTable := table\<rparr>, [])"
    and tab: "ht_inv guid_hash TxBuckets table" "ht_map table g = Some ?t" by auto
  define j1 where "j1 = (upd_tx ?t (new_tx g) ?j)\<lparr>NextTx := ?t + 1, TxTable := table\<rparr>"
  have s1: "jStart j1 = jStart ?j" "jSize j1 = jSize ?j" "Txs j1 ?t = new_tx g" by (simp_all add: j1_def upd_tx_def)
  have g1: "geom devsize j1" "geom devsize ?j"
    using journal_blocks_geom [OF size, of j1] journal_blocks_geom [OF size, of ?j]
      place_cong(4) [of j1 "j1\<lparr>jStart := 1, jSize := journal_blocks devsize\<rparr>"]
      place_cong(4) [of ?j "?j\<lparr>jStart := 1, jSize := journal_blocks devsize\<rparr>"] v(4,5) s1 by simp_all
  note chk = test_check [OF size]
  have c1: "CheckPosition devsize j1 (test_pos devsize) (of_nat (length p1)) = Success"
    using chk(1) [of j1 "test_pos devsize"] s1 v pages by (simp add: PageSize_def)
  have "txState (Txs j1 ?t) = JournalTxStateNew" "length (txId (Txs j1 ?t)) = GuidSize" using g by (simp_all add: s1 new_tx_def)
  from Write_ok [OF g1(1) this _ _ c1] pages obtain bs where
    w1: "Journal.Write devsize ?t p1 (test_pos devsize) [] j1 = (Success, upd_tx ?t ((new_tx g)\<lparr>DataBlockList := bs\<rparr>) j1, [])"
    "list_all (valid_data devsize j1) bs" "numbered g 0 bs" "apart bs" "bs \<noteq> []" "length bs \<le> 2"
    "\<And>f. apply_blocks bs f = put_page (unat (test_pos devsize)) p1 f"
    by (auto simp: s1 PageSize_def new_tx_def)
  define j2 where "j2 = upd_tx ?t ((new_tx g)\<lparr>DataBlockList := bs\<rparr>) j1"
  have s2: "jStart j2 = jStart ?j" "jSize j2 = jSize ?j" "Txs j2 ?t = (new_tx g)\<lparr>DataBlockList := bs\<rparr>"
    using s1 by (simp_all add: j2_def upd_tx_def)
  have c2: "CheckPosition devsize j2 (test_pos devsize + 4096) (of_nat (length p2)) = Success"
    using chk(1) [of j2 "test_pos devsize + 4096"] s2 v pages by (simp add: PageSize_def)
  have u2: "unat (test_pos devsize + 4096) = unat (test_pos devsize) + length p1"
    using chk(2) [of j2 "test_pos devsize + 4096"] s2 v pages by (simp add: PageSize_def)
  have g2: "geom devsize j2" using g1(2) place_cong(4) [OF s2(1,2)] by simp
  have "txState (Txs j2 ?t) = JournalTxStateNew" "length (txId (Txs j2 ?t)) = GuidSize" using g by (simp_all add: s2 new_tx_def)
  from Write_ok [OF g2 this _ _ c2] pages obtain cs where
    w2: "Journal.Write devsize ?t p2 (test_pos devsize + 4096) [] j2 = (Success, upd_tx ?t ((new_tx g)\<lparr>DataBlockList := bs @ cs\<rparr>) j2, [])"
    "list_all (valid_data devsize j2) cs" "numbered g (length bs) cs" "apart cs" "length cs \<le> 2"
    "\<And>f. apply_blocks cs f = put_page (unat (test_pos devsize) + length p1) p2 f"
    by (auto simp: s2 PageSize_def new_tx_def u2)
  define j3 where "j3 = upd_tx ?t ((new_tx g)\<lparr>DataBlockList := bs @ cs\<rparr>) j2"
  have s3: "Txs j3 ?t = (new_tx g)\<lparr>DataBlockList := bs @ cs\<rparr>" "TxTable j3 = table"
    by (simp_all add: j3_def j2_def j1_def upd_tx_def)
  have "Commit_begin ?t [] j3 = (Success, (upd_tx ?t ((Txs j3 ?t)\<lparr>txState := JournalTxStateCommiting\<rparr>) j3)\<lparr>TxList := TxList j3 @ [?t]\<rparr>, [])"
    using tab s3 by (intro Commit_begin_ok) (simp_all add: new_tx_def txs_ok_def)
  then have c: "Commit_begin ?t [] j3 = (Success, (upd_tx ?t ((new_tx g)\<lparr>txState := JournalTxStateCommiting, DataBlockList := bs @ cs\<rparr>) ?j)
        \<lparr>NextTx := ?t + 1, TxTable := table, TxList := TxList ?j @ [?t]\<rparr>, [])"
    by (simp add: s3) (simp add: j3_def j2_def j1_def upd_tx_def new_tx_def)
  have "TestJournal_begin (Inr g) p1 p2 [] v = (Success, Some ?t,
      v\<lparr>TxJournal := (upd_tx ?t ((new_tx g)\<lparr>txState := JournalTxStateCommiting, DataBlockList := bs @ cs\<rparr>) ?j)
        \<lparr>NextTx := ?t + 1, TxTable := table, TxList := TxList ?j @ [?t]\<rparr>\<rparr>, [])"
  proof -
    have p: "(jStart j1 + jSize j1) * BlockSize = test_pos devsize" using s1 v by (simp add: test_pos_def)
    have b1: "BeginTx (Inr g) [] ?j = (Some ?t, j1, [])" unfolding j1_def by (rule b)
    show ?thesis using v(1,2) w1(1) w2(1) c pages p
      by (simp add: TestJournal_begin_def b1 Page_Create_def j2_def [symmetric] j3_def [symmetric] PageSize_def Let_def)
  qed
  moreover have "valid_tx devsize ?j (g, bs @ cs, 0)"
  proof -
    have vd: "valid_data devsize j1 = valid_data devsize ?j" "valid_data devsize j2 = valid_data devsize ?j"
      using place_cong(2) [OF s1(1,2)] place_cong(2) [OF s2(1,2)] by simp_all
    have "apart (bs @ cs)" using apart_pages [OF w1(4,2,7) w2(4) _ w2(6)] w2(2) vd by simp
    moreover have "numbered g 0 (bs @ cs)" using w1(3) w2(3) by (simp add: numbered_append)
    ultimately show ?thesis using w1 w2 g vd by (simp add: numbered_def)
  qed
  moreover have "apply_blocks (bs @ cs) f = put_page (unat (test_pos devsize)) (p1 @ p2) f" for f
    by (simp add: w1(7) w2(6) put_page_append)
  moreover have "length (bs @ cs) \<le> 4" using w1(6) w2(5) by simp
  ultimately show ?thesis by blast
qed

context block_layer
begin

lemma TestJournal_ok:
  assumes rel: "reliable io" and junk: "length junk = PageSize" and size: "81920 \<le> unat devsize" "unat devsize < 9223372036854775808"
    and v: "vol_running view crash devsize v rb0 gone live S d" "TxList (TxJournal v) = []" "TxToErase (TxJournal v) = []"
    and t: "txs_ok (TxJournal v)" "ht_map (TxTable (TxJournal v)) g = None" and g: "length g = GuidSize"
    and pages: "length p1 = PageSize" "length p2 = PageSize" and room: "length (slots rb0) + 6 < unat (journal_blocks devsize - 1)"
  shows "\<exists>t v1 v2 d2 v3 d3 live'. TestJournal_begin (Inr g) p1 p2 [] v = (Success, Some t, v1, []) \<and>
    Volume_pass io h junk [] d v1 = (v2, [], d2) \<and> TestJournal_finish io junk t [] d2 v2 = Some (Success, v3, [], d3) \<and>
    (\<exists>f. view d3 = put_page (unat (test_pos devsize)) (p1 @ p2) f) \<and>
    vol_running view crash devsize v3 (LogRb (TxJournal v3)) [] live' (put_page (unat (test_pos devsize)) (p1 @ p2) S) d3"
proof -
  note V = v(1) [unfolded vol_running_def]
  let ?j = "TxJournal v" let ?t = "NextTx ?j"
  from TestJournal_begin_ok [OF size _ _ _ _ _ t g pages] V obtain bs table where
    b: "TestJournal_begin (Inr g) p1 p2 [] v = (Success, Some ?t,
      v\<lparr>TxJournal := (upd_tx ?t ((new_tx g)\<lparr>txState := JournalTxStateCommiting, DataBlockList := bs\<rparr>) ?j)
        \<lparr>NextTx := ?t + 1, TxTable := table, TxList := TxList ?j @ [?t]\<rparr>\<rparr>, [])"
    "valid_tx devsize ?j (g, bs, 0)" "length bs \<le> 4" "\<And>f. apply_blocks bs f = put_page (unat (test_pos devsize)) (p1 @ p2) f" by auto
  define j1 where "j1 = (upd_tx ?t ((new_tx g)\<lparr>txState := JournalTxStateCommiting, DataBlockList := bs\<rparr>) ?j)
        \<lparr>NextTx := ?t + 1, TxTable := table, TxList := TxList ?j @ [?t]\<rparr>"
  have s: "jStart j1 = jStart ?j" "jSize j1 = jSize ?j" "LogRb j1 = LogRb ?j" "TxList j1 = [?t]" "TxToErase j1 = []" "jState j1 = jState ?j"
    "Txs j1 ?t = (new_tx g)\<lparr>txState := JournalTxStateCommiting, DataBlockList := bs\<rparr>" using v(2,3) by (simp_all add: j1_def upd_tx_def)
  note pc = place_cong [OF s(1,2)]
  have inv: "log_inv view crash devsize j1 rb0 gone live S d" using V log_inv_cong [OF s(1-3), of view crash devsize rb0 gone live S d] by simp
  have bt: "batch j1 (TxList j1) = [(g, bs, 0)]" by (simp add: batch_def s ltx_of_def new_tx_def)
  have "ready devsize j1 ?t" using b(2) by (simp add: ready_def s pc ltx_of_def new_tx_def del: valid_tx.simps)
  then have f: "fits devsize j1 rb0" using room b(3) V bt by (simp add: fits_def s)
  from pass_durable [OF rel inv f junk s(5), of h] obtain j2 d2 where
    r: "Run_pass io h junk [] d j1 = (j2, [], d2)" "jStart j2 = jStart j1" "jSize j2 = jSize j1" "jState j2 = jState j1"
    "log_inv view crash devsize j2 (LogRb j2) [] (live @ [(g, bs, 0)]) (apply_txs [(g, bs, 0)] S) d2"
    and T: "\<forall>t. Txs j2 t = (if t \<in> set (TxList j1)
       then (Txs j1 t)\<lparr>txState := JournalTxStateCommited, IndexList := IndexList (Txs j2 t), CommitResult := Success, CommitEvent := True\<rparr>
       else (Txs j1 t)\<lparr>IndexList := IndexList (Txs j2 t)\<rparr>)" unfolding bt by blast
  have tx: "CommitResult (Txs j2 ?t) = Success" "txState (Txs j2 ?t) = JournalTxStateCommited"
    "ltx_of (Txs j2 ?t) = (g, bs, 0)" "DataBlockList (Txs j2 ?t) = bs"
    using spec [OF T, of ?t] s by (cases "Txs j2 ?t", simp add: ltx_of_def new_tx_def)+
  then have "ltx_of (Txs j2 ?t) \<in> set (live @ [(g, bs, 0)])" by simp
  from Commit_finish_ok [OF rel junk r(5) tx(1,2) this] obtain j3 d3 where
    c: "Commit_finish io devsize junk ?t [] d2 j2 = Some (Success, j3, [], d3)" "view d3 = apply_blocks bs (view d2)"
    "log_inv view crash devsize j3 (LogRb j2) [] (live @ [(g, bs, 0)]) (apply_txs [(g, bs, 0)] S) d3"
    "j3 = j2 \<or> j3 = j2\<lparr>TxToErase := TxToErase j2 @ [?t]\<rparr>" unfolding tx(4) by blast
  have j3: "LogRb j3 = LogRb j2" "jStart j3 = jStart ?j" "jSize j3 = jSize ?j" "jState j3 = jState ?j" using c(4) r s by auto
  define v1 where "v1 = v\<lparr>TxJournal := j1\<rparr>"
  have "Volume_pass io h junk [] d v1 = (v1\<lparr>TxJournal := j2\<rparr>, [], d2)" using r(1) by (simp add: Volume_pass_def v1_def)
  moreover have "TestJournal_finish io junk ?t [] d2 (v1\<lparr>TxJournal := j2\<rparr>) = Some (Success, v1\<lparr>TxJournal := j3\<rparr>, [], d3)"
    using c(1) V by (simp add: TestJournal_finish_def v1_def)
  moreover have "vol_running view crash devsize (v1\<lparr>TxJournal := j3\<rparr>) (LogRb j3) [] (live @ [(g, bs, 0)])
      (put_page (unat (test_pos devsize)) (p1 @ p2) S) d3"
    using V c(3) j3 b(4) by (simp add: vol_running_def v1_def)
  ultimately show ?thesis using b(1) c(2) b(4)
    by (intro exI [of _ ?t] exI [of _ v1] exI [of _ "v1\<lparr>TxJournal := j2\<rparr>"] exI [of _ d2] exI [of _ "v1\<lparr>TxJournal := j3\<rparr>"]
        exI [of _ d3] exI [of _ "live @ [(g, bs, 0)]"]) (auto simp: v1_def j1_def)
qed

lemma Format_Load_ok:
  assumes layer: "reliable io" and junk: "length junk = PageSize"
    and new: "vState v = VolumeStateNew" "jState (TxJournal v) = JournalStateNew" "vState v0 = VolumeStateNew" "jState (TxJournal v0) = JournalStateNew"
    and size: "81920 \<le> unat devsize" "unat devsize < 9223372036854775808" "devsize mod BlockSize = 0" and g: "length g = GuidSize"
  shows "\<exists>v1 d1 v2 d2. Volume_Format io h devsize (Inr g) junk [] d v = (Success, v1, [], d1) \<and>
    Volume_Load io h' devsize junk [] d1 v0 = Some (Success, v2, [], d2) \<and> VolumeId v2 = g \<and>
    vol_running view crash devsize v2 (empty_ring (journal_blocks devsize - 1)) [] [] (view d2) d2 \<and>
    same_txs (TxJournal v0) (TxJournal v2) \<and> (\<forall>p. unat (test_pos devsize) \<le> p \<longrightarrow> view d2 p = view d p)"
proof -
  let ?n = "journal_blocks devsize" and ?rb = "empty_ring (journal_blocks devsize - 1)"
  let ?j = "(TxJournal v0)\<lparr>jStart := 1, jSize := ?n\<rparr>"
  from Volume_Format_ok [OF layer junk new(1,2) size g, of h d] obtain v1 d1 where
    f: "Volume_Format io h devsize (Inr g) junk [] d v = (Success, v1, [], d1)"
    "view d1 = put_page 0 (volume_page h g devsize ?n junk) (put_page 4096 (header_image ?n ?rb) (view d))" "crash d1 \<subseteq> {view d1}" by blast
  have l: "length (volume_page h g devsize ?n junk) = PageSize" by (rule volume_page_length [OF junk g])
  have "1 < unat ?n" using geomD(2) [OF journal_blocks_geom [OF size(1,2)]] by simp
  then have n: "0 < unat (?n - 1)" by (simp add: unat_sub word_le_nat_alt)
  have p1: "page_at (view d1) 4096 = header_image ?n ?rb"
  proof -
    have "page_at (view d1) 4096 = page_at (put_page 4096 (header_image ?n ?rb) (view d)) 4096"
      by (rule page_at_cong) (simp add: f(2) put_page_def l PageSize_def)
    then show ?thesis by (simp add: page_at_put_same)
  qed
  then have "on_medium ?j ?rb [] (view d1)" by (simp add: on_medium_def journal_start_def holds_def empty_ring_ok(2))
  moreover have "ring_inv ?rb" "unat (Size ?rb) < unat (Capacity ?rb)" "Capacity ?rb = ?n - 1"
    using n empty_ring_ok(1) [OF n] by (simp_all add: empty_ring_def)
  moreover have "page_at (view d1) 0 = volume_page h g devsize ?n junk" by (simp add: f(2) page_at_put_same l)
  ultimately obtain v2 d2 where
    r: "Volume_Load io h' devsize junk [] d1 v0 = Some (Success, v2, [], d2)" "VolumeId v2 = g" "view d2 = view d1"
    "same_txs (TxJournal v0) (TxJournal v2)" "vol_running view crash devsize v2 ?rb [] [] (view d2) d2"
    using Volume_Load_ok [OF layer junk junk g new(3,4) size _ _ _ _ _ _ f(3), of h ?rb "[]" h'] by auto
  have "view d2 p = view d p" if "unat (test_pos devsize) \<le> p" for p
    using that \<open>1 < unat ?n\<close> r(3) test_pos_ok(1) [OF size(1,2)] l by (simp add: f(2) put_page_def PageSize_def)
  then show ?thesis using f(1) r by blast
qed

end

section \<open>Properties\<close>

text \<open>
  Claim C15. A volume can be formatted and loaded: on a working device of a legal size both succeed, on hosts of either
  byte order, the loaded volume runs and has the identifier that formatting drew, its journal takes a tenth of the
  device and satisfies the invariant of the log, and the space behind the journal is untouched.
\<close>

theorem volume_format_load:
  assumes layer: "block_layer io view crash crash_in" "reliable io" and junk: "length junk = PageSize"
    and new: "vState v = VolumeStateNew" "jState (TxJournal v) = JournalStateNew" "vState v0 = VolumeStateNew" "jState (TxJournal v0) = JournalStateNew"
    and size: "81920 \<le> unat devsize" "unat devsize < 9223372036854775808" "devsize mod BlockSize = 0" and g: "length g = GuidSize"
  shows "\<exists>v1 d1 v2 d2. Volume_Format io h devsize (Inr g) junk [] d v = (Success, v1, [], d1) \<and>
    Volume_Load io h' devsize junk [] d1 v0 = Some (Success, v2, [], d2) \<and> VolumeId v2 = g \<and>
    vol_running view crash devsize v2 (empty_ring (journal_blocks devsize - 1)) [] [] (view d2) d2 \<and>
    same_txs (TxJournal v0) (TxJournal v2) \<and> (\<forall>p. unat (test_pos devsize) \<le> p \<longrightarrow> view d2 p = view d p)"
  by (rule block_layer.Format_Load_ok [OF layer junk new size g])

definition sample_volume :: Volume where
  "sample_volume = fst (snd (the (make_Volume (\<lambda>_. 0) sample_rb \<lparr>Arr = [115, 100, 97, 0], vecSize = 4\<rparr> Success [])))"

lemma sample_volume: "vState sample_volume = VolumeStateNew" "TxJournal sample_volume = make_Journal sample_rb"
  "jState (TxJournal sample_volume) = JournalStateNew"
  by (simp_all add: sample_volume_def make_Volume_def make_Journal_def AString_copy_def AString_cstr_def StrLen_def split: prod.split)

theorem volume_format_load_witness:
  "\<exists>v1 d1 v2 d2. Volume_Format good_disk_io LittleEndian sample_vsize (Inr (replicate 16 9)) (replicate PageSize 0) [] sample_disk sample_volume =
       (Success, v1, [], d1) \<and>
     Volume_Load good_disk_io BigEndian sample_vsize (replicate PageSize 0) [] d1 sample_volume = Some (Success, v2, [], d2) \<and>
     VolumeId v2 = replicate 16 9"
  using volume_format_load [OF good.block_layer_axioms reliable_good_disk length_replicate sample_volume(1,3) sample_volume(1,3),
      of sample_vsize "replicate 16 9" LittleEndian 0 sample_disk BigEndian]
  by (simp add: sample_vsize_def BlockSize_def GuidSize_def) blast


lemma sample_running:
  "\<exists>v d. vol_running disk_view disk_crash sample_vsize v (empty_ring (journal_blocks sample_vsize - 1)) [] [] (disk_view d) d \<and>
    same_txs (make_Journal sample_rb) (TxJournal v)"
proof -
  have s: "81920 \<le> unat sample_vsize" "unat sample_vsize < 9223372036854775808" "sample_vsize mod BlockSize = 0"
    "length (replicate 16 (9::byte_t)) = GuidSize" by (simp_all add: sample_vsize_def BlockSize_def GuidSize_def)
  let ?p = "volume_page LittleEndian (replicate 16 9) sample_vsize (journal_blocks sample_vsize) (replicate PageSize 0)"
  let ?rb = "empty_ring (journal_blocks sample_vsize - 1)"
  let ?d = "\<lparr>medium = put_page 0 ?p (put_page 4096 (header_image (journal_blocks sample_vsize) ?rb) (\<lambda>_. 0)), cache = [], faults = []\<rparr> :: disk"
  have d: "disk_view ?d = medium ?d" "disk_crash ?d \<subseteq> {disk_view ?d}" by (simp_all add: disk_view_def disk_crash_def)
  have l: "length ?p = PageSize" by (rule volume_page_length [OF length_replicate s(4)])
  have n: "0 < unat (journal_blocks sample_vsize - 1)" by (simp add: journal_blocks_def sample_vsize_def BlockSize_def)
  have "page_at (disk_view ?d) 4096 = page_at (put_page 4096 (header_image (journal_blocks sample_vsize) ?rb) (\<lambda>_. 0)) 4096"
    unfolding d using l by (intro page_at_cong) (simp add: put_page_def PageSize_def)
  then have "page_at (disk_view ?d) 4096 = header_image (journal_blocks sample_vsize) ?rb" by (simp add: page_at_put_same)
  then have m: "on_medium ((TxJournal sample_volume)\<lparr>jStart := 1, jSize := journal_blocks sample_vsize\<rparr>) ?rb [] (disk_view ?d)"
    by (simp add: on_medium_def journal_start_def holds_def empty_ring_ok(2))
  have p: "page_at (disk_view ?d) 0 = ?p" using d l by (simp add: page_at_put_same)
  have r: "ring_inv ?rb" "unat (Size ?rb) < unat (Capacity ?rb)" "Capacity ?rb = journal_blocks sample_vsize - 1"
    using n empty_ring_ok(1) [OF n] by (simp_all add: empty_ring_def)
  from good.Volume_Load_ok [OF reliable_good_disk length_replicate length_replicate s(4) sample_volume(1,3) s(1-3) p r _ m d(2), of LittleEndian 0]
  show ?thesis using sample_volume(2) by auto
qed


end
