(* ===== verification/Volume_Remount.thy ===== *)
theory Volume_Remount
  imports Volume_Journal
begin

text \<open>
  Unloading a volume and loading it again: the journal cancels what waits and writes its header, the volume writes its own, and loading
  finds both and replays what the log still holds.
\<close>

section \<open>Unloading the journal\<close>

lemma Cancel_frame:
  "jStart (Cancel t j) = jStart j" "jSize (Cancel t j) = jSize j" "LogRb (Cancel t j) = LogRb j" "TxList (Cancel t j) = TxList j"
  "jState (Cancel t j) = jState j"
  by (simp_all add: Cancel_def UnlinkTx_def upd_tx_def Let_def split: prod.split)

lemma Cancel_all_frame:
  "jStart (foldl (\<lambda>j t. Cancel t j) j ts) = jStart j" "jSize (foldl (\<lambda>j t. Cancel t j) j ts) = jSize j"
  "LogRb (foldl (\<lambda>j t. Cancel t j) j ts) = LogRb j" "TxList (foldl (\<lambda>j t. Cancel t j) j ts) = TxList j"
  by (induction ts arbitrary: j) (simp_all add: Cancel_frame)

lemma CompactLog_frame: "jStart (CompactLog j) = jStart j" "jSize (CompactLog j) = jSize j"
  by (simp_all add: CompactLog_def split: prod.split)

context block_layer
begin

lemma Unload_ok:
  assumes rel: "reliable io" and inv: "log_inv view crash vsize j rb0 gone live S d" and junk: "length junk = PageSize"
    and run: "jState j = JournalStateRunning"
  shows "\<exists>j' d'. Unload io h junk [] d j = (Success, j', [], d') \<and> jState j' = JournalStateStopped \<and> jSize j' = jSize j \<and> jStart j' = jStart j \<and>
    on_medium j (LogRb j) live (view d') \<and> outside j (apply_txs live (view d')) S \<and> crash d' \<subseteq> {view d'}"
proof -
  let ?j = "foldl (\<lambda>j t. Cancel t j) (j\<lparr>jState := JournalStateStopping, TxThread := None, TxList := []\<rparr>) (TxList j)"
  have fr: "jStart ?j = jStart j" "jSize ?j = jSize j" "LogRb ?j = LogRb j" by (simp_all add: Cancel_all_frame)
  note I = inv [unfolded log_inv_def]
  have g: "geom vsize j" using I by blast
  have bt: "batch_at vsize j rb0 (LogRb j) [] []" using I by (simp add: batch_at_def)
  let ?bl = "BioList\<lparr>ReqList := [header_bio j (LogRb j)]\<rparr>"
  have "geom vsize ?j" using g fr by (simp add: geom_def)
  from AddIo_header [OF this junk, of h "LogRb j" BioList] have
    a: "AddIo (header_page h (jSize j) (StartIndex (LogRb j)) (EndIndex (LogRb j)) (Size (LogRb j)) (Capacity (LogRb j)) junk) (jStart j * BlockSize) True 0 [] BioList =
      (Success, ?bl, [])" using fr by (simp add: BioList_def header_bio_def)
  obtain datas bl' d' where s: "SubmitWait io True ?bl d = (datas, bl', d')" by (cases "SubmitWait io True ?bl d") auto
  have ok: "bl_Result bl' = Success" using SubmitWait_reliable [OF rel _ _ s] by (simp add: BioList_def)
  have "ReqList ?bl = [] @ [header_bio j (LogRb j)]" "bl_Result ?bl = Success" by (simp_all add: BioList_def)
  from SubmitWait_barrier [OF this s, unfolded ok] header_bio_range(2) [OF g, of "LogRb j"] obtain d1 where
    d1: "\<And>p. \<not> written_by [] p \<Longrightarrow> view d1 p = view d p" "\<And>p. written_by [] p \<Longrightarrow> \<exists>b \<in> set []. b_write b \<and> in_bio b p \<and> view d1 p = bio_byte b p"
    "view d' = overwrite (header_bio j (LogRb j)) (view d1)" "crash d' \<subseteq> {view d'}" by (simp only: refl if_True) blast
  have m: "on_medium j (LogRb j) (live @ []) (view d') \<and> outside j (apply_txs (live @ []) (view d')) (apply_txs [] S)"
    by (rule batch_new [OF inv bt d1(3)]) (use d1(1,2) in simp_all)
  have ne: "JournalStateRunning \<noteq> JournalStateStopped" by (simp add: journal_states)
  have "Unload io h junk [] d j = (Success, (CompactLog ?j)\<lparr>jState := JournalStateStopped\<rparr>, [], d')"
    using run a s ok ne by (simp add: Unload_def Flush_def Page_Create_def SubmitWaitResult_def Cancel_all_frame Let_def)
  then show ?thesis using m d1(4) by (auto simp: CompactLog_frame fr)
qed

lemma Volume_Unload_ok:
  assumes rel: "reliable io" and junk: "length junk = PageSize" and v: "vol_running view crash devsize v rb0 gone live S d" "length (VolumeId v) = GuidSize"
    and size: "81920 \<le> unat devsize" "unat devsize < 9223372036854775808"
  shows "\<exists>v1 d1. Volume_Unload io h junk [] d v = (Success, v1, [], d1) \<and> vState v1 = VolumeStateStopped \<and> jState (TxJournal v1) = JournalStateStopped \<and>
    page_at (view d1) 0 = volume_page h (VolumeId v) devsize (journal_blocks devsize) junk \<and> on_medium (TxJournal v) (LogRb (TxJournal v)) live (view d1) \<and>
    (\<forall>p. unat (test_pos devsize) \<le> p \<longrightarrow> apply_txs live (view d1) p = S p) \<and> crash d1 \<subseteq> {view d1}"
proof -
  note V = v(1) [unfolded vol_running_def]
  let ?j = "TxJournal v" let ?page = "volume_page h (VolumeId v) devsize (journal_blocks devsize) junk"
  from Unload_ok [OF rel _ junk, of devsize ?j rb0 gone live S d h] V obtain j' d' where
    u: "Unload io h junk [] d ?j = (Success, j', [], d')" "jSize j' = jSize ?j" "jState j' = JournalStateStopped" "on_medium ?j (LogRb ?j) live (view d')"
    "outside ?j (apply_txs live (view d')) S" by blast
  note l = volume_page_length [OF junk v(2), of h devsize "journal_blocks devsize"]
  from write_page_reliable [OF rel _ l, of 0 d'] obtain page' d1 where
    w: "SubmitWaitResult_page io ?page 0 True True [] d' = (Success, page', [], d1)" by auto
  have d1: "view d1 = put_page 0 ?page (view d')" "crash d1 \<subseteq> {view d1}" using write_page [OF w l] by auto
  have js: "journal_start ?j = 4096" "journal_end ?j = unat (test_pos devsize)"
    using V test_pos_ok(1) [OF size] by (simp_all add: journal_start_def journal_end_def)
  have behind: "view d1 p = view d' p" if "4096 \<le> p" for p using that l by (simp add: d1(1) put_page_def PageSize_def)
  have "page_at (view d1) 4096 = page_at (view d') 4096" by (intro page_at_cong behind)
  moreover have "holds (view d1) ?j (slots (LogRb ?j)) (log_of live)"
  proof (rule holds_same)
    show "holds (view d') ?j (slots (LogRb ?j)) (log_of live)" using u(4) by (simp add: on_medium_def)
    show "view d1 p = view d' p" if "slot_pos ?j s \<le> p" for s p using that V by (intro behind) (simp add: slot_pos_def)
  qed
  ultimately have "on_medium ?j (LogRb ?j) live (view d1)" using u(4) js(1) by (simp add: on_medium_def)
  moreover have "apply_txs live (view d1) p = S p" if "unat (test_pos devsize) \<le> p" for p
  proof -
    have "4096 \<le> p" using that test_pos_ok(1) [OF size] by simp
    then show ?thesis using apply_txs_cong [of "view d1" p "view d'"] behind u(5) that js(2) by (auto simp: outside_def)
  qed
  moreover have "Volume_Unload io h junk [] d v = (Success, v\<lparr>TxJournal := j', vState := VolumeStateStopped\<rparr>, [], d1)"
    using V u(1,2) w by (simp add: Volume_Unload_def Page_Create_def volume_states)
  moreover have "page_at (view d1) 0 = ?page" by (simp add: d1(1) page_at_put_same l)
  ultimately show ?thesis using d1(2) u(3) by simp
qed

lemma remount_ok:
  assumes rel: "reliable io" and junk: "length junk = PageSize"
    and size: "81920 \<le> unat devsize" "unat devsize < 9223372036854775808" "devsize mod BlockSize = 0"
    and v: "vol_running view crash devsize v rb0 gone live S d" "length (VolumeId v) = GuidSize"
    and new: "vState v0 = VolumeStateNew" "jState (TxJournal v0) = JournalStateNew"
  shows "\<exists>v1 d1 v2 d2. Volume_Unload io h junk [] d v = (Success, v1, [], d1) \<and> vState v1 = VolumeStateStopped \<and> jState (TxJournal v1) = JournalStateStopped \<and>
    Volume_Load io h' devsize junk [] d1 v0 = Some (Success, v2, [], d2) \<and> VolumeId v2 = VolumeId v \<and> ChunkTable v2 = ChunkTable v0 \<and>
    (\<forall>p. unat (test_pos devsize) \<le> p \<longrightarrow> view d2 p = S p) \<and>
    vol_running view crash devsize v2 (LogRb (TxJournal v)) live [] (view d2) d2"
proof -
  note V = v(1) [unfolded vol_running_def] let ?j = "TxJournal v" let ?k = "(TxJournal v0)\<lparr>jStart := 1, jSize := journal_blocks devsize\<rparr>"
  from Volume_Unload_ok [OF rel junk v size(1,2), of h] obtain v1 d1 where
    u: "Volume_Unload io h junk [] d v = (Success, v1, [], d1)" "vState v1 = VolumeStateStopped" "jState (TxJournal v1) = JournalStateStopped"
    "page_at (view d1) 0 = volume_page h (VolumeId v) devsize (journal_blocks devsize) junk" "on_medium ?j (LogRb ?j) live (view d1)"
    "\<forall>p. unat (test_pos devsize) \<le> p \<longrightarrow> apply_txs live (view d1) p = S p" "crash d1 \<subseteq> {view d1}" by blast
  have I: "log_inv view crash devsize ?j rb0 gone live S d" using V by blast
  have s: "jSize ?j = journal_blocks devsize" using V by blast
  have "jStart ?k = jStart ?j" "jSize ?k = jSize ?j" using V by simp_all
  note cong = place_cong [OF this] medium_cong [OF this]
  have le: "unat (Size (LogRb ?j)) \<le> unat (Size rb0)" using log_inv_slots [OF I] by simp
  have rb: "ring_inv (LogRb ?j)" "unat (Size (LogRb ?j)) < unat (Capacity (LogRb ?j))" "Capacity (LogRb ?j) = journal_blocks devsize - 1"
    using I [unfolded log_inv_def] le s by simp_all
  have "list_all (valid_tx devsize ?k) live" "on_medium ?k (LogRb ?j) live (view d1)" using I u(5) cong by (simp_all add: log_inv_def)
  from Volume_Load_ok [OF rel junk junk v(2) new size u(4) rb this u(7), of h'] show ?thesis using u by fastforce
qed
end

section \<open>Properties\<close>

text \<open>
  Claim C8. A volume can be unloaded and loaded again: both succeed, the loaded volume has the same identifier and runs with the invariant of the
  log, and behind the journal it shows exactly the committed content, the transactions that were only logged included. The table of
  chunks does not survive: it is the one of the new volume object.
\<close>

theorem volume_remount:
  assumes layer: "block_layer io view crash crash_in" "reliable io" and junk: "length junk = PageSize"
    and size: "81920 \<le> unat devsize" "unat devsize < 9223372036854775808" "devsize mod BlockSize = 0"
    and v: "vol_running view crash devsize v rb0 gone live S d" "length (VolumeId v) = GuidSize"
    and new: "vState v0 = VolumeStateNew" "jState (TxJournal v0) = JournalStateNew"
  shows "\<exists>v1 d1 v2 d2. Volume_Unload io h junk [] d v = (Success, v1, [], d1) \<and> vState v1 = VolumeStateStopped \<and>
    Volume_Load io h' devsize junk [] d1 v0 = Some (Success, v2, [], d2) \<and> VolumeId v2 = VolumeId v \<and> ChunkTable v2 = ChunkTable v0 \<and>
    (\<forall>p. unat (test_pos devsize) \<le> p \<longrightarrow> view d2 p = S p) \<and>
    vol_running view crash devsize v2 (LogRb (TxJournal v)) live [] (view d2) d2"
  using block_layer.remount_ok [OF layer junk size v new] by blast

theorem volume_remount_witness:
  "\<exists>d v v1 d1 v2 d2. Volume_Unload good_disk_io LittleEndian (replicate PageSize 0) [] d v = (Success, v1, [], d1) \<and>
     Volume_Load good_disk_io BigEndian sample_vsize (replicate PageSize 0) [] d1 sample_volume = Some (Success, v2, [], d2) \<and>
     VolumeId v = replicate 16 9 \<and> VolumeId v2 = replicate 16 9"
proof -
  have z: "length (replicate PageSize 0) = PageSize" "81920 \<le> unat sample_vsize" "unat sample_vsize < 9223372036854775808" "sample_vsize mod BlockSize = 0"
    "length (replicate 16 9) = GuidSize" by (simp_all add: sample_vsize_def BlockSize_def GuidSize_def)
  from good.Format_Load_ok [OF reliable_good_disk z(1) sample_volume(1,3) sample_volume(1,3) z(2-5), of LittleEndian sample_disk LittleEndian] obtain v2 d2 where
    v: "VolumeId v2 = replicate 16 9"
    "vol_running disk_view disk_crash sample_vsize v2 (empty_ring (journal_blocks sample_vsize - 1)) [] [] (disk_view d2) d2" by blast
  have "length (VolumeId v2) = GuidSize" by (simp add: v(1) GuidSize_def)
  from volume_remount [OF good.block_layer_axioms reliable_good_disk z(1-4) v(2) this sample_volume(1,3), of LittleEndian BigEndian]
  show ?thesis using v(1) by metis
qed

end
