(* ===== verification/Chunk_Store.thy ===== *)
theory Chunk_Store
  imports Volume
begin

text \<open>
  The store of chunks as a contract, and the volume's chunk operations as its implementation. A client sees a map from
  identifiers to the content of chunks; creating a chunk gives it whatever content its memory had.
\<close>

section \<open>The contract\<close>

datatype chunk_op = CCreate guid bytes | CWrite guid bytes | CRead guid bytes | CDelete guid

text \<open>The map, the result and the content returned for each operation when no allocation fails.\<close>

fun chunk_spec :: "chunk_op \<Rightarrow> (guid \<rightharpoonup> bytes) \<Rightarrow> (guid \<rightharpoonup> bytes) \<times> err \<times> bytes" where
  "chunk_spec (CCreate g fresh) s = (if s g = None then (s(g \<mapsto> fresh), Success, []) else (s, AlreadyExists, []))"
| "chunk_spec (CWrite g data) s = (if s g = None then (s, NotFound, []) else (s(g \<mapsto> take ChunkSize data), Success, []))"
| "chunk_spec (CRead g buf) s = (case s g of None \<Rightarrow> (s, NotFound, buf) | Some x \<Rightarrow> (s, Success, x))"
| "chunk_spec (CDelete g) s = (if s g = None then (s, NotFound, []) else (s(g := None), Success, []))"

fun chunk_spec_run :: "chunk_op list \<Rightarrow> (guid \<rightharpoonup> bytes) \<Rightarrow> (guid \<rightharpoonup> bytes) \<times> (err \<times> bytes) list" where
  "chunk_spec_run [] s = (s, [])"
| "chunk_spec_run (c # cs) s =
     (let (s, e, x) = chunk_spec c s; (s, rs) = chunk_spec_run cs s in (s, (e, x) # rs))"

text \<open>Running operations against a store, with successful allocations.\<close>

type_synonym 's chunk_ops =
  "(bytes \<Rightarrow> guid \<Rightarrow> mem \<Rightarrow> 's \<Rightarrow> err \<times> 's \<times> mem) \<times> (guid \<Rightarrow> bytes \<Rightarrow> 's \<Rightarrow> err \<times> 's) \<times>
   (guid \<Rightarrow> bytes \<Rightarrow> 's \<Rightarrow> err \<times> bytes) \<times> (guid \<Rightarrow> 's \<Rightarrow> err \<times> 's)"

fun chunk_step :: "'s chunk_ops \<Rightarrow> chunk_op \<Rightarrow> 's \<Rightarrow> 's \<times> err \<times> bytes" where
  "chunk_step (c, w, r, x) (CCreate g fresh) s = (let (e, s, m) = c fresh g [] s in (s, e, []))"
| "chunk_step (c, w, r, x) (CWrite g data) s = (let (e, s) = w g data s in (s, e, []))"
| "chunk_step (c, w, r, x) (CRead g buf) s = (let (e, y) = r g buf s in (s, e, y))"
| "chunk_step (c, w, r, x) (CDelete g) s = (let (e, s) = x g s in (s, e, []))"

fun chunk_run :: "'s chunk_ops \<Rightarrow> chunk_op list \<Rightarrow> 's \<Rightarrow> 's \<times> (err \<times> bytes) list" where
  "chunk_run f [] s = (s, [])"
| "chunk_run f (c # cs) s = (let (s, e, x) = chunk_step f c s; (s, rs) = chunk_run f cs s in (s, (e, x) # rs))"

locale chunk_store =
  fixes ok :: "'s \<Rightarrow> bool" and abs :: "'s \<Rightarrow> (guid \<rightharpoonup> bytes)"
    and create :: "bytes \<Rightarrow> guid \<Rightarrow> mem \<Rightarrow> 's \<Rightarrow> err \<times> 's \<times> mem" and put_chunk :: "guid \<Rightarrow> bytes \<Rightarrow> 's \<Rightarrow> err \<times> 's"
    and get_chunk :: "guid \<Rightarrow> bytes \<Rightarrow> 's \<Rightarrow> err \<times> bytes" and delete :: "guid \<Rightarrow> 's \<Rightarrow> err \<times> 's"
  assumes create_exists: "ok s \<Longrightarrow> abs s g \<noteq> None \<Longrightarrow> create fresh g m s = (AlreadyExists, s, m)"
    and create_new: "ok s \<Longrightarrow> abs s g = None \<Longrightarrow> \<exists>e s' m'. create fresh g m s = (e, s', m') \<and> ok s' \<and>
      (e = Success \<or> e = NoMemory) \<and> (if False \<in> set m then abs s' = abs s \<or> e = Success \<and> abs s' = (abs s)(g \<mapsto> fresh)
       else e = Success \<and> abs s' = (abs s)(g \<mapsto> fresh))"
    and write_law: "ok s \<Longrightarrow> \<exists>s'. put_chunk g data s = (if abs s g = None then (NotFound, s) else (Success, s')) \<and>
      (abs s g \<noteq> None \<longrightarrow> ok s' \<and> abs s' = (abs s)(g \<mapsto> take ChunkSize data))"
    and read_law: "ok s \<Longrightarrow> get_chunk g buf s = (case abs s g of None \<Rightarrow> (NotFound, buf) | Some x \<Rightarrow> (Success, x))"
    and delete_law: "ok s \<Longrightarrow> \<exists>s'. delete g s = (if abs s g = None then NotFound else Success, s') \<and> ok s' \<and> abs s' = (abs s)(g := None)"
begin

abbreviation ops :: "'s chunk_ops" where
  "ops \<equiv> (create, put_chunk, get_chunk, delete)"

lemma step_refines:
  assumes "ok s"
  shows "\<exists>s'. chunk_step ops c s = (s', snd (chunk_spec c (abs s))) \<and> ok s' \<and> abs s' = fst (chunk_spec c (abs s))"
proof (cases c)
  case (CCreate g fresh)
  then show ?thesis using create_exists [OF assms] create_new [OF assms, of g fresh "[]"] assms
    by (cases "abs s g") auto
next
  case (CWrite g data)
  then show ?thesis using write_law [OF assms, of g data] assms by (cases "abs s g") auto
next
  case (CRead g buf)
  then show ?thesis using read_law [OF assms] assms by (auto split: option.split)
next
  case (CDelete g)
  then show ?thesis using delete_law [OF assms, of g] by (cases "abs s g") (auto simp: fun_upd_idem)
qed

lemma run_refines:
  assumes "ok s"
  shows "\<exists>s'. chunk_run ops cs s = (s', snd (chunk_spec_run cs (abs s))) \<and> ok s' \<and> abs s' = fst (chunk_spec_run cs (abs s))"
  using assms
proof (induction cs arbitrary: s)
  case (Cons c cs)
  from step_refines [OF Cons.prems, of c] obtain s1 where
    s1: "chunk_step ops c s = (s1, snd (chunk_spec c (abs s)))" "ok s1" "abs s1 = fst (chunk_spec c (abs s))" by blast
  from Cons.IH [OF s1(2)] obtain s2 where
    "chunk_run ops cs s1 = (s2, snd (chunk_spec_run cs (abs s1)))" "ok s2" "abs s2 = fst (chunk_spec_run cs (abs s1))" by blast
  then show ?case using s1 by (auto simp: split_beta Let_def)
qed simp

end

section \<open>The volume implements it\<close>

definition vol_chunks :: "Volume \<Rightarrow> (guid \<rightharpoonup> bytes)" where
  "vol_chunks v = (\<lambda>g. map_option (Chunks v) (ht_map (ChunkTable v) g))"

text \<open>Different identifiers have different chunks, and no chunk is newer than the store.\<close>

definition chunks_ok :: "Volume \<Rightarrow> bool" where
  "chunks_ok v \<longleftrightarrow> vState v = VolumeStateRunning \<and> ht_inv guid_hash ChunkBuckets (ChunkTable v) \<and>
     (\<forall>g c. ht_map (ChunkTable v) g = Some c \<longrightarrow> c < NextChunk v) \<and>
     (\<forall>g g' c. ht_map (ChunkTable v) g = Some c \<and> ht_map (ChunkTable v) g' = Some c \<longrightarrow> g = g')"

lemma Insert_copy_ok:
  assumes "ht_inv hash n t" "ht_map t k = None"
  shows "\<exists>t' m'. Insert_copy hash n k v m t = (t', True, m') \<and> ht_inv hash n t' \<and>
    ht_map t' = (if fst (new m) then (ht_map t)(k \<mapsto> v) else ht_map t)"
  using bucket_add_ok [OF assms, of v m] assms(2) ht_map_bucket [OF assms(1), of k]
  by (auto simp: Insert_copy_def scan_map_of)

lemma MakeShared_fails: "MakeShared m = (False, m') \<Longrightarrow> False \<in> set m"
  by (cases m rule: new.cases; cases "tl m" rule: new.cases) (auto simp: MakeShared_def split: if_splits)

lemma MakeShared_rest: "MakeShared m = (ok, m') \<Longrightarrow> set m' \<subseteq> set m"
  by (cases m rule: new.cases; cases "tl m" rule: new.cases) (auto simp: MakeShared_def split: if_splits)

lemma ChunkCreate_new:
  assumes v: "chunks_ok v" and g: "vol_chunks v g = None"
  shows "\<exists>e v' m'. ChunkCreate fresh g m v = (e, v', m') \<and> chunks_ok v' \<and> (e = Success \<or> e = NoMemory) \<and>
    (if False \<in> set m then vol_chunks v' = vol_chunks v \<or> e = Success \<and> vol_chunks v' = (vol_chunks v)(g \<mapsto> fresh)
     else e = Success \<and> vol_chunks v' = (vol_chunks v)(g \<mapsto> fresh))"
proof -
  note C = v [unfolded chunks_ok_def]
  have n: "ht_map (ChunkTable v) g = None" using g by (simp add: vol_chunks_def)
  have look: "Lookup_key guid_hash ChunkBuckets g (ChunkTable v) = (EmptyVal (ChunkTable v), False)"
    using Lookup_key_ok(1) [of guid_hash ChunkBuckets "ChunkTable v" g] C n by simp
  obtain ok m1 where m1: "MakeShared m = (ok, m1)" by fastforce
  show ?thesis
  proof (cases ok)
    case False
    then have "ChunkCreate fresh g m v = (NoMemory, v, m1)" using C look m1 by (simp add: ChunkCreate_def)
    then show ?thesis using v MakeShared_fails [of m m1] m1 False by auto
  next
    case True
    from Insert_copy_ok [of guid_hash ChunkBuckets "ChunkTable v" g "NextChunk v" m1] C n obtain t' m2 where
      t: "Insert_copy guid_hash ChunkBuckets g (NextChunk v) m1 (ChunkTable v) = (t', True, m2)" "ht_inv guid_hash ChunkBuckets t'"
      "ht_map t' = (if fst (new m1) then (ht_map (ChunkTable v))(g \<mapsto> NextChunk v) else ht_map (ChunkTable v))" by auto
    let ?v = "v\<lparr>Chunks := (Chunks v)(NextChunk v := fresh), NextChunk := NextChunk v + 1, ChunkTable := t'\<rparr>"
    have r: "ChunkCreate fresh g m v = (Success, ?v, m2)" using C look m1 True t(1) by (simp add: ChunkCreate_def Let_def)
    have "chunks_ok ?v" using C t(2,3) by (fastforce simp: chunks_ok_def split: if_splits)
    moreover have "vol_chunks ?v = (if fst (new m1) then (vol_chunks v)(g \<mapsto> fresh) else vol_chunks v)"
    proof
      fix x
      have "ht_map (ChunkTable v) x \<noteq> Some (NextChunk v)" using C by fastforce
      then show "vol_chunks ?v x = (if fst (new m1) then (vol_chunks v)(g \<mapsto> fresh) else vol_chunks v) x"
        by (cases "ht_map (ChunkTable v) x") (auto simp: vol_chunks_def t(3))
    qed
    moreover have "False \<in> set m" if "\<not> fst (new m1)" using new_fail [OF that] MakeShared_rest [OF m1] by blast
    ultimately show ?thesis using r by auto
  qed
qed

interpretation vol: chunk_store chunks_ok vol_chunks ChunkCreate ChunkWrite ChunkRead ChunkDelete
proof
  fix v :: Volume assume v: "chunks_ok v"
  note C = v [unfolded chunks_ok_def]
  note look = Lookup_key_ok(1) [of guid_hash ChunkBuckets "ChunkTable v"]
  show "ChunkCreate fresh g m v = (AlreadyExists, v, m)" if "vol_chunks v g \<noteq> None" for fresh g m
    using that C look [of g] by (auto simp: ChunkCreate_def vol_chunks_def)
  show "\<exists>e s' m'. ChunkCreate fresh g m v = (e, s', m') \<and> chunks_ok s' \<and> (e = Success \<or> e = NoMemory) \<and>
      (if False \<in> set m then vol_chunks s' = vol_chunks v \<or> e = Success \<and> vol_chunks s' = (vol_chunks v)(g \<mapsto> fresh)
       else e = Success \<and> vol_chunks s' = (vol_chunks v)(g \<mapsto> fresh))" if "vol_chunks v g = None" for fresh g m
    using ChunkCreate_new [OF v that] .
  show "\<exists>s'. ChunkWrite g data v = (if vol_chunks v g = None then (NotFound, v) else (Success, s')) \<and>
      (vol_chunks v g \<noteq> None \<longrightarrow> chunks_ok s' \<and> vol_chunks s' = (vol_chunks v)(g \<mapsto> take ChunkSize data))" for g data
  proof (cases "ht_map (ChunkTable v) g")
    case None
    then show ?thesis using C look [of g] by (simp add: ChunkWrite_def vol_chunks_def)
  next
    case (Some c)
    let ?v = "v\<lparr>Chunks := (Chunks v)(c := take ChunkSize data)\<rparr>"
    have "ChunkWrite g data v = (Success, ?v)" using C look [of g] Some by (simp add: ChunkWrite_def)
    moreover have "vol_chunks ?v = (vol_chunks v)(g \<mapsto> take ChunkSize data)"
    proof
      fix x
      have "x = g" if "ht_map (ChunkTable v) x = Some c" using C that Some by blast
      then show "vol_chunks ?v x = ((vol_chunks v)(g \<mapsto> take ChunkSize data)) x"
        using Some by (cases "ht_map (ChunkTable v) x") (auto simp: vol_chunks_def)
    qed
    moreover have "chunks_ok ?v" using v by (simp add: chunks_ok_def)
    ultimately show ?thesis using Some by (auto simp: vol_chunks_def)
  qed
  show "ChunkRead g buf v = (case vol_chunks v g of None \<Rightarrow> (NotFound, buf) | Some x \<Rightarrow> (Success, x))" for g buf
    using C look [of g] by (auto simp: ChunkRead_def vol_chunks_def split: option.split)
  show "\<exists>s'. ChunkDelete g v = (if vol_chunks v g = None then NotFound else Success, s') \<and> chunks_ok s' \<and>
      vol_chunks s' = (vol_chunks v)(g := None)" for g
  proof -
    from Delete_key_ok [of guid_hash ChunkBuckets "ChunkTable v" g] C obtain t' where
      t: "Delete_key guid_hash ChunkBuckets g (ChunkTable v) = (t', ht_map (ChunkTable v) g \<noteq> None)" "ht_inv guid_hash ChunkBuckets t'"
      "ht_map t' = (ht_map (ChunkTable v))(g := None)" by auto
    have "chunks_ok (v\<lparr>ChunkTable := t'\<rparr>)" using C t(2,3) by (auto simp: chunks_ok_def split: if_splits)
    moreover have "vol_chunks (v\<lparr>ChunkTable := t'\<rparr>) = (vol_chunks v)(g := None)" by (auto simp: vol_chunks_def t(3) fun_eq_iff)
    ultimately show ?thesis using C t(1) by (simp add: ChunkDelete_def vol_chunks_def)
  qed
qed

section \<open>Properties\<close>

lemma ChunkLookup_ok:
  assumes "chunks_ok v"
  shows "ChunkLookup g v = (if vol_chunks v g = None then NotFound else Success)"
  using assms Lookup_key_ok(2) [of guid_hash ChunkBuckets "ChunkTable v" g] by (auto simp: ChunkLookup_def chunks_ok_def vol_chunks_def)

lemma loaded_chunks_ok: "chunks_ok (v\<lparr>ChunkTable := make_HashTable ChunkBuckets 0, vState := VolumeStateRunning\<rparr>)"
  "vol_chunks (v\<lparr>ChunkTable := make_HashTable ChunkBuckets 0, vState := VolumeStateRunning\<rparr>) = Map.empty"
  by (simp_all add: chunks_ok_def vol_chunks_def ChunkBuckets_def fun_eq_iff)

text \<open>
  The entry of the table is the third allocation of \<open>ChunkCreate\<close>. When it fails, success is reported for a chunk
  that does not exist.
\<close>

lemma ChunkCreate_hides_failure:
  assumes v: "chunks_ok v" and g: "vol_chunks v g = None"
  shows "\<exists>v' m'. ChunkCreate fresh g [True, True, False] v = (Success, v', m') \<and> vol_chunks v' g = None"
proof -
  note C = v [unfolded chunks_ok_def]
  have n: "ht_map (ChunkTable v) g = None" using g by (simp add: vol_chunks_def)
  have look: "Lookup_key guid_hash ChunkBuckets g (ChunkTable v) = (EmptyVal (ChunkTable v), False)"
    using Lookup_key_ok(1) [of guid_hash ChunkBuckets "ChunkTable v" g] C n by simp
  from Insert_copy_ok [of guid_hash ChunkBuckets "ChunkTable v" g "NextChunk v" "[False]"] C n obtain t m where
    "Insert_copy guid_hash ChunkBuckets g (NextChunk v) [False] (ChunkTable v) = (t, True, m)" "ht_map t g = None" by auto
  then show ?thesis using C look by (auto simp: ChunkCreate_def MakeShared_def Let_def vol_chunks_def)
qed

text \<open>
  Claim C6. Whatever sequence of operations clients issue on the chunks of a running volume, every result, every byte
  read and the final content are those of a map from identifiers to contents, provided that memory suffices: a chunk
  is created once, reading returns what was last written, deleting removes it, and the errors tell an existing chunk from a missing one. Looking a chunk up
  afterwards agrees with the map.
\<close>

theorem volume_chunks_refine_map:
  assumes "chunks_ok v"
  shows "\<exists>v'. chunk_run (ChunkCreate, ChunkWrite, ChunkRead, ChunkDelete) cs v = (v', snd (chunk_spec_run cs (vol_chunks v))) \<and>
    chunks_ok v' \<and> vol_chunks v' = fst (chunk_spec_run cs (vol_chunks v)) \<and>
    (\<forall>g. ChunkLookup g v' = (if fst (chunk_spec_run cs (vol_chunks v)) g = None then NotFound else Success))"
  using vol.run_refines [OF assms, of cs] ChunkLookup_ok by metis

theorem volume_chunks_refine_map_witness:
  "\<exists>v. chunks_ok v \<and> vol_chunks v = Map.empty \<and>
     (\<exists>v'. chunk_run (ChunkCreate, ChunkWrite, ChunkRead, ChunkDelete)
       [CCreate [7] [0], CWrite [7] [1, 2], CCreate [7] [0], CRead [7] [9], CDelete [7], CRead [7] [9]] v =
       (v', [(Success, []), (Success, []), (AlreadyExists, []), (Success, [1, 2]), (Success, []), (NotFound, [9])]) \<and>
       ChunkLookup [7] v' = NotFound)"
proof -
  let ?cs = "[CCreate [7] [0], CWrite [7] [1, 2], CCreate [7] [0], CRead [7] [9], CDelete [7], CRead [7] [9]]"
  let ?v0 = "fst (snd (the (make_Volume (\<lambda>_. 0) sample_rb make_Vector Success [])))"
  define v where "v = ?v0\<lparr>ChunkTable := make_HashTable ChunkBuckets 0, vState := VolumeStateRunning\<rparr>"
  have v: "chunks_ok v" "vol_chunks v = Map.empty" using loaded_chunks_ok [of ?v0] by (simp_all add: v_def)
  have s: "chunk_spec_run ?cs Map.empty =
    (Map.empty, [(Success, []), (Success, []), (AlreadyExists, []), (Success, [1, 2]), (Success, []), (NotFound, [9])])"
    by (simp add: ChunkSize_def)
  from volume_chunks_refine_map [OF v(1), of ?cs] obtain v' where
    "chunk_run (ChunkCreate, ChunkWrite, ChunkRead, ChunkDelete) ?cs v =
       (v', [(Success, []), (Success, []), (AlreadyExists, []), (Success, [1, 2]), (Success, []), (NotFound, [9])])"
    "ChunkLookup [7] v' = NotFound"
    unfolding v(2) s by auto
  with v show ?thesis by blast
qed

end
