(* ===== verification/Ksocket.thy ===== *)
theory Ksocket
  imports Errors Layout
begin

text \<open>
  The kernel sockets of \<^verbatim>\<open>src/system/ksocket.c\<close>.

  The calls that make, bind and connect sockets run against a kernel that answers each call with a result of its choice (a
  list \<open>Results\<close>, zero when it is used up) and records the calls made, so that what is left open can be read off the
  record. The calls that transfer bytes take the kernel's \<open>sock_recvmsg\<close>, \<open>sock_sendmsg\<close>, \<open>sock_setsockopt\<close>
  and clock as functions over a state of their own.
\<close>

section \<open>Making sockets\<close>

datatype family = AF_INET | AF_INET6 | PF_PACKET

record sockaddr =
  ss_family :: family
  ss_addr :: bytes
  ss_port :: "16 word"

datatype kcall =
  KCreate nat family | KSetOpt nat | KNoDelay nat int | KSndBuf nat int | KRcvBuf nat int | KBind nat sockaddr
| KConnect nat sockaddr | KListen nat int | KAccept nat nat | KSchedule | KWakeAll nat | KShutdown nat | KRelease nat

record kernel =
  Results :: "int list"
  Calls :: "kcall list"
  NextSock :: nat

definition answer :: "kernel \<Rightarrow> int \<times> kernel" where
  "answer k = (case Results k of [] \<Rightarrow> (0, k) | e # es \<Rightarrow> (e, k\<lparr>Results := es\<rparr>))"

definition kcall :: "kcall \<Rightarrow> kernel \<Rightarrow> int \<times> kernel" where
  "kcall c k = (let (e, k) = answer k in (e, k\<lparr>Calls := Calls k @ [c]\<rparr>))"

text \<open>\<open>sock_create\<close> and \<open>sock_create_lite\<close> give a socket only when they succeed.\<close>

definition sock_create :: "family \<Rightarrow> kernel \<Rightarrow> int \<times> nat \<times> kernel" where
  "sock_create fam k =
     (let (e, k) = answer k; sk = NextSock k
      in if e \<noteq> 0 then (e, sk, k) else (0, sk, k\<lparr>Calls := Calls k @ [KCreate sk fam], NextSock := sk + 1\<rparr>))"

definition sock_release :: "nat \<Rightarrow> kernel \<Rightarrow> kernel" where
  "sock_release sk k = k\<lparr>Calls := Calls k @ [KRelease sk]\<rparr>"

definition ksock_set_nodelay :: "nat \<Rightarrow> bool \<Rightarrow> kernel \<Rightarrow> int \<times> kernel" where
  "ksock_set_nodelay sk no_delay k = kcall (KNoDelay sk (if no_delay then 1 else 0)) k"

definition ksock_set_sendbufsize :: "nat \<Rightarrow> int \<Rightarrow> kernel \<Rightarrow> int \<times> kernel" where
  "ksock_set_sendbufsize sk size' k = kcall (KSndBuf sk size') k"

definition ksock_set_rcvbufsize :: "nat \<Rightarrow> int \<Rightarrow> kernel \<Rightarrow> int \<times> kernel" where
  "ksock_set_rcvbufsize sk size' k = kcall (KRcvBuf sk size') k"

text \<open>The result and, when it is zero, the socket.\<close>

type_synonym sock_result = "int \<times> nat option \<times> kernel"

definition INADDR_ANY :: bytes where "INADDR_ANY = [0, 0, 0, 0]"

definition htonl :: "uint32_t \<Rightarrow> bytes" where
  "htonl x = rev (le_bytes 4 x)"

definition ksock_create :: "uint32_t \<Rightarrow> 16 word \<Rightarrow> kernel \<Rightarrow> sock_result" where
  "ksock_create local_ip local_port k =
     (let (error, sock, k) = sock_create AF_INET k
      in if error \<noteq> 0 then (error, None, k)
      else let (error, k) = kcall (KSetOpt sock) k
      in if error \<noteq> 0 then (error, None, sock_release sock k)
      else if local_ip \<noteq> 0 \<or> local_port \<noteq> 0 then
        let (error, k) = kcall (KBind sock \<lparr>ss_family = AF_INET, ss_addr = (if local_ip = 0 then INADDR_ANY else htonl local_ip), ss_port = local_port\<rparr>) k
        in if error \<noteq> 0 then (error, None, sock_release sock k) else (0, Some sock, k)
      else (0, Some sock, k))"

definition ksock_connect :: "uint32_t \<Rightarrow> 16 word \<Rightarrow> uint32_t \<Rightarrow> 16 word \<Rightarrow> kernel \<Rightarrow> sock_result" where
  "ksock_connect local_ip local_port peer_ip peer_port k =
     (case ksock_create local_ip local_port k of
        (error, None, k) \<Rightarrow> (error, None, k)
      | (error, Some sock, k) \<Rightarrow>
          (let (error, k) = ksock_set_nodelay sock True k
           in if error \<noteq> 0 then (error, None, sock_release sock k)
           else let (error, k) = kcall (KConnect sock \<lparr>ss_family = AF_INET, ss_addr = htonl peer_ip, ss_port = peer_port\<rparr>) k
           in if error \<noteq> 0 then (error, None, sock_release sock k) else (0, Some sock, k)))"

definition ksock_release :: "nat \<Rightarrow> kernel \<Rightarrow> kernel" where
  "ksock_release sock k = sock_release sock (snd (kcall (KShutdown sock) k))"

definition ksock_listen :: "uint32_t \<Rightarrow> 16 word \<Rightarrow> int \<Rightarrow> kernel \<Rightarrow> sock_result" where
  "ksock_listen local_ip local_port backlog k =
     (case ksock_create local_ip local_port k of
        (error, None, k) \<Rightarrow> (error, None, k)
      | (error, Some sock, k) \<Rightarrow>
          (let (error, k) = kcall (KListen sock backlog) k
           in if error \<noteq> 0 then (error, None, sock_release sock k) else (0, Some sock, k)))"

definition ksock_accept :: "nat \<Rightarrow> kernel \<Rightarrow> sock_result" where
  "ksock_accept sock k =
     (let (error, newsock, k) = sock_create PF_PACKET k
      in if error \<noteq> 0 then (error, None, k)
      else let (error, k) = kcall (KAccept sock newsock) k;
               (error, k) = (if error = Again then kcall (KAccept sock newsock) (snd (kcall KSchedule k)) else (error, k))
      in if error \<noteq> 0 then (error, None, sock_release newsock k) else (0, Some newsock, k))"

definition ksock_abort_accept :: "nat \<Rightarrow> kernel \<Rightarrow> kernel" where
  "ksock_abort_accept sock k = snd (kcall (KWakeAll sock) k)"

subsection \<open>Names of hosts\<close>

text \<open>The kernel's parsers of addresses and its name service.\<close>

record resolver =
  in4_pton :: "bytes \<Rightarrow> bytes option"
  in6_pton :: "bytes \<Rightarrow> bytes option"
  dns_query :: "bytes \<Rightarrow> bytes option"

definition ksock_addr_set_port :: "16 word \<Rightarrow> sockaddr \<Rightarrow> sockaddr" where
  "ksock_addr_set_port p ss = (case ss_family ss of AF_INET \<Rightarrow> ss\<lparr>ss_port := p\<rparr> | AF_INET6 \<Rightarrow> ss\<lparr>ss_port := p\<rparr> | _ \<Rightarrow> ss)"

definition ksock_pton :: "resolver \<Rightarrow> bytes \<Rightarrow> int + sockaddr" where
  "ksock_pton rs ip =
     (case in4_pton rs ip of
        Some a \<Rightarrow> Inr \<lparr>ss_family = AF_INET, ss_addr = a, ss_port = 0\<rparr>
      | None \<Rightarrow> (case in6_pton rs ip of
          Some a \<Rightarrow> Inr \<lparr>ss_family = AF_INET6, ss_addr = a, ss_port = 0\<rparr>
        | None \<Rightarrow> Inl InvalidValue))"

definition ESRCH :: int where "ESRCH = 3"

definition ksock_dns_resolve :: "resolver \<Rightarrow> bytes \<Rightarrow> int + sockaddr" where
  "ksock_dns_resolve rs name = (case dns_query rs name of Some ip \<Rightarrow> ksock_pton rs ip | None \<Rightarrow> Inl (- ESRCH))"

text \<open>A host is an address or, failing that, a name.\<close>

definition ksock_resolve :: "resolver \<Rightarrow> bytes \<Rightarrow> int + sockaddr" where
  "ksock_resolve rs host = (case ksock_pton rs host of Inr a \<Rightarrow> Inr a | Inl e \<Rightarrow> ksock_dns_resolve rs host)"

definition ksock_connect_host :: "resolver \<Rightarrow> bytes \<Rightarrow> 16 word \<Rightarrow> kernel \<Rightarrow> sock_result" where
  "ksock_connect_host rs host port k =
     (case ksock_resolve rs host of
        Inl r \<Rightarrow> (r, None, k)
      | Inr addr \<Rightarrow>
          (let (r, sock, k) = sock_create (ss_family addr) k
           in if r \<noteq> 0 then (r, None, k)
           else let (r, k) = kcall (KSetOpt sock) k
           in if r \<noteq> 0 then (r, None, sock_release sock k)
           else let (r, k) = ksock_set_nodelay sock True k
           in if r \<noteq> 0 then (r, None, sock_release sock k)
           else let (r, k) = kcall (KConnect sock (ksock_addr_set_port port addr)) k
           in if r \<noteq> 0 then (r, None, sock_release sock k) else (0, Some sock, k)))"

definition ksock_create_host :: "resolver \<Rightarrow> bytes \<Rightarrow> 16 word \<Rightarrow> kernel \<Rightarrow> sock_result" where
  "ksock_create_host rs host port k =
     (case ksock_resolve rs host of
        Inl error \<Rightarrow> (error, None, k)
      | Inr addr \<Rightarrow>
          (let (error, sock, k) = sock_create (ss_family addr) k
           in if error \<noteq> 0 then (error, None, k)
           else let (error, k) = kcall (KSetOpt sock) k
           in if error \<noteq> 0 then (error, None, sock_release sock k)
           else let (error, k) = kcall (KBind sock (ksock_addr_set_port port addr)) k
           in if error \<noteq> 0 then (error, None, sock_release sock k) else (0, Some sock, k)))"

definition ksock_listen_host :: "resolver \<Rightarrow> bytes \<Rightarrow> 16 word \<Rightarrow> int \<Rightarrow> kernel \<Rightarrow> sock_result" where
  "ksock_listen_host rs host port backlog k =
     (case ksock_create_host rs host port k of
        (error, None, k) \<Rightarrow> (error, None, k)
      | (error, Some sock, k) \<Rightarrow>
          (let (error, k) = kcall (KListen sock backlog) k
           in if error \<noteq> 0 then (error, None, sock_release sock k) else (0, Some sock, k)))"

section \<open>Transferring bytes\<close>

text \<open>
  The transfer calls of the kernel on a socket: they report an error or the bytes received, respectively the number of bytes
  taken. \<open>HZ\<close> is the number of clock ticks per second.
\<close>

record 's net =
  HZ :: uint64_t
  set_timeo :: "nat \<Rightarrow> uint64_t \<times> uint64_t \<Rightarrow> 's \<Rightarrow> int \<times> 's"
  recvmsg :: "nat \<Rightarrow> nat \<Rightarrow> 's \<Rightarrow> (int + bytes) \<times> 's"
  sendmsg :: "nat \<Rightarrow> bool \<Rightarrow> bytes \<Rightarrow> 's \<Rightarrow> (int + nat) \<times> 's"
  jiffies :: "'s \<Rightarrow> uint64_t"

definition ECONNABORTED :: int where "ECONNABORTED = 103"
definition ETIME :: int where "ETIME = 62"
definition ETIMEDOUT :: int where "ETIMEDOUT = 110"

text \<open>The time left after a call that started at \<open>then'\<close>.\<close>

definition ticks_left :: "uint64_t \<Rightarrow> uint64_t \<Rightarrow> uint64_t \<Rightarrow> uint64_t" where
  "ticks_left ticks then' now = (let delta = now - then'; delta = (if delta > ticks then ticks else delta) in ticks - delta)"

definition timeval :: "'s net \<Rightarrow> uint64_t \<Rightarrow> uint64_t \<times> uint64_t" where
  "timeval io ticks = (ticks div HZ io, ((ticks mod HZ io) * 1000000) div HZ io)"

text \<open>The bytes read so far are \<open>acc\<close>; they lie in the buffer one after the other.\<close>

partial_function (option) ksock_read_timeout_loop ::
  "'s net \<Rightarrow> nat \<Rightarrow> uint32_t \<Rightarrow> uint64_t \<Rightarrow> bytes \<Rightarrow> 's \<Rightarrow> (int \<times> bytes \<times> 's) option" where
  [code]: "ksock_read_timeout_loop io sock nob ticks acc s =
     (let (error, s) = set_timeo io sock (timeval io ticks) s
      in if error \<noteq> 0 then Some (error, acc, s)
      else case recvmsg io sock (unat nob) s of
        (Inl error, s') \<Rightarrow> Some (error, acc, s')
      | (Inr bs, s') \<Rightarrow>
          (let ticks = ticks_left ticks (jiffies io s) (jiffies io s')
           in if bs = [] then Some (ConnReset, acc, s')
           else let acc = acc @ bs; nob = nob - of_nat (length bs)
           in if nob = 0 then Some (0, acc, s')
           else if ticks = 0 then Some (- ETIMEDOUT, acc, s')
           else ksock_read_timeout_loop io sock nob ticks acc s'))"

definition ksock_read_timeout :: "'s net \<Rightarrow> nat \<Rightarrow> uint32_t \<Rightarrow> uint64_t \<Rightarrow> 's \<Rightarrow> (int \<times> bytes \<times> 's) option" where
  "ksock_read_timeout io sock nob ticks s =
     (if nob = 0 then Some (InvalidValue, [], s) else ksock_read_timeout_loop io sock nob ticks [] s)"

partial_function (option) ksock_read_loop ::
  "'s net \<Rightarrow> nat \<Rightarrow> uint32_t \<Rightarrow> int \<Rightarrow> bytes \<Rightarrow> 's \<Rightarrow> (int \<times> bytes \<times> 's) option" where
  [code]: "ksock_read_loop io sock nob err acc s =
     (let off = of_nat (length acc)
      in if off < nob then
           case ksock_read_timeout io sock (nob - off) (60 * HZ io) s of
             None \<Rightarrow> None
           | Some (err, bs, s) \<Rightarrow>
               (if err \<noteq> 0 then Some (err, acc @ bs, s) else ksock_read_loop io sock nob err (acc @ bs) s)
         else Some (err, acc, s))"

definition ksock_read :: "'s net \<Rightarrow> nat \<Rightarrow> uint32_t \<Rightarrow> 's \<Rightarrow> (int \<times> bytes \<times> 's) option" where
  "ksock_read io sock nob s = ksock_read_loop io sock nob 0 [] s"

text \<open>
  The return value is the error or the number of bytes read; either way the bytes have been put into the buffer.
\<close>

definition ksock_recv :: "'s net \<Rightarrow> nat \<Rightarrow> nat \<Rightarrow> 's \<Rightarrow> (int \<times> bytes \<times> 's) option" where
  "ksock_recv io sock len s =
     (case ksock_read io sock (of_nat len) s of
        None \<Rightarrow> None
      | Some (r, bs, s) \<Rightarrow> Some (if r \<noteq> 0 then r else int (length bs), bs, s))"

text \<open>Writing: the number of bytes written so far is \<open>wrote\<close>.\<close>

partial_function (option) ksock_write_timeout_loop ::
  "'s net \<Rightarrow> nat \<Rightarrow> bytes \<Rightarrow> uint32_t \<Rightarrow> uint64_t \<Rightarrow> nat \<Rightarrow> 's \<Rightarrow> (int \<times> nat \<times> 's) option" where
  [code]: "ksock_write_timeout_loop io sock buf nob ticks wrote s =
     (let (error, s) = set_timeo io sock (timeval io ticks) s
      in if error \<noteq> 0 then Some (error, wrote, s)
      else case sendmsg io sock (ticks = 0) (take (unat nob) buf) s of
        (Inl error, s') \<Rightarrow> Some (error, wrote, s')
      | (Inr n, s') \<Rightarrow>
          (let ticks = ticks_left ticks (jiffies io s) (jiffies io s')
           in if n = 0 then Some (- ECONNABORTED, wrote, s')
           else let wrote = wrote + n; nob = nob - of_nat n
           in if nob = 0 then Some (0, wrote, s')
           else if ticks = 0 then Some (- ETIME, wrote, s')
           else ksock_write_timeout_loop io sock (drop n buf) nob ticks wrote s'))"

definition ksock_write_timeout :: "'s net \<Rightarrow> nat \<Rightarrow> bytes \<Rightarrow> uint32_t \<Rightarrow> uint64_t \<Rightarrow> 's \<Rightarrow> (int \<times> nat \<times> 's) option" where
  "ksock_write_timeout io sock buf nob ticks s =
     (if nob = 0 then Some (InvalidValue, 0, s) else ksock_write_timeout_loop io sock buf nob ticks 0 s)"

partial_function (option) ksock_write_loop ::
  "'s net \<Rightarrow> nat \<Rightarrow> bytes \<Rightarrow> uint32_t \<Rightarrow> int \<Rightarrow> nat \<Rightarrow> 's \<Rightarrow> (int \<times> nat \<times> 's) option" where
  [code]: "ksock_write_loop io sock buf nob err off s =
     (if of_nat off < nob then
        case ksock_write_timeout io sock (drop off buf) (nob - of_nat off) (60 * HZ io) s of
          None \<Rightarrow> None
        | Some (err, wrote, s) \<Rightarrow>
            (if err \<noteq> 0 then Some (err, off + wrote, s) else ksock_write_loop io sock buf nob err (off + wrote) s)
      else Some (err, off, s))"

definition ksock_write :: "'s net \<Rightarrow> nat \<Rightarrow> bytes \<Rightarrow> uint32_t \<Rightarrow> 's \<Rightarrow> (int \<times> nat \<times> 's) option" where
  "ksock_write io sock buf nob s = ksock_write_loop io sock buf nob 0 0 s"

definition ksock_send :: "'s net \<Rightarrow> nat \<Rightarrow> bytes \<Rightarrow> nat \<Rightarrow> 's \<Rightarrow> (int \<times> 's) option" where
  "ksock_send io sock buf len s =
     (case ksock_write io sock buf (of_nat len) s of
        None \<Rightarrow> None
      | Some (r, wrote, s) \<Rightarrow> Some (if r \<noteq> 0 then r else int wrote, s))"

section \<open>Which sockets are open\<close>

text \<open>The sockets a record of calls leaves open; \<open>None\<close> when a call is made on a socket that is not open.\<close>

fun on_socket :: "kcall \<Rightarrow> nat option" where
  "on_socket (KCreate sk f) = None"
| "on_socket (KSetOpt sk) = Some sk"
| "on_socket (KNoDelay sk x) = Some sk"
| "on_socket (KSndBuf sk x) = Some sk"
| "on_socket (KRcvBuf sk x) = Some sk"
| "on_socket (KBind sk a) = Some sk"
| "on_socket (KConnect sk a) = Some sk"
| "on_socket (KListen sk b) = Some sk"
| "on_socket (KAccept sk new') = Some new'"
| "on_socket KSchedule = None"
| "on_socket (KWakeAll sk) = Some sk"
| "on_socket (KShutdown sk) = Some sk"
| "on_socket (KRelease sk) = Some sk"

fun track :: "kcall \<Rightarrow> nat set option \<Rightarrow> nat set option" where
  "track c None = None"
| "track c (Some S) =
     (if (case on_socket c of None \<Rightarrow> False | Some sk \<Rightarrow> sk \<notin> S) then None
      else case c of KCreate sk f \<Rightarrow> Some (insert sk S) | KRelease sk \<Rightarrow> Some (S - {sk}) | _ \<Rightarrow> Some S)"

definition kernel_ok :: "kernel \<Rightarrow> nat set \<Rightarrow> bool" where
  "kernel_ok k S \<longleftrightarrow> fold track (Calls k) (Some {}) = Some S \<and> (\<forall>sk\<in>S. sk < NextSock k)"

text \<open>A call that makes a socket: the new one is open on success, and nothing changed on failure.\<close>

definition made :: "nat set \<Rightarrow> sock_result \<Rightarrow> bool" where
  "made S r \<longleftrightarrow> (case r of (e, None, k) \<Rightarrow> e \<noteq> 0 \<and> kernel_ok k S
     | (e, Some sk, k) \<Rightarrow> e = 0 \<and> sk \<notin> S \<and> kernel_ok k (insert sk S))"

lemma made_simps [simp]:
  "made S (e, None, k) \<longleftrightarrow> e \<noteq> 0 \<and> kernel_ok k S"
  "made S (e, Some sk, k) \<longleftrightarrow> e = 0 \<and> sk \<notin> S \<and> kernel_ok k (insert sk S)"
  by (simp_all add: made_def)

lemma answer_ok: "answer k = (e, k') \<Longrightarrow> Calls k' = Calls k \<and> NextSock k' = NextSock k"
  by (auto simp: answer_def split: list.splits)

lemma kcall_ok:
  assumes "kernel_ok k S" "kcall c k = (e, k')" "on_socket c = None \<or> (\<exists>sk\<in>S. on_socket c = Some sk)"
    "\<forall>sk f. c \<noteq> KCreate sk f" "\<forall>sk. c \<noteq> KRelease sk"
  shows "kernel_ok k' S"
  using assms answer_ok [of k] by (auto simp: kcall_def kernel_ok_def split: prod.splits kcall.splits)

lemma release_ok:
  assumes "kernel_ok k (insert sk S)" "sk \<notin> S"
  shows "kernel_ok (sock_release sk k) S"
  using assms by (auto simp: sock_release_def kernel_ok_def)

lemma create_ok:
  assumes "kernel_ok k S" "sock_create f k = (e, sk, k')"
  shows "if e = 0 then sk \<notin> S \<and> kernel_ok k' (insert sk S) else kernel_ok k' S"
  using assms answer_ok [of k] by (auto simp: sock_create_def kernel_ok_def Let_def split: prod.splits if_splits)

text \<open>One more call on a new socket, which is released when the call fails.\<close>

lemma made_step:
  assumes "kernel_ok k (insert sk S)" "sk \<notin> S" "on_socket c = Some sk" "\<forall>sk. c \<noteq> KRelease sk"
    "\<And>k'. kernel_ok k' (insert sk S) \<Longrightarrow> made S (next' k')"
  shows "made S (let (e, k') = kcall c k in if e \<noteq> 0 then (e, None, sock_release sk k') else next' k')"
proof -
  obtain e k' where k: "kcall c k = (e, k')" by fastforce
  have "c \<noteq> KCreate n f" for n f using assms(3) by auto
  then have "kernel_ok k' (insert sk S)" using kcall_ok [OF assms(1) k] assms(3,4) by simp
  then show ?thesis using k release_ok [OF _ assms(2)] assms(5) by simp
qed

lemma resolve_error: "ksock_resolve rs host = Inl e \<Longrightarrow> e \<noteq> 0"
  by (auto simp: ksock_resolve_def ksock_dns_resolve_def ksock_pton_def ESRCH_def error_codes split: option.splits sum.splits)

lemma made_create:
  assumes "kernel_ok k S" "\<And>sk k'. kernel_ok k' (insert sk S) \<Longrightarrow> sk \<notin> S \<Longrightarrow> made S (next' sk k')"
  shows "made S (let (e, sk, k') = sock_create f k in if e \<noteq> 0 then (e, None, k') else next' sk k')"
  using create_ok [OF assms(1)] assms(2) by (fastforce split: prod.split)

lemma made_then:
  assumes "made S r" "\<And>sk k. kernel_ok k (insert sk S) \<Longrightarrow> sk \<notin> S \<Longrightarrow> made S (next' sk k)"
  shows "made S (case r of (e, None, k) \<Rightarrow> (e, None, k) | (e, Some sk, k) \<Rightarrow> next' sk k)"
  using assms by (auto split: prod.split option.split)

lemma made_resolve:
  assumes "kernel_ok k S" "\<And>a. made S (next' a)"
  shows "made S (case ksock_resolve rs host of Inl e \<Rightarrow> (e, None, k) | Inr a \<Rightarrow> next' a)"
  using assms by (auto dest: resolve_error split: sum.split)

lemmas made_intros = made_resolve made_create made_step made_then

lemma ksock_create_host_made: "kernel_ok k S \<Longrightarrow> made S (ksock_create_host rs host port k)"
  unfolding ksock_create_host_def by (intro made_intros) simp_all

lemma ksock_listen_host_made: "kernel_ok k S \<Longrightarrow> made S (ksock_listen_host rs host port backlog k)"
  unfolding ksock_listen_host_def by (intro made_intros ksock_create_host_made) simp_all

lemma ksock_connect_host_made: "kernel_ok k S \<Longrightarrow> made S (ksock_connect_host rs host port k)"
  unfolding ksock_connect_host_def ksock_set_nodelay_def by (intro made_intros) simp_all

lemma ksock_create_made: "kernel_ok k S \<Longrightarrow> made S (ksock_create ip port k)"
  unfolding ksock_create_def
proof (intro made_create made_step)
  fix sk k' assume k': "kernel_ok k' (insert sk S)" "sk \<notin> S"
  show "made S (if ip \<noteq> 0 \<or> port \<noteq> 0
     then let (error, k) = kcall (KBind sk \<lparr>ss_family = AF_INET, ss_addr = if ip = 0 then INADDR_ANY else htonl ip, ss_port = port\<rparr>) k'
          in if error \<noteq> 0 then (error, None, sock_release sk k) else (0, Some sk, k)
     else (0, Some sk, k'))"
    using made_step [OF k', of "KBind sk \<lparr>ss_family = AF_INET, ss_addr = if ip = 0 then INADDR_ANY else htonl ip, ss_port = port\<rparr>"
        "\<lambda>k. (0, Some sk, k)"] k' by (cases "ip \<noteq> 0 \<or> port \<noteq> 0") (simp_all only: made_simps, simp_all)
qed simp_all

lemma ksock_listen_made: "kernel_ok k S \<Longrightarrow> made S (ksock_listen ip port backlog k)"
  unfolding ksock_listen_def by (intro made_intros ksock_create_made) simp_all

lemma ksock_connect_made: "kernel_ok k S \<Longrightarrow> made S (ksock_connect ip port ip' port' k)"
  unfolding ksock_connect_def ksock_set_nodelay_def by (intro made_intros ksock_create_made) simp_all

lemma ksock_accept_made:
  assumes "kernel_ok k S"
  shows "made S (ksock_accept sk k)"
  unfolding ksock_accept_def
proof (intro made_create assms)
  fix n k1 assume n: "kernel_ok k1 (insert n S)" "n \<notin> S"
  obtain e1 k2 where k2: "kcall (KAccept sk n) k1 = (e1, k2)" by fastforce
  obtain e2 k3 where k3: "kcall KSchedule k2 = (e2, k3)" by fastforce
  obtain e4 k4 where k4: "kcall (KAccept sk n) k3 = (e4, k4)" by fastforce
  have o2: "kernel_ok k2 (insert n S)" using kcall_ok [OF n(1) k2] by simp
  then have "kernel_ok k3 (insert n S)" using kcall_ok [OF _ k3] by simp
  then have "kernel_ok k4 (insert n S)" using kcall_ok [OF _ k4] by simp
  then show "made S (let (error, k) = kcall (KAccept sk n) k1;
       (error, k) = if error = Again then kcall (KAccept sk n) (snd (kcall KSchedule k)) else (error, k)
     in if error \<noteq> 0 then (error, None, sock_release n k) else (0, Some n, k))"
    using k2 k3 k4 o2 n(2) release_ok [OF _ n(2)] by simp
qed

lemma ksock_release_ok:
  assumes "kernel_ok k S" "sk \<in> S"
  shows "kernel_ok (ksock_release sk k) (S - {sk})"
proof -
  obtain e k1 where k1: "kcall (KShutdown sk) k = (e, k1)" by fastforce
  have "kernel_ok k1 (insert sk (S - {sk}))" using kcall_ok [OF assms(1) k1] assms(2) by (simp add: insert_absorb)
  then show ?thesis using k1 release_ok [of k1 sk "S - {sk}"] by (simp add: ksock_release_def)
qed

end
