(* ===== verification/Socket.thy ===== *)
theory Socket
  imports Ksocket
begin

text \<open>
  The socket class of \<^verbatim>\<open>src/core/socket.cpp\<close> on the kernel sockets. A socket object holds a kernel socket or nothing.
  \<open>SendAll\<close> and \<open>RecvAll\<close> repeat a transfer until it is complete; a transfer that would block is
  tried again without a limit, so their models may have no result.
\<close>

section \<open>Operations\<close>

record Socket =
  Sockp :: "nat option"

definition make_Socket :: Socket where
  "make_Socket = \<lparr>Sockp = None\<rparr>"

definition Connect :: "resolver \<Rightarrow> bytes \<Rightarrow> 16 word \<Rightarrow> kernel \<Rightarrow> Socket \<Rightarrow> err \<times> Socket \<times> kernel" where
  "Connect rs host port k so =
     (if Sockp so \<noteq> None then (InvalidState, so, k)
      else case ksock_connect_host rs host port k of
        (e, None, k) \<Rightarrow> (e, so, k)
      | (e, Some sk, k) \<Rightarrow> (e, so\<lparr>Sockp := Some sk\<rparr>, k))"

definition Listen :: "resolver \<Rightarrow> bytes \<Rightarrow> 16 word \<Rightarrow> int \<Rightarrow> kernel \<Rightarrow> Socket \<Rightarrow> err \<times> Socket \<times> kernel" where
  "Listen rs host port backlog k so =
     (if Sockp so \<noteq> None then (InvalidState, so, k)
      else case ksock_listen_host rs host port backlog k of
        (e, None, k) \<Rightarrow> (e, so, k)
      | (e, Some sk, k) \<Rightarrow> (e, so\<lparr>Sockp := Some sk\<rparr>, k))"

definition Accept :: "mem \<Rightarrow> kernel \<Rightarrow> Socket \<Rightarrow> err \<times> Socket option \<times> mem \<times> kernel" where
  "Accept m k so =
     (case Sockp so of
        None \<Rightarrow> (InvalidState, None, m, k)
      | Some sk \<Rightarrow>
          (case ksock_accept sk k of
             (e, None, k) \<Rightarrow> (e, None, m, k)
           | (e, Some newSockp, k) \<Rightarrow>
               (let (ok, m) = new m
                in if \<not> ok then (NoMemory, None, m, k) else (e, Some \<lparr>Sockp = Some newSockp\<rparr>, m, k))))"

definition AbortAccept :: "kernel \<Rightarrow> Socket \<Rightarrow> kernel" where
  "AbortAccept k so = (case Sockp so of None \<Rightarrow> k | Some sk \<Rightarrow> ksock_abort_accept sk k)"

definition Close :: "kernel \<Rightarrow> Socket \<Rightarrow> Socket \<times> kernel" where
  "Close k so = (case Sockp so of None \<Rightarrow> (so, k) | Some sk \<Rightarrow> (so\<lparr>Sockp := None\<rparr>, ksock_release sk k))"

definition MaxInt :: nat where "MaxInt = 2147483647"

text \<open>The error, the number of bytes sent and the state of the kernel.\<close>

definition Send :: "'s net \<Rightarrow> bytes \<Rightarrow> nat \<Rightarrow> 's \<Rightarrow> Socket \<Rightarrow> (err \<times> nat \<times> 's) option" where
  "Send io buf len s so =
     (case Sockp so of
        None \<Rightarrow> Some (InvalidState, 0, s)
      | Some sk \<Rightarrow>
          (if len > MaxInt then Some (BufToBig, 0, s)
           else case ksock_send io sk buf len s of
             None \<Rightarrow> None
           | Some (r, s) \<Rightarrow> (if r < 0 then Some (r, 0, s) else Some (Success, nat r, s))))"

text \<open>The error, the bytes put into the buffer, the number of bytes reported and the state of the kernel.\<close>

definition Recv :: "'s net \<Rightarrow> nat \<Rightarrow> 's \<Rightarrow> Socket \<Rightarrow> (err \<times> bytes \<times> nat \<times> 's) option" where
  "Recv io len s so =
     (case Sockp so of
        None \<Rightarrow> Some (InvalidState, [], 0, s)
      | Some sk \<Rightarrow>
          (if len > MaxInt then Some (BufToBig, [], 0, s)
           else case ksock_recv io sk len s of
             None \<Rightarrow> None
           | Some (r, bs, s) \<Rightarrow> (if r < 0 then Some (r, bs, 0, s) else Some (Success, bs, nat r, s))))"

partial_function (option) SendAll_loop ::
  "'s net \<Rightarrow> bytes \<Rightarrow> nat \<Rightarrow> err \<Rightarrow> nat \<Rightarrow> 's \<Rightarrow> Socket \<Rightarrow> (err \<times> nat \<times> 's) option" where
  [code]: "SendAll_loop io buf len err sent s so =
     (if sent < len then
        case Send io (drop sent buf) (len - sent) s so of
          None \<Rightarrow> None
        | Some (err, lsent, s) \<Rightarrow>
            (if err \<noteq> Success then
               if err = Again then SendAll_loop io buf len err (sent + lsent) s so else Some (err, sent + lsent, s)
             else if lsent = 0 then Some (EndOfFile, sent + lsent, s)
             else SendAll_loop io buf len err (sent + lsent) s so)
      else Some (err, sent, s))"

definition SendAll :: "'s net \<Rightarrow> bytes \<Rightarrow> nat \<Rightarrow> 's \<Rightarrow> Socket \<Rightarrow> (err \<times> nat \<times> 's) option" where
  "SendAll io buf len s so = SendAll_loop io buf len Success 0 s so"

partial_function (option) RecvAll_loop ::
  "'s net \<Rightarrow> nat \<Rightarrow> err \<Rightarrow> nat \<Rightarrow> bytes \<Rightarrow> 's \<Rightarrow> Socket \<Rightarrow> (err \<times> nat \<times> bytes \<times> 's) option" where
  [code]: "RecvAll_loop io len err recv buf s so =
     (if recv < len then
        case Recv io (len - recv) s so of
          None \<Rightarrow> None
        | Some (err, bs, lrecv, s) \<Rightarrow>
            (let buf = put recv bs buf
             in if err \<noteq> Success then
                  if err = Again then RecvAll_loop io len err (recv + lrecv) buf s so else Some (err, recv + lrecv, buf, s)
                else if lrecv = 0 then Some (EndOfFile, recv + lrecv, buf, s)
                else RecvAll_loop io len err (recv + lrecv) buf s so)
      else Some (err, recv, buf, s))"

text \<open>The error, the number of bytes, the buffer and the state of the kernel.\<close>

definition RecvAll :: "'s net \<Rightarrow> bytes \<Rightarrow> nat \<Rightarrow> 's \<Rightarrow> Socket \<Rightarrow> (err \<times> nat \<times> bytes \<times> 's) option" where
  "RecvAll io buf len s so = RecvAll_loop io len Success 0 buf s so"

section \<open>A connection that delivers\<close>

text \<open>
  What TCP promises of a connection with a prompt peer: the bytes \<open>inb\<close> that the peer sends before it closes arrive in order, in
  pieces of any size and without delay; after the last one the kernel reports the end; and the bytes sent are appended to
  \<open>outb\<close>, in pieces of any size.
\<close>

definition tcp_stream :: "'s net \<Rightarrow> nat \<Rightarrow> ('s \<Rightarrow> bytes) \<Rightarrow> ('s \<Rightarrow> bytes) \<Rightarrow> bool" where
  "tcp_stream io sk inb outb \<longleftrightarrow>
     0 < unat (HZ io) \<and> unat (HZ io) \<le> 10000 \<and>
     (\<forall>tv s. \<exists>s'. set_timeo io sk tv s = (0, s') \<and> inb s' = inb s \<and> outb s' = outb s) \<and>
     (\<forall>n s. 0 < n \<longrightarrow> (\<exists>bs s'. recvmsg io sk n s = (Inr bs, s') \<and> length bs \<le> n \<and> inb s = bs @ inb s' \<and> outb s' = outb s \<and>
        (inb s \<noteq> [] \<longrightarrow> bs \<noteq> []) \<and> jiffies io s' = jiffies io s)) \<and>
     (\<forall>w bs s. bs \<noteq> [] \<longrightarrow> (\<exists>n s'. sendmsg io sk w bs s = (Inr n, s') \<and> 0 < n \<and> n \<le> length bs \<and> inb s' = inb s \<and>
        outb s' = outb s @ take n bs \<and> jiffies io s' = jiffies io s))"

lemma ticks_left_same [simp]: "ticks_left ticks t t = ticks"
  by (simp add: ticks_left_def)

lemma minute:
  assumes "tcp_stream io sk inb outb"
  shows "60 * HZ io \<noteq> 0"
proof -
  have h: "0 < unat (HZ io)" "unat (HZ io) \<le> 10000" using assms by (simp_all add: tcp_stream_def)
  then have "unat (60 * HZ io) = 60 * unat (HZ io)" by (simp add: unat_word_ariths)
  then show ?thesis using h by auto
qed

lemma tcp_timeo:
  assumes "tcp_stream io sk inb outb"
  obtains s' where "set_timeo io sk tv s = (0, s')" "inb s' = inb s" "outb s' = outb s"
  using assms unfolding tcp_stream_def by meson

lemma tcp_recv:
  assumes "tcp_stream io sk inb outb" "0 < n"
  obtains bs s' where "recvmsg io sk n s = (Inr bs, s')" "length bs \<le> n" "inb s = bs @ inb s'" "outb s' = outb s"
    "inb s \<noteq> [] \<Longrightarrow> bs \<noteq> []" "jiffies io s' = jiffies io s"
  using assms unfolding tcp_stream_def by meson

lemma tcp_send:
  assumes "tcp_stream io sk inb outb" "bs \<noteq> []"
  obtains n s' where "sendmsg io sk w bs s = (Inr n, s')" "0 < n" "n \<le> length bs" "inb s' = inb s"
    "outb s' = outb s @ take n bs" "jiffies io s' = jiffies io s"
  using assms unfolding tcp_stream_def by meson

subsection \<open>Receiving\<close>

lemma read_timeout_loop_ok:
  assumes tcp: "tcp_stream io sk inb outb" and "ticks \<noteq> 0" "nob \<noteq> 0" "unat nob \<le> length (inb s)"
  shows "\<exists>s'. ksock_read_timeout_loop io sk nob ticks acc s = Some (0, acc @ take (unat nob) (inb s), s') \<and>
    inb s' = drop (unat nob) (inb s) \<and> outb s' = outb s"
  using assms(3,4)
proof (induction "unat nob" arbitrary: nob acc s rule: less_induct)
  case less
  obtain s1 where s1: "set_timeo io sk (timeval io ticks) s = (0, s1)" "inb s1 = inb s" "outb s1 = outb s"
    using tcp_timeo [OF tcp] .
  have n: "0 < unat nob" using less.prems(1) by (simp add: unat_gt_0)
  have "inb s1 \<noteq> []" using n less.prems(2) s1(2) by auto
  then obtain bs s2 where s2: "recvmsg io sk (unat nob) s1 = (Inr bs, s2)" "length bs \<le> unat nob" "inb s1 = bs @ inb s2"
    "outb s2 = outb s1" "bs \<noteq> []" "jiffies io s2 = jiffies io s1"
    using tcp_recv [OF tcp n, of s1] by metis
  have sub: "unat (nob - of_nat (length bs)) = unat nob - length bs"
  proof -
    have "unat (of_nat (length bs) :: uint32_t) = length bs" using s2(2) unat_lt_32 [of nob] by (intro unat_of_nat_32) simp
    then show ?thesis using s2(2) by (simp add: unat_sub word_le_nat_alt)
  qed
  note step = ksock_read_timeout_loop.simps [of io sk nob ticks acc s]
  show ?case
  proof (cases "nob - of_nat (length bs) = 0")
    case True
    then have "length bs = unat nob" using sub s2(2) by simp
    moreover from this have "take (unat nob) (inb s) = bs" "drop (unat nob) (inb s) = inb s2" using s1(2) s2(3) by (simp_all add: eq_commute)
    ultimately show ?thesis using True s1 s2 by (simp add: step Let_def)
  next
    case False
    have "unat (nob - of_nat (length bs)) < unat nob" using sub s2(5) n by simp
    moreover have "unat (nob - of_nat (length bs)) \<le> length (inb s2)"
      using less.prems(2) arg_cong [OF s2(3), of length] s1(2) sub by simp
    ultimately obtain s' where s': "ksock_read_timeout_loop io sk (nob - of_nat (length bs)) ticks (acc @ bs) s2 =
        Some (0, (acc @ bs) @ take (unat nob - length bs) (inb s2), s')"
      "inb s' = drop (unat nob - length bs) (inb s2)" "outb s' = outb s2"
      using less.hyps [OF _ False, of s2 "acc @ bs"] sub by auto
    have i: "inb s = bs @ inb s2" using s1(2) s2(3) by simp
    have "take (unat nob) (inb s) = bs @ take (unat nob - length bs) (inb s2)" "drop (unat nob) (inb s) = drop (unat nob - length bs) (inb s2)"
      using s2(2) unfolding i by simp_all
    then show ?thesis using False s1 s2 s' assms(2) by (simp add: step Let_def)
  qed
qed

lemma read_timeout_loop_end:
  assumes tcp: "tcp_stream io sk inb outb" and "nob \<noteq> 0" "inb s = []"
  shows "\<exists>s'. ksock_read_timeout_loop io sk nob ticks acc s = Some (ConnReset, acc, s') \<and> inb s' = [] \<and> outb s' = outb s"
proof -
  obtain s1 where s1: "set_timeo io sk (timeval io ticks) s = (0, s1)" "inb s1 = inb s" "outb s1 = outb s"
    using tcp_timeo [OF tcp] .
  have "0 < unat nob" using assms(2) by (simp add: unat_gt_0)
  then obtain bs s2 where "recvmsg io sk (unat nob) s1 = (Inr bs, s2)" "inb s1 = bs @ inb s2" "outb s2 = outb s1"
    using tcp_recv [OF tcp] by metis
  then show ?thesis using s1 assms(3) by (simp add: ksock_read_timeout_loop.simps [of io sk nob ticks acc s] Let_def)
qed

text \<open>Reading a whole buffer; the second case is that the peer has closed the connection.\<close>

lemma ksock_recv_ok:
  assumes tcp: "tcp_stream io sk inb outb" and n: "0 < n" "n \<le> MaxInt"
  shows "n \<le> length (inb s) \<Longrightarrow> \<exists>s'. ksock_recv io sk n s = Some (int n, take n (inb s), s') \<and> inb s' = drop n (inb s) \<and> outb s' = outb s"
    "inb s = [] \<Longrightarrow> \<exists>s'. ksock_recv io sk n s = Some (ConnReset, [], s') \<and> inb s' = [] \<and> outb s' = outb s"
proof -
  have u: "unat (of_nat n :: uint32_t) = n" using n(2) by (intro unat_of_nat_32) (simp add: MaxInt_def)
  then have z: "(of_nat n :: uint32_t) \<noteq> 0" "(0::uint32_t) < of_nat n" using n(1) by (auto simp: word_less_nat_alt)
  note step = ksock_read_loop.simps [of io sk "of_nat n" 0 "[]" s] ksock_read_timeout_def
  show "\<exists>s'. ksock_recv io sk n s = Some (int n, take n (inb s), s') \<and> inb s' = drop n (inb s) \<and> outb s' = outb s" if "n \<le> length (inb s)"
  proof -
    from read_timeout_loop_ok [OF tcp minute [OF tcp] z(1), of s "[]"] that u obtain s' where
      s': "ksock_read_timeout_loop io sk (of_nat n) (60 * HZ io) [] s = Some (0, take n (inb s), s')"
      "inb s' = drop n (inb s)" "outb s' = outb s" by auto
    have "length (take n (inb s)) = n" using that by simp
    then have "ksock_read_loop io sk (of_nat n) 0 (take n (inb s)) s' = Some (0, take n (inb s), s')"
      by (simp add: ksock_read_loop.simps)
    then show ?thesis using s' z that by (simp add: ksock_recv_def ksock_read_def step)
  qed
  show "\<exists>s'. ksock_recv io sk n s = Some (ConnReset, [], s') \<and> inb s' = [] \<and> outb s' = outb s" if "inb s = []"
    using read_timeout_loop_end [OF tcp z(1) that, of "60 * HZ io" "[]"] z
    by (auto simp: ksock_recv_def ksock_read_def step ConnReset_def)
qed

lemma RecvAll_ok:
  assumes tcp: "tcp_stream io sk inb outb" and so: "Sockp so = Some sk" and n: "n \<le> MaxInt" "length buf = n"
  shows "n \<le> length (inb s) \<Longrightarrow> \<exists>s'. RecvAll io buf n s so = Some (Success, n, take n (inb s), s') \<and> inb s' = drop n (inb s) \<and> outb s' = outb s"
    "0 < n \<Longrightarrow> inb s = [] \<Longrightarrow> \<exists>s'. RecvAll io buf n s so = Some (ConnReset, 0, buf, s') \<and> inb s' = [] \<and> outb s' = outb s"
proof -
  show "\<exists>s'. RecvAll io buf n s so = Some (Success, n, take n (inb s), s') \<and> inb s' = drop n (inb s) \<and> outb s' = outb s"
    if l: "n \<le> length (inb s)"
  proof (cases "n = 0")
    case True
    then show ?thesis using n by (simp add: RecvAll_def RecvAll_loop.simps)
  next
    case False
    then obtain s' where "ksock_recv io sk n s = Some (int n, take n (inb s), s')" "inb s' = drop n (inb s)" "outb s' = outb s"
      using ksock_recv_ok(1) [OF tcp _ n(1) l] by blast
    moreover from this have "Recv io n s so = Some (Success, take n (inb s), n, s')" using so n by (simp add: Recv_def)
    moreover have "put 0 (take n (inb s)) buf = take n (inb s)" using n l by (simp add: put_def)
    moreover have "RecvAll_loop io n Success n (take n (inb s)) s' so = Some (Success, n, take n (inb s), s')"
      by (simp add: RecvAll_loop.simps)
    ultimately show ?thesis using False by (simp add: RecvAll_def RecvAll_loop.simps [of io n Success 0 buf s so])
  qed
  show "\<exists>s'. RecvAll io buf n s so = Some (ConnReset, 0, buf, s') \<and> inb s' = [] \<and> outb s' = outb s" if p: "0 < n" and e: "inb s = []"
  proof -
    obtain s' where "ksock_recv io sk n s = Some (ConnReset, [], s')" "inb s' = []" "outb s' = outb s"
      using ksock_recv_ok(2) [OF tcp p n(1) e] by blast
    then show ?thesis using so n p
      by (simp add: RecvAll_def RecvAll_loop.simps [of io n Success 0 buf s so] Recv_def put_def) (simp add: error_codes)
  qed
qed

subsection \<open>Sending\<close>

lemma write_timeout_loop_ok:
  assumes tcp: "tcp_stream io sk inb outb" and "ticks \<noteq> 0" "nob \<noteq> 0" "unat nob = length buf"
  shows "\<exists>s'. ksock_write_timeout_loop io sk buf nob ticks wrote s = Some (0, wrote + length buf, s') \<and>
    inb s' = inb s \<and> outb s' = outb s @ buf"
  using assms(3,4)
proof (induction "unat nob" arbitrary: nob buf wrote s rule: less_induct)
  case less
  obtain s1 where s1: "set_timeo io sk (timeval io ticks) s = (0, s1)" "inb s1 = inb s" "outb s1 = outb s"
    using tcp_timeo [OF tcp] .
  have n: "0 < unat nob" using less.prems(1) by (simp add: unat_gt_0)
  then have "buf \<noteq> []" using less.prems(2) by auto
  then obtain k s2 where s2: "sendmsg io sk (ticks = 0) buf s1 = (Inr k, s2)" "0 < k" "k \<le> length buf" "inb s2 = inb s1"
    "outb s2 = outb s1 @ take k buf" "jiffies io s2 = jiffies io s1"
    using tcp_send [OF tcp] by metis
  have sub: "unat (nob - of_nat k) = unat nob - k"
  proof -
    have "unat (of_nat k :: uint32_t) = k" using s2(3) less.prems(2) unat_lt_32 [of nob] by (intro unat_of_nat_32) simp
    then show ?thesis using s2(3) less.prems(2) by (simp add: unat_sub word_le_nat_alt)
  qed
  note step = ksock_write_timeout_loop.simps [of io sk buf nob ticks wrote s]
  have t: "take (unat nob) buf = buf" using less.prems(2) by simp
  show ?case
  proof (cases "nob - of_nat k = 0")
    case True
    then have "k = length buf" using sub s2(3) less.prems(2) by simp
    then show ?thesis unfolding step using True s1 s2 t assms(2) by (simp add: Let_def)
  next
    case False
    have "unat (nob - of_nat k) < unat nob" "unat (nob - of_nat k) = length (drop k buf)" using sub s2(2,3) n less.prems(2) by simp_all
    from less.hyps [OF this(1) False this(2), of "wrote + k" s2] obtain s' where
      "ksock_write_timeout_loop io sk (drop k buf) (nob - of_nat k) ticks (wrote + k) s2 = Some (0, wrote + k + length (drop k buf), s')"
      "inb s' = inb s2" "outb s' = outb s2 @ drop k buf" by blast
    then show ?thesis using False s1 s2 t assms(2) by (simp add: step Let_def)
  qed
qed

lemma SendAll_ok:
  assumes tcp: "tcp_stream io sk inb outb" and so: "Sockp so = Some sk" and n: "length buf \<le> MaxInt"
  shows "\<exists>s'. SendAll io buf (length buf) s so = Some (Success, length buf, s') \<and> inb s' = inb s \<and> outb s' = outb s @ buf"
proof (cases "buf = []")
  case True
  then show ?thesis by (simp add: SendAll_def SendAll_loop.simps)
next
  case False
  let ?n = "of_nat (length buf) :: uint32_t"
  have u: "unat ?n = length buf" using n by (intro unat_of_nat_32) (simp add: MaxInt_def)
  then have z: "?n \<noteq> 0" "0 < ?n" using False by (auto simp: word_less_nat_alt)
  from write_timeout_loop_ok [OF tcp minute [OF tcp] z(1) u] obtain s' where
    s': "ksock_write_timeout_loop io sk buf ?n (60 * HZ io) 0 s = Some (0, length buf, s')" "inb s' = inb s" "outb s' = outb s @ buf"
    by (metis add_0)
  have "ksock_write_loop io sk buf ?n 0 (length buf) s' = Some (0, length buf, s')" by (simp add: ksock_write_loop.simps)
  then have "ksock_write io sk buf ?n s = Some (0, length buf, s')" using s' z
    by (simp add: ksock_write_def ksock_write_loop.simps [of io sk buf ?n 0 0 s] ksock_write_timeout_def)
  then have "Send io buf (length buf) s so = Some (Success, length buf, s')" using so n by (simp add: Send_def ksock_send_def)
  then show ?thesis using s' False
    by (simp add: SendAll_def SendAll_loop.simps [of io buf "length buf" Success 0 s so] SendAll_loop.simps [of io buf "length buf" Success "length buf" s' so])
qed

section \<open>Properties\<close>

text \<open>A kernel with 250 ticks per second that passes on at most \<open>f\<close> bytes per call.\<close>

definition sample_net :: "nat \<Rightarrow> (bytes \<times> bytes) net" where
  "sample_net f = \<lparr>HZ = 250, set_timeo = (\<lambda>sk tv s. (0, s)),
     recvmsg = (\<lambda>sk n (i, q). (Inr (take (min n f) i), drop (min n f) i, q)),
     sendmsg = (\<lambda>sk w bs (i, q). (Inr (min f (length bs)), i, q @ take f bs)), jiffies = (\<lambda>s. 0)\<rparr>"

lemma sample_stream: "0 < f \<Longrightarrow> tcp_stream (sample_net f) sk fst snd"
  by (auto simp: tcp_stream_def sample_net_def min_def)

text \<open>
  Claim C17. However the kernel cuts a stream into pieces, \<open>RecvAll\<close> returns exactly the next bytes of a prompt peer and leaves the
  rest for the next call, \<open>SendAll\<close> appends exactly the bytes of the buffer, and a receive on a connection that the peer has closed ends with the error for a
  reset connection.
\<close>

theorem socket_stream_transfer:
  assumes tcp: "tcp_stream io sk inb outb" and so: "Sockp so = Some sk" and buf: "length buf \<le> MaxInt"
  shows "(\<exists>s'. SendAll io buf (length buf) s so = Some (Success, length buf, s') \<and> inb s' = inb s \<and> outb s' = outb s @ buf) \<and>
    (length buf \<le> length (inb s) \<longrightarrow> (\<exists>s'. RecvAll io buf (length buf) s so = Some (Success, length buf, take (length buf) (inb s), s') \<and>
       inb s' = drop (length buf) (inb s) \<and> outb s' = outb s)) \<and>
    (buf \<noteq> [] \<and> inb s = [] \<longrightarrow> (\<exists>s'. RecvAll io buf (length buf) s so = Some (ConnReset, 0, buf, s') \<and> inb s' = [] \<and> outb s' = outb s))"
  using SendAll_ok [OF tcp so buf] RecvAll_ok [OF tcp so buf refl] by simp

theorem socket_stream_transfer_witness:
  "(\<exists>s'. RecvAll (sample_net 2) [0, 0, 0] 3 ([1, 2, 3, 4], []) \<lparr>Sockp = Some 5\<rparr> = Some (Success, 3, [1, 2, 3], s') \<and> fst s' = [4]) \<and>
   (\<exists>s'. SendAll (sample_net 2) [7, 8, 9] 3 ([1], [6]) \<lparr>Sockp = Some 5\<rparr> = Some (Success, 3, s') \<and> snd s' = [6, 7, 8, 9])"
  using socket_stream_transfer [OF sample_stream [of 2 5], of "\<lparr>Sockp = Some 5\<rparr>" "[0, 0, 0]" "([1, 2, 3, 4], [])"]
    socket_stream_transfer [OF sample_stream [of 2 5], of "\<lparr>Sockp = Some 5\<rparr>" "[7, 8, 9]" "([1], [6])"]
  by (simp add: MaxInt_def numeral_3_eq_3)

text \<open>A kernel that answers its receive calls from a list.\<close>

definition scripted_net :: "(int + bytes) list net" where
  "scripted_net = \<lparr>HZ = 250, set_timeo = (\<lambda>sk tv s. (0, s)),
     recvmsg = (\<lambda>sk n s. case s of [] \<Rightarrow> (Inr [], []) | x # s \<Rightarrow> (x, s)), sendmsg = (\<lambda>sk w bs s. (Inr (length bs), s)), jiffies = (\<lambda>s. 0)\<rparr>"

lemma scripted_net_simps [simp]:
  "set_timeo scripted_net sk tv s = (0, s)" "recvmsg scripted_net sk n (x # s) = (x, s)" "jiffies scripted_net s = 0"
  "60 * HZ scripted_net \<noteq> 0"
  by (simp_all add: scripted_net_def)

text \<open>
  A peer that pauses inside a message corrupts the stream: when a part \<open>xs\<close> of the bytes has arrived and the receive
  call then times out, \<open>ksock_recv\<close> reports only the error, and \<open>RecvAll\<close> starts again at the beginning of its buffer. It
  returns success with the bytes \<open>ys\<close> that arrive later, and the bytes \<open>xs\<close> are lost.
\<close>

theorem socket_recv_timeout_loses_bytes:
  assumes "xs \<noteq> []" "length xs < length ys" "length buf = length ys" "length ys \<le> MaxInt"
  shows "RecvAll scripted_net buf (length ys) [Inr xs, Inl Again, Inr ys] \<lparr>Sockp = Some sk\<rparr> = Some (Success, length ys, ys, [])"
proof -
  let ?n = "length ys"
  have n: "of_nat ?n \<noteq> (0::uint32_t)" "(0::uint32_t) < of_nat ?n" "of_nat ?n - of_nat (length xs) \<noteq> (0::uint32_t)"
  proof -
    have "unat (of_nat ?n :: uint32_t) = ?n" "unat (of_nat (length xs) :: uint32_t) = length xs"
      using assms(2,4) by (auto intro!: unat_of_nat_32 simp: MaxInt_def)
    then show "of_nat ?n \<noteq> (0::uint32_t)" "(0::uint32_t) < of_nat ?n" "of_nat ?n - of_nat (length xs) \<noteq> (0::uint32_t)"
      using assms(2) by (auto simp: word_less_nat_alt)
  qed
  have "ksock_read_timeout_loop scripted_net sk (of_nat ?n) (60 * HZ scripted_net) [] [Inr xs, Inl Again, Inr ys] = Some (Again, xs, [Inr ys])"
    using n assms(1)
    by (simp add: ksock_read_timeout_loop.simps [of _ _ _ _ _ "Inr xs # s" for s] ksock_read_timeout_loop.simps [of _ _ _ _ _ "Inl e # s" for e s])
  then have "Recv scripted_net ?n [Inr xs, Inl Again, Inr ys] \<lparr>Sockp = Some sk\<rparr> = Some (Again, xs, 0, [Inr ys])"
    using n assms(4) by (simp add: Recv_def ksock_recv_def ksock_read_def ksock_read_loop.simps ksock_read_timeout_def Again_def)
  moreover have "ksock_read_timeout_loop scripted_net sk (of_nat ?n) (60 * HZ scripted_net) [] [Inr ys] = Some (0, ys, [])"
    using assms(2) by (cases "ys = []") (simp_all add: ksock_read_timeout_loop.simps Let_def)
  then have "Recv scripted_net ?n [Inr ys] \<lparr>Sockp = Some sk\<rparr> = Some (Success, ys, ?n, [])"
    using n assms(4) by (simp add: Recv_def ksock_recv_def ksock_read_def ksock_read_loop.simps ksock_read_timeout_def)
  moreover have "put 0 ys (put 0 xs buf) = ys" "ys \<noteq> []" using assms by (auto simp: put_def)
  ultimately show ?thesis using assms
    by (simp add: RecvAll_def RecvAll_loop.simps [of scripted_net ?n _ 0] RecvAll_loop.simps [of scripted_net ?n _ ?n] error_codes)
qed

theorem socket_recv_timeout_loses_bytes_witness:
  "RecvAll scripted_net [0, 0, 0] 3 [Inr [1, 2], Inl Again, Inr [3, 4, 5]] \<lparr>Sockp = Some 0\<rparr> = Some (Success, 3, [3, 4, 5], [])"
  using socket_recv_timeout_loses_bytes [of "[1, 2]" "[3, 4, 5]" "[0, 0, 0]" 0] by (simp add: MaxInt_def numeral_3_eq_3)

text \<open>
  Claim C18. Kernel sockets are owned: with the sockets \<open>S\<close> open, listening and connecting either succeed and leave exactly one
  more socket open, which the object holds, or fail and leave none behind, whatever the kernel answers at any step; no call is ever made on a socket that is not open; closing
  closes the socket of the object. Accepting keeps this as long as memory suffices; when the object for an accepted connection cannot be allocated the
  kernel socket stays open with nobody holding it.
\<close>

theorem socket_ownership:
  assumes k: "kernel_ok k S"
  shows "(case Listen rs host port backlog k make_Socket of (e, so, k') \<Rightarrow> (case Sockp so of
       None \<Rightarrow> e \<noteq> Success \<and> kernel_ok k' S | Some sk \<Rightarrow> e = Success \<and> sk \<notin> S \<and> kernel_ok k' (insert sk S))) \<and>
    (case Connect rs host port k make_Socket of (e, so, k') \<Rightarrow> (case Sockp so of
       None \<Rightarrow> e \<noteq> Success \<and> kernel_ok k' S | Some sk \<Rightarrow> e = Success \<and> sk \<notin> S \<and> kernel_ok k' (insert sk S))) \<and>
    (case Accept m k \<lparr>Sockp = Some lsk\<rparr> of (e, None, m', k') \<Rightarrow> e \<noteq> Success \<and>
         (if fst (snd (ksock_accept lsk k)) = None then kernel_ok k' S else \<not> fst (new m) \<and> (\<exists>sk. sk \<notin> S \<and> kernel_ok k' (insert sk S)))
       | (e, Some so, m', k') \<Rightarrow> e = Success \<and> (\<exists>sk. Sockp so = Some sk \<and> sk \<notin> S \<and> kernel_ok k' (insert sk S))) \<and>
    (sk \<in> S \<longrightarrow> (case Close k \<lparr>Sockp = Some sk\<rparr> of (so, k') \<Rightarrow> Sockp so = None \<and> kernel_ok k' (S - {sk})))"
proof (intro conjI impI)
  show "case Listen rs host port backlog k make_Socket of (e, so, k') \<Rightarrow> (case Sockp so of
       None \<Rightarrow> e \<noteq> Success \<and> kernel_ok k' S | Some sk \<Rightarrow> e = Success \<and> sk \<notin> S \<and> kernel_ok k' (insert sk S))"
    using ksock_listen_host_made [OF k, of rs host port backlog]
    by (auto simp: Listen_def make_Socket_def made_def Success_def split: prod.splits option.splits)
  show "case Connect rs host port k make_Socket of (e, so, k') \<Rightarrow> (case Sockp so of
       None \<Rightarrow> e \<noteq> Success \<and> kernel_ok k' S | Some sk \<Rightarrow> e = Success \<and> sk \<notin> S \<and> kernel_ok k' (insert sk S))"
    using ksock_connect_host_made [OF k, of rs host port]
    by (auto simp: Connect_def make_Socket_def made_def Success_def split: prod.splits option.splits)
  show "case Accept m k \<lparr>Sockp = Some lsk\<rparr> of (e, None, m', k') \<Rightarrow> e \<noteq> Success \<and>
         (if fst (snd (ksock_accept lsk k)) = None then kernel_ok k' S else \<not> fst (new m) \<and> (\<exists>sk. sk \<notin> S \<and> kernel_ok k' (insert sk S)))
       | (e, Some so, m', k') \<Rightarrow> e = Success \<and> (\<exists>sk. Sockp so = Some sk \<and> sk \<notin> S \<and> kernel_ok k' (insert sk S))"
    using ksock_accept_made [OF k, of lsk]
    by (auto simp: Accept_def made_def Success_def NoMemory_def split: prod.splits option.splits)
  show "case Close k \<lparr>Sockp = Some sk\<rparr> of (so, k') \<Rightarrow> Sockp so = None \<and> kernel_ok k' (S - {sk})" if "sk \<in> S"
    using ksock_release_ok [OF k that] by (simp add: Close_def)
qed

theorem socket_ownership_witness:
  "(\<exists>k'. Listen \<lparr>in4_pton = Some, in6_pton = Some, dns_query = Some\<rparr> [127, 0, 0, 1] 9111 65536 \<lparr>Results = [0, 0, - 98], Calls = [], NextSock = 0\<rparr> make_Socket =
       (- 98, make_Socket, k') \<and> kernel_ok k' {}) \<and>
   (\<exists>sk k'. Accept [False] \<lparr>Results = [], Calls = [KCreate 0 AF_INET], NextSock = 1\<rparr> \<lparr>Sockp = Some 0\<rparr> = (NoMemory, None, [], k') \<and>
       sk \<notin> {0} \<and> kernel_ok k' (insert sk {0}))"
proof -
  let ?rs = "\<lparr>in4_pton = Some, in6_pton = Some, dns_query = Some\<rparr>"
  let ?k = "\<lparr>Results = [0, 0, - 98], Calls = [], NextSock = 0\<rparr>" and ?k' = "\<lparr>Results = [], Calls = [KCreate 0 AF_INET], NextSock = 1\<rparr>"
  have k: "kernel_ok ?k {}" "kernel_ok ?k' {0}" by (simp_all add: kernel_ok_def)
  obtain k1 where l: "Listen ?rs [127, 0, 0, 1] 9111 65536 ?k make_Socket = (- 98, make_Socket, k1)"
    by (simp add: Listen_def make_Socket_def ksock_listen_host_def ksock_create_host_def ksock_resolve_def ksock_pton_def
        sock_create_def answer_def kcall_def)
  obtain k2 where a: "Accept [False] ?k' \<lparr>Sockp = Some 0\<rparr> = (NoMemory, None, [], k2)" "fst (snd (ksock_accept 0 ?k')) \<noteq> None"
    by (simp add: Accept_def ksock_accept_def sock_create_def answer_def kcall_def Again_def)
  show ?thesis
    using socket_ownership [where rs = ?rs and host = "[127, 0, 0, 1]" and port = 9111 and backlog = 65536, OF k(1)]
      socket_ownership [where lsk = 0 and m = "[False]", OF k(2)] l a by (auto simp: make_Socket_def)
qed

end
