(* ===== verification/Packet.thy ===== *)
theory Packet
  imports Vector Socket XX_Hash Memory_Utils
begin

text \<open>
  The packets of the storage protocol (\<^verbatim>\<open>src/kstor/server.cpp\<close>, class \<open>Packet\<close>, with the header of \<^verbatim>\<open>src/kstor/api.h\<close>) and how a
  connection receives and sends them. A packet is a header of 32 bytes (magic, type, size of the data, result, checksum of the data, checksum
  of the header) and the data; its fields are little-endian on the wire.
\<close>

section \<open>Packets\<close>

definition PacketMagic :: uint32_t where "PacketMagic = 0xCCBECCBE"
definition PacketMaxDataSize :: uint32_t where "PacketMaxDataSize = 131072"
definition HeaderSize :: nat where "HeaderSize = 32"

record Packet =
  pkType :: uint32_t
  pkResult :: uint32_t
  pkDataSize :: uint32_t
  Body :: "byte_t Vector"

definition make_Packet :: Packet where
  "make_Packet = \<lparr>pkType = 0, pkResult = 0, pkDataSize = 0, Body = make_Vector\<rparr>"

text \<open>What \<open>Parse\<close> and \<open>Create\<close> do once their arguments are checked; \<open>junk\<close> is the content of fresh memory.\<close>

definition set_up ::
  "(nat \<Rightarrow> byte_t) \<Rightarrow> uint32_t \<Rightarrow> uint32_t \<Rightarrow> uint32_t \<Rightarrow> mem \<Rightarrow> Packet \<Rightarrow> err \<times> Packet \<times> mem" where
  "set_up junk type result dataSize m p =
     (let (ok, body, m) = ReserveAndUse junk (unat dataSize + HeaderSize) m (vec_Clear (Body p))
      in if \<not> ok then (NoMemory, p\<lparr>Body := body\<rparr>, m)
      else (Success, \<lparr>pkType = type, pkResult = result, pkDataSize = dataSize, Body = body\<rparr>, m))"

definition Parse :: "host \<Rightarrow> (nat \<Rightarrow> byte_t) \<Rightarrow> bytes \<Rightarrow> mem \<Rightarrow> Packet \<Rightarrow> err \<times> Packet \<times> mem" where
  "Parse h junk header m p =
     (if \<not> ArrayEqual 8 (drop 24 header) (Sum h (take 24 header)) then (HeaderCorrupt, p, m)
      else let magic = Le32ToCpu h (get32 h 0 header);
               type = Le32ToCpu h (get32 h 4 header);
               result = Le32ToCpu h (get32 h 12 header);
               dataSize = Le32ToCpu h (get32 h 8 header)
      in if magic \<noteq> PacketMagic then (InvalidValue, p, m)
      else if dataSize > PacketMaxDataSize then (InvalidValue, p, m)
      else set_up junk type result dataSize m p)"

definition Create :: "(nat \<Rightarrow> byte_t) \<Rightarrow> uint32_t \<Rightarrow> uint32_t \<Rightarrow> uint32_t \<Rightarrow> mem \<Rightarrow> Packet \<Rightarrow> err \<times> Packet \<times> mem" where
  "Create junk type result dataSize m p =
     (if dataSize > PacketMaxDataSize then (BufToBig, p, m) else set_up junk type result dataSize m p)"

definition SetResult :: "uint32_t \<Rightarrow> Packet \<Rightarrow> Packet" where
  "SetResult result p = p\<lparr>pkResult := result\<rparr>"

definition GetDataSize :: "Packet \<Rightarrow> nat" where
  "GetDataSize p = unat (pkDataSize p)"

definition GetSize :: "Packet \<Rightarrow> nat" where
  "GetSize p = vecSize (Body p)"

text \<open>The memory behind the header, and writing into it.\<close>

definition GetData :: "Packet \<Rightarrow> bytes" where
  "GetData p = drop HeaderSize (Arr (Body p))"

definition put_data :: "bytes \<Rightarrow> Packet \<Rightarrow> Packet" where
  "put_data bs p = p\<lparr>Body := (Body p)\<lparr>Arr := put HeaderSize bs (Arr (Body p))\<rparr>\<rparr>"

definition PrepareSend :: "host \<Rightarrow> Packet \<Rightarrow> Packet" where
  "PrepareSend h p =
     (let b = Arr (Body p);
          b = put32 h 4 (CpuToLe32 h (pkType p)) b;
          b = put32 h 12 (CpuToLe32 h (pkResult p)) b;
          b = put32 h 8 (CpuToLe32 h (pkDataSize p)) b;
          b = put32 h 0 (CpuToLe32 h PacketMagic) b;
          b = put 16 (Sum h (take (GetDataSize p) (drop HeaderSize b))) b;
          b = put 24 (Sum h (take 24 b)) b
      in p\<lparr>Body := (Body p)\<lparr>Arr := b\<rparr>\<rparr>)"

section \<open>Receiving and sending\<close>

text \<open>The header is received into a local structure, which holds \<open>junk\<close> before.\<close>

definition RecvPacket ::
  "'s net \<Rightarrow> host \<Rightarrow> (nat \<Rightarrow> byte_t) \<Rightarrow> mem \<Rightarrow> 's \<Rightarrow> Socket \<Rightarrow> (err \<times> Packet option \<times> mem \<times> 's) option" where
  "RecvPacket io h junk m s so =
     (case RecvAll io (map junk [0..<HeaderSize]) HeaderSize s so of
        None \<Rightarrow> None
      | Some (err, received, header, s) \<Rightarrow>
          (if err \<noteq> Success then Some (err, None, m, s)
           else let (ok, m) = MakeShared m
           in if \<not> ok then Some (NoMemory, None, m, s)
           else let (err, packet, m) = Parse h junk header m make_Packet
           in if err \<noteq> Success then Some (err, None, m, s)
           else case RecvAll io (GetData packet) (GetDataSize packet) s so of
             None \<Rightarrow> None
           | Some (err, received, data, s) \<Rightarrow>
               (let packet = put_data data packet
                in if err \<noteq> Success then Some (err, None, m, s)
                else if \<not> ArrayEqual 8 (drop 16 header) (Sum h (take (GetDataSize packet) (GetData packet)))
                then Some (DataCorrupt, None, m, s)
                else Some (Success, Some packet, m, s))))"

definition SendPacket :: "'s net \<Rightarrow> host \<Rightarrow> Packet \<Rightarrow> 's \<Rightarrow> Socket \<Rightarrow> (err \<times> Packet \<times> 's) option" where
  "SendPacket io h packet s so =
     (let packet = PrepareSend h packet
      in case SendAll io (Arr (Body packet)) (GetSize packet) s so of
           None \<Rightarrow> None
         | Some (err, sent, s) \<Rightarrow> Some (err, packet, s))"

section \<open>Well-formed packets\<close>

definition packet_ok :: "Packet \<Rightarrow> bool" where
  "packet_ok p \<longleftrightarrow> length (Arr (Body p)) = HeaderSize + GetDataSize p \<and> GetSize p = HeaderSize + GetDataSize p \<and>
     pkDataSize p \<le> PacketMaxDataSize"

lemma packet_sizes:
  assumes "packet_ok p"
  shows "length (Arr (Body p)) = HeaderSize + GetDataSize p" "GetSize p = HeaderSize + GetDataSize p" "length (GetData p) = GetDataSize p"
    "GetDataSize p \<le> 131072"
  using assms by (auto simp: packet_ok_def GetData_def GetDataSize_def PacketMaxDataSize_def word_le_nat_alt)

lemma set_up_ok:
  assumes "set_up junk type result n m p = (e, p', m')" "n \<le> PacketMaxDataSize"
  shows "(e = Success \<or> e = NoMemory) \<and> (fst (new m) \<longrightarrow> e = Success) \<and>
    (e = Success \<longrightarrow> packet_ok p' \<and> pkType p' = type \<and> pkResult p' = result \<and> pkDataSize p' = n \<and> m' = snd (new m) \<and>
       GetData p' = map junk [HeaderSize..<HeaderSize + unat n])"
proof -
  obtain ok m1 where n: "new m = (ok, m1)" by fastforce
  have "ReserveAndUse junk (unat n + HeaderSize) m (vec_Clear (Body p)) =
    (if ok then (True, \<lparr>Arr = map junk [0..<unat n + HeaderSize], vecSize = unat n + HeaderSize\<rparr>, m1) else (False, vec_Clear (Body p), m1))"
    using n by (simp add: ReserveAndUse_def Reserve_def vec_Clear_def vecCapacity_def HeaderSize_def)
  then show ?thesis using assms n
    by (auto simp: set_up_def packet_ok_def GetDataSize_def GetSize_def GetData_def drop_map add.commute NoMemory_def Success_def split: if_splits)
qed

lemma packet_ok_put_data:
  assumes "packet_ok p" "length bs \<le> GetDataSize p"
  shows "packet_ok (put_data bs p)" "pkType (put_data bs p) = pkType p" "pkResult (put_data bs p) = pkResult p"
    "pkDataSize (put_data bs p) = pkDataSize p" "GetData (put_data bs p) = bs @ drop (length bs) (GetData p)"
  using assms packet_sizes(1) [OF assms(1)]
  by (auto simp: packet_ok_def put_data_def GetDataSize_def GetSize_def GetData_def put_def HeaderSize_def add.commute)

lemma packet_ok_SetResult [simp]:
  "packet_ok (SetResult r p) = packet_ok p" "GetData (SetResult r p) = GetData p" "pkType (SetResult r p) = pkType p"
  "pkResult (SetResult r p) = r" "pkDataSize (SetResult r p) = pkDataSize p"
  by (simp_all add: SetResult_def packet_ok_def GetDataSize_def GetSize_def GetData_def)

section \<open>Packets on the wire\<close>

text \<open>The bytes of a packet with type \<open>t\<close>, result \<open>r\<close> and data \<open>d\<close>. They do not depend on the host.\<close>

definition wire_hash :: "bytes \<Rightarrow> bytes" where
  "wire_hash x = le_bytes 8 (XXH64 LittleEndian x 0)"

definition wire_fields :: "uint32_t \<Rightarrow> uint32_t \<Rightarrow> bytes \<Rightarrow> bytes" where
  "wire_fields t r d = le_bytes 4 PacketMagic @ le_bytes 4 t @ le_bytes 4 (of_nat (length d) :: uint32_t) @ le_bytes 4 r @ wire_hash d"

definition wire :: "uint32_t \<Rightarrow> uint32_t \<Rightarrow> bytes \<Rightarrow> bytes" where
  "wire t r d = (wire_fields t r d @ wire_hash (wire_fields t r d)) @ d"

lemma length_wire [simp]: "length (wire_hash x) = 8" "length (wire_fields t r d) = 24" "length (wire t r d) = 32 + length d"
  by (simp_all add: wire_hash_def wire_fields_def wire_def)

lemma Sum_wire: "length x < 18446744073709551616 \<Longrightarrow> Sum h x = wire_hash x"
  by (simp add: Sum_eq wire_hash_def)

lemma header_split:
  assumes "32 \<le> length (b :: bytes)"
  obtains a0 a1 a2 a3 a4 a5 where "b = a0 @ a1 @ a2 @ a3 @ a4 @ a5 @ drop 32 b" "length a0 = 4" "length a1 = 4" "length a2 = 4"
    "length a3 = 4" "length a4 = 8" "length a5 = 8"
proof
  have s: "drop n b = take k (drop n b) @ drop (n + k) b" for n k
    by (metis append_take_drop_id drop_drop add.commute)
  show "b = take 4 b @ take 4 (drop 4 b) @ take 4 (drop 8 b) @ take 4 (drop 12 b) @ take 8 (drop 16 b) @ take 8 (drop 24 b) @ drop 32 b"
    using s [of 0 4] s [of 4 4] s [of 8 4] s [of 12 4] s [of 16 8] s [of 24 8] by simp
qed (use assms in simp_all)

lemma PrepareSend_ok:
  assumes p: "packet_ok p"
  shows "Arr (Body (PrepareSend h p)) = wire (pkType p) (pkResult p) (GetData p)" "GetSize (PrepareSend h p) = 32 + length (GetData p)"
    "packet_ok (PrepareSend h p)"
proof -
  let ?b = "Arr (Body p)" and ?d = "GetData p"
  note z = packet_sizes [OF p]
  have n: "of_nat (length ?d) = pkDataSize p" using z(3) by (simp add: GetDataSize_def)
  obtain a0 a1 a2 a3 a4 a5 where b: "?b = a0 @ a1 @ a2 @ a3 @ a4 @ a5 @ drop 32 ?b" and
    l: "length a0 = 4" "length a1 = 4" "length a2 = 4" "length a3 = 4" "length a4 = 8" "length a5 = 8"
    by (rule header_split [of ?b]) (use z(1) in \<open>simp add: HeaderSize_def\<close>)
  have b: "?b = a0 @ a1 @ a2 @ a3 @ a4 @ a5 @ ?d" using b by (simp add: GetData_def HeaderSize_def)
  have "put 0 (le_bytes 4 PacketMagic) (put 8 (le_bytes 4 (pkDataSize p)) (put 12 (le_bytes 4 (pkResult p)) (put 4 (le_bytes 4 (pkType p)) ?b))) =
    le_bytes 4 PacketMagic @ le_bytes 4 (pkType p) @ le_bytes 4 (pkDataSize p) @ le_bytes 4 (pkResult p) @ a4 @ a5 @ ?d" (is "?b1 = ?b2")
    unfolding b using l by (simp add: put_def)
  moreover have "Sum h (take (GetDataSize p) (drop HeaderSize ?b2)) = wire_hash ?d"
    using l z(3,4) by (simp add: HeaderSize_def Sum_wire)
  moreover have "put 16 (wire_hash ?d) ?b2 = wire_fields (pkType p) (pkResult p) ?d @ a5 @ ?d"
    using l n by (simp add: put_def wire_fields_def)
  moreover have "put 24 (Sum h (take 24 (wire_fields (pkType p) (pkResult p) ?d @ a5 @ ?d))) (wire_fields (pkType p) (pkResult p) ?d @ a5 @ ?d) =
    wire (pkType p) (pkResult p) ?d"
    using l by (simp add: Sum_wire put_def wire_def)
  ultimately show a: "Arr (Body (PrepareSend h p)) = wire (pkType p) (pkResult p) ?d"
    by (simp add: PrepareSend_def put_le Let_def)
  show "GetSize (PrepareSend h p) = 32 + length ?d" using z by (simp add: PrepareSend_def GetSize_def Let_def HeaderSize_def)
  show "packet_ok (PrepareSend h p)" using p a z
    by (simp add: packet_ok_def GetDataSize_def GetSize_def) (simp add: PrepareSend_def Let_def HeaderSize_def)
qed

lemma wire_length_32: "length d \<le> 131072 \<Longrightarrow> unat (of_nat (length d) :: uint32_t) = length d"
  by (intro unat_of_nat_32) simp

lemma Parse_ok:
  assumes d: "length d \<le> 131072"
  shows "Parse h junk (wire_fields t r d @ wire_hash (wire_fields t r d)) m p = set_up junk t r (of_nat (length d)) m p"
proof -
  let ?w = "wire_fields t r d @ wire_hash (wire_fields t r d)"
  have "take 4 (drop 0 ?w) = le_bytes 4 PacketMagic" "take 4 (drop 4 ?w) = le_bytes 4 t"
    "take 4 (drop 8 ?w) = le_bytes 4 (of_nat (length d) :: uint32_t)" "take 4 (drop 12 ?w) = le_bytes 4 r"
    by (simp_all add: wire_fields_def)
  then have "Le32ToCpu h (get32 h 0 ?w) = PacketMagic" "Le32ToCpu h (get32 h 4 ?w) = t" "Le32ToCpu h (get32 h 8 ?w) = of_nat (length d)"
    "Le32ToCpu h (get32 h 12 ?w) = r" by (simp_all add: get_le)
  moreover have "\<not> PacketMaxDataSize < of_nat (length d)"
    using d wire_length_32 [OF d] by (simp add: word_less_nat_alt PacketMaxDataSize_def)
  ultimately show ?thesis by (simp add: Parse_def Sum_wire)
qed

lemma Parse_corrupt:
  assumes "length x = 24" "length y = 8" "y \<noteq> wire_hash x"
  shows "Parse h junk (x @ y) m p = (HeaderCorrupt, p, m)"
  using assms ArrayEqual_from_spec [of y 8 "wire_hash x"] by (simp add: Parse_def Sum_wire ArrayEqual_def)

text \<open>A packet whose data \<open>d'\<close> may differ from those the header was made for.\<close>

lemma RecvPacket_data:
  assumes tcp: "tcp_stream io sk inb outb" and so: "Sockp so = Some sk"
    and i: "inb s = (wire_fields t r d @ wire_hash (wire_fields t r d)) @ d' @ rest"
    and d: "length d \<le> 131072" "length d' = length d" and m: "False \<notin> set m"
  shows "\<exists>p m' s'. RecvPacket io h junk m s so =
      Some (if wire_hash d' = wire_hash d then (Success, Some p, m', s') else (DataCorrupt, None, m', s')) \<and> packet_ok p \<and>
    pkType p = t \<and> pkResult p = r \<and> GetData p = d' \<and> set m' \<subseteq> set m \<and> inb s' = rest \<and> outb s' = outb s"
proof -
  let ?w = "wire_fields t r d @ wire_hash (wire_fields t r d)"
  have lw: "length ?w = HeaderSize" by (simp add: HeaderSize_def)
  from RecvAll_ok(1) [OF tcp so, of HeaderSize "map junk [0..<HeaderSize]" s] obtain s1 where
    s1: "RecvAll io (map junk [0..<HeaderSize]) HeaderSize s so = Some (Success, HeaderSize, ?w, s1)" "inb s1 = d' @ rest" "outb s1 = outb s"
    unfolding i using lw by (auto simp: MaxInt_def HeaderSize_def)
  obtain m1 where m1: "MakeShared m = (True, m1)" "set m1 \<subseteq> set m" using MakeShared_good [OF m] by blast
  obtain m3 where n: "new m1 = (True, m3)" "set m3 \<subseteq> set m1" using new_good [of m1] m m1(2) by blast
  obtain e p m2 where p: "set_up junk t r (of_nat (length d)) m1 make_Packet = (e, p, m2)"
    by (cases "set_up junk t r (of_nat (length d)) m1 make_Packet") auto
  have "of_nat (length d) \<le> PacketMaxDataSize"
    using d wire_length_32 [OF d(1)] by (simp add: word_le_nat_alt PacketMaxDataSize_def)
  from set_up_ok [OF p this] n have P: "e = Success" "packet_ok p" "pkType p = t" "pkResult p = r" "pkDataSize p = of_nat (length d)" "m2 = m3"
    by auto
  have g: "GetDataSize p = length d'" using P(5) wire_length_32 [OF d(1)] d(2) by (simp add: GetDataSize_def)
  from RecvAll_ok(1) [OF tcp so, of "length d'" "GetData p" s1] obtain s2 where
    s2: "RecvAll io (GetData p) (length d') s1 so = Some (Success, length d', d', s2)" "inb s2 = rest" "outb s2 = outb s1"
    unfolding s1(2) using d packet_sizes(3) [OF P(2)] g by (auto simp: MaxInt_def)
  let ?p = "put_data d' p"
  note Q = packet_ok_put_data [OF P(2), of d']
  have q: "GetData ?p = d'" "GetDataSize ?p = length d'" using Q(4,5) g packet_sizes(3) [OF P(2)] by (simp_all add: GetDataSize_def)
  have h: "drop 16 ?w = wire_hash d @ wire_hash (wire_fields t r d)" by (simp add: wire_fields_def)
  have a: "ArrayEqual 8 (drop 16 ?w) (Sum h d') \<longleftrightarrow> wire_hash d' = wire_hash d"
    unfolding h using d by (auto simp: Sum_wire ArrayEqual_prefix)
  have "RecvPacket io h junk m s so = Some (if wire_hash d' = wire_hash d then (Success, Some ?p, m2, s2) else (DataCorrupt, None, m2, s2))"
    using s1(1) m1(1) p P(1) s2(1) g q a Parse_ok [OF d(1), of h junk t r m1 make_Packet] by (simp add: RecvPacket_def Let_def)
  then show ?thesis using Q(1-3) q P s1 s2 m1(2) n(2) g by auto
qed

lemma RecvPacket_ok:
  assumes tcp: "tcp_stream io sk inb outb" and so: "Sockp so = Some sk" and i: "inb s = wire t r d @ rest"
    and d: "length d \<le> 131072" and m: "False \<notin> set m"
  shows "\<exists>p m' s'. RecvPacket io h junk m s so = Some (Success, Some p, m', s') \<and> packet_ok p \<and> pkType p = t \<and> pkResult p = r \<and>
    GetData p = d \<and> set m' \<subseteq> set m \<and> inb s' = rest \<and> outb s' = outb s"
  using RecvPacket_data [OF tcp so _ d refl m, of s t r rest h junk] i by (simp add: wire_def)

lemma RecvPacket_header_corrupt:
  assumes tcp: "tcp_stream io sk inb outb" and so: "Sockp so = Some sk" and i: "inb s = x @ y @ rest"
    and x: "length x = 24" "length y = 8" "y \<noteq> wire_hash x" and m: "False \<notin> set m"
  shows "\<exists>m' s'. RecvPacket io h junk m s so = Some (HeaderCorrupt, None, m', s') \<and> inb s' = rest"
proof -
  from RecvAll_ok(1) [OF tcp so, of HeaderSize "map junk [0..<HeaderSize]" s] obtain s1 where
    s1: "RecvAll io (map junk [0..<HeaderSize]) HeaderSize s so = Some (Success, HeaderSize, x @ y, s1)" "inb s1 = rest"
    unfolding i using x by (auto simp: MaxInt_def HeaderSize_def)
  obtain m1 where m1: "MakeShared m = (True, m1)" using MakeShared_good [OF m] by blast
  show ?thesis using s1 m1 Parse_corrupt [OF x, of h junk m1 make_Packet]
    by (auto simp: RecvPacket_def Let_def HeaderCorrupt_def Success_def)
qed

lemma RecvPacket_end:
  assumes tcp: "tcp_stream io sk inb outb" and so: "Sockp so = Some sk" and i: "inb s = []"
  shows "\<exists>s'. RecvPacket io h junk m s so = Some (ConnReset, None, m, s') \<and> inb s' = [] \<and> outb s' = outb s"
  using RecvAll_ok(2) [OF tcp so _ _ _ i, of HeaderSize "map junk [0..<HeaderSize]"]
  by (auto simp: RecvPacket_def HeaderSize_def MaxInt_def error_codes)

lemma SendPacket_ok:
  assumes tcp: "tcp_stream io sk inb outb" and so: "Sockp so = Some sk" and p: "packet_ok p"
  shows "\<exists>p' s'. SendPacket io h p s so = Some (Success, p', s') \<and> inb s' = inb s \<and> outb s' = outb s @ wire (pkType p) (pkResult p) (GetData p)"
proof -
  note q = PrepareSend_ok [OF p, of h] and z = packet_sizes [OF p]
  have l: "length (wire (pkType p) (pkResult p) (GetData p)) \<le> MaxInt" using z(3,4) by (simp add: MaxInt_def)
  from SendAll_ok [OF tcp so l, of s] show ?thesis using q by (auto simp: SendPacket_def Let_def)
qed

section \<open>Properties\<close>

text \<open>
  Claim C16. A packet arrives as it was sent, between hosts of either byte order: the bytes that \<open>SendPacket\<close> puts on a connection,
  received by \<open>RecvPacket\<close> in pieces of any size, give a well-formed packet with the same type, result and data, and
  exactly the bytes of the packet are consumed.
\<close>

theorem packet_roundtrip:
  assumes snd_tcp: "tcp_stream io sk inb outb" "Sockp so = Some sk" and rcv_tcp: "tcp_stream io' sk' inb' outb'" "Sockp so' = Some sk'"
    and p: "packet_ok p" and m: "False \<notin> set m"
  shows "\<exists>p1 s1 bs. SendPacket io h p s so = Some (Success, p1, s1) \<and> inb s1 = inb s \<and> outb s1 = outb s @ bs \<and>
    (\<forall>r rest. inb' r = bs @ rest \<longrightarrow> (\<exists>q m' r'. RecvPacket io' h' junk m r so' = Some (Success, Some q, m', r') \<and> packet_ok q \<and>
       pkType q = pkType p \<and> pkResult q = pkResult p \<and> GetData q = GetData p \<and> inb' r' = rest \<and> outb' r' = outb' r))"
proof -
  let ?bs = "wire (pkType p) (pkResult p) (GetData p)"
  from SendPacket_ok [OF snd_tcp p, of h s] obtain p1 s1 where
    s1: "SendPacket io h p s so = Some (Success, p1, s1)" "inb s1 = inb s" "outb s1 = outb s @ ?bs" by blast
  have d: "length (GetData p) \<le> 131072" using packet_sizes [OF p] by simp
  have "\<exists>q m' r'. RecvPacket io' h' junk m r so' = Some (Success, Some q, m', r') \<and> packet_ok q \<and>
       pkType q = pkType p \<and> pkResult q = pkResult p \<and> GetData q = GetData p \<and> inb' r' = rest \<and> outb' r' = outb' r"
    if "inb' r = ?bs @ rest" for r rest
    using RecvPacket_ok [OF rcv_tcp that d m, of h' junk] by blast
  with s1 show ?thesis by blast
qed

theorem packet_roundtrip_witness:
  "\<exists>p p1 s1 bs q m' r'. packet_ok p \<and> pkType p = 1 \<and> GetData p = [0, 0] \<and>
     SendPacket (sample_net 3) BigEndian p ([], []) \<lparr>Sockp = Some 0\<rparr> = Some (Success, p1, s1) \<and> snd s1 = bs \<and>
     RecvPacket (sample_net 5) LittleEndian (\<lambda>_. 7) [] (bs @ [9], []) \<lparr>Sockp = Some 0\<rparr> = Some (Success, Some q, m', r') \<and>
     pkType q = 1 \<and> GetData q = [0, 0] \<and> fst r' = [9]"
proof -
  let ?p = "\<lparr>pkType = 1, pkResult = 0, pkDataSize = 2, Body = \<lparr>Arr = replicate 34 0, vecSize = 34\<rparr>\<rparr>"
  have p: "packet_ok ?p" "GetData ?p = [0, 0]"
    by (simp add: packet_ok_def GetDataSize_def GetSize_def HeaderSize_def PacketMaxDataSize_def)
      (simp add: GetData_def HeaderSize_def numeral_2_eq_2)
  from packet_roundtrip [where io = "sample_net 3" and so = "\<lparr>Sockp = Some 0\<rparr>" and io' = "sample_net 5" and so' = "\<lparr>Sockp = Some 0\<rparr>" and
      p = ?p and m = "[]" and h = BigEndian and h' = LittleEndian and junk = "\<lambda>_. 7" and s = "([], [])",
      OF sample_stream [of 3 0] _ sample_stream [of 5 0] _ p(1)]
  obtain p1 s1 bs where s: "SendPacket (sample_net 3) BigEndian ?p ([], []) \<lparr>Sockp = Some 0\<rparr> = Some (Success, p1, s1)" "snd s1 = bs"
    "\<forall>r rest. fst r = bs @ rest \<longrightarrow> (\<exists>q m' r'. RecvPacket (sample_net 5) LittleEndian (\<lambda>_. 7) [] r \<lparr>Sockp = Some 0\<rparr> = Some (Success, Some q, m', r') \<and>
       packet_ok q \<and> pkType q = pkType ?p \<and> pkResult q = pkResult ?p \<and> GetData q = GetData ?p \<and> fst r' = rest \<and> snd r' = snd r)"
    by (auto simp del: split_paired_All split_paired_Ex)
  have "\<exists>q m' r'. RecvPacket (sample_net 5) LittleEndian (\<lambda>_. 7) [] (bs @ [9], []) \<lparr>Sockp = Some 0\<rparr> = Some (Success, Some q, m', r') \<and>
       pkType q = 1 \<and> GetData q = [0, 0] \<and> fst r' = [9]"
    using s(3) [rule_format, of "(bs @ [9], [])" "[9]"] p(2) by auto
  moreover have "pkType ?p = 1" by simp
  ultimately show ?thesis using s(1,2) p by blast
qed

text \<open>
  Claim C37. Damaged packets are refused: a header \<open>x\<close> whose checksum \<open>y\<close> does not match ends with \<open>HeaderCorrupt\<close> before any
  size in it is used, and data \<open>d'\<close> that arrive instead of \<open>d\<close> with another checksum end with \<open>DataCorrupt\<close>; no packet is
  returned in either case.
\<close>

theorem packet_corruption_refused:
  assumes tcp: "tcp_stream io sk inb outb" "Sockp so = Some sk" and m: "False \<notin> set m"
  shows "(length x = 24 \<and> length y = 8 \<and> y \<noteq> wire_hash x \<and> inb s = x @ y @ rest \<longrightarrow>
      (\<exists>m' s'. RecvPacket io h junk m s so = Some (HeaderCorrupt, None, m', s') \<and> inb s' = rest)) \<and>
    (length d' = length d \<and> length d \<le> 131072 \<and> wire_hash d' \<noteq> wire_hash d \<and>
        inb s = (wire_fields t r d @ wire_hash (wire_fields t r d)) @ d' @ rest \<longrightarrow>
      (\<exists>m' s'. RecvPacket io h junk m s so = Some (DataCorrupt, None, m', s') \<and> inb s' = rest))"
proof (intro conjI impI; elim conjE)
  show "\<exists>m' s'. RecvPacket io h junk m s so = Some (HeaderCorrupt, None, m', s') \<and> inb s' = rest"
    if "length x = 24" "length y = 8" "y \<noteq> wire_hash x" "inb s = x @ y @ rest"
    using RecvPacket_header_corrupt [OF tcp that(4,1-3) m] .
  show "\<exists>m' s'. RecvPacket io h junk m s so = Some (DataCorrupt, None, m', s') \<and> inb s' = rest"
    if "length d' = length d" "length d \<le> 131072" "wire_hash d' \<noteq> wire_hash d"
      "inb s = (wire_fields t r d @ wire_hash (wire_fields t r d)) @ d' @ rest"
    using RecvPacket_data [OF tcp that(4,2,1) m, of h junk] that(3) by auto
qed

theorem packet_corruption_refused_witness:
  "\<exists>y m' s'. length y = 8 \<and> RecvPacket (sample_net 7) LittleEndian (\<lambda>_. 0) [] (replicate 24 0 @ y @ [5], []) \<lparr>Sockp = Some 0\<rparr> = Some (HeaderCorrupt, None, m', s') \<and>
     fst s' = [5]"
proof -
  obtain y :: bytes where y: "length y = 8" "y \<noteq> wire_hash (replicate 24 0)"
  proof (cases "wire_hash (replicate 24 0) = replicate 8 0")
    case True
    show ?thesis by (rule that [of "replicate 8 1"]) (simp_all add: True)
  next
    case False
    then show ?thesis by (intro that [of "replicate 8 0"]) simp_all
  qed
  from packet_corruption_refused [where io = "sample_net 7" and so = "\<lparr>Sockp = Some 0\<rparr>" and m = "[]" and
      x = "replicate 24 0" and y = y and rest = "[5]" and s = "(replicate 24 0 @ y @ [5], [])" and h = LittleEndian and junk = "\<lambda>_. 0",
      OF sample_stream] y
  have "\<exists>m' s'. RecvPacket (sample_net 7) LittleEndian (\<lambda>_. 0) [] (replicate 24 0 @ y @ [5], []) \<lparr>Sockp = Some 0\<rparr> = Some (HeaderCorrupt, None, m', s') \<and> fst s' = [5]"
    by simp
  with y(1) show ?thesis by blast
qed

end
