(* ===== verification/Server.thy ===== *)
theory Server
  imports Chunk_Store Packet
begin

text \<open>
  The server of \<^verbatim>\<open>src/kstor/server.cpp\<close> on top of the chunk operations of the control device
  (\<^verbatim>\<open>src/kstor/control_device.cpp\<close>): the handlers of the five requests, the loop of a connection's thread, and the end-to-end behaviour of
  a connection. The content of fresh memory is a parameter: \<open>junk\<close> for packets and \<open>fresh\<close> for chunks.
\<close>

section \<open>The control device and its volume\<close>

record ControlDevice =
  VolumeRef :: "Volume option"

definition dev_ChunkCreate :: "bytes \<Rightarrow> guid \<Rightarrow> mem \<Rightarrow> ControlDevice \<Rightarrow> err \<times> ControlDevice \<times> mem" where
  "dev_ChunkCreate fresh chunkId m c =
     (case VolumeRef c of
        None \<Rightarrow> (NotFound, c, m)
      | Some v \<Rightarrow> (let (e, v, m) = ChunkCreate fresh chunkId m v in (e, c\<lparr>VolumeRef := Some v\<rparr>, m)))"

definition dev_ChunkWrite :: "guid \<Rightarrow> bytes \<Rightarrow> ControlDevice \<Rightarrow> err \<times> ControlDevice" where
  "dev_ChunkWrite chunkId data c =
     (case VolumeRef c of
        None \<Rightarrow> (NotFound, c)
      | Some v \<Rightarrow> (let (e, v) = ChunkWrite chunkId data v in (e, c\<lparr>VolumeRef := Some v\<rparr>)))"

definition dev_ChunkRead :: "guid \<Rightarrow> bytes \<Rightarrow> ControlDevice \<Rightarrow> err \<times> bytes" where
  "dev_ChunkRead chunkId data c =
     (case VolumeRef c of None \<Rightarrow> (NotFound, data) | Some v \<Rightarrow> ChunkRead chunkId data v)"

definition dev_ChunkDelete :: "guid \<Rightarrow> ControlDevice \<Rightarrow> err \<times> ControlDevice" where
  "dev_ChunkDelete chunkId c =
     (case VolumeRef c of
        None \<Rightarrow> (NotFound, c)
      | Some v \<Rightarrow> (let (e, v) = ChunkDelete chunkId v in (e, c\<lparr>VolumeRef := Some v\<rparr>)))"

section \<open>Handlers\<close>

definition PacketTypePing :: uint32_t where "PacketTypePing = 1"
definition PacketTypeChunkCreate :: uint32_t where "PacketTypeChunkCreate = 2"
definition PacketTypeChunkWrite :: uint32_t where "PacketTypeChunkWrite = 3"
definition PacketTypeChunkRead :: uint32_t where "PacketTypeChunkRead = 4"
definition PacketTypeChunkDelete :: uint32_t where "PacketTypeChunkDelete = 5"

definition ResultSuccess :: uint32_t where "ResultSuccess = 0"
definition ResultUnexpectedDataSize :: uint32_t where "ResultUnexpectedDataSize = 1"
definition ResultNotFound :: uint32_t where "ResultNotFound = 2"

lemmas packet_constants = PacketTypePing_def PacketTypeChunkCreate_def PacketTypeChunkWrite_def PacketTypeChunkRead_def
  PacketTypeChunkDelete_def ResultSuccess_def ResultUnexpectedDataSize_def ResultNotFound_def

type_synonym handled = "err \<times> Packet \<times> mem \<times> ControlDevice"

definition HandlePing :: "(nat \<Rightarrow> byte_t) \<Rightarrow> Packet \<Rightarrow> Packet \<Rightarrow> mem \<Rightarrow> ControlDevice \<Rightarrow> handled" where
  "HandlePing junk request response m c =
     (let (err, response, m) = Create junk (pkType request) ResultSuccess (pkDataSize request) m response
      in if err \<noteq> Success then (err, response, m, c)
      else (err, put_data (take (GetDataSize response) (GetData request)) response, m, c))"

definition HandleChunkCreate :: "(nat \<Rightarrow> byte_t) \<Rightarrow> bytes \<Rightarrow> Packet \<Rightarrow> Packet \<Rightarrow> mem \<Rightarrow> ControlDevice \<Rightarrow> handled" where
  "HandleChunkCreate junk fresh request response m c =
     (if GetDataSize request \<noteq> GuidSize then
        let (err, response, m) = Create junk (pkType request) ResultUnexpectedDataSize 0 m response in (err, response, m, c)
      else let (err, response, m) = Create junk (pkType request) ResultSuccess 0 m response
      in if err \<noteq> Success then (err, response, m, c)
      else let (err, c, m) = dev_ChunkCreate fresh (take GuidSize (GetData request)) m c;
               response = (if err \<noteq> Success then SetResult ResultNotFound response else response);
               (err, response, m) = Create junk (pkType request) ResultSuccess 0 m response
      in (err, response, m, c))"

definition HandleChunkWrite :: "(nat \<Rightarrow> byte_t) \<Rightarrow> Packet \<Rightarrow> Packet \<Rightarrow> mem \<Rightarrow> ControlDevice \<Rightarrow> handled" where
  "HandleChunkWrite junk request response m c =
     (if GetDataSize request \<noteq> GuidSize + ChunkSize then
        let (err, response, m) = Create junk (pkType request) ResultUnexpectedDataSize 0 m response in (err, response, m, c)
      else let (err, response, m) = Create junk (pkType request) ResultSuccess 0 m response
      in if err \<noteq> Success then (err, response, m, c)
      else let (err, c) = dev_ChunkWrite (take GuidSize (GetData request)) (drop GuidSize (GetData request)) c
      in if err \<noteq> Success then (Success, SetResult ResultNotFound response, m, c) else (err, response, m, c))"

definition HandleChunkRead :: "(nat \<Rightarrow> byte_t) \<Rightarrow> Packet \<Rightarrow> Packet \<Rightarrow> mem \<Rightarrow> ControlDevice \<Rightarrow> handled" where
  "HandleChunkRead junk request response m c =
     (if GetDataSize request \<noteq> GuidSize then
        let (err, response, m) = Create junk (pkType request) ResultUnexpectedDataSize 0 m response in (err, response, m, c)
      else let (err, response, m) = Create junk (pkType request) ResultSuccess (of_nat ChunkSize) m response
      in if err \<noteq> Success then (err, response, m, c)
      else let (err, data) = dev_ChunkRead (take GuidSize (GetData request)) (take ChunkSize (GetData response)) c;
               response = put_data data response
      in if err \<noteq> Success then (Success, SetResult ResultNotFound response, m, c) else (err, response, m, c))"

definition HandleChunkDelete :: "(nat \<Rightarrow> byte_t) \<Rightarrow> Packet \<Rightarrow> Packet \<Rightarrow> mem \<Rightarrow> ControlDevice \<Rightarrow> handled" where
  "HandleChunkDelete junk request response m c =
     (if GetDataSize request \<noteq> GuidSize then
        let (err, response, m) = Create junk (pkType request) ResultUnexpectedDataSize 0 m response in (err, response, m, c)
      else let (err, response, m) = Create junk (pkType request) ResultSuccess 0 m response
      in if err \<noteq> Success then (err, response, m, c)
      else let (err, c) = dev_ChunkDelete (take GuidSize (GetData request)) c;
               response = (if err \<noteq> Success then SetResult ResultNotFound response else response);
               (err, response, m) = Create junk (pkType request) ResultSuccess 0 m response
      in (err, response, m, c))"

text \<open>The response is a packet and the object that counts its references, in this order.\<close>

definition HandleRequest ::
  "(nat \<Rightarrow> byte_t) \<Rightarrow> bytes \<Rightarrow> Packet \<Rightarrow> mem \<Rightarrow> ControlDevice \<Rightarrow> err \<times> Packet option \<times> mem \<times> ControlDevice" where
  "HandleRequest junk fresh request m c =
     (let (object, m) = new m
      in if \<not> object then (NoMemory, None, m, c)
      else let (reference, m) = new m
      in if \<not> reference then (NoMemory, None, m, c)
      else let response = make_Packet; type = pkType request;
               (err, response, m, c) =
                 (if type = PacketTypePing then HandlePing junk request response m c
                  else if type = PacketTypeChunkCreate then HandleChunkCreate junk fresh request response m c
                  else if type = PacketTypeChunkWrite then HandleChunkWrite junk request response m c
                  else if type = PacketTypeChunkRead then HandleChunkRead junk request response m c
                  else if type = PacketTypeChunkDelete then HandleChunkDelete junk request response m c
                  else let (err, response, m) = Create junk type (of_int UnknownCode) 0 m response in (err, response, m, c))
      in (err, Some response, m, c))"

section \<open>Connections\<close>

record Connection =
  Sock :: "Socket option"
  ConnThread :: bool

text \<open>
  The loop of the connection's thread, with \<open>stopping\<close> for the flag of the thread. A response is sent
  only after it was made, so the pointers that the loop follows are not null.
\<close>

partial_function (option) Connection_loop ::
  "'s net \<Rightarrow> host \<Rightarrow> (nat \<Rightarrow> byte_t) \<Rightarrow> bytes \<Rightarrow> ('s \<Rightarrow> bool) \<Rightarrow> Socket \<Rightarrow> mem \<Rightarrow> ControlDevice \<Rightarrow> 's \<Rightarrow>
   (mem \<times> ControlDevice \<times> 's) option" where
  [code]: "Connection_loop io h junk fresh stopping so m c s =
     (if stopping s then Some (m, c, s)
      else case RecvPacket io h junk m s so of
        None \<Rightarrow> None
      | Some (err, request, m, s) \<Rightarrow>
          (if err \<noteq> Success then Some (m, c, s)
           else case request of
             None \<Rightarrow> None
           | Some request \<Rightarrow>
               (case HandleRequest junk fresh request m c of
                  (err, response, m, c) \<Rightarrow>
                    (if err \<noteq> Success then Some (m, c, s)
                     else case response of
                       None \<Rightarrow> None
                     | Some response \<Rightarrow>
                         (case SendPacket io h response s so of
                            None \<Rightarrow> None
                          | Some (err, response, s) \<Rightarrow>
                              (if err \<noteq> Success then Some (m, c, s)
                               else Connection_loop io h junk fresh stopping so m c s))))))"

text \<open>The whole thread: the loop, and closing the socket after it.\<close>

definition Connection_Run ::
  "'s net \<Rightarrow> host \<Rightarrow> (nat \<Rightarrow> byte_t) \<Rightarrow> bytes \<Rightarrow> ('s \<Rightarrow> bool) \<Rightarrow> mem \<Rightarrow> ControlDevice \<Rightarrow> 's \<Rightarrow> kernel \<Rightarrow> Connection \<Rightarrow>
   (mem \<times> ControlDevice \<times> 's \<times> kernel \<times> Connection) option" where
  "Connection_Run io h junk fresh stopping m c s k conn =
     (case Sock conn of
        None \<Rightarrow> None
      | Some so \<Rightarrow>
          (case Connection_loop io h junk fresh stopping so m c s of
             None \<Rightarrow> None
           | Some (m, c, s) \<Rightarrow> (let (so, k) = Close k so in Some (m, c, s, k, conn\<lparr>Sock := None\<rparr>))))"

section \<open>What a client sees\<close>

text \<open>
  A request is a type and data, a response a type, a result and data. With no volume mounted nothing is stored. Creating and deleting
  report success whether or not the chunk existed.
\<close>

fun serve :: "bool \<Rightarrow> (nat \<Rightarrow> byte_t) \<Rightarrow> bytes \<Rightarrow> uint32_t \<times> bytes \<Rightarrow> (guid \<rightharpoonup> bytes) \<Rightarrow> (uint32_t \<times> uint32_t \<times> bytes) \<times> (guid \<rightharpoonup> bytes)" where
  "serve mounted junk fresh (t, d) s =
     (if t = PacketTypePing then ((t, ResultSuccess, d), s)
      else if t = PacketTypeChunkCreate then
        if length d \<noteq> 16 then ((t, ResultUnexpectedDataSize, []), s)
        else ((t, ResultSuccess, []), if mounted \<and> s d = None then s(d \<mapsto> fresh) else s)
      else if t = PacketTypeChunkWrite then
        if length d \<noteq> 16 + 65536 then ((t, ResultUnexpectedDataSize, []), s)
        else if s (take 16 d) = None then ((t, ResultNotFound, []), s)
        else ((t, ResultSuccess, []), s(take 16 d \<mapsto> drop 16 d))
      else if t = PacketTypeChunkRead then
        if length d \<noteq> 16 then ((t, ResultUnexpectedDataSize, []), s)
        else (case s d of None \<Rightarrow> ((t, ResultNotFound, map junk [HeaderSize..<HeaderSize + ChunkSize]), s) | Some x \<Rightarrow> ((t, ResultSuccess, x), s))
      else if t = PacketTypeChunkDelete then
        if length d \<noteq> 16 then ((t, ResultUnexpectedDataSize, []), s) else ((t, ResultSuccess, []), s(d := None))
      else ((t, of_int UnknownCode, []), s))"

declare serve.simps [simp del]

fun serve_all :: "bool \<Rightarrow> (nat \<Rightarrow> byte_t) \<Rightarrow> bytes \<Rightarrow> (uint32_t \<times> bytes) list \<Rightarrow> (guid \<rightharpoonup> bytes) \<Rightarrow>
    (uint32_t \<times> uint32_t \<times> bytes) list \<times> (guid \<rightharpoonup> bytes)" where
  "serve_all mounted junk fresh [] s = ([], s)"
| "serve_all mounted junk fresh (q # qs) s =
     (let (r, s) = serve mounted junk fresh q s; (rs, s) = serve_all mounted junk fresh qs s in (r # rs, s))"

text \<open>The chunks a client can reach, and the states of the device that the server works in: a mounted volume runs.\<close>

definition dev_chunks :: "ControlDevice \<Rightarrow> (guid \<rightharpoonup> bytes)" where
  "dev_chunks c = (case VolumeRef c of None \<Rightarrow> Map.empty | Some v \<Rightarrow> vol_chunks v)"

definition dev_ok :: "ControlDevice \<Rightarrow> bool" where
  "dev_ok c \<longleftrightarrow> (case VolumeRef c of None \<Rightarrow> True | Some v \<Rightarrow> chunks_ok v) \<and> (\<forall>g x. dev_chunks c g = Some x \<longrightarrow> length x = ChunkSize)"

section \<open>The handlers do what the client sees\<close>

lemma Create_ok:
  assumes "Create junk t r n m p = (e, p', m')" "n \<le> PacketMaxDataSize"
  shows "e = Success \<or> e = NoMemory" "False \<notin> set m \<Longrightarrow> e = Success \<and> set m' \<subseteq> set m"
    "e = Success \<Longrightarrow> packet_ok p' \<and> pkType p' = t \<and> pkResult p' = r \<and> pkDataSize p' = n \<and> GetData p' = map junk [HeaderSize..<HeaderSize + unat n]"
proof -
  have s: "set_up junk t r n m p = (e, p', m')" using assms leD [OF assms(2)] by (simp add: Create_def)
  note S = set_up_ok [OF s assms(2)]
  show "e = Success \<or> e = NoMemory"
    "e = Success \<Longrightarrow> packet_ok p' \<and> pkType p' = t \<and> pkResult p' = r \<and> pkDataSize p' = n \<and> GetData p' = map junk [HeaderSize..<HeaderSize + unat n]"
    using S by blast+
  show "e = Success \<and> set m' \<subseteq> set m" if "False \<notin> set m" using S new_good [OF that] by fastforce
qed

lemma new_rest: "set (snd (new m)) \<subseteq> set m"
  by (cases m rule: new.cases) auto

lemma Insert_copy_rest: "Insert_copy hash n k x m t = (t', r, m') \<Longrightarrow> set m' \<subseteq> set m"
  using new_rest [of m] by (auto simp: Insert_copy_def bucket_add_def Let_def split: if_splits)

lemma ChunkCreate_rest:
  assumes "ChunkCreate fresh g m v = (e, v', m')"
  shows "set m' \<subseteq> set m"
proof -
  obtain ok m1 where m1: "MakeShared m = (ok, m1)" by fastforce
  obtain t' r m2 where i: "Insert_copy guid_hash ChunkBuckets g (NextChunk v) m1 (ChunkTable v) = (t', r, m2)"
    by (cases "Insert_copy guid_hash ChunkBuckets g (NextChunk v) m1 (ChunkTable v)") auto
  show ?thesis using assms m1 i MakeShared_rest [OF m1] Insert_copy_rest [OF i]
    by (auto simp: ChunkCreate_def Let_def split: if_splits prod.splits)
qed

lemma dev_ChunkCreate_ok:
  assumes c: "dev_ok c" and f: "length fresh = ChunkSize" and m: "False \<notin> set m"
  shows "\<exists>e c' m'. dev_ChunkCreate fresh g m c = (e, c', m') \<and> dev_ok c' \<and> set m' \<subseteq> set m \<and> (VolumeRef c' = None \<longleftrightarrow> VolumeRef c = None) \<and>
    dev_chunks c' = (if VolumeRef c \<noteq> None \<and> dev_chunks c g = None then (dev_chunks c)(g \<mapsto> fresh) else dev_chunks c)"
proof (cases "VolumeRef c")
  case None
  then show ?thesis using c by (simp add: dev_ChunkCreate_def)
next
  case (Some v)
  then have v: "chunks_ok v" "dev_chunks c = vol_chunks v" using c by (simp_all add: dev_ok_def dev_chunks_def)
  obtain e v' m' where r: "ChunkCreate fresh g m v = (e, v', m')" by (cases "ChunkCreate fresh g m v") auto
  have "chunks_ok v' \<and> vol_chunks v' = (if vol_chunks v g = None then (vol_chunks v)(g \<mapsto> fresh) else vol_chunks v)"
    using vol.create_exists [OF v(1), of g fresh m] vol.create_new [OF v(1), of g fresh m] r m v(1) by (auto split: if_splits)
  then show ?thesis using r Some v c f ChunkCreate_rest [OF r]
    by (auto simp: dev_ChunkCreate_def dev_ok_def dev_chunks_def split: if_splits)
qed

lemma dev_ChunkWrite_ok:
  assumes c: "dev_ok c" and d: "length d = ChunkSize"
  shows "\<exists>c'. dev_ChunkWrite g d c = (if dev_chunks c g = None then NotFound else Success, c') \<and> dev_ok c' \<and>
    (VolumeRef c' = None \<longleftrightarrow> VolumeRef c = None) \<and> dev_chunks c' = (if dev_chunks c g = None then dev_chunks c else (dev_chunks c)(g \<mapsto> d))"
proof (cases "VolumeRef c")
  case None
  then show ?thesis using c by (simp add: dev_ChunkWrite_def dev_chunks_def)
next
  case (Some v)
  then have v: "chunks_ok v" "dev_chunks c = vol_chunks v" using c by (simp_all add: dev_ok_def dev_chunks_def)
  show ?thesis using vol.write_law [OF v(1), of g d] Some v c d
    by (cases "vol_chunks v g") (auto simp: dev_ChunkWrite_def dev_ok_def dev_chunks_def split: if_splits)
qed

lemma dev_ChunkRead_ok:
  assumes "dev_ok c"
  shows "dev_ChunkRead g buf c = (case dev_chunks c g of None \<Rightarrow> (NotFound, buf) | Some x \<Rightarrow> (Success, x))"
  using assms vol.read_law by (auto simp: dev_ChunkRead_def dev_ok_def dev_chunks_def split: option.splits)

lemma dev_ChunkDelete_ok:
  assumes c: "dev_ok c"
  shows "\<exists>c'. dev_ChunkDelete g c = (if dev_chunks c g = None then NotFound else Success, c') \<and> dev_ok c' \<and>
    (VolumeRef c' = None \<longleftrightarrow> VolumeRef c = None) \<and> dev_chunks c' = (dev_chunks c)(g := None)"
proof (cases "VolumeRef c")
  case None
  then show ?thesis using c by (simp add: dev_ChunkDelete_def dev_chunks_def fun_eq_iff)
next
  case (Some v)
  then have v: "chunks_ok v" "dev_chunks c = vol_chunks v" using c by (simp_all add: dev_ok_def dev_chunks_def)
  show ?thesis using vol.delete_law [OF v(1), of g] Some v c
    by (auto simp: dev_ChunkDelete_def dev_ok_def dev_chunks_def split: if_splits)
qed

text \<open>A handler's outcome is the one that \<open>serve\<close> gives.\<close>

definition served :: "(nat \<Rightarrow> byte_t) \<Rightarrow> bytes \<Rightarrow> Packet \<Rightarrow> mem \<Rightarrow> ControlDevice \<Rightarrow> handled \<Rightarrow> bool" where
  "served junk fresh request m c r \<longleftrightarrow> (case r of (e, p, m', c') \<Rightarrow> e = Success \<and> packet_ok p \<and> set m' \<subseteq> set m \<and> dev_ok c' \<and>
     (VolumeRef c' = None \<longleftrightarrow> VolumeRef c = None) \<and>
     serve (VolumeRef c \<noteq> None) junk fresh (pkType request, GetData request) (dev_chunks c) = ((pkType p, pkResult p, GetData p), dev_chunks c'))"

lemma Create_good:
  assumes "False \<notin> set m" "n \<le> PacketMaxDataSize"
  shows "\<exists>p' m'. Create junk t r n m p = (Success, p', m') \<and> set m' \<subseteq> set m \<and> packet_ok p' \<and> pkType p' = t \<and> pkResult p' = r \<and>
    pkDataSize p' = n \<and> GetData p' = map junk [HeaderSize..<HeaderSize + unat n]"
proof -
  obtain e p' m' where r: "Create junk t r n m p = (e, p', m')" by (cases "Create junk t r n m p") auto
  show ?thesis using Create_ok [OF r assms(2)] assms(1) r by auto
qed

lemma Create_empty:
  assumes "False \<notin> set m"
  shows "\<exists>p' m'. Create junk t r 0 m p = (Success, p', m') \<and> set m' \<subseteq> set m \<and> packet_ok p' \<and> pkType p' = t \<and> pkResult p' = r \<and> GetData p' = []"
  using Create_good [OF assms, of 0 junk t r p] by (auto simp: PacketMaxDataSize_def)

lemmas serve_kind = serve.simps packet_constants

lemma Ping_served:
  assumes "dev_ok c" "packet_ok request" "False \<notin> set m" "pkType request = PacketTypePing"
  shows "served junk fresh request m c (HandlePing junk request p m c)"
proof -
  have n: "pkDataSize request \<le> PacketMaxDataSize" using assms(2) by (simp add: packet_ok_def)
  obtain p' m' where r: "Create junk (pkType request) ResultSuccess (pkDataSize request) m p = (Success, p', m')" "set m' \<subseteq> set m" "packet_ok p'"
    "pkType p' = pkType request" "pkResult p' = ResultSuccess" "pkDataSize p' = pkDataSize request"
    using Create_good [OF assms(3) n] by blast
  have g: "GetDataSize p' = length (GetData request)" using r(6) packet_sizes(3) [OF assms(2)] by (simp add: GetDataSize_def)
  then have "GetData (put_data (GetData request) p') = GetData request" "packet_ok (put_data (GetData request) p')"
    using packet_ok_put_data [OF r(3), of "GetData request"] packet_sizes(3) [OF r(3)] by simp_all
  then show ?thesis using r g assms(1,4) packet_ok_put_data [OF r(3), of "GetData request"]
    by (simp add: HandlePing_def served_def serve_kind)
qed

lemma bad_size_served:
  assumes "dev_ok c" "packet_ok request" "False \<notin> set m"
    "serve (VolumeRef c \<noteq> None) junk fresh (pkType request, GetData request) (dev_chunks c) = ((pkType request, r, []), dev_chunks c)"
  shows "served junk fresh request m c (let (err, response, m) = Create junk (pkType request) r 0 m p in (err, response, m, c))"
  using Create_empty [OF assms(3), of junk "pkType request" r p] assms(1,4) by (auto simp: served_def)

lemma ChunkCreate_served:
  assumes "dev_ok c" "packet_ok request" "False \<notin> set m" "pkType request = PacketTypeChunkCreate" "length fresh = ChunkSize"
  shows "served junk fresh request m c (HandleChunkCreate junk fresh request p m c)"
proof (cases "GetDataSize request = GuidSize")
  case False
  then show ?thesis using bad_size_served [OF assms(1-3)] assms(4) packet_sizes(3) [OF assms(2)]
    by (simp add: HandleChunkCreate_def serve_kind GuidSize_def)
next
  case True
  have d: "length (GetData request) = 16" "take GuidSize (GetData request) = GetData request"
    using True packet_sizes(3) [OF assms(2)] by (simp_all add: GuidSize_def)
  obtain p1 m1 where r1: "Create junk (pkType request) ResultSuccess 0 m p = (Success, p1, m1)" "set m1 \<subseteq> set m"
    using Create_empty [OF assms(3)] by blast
  then have f1: "False \<notin> set m1" using assms(3) by blast
  obtain e c' m2 where r2: "dev_ChunkCreate fresh (GetData request) m1 c = (e, c', m2)" "dev_ok c'" "set m2 \<subseteq> set m1" "VolumeRef c' = None \<longleftrightarrow> VolumeRef c = None"
    "dev_chunks c' = (if VolumeRef c \<noteq> None \<and> dev_chunks c (GetData request) = None then (dev_chunks c)(GetData request \<mapsto> fresh) else dev_chunks c)"
    using dev_ChunkCreate_ok [OF assms(1,5) f1, of "GetData request"] by (elim exE conjE)
  then have f2: "False \<notin> set m2" using f1 by blast
  obtain p2 m3 where r3: "Create junk (pkType request) ResultSuccess 0 m2 (if e \<noteq> Success then SetResult ResultNotFound p1 else p1) = (Success, p2, m3)"
    "set m3 \<subseteq> set m2" "packet_ok p2" "pkType p2 = pkType request" "pkResult p2 = ResultSuccess" "GetData p2 = []"
    using Create_empty [OF f2] by blast
  have h: "HandleChunkCreate junk fresh request p m c = (Success, p2, m3, c')"
    using r1(1) r2(1) r3(1) d(2) by (simp add: HandleChunkCreate_def True Let_def)
  have v: "serve (VolumeRef c \<noteq> None) junk fresh (pkType request, GetData request) (dev_chunks c) = ((pkType request, ResultSuccess, []), dev_chunks c')"
    unfolding r2(5) using d(1) assms(4) by (simp add: serve_kind)
  show ?thesis unfolding h served_def using r1(2) r2(2-4) r3 v by auto
qed

lemma ChunkWrite_served:
  assumes "dev_ok c" "packet_ok request" "False \<notin> set m" "pkType request = PacketTypeChunkWrite"
  shows "served junk fresh request m c (HandleChunkWrite junk request p m c)"
proof (cases "GetDataSize request = GuidSize + ChunkSize")
  case False
  then show ?thesis using bad_size_served [OF assms(1-3)] assms(4) packet_sizes(3) [OF assms(2)]
    by (simp add: HandleChunkWrite_def serve_kind GuidSize_def ChunkSize_def)
next
  case True
  let ?g = "take 16 (GetData request)" and ?d = "drop 16 (GetData request)"
  have d: "length (GetData request) = 16 + 65536" using True packet_sizes(3) [OF assms(2)] by (simp add: GuidSize_def ChunkSize_def)
  then have l: "length ?d = ChunkSize" by (simp add: ChunkSize_def)
  obtain p1 m1 where r1: "Create junk (pkType request) ResultSuccess 0 m p = (Success, p1, m1)" "set m1 \<subseteq> set m" "packet_ok p1"
    "pkType p1 = pkType request" "pkResult p1 = ResultSuccess" "GetData p1 = []"
    using Create_empty [OF assms(3)] by blast
  from dev_ChunkWrite_ok [OF assms(1) l, of ?g] obtain c' where
    r2: "dev_ChunkWrite ?g ?d c = (if dev_chunks c ?g = None then NotFound else Success, c')" "dev_ok c'"
    "VolumeRef c' = None \<longleftrightarrow> VolumeRef c = None" "dev_chunks c' = (if dev_chunks c ?g = None then dev_chunks c else (dev_chunks c)(?g \<mapsto> ?d))" by (elim exE conjE)
  let ?p = "if dev_chunks c ?g = None then SetResult ResultNotFound p1 else p1"
  have h: "HandleChunkWrite junk request p m c = (Success, ?p, m1, c')"
  proof -
    have "NotFound \<noteq> Success" by (simp add: error_codes)
    moreover have "dev_ChunkWrite (take GuidSize (GetData request)) (drop GuidSize (GetData request)) c =
      (if dev_chunks c ?g = None then NotFound else Success, c')" using r2(1) by (simp only: GuidSize_def)
    ultimately show ?thesis unfolding HandleChunkWrite_def using r1(1) True by simp
  qed
  have v: "serve (VolumeRef c \<noteq> None) junk fresh (pkType request, GetData request) (dev_chunks c) =
    ((pkType request, if dev_chunks c ?g = None then ResultNotFound else ResultSuccess, []), dev_chunks c')"
    unfolding r2(4) using d assms(4) by (simp add: serve_kind)
  show ?thesis unfolding h served_def using r1(2-6) r2(2,3) v by (simp split: if_split)
qed

lemma ChunkRead_served:
  assumes "dev_ok c" "packet_ok request" "False \<notin> set m" "pkType request = PacketTypeChunkRead"
  shows "served junk fresh request m c (HandleChunkRead junk request p m c)"
proof (cases "GetDataSize request = GuidSize")
  case False
  then show ?thesis using bad_size_served [OF assms(1-3)] assms(4) packet_sizes(3) [OF assms(2)]
    by (simp add: HandleChunkRead_def serve_kind GuidSize_def)
next
  case True
  have d: "length (GetData request) = 16" "take GuidSize (GetData request) = GetData request"
    using True packet_sizes(3) [OF assms(2)] by (simp_all add: GuidSize_def)
  have n: "of_nat ChunkSize \<le> PacketMaxDataSize" "unat (of_nat ChunkSize :: uint32_t) = ChunkSize" by (simp_all add: ChunkSize_def PacketMaxDataSize_def)
  obtain p1 m1 where r1: "Create junk (pkType request) ResultSuccess (of_nat ChunkSize) m p = (Success, p1, m1)" "set m1 \<subseteq> set m" "packet_ok p1"
    "pkType p1 = pkType request" "pkResult p1 = ResultSuccess" "pkDataSize p1 = of_nat ChunkSize" "GetData p1 = map junk [HeaderSize..<HeaderSize + ChunkSize]"
    using Create_good [OF assms(3) n(1)] n(2) by metis
  have g: "GetDataSize p1 = ChunkSize" using r1(6) n(2) by (simp add: GetDataSize_def)
  have put: "packet_ok (put_data x p1)" "GetData (put_data x p1) = x" "pkType (put_data x p1) = pkType request" "pkResult (put_data x p1) = ResultSuccess"
    if "length x = ChunkSize" for x
    using packet_ok_put_data [OF r1(3), of x] packet_sizes(3) [OF r1(3)] that g r1(4,5) by simp_all
  have t: "take ChunkSize (GetData p1) = GetData p1" "length (GetData p1) = ChunkSize" using packet_sizes(3) [OF r1(3)] g by simp_all
  note r2 = dev_ChunkRead_ok [OF assms(1), of "GetData request" "GetData p1"]
  show ?thesis
  proof (cases "dev_chunks c (GetData request)")
    case None
    then show ?thesis using r1 r2 d t put [OF t(2)] assms(1,4)
      by (simp add: HandleChunkRead_def True served_def serve_kind) (simp add: error_codes ResultNotFound_def)
  next
    case (Some x)
    then have "length x = ChunkSize" using assms(1) by (simp add: dev_ok_def)
    then show ?thesis using Some r1 r2 d t put assms(1,4) by (simp add: HandleChunkRead_def True served_def serve_kind)
  qed
qed

lemma ChunkDelete_served:
  assumes "dev_ok c" "packet_ok request" "False \<notin> set m" "pkType request = PacketTypeChunkDelete"
  shows "served junk fresh request m c (HandleChunkDelete junk request p m c)"
proof (cases "GetDataSize request = GuidSize")
  case False
  then show ?thesis using bad_size_served [OF assms(1-3)] assms(4) packet_sizes(3) [OF assms(2)]
    by (simp add: HandleChunkDelete_def serve_kind GuidSize_def)
next
  case True
  have d: "length (GetData request) = 16" "take GuidSize (GetData request) = GetData request"
    using True packet_sizes(3) [OF assms(2)] by (simp_all add: GuidSize_def)
  obtain p1 m1 where r1: "Create junk (pkType request) ResultSuccess 0 m p = (Success, p1, m1)" "set m1 \<subseteq> set m"
    using Create_empty [OF assms(3)] by blast
  then have f1: "False \<notin> set m1" using assms(3) by blast
  obtain e c' where r2: "dev_ChunkDelete (GetData request) c = (e, c')" "dev_ok c'"
    "VolumeRef c' = None \<longleftrightarrow> VolumeRef c = None" "dev_chunks c' = (dev_chunks c)(GetData request := None)"
    using dev_ChunkDelete_ok [OF assms(1), of "GetData request"] by (elim exE conjE)
  obtain p2 m3 where r3: "Create junk (pkType request) ResultSuccess 0 m1 (if e \<noteq> Success then SetResult ResultNotFound p1 else p1) = (Success, p2, m3)"
    "set m3 \<subseteq> set m1" "packet_ok p2" "pkType p2 = pkType request" "pkResult p2 = ResultSuccess" "GetData p2 = []"
    using Create_empty [OF f1] by blast
  have h: "HandleChunkDelete junk request p m c = (Success, p2, m3, c')"
    using r1(1) r2(1) r3(1) d(2) by (simp add: HandleChunkDelete_def True Let_def)
  have v: "serve (VolumeRef c \<noteq> None) junk fresh (pkType request, GetData request) (dev_chunks c) = ((pkType request, ResultSuccess, []), dev_chunks c')"
    unfolding r2(4) using d(1) assms(4) by (simp add: serve_kind)
  show ?thesis unfolding h served_def using r1(2) r2(2-3) r3 v by auto
qed

lemma HandleRequest_served:
  assumes c: "dev_ok c" and q: "packet_ok request" and m: "False \<notin> set m" and f: "length fresh = ChunkSize"
  shows "\<exists>p m' c'. HandleRequest junk fresh request m c = (Success, Some p, m', c') \<and> served junk fresh request m c (Success, p, m', c')"
proof -
  obtain m1 where m1: "new m = (True, m1)" "set m1 \<subseteq> set m" using new_good [OF m] by blast
  then have f1: "False \<notin> set m1" using m by blast
  obtain m2 where m2: "new m1 = (True, m2)" "set m2 \<subseteq> set m1" using new_good [OF f1] by blast
  then have f2: "False \<notin> set m2" using f1 by blast
  note kinds = Ping_served [OF c q f2] ChunkCreate_served [OF c q f2 _ f] ChunkWrite_served [OF c q f2] ChunkRead_served [OF c q f2]
    ChunkDelete_served [OF c q f2]
  have other: "served junk fresh request m2 c (let (err, response, m) = Create junk (pkType request) (of_int UnknownCode) 0 m2 make_Packet in (err, response, m, c))"
    if "pkType request \<notin> {1, 2, 3, 4, 5}"
    using that by (intro bad_size_served c q f2) (simp add: serve_kind)
  have up: "served junk fresh request m c r" if "served junk fresh request m2 c r" for r
    using that m1(2) m2(2) by (auto simp: served_def)
  let ?r = "if pkType request = PacketTypePing then HandlePing junk request make_Packet m2 c
    else if pkType request = PacketTypeChunkCreate then HandleChunkCreate junk fresh request make_Packet m2 c
    else if pkType request = PacketTypeChunkWrite then HandleChunkWrite junk request make_Packet m2 c
    else if pkType request = PacketTypeChunkRead then HandleChunkRead junk request make_Packet m2 c
    else if pkType request = PacketTypeChunkDelete then HandleChunkDelete junk request make_Packet m2 c
    else let (err, response, m) = Create junk (pkType request) (of_int UnknownCode) 0 m2 make_Packet in (err, response, m, c)"
  have pick: "served junk fresh request m2 c (if b then x else y)"
    if "b \<Longrightarrow> served junk fresh request m2 c x" "\<not> b \<Longrightarrow> served junk fresh request m2 c y" for b x y using that by simp
  have r: "served junk fresh request m2 c ?r" by (intro pick kinds other) (simp_all add: packet_constants)
  obtain e p m' c' where e: "?r = (e, p, m', c')" by (cases ?r) auto
  with r have "e = Success" by (simp add: served_def)
  moreover have "HandleRequest junk fresh request m c = (e, Some p, m', c')"
    unfolding HandleRequest_def using m1(1) m2(1) e by (simp split del: if_split add: Let_def)
  ultimately show ?thesis using up r e by auto
qed

section \<open>A whole connection\<close>

definition requests :: "(uint32_t \<times> bytes) list \<Rightarrow> bytes" where
  "requests qs = concat (map (\<lambda>(t, d). wire t 0 d) qs)"

definition responses :: "(uint32_t \<times> uint32_t \<times> bytes) list \<Rightarrow> bytes" where
  "responses rs = concat (map (\<lambda>(t, r, d). wire t r d) rs)"

lemma Connection_loop_ok:
  assumes tcp: "tcp_stream io sk inb outb" and so: "Sockp so = Some sk" and run: "\<And>s. \<not> stopping s" and f: "length fresh = ChunkSize"
    and "inb s = requests qs" "\<forall>(t, d) \<in> set qs. length d \<le> 131072" "False \<notin> set m" "dev_ok c"
  shows "\<exists>m' c' s'. Connection_loop io h junk fresh stopping so m c s = Some (m', c', s') \<and> dev_ok c' \<and> inb s' = [] \<and>
    outb s' = outb s @ responses (fst (serve_all (VolumeRef c \<noteq> None) junk fresh qs (dev_chunks c))) \<and>
    dev_chunks c' = snd (serve_all (VolumeRef c \<noteq> None) junk fresh qs (dev_chunks c))"
  using assms(5-8)
proof (induction qs arbitrary: s m c)
  case Nil
  from RecvPacket_end [OF tcp so, of s h junk m] Nil obtain s' where
    "RecvPacket io h junk m s so = Some (ConnReset, None, m, s')" "inb s' = []" "outb s' = outb s" by (auto simp: requests_def)
  moreover have "ConnReset \<noteq> Success" by (simp add: error_codes)
  ultimately show ?case using run [of s] Nil
    by (simp add: Connection_loop.simps [of io h junk fresh stopping so m c s] responses_def)
next
  case (Cons q qs)
  obtain t d where q: "q = (t, d)" by fastforce
  have i: "inb s = wire t 0 d @ requests qs" using Cons.prems(1) by (simp add: q requests_def)
  have d: "length d \<le> 131072" using Cons.prems(2) by (simp add: q)
  from RecvPacket_ok [OF tcp so i d Cons.prems(3), of h junk] obtain p m1 s1 where
    r: "RecvPacket io h junk m s so = Some (Success, Some p, m1, s1)" "packet_ok p" "pkType p = t" "GetData p = d" "set m1 \<subseteq> set m"
      "inb s1 = requests qs" "outb s1 = outb s" by blast
  have f1: "False \<notin> set m1" using Cons.prems(3) r(5) by blast
  from HandleRequest_served [OF Cons.prems(4) r(2) f1 f, of junk] obtain p2 m2 c2 where
    h: "HandleRequest junk fresh p m1 c = (Success, Some p2, m2, c2)" and "served junk fresh p m1 c (Success, p2, m2, c2)" by blast
  then have v: "packet_ok p2" "set m2 \<subseteq> set m1" "dev_ok c2" "(VolumeRef c2 = None) = (VolumeRef c = None)"
    "serve (VolumeRef c \<noteq> None) junk fresh q (dev_chunks c) = ((pkType p2, pkResult p2, GetData p2), dev_chunks c2)"
    using r(3,4) by (simp_all add: served_def q)
  from SendPacket_ok [OF tcp so v(1), of h s1] obtain p3 s3 where
    s: "SendPacket io h p2 s1 so = Some (Success, p3, s3)" "inb s3 = requests qs" "outb s3 = outb s @ wire (pkType p2) (pkResult p2) (GetData p2)"
    using r(6,7) by auto
  have f2: "False \<notin> set m2" using f1 v(2) by blast
  from Cons.IH [OF s(2) _ f2 v(3)] Cons.prems(2) obtain m4 c4 s4 where
    l: "Connection_loop io h junk fresh stopping so m2 c2 s3 = Some (m4, c4, s4)" "dev_ok c4" "inb s4 = []"
    "outb s4 = outb s3 @ responses (fst (serve_all (VolumeRef c \<noteq> None) junk fresh qs (dev_chunks c2)))"
    "dev_chunks c4 = snd (serve_all (VolumeRef c \<noteq> None) junk fresh qs (dev_chunks c2))"
    unfolding v(4) by auto
  have "Connection_loop io h junk fresh stopping so m c s = Some (m4, c4, s4)"
    using run [of s] r(1) h s(1) l(1) by (simp add: Connection_loop.simps [of io h junk fresh stopping so m c s])
  then show ?case using l(2-5) s(3) v(5) by (simp add: split_beta Let_def responses_def)
qed

section \<open>Well-formedness with any allocator\<close>

text \<open>The chunk table of a volume in any state: every chunk has its size.\<close>

definition dev_typed :: "ControlDevice \<Rightarrow> bool" where
  "dev_typed c \<longleftrightarrow> (case VolumeRef c of None \<Rightarrow> True | Some v \<Rightarrow> dev_ok \<lparr>VolumeRef = Some (v\<lparr>vState := VolumeStateRunning\<rparr>)\<rparr>)"

lemma typed_running:
  assumes "VolumeRef c = Some v" "vState v = VolumeStateRunning"
  shows "dev_typed c \<longleftrightarrow> dev_ok c"
proof -
  have "c = \<lparr>VolumeRef = Some (v\<lparr>vState := VolumeStateRunning\<rparr>)\<rparr>" using assms by (cases c; cases v) simp
  then show ?thesis using assms(1) by (simp add: dev_typed_def)
qed

lemma ok_typed: "dev_ok c \<Longrightarrow> dev_typed c"
  using typed_running [of c] by (cases "VolumeRef c") (auto simp: dev_typed_def dev_ok_def chunks_ok_def)

lemma dev_ChunkCreate_typed:
  assumes t: "dev_typed c" and f: "length fresh = ChunkSize" and r: "dev_ChunkCreate fresh g m c = (e, c', m')"
  shows "dev_typed c'"
proof (cases "\<exists>v. VolumeRef c = Some v \<and> vState v = VolumeStateRunning")
  case False
  then show ?thesis using t r by (cases c) (auto simp: dev_ChunkCreate_def ChunkCreate_def split: option.splits)
next
  case True
  then obtain v where v: "VolumeRef c = Some v" "vState v = VolumeStateRunning" by blast
  then have c: "dev_ok c" using typed_running t by simp
  then have k: "chunks_ok v" "dev_chunks c = vol_chunks v" using v(1) by (simp_all add: dev_ok_def dev_chunks_def)
  obtain v' where r': "ChunkCreate fresh g m v = (e, v', m')" "c' = c\<lparr>VolumeRef := Some v'\<rparr>"
    using r v(1) by (auto simp: dev_ChunkCreate_def split: prod.splits)
  have "chunks_ok v' \<and> (vol_chunks v' = vol_chunks v \<or> vol_chunks v' = (vol_chunks v)(g \<mapsto> fresh))"
    using vol.create_exists [OF k(1), of g fresh m] vol.create_new [OF k(1), of g fresh m] r'(1) k(1) by (cases "vol_chunks v g") (auto split: if_splits)
  then have "dev_ok c'" using r'(2) c k f by (auto simp: dev_ok_def dev_chunks_def split: if_splits)
  then show ?thesis by (rule ok_typed)
qed

lemma dev_ChunkWrite_typed:
  assumes t: "dev_typed c" and f: "length d = ChunkSize" and r: "dev_ChunkWrite g d c = (e, c')"
  shows "dev_typed c'"
proof (cases "\<exists>v. VolumeRef c = Some v \<and> vState v = VolumeStateRunning")
  case False
  then show ?thesis using t r by (cases c) (auto simp: dev_ChunkWrite_def ChunkWrite_def split: option.splits)
next
  case True
  then have "dev_ok c" using typed_running t by blast
  then show ?thesis using dev_ChunkWrite_ok [OF _ f, of c g] r ok_typed by auto
qed

lemma dev_ChunkDelete_typed:
  assumes t: "dev_typed c" and r: "dev_ChunkDelete g c = (e, c')"
  shows "dev_typed c'"
proof (cases "\<exists>v. VolumeRef c = Some v \<and> vState v = VolumeStateRunning")
  case False
  then show ?thesis using t r by (cases c) (auto simp: dev_ChunkDelete_def ChunkDelete_def split: option.splits)
next
  case True
  then have "dev_ok c" using typed_running t by blast
  then show ?thesis using dev_ChunkDelete_ok [of c g] r ok_typed by auto
qed

lemma dev_ChunkRead_typed:
  assumes t: "dev_typed c" and b: "length buf = ChunkSize" and r: "dev_ChunkRead g buf c = (e, x)"
  shows "length x = ChunkSize"
proof (cases "\<exists>v. VolumeRef c = Some v \<and> vState v = VolumeStateRunning")
  case False
  then show ?thesis using r b by (auto simp: dev_ChunkRead_def ChunkRead_def split: option.splits)
next
  case True
  then have "dev_ok c" using typed_running t by blast
  then show ?thesis using dev_ChunkRead_ok [of c g buf] r b by (auto simp: dev_ok_def split: option.splits)
qed

definition answered :: "Packet \<Rightarrow> handled \<Rightarrow> bool" where
  "answered request r \<longleftrightarrow> (case r of (err, p, m', c') \<Rightarrow>
     (err = NoMemory \<or> err = Success \<and> packet_ok p \<and> pkType p = pkType request) \<and> dev_typed c')"

lemma Create_answered:
  assumes "dev_typed c" "n \<le> PacketMaxDataSize" "Create junk (pkType request) r n m p = (e, p', m')"
  shows "answered request (e, p', m', c)"
  using Create_ok(1,3) [OF assms(3,2)] assms(1) by (auto simp: answered_def)

lemma Create_let_answered:
  assumes "dev_typed c" "n \<le> PacketMaxDataSize"
  shows "answered request (let (err, response, m) = Create junk (pkType request) r n m p in (err, response, m, c))"
  using Create_answered [OF assms] by (auto split: prod.split)

lemma Create_then_answered:
  assumes "dev_typed c" "n \<le> PacketMaxDataSize"
    "\<And>p' m'. packet_ok p' \<Longrightarrow> pkType p' = pkType request \<Longrightarrow> pkDataSize p' = n \<Longrightarrow> answered request (next' Success p' m')"
  shows "answered request (let (err, response, m) = Create junk (pkType request) r n m p
     in if err \<noteq> Success then (err, response, m, c) else next' err response m)"
proof -
  obtain e p' m' where r: "Create junk (pkType request) r n m p = (e, p', m')" by (cases "Create junk (pkType request) r n m p") auto
  show ?thesis using Create_ok(1,3) [OF r assms(2)] Create_answered [OF assms(1,2) r] assms(3) r by auto
qed

lemmas answered_rules = Create_let_answered Create_then_answered

lemma small_sizes: "0 \<le> PacketMaxDataSize" "of_nat ChunkSize \<le> PacketMaxDataSize" "unat (of_nat ChunkSize :: uint32_t) = ChunkSize"
  by (simp_all add: PacketMaxDataSize_def ChunkSize_def)

lemma handlers_answered:
  assumes c: "dev_typed c" and q: "packet_ok request" and f: "length fresh = ChunkSize"
  shows "answered request (HandlePing junk request p m c)" "answered request (HandleChunkCreate junk fresh request p m c)"
    "answered request (HandleChunkWrite junk request p m c)" "answered request (HandleChunkRead junk request p m c)"
    "answered request (HandleChunkDelete junk request p m c)"
proof -
  have n: "pkDataSize request \<le> PacketMaxDataSize" using q by (simp add: packet_ok_def)
  note sizes = small_sizes n
  show "answered request (HandlePing junk request p m c)" unfolding HandlePing_def
  proof (intro answered_rules c sizes)
    fix p' m' assume p': "packet_ok p'" "pkType p' = pkType request" "pkDataSize p' = pkDataSize request"
    then show "answered request (Success, put_data (take (GetDataSize p') (GetData request)) p', m', c)"
      using packet_ok_put_data [OF p'(1), of "take (GetDataSize p') (GetData request)"] c by (simp add: answered_def)
  qed
  have pick: "answered request (if b then x else y)" if "answered request x" "\<not> b \<Longrightarrow> answered request y" for b x y using that by simp
  show "answered request (HandleChunkCreate junk fresh request p m c)" unfolding HandleChunkCreate_def
  proof (intro pick answered_rules c sizes)
    fix p' m'
    show "answered request (let (err, c, m) = dev_ChunkCreate fresh (take GuidSize (GetData request)) m' c;
        response = if err \<noteq> Success then SetResult ResultNotFound p' else p';
        (err, response, m) = Create junk (pkType request) ResultSuccess 0 m response in (err, response, m, c))"
      using dev_ChunkCreate_typed [OF c f] Create_let_answered [OF _ sizes(1)] by (auto simp: Let_def split: prod.split)
  qed
  show "answered request (HandleChunkDelete junk request p m c)" unfolding HandleChunkDelete_def
  proof (intro pick answered_rules c sizes)
    fix p' m'
    show "answered request (let (err, c) = dev_ChunkDelete (take GuidSize (GetData request)) c;
        response = if err \<noteq> Success then SetResult ResultNotFound p' else p';
        (err, response, m) = Create junk (pkType request) ResultSuccess 0 m' response in (err, response, m, c))"
      using dev_ChunkDelete_typed [OF c] Create_let_answered [OF _ sizes(1)] by (auto simp: Let_def split: prod.split)
  qed
  show "answered request (HandleChunkWrite junk request p m c)" unfolding HandleChunkWrite_def
  proof (intro pick answered_rules c sizes)
    fix p' m' assume d: "\<not> GetDataSize request \<noteq> GuidSize + ChunkSize" and p': "packet_ok p'" "pkType p' = pkType request"
    have "length (drop GuidSize (GetData request)) = ChunkSize" using d packet_sizes(3) [OF q] by simp
    from dev_ChunkWrite_typed [OF c this] show "answered request (let (err, c) = dev_ChunkWrite (take GuidSize (GetData request)) (drop GuidSize (GetData request)) c
        in if err \<noteq> Success then (Success, SetResult ResultNotFound p', m', c) else (err, p', m', c))"
      using p' by (auto simp: answered_def split: prod.split)
  qed
  show "answered request (HandleChunkRead junk request p m c)" unfolding HandleChunkRead_def
  proof (intro pick answered_rules c sizes)
    fix p' m' assume p': "packet_ok p'" "pkType p' = pkType request" "pkDataSize p' = of_nat ChunkSize"
    have g: "GetDataSize p' = ChunkSize" using p'(3) sizes(3) by (simp add: GetDataSize_def)
    then have "length (take ChunkSize (GetData p')) = ChunkSize" using packet_sizes(3) [OF p'(1)] by simp
    note x = dev_ChunkRead_typed [OF c this]
    have "packet_ok (put_data x p') \<and> pkType (put_data x p') = pkType request" if "length x = ChunkSize" for x
      using packet_ok_put_data [OF p'(1), of x] that g p'(2) by simp
    then show "answered request (let (err, data) = dev_ChunkRead (take GuidSize (GetData request)) (take ChunkSize (GetData p')) c;
        response = put_data data p'
      in if err \<noteq> Success then (Success, SetResult ResultNotFound response, m', c) else (err, response, m', c))"
      using x c by (auto simp: answered_def Let_def split: prod.split)
  qed
qed

section \<open>Properties\<close>

text \<open>
  Claim C5. A client that sends any sequence of requests over a connection and closes it receives, byte for byte and in order, the responses of
  a map from identifiers to chunks, and the chunks are afterwards those of the map: pings are echoed, chunks are created, written, read and deleted,
  requests of a wrong size and of an unknown type are answered as such. The thread of the connection then
  returns with the socket closed. This holds for every way the network cuts the streams and for either byte order, as long as memory
  suffices and nobody stops the thread.
\<close>

theorem server_session_refines_map:
  assumes tcp: "tcp_stream io sk inb outb" and conn: "Sock conn = Some \<lparr>Sockp = Some sk\<rparr>" and run: "\<forall>s. \<not> stopping s"
    and f: "length fresh = ChunkSize" and i: "inb s = requests qs" "\<forall>(t, d) \<in> set qs. length d \<le> 131072"
    and m: "False \<notin> set m" and c: "dev_ok c"
  shows "\<exists>m' c' s' k'. Connection_Run io h junk fresh stopping m c s k conn = Some (m', c', s', k', conn\<lparr>Sock := None\<rparr>) \<and>
    outb s' = outb s @ responses (fst (serve_all (VolumeRef c \<noteq> None) junk fresh qs (dev_chunks c))) \<and>
    dev_ok c' \<and> dev_chunks c' = snd (serve_all (VolumeRef c \<noteq> None) junk fresh qs (dev_chunks c))"
  using Connection_loop_ok [OF tcp _ _ f i m c, of "\<lparr>Sockp = Some sk\<rparr>" stopping h junk] run conn
  by (auto simp: Connection_Run_def Close_def)

lemma unmounted_ok: "dev_ok \<lparr>VolumeRef = None\<rparr>" "dev_chunks \<lparr>VolumeRef = None\<rparr> = Map.empty"
  by (simp_all add: dev_ok_def dev_chunks_def)

lemma empty_volume:
  "\<exists>v. dev_ok \<lparr>VolumeRef = Some v\<rparr> \<and> dev_chunks \<lparr>VolumeRef = Some v\<rparr> = Map.empty"
  using loaded_chunks_ok by (auto simp: dev_ok_def dev_chunks_def intro!: exI)

theorem server_session_refines_map_witness:
  "\<exists>v m' c' s' k'. dev_chunks \<lparr>VolumeRef = Some v\<rparr> = Map.empty \<and>
     Connection_Run (sample_net 100) LittleEndian (\<lambda>_. 0) (replicate ChunkSize 7) (\<lambda>_. False) [] \<lparr>VolumeRef = Some v\<rparr>
       (requests [(1, [5, 6]), (2, replicate 16 1), (4, [1]), (9, [])], []) \<lparr>Results = [], Calls = [], NextSock = 0\<rparr>
       \<lparr>Sock = Some \<lparr>Sockp = Some 0\<rparr>, ConnThread = True\<rparr> = Some (m', c', s', k', \<lparr>Sock = None, ConnThread = True\<rparr>) \<and>
     snd s' = responses [(1, 0, [5, 6]), (2, 0, []), (4, 1, []), (9, of_int UnknownCode, [])] \<and>
     dev_chunks c' = [replicate 16 1 \<mapsto> replicate ChunkSize 7]"
proof -
  obtain v where v: "dev_ok \<lparr>VolumeRef = Some v\<rparr>" "dev_chunks \<lparr>VolumeRef = Some v\<rparr> = Map.empty" using empty_volume by blast
  let ?qs = "[(1, [5, 6]), (2, replicate 16 1), (4, [1]), (9, [])] :: (uint32_t \<times> bytes) list"
  have r: "serve_all True (\<lambda>_. 0) (replicate ChunkSize 7) ?qs Map.empty =
    ([(1, 0, [5, 6]), (2, 0, []), (4, 1, []), (9, of_int UnknownCode, [])], [replicate 16 1 \<mapsto> replicate ChunkSize 7])"
    by (simp add: serve_kind)
  from server_session_refines_map [where io = "sample_net 100" and sk = 0 and inb = fst and outb = snd and stopping = "\<lambda>_. False" and
      fresh = "replicate ChunkSize 7" and m = "[]" and c = "\<lparr>VolumeRef = Some v\<rparr>" and qs = ?qs and s = "(requests ?qs, [])" and h = LittleEndian and
      junk = "\<lambda>_. 0" and k = "\<lparr>Results = [], Calls = [], NextSock = 0\<rparr>" and conn = "\<lparr>Sock = Some \<lparr>Sockp = Some 0\<rparr>, ConnThread = True\<rparr>",
      OF sample_stream [of 100 0] _ _ _ _ _ _ v(1)]
  show ?thesis unfolding v(2) using v(2) r by (simp del: serve_all.simps) blast
qed

text \<open>
  Every request is answered by a well-formed packet: whatever the request, the state of the device and the allocator do, handling
  ends with success and a response of the type of the request whose body has exactly the size its header announces,
  or with the error for missing memory.
\<close>

theorem server_response_well_formed:
  assumes q: "packet_ok request" and c: "dev_typed c" and f: "length fresh = ChunkSize"
  shows "\<exists>err response m' c'. HandleRequest junk fresh request m c = (err, response, m', c') \<and> dev_typed c' \<and>
    (err = NoMemory \<or> err = Success \<and> (\<exists>p. response = Some p \<and> packet_ok p \<and> pkType p = pkType request))"
proof -
  obtain ok1 m1 where m1: "new m = (ok1, m1)" by fastforce
  obtain ok2 m2 where m2: "new m1 = (ok2, m2)" by fastforce
  note h = handlers_answered [OF c q f, of junk make_Packet m2] Create_let_answered [OF c small_sizes(1), of request junk "of_int UnknownCode" m2 make_Packet]
  let ?r = "if pkType request = PacketTypePing then HandlePing junk request make_Packet m2 c
    else if pkType request = PacketTypeChunkCreate then HandleChunkCreate junk fresh request make_Packet m2 c
    else if pkType request = PacketTypeChunkWrite then HandleChunkWrite junk request make_Packet m2 c
    else if pkType request = PacketTypeChunkRead then HandleChunkRead junk request make_Packet m2 c
    else if pkType request = PacketTypeChunkDelete then HandleChunkDelete junk request make_Packet m2 c
    else let (err, response, m) = Create junk (pkType request) (of_int UnknownCode) 0 m2 make_Packet in (err, response, m, c)"
  have pick: "answered request (if b then x else y)" if "answered request x" "answered request y" for b x y using that by simp
  have r: "answered request ?r" by (intro pick h)
  obtain e p m' c' where e: "?r = (e, p, m', c')" by (cases ?r) auto
  have "HandleRequest junk fresh request m c = (if ok1 \<and> ok2 then (e, Some p, m', c') else (NoMemory, None, if ok1 then m2 else m1, c))"
    unfolding HandleRequest_def using m1 m2 e by (simp split del: if_split add: Let_def) simp
  then show ?thesis using r e c by (auto simp: answered_def)
qed

theorem server_response_well_formed_witness:
  "\<exists>err response m' c'. HandleRequest (\<lambda>_. 0) (replicate ChunkSize 7)
       \<lparr>pkType = 4, pkResult = 0, pkDataSize = 0, Body = \<lparr>Arr = replicate 32 0, vecSize = 32\<rparr>\<rparr> [True, True, False] \<lparr>VolumeRef = None\<rparr> = (err, response, m', c') \<and>
     (err = NoMemory \<or> err = Success \<and> (\<exists>p. response = Some p \<and> packet_ok p \<and> pkType p = 4))"
proof -
  let ?q = "\<lparr>pkType = 4, pkResult = 0, pkDataSize = 0, Body = \<lparr>Arr = replicate 32 0, vecSize = 32\<rparr>\<rparr>"
  have q: "packet_ok ?q" "dev_typed \<lparr>VolumeRef = None\<rparr>" "length (replicate ChunkSize (7::byte_t)) = ChunkSize"
    by (simp_all add: packet_ok_def GetDataSize_def GetSize_def HeaderSize_def PacketMaxDataSize_def dev_typed_def)
  from server_response_well_formed [OF q, of "\<lambda>_. 0" "[True, True, False]"] show ?thesis by auto
qed

end
