(* ===== verification/Server_Threads.thy ===== *)
theory Server_Threads
  imports Server AString
begin

text \<open>
  Threads (\<^verbatim>\<open>src/core/thread.cpp\<close>) and the life of the server and its connections (\<^verbatim>\<open>src/kstor/server.cpp\<close>). Starting and accepting are
  functions on the state of the server and the kernel; the creation of a kernel thread succeeds or not as \<open>task\<close> says. Stopping a connection
  against its own thread is a relation of steps of the two threads.
\<close>

section \<open>Threads\<close>

record Thread =
  Routine :: bool
  Task :: bool
  Stopping :: bool
  Running :: bool
  CompEvent :: bool
  thName :: astring

definition make_Thread :: Thread where
  "make_Thread = \<lparr>Routine = False, Task = False, Stopping = False, Running = False, CompEvent = False, thName = make_Vector\<rparr>"

text \<open>\<open>None\<close> when the name has no end.\<close>

definition Thread_Start :: "(nat \<Rightarrow> byte_t) \<Rightarrow> astring \<Rightarrow> bool \<Rightarrow> bool \<Rightarrow> mem \<Rightarrow> Thread \<Rightarrow> (err \<times> Thread \<times> mem) option" where
  "Thread_Start junk name routine task m th =
     (if \<not> routine then Some (InvalidValue, th, m)
      else case AString_copy junk name Success m of
        None \<Rightarrow> None
      | Some (err, localName, m) \<Rightarrow>
          (if err \<noteq> Success then Some (err, th, m)
           else let th = th\<lparr>thName := localName, Routine := True, Task := task\<rparr>
           in if \<not> task then Some (NoMemory, th, m) else Some (err, th\<lparr>Running := True\<rparr>, m)))"

definition Thread_ctor :: "(nat \<Rightarrow> byte_t) \<Rightarrow> astring \<Rightarrow> bool \<Rightarrow> bool \<Rightarrow> err \<Rightarrow> mem \<Rightarrow> (err \<times> Thread \<times> mem) option" where
  "Thread_ctor junk name routine task err m =
     (if err \<noteq> Success then Some (err, make_Thread, m) else Thread_Start junk name routine task m make_Thread)"

text \<open>The routine runs in the new task; when it returns, the waiters are woken up.\<close>

definition Thread_ExecuteRoutine :: "Thread \<Rightarrow> Thread" where
  "Thread_ExecuteRoutine th = th\<lparr>CompEvent := True\<rparr>"

definition Thread_Stop :: "Thread \<Rightarrow> Thread" where
  "Thread_Stop th = th\<lparr>Stopping := True\<rparr>"

text \<open>Whether a wait for the thread returns.\<close>

definition Thread_Wait :: "Thread \<Rightarrow> bool" where
  "Thread_Wait th \<longleftrightarrow> (Running th \<longrightarrow> CompEvent th)"

text \<open>The destructor stops and waits, if there is a task: the state in which it returns, if it does.\<close>

definition Thread_dtor :: "Thread \<Rightarrow> Thread option" where
  "Thread_dtor th = (if Task th then let th = Thread_Stop th in if Thread_Wait th then Some th else None else Some th)"

text \<open>\<open>MakeUnique<Thread>(name, this, err)\<close>: the error and the thread, if it was allocated.\<close>

definition make_thread :: "(nat \<Rightarrow> byte_t) \<Rightarrow> astring \<Rightarrow> bool \<Rightarrow> mem \<Rightarrow> (err \<times> Thread option \<times> mem) option" where
  "make_thread junk name task m =
     (let (ok, m) = new m
      in if \<not> ok then Some (Success, None, m)
      else case Thread_ctor junk name True task Success m of
        None \<Rightarrow> None
      | Some (err, th, m) \<Rightarrow> Some (err, Some th, m))"

section \<open>Starting\<close>

definition con_name :: bytes where "con_name = [107, 115, 116, 111, 114, 45, 99, 111, 110, 0]"
definition srv_name :: bytes where "srv_name = [107, 115, 116, 111, 114, 45, 115, 114, 118, 0]"

definition Connection_Start :: "(nat \<Rightarrow> byte_t) \<Rightarrow> bool \<Rightarrow> mem \<Rightarrow> Connection \<Rightarrow> (err \<times> Connection \<times> mem) option" where
  "Connection_Start junk task m conn =
     (if ConnThread conn \<or> Sock conn = None then Some (InvalidState, conn, m)
      else case AString_cstr junk con_name Success m of
        None \<Rightarrow> None
      | Some (err, name, m) \<Rightarrow>
          (if err \<noteq> Success then Some (err, conn, m)
           else case make_thread junk name task m of
             None \<Rightarrow> None
           | Some (err, None, m) \<Rightarrow> Some (NoMemory, conn, m)
           | Some (err, Some th, m) \<Rightarrow>
               (if err \<noteq> Success then Some (err, conn\<lparr>ConnThread := False\<rparr>, m)
                else Some (err, conn\<lparr>ConnThread := True\<rparr>, m))))"

text \<open>What is left of \<open>Connection::Stop\<close> for a connection whose thread is gone or was never started.\<close>

definition Connection_close :: "kernel \<Rightarrow> Connection \<Rightarrow> Connection \<times> kernel" where
  "Connection_close k conn =
     (case Sock conn of
        None \<Rightarrow> (conn\<lparr>ConnThread := False\<rparr>, k)
      | Some so \<Rightarrow> (let (so, k) = Close k so in (\<lparr>Sock = None, ConnThread = False\<rparr>, k)))"

definition Closed :: "Connection \<Rightarrow> bool" where
  "Closed conn = (if Sock conn = None then True else False)"

record Server =
  ListenSocket :: "Socket option"
  AcceptThread :: bool
  ConnList :: "Connection list"

definition make_Server :: Server where
  "make_Server = \<lparr>ListenSocket = None, AcceptThread = False, ConnList = []\<rparr>"

definition Server_Start ::
  "resolver \<Rightarrow> (nat \<Rightarrow> byte_t) \<Rightarrow> bool \<Rightarrow> bytes \<Rightarrow> 16 word \<Rightarrow> mem \<Rightarrow> kernel \<Rightarrow> Server \<Rightarrow> (err \<times> Server \<times> mem \<times> kernel) option" where
  "Server_Start rs junk task host port m k srv =
     (if ListenSocket srv \<noteq> None \<or> AcceptThread srv then Some (InvalidState, srv, m, k)
      else let (ok, m) = new m
      in if \<not> ok then Some (NoMemory, srv, m, k)
      else let (err, so, k) = Listen rs host port 65536 k make_Socket
      in if err \<noteq> Success then Some (err, srv, m, snd (Close k so))
      else case AString_cstr junk srv_name Success m of
        None \<Rightarrow> None
      | Some (err, name, m) \<Rightarrow>
          (if err \<noteq> Success then Some (err, srv, m, snd (Close k so))
           else case make_thread junk name task m of
             None \<Rightarrow> None
           | Some (err, None, m) \<Rightarrow> Some (NoMemory, srv, m, snd (Close k so))
           | Some (err, Some th, m) \<Rightarrow>
               (if err \<noteq> Success then Some (err, srv, m, snd (Close k so))
                else Some (Success, srv\<lparr>ListenSocket := Some so, AcceptThread := True\<rparr>, m, k))))"

section \<open>Accepting\<close>

text \<open>
  Removing dead connections: after an erasure the iterator stands on the next element, which the step of the loop then skips.
\<close>

fun reap :: "Connection list \<Rightarrow> Connection list" where
  "reap [] = []"
| "reap (c # cs) = (if Closed c then (case cs of [] \<Rightarrow> [] | d # ds \<Rightarrow> d # reap ds) else c # reap cs)"

text \<open>
  One round of the accepting thread: whether it goes on, and the state after it. The flag of the thread is read twice.
\<close>

definition Server_round ::
  "(nat \<Rightarrow> byte_t) \<Rightarrow> bool \<Rightarrow> bool \<Rightarrow> bool \<Rightarrow> mem \<Rightarrow> kernel \<Rightarrow> Server \<Rightarrow> (bool \<times> Server \<times> mem \<times> kernel) option" where
  "Server_round junk task stopping stop_seen m k srv =
     (if stopping then Some (False, srv, m, k)
      else let srv = srv\<lparr>ConnList := reap (ConnList srv)\<rparr>
      in case ListenSocket srv of
        None \<Rightarrow> Some (False, srv, m, k)
      | Some listen \<Rightarrow>
          (let (err, socket, m, k) = Accept m k listen
           in case socket of
                None \<Rightarrow> Some (True, srv, m, k)
              | Some so \<Rightarrow>
                  (if err \<noteq> Success then Some (True, srv, m, snd (Close k so))
                   else let (ok, m) = MakeShared m
                   in if \<not> ok then Some (True, srv, m, snd (Close k so))
                   else let conn = \<lparr>Sock = Some so, ConnThread = False\<rparr>
                   in if stop_seen then Some (True, srv, m, snd (Connection_close k conn))
                   else let (ok, m) = new m
                   in if \<not> ok then Some (True, srv, m, snd (Connection_close k conn))
                   else case Connection_Start junk task m conn of
                     None \<Rightarrow> None
                   | Some (err, conn, m) \<Rightarrow>
                       (if err \<noteq> Success then Some (True, srv, m, snd (Connection_close k conn))
                        else Some (True, srv\<lparr>ConnList := ConnList srv @ [conn]\<rparr>, m, k)))))"

section \<open>Which sockets the server holds\<close>

definition sock_held :: "Socket option \<Rightarrow> nat set" where
  "sock_held so = (case so of None \<Rightarrow> {} | Some so \<Rightarrow> (case Sockp so of None \<Rightarrow> {} | Some sk \<Rightarrow> {sk}))"

definition held :: "Server \<Rightarrow> nat set" where
  "held srv = sock_held (ListenSocket srv) \<union> (\<Union>conn \<in> set (ConnList srv). sock_held (Sock conn))"

lemma reap_held: "(\<Union>conn \<in> set (reap cs). sock_held (Sock conn)) = (\<Union>conn \<in> set cs. sock_held (Sock conn))"
proof (induction cs rule: reap.induct)
  case (2 c cs)
  then show ?case by (cases "Closed c"; cases cs) (auto simp: Closed_def sock_held_def split: if_splits)
qed simp

lemma names_ok:
  "\<exists>e b m'. AString_cstr junk con_name Success m = Some (e, b, m') \<and> astr_ok b \<and> (e = Success \<longleftrightarrow> fst (new m)) \<and> (e = Success \<longrightarrow> vecSize b \<noteq> 0)"
  "\<exists>e b m'. AString_cstr junk srv_name Success m = Some (e, b, m') \<and> astr_ok b \<and> (e = Success \<longleftrightarrow> fst (new m)) \<and> (e = Success \<longrightarrow> vecSize b \<noteq> 0)"
proof -
  have "\<exists>e b m'. AString_cstr junk s Success m = Some (e, b, m') \<and> astr_ok b \<and> (e = Success \<longleftrightarrow> fst (new m)) \<and> (e = Success \<longrightarrow> vecSize b \<noteq> 0)"
    if "StrLen s = Some 9" "9 \<le> length s" "hd s \<noteq> 0" for s
  proof -
    have "takeWhile (\<lambda>c. c \<noteq> 0) (take 9 s) \<noteq> []" using that(2,3) by (cases s) auto
    moreover have "vecSize b \<noteq> 0" if "astr b \<noteq> []" for b :: astring using that by (auto simp: astr_def GetLen_def Let_def split: if_splits)
    ultimately show ?thesis using AString_len_ok [OF that(2), of junk m] that(1)
      by (auto simp: AString_cstr_def NoMemory_def Success_def split: if_splits)
  qed
  from this [of con_name] this [of srv_name] show
    "\<exists>e b m'. AString_cstr junk con_name Success m = Some (e, b, m') \<and> astr_ok b \<and> (e = Success \<longleftrightarrow> fst (new m)) \<and> (e = Success \<longrightarrow> vecSize b \<noteq> 0)"
    "\<exists>e b m'. AString_cstr junk srv_name Success m = Some (e, b, m') \<and> astr_ok b \<and> (e = Success \<longleftrightarrow> fst (new m)) \<and> (e = Success \<longrightarrow> vecSize b \<noteq> 0)"
    by (simp_all add: con_name_def srv_name_def StrLen_def)
qed

text \<open>Copying a string that is not empty memory finds its end.\<close>

lemma AString_copy_defined:
  assumes "astr_ok b" "vecSize b \<noteq> 0"
  shows "\<exists>r. AString_copy junk b Success m = Some r"
proof -
  have l: "GetLen b < length (Arr b)" "Arr b ! GetLen b = 0" using assms by (auto simp: astr_ok_def vec_inv_def vecCapacity_def GetLen_def)
  then have "Arr b = astr b @ 0 # drop (Suc (GetLen b)) (Arr b)" unfolding astr_def by (metis id_take_nth_drop)
  then have "StrLen (Arr b) = Some (GetLen b)"
    using StrLen_from_spec [of "astr b" "drop (Suc (GetLen b)) (Arr b)" 0] assms(1) length_astr [of b] by (simp add: StrLen_def astr_ok_def)
  then show ?thesis by (simp add: AString_copy_def AString_cstr_def del: split_paired_Ex)
qed

lemma make_thread_defined:
  assumes "astr_ok b" "vecSize b \<noteq> 0"
  shows "\<exists>e th m'. make_thread junk b task m = Some (e, th, m') \<and> (th = None \<longleftrightarrow> \<not> fst (new m)) \<and> (th \<noteq> None \<and> e = Success \<longrightarrow> task)"
proof -
  obtain ok m1 where n: "new m = (ok, m1)" by fastforce
  from AString_copy_defined [OF assms, of junk m1] obtain e b' m2 where "AString_copy junk b Success m1 = Some (e, b', m2)" by auto
  then show ?thesis using n
    by (auto simp: make_thread_def Thread_ctor_def Thread_Start_def NoMemory_def Success_def Let_def split: if_splits)
qed

lemma Close_ok: "kernel_ok k (insert sk S) \<Longrightarrow> sk \<notin> S \<Longrightarrow> kernel_ok (snd (Close k \<lparr>Sockp = Some sk\<rparr>)) S"
  using ksock_release_ok [of k "insert sk S" sk] by (simp add: Close_def)

lemma Listen_new:
  assumes "kernel_ok k S" "Listen rs host port backlog k make_Socket = (e, so, k')"
  shows "if e = Success then \<exists>sk. so = \<lparr>Sockp = Some sk\<rparr> \<and> sk \<notin> S \<and> kernel_ok k' (insert sk S) else so = make_Socket \<and> kernel_ok k' S"
  using ksock_listen_host_made [OF assms(1), of rs host port backlog] assms(2)
  by (auto simp: Listen_def make_Socket_def made_def Success_def split: prod.splits option.splits)

lemma Accept_new:
  assumes "kernel_ok k S" "Accept m k \<lparr>Sockp = Some lsk\<rparr> = (e, so, m', k')" "fst (new m)"
  shows "case so of None \<Rightarrow> kernel_ok k' S | Some so \<Rightarrow> e = Success \<and> (\<exists>sk. so = \<lparr>Sockp = Some sk\<rparr> \<and> sk \<notin> S \<and> kernel_ok k' (insert sk S))"
  using ksock_accept_made [OF assms(1), of lsk] assms(2,3)
  by (auto simp: Accept_def made_def Success_def split: prod.splits option.splits if_splits)

lemma Connection_Start_new:
  "\<exists>e b m'. Connection_Start junk task m \<lparr>Sock = Some so, ConnThread = False\<rparr> = Some (e, \<lparr>Sock = Some so, ConnThread = b\<rparr>, m') \<and> (e = Success \<longleftrightarrow> b)"
proof -
  obtain e b m1 where n: "AString_cstr junk con_name Success m = Some (e, b, m1)" "astr_ok b" "e = Success \<longrightarrow> vecSize b \<noteq> 0"
    using names_ok(1) by blast
  show ?thesis
  proof (cases "e = Success")
    case True
    obtain e2 th m2 where "make_thread junk b task m1 = Some (e2, th, m2)" using make_thread_defined n(2,3) True by blast
    then show ?thesis using n(1) True by (cases th) (auto simp: Connection_Start_def NoMemory_def Success_def)
  qed (use n(1) in \<open>simp add: Connection_Start_def\<close>)
qed

lemma Connection_close_ok:
  "kernel_ok k (insert sk S) \<Longrightarrow> sk \<notin> S \<Longrightarrow> kernel_ok (snd (Connection_close k \<lparr>Sock = Some \<lparr>Sockp = Some sk\<rparr>, ConnThread = b\<rparr>)) S"
  using Close_ok [of k sk S] by (auto simp: Connection_close_def split: prod.split)

lemma held_listen:
  "ListenSocket srv = None \<Longrightarrow> held (srv\<lparr>ListenSocket := Some \<lparr>Sockp = Some sk\<rparr>, AcceptThread := b\<rparr>) = insert sk (held srv)"
  by (simp add: held_def sock_held_def)

lemma held_reap [simp]: "held (srv\<lparr>ConnList := reap (ConnList srv)\<rparr>) = held srv"
  by (simp add: held_def reap_held)

lemma held_add: "held (srv\<lparr>ConnList := ConnList srv @ [\<lparr>Sock = Some \<lparr>Sockp = Some sk\<rparr>, ConnThread = b\<rparr>]\<rparr>) = insert sk (held srv)"
  by (auto simp: held_def sock_held_def)

lemma Server_Start_ok:
  assumes k: "kernel_ok k (held srv)"
  shows "\<exists>e srv' m' k'. Server_Start rs junk task host port m k srv = Some (e, srv', m', k') \<and> kernel_ok k' (held srv') \<and>
    (e \<noteq> Success \<longrightarrow> srv' = srv) \<and> (e = Success \<longrightarrow> ListenSocket srv = None \<and> ListenSocket srv' \<noteq> None \<and> AcceptThread srv')"
proof (cases "ListenSocket srv \<noteq> None \<or> AcceptThread srv \<or> \<not> fst (new m)")
  case True
  then show ?thesis using k by (cases "new m") (auto simp: Server_Start_def error_codes)
next
  case False
  obtain m1 where m1: "new m = (True, m1)" using False by (cases "new m") auto
  obtain e so k1 where l: "Listen rs host port 65536 k make_Socket = (e, so, k1)" by (cases "Listen rs host port 65536 k make_Socket") auto
  note L = Listen_new [OF k l]
  show ?thesis
  proof (cases "e = Success")
    case e: False
    then have "snd (Close k1 so) = k1" "kernel_ok k1 (held srv)" using L by (simp_all add: Close_def make_Socket_def)
    then show ?thesis using False m1 l e by (simp add: Server_Start_def)
  next
    case True
    then obtain sk where sk: "so = \<lparr>Sockp = Some sk\<rparr>" "sk \<notin> held srv" "kernel_ok k1 (insert sk (held srv))" using L by auto
    note shut = Close_ok [OF sk(3,2)]
    obtain e2 b m2 where n: "AString_cstr junk srv_name Success m1 = Some (e2, b, m2)" "astr_ok b" "e2 = Success \<longrightarrow> vecSize b \<noteq> 0"
      using names_ok(2) by blast
    show ?thesis
    proof (cases "e2 = Success")
      case False2: False
      then show ?thesis using False m1 l True n(1) sk(1) shut by (simp add: Server_Start_def)
    next
      case ok2: True
      obtain e3 th m3 where "make_thread junk b task m2 = Some (e3, th, m3)" using make_thread_defined n(2,3) ok2 by blast
      moreover have "NoMemory \<noteq> Success" by (simp add: error_codes)
      ultimately show ?thesis using False m1 l True n(1) ok2 sk shut held_listen [where srv = srv and sk = sk and b = True]
        by (cases th; cases "e3 = Success") (simp_all add: Server_Start_def)
    qed
  qed
qed

lemma Server_round_ok:
  assumes srv: "ListenSocket srv = None \<or> (\<exists>sk. ListenSocket srv = Some \<lparr>Sockp = Some sk\<rparr>)" and k: "kernel_ok k (held srv)" and m: "fst (new m)"
  shows "\<exists>go srv' m' k'. Server_round junk task stopping stop_seen m k srv = Some (go, srv', m', k') \<and> kernel_ok k' (held srv')"
proof (cases "stopping \<or> ListenSocket srv = None")
  case True
  then show ?thesis using k by (auto simp: Server_round_def)
next
  case False
  then obtain lsk where lsk: "ListenSocket srv = Some \<lparr>Sockp = Some lsk\<rparr>" "\<not> stopping" using srv by auto
  let ?srv = "srv\<lparr>ConnList := reap (ConnList srv)\<rparr>"
  obtain e so m1 k1 where a: "Accept m k \<lparr>Sockp = Some lsk\<rparr> = (e, so, m1, k1)" by (cases "Accept m k \<lparr>Sockp = Some lsk\<rparr>") auto
  note A = Accept_new [OF k a m]
  show ?thesis
  proof (cases so)
    case None
    then show ?thesis using A lsk a by (auto simp: Server_round_def)
  next
    case (Some so')
    then obtain sk where sk: "so' = \<lparr>Sockp = Some sk\<rparr>" "sk \<notin> held srv" "kernel_ok k1 (insert sk (held srv))" "e = Success" using A by auto
    note shut = Close_ok [OF sk(3,2)] Connection_close_ok [OF sk(3,2)]
    obtain ok2 m2 where m2: "MakeShared m1 = (ok2, m2)" by fastforce
    obtain ok3 m3 where m3: "new m2 = (ok3, m3)" by fastforce
    from Connection_Start_new obtain e4 b m4 where
      st: "Connection_Start junk task m3 \<lparr>Sock = Some so', ConnThread = False\<rparr> = Some (e4, \<lparr>Sock = Some so', ConnThread = b\<rparr>, m4)" by blast
    have add: "held (?srv\<lparr>ConnList := reap (ConnList srv) @ [\<lparr>Sock = Some \<lparr>Sockp = Some sk\<rparr>, ConnThread = b\<rparr>]\<rparr>) = insert sk (held srv)"
      using held_add [of ?srv sk b] by simp
    show ?thesis using lsk a Some sk m2 m3 st shut add
      by (cases ok2; cases stop_seen; cases ok3; cases "e4 = Success") (auto simp: Server_round_def)
  qed
qed

section \<open>Stopping a connection\<close>

text \<open>
  \<open>Connection::Stop\<close> takes the lock of the connection, tells the thread to stop, waits for it, closes the socket and releases the lock. The
  thread serves requests until it is told to stop or the connection fails, then takes the same lock to close the socket, and
  reports its end when its routine returns.
\<close>

datatype stop_pc = StopBegin | StopLocked | StopWaiting | StopClosing | StopDone
datatype run_pc = RunLoop | RunLockWait | RunClosing | RunReturn | RunDone
datatype owner = Stopper | Runner

record conn_state =
  StateLock :: "owner option"
  csStopping :: bool
  csSock :: bool
  csComp :: bool
  spc :: stop_pc
  rpc :: run_pc

inductive conn_step :: "conn_state \<Rightarrow> conn_state \<Rightarrow> bool" where
  stop_lock: "spc s = StopBegin \<Longrightarrow> StateLock s = None \<Longrightarrow> conn_step s (s\<lparr>StateLock := Some Stopper, spc := StopLocked\<rparr>)"
| stop_signal: "spc s = StopLocked \<Longrightarrow> conn_step s (s\<lparr>csStopping := True, spc := StopWaiting\<rparr>)"
| stop_woken: "spc s = StopWaiting \<Longrightarrow> csComp s \<Longrightarrow> conn_step s (s\<lparr>spc := StopClosing\<rparr>)"
| stop_close: "spc s = StopClosing \<Longrightarrow> conn_step s (s\<lparr>csSock := False, StateLock := None, spc := StopDone\<rparr>)"
| run_serve: "rpc s = RunLoop \<Longrightarrow> \<not> csStopping s \<Longrightarrow> conn_step s s"
| run_stopped: "rpc s = RunLoop \<Longrightarrow> csStopping s \<Longrightarrow> conn_step s (s\<lparr>rpc := RunLockWait\<rparr>)"
| run_failed: "rpc s = RunLoop \<Longrightarrow> conn_step s (s\<lparr>rpc := RunLockWait\<rparr>)"
| run_lock: "rpc s = RunLockWait \<Longrightarrow> StateLock s = None \<Longrightarrow> conn_step s (s\<lparr>StateLock := Some Runner, rpc := RunClosing\<rparr>)"
| run_close: "rpc s = RunClosing \<Longrightarrow> conn_step s (s\<lparr>csSock := False, StateLock := None, rpc := RunReturn\<rparr>)"
| run_return: "rpc s = RunReturn \<Longrightarrow> conn_step s (s\<lparr>csComp := True, rpc := RunDone\<rparr>)"

inductive_cases conn_stepE: "conn_step s s'"

definition conn_start :: conn_state where
  "conn_start = \<lparr>StateLock = None, csStopping = False, csSock = True, csComp = False, spc = StopBegin, rpc = RunLoop\<rparr>"

text \<open>The stopper has the lock that the thread still needs.\<close>

definition stuck :: "conn_state \<Rightarrow> bool" where
  "stuck s \<longleftrightarrow> StateLock s = Some Stopper \<and> \<not> csComp s \<and> csSock s \<and> spc s \<in> {StopLocked, StopWaiting} \<and> rpc s \<in> {RunLoop, RunLockWait}"

lemma stuck_step: "conn_step s s' \<Longrightarrow> stuck s \<Longrightarrow> stuck s'"
  by (induction rule: conn_step.induct) (auto simp: stuck_def)

lemma stuck_steps: "conn_step\<^sup>*\<^sup>* s s' \<Longrightarrow> stuck s \<Longrightarrow> stuck s'"
  by (induction rule: rtranclp_induct) (auto dest: stuck_step)

text \<open>The invariant of all reachable states.\<close>

definition conn_inv :: "conn_state \<Rightarrow> bool" where
  "conn_inv s \<longleftrightarrow> (StateLock s = Some Stopper \<longleftrightarrow> spc s \<in> {StopLocked, StopWaiting, StopClosing}) \<and> (StateLock s = Some Runner \<longleftrightarrow> rpc s = RunClosing) \<and>
     (csComp s \<longleftrightarrow> rpc s = RunDone) \<and> (csSock s \<longrightarrow> rpc s \<in> {RunLoop, RunLockWait, RunClosing} \<and> spc s \<noteq> StopDone) \<and>
     (spc s \<in> {StopClosing, StopDone} \<longrightarrow> rpc s = RunDone) \<and> (rpc s \<in> {RunLoop, RunLockWait} \<longrightarrow> csSock s)"

lemma conn_inv_step: "conn_step s s' \<Longrightarrow> conn_inv s \<Longrightarrow> conn_inv s'"
  by (induction rule: conn_step.induct) (auto simp: conn_inv_def)

lemma conn_inv_steps: "conn_step\<^sup>*\<^sup>* s s' \<Longrightarrow> conn_inv s \<Longrightarrow> conn_inv s'"
  by (induction rule: rtranclp_induct) (auto dest: conn_inv_step)

lemma conn_start_inv: "conn_inv conn_start"
  by (simp add: conn_inv_def conn_start_def)

section \<open>Properties\<close>

text \<open>
  Claim C31. Stopping a live connection never returns. In every state reachable from a serving connection in which \<open>Connection::Stop\<close> has taken the
  lock: when the thread has not yet closed the socket, no continuation lets \<open>Stop\<close> return or the thread end, since
  each waits for the other; when the thread had closed the socket before, \<open>Stop\<close> can return.
\<close>

theorem connection_stop_deadlock:
  assumes s: "conn_step\<^sup>*\<^sup>* conn_start s" and locked: "spc s = StopLocked"
  shows "(csSock s \<longrightarrow> (\<forall>s'. conn_step\<^sup>*\<^sup>* s s' \<longrightarrow> spc s' \<noteq> StopDone \<and> rpc s' \<noteq> RunDone)) \<and>
    (\<not> csSock s \<longrightarrow> (\<exists>s'. conn_step\<^sup>*\<^sup>* s s' \<and> spc s' = StopDone \<and> rpc s' = RunDone \<and> StateLock s' = None))"
proof (intro conjI impI allI)
  have inv: "conn_inv s" using conn_inv_steps [OF s conn_start_inv] .
  show "spc s' \<noteq> StopDone" "rpc s' \<noteq> RunDone" if "csSock s" "conn_step\<^sup>*\<^sup>* s s'" for s'
  proof -
    have "stuck s" using inv locked that(1) by (auto simp: stuck_def conn_inv_def)
    from stuck_steps [OF that(2) this] show "spc s' \<noteq> StopDone" "rpc s' \<noteq> RunDone" by (auto simp: stuck_def)
  qed
  show "\<exists>s'. conn_step\<^sup>*\<^sup>* s s' \<and> spc s' = StopDone \<and> rpc s' = RunDone \<and> StateLock s' = None" if "\<not> csSock s"
  proof -
    have r: "rpc s = RunReturn \<or> rpc s = RunDone" using inv locked that by (cases "rpc s") (auto simp: conn_inv_def)
    obtain t where t: "conn_step\<^sup>*\<^sup>* s t" "spc t = StopLocked" "rpc t = RunDone" "csComp t"
    proof (cases "rpc s = RunDone")
      case True
      then show ?thesis using that [of s] inv locked by (auto simp: conn_inv_def)
    next
      case False
      then have "conn_step s (s\<lparr>csComp := True, rpc := RunDone\<rparr>)" using r by (auto intro: conn_step.run_return)
      then show ?thesis using that [OF r_into_rtranclp] locked by auto
    qed
    have "conn_step t (t\<lparr>csStopping := True, spc := StopWaiting\<rparr>)" (is "conn_step t ?t1") using t(2) by (rule conn_step.stop_signal)
    moreover have "conn_step ?t1 (?t1\<lparr>spc := StopClosing\<rparr>)" (is "conn_step ?t1 ?t2") using t(4) by (intro conn_step.stop_woken) simp_all
    moreover have "conn_step ?t2 (?t2\<lparr>csSock := False, StateLock := None, spc := StopDone\<rparr>)" (is "conn_step ?t2 ?t3") by (intro conn_step.stop_close) simp
    ultimately have "conn_step\<^sup>*\<^sup>* s ?t3" using t(1) by (meson rtranclp.rtrancl_into_rtrancl)
    then show ?thesis using t(3) by (intro exI [of _ ?t3]) simp
  qed
qed

theorem connection_stop_deadlock_witness:
  "\<exists>s. conn_step\<^sup>*\<^sup>* conn_start s \<and> spc s = StopLocked \<and> csSock s \<and> (\<forall>s'. conn_step\<^sup>*\<^sup>* s s' \<longrightarrow> spc s' \<noteq> StopDone \<and> rpc s' \<noteq> RunDone)"
proof -
  let ?s = "conn_start\<lparr>StateLock := Some Stopper, spc := StopLocked\<rparr>"
  have s: "conn_step\<^sup>*\<^sup>* conn_start ?s" by (intro r_into_rtranclp conn_step.stop_lock) (simp_all add: conn_start_def)
  have "spc ?s = StopLocked" "csSock ?s" by (simp_all add: conn_start_def)
  then show ?thesis using s connection_stop_deadlock [OF s] by blast
qed

text \<open>
  The server holds its kernel sockets: starting leaves exactly the listening socket open or, on any failure, nothing; a round of the accepting
  thread, whatever the kernel and the allocations after \<open>accept\<close> do, keeps the open sockets equal to those of the listening socket and the
  connections of the list.
\<close>

theorem server_holds_sockets:
  assumes srv: "ListenSocket srv = None \<or> (\<exists>sk. ListenSocket srv = Some \<lparr>Sockp = Some sk\<rparr>)" and k: "kernel_ok k (held srv)"
  shows "(\<exists>e srv' m' k'. Server_Start rs junk task host port m k srv = Some (e, srv', m', k') \<and> kernel_ok k' (held srv') \<and>
      (e \<noteq> Success \<longrightarrow> srv' = srv) \<and> (e = Success \<longrightarrow> ListenSocket srv = None \<and> ListenSocket srv' \<noteq> None \<and> AcceptThread srv')) \<and>
    (fst (new m) \<longrightarrow> (\<exists>go srv' m' k'. Server_round junk task stopping stop_seen m k srv = Some (go, srv', m', k') \<and> kernel_ok k' (held srv')))"
proof (intro conjI impI)
  show "\<exists>e srv' m' k'. Server_Start rs junk task host port m k srv = Some (e, srv', m', k') \<and> kernel_ok k' (held srv') \<and>
      (e \<noteq> Success \<longrightarrow> srv' = srv) \<and> (e = Success \<longrightarrow> ListenSocket srv = None \<and> ListenSocket srv' \<noteq> None \<and> AcceptThread srv')"
    by (rule Server_Start_ok [OF k])
  show "\<exists>go srv' m' k'. Server_round junk task stopping stop_seen m k srv = Some (go, srv', m', k') \<and> kernel_ok k' (held srv')" if "fst (new m)"
    by (rule Server_round_ok [OF srv k that])
qed

theorem server_holds_sockets_witness:
  "\<exists>e srv' m' k'. Server_Start \<lparr>in4_pton = Some, in6_pton = Some, dns_query = Some\<rparr> (\<lambda>_. 0) True [127, 0, 0, 1] 9111 []
       \<lparr>Results = [0, 0, 0, - 98], Calls = [], NextSock = 0\<rparr> make_Server = Some (e, srv', m', k') \<and> kernel_ok k' (held srv') \<and> (e \<noteq> Success \<longrightarrow> srv' = make_Server)"
proof -
  have s: "ListenSocket make_Server = None \<or> (\<exists>sk. ListenSocket make_Server = Some \<lparr>Sockp = Some sk\<rparr>)"
    "kernel_ok \<lparr>Results = [0, 0, 0, - 98], Calls = [], NextSock = 0\<rparr> (held make_Server)"
    by (simp_all add: make_Server_def held_def sock_held_def kernel_ok_def)
  from server_holds_sockets [OF s, where rs = "\<lparr>in4_pton = Some, in6_pton = Some, dns_query = Some\<rparr>" and junk = "\<lambda>_. 0" and task = True and
      host = "[127, 0, 0, 1]" and port = 9111 and m = "[]" and stopping = False and stop_seen = False] show ?thesis by blast
qed

end
