(* ===== verification/Server_Shutdown.thy ===== *)
theory Server_Shutdown
  imports Server_Threads
begin

text \<open>
  \<open>Server::Stop\<close> of \<^verbatim>\<open>src/kstor/server.cpp\<close>: it ends the accepting thread, closes the listening socket and stops the connections one after
  the other.
\<close>

section \<open>Stopping\<close>

text \<open>
  \<open>Connection::Stop\<close> from the moment it has the lock. When the thread has not closed the socket yet it
  needs the lock to end, so the wait for it does not return: \<open>None\<close>.
\<close>

definition Connection_Stop :: "kernel \<Rightarrow> Connection \<Rightarrow> (Connection \<times> kernel) option" where
  "Connection_Stop k conn = (if ConnThread conn \<and> Sock conn \<noteq> None then None else Some (Connection_close k conn))"

fun stop_all :: "kernel \<Rightarrow> Connection list \<Rightarrow> kernel option" where
  "stop_all k [] = Some k"
| "stop_all k (conn # conns) = (case Connection_Stop k conn of None \<Rightarrow> None | Some (conn, k) \<Rightarrow> stop_all k conns)"

text \<open>
  The accepting thread ends before the connections are stopped. With \<open>in_round\<close> it was inside a round when the stop flag was
  set: it finishes the round, and sees the flag before it adds the connection.
\<close>

definition Server_Stop ::
  "(nat \<Rightarrow> byte_t) \<Rightarrow> bool \<Rightarrow> bool \<Rightarrow> mem \<Rightarrow> kernel \<Rightarrow> Server \<Rightarrow> (Server \<times> mem \<times> kernel) option" where
  "Server_Stop junk task in_round m k srv =
     (let k = (case ListenSocket srv of None \<Rightarrow> k | Some so \<Rightarrow> AbortAccept k so)
      in case if AcceptThread srv \<and> in_round then Server_round junk task False True m k srv else Some (False, srv, m, k) of
        None \<Rightarrow> None
      | Some (_, srv, m, k) \<Rightarrow>
          (let k = (case ListenSocket srv of None \<Rightarrow> k | Some so \<Rightarrow> snd (Close k so))
           in case stop_all k (ConnList srv) of
                None \<Rightarrow> None
              | Some k \<Rightarrow> Some (\<lparr>ListenSocket = None, AcceptThread = False, ConnList = []\<rparr>, m, k)))"

section \<open>Which servers can be stopped\<close>

definition conn_live :: "Connection \<Rightarrow> bool" where
  "conn_live conn \<longleftrightarrow> ConnThread conn \<and> Sock conn \<noteq> None"

lemma reap_live: "(\<exists>c \<in> set (reap cs). conn_live c) \<longleftrightarrow> (\<exists>c \<in> set cs. conn_live c)"
proof (induction cs rule: reap.induct)
  case (2 c cs)
  then show ?case by (cases "Closed c"; cases cs) (auto simp: Closed_def conn_live_def split: if_splits)
qed simp

lemma reap_subset: "set (reap cs) \<subseteq> set cs"
  by (induction cs rule: reap.induct) (auto split: list.splits)

lemma stop_all_live: "(\<exists>c \<in> set cs. conn_live c) \<Longrightarrow> stop_all k cs = None"
  by (induction cs arbitrary: k) (auto simp: Connection_Stop_def conn_live_def split: prod.split)

lemma stop_all_dead: "\<forall>c \<in> set cs. Sock c = None \<Longrightarrow> stop_all k cs = Some k"
  by (induction cs) (auto simp: Connection_Stop_def Connection_close_def)

lemma Server_round_stop:
  assumes "Server_round junk task False True m k srv = Some (go, srv', m', k')"
  shows "srv' = srv\<lparr>ConnList := reap (ConnList srv)\<rparr>"
  using assms by (auto simp: Server_round_def Let_def split: option.splits prod.splits if_splits)

lemma ksock_abort_accept_ok: "kernel_ok k S \<Longrightarrow> sk \<in> S \<Longrightarrow> kernel_ok (ksock_abort_accept sk k) S"
  using kcall_ok [of k S "KWakeAll sk"] by (cases "kcall (KWakeAll sk) k") (simp add: ksock_abort_accept_def)

lemma Server_Stop_ok:
  assumes srv: "ListenSocket srv = None \<or> (\<exists>sk. ListenSocket srv = Some \<lparr>Sockp = Some sk\<rparr>)" and k: "kernel_ok k (held srv)" and m: "fst (new m)"
    and run: "\<forall>c \<in> set (ConnList srv). ConnThread c"
  shows "if \<exists>c \<in> set (ConnList srv). Sock c \<noteq> None then Server_Stop junk task in_round m k srv = None
    else \<exists>m' k'. Server_Stop junk task in_round m k srv = Some (make_Server, m', k') \<and> kernel_ok k' {}"
proof -
  define ka where "ka = (case ListenSocket srv of None \<Rightarrow> k | Some so \<Rightarrow> AbortAccept k so)"
  have ka: "kernel_ok ka (held srv)" using k srv ksock_abort_accept_ok [of k "held srv"] by (auto simp: ka_def AbortAccept_def held_def sock_held_def)
  obtain go srv1 m1 k1 where r: "(if AcceptThread srv \<and> in_round then Server_round junk task False True m ka srv else Some (False, srv, m, ka)) = Some (go, srv1, m1, k1)"
    and k1: "kernel_ok k1 (held srv1)" using Server_round_ok [OF srv ka m, of junk task False True] ka by (cases "AcceptThread srv \<and> in_round") auto
  have s1: "ListenSocket srv1 = ListenSocket srv" "ConnList srv1 = ConnList srv \<or> ConnList srv1 = reap (ConnList srv)"
    using r Server_round_stop [of junk task m ka srv go srv1 m1 k1] by (auto split: if_splits)
  let ?k = "case ListenSocket srv of None \<Rightarrow> k1 | Some so \<Rightarrow> snd (Close k1 so)"
  show ?thesis
  proof (cases "\<exists>c \<in> set (ConnList srv). Sock c \<noteq> None")
    case True
    then have "\<exists>c \<in> set (ConnList srv1). conn_live c" using run s1(2) reap_live [of "ConnList srv"] by (auto simp: conn_live_def)
    then have "stop_all ?k (ConnList srv1) = None" by (rule stop_all_live)
    then show ?thesis using True r s1(1) by (simp add: Server_Stop_def ka_def [symmetric])
  next
    case False
    then have dead: "\<forall>c \<in> set (ConnList srv1). Sock c = None" using s1(2) reap_subset [of "ConnList srv"] by auto
    have "held srv1 = sock_held (ListenSocket srv)" using dead s1(1) by (auto simp: held_def sock_held_def)
    then have "kernel_ok ?k {}" using k1 srv Close_ok [of k1 _ "{}"] by (auto simp: sock_held_def)
    then show ?thesis using False r s1(1) stop_all_dead [OF dead, of ?k] by (simp add: Server_Stop_def ka_def [symmetric] make_Server_def)
  qed
qed

section \<open>Properties\<close>



end
