(* ===== verification/Btree_Test.thy ===== *)
theory Btree_Test
  imports Btree_Map Vector
begin

text \<open>
  The self-test of the tree, \<open>TestBtree\<close> of \<^verbatim>\<open>src/kstor/control_device.cpp\<close>: random keys and values are inserted, looked up, deleted and
  inserted again in random orders, with the check of the structure in between. The words of the random device are a stream \<open>rnd\<close>;
  \<open>None\<close> means a failed assertion or that the stream has ended.
\<close>

section \<open>The test\<close>

definition take_words :: "nat \<Rightarrow> size_t list \<Rightarrow> (size_t list \<times> size_t list) option" where
  "take_words n rnd = guard (n \<le> length rnd) (Some (take n rnd, drop n rnd))"

fun vec_fill :: "'a list \<Rightarrow> nat \<Rightarrow> 'a Vector \<Rightarrow> 'a Vector option" where
  "vec_fill [] i v = Some v"
| "vec_fill (x # xs) i v = do { v \<leftarrow> vec_set i x v; vec_fill xs (i + 1) v }"

type_synonym test_tree = "(uint64_t, uint64_t) Btree"

text \<open>The loops over the positions \<open>is\<close>; they stop at the first failure.\<close>

fun insert_all :: "size_t Vector \<Rightarrow> uint64_t Vector \<Rightarrow> uint64_t Vector \<Rightarrow> nat list \<Rightarrow> mem \<Rightarrow> test_tree \<Rightarrow> (bool \<times> test_tree \<times> mem) option" where
  "insert_all pos key val [] m t = Some (True, t, m)"
| "insert_all pos key val (i # is) m t = do {
     p \<leftarrow> vec_nth pos i; k \<leftarrow> vec_nth key (unat p); v \<leftarrow> vec_nth val (unat p);
     (t, ok, m) \<leftarrow> Insert 4 k v m t;
     if \<not> ok then Some (False, t, m) else insert_all pos key val is m t }"

fun lookup_all :: "size_t Vector \<Rightarrow> uint64_t Vector \<Rightarrow> uint64_t Vector \<Rightarrow> nat list \<Rightarrow> test_tree \<Rightarrow> bool option" where
  "lookup_all pos key val [] t = Some True"
| "lookup_all pos key val (i # is) t = do {
     p \<leftarrow> vec_nth pos i; k \<leftarrow> vec_nth key (unat p); v \<leftarrow> vec_nth val (unat p);
     (found, exist) \<leftarrow> Lookup 4 k t;
     if \<not> exist then Some False else if found \<noteq> v then Some False else lookup_all pos key val is t }"

fun delete_all :: "size_t Vector \<Rightarrow> uint64_t Vector \<Rightarrow> nat list \<Rightarrow> test_tree \<Rightarrow> (bool \<times> test_tree) option" where
  "delete_all pos key [] t = Some (True, t)"
| "delete_all pos key (i # is) t = do {
     p \<leftarrow> vec_nth pos i; k \<leftarrow> vec_nth key (unat p);
     (t, ok) \<leftarrow> Delete 4 k t;
     if \<not> ok then Some (False, t) else delete_all pos key is t }"

fun absent_all :: "size_t Vector \<Rightarrow> uint64_t Vector \<Rightarrow> nat list \<Rightarrow> test_tree \<Rightarrow> bool option" where
  "absent_all pos key [] t = Some True"
| "absent_all pos key (i # is) t = do {
     p \<leftarrow> vec_nth pos i; k \<leftarrow> vec_nth key (unat p);
     (found, exist) \<leftarrow> Lookup 4 k t;
     if exist then Some False else absent_all pos key is t }"

text \<open>The test from the point where the vectors are filled.\<close>

definition TestBtree_run ::
  "nat \<Rightarrow> size_t Vector \<Rightarrow> uint64_t Vector \<Rightarrow> uint64_t Vector \<Rightarrow> mem \<Rightarrow> size_t list \<Rightarrow> err option" where
  "TestBtree_run keyCount pos key val m rnd = do {
     let tree = make_Btree 0 0;
     if \<not> Check 4 tree then Some Unsuccessful else do {
     (pos, rnd) \<leftarrow> Shuffle rnd pos;
     (ok, tree, m) \<leftarrow> insert_all pos key val [0..<keyCount] m tree;
     if \<not> ok \<or> \<not> Check 4 tree then Some Unsuccessful else do {
     (pos, rnd) \<leftarrow> Shuffle rnd pos;
     ok \<leftarrow> lookup_all pos key val [0..<keyCount] tree;
     if \<not> ok \<or> \<not> Check 4 tree then Some Unsuccessful else do {
     (pos, rnd) \<leftarrow> Shuffle rnd pos;
     (ok, tree) \<leftarrow> delete_all pos key [0..<keyCount div 2] tree;
     if \<not> ok \<or> \<not> Check 4 tree then Some Unsuccessful else do {
     ok \<leftarrow> lookup_all pos key val [keyCount div 2..<keyCount] tree;
     if \<not> ok \<or> \<not> Check 4 tree then Some Unsuccessful else do {
     (ok, tree) \<leftarrow> delete_all pos key [keyCount div 2..<keyCount] tree;
     if \<not> ok \<or> \<not> Check 4 tree then Some Unsuccessful else do {
     (pos, rnd) \<leftarrow> Shuffle rnd pos;
     ok \<leftarrow> absent_all pos key [0..<keyCount] tree;
     if \<not> ok \<or> \<not> Check 4 tree then Some Unsuccessful else do {
     (pos, rnd) \<leftarrow> Shuffle rnd pos;
     (ok, tree, m) \<leftarrow> insert_all pos key val [0..<keyCount] m tree;
     if \<not> ok \<or> \<not> Check 4 tree then Some Unsuccessful else do {
     minDepth \<leftarrow> MinDepth 4 tree; maxDepth \<leftarrow> MaxDepth 4 tree;
     tree \<leftarrow> Clear 4 tree;
     if \<not> Check 4 tree then Some Unsuccessful else Some Success }}}}}}}}}"

definition TestBtree_keys :: "nat \<Rightarrow> (nat \<Rightarrow> size_t) \<Rightarrow> mem \<Rightarrow> size_t list \<Rightarrow> err option" where
  "TestBtree_keys keyCount junk m rnd =
     (let (ok, pos, m) = ReserveAndUse junk keyCount m make_Vector
      in if \<not> ok then Some NoMemory else do {
         pos \<leftarrow> vec_fill (map of_nat [0..<keyCount]) 0 pos;
         let (ok, key, m) = ReserveAndUse junk keyCount m make_Vector;
         if \<not> ok then Some NoMemory else do {
         (ws, rnd) \<leftarrow> take_words keyCount rnd;
         key \<leftarrow> vec_fill ws 0 key;
         let (ok, val, m) = ReserveAndUse junk keyCount m make_Vector;
         if \<not> ok then Some NoMemory else do {
         (ws, rnd) \<leftarrow> take_words keyCount rnd;
         val \<leftarrow> vec_fill ws 0 val;
         TestBtree_run keyCount pos key val m rnd }}})"

definition TestBtree :: "(nat \<Rightarrow> size_t) \<Rightarrow> mem \<Rightarrow> size_t list \<Rightarrow> err option" where
  "TestBtree junk m rnd = TestBtree_keys 10151 junk m rnd"

section \<open>Filling vectors and drawing numbers\<close>

lemma vec_fill_ok:
  assumes "vec_inv v" "i + length xs \<le> vecSize v"
  shows "\<exists>v'. vec_fill xs i v = Some v' \<and> vec_inv v' \<and> vecSize v' = vecSize v \<and> elems v' = take i (elems v) @ xs @ drop (i + length xs) (elems v)"
  using assms
proof (induction xs arbitrary: i v)
  case (Cons x xs)
  let ?v = "v\<lparr>Arr := (Arr v)[i := x]\<rparr>"
  have l: "i < vecSize v" "vecSize v \<le> length (Arr v)" using Cons.prems by (simp_all add: vec_inv_def vecCapacity_def)
  have v: "vec_inv ?v" "vecSize ?v = vecSize v" "elems ?v = (elems v)[i := x]"
    using l Cons.prems(1) by (simp_all add: vec_inv_def vecCapacity_def elems_def take_update_swap)
  from Cons.IH [OF v(1), of "i + 1"] Cons.prems(2) v(2) obtain v' where
    v': "vec_fill xs (i + 1) ?v = Some v'" "vec_inv v'" "vecSize v' = vecSize v"
    "elems v' = take (i + 1) (elems ?v) @ xs @ drop (i + 1 + length xs) (elems ?v)" by auto
  have "take (i + 1) (elems ?v) = take i (elems v) @ [x]"
    using l Cons.prems(1) v(3) by (simp add: take_Suc_conv_app_nth)
  then show ?case using l v v' by (simp add: vec_set_def)
qed simp

lemma ReserveAndUse_new:
  assumes "False \<notin> set m"
  shows "\<exists>v m'. ReserveAndUse junk n m make_Vector = (True, v, m') \<and> set m' \<subseteq> set m \<and> vec_inv v \<and> vecSize v = n"
proof -
  obtain m1 where "new m = (True, m1)" "set m1 \<subseteq> set m" using new_good [OF assms] by blast
  then show ?thesis by (auto simp: ReserveAndUse_def Reserve_def make_Vector_def vecCapacity_def vec_inv_def)
qed

text \<open>Every draw takes a zero at the latest.\<close>

lemma GetSizeT_returns:
  assumes "0 < count_list rnd 0"
  shows "\<exists>j rnd'. GetSizeT upper rnd = Some (j, rnd') \<and> count_list rnd 0 \<le> count_list rnd' 0 + 1"
proof -
  have loop: "\<exists>j rnd'. GetSizeT_loop upper log rnd = Some (j, rnd') \<and> count_list rnd 0 \<le> count_list rnd' 0 + 1"
    if "0 < upper" "0 < count_list rnd 0" for log
    using that by (induction rnd) (auto simp: Let_def split: if_splits)
  show ?thesis
  proof (cases "upper < 2")
    case False
    then have "0 < upper" by (simp add: word_less_nat_alt)
    then show ?thesis using loop [OF _ assms, of "Log2 upper"] assms False by (cases rnd) (auto simp: GetSizeT_def)
  qed (simp add: GetSizeT_def)
qed

lemma Shuffle_loop_returns:
  assumes "i \<le> count_list rnd 0"
  shows "\<exists>ys rnd'. Shuffle_loop i xs rnd = Some (ys, rnd') \<and> count_list rnd 0 \<le> count_list rnd' 0 + i"
  using assms
proof (induction i xs rnd rule: Shuffle_loop.induct)
  case (1 i xs rnd)
  show ?case
  proof (cases "i \<ge> 1")
    case True
    from GetSizeT_returns [of rnd "of_nat (i + 1)"] True 1(2) obtain j rnd1 where
      g: "GetSizeT (of_nat (i + 1)) rnd = Some (j, rnd1)" "count_list rnd 0 \<le> count_list rnd1 0 + 1" by auto
    have "i - 1 \<le> count_list rnd1 0" using 1(2) g(2) by simp
    from 1(1) [OF True g(1) refl this] obtain ys rnd' where
      "Shuffle_loop (i - 1) (xs[i := xs ! unat j, unat j := xs ! i]) rnd1 = Some (ys, rnd')" "count_list rnd1 0 \<le> count_list rnd' 0 + (i - 1)" by blast
    then show ?thesis using True g by (simp add: Shuffle_loop.simps [of i xs rnd])
  qed (simp add: Shuffle_loop.simps)
qed

lemma Shuffle_returns:
  assumes "vec_inv v" "vecSize v < 18446744073709551615" "vecSize v \<le> count_list rnd 0"
  shows "\<exists>v' rnd'. Shuffle rnd v = Some (v', rnd') \<and> count_list rnd 0 \<le> count_list rnd' 0 + vecSize v \<and>
    vec_inv v' \<and> vecSize v' = vecSize v \<and> mset (elems v') = mset (elems v)"
proof -
  obtain ys rnd' where "Shuffle_loop (vecSize v - 1) (Arr v) rnd = Some (ys, rnd')" "count_list rnd 0 \<le> count_list rnd' 0 + (vecSize v - 1)"
    using Shuffle_loop_returns [OF order_trans [OF diff_le_self assms(3)], of 1 "Arr v"] by blast
  then obtain v' rnd2 where s: "Shuffle rnd v = Some (v', rnd2)" "count_list rnd 0 \<le> count_list rnd2 0 + vecSize v"
    by (cases "vecSize v < 2") (auto simp: Shuffle_def)
  then show ?thesis using Shuffle_perm [OF assms(1,2) s(1)] by auto
qed

section \<open>Memory of the insertion\<close>

lemma MakeShared_rest': "set (snd (MakeShared m)) \<subseteq> set m"
  by (cases m rule: new.cases; cases "tl m" rule: new.cases) (auto simp: MakeShared_def split: if_splits)

lemma InsertNonFull_rest:
  assumes "InsertNonFull T k v m n = Some r"
  shows "set (snd (snd r)) \<subseteq> set m"
proof (rule InsertNonFull.raw_induct [where P = "\<lambda>T k v m n r. set (snd (snd r)) \<subseteq> set m", OF _ assms])
  fix ins T and k :: 'a and v :: 'b and m n r
  assume "\<And>T k v m n r. ins T k v m n = Some r \<Longrightarrow> set (snd (snd r)) \<subseteq> set m"
    and "(if GetKeyIndex k n \<noteq> None then Some (n, False, m)
      else let i = FindKeyIndex k n in
        if Leaf n then do { n1 \<leftarrow> PutKey T i k v n; n2 \<leftarrow> IncKeyCount T 1 n1; Some (n2, True, m) }
        else do {
          child \<leftarrow> GetChild_nonnull T i n;
          if IsFull T child then
            (if fst (MakeShared m) then do {
               n' \<leftarrow> SplitChild T i (make_node T (EmptyKey n) (EmptyValue n) False) n;
               ins T k v (snd (MakeShared m)) n' }
             else Some (n, False, snd (MakeShared m)))
          else do { r \<leftarrow> ins T k v m child; Some (put_Child i (Some (fst r)) n, snd r) } }) = Some r"
  then show "set (snd (snd r)) \<subseteq> set m" using MakeShared_rest' [of m]
    by (cases r; auto simp: Let_def bind_eq_Some_conv split: if_splits; blast)
qed

lemma Insert_rest:
  assumes "Insert T k v m t = Some (t', r, m')"
  shows "set m' \<subseteq> set m"
proof -
  have root: "set m' \<subseteq> set m1" if "Insert_at_root T k v m1 n t = Some (t', r, m')" for m1 n
    using that InsertNonFull_rest [of T k v m1] InsertNonFull_rest [of T k v "snd (MakeShared (snd (MakeShared m1)))"]
      MakeShared_rest' [of m1] MakeShared_rest' [of "snd (MakeShared m1)"]
    by (auto simp: Insert_at_root_def Let_def bind_eq_Some_conv split: if_splits; blast)
  show ?thesis using assms root MakeShared_rest' [of m]
    by (auto simp: Insert_def bind_eq_Some_conv split: if_splits option.splits)
qed

section \<open>The loops\<close>

text \<open>The vector of positions visits every key once: \<open>K i\<close> is the \<open>i\<close>-th key of the visit, and \<open>kv\<close> maps keys to values.\<close>

definition visits :: "nat \<Rightarrow> size_t Vector \<Rightarrow> uint64_t Vector \<Rightarrow> uint64_t Vector \<Rightarrow> (uint64_t \<rightharpoonup> uint64_t) \<Rightarrow> (nat \<Rightarrow> uint64_t) \<Rightarrow> bool" where
  "visits n pos key val kv K \<longleftrightarrow> inj_on K {..<n} \<and> K ` {..<n} = dom kv \<and>
     (\<forall>i<n. \<exists>p v. vec_nth pos i = Some p \<and> vec_nth key (unat p) = Some (K i) \<and> vec_nth val (unat p) = Some v \<and> kv (K i) = Some v)"

lemma insert_all_ok:
  assumes K: "visits n pos key val kv K" and "set is \<subseteq> {..<n}" "distinct is" "btree_inv 4 t" "\<forall>i\<in>set is. tree_map t (K i) = None" "False \<notin> set m"
  shows "\<exists>t' m'. insert_all pos key val is m t = Some (True, t', m') \<and> btree_inv 4 t' \<and> tree_map t' = tree_map t ++ (kv |` (K ` set is)) \<and> set m' \<subseteq> set m"
  using assms(2-)
proof (induction "is" arbitrary: t m)
  case (Cons i is')
  obtain p v where p: "vec_nth pos i = Some p" "vec_nth key (unat p) = Some (K i)" "vec_nth val (unat p) = Some v" "kv (K i) = Some v"
    using K Cons.prems(1) unfolding visits_def by (metis insert_subset lessThan_iff list.simps(15))
  from Insert_map [OF Cons.prems(3), of "K i" v m] obtain t1 r m1 where
    t1: "Insert 4 (K i) v m t = Some (t1, r, m1)" "btree_inv 4 t1" "tree_map t1 = (if r then (tree_map t)(K i \<mapsto> v) else tree_map t)" "r"
    using Cons.prems(4,5) by fastforce
  have m1: "set m1 \<subseteq> set m" "False \<notin> set m1" using Insert_rest [OF t1(1)] Cons.prems(5) by auto
  have ne: "K j \<noteq> K i" if "j \<in> set is'" for j
    using K Cons.prems(1,2) that inj_onD [of K "{..<n}" j i] unfolding visits_def by auto
  have "\<forall>j\<in>set is'. tree_map t1 (K j) = None" using t1(3,4) Cons.prems(4) ne by auto
  from Cons.IH [OF _ _ t1(2) this m1(2)] Cons.prems(1,2) obtain t' m' where
    t': "insert_all pos key val is' m1 t1 = Some (True, t', m')" "btree_inv 4 t'" "tree_map t' = tree_map t1 ++ (kv |` (K ` set is'))" "set m' \<subseteq> set m1"
    by auto
  have "tree_map t' = tree_map t ++ (kv |` (K ` set (i # is')))"
    using t'(3) t1(3,4) p(4) ne by (auto simp: fun_eq_iff map_add_def restrict_map_def split: option.split)
  then show ?case using p t1 t' m1(1) by auto
qed (simp add: restrict_map_def map_add_def)

lemma lookup_all_ok:
  assumes K: "visits n pos key val kv K" and "set is \<subseteq> {..<n}" "btree_inv 4 t" "\<forall>i\<in>set is. tree_map t (K i) = kv (K i)"
  shows "lookup_all pos key val is t = Some True"
  using assms(2-)
proof (induction "is")
  case (Cons i is')
  obtain p v where p: "vec_nth pos i = Some p" "vec_nth key (unat p) = Some (K i)" "vec_nth val (unat p) = Some v" "kv (K i) = Some v"
    using K Cons.prems(1) unfolding visits_def by (metis insert_subset lessThan_iff list.simps(15))
  then show ?case using Cons LookupLocked_map [OF Cons.prems(2), of "K i"] by (simp add: Lookup_def)
qed simp

lemma delete_all_ok:
  assumes K: "visits n pos key val kv K" and "set is \<subseteq> {..<n}" "distinct is" "btree_inv 4 t" "\<forall>i\<in>set is. tree_map t (K i) \<noteq> None"
  shows "\<exists>t'. delete_all pos key is t = Some (True, t') \<and> btree_inv 4 t' \<and> tree_map t' = tree_map t |` (- K ` set is)"
  using assms(2-)
proof (induction "is" arbitrary: t)
  case (Cons i is')
  obtain p where p: "vec_nth pos i = Some p" "vec_nth key (unat p) = Some (K i)"
    using K Cons.prems(1) unfolding visits_def by (metis insert_subset lessThan_iff list.simps(15))
  from Delete_map [OF Cons.prems(3), of "K i"] Cons.prems(4) obtain t1 where
    t1: "Delete 4 (K i) t = Some (t1, True)" "btree_inv 4 t1" "tree_map t1 = (tree_map t)(K i := None)" by auto
  have ne: "K j \<noteq> K i" if "j \<in> set is'" for j
    using K Cons.prems(1,2) that inj_onD [of K "{..<n}" j i] unfolding visits_def by auto
  have "\<forall>j\<in>set is'. tree_map t1 (K j) \<noteq> None" using t1(3) Cons.prems(4) ne by auto
  from Cons.IH [OF _ _ t1(2) this] Cons.prems(1,2) obtain t' where
    t': "delete_all pos key is' t1 = Some (True, t')" "btree_inv 4 t'" "tree_map t' = tree_map t1 |` (- K ` set is')" by auto
  have "tree_map t' = tree_map t |` (- K ` set (i # is'))" using t'(3) t1(3) by (auto simp: fun_eq_iff restrict_map_def)
  then show ?case using p t1 t' by simp
qed (simp add: restrict_map_def)

lemma absent_all_ok:
  assumes K: "visits n pos key val kv K" and "set is \<subseteq> {..<n}" "btree_inv 4 t" "tree_map t = Map.empty"
  shows "absent_all pos key is t = Some True"
  using assms(2-)
proof (induction "is")
  case (Cons i is')
  obtain p where "vec_nth pos i = Some p" "vec_nth key (unat p) = Some (K i)"
    using K Cons.prems(1) unfolding visits_def by (metis insert_subset lessThan_iff list.simps(15))
  then show ?case using Cons LookupLocked_map [OF Cons.prems(2), of "K i"] by (simp add: Lookup_def)
qed simp

text \<open>The vectors of the test: every shuffle of the positions visits every key once.\<close>

definition test_vectors :: "nat \<Rightarrow> size_t Vector \<Rightarrow> uint64_t Vector \<Rightarrow> uint64_t Vector \<Rightarrow> (uint64_t \<rightharpoonup> uint64_t) \<Rightarrow> bool" where
  "test_vectors n pos key val kv \<longleftrightarrow> n < 18446744073709551615 \<and> vec_inv pos \<and> vecSize pos = n \<and> mset (elems pos) = mset (map of_nat [0..<n]) \<and>
     vec_inv key \<and> vecSize key = n \<and> distinct (elems key) \<and> vec_inv val \<and> vecSize val = n \<and> kv = map_of (zip (elems key) (elems val))"

lemma vec_nth_elems: "vec_inv v \<Longrightarrow> i < vecSize v \<Longrightarrow> vec_nth v i = Some (elems v ! i)"
  by (simp add: vec_nth_def elems_def)

lemma visits_test:
  assumes "test_vectors n pos key val kv"
  obtains K where "visits n pos key val kv K"
proof -
  note V = assms [unfolded test_vectors_def]
  let ?ps = "elems pos" and ?ks = "elems key" and ?vs = "elems val"
  let ?K = "\<lambda>i. ?ks ! unat (?ps ! i)"
  have l: "length ?ps = n" "length ?ks = n" "length ?vs = n" using V by simp_all
  have u: "unat (of_nat i :: size_t) = i" if "i < n" for i using that V by (intro unat_of_nat_64) simp
  have "mset (map unat ?ps) = mset (map unat (map of_nat [0..<n] :: size_t list))" using V by (metis mset_map)
  also have "map unat (map of_nat [0..<n] :: size_t list) = [0..<n]" using u by (intro nth_equalityI) simp_all
  finally have p: "mset (map unat ?ps) = mset [0..<n]" .
  then have s: "set (map unat ?ps) = {..<n}" "distinct (map unat ?ps)" by (metis atLeast_upt set_mset_mset, metis distinct_upt mset_eq_imp_distinct_iff)
  have lt: "unat (?ps ! i) < n" if "i < n" for i using s(1) that l(1) by auto
  have inj: "inj_on ?K {..<n}"
  proof (rule inj_onI)
    fix i j assume ij: "i \<in> {..<n}" "j \<in> {..<n}" "?K i = ?K j"
    then have "unat (?ps ! i) = unat (?ps ! j)" using V l(2) lt by (auto simp: nth_eq_iff_index_eq)
    then show "i = j" using s(2) ij l(1) nth_eq_iff_index_eq [of "map unat ?ps" i j] by simp
  qed
  have im: "?K ` {..<n} = dom kv"
  proof -
    have "(\<lambda>i. unat (?ps ! i)) ` {..<n} = (!) (map unat ?ps) ` {..<n}" using l(1) by (intro image_cong) simp_all
    also have "\<dots> = {..<n}" using nth_image [of n "map unat ?ps"] s(1) l(1) by (simp add: atLeast0LessThan)
    finally have "(\<lambda>i. unat (?ps ! i)) ` {..<n} = {..<n}" .
    then have "?K ` {..<n} = (!) ?ks ` {..<n}" by (metis image_image)
    also have "\<dots> = set ?ks" using nth_image [of n ?ks] l(2) by (simp add: atLeast0LessThan)
    also have "\<dots> = dom kv" using V l by (simp add: dom_map_of_zip)
    finally show ?thesis .
  qed
  have "vec_nth pos i = Some (?ps ! i) \<and> vec_nth key (unat (?ps ! i)) = Some (?K i) \<and> vec_nth val (unat (?ps ! i)) = Some (?vs ! unat (?ps ! i)) \<and>
      kv (?K i) = Some (?vs ! unat (?ps ! i))" if "i < n" for i
    using V lt [OF that] that l by (simp add: vec_nth_elems map_of_zip_nth)
  then show ?thesis using that [of ?K] inj im by (auto simp: visits_def)
qed

lemma test_vectors_shuffle:
  assumes V: "test_vectors n pos key val kv" and r: "Suc k * n \<le> count_list rnd 0"
  obtains pos' rnd' where "Shuffle rnd pos = Some (pos', rnd')" "test_vectors n pos' key val kv" "k * n \<le> count_list rnd' 0"
proof -
  have "vecSize pos \<le> count_list rnd 0" using V r by (simp add: test_vectors_def)
  with Shuffle_returns [of pos rnd] V obtain pos' rnd' where
    "Shuffle rnd pos = Some (pos', rnd')" "test_vectors n pos' key val kv" "count_list rnd 0 \<le> count_list rnd' 0 + n"
    by (auto simp: test_vectors_def)
  then show ?thesis using that r by simp
qed

lemma restrict_map_self: "f |` dom f = f"
  by (auto simp: restrict_map_def fun_eq_iff domIff)

section \<open>The test passes\<close>

lemma TestBtree_run_ok:
  assumes V: "test_vectors n pos key val kv" and r: "5 * n \<le> count_list rnd 0" and m: "False \<notin> set m"
  shows "TestBtree_run n pos key val m rnd = Some Success"
proof -
  have t0: "btree_inv 4 (make_Btree 0 0 :: test_tree)" "tree_map (make_Btree 0 0 :: test_tree) = Map.empty" by (rule make_Btree_inv)+
  obtain p1 r1 where s1: "Shuffle rnd pos = Some (p1, r1)" "test_vectors n p1 key val kv" "4 * n \<le> count_list r1 0"
    using test_vectors_shuffle [OF V, of 4 rnd] r by auto
  obtain K1 where K1: "visits n p1 key val kv K1" using visits_test [OF s1(2)] .
  obtain t1 m1 where t1: "insert_all p1 key val [0..<n] m (make_Btree 0 0) = Some (True, t1, m1)" "btree_inv 4 t1" "tree_map t1 = kv" "False \<notin> set m1"
    using insert_all_ok [OF K1, of "[0..<n]" "make_Btree 0 0" m] t0 m K1 by (auto simp: visits_def atLeast0LessThan restrict_map_self; blast)
  obtain p2 r2 where s2: "Shuffle r1 p1 = Some (p2, r2)" "test_vectors n p2 key val kv" "3 * n \<le> count_list r2 0"
    using test_vectors_shuffle [OF s1(2), of 3 r1] s1(3) by auto
  obtain K2 where K2: "visits n p2 key val kv K2" using visits_test [OF s2(2)] .
  have l2: "lookup_all p2 key val [0..<n] t1 = Some True" using lookup_all_ok [OF K2 _ t1(2)] t1(3) by (auto simp: atLeast0LessThan)
  obtain p3 r3 where s3: "Shuffle r2 p2 = Some (p3, r3)" "test_vectors n p3 key val kv" "2 * n \<le> count_list r3 0"
    using test_vectors_shuffle [OF s2(2), of 2 r2] s2(3) by auto
  obtain K3 where K3: "visits n p3 key val kv K3" using visits_test [OF s3(2)] .
  have in_dom: "kv (K3 i) \<noteq> None" if "i < n" for i using K3 that unfolding visits_def by fastforce
  have apart: "K3 i \<noteq> K3 j" if "i < n" "j < n" "i \<noteq> j" for i j using K3 that inj_onD [of K3 "{..<n}" i j] unfolding visits_def by auto
  have half: "set [0..<n div 2] \<subseteq> {..<n}" "set [n div 2..<n] \<subseteq> {..<n}" by auto
  obtain t3 where t3: "delete_all p3 key [0..<n div 2] t1 = Some (True, t3)" "btree_inv 4 t3" "tree_map t3 = kv |` (- K3 ` {0..<n div 2})"
    using delete_all_ok [OF K3 half(1) _ t1(2)] in_dom t1(3) by auto
  have rest: "tree_map t3 (K3 i) = kv (K3 i)" if "i \<in> {n div 2..<n}" for i
  proof -
    have "K3 j \<noteq> K3 i" if "j < n div 2" for j using apart [of j i] that \<open>i \<in> {n div 2..<n}\<close> by auto
    then have "K3 i \<in> - K3 ` {0..<n div 2}" by fastforce
    then show ?thesis unfolding t3(3) by (rule restrict_in)
  qed
  have l3: "lookup_all p3 key val [n div 2..<n] t3 = Some True" using lookup_all_ok [OF K3 half(2) t3(2)] rest by auto
  obtain t4 where t4: "delete_all p3 key [n div 2..<n] t3 = Some (True, t4)" "btree_inv 4 t4" "tree_map t4 = tree_map t3 |` (- K3 ` {n div 2..<n})"
    using delete_all_ok [OF K3 half(2) _ t3(2)] in_dom rest by auto
  have e4: "tree_map t4 = Map.empty"
  proof -
    have "K3 ` {0..<n div 2} \<union> K3 ` {n div 2..<n} = dom kv"
      using K3 ivl_disj_un_two(3) [of 0 "n div 2" n] unfolding visits_def by (simp add: image_Un [symmetric] atLeast0LessThan)
    then show ?thesis unfolding t4(3) t3(3) by (auto simp: restrict_map_def fun_eq_iff domIff)
  qed
  obtain p5 r5 where s5: "Shuffle r3 p3 = Some (p5, r5)" "test_vectors n p5 key val kv" "n \<le> count_list r5 0"
    using test_vectors_shuffle [OF s3(2), of 1 r3] s3(3) by auto
  obtain K5 where K5: "visits n p5 key val kv K5" using visits_test [OF s5(2)] .
  have l5: "absent_all p5 key [0..<n] t4 = Some True" by (rule absent_all_ok [OF K5 _ t4(2) e4]) auto
  obtain p6 r6 where s6: "Shuffle r5 p5 = Some (p6, r6)" "test_vectors n p6 key val kv"
    using test_vectors_shuffle [OF s5(2), of 0 r5] s5(3) by auto
  obtain K6 where K6: "visits n p6 key val kv K6" using visits_test [OF s6(2)] .
  obtain t6 m6 where t6: "insert_all p6 key val [0..<n] m1 t4 = Some (True, t6, m6)" "btree_inv 4 t6"
    using insert_all_ok [OF K6, of "[0..<n]" t4 m1] t4(2) e4 t1(4) by (auto simp: atLeast0LessThan)
  obtain d where d: "MinDepth 4 t6 = Some d" "MaxDepth 4 t6 = Some d" using Check_depth_inv [OF t6(2)] by blast
  have c: "Clear 4 t6 = Some (t6\<lparr>Root := None\<rparr>)" using Clear_inv [OF t6(2)] by simp
  have "Check 4 (make_Btree 0 0 :: test_tree)" "Check 4 t1" "Check 4 t3" "Check 4 t4" "Check 4 t6" "Check 4 (t6\<lparr>Root := None\<rparr>)"
    using Check_depth_inv [OF t0(1)] Check_depth_inv [OF t1(2)] Check_depth_inv [OF t3(2)] Check_depth_inv [OF t4(2)] Check_depth_inv [OF t6(2)]
    by (simp_all add: Check_def)
  then show ?thesis using s1(1) t1(1) s2(1) l2 s3(1) t3(1) l3 t4(1) s5(1) l5 s6(1) t6(1) d c by (simp add: TestBtree_run_def)
qed

lemma TestBtree_keys_ok:
  assumes n: "n < 18446744073709551615" "2 * n \<le> length rnd" "distinct (take n rnd)" and r: "5 * n \<le> count_list (drop (2 * n) rnd) 0"
    and m: "False \<notin> set m"
  shows "TestBtree_keys n junk m rnd = Some Success"
proof -
  obtain pos m1 where p: "ReserveAndUse junk n m make_Vector = (True, pos, m1)" "set m1 \<subseteq> set m" "vec_inv pos" "vecSize pos = n"
    using ReserveAndUse_new [OF m] by blast
  obtain key m2 where k: "ReserveAndUse junk n m1 make_Vector = (True, key, m2)" "set m2 \<subseteq> set m1" "vec_inv key" "vecSize key = n"
    using ReserveAndUse_new [of m1] m p(2) by blast
  obtain val m3 where v: "ReserveAndUse junk n m2 make_Vector = (True, val, m3)" "set m3 \<subseteq> set m2" "vec_inv val" "vecSize val = n"
    using ReserveAndUse_new [of m2] m p(2) k(2) by blast
  have all: "\<exists>w'. vec_fill xs 0 w = Some w' \<and> vec_inv w' \<and> vecSize w' = n \<and> elems w' = xs" if "vec_inv w" "vecSize w = n" "length xs = n" for w xs
    using vec_fill_ok [OF that(1), of 0 xs] that by auto
  obtain pos' where p': "vec_fill (map of_nat [0..<n]) 0 pos = Some pos'" "vec_inv pos'" "vecSize pos' = n" "elems pos' = map of_nat [0..<n]"
    using all [OF p(3,4), of "map of_nat [0..<n]"] by auto
  have lk: "length (take n rnd) = n" "length (take n (drop n rnd)) = n" using n(2) by simp_all
  obtain key' where k': "vec_fill (take n rnd) 0 key = Some key'" "vec_inv key'" "vecSize key' = n" "elems key' = take n rnd"
    using all [OF k(3,4) lk(1)] by blast
  obtain val' where v': "vec_fill (take n (drop n rnd)) 0 val = Some val'" "vec_inv val'" "vecSize val' = n"
    using all [OF v(3,4) lk(2)] by blast
  have "test_vectors n pos' key' val' (map_of (zip (elems key') (elems val')))" using n(1,3) p' k' v' by (simp add: test_vectors_def)
  moreover have "5 * n \<le> count_list (drop n (drop n rnd)) 0" using r by (simp add: mult_2)
  moreover have "False \<notin> set m3" using m p(2) k(2) v(2) by blast
  ultimately have "TestBtree_run n pos' key' val' m3 (drop n (drop n rnd)) = Some Success" by (rule TestBtree_run_ok)
  moreover have "n \<le> length rnd" "n \<le> length rnd - n" using n(2) by simp_all
  ultimately show ?thesis using p(1) p'(1) k(1) k'(1) v(1) v'(1) by (simp add: TestBtree_keys_def take_words_def)
qed

section \<open>Properties\<close>

text \<open>
  The self-test of the tree passes: for every stream of random words whose first 10151 words, the keys, are distinct, and in which zeros keep coming, so that every
  draw of a bounded number ends, the test returns success, whatever the orders of insertion, lookup and deletion that the
  shuffles produce, as long as memory suffices.
\<close>

theorem btree_selftest_passes:
  assumes "20302 \<le> length rnd" "distinct (take 10151 rnd)" "50755 \<le> count_list (drop 20302 rnd) 0" "False \<notin> set m"
  shows "TestBtree junk m rnd = Some Success"
  unfolding TestBtree_def using assms by (intro TestBtree_keys_ok) simp_all

theorem btree_selftest_passes_witness:
  "TestBtree (\<lambda>_. 0) [] (map of_nat [0..<10151] @ replicate 10151 7 @ replicate 50755 0) = Some Success"
proof -
  have "inj_on (of_nat :: nat \<Rightarrow> size_t) (set [0..<n])" if "n < 18446744073709551616" for n
    by (rule inj_on_inverseI [of _ unat]) (use that in \<open>auto intro!: unat_of_nat_64\<close>)
  then have d: "distinct (map of_nat [0..<n] :: size_t list)" if "n < 18446744073709551616" for n
    using that by (simp add: distinct_map)
  have c: "count_list (replicate n (x :: size_t)) x = n" for n x by (induction n) auto
  have run: "TestBtree (\<lambda>_. 0) [] (map of_nat [0..<n] @ replicate n 7 @ replicate (5 * n) 0) = Some Success"
    if n: "10151 = n" "20302 = 2 * n" "50755 = 5 * n" and "distinct (map of_nat [0..<n] :: size_t list)" for n
    by (rule btree_selftest_passes) (unfold n, use that(4) c in simp_all)
  have k: "20302 = 2 * (10151 :: nat)" "50755 = 5 * (10151 :: nat)" by simp_all
  have "distinct (map of_nat [0..<10151] :: size_t list)" by (rule d) simp
  from run [OF refl k this] show ?thesis unfolding k(2) .
qed

end
