(* ===== verification/Control_Device.thy ===== *)
theory Control_Device
  imports Volume_Remount Server_Shutdown Btree_Test
begin

text \<open>
  The control device of \<^verbatim>\<open>src/kstor/control_device.cpp\<close>: mounting and unmounting the volume, starting and stopping the server, the
  self-tests, and the dispatch of the requests of the control tool (\<^verbatim>\<open>src/include/ctl.h\<close>).

  What lies outside is the record \<open>sys\<close>: the block layer and the device that a name opens, the resolver, the random device, the
  clock, the stacks of tasks and the content of fresh memory. \<open>world\<close> is the state outside the module that its operations change.
\<close>

record 'd sys =
  sIo :: "'d block_io"
  sHost :: host
  sOpen :: err
  sSize :: uint64_t
  sPage :: bytes
  sCell :: "nat \<Rightarrow> byte_t"
  sWord :: "nat \<Rightarrow> size_t"
  sRing :: RingBuffer
  sGuid :: "err + bytes"
  sRandom :: "err + bytes"
  sStream :: "size_t list"
  sTestMem :: mem
  sTestPages :: "bytes \<times> bytes"
  sPasses :: nat
  sResolver :: resolver
  sTask :: bool
  sInRound :: bool
  sTime :: uint64_t
  sTaskFound :: "uint32_t \<Rightarrow> bool"
  sTaskStack :: "uint32_t \<Rightarrow> bytes \<times> nat"
  sSymbol :: "uint64_t \<Rightarrow> bytes"

record 'd world =
  wDisk :: 'd
  wMem :: mem
  wKernel :: kernel

record CtrlDevice = ControlDevice +
  Srv :: Server

section \<open>Mounting\<close>

text \<open>The volume stays in \<open>VolumeRef\<close> whatever happens after it was made.\<close>

definition Mount :: "'d sys \<Rightarrow> astring \<Rightarrow> bool \<Rightarrow> guid \<Rightarrow> 'd world \<Rightarrow> CtrlDevice \<Rightarrow> (err \<times> guid \<times> 'd world \<times> CtrlDevice) option" where
  "Mount s deviceName format volumeId w c =
     (if VolumeRef c \<noteq> None then Some (AlreadyExists, volumeId, w, c)
      else let (ok, m) = MakeShared (wMem w)
      in if \<not> ok then Some (NoMemory, volumeId, w\<lparr>wMem := m\<rparr>, c)
      else case make_Volume (sCell s) (sRing s) deviceName (sOpen s) m of
        None \<Rightarrow> None
      | Some (err, v, m) \<Rightarrow>
          (if err \<noteq> Success then Some (err, volumeId, w\<lparr>wMem := m\<rparr>, c\<lparr>VolumeRef := Some v\<rparr>)
           else let (err, v, m, d) = (if format then Volume_Format (sIo s) (sHost s) (sSize s) (sGuid s) (sPage s) m (wDisk w) v
                                      else (Success, v, m, wDisk w))
           in if err \<noteq> Success then Some (err, volumeId, w\<lparr>wMem := m, wDisk := d\<rparr>, c\<lparr>VolumeRef := Some v\<rparr>)
           else case Volume_Load (sIo s) (sHost s) (sSize s) (sPage s) m d v of
             None \<Rightarrow> None
           | Some (err, v, m, d) \<Rightarrow>
               Some (err, if err \<noteq> Success then volumeId else VolumeId v, w\<lparr>wMem := m, wDisk := d\<rparr>, c\<lparr>VolumeRef := Some v\<rparr>)))"

text \<open>The destructor of the volume, and then that of its journal, unload once more.\<close>

definition Volume_dtor :: "'d sys \<Rightarrow> 'd world \<Rightarrow> Volume \<Rightarrow> 'd world" where
  "Volume_dtor s w v =
     (let (e, v, m, d) = Volume_Unload (sIo s) (sHost s) (sPage s) (wMem w) (wDisk w) v;
          (e, j, m, d) = Unload (sIo s) (sHost s) (sPage s) m d (TxJournal v)
      in w\<lparr>wMem := m, wDisk := d\<rparr>)"

definition unmount_volume :: "'d sys \<Rightarrow> Volume \<Rightarrow> 'd world \<Rightarrow> CtrlDevice \<Rightarrow> err \<times> 'd world \<times> CtrlDevice" where
  "unmount_volume s v w c =
     (let (err, v, m, d) = Volume_Unload (sIo s) (sHost s) (sPage s) (wMem w) (wDisk w) v
      in (err, Volume_dtor s (w\<lparr>wMem := m, wDisk := d\<rparr>) v, c\<lparr>VolumeRef := None\<rparr>))"

definition Unmount_id :: "'d sys \<Rightarrow> guid \<Rightarrow> 'd world \<Rightarrow> CtrlDevice \<Rightarrow> err \<times> 'd world \<times> CtrlDevice" where
  "Unmount_id s volumeId w c =
     (case VolumeRef c of
        None \<Rightarrow> (NotFound, w, c)
      | Some v \<Rightarrow> (if Guid_eq (VolumeId v) volumeId then unmount_volume s v w c else (NotFound, w, c)))"

definition Unmount_name :: "'d sys \<Rightarrow> astring \<Rightarrow> 'd world \<Rightarrow> CtrlDevice \<Rightarrow> err \<times> 'd world \<times> CtrlDevice" where
  "Unmount_name s deviceName w c =
     (case VolumeRef c of
        None \<Rightarrow> (NotFound, w, c)
      | Some v \<Rightarrow> (if AString_Compare (DeviceName v) deviceName = 0 then unmount_volume s v w c else (NotFound, w, c)))"

section \<open>The server\<close>

definition StartServer :: "'d sys \<Rightarrow> astring \<Rightarrow> 16 word \<Rightarrow> 'd world \<Rightarrow> CtrlDevice \<Rightarrow> (err \<times> 'd world \<times> CtrlDevice) option" where
  "StartServer s host port w c =
     (case Server_Start (sResolver s) (sCell s) (sTask s) (astr host) port (wMem w) (wKernel w) (Srv c) of
        None \<Rightarrow> None
      | Some (err, srv, m, k) \<Rightarrow> Some (err, w\<lparr>wMem := m, wKernel := k\<rparr>, c\<lparr>Srv := srv\<rparr>))"

definition StopServer :: "'d sys \<Rightarrow> 'd world \<Rightarrow> CtrlDevice \<Rightarrow> (err \<times> 'd world \<times> CtrlDevice) option" where
  "StopServer s w c =
     (case Server_Stop (sCell s) (sTask s) (sInRound s) (wMem w) (wKernel w) (Srv c) of
        None \<Rightarrow> None
      | Some (srv, m, k) \<Rightarrow> Some (Success, w\<lparr>wMem := m, wKernel := k\<rparr>, c\<lparr>Srv := srv\<rparr>))"

section \<open>Self-tests\<close>

text \<open>
  The test of the journal waits for the event of the transaction while the journal's thread makes \<open>sPasses\<close> passes; \<open>None\<close> when
  the event does not come.
\<close>

fun Volume_passes :: "nat \<Rightarrow> 'd block_io \<Rightarrow> host \<Rightarrow> bytes \<Rightarrow> mem \<Rightarrow> 'd \<Rightarrow> Volume \<Rightarrow> Volume \<times> mem \<times> 'd" where
  "Volume_passes 0 io h junk m d v = (v, m, d)"
| "Volume_passes (Suc n) io h junk m d v = (let (v, m, d) = Volume_pass io h junk m d v in Volume_passes n io h junk m d v)"

definition TestJournal :: "'d sys \<Rightarrow> mem \<Rightarrow> 'd \<Rightarrow> Volume \<Rightarrow> (err \<times> Volume \<times> mem \<times> 'd) option" where
  "TestJournal s m d v =
     (case TestJournal_begin (sGuid s) (fst (sTestPages s)) (snd (sTestPages s)) m v of
        (err, None, v, m) \<Rightarrow> Some (err, v, m, d)
      | (err, Some t, v, m) \<Rightarrow>
          (let (v, m, d) = Volume_passes (sPasses s) (sIo s) (sHost s) (sPage s) m d v
           in if \<not> CommitEvent (Txs (TxJournal v) t) then None else TestJournal_finish (sIo s) (sPage s) t m d v))"

definition TestIdJournal :: uint32_t where "TestIdJournal = 1"
definition TestIdBtree :: uint32_t where "TestIdBtree = 2"

definition RunTest :: "'d sys \<Rightarrow> uint32_t \<Rightarrow> 'd world \<Rightarrow> CtrlDevice \<Rightarrow> (err \<times> 'd world \<times> CtrlDevice) option" where
  "RunTest s testId w c =
     (if testId = TestIdJournal then
        (case VolumeRef c of
           None \<Rightarrow> Some (NotFound, w, c)
         | Some v \<Rightarrow>
             (case TestJournal s (wMem w) (wDisk w) v of
                None \<Rightarrow> None
              | Some (err, v, m, d) \<Rightarrow> Some (err, w\<lparr>wMem := m, wDisk := d\<rparr>, c\<lparr>VolumeRef := Some v\<rparr>)))
      else if testId = TestIdBtree then
        (case TestBtree (sWord s) (sTestMem s) (sStream s) of None \<Rightarrow> None | Some err \<Rightarrow> Some (err, w, c))
      else Some (InvalidValue, w, c))"

section \<open>Stacks of tasks\<close>

text \<open>
  \<^verbatim>\<open>src/core/task.cpp\<close>: the words of the stack from \<open>sp_delta\<close> on, a line with its symbol for each. \<open>sTaskStack\<close> gives the bytes that the kernel copies and
  \<open>sp_delta\<close>, \<open>sSymbol\<close> the name of an address.
\<close>

fun DumpStack_loop :: "'d sys \<Rightarrow> bytes \<Rightarrow> nat \<Rightarrow> astring \<Rightarrow> nat list \<Rightarrow> mem \<Rightarrow> astring \<Rightarrow> err \<times> astring \<times> mem" where
  "DumpStack_loop s buf sp_delta endLine [] m result = (Success, result, m)"
| "DumpStack_loop s buf sp_delta endLine (i # is) m result =
     (if sp_delta \<noteq> 0 \<and> 8 * i < sp_delta then DumpStack_loop s buf sp_delta endLine is m result
      else let (ok, symbol, m) = AString_ReserveAndUse (sCell s) 4096 m make_Vector
      in if \<not> ok then (NoMemory, result, m)
      else let text = sSymbol s (get64 (sHost s) (8 * i) buf);
               (ok, symbol) = AString_Truncate (length text) (symbol\<lparr>Arr := put 0 (text @ [0]) (Arr symbol)\<rparr>)
      in if \<not> ok then (InvalidState, result, m)
      else let (err, result, m) = AString_Append (sCell s) symbol m result
      in if err \<noteq> Success then (err, result, m)
      else let (err, result, m) = AString_Append (sCell s) endLine m result
      in if err \<noteq> Success then (err, result, m) else DumpStack_loop s buf sp_delta endLine is m result)"

definition DumpStack :: "'d sys \<Rightarrow> uint32_t \<Rightarrow> mem \<Rightarrow> astring \<Rightarrow> (err \<times> astring \<times> mem) option" where
  "DumpStack s pid m result =
     (let (ok, stackBuf, m) = ReserveAndUse (sCell s) (4 * 4096) m make_Vector
      in if \<not> ok then Some (NoMemory, result, m)
      else case AString_cstr (sCell s) [10, 0] Success m of
        None \<Rightarrow> None
      | Some (err, endLine, m) \<Rightarrow>
          (if err \<noteq> Success then Some (err, result, m)
           else let (stack, sp_delta) = sTaskStack s pid
           in if stack = [] then Some (InvalidValue, result, m)
           else let (ok, stackBuf) = Truncate (length stack) (stackBuf\<lparr>Arr := put 0 stack (Arr stackBuf)\<rparr>)
           in if \<not> ok then Some (InvalidState, result, m)
           else Some (DumpStack_loop s (Arr stackBuf) sp_delta endLine [0..<vecSize stackBuf div 8] m result)))"

text \<open>The text that \<open>GetTaskStack\<close> prints into the command, with its end.\<close>

definition GetTaskStack :: "'d sys \<Rightarrow> uint32_t \<Rightarrow> nat \<Rightarrow> mem \<Rightarrow> (err \<times> bytes \<times> mem) option" where
  "GetTaskStack s pid len m =
     (if \<not> sTaskFound s pid then Some (NotFound, [], m)
      else case DumpStack s pid m make_Vector of
        None \<Rightarrow> None
      | Some (err, stackStr, m) \<Rightarrow>
          (if err \<noteq> Success then Some (err, [], m) else Some (Success, take (len - 1) (astr stackStr) @ [0], m)))"

section \<open>Requests\<close>

definition DeviceNameMaxChars :: nat where "DeviceNameMaxChars = 256"
definition HostNameMaxChars :: nat where "HostNameMaxChars = 256"
definition StackMaxChars :: nat where "StackMaxChars = 65536"

text \<open>\<open>_IOWR(KSTOR_IOC_MAGIC, nr, Cmd*)\<close>: both directions, the size of a pointer, the magic number and the number of the request.\<close>

definition IOWR :: "uint32_t \<Rightarrow> uint32_t" where
  "IOWR nr = push_bit 30 3 OR push_bit 8 0xE1 OR nr OR push_bit 16 8"

definition IOCTL_KSTOR_GET_TIME :: uint32_t where "IOCTL_KSTOR_GET_TIME = IOWR 1"
definition IOCTL_KSTOR_GET_RANDOM_ULONG :: uint32_t where "IOCTL_KSTOR_GET_RANDOM_ULONG = IOWR 2"
definition IOCTL_KSTOR_MOUNT :: uint32_t where "IOCTL_KSTOR_MOUNT = IOWR 3"
definition IOCTL_KSTOR_UNMOUNT :: uint32_t where "IOCTL_KSTOR_UNMOUNT = IOWR 4"
definition IOCTL_KSTOR_UNMOUNT_BY_NAME :: uint32_t where "IOCTL_KSTOR_UNMOUNT_BY_NAME = IOWR 5"
definition IOCTL_KSTOR_START_SERVER :: uint32_t where "IOCTL_KSTOR_START_SERVER = IOWR 6"
definition IOCTL_KSTOR_STOP_SERVER :: uint32_t where "IOCTL_KSTOR_STOP_SERVER = IOWR 7"
definition IOCTL_KSTOR_TEST :: uint32_t where "IOCTL_KSTOR_TEST = IOWR 8"
definition IOCTL_KSTOR_GET_TASK_STACK :: uint32_t where "IOCTL_KSTOR_GET_TASK_STACK = IOWR 9"

lemmas ioctl_codes = IOCTL_KSTOR_GET_TIME_def IOCTL_KSTOR_GET_RANDOM_ULONG_def IOCTL_KSTOR_MOUNT_def IOCTL_KSTOR_UNMOUNT_def IOCTL_KSTOR_UNMOUNT_BY_NAME_def
  IOCTL_KSTOR_START_SERVER_def IOCTL_KSTOR_STOP_SERVER_def IOCTL_KSTOR_TEST_def IOCTL_KSTOR_GET_TASK_STACK_def

text \<open>\<^verbatim>\<open>RandomFile::GetUlong\<close>: all ones when the device cannot be read.\<close>

definition GetUlong :: "host \<Rightarrow> err + bytes \<Rightarrow> uint64_t" where
  "GetUlong h rng = (case rng of Inl e \<Rightarrow> - 1 | Inr bs \<Rightarrow> get64 h 0 bs)"

type_synonym 'd handled_cmd = "err \<times> bytes \<times> 'd world \<times> CtrlDevice"

text \<open>The string in the first \<open>n\<close> bytes of a command, refused when its last byte is not zero.\<close>

definition cmd_string :: "'d sys \<Rightarrow> nat \<Rightarrow> bytes \<Rightarrow> mem \<Rightarrow> err \<times> astring \<times> mem" where
  "cmd_string s n cmd m =
     (if cmd ! (n - 1) \<noteq> 0 then (InvalidValue, make_Vector, m) else AString_len (sCell s) cmd (n - 1) Success m)"

definition cmd_port :: "host \<Rightarrow> bytes \<Rightarrow> 16 word" where
  "cmd_port h cmd = (let p = take 2 (drop HostNameMaxChars cmd) in case h of LittleEndian \<Rightarrow> le_value p | BigEndian \<Rightarrow> le_value (rev p))"

definition ioctl_mount :: "'d sys \<Rightarrow> bytes \<Rightarrow> 'd world \<Rightarrow> CtrlDevice \<Rightarrow> 'd handled_cmd option" where
  "ioctl_mount s cmd w c =
     (let (err, deviceName, m) = cmd_string s DeviceNameMaxChars cmd (wMem w); w = w\<lparr>wMem := m\<rparr>
      in if err \<noteq> Success then Some (err, cmd, w, c)
      else case Mount s deviceName (cmd ! 272 \<noteq> 0) Guid_default w c of
        None \<Rightarrow> None
      | Some (err, volumeId, w, c) \<Rightarrow> Some (err, if err = Success then put 256 volumeId cmd else cmd, w, c))"

definition ioctl_unmount_by_name :: "'d sys \<Rightarrow> bytes \<Rightarrow> 'd world \<Rightarrow> CtrlDevice \<Rightarrow> 'd handled_cmd" where
  "ioctl_unmount_by_name s cmd w c =
     (let (err, deviceName, m) = cmd_string s DeviceNameMaxChars cmd (wMem w); w = w\<lparr>wMem := m\<rparr>
      in if err \<noteq> Success then (err, cmd, w, c)
      else let (err, w, c) = Unmount_name s deviceName w c in (err, cmd, w, c))"

definition ioctl_start_server :: "'d sys \<Rightarrow> bytes \<Rightarrow> 'd world \<Rightarrow> CtrlDevice \<Rightarrow> 'd handled_cmd option" where
  "ioctl_start_server s cmd w c =
     (let (err, host, m) = cmd_string s HostNameMaxChars cmd (wMem w); w = w\<lparr>wMem := m\<rparr>
      in if err \<noteq> Success then Some (err, cmd, w, c)
      else case StartServer s host (cmd_port (sHost s) cmd) w c of
        None \<Rightarrow> None
      | Some (err, w, c) \<Rightarrow> Some (err, cmd, w, c))"

text \<open>The body of the dispatch: the error, the command as changed, and the states.\<close>

definition ioctl_dispatch :: "'d sys \<Rightarrow> uint32_t \<Rightarrow> bytes \<Rightarrow> 'd world \<Rightarrow> CtrlDevice \<Rightarrow> 'd handled_cmd option" where
  "ioctl_dispatch s code cmd w c =
     (if code = IOCTL_KSTOR_GET_TIME then Some (Success, put64 (sHost s) 0 (sTime s) cmd, w, c)
      else if code = IOCTL_KSTOR_GET_RANDOM_ULONG then Some (Success, put64 (sHost s) 0 (GetUlong (sHost s) (sRandom s)) cmd, w, c)
      else if code = IOCTL_KSTOR_MOUNT then ioctl_mount s cmd w c
      else if code = IOCTL_KSTOR_UNMOUNT then
        (let (err, w, c) = Unmount_id s (take GuidSize cmd) w c in Some (err, cmd, w, c))
      else if code = IOCTL_KSTOR_UNMOUNT_BY_NAME then Some (ioctl_unmount_by_name s cmd w c)
      else if code = IOCTL_KSTOR_START_SERVER then ioctl_start_server s cmd w c
      else if code = IOCTL_KSTOR_STOP_SERVER then
        (case StopServer s w c of None \<Rightarrow> None | Some (err, w, c) \<Rightarrow> Some (err, cmd, w, c))
      else if code = IOCTL_KSTOR_TEST then
        (case RunTest s (get32 (sHost s) 0 cmd) w c of None \<Rightarrow> None | Some (err, w, c) \<Rightarrow> Some (err, cmd, w, c))
      else if code = IOCTL_KSTOR_GET_TASK_STACK then
        (case GetTaskStack s (get32 (sHost s) StackMaxChars cmd) StackMaxChars (wMem w) of
           None \<Rightarrow> None
         | Some (err, text, m) \<Rightarrow> Some (err, if err = Success then put 0 text cmd else cmd, w\<lparr>wMem := m\<rparr>, c))
      else Some (UnknownCode, cmd, w, c))"

text \<open>
  The whole request: \<open>rd\<close> is what copying the command from the caller gives, \<open>wr\<close> what copying it back reports. The second result is what the
  caller's memory then holds, if it was written. When the memory for the command cannot be had, the result is that of a fresh \<open>Error\<close>.
\<close>

definition Ioctl :: "'d sys \<Rightarrow> err + bytes \<Rightarrow> err \<Rightarrow> uint32_t \<Rightarrow> 'd world \<Rightarrow> CtrlDevice \<Rightarrow> (err \<times> bytes option \<times> 'd world \<times> CtrlDevice) option" where
  "Ioctl s rd wr code w c =
     (let (ok, m) = new (wMem w); w = w\<lparr>wMem := m\<rparr>
      in if \<not> ok then Some (Success, None, w, c)
      else case rd of
        Inl err \<Rightarrow> Some (err, None, w, c)
      | Inr cmd \<Rightarrow>
          (case ioctl_dispatch s code cmd w c of
             None \<Rightarrow> None
           | Some (err, cmd, w, c) \<Rightarrow>
               (if err \<noteq> Success then Some (err, None, w, c)
                else if wr \<noteq> Success then Some (wr, None, w, c)
                else Some (Success, Some cmd, w, c))))"

section \<open>The device itself\<close>

text \<open>
  \<open>Create\<close> registers the device, with the result \<open>registered\<close>, and opens the random device, with the result \<open>opened\<close>. The constructors of
  the two each copy a name. \<open>Delete\<close> destroys the members in reverse order: the volume first, the server last.
\<close>

definition make_CtrlDevice :: CtrlDevice where
  "make_CtrlDevice = \<lparr>VolumeRef = None, Srv = make_Server\<rparr>"

definition device_ctor :: "err \<Rightarrow> err \<Rightarrow> mem \<Rightarrow> err \<times> mem" where
  "device_ctor registered opened m =
     (let (ok, m) = new m; err = (if ok then registered else NoMemory)
      in if err \<noteq> Success then (err, m)
      else let (ok, m) = new m in (if ok then opened else NoMemory, m))"

definition Device_Create :: "err \<Rightarrow> err \<Rightarrow> mem \<Rightarrow> CtrlDevice option \<Rightarrow> err \<times> CtrlDevice option \<times> mem" where
  "Device_Create registered opened m device =
     (if device \<noteq> None then (InvalidState, device, m)
      else let (ok, m) = new m
      in if \<not> ok then (NoMemory, None, m)
      else let (err, m) = device_ctor registered opened m
      in if err \<noteq> Success then (err, None, m) else (err, Some make_CtrlDevice, m))"

definition Device_Delete :: "'d sys \<Rightarrow> 'd world \<Rightarrow> CtrlDevice option \<Rightarrow> ('d world \<times> CtrlDevice option) option" where
  "Device_Delete s w device =
     (case device of
        None \<Rightarrow> Some (w, None)
      | Some c \<Rightarrow>
          (let w = (case VolumeRef c of None \<Rightarrow> w | Some v \<Rightarrow> Volume_dtor s w v)
           in case StopServer s w c of None \<Rightarrow> None | Some (err, w, c) \<Rightarrow> Some (w, None)))"

section \<open>Mounting on a working device\<close>

text \<open>A working device of a legal size that opens, and a random device that delivers the identifier \<open>g\<close>.\<close>

definition mountable :: "'d sys \<Rightarrow> guid \<Rightarrow> bool" where
  "mountable s g \<longleftrightarrow> reliable (sIo s) \<and> length (sPage s) = PageSize \<and> sOpen s = Success \<and> sGuid s = Inr g \<and> length g = GuidSize \<and>
     81920 \<le> unat (sSize s) \<and> unat (sSize s) < 9223372036854775808 \<and> sSize s mod BlockSize = 0"

text \<open>A name with its end.\<close>

definition name_ok :: "astring \<Rightarrow> bool" where
  "name_ok name \<longleftrightarrow> astr_ok name \<and> vecSize name \<noteq> 0"

lemma AString_copy_ok:
  assumes "name_ok b"
  shows "\<exists>b'. AString_copy cell b Success [] = Some (Success, b', []) \<and> astr_ok b' \<and> astr b' = astr b"
proof -
  have ok: "astr_ok b" "vecSize b \<noteq> 0" using assms by (simp_all add: name_ok_def)
  have l: "GetLen b < length (Arr b)" "Arr b ! GetLen b = 0" using ok by (auto simp: astr_ok_def vec_inv_def vecCapacity_def GetLen_def)
  then have a: "Arr b = astr b @ 0 # drop (Suc (GetLen b)) (Arr b)" unfolding astr_def by (metis id_take_nth_drop)
  have n: "length (astr b) = GetLen b" "0 \<notin> set (astr b)" using ok(1) length_astr by (auto simp: astr_ok_def)
  then have s: "StrLen (Arr b) = Some (GetLen b)"
    using a StrLen_from_spec [of "astr b" "drop (Suc (GetLen b)) (Arr b)" 0] by (simp add: StrLen_def)
  have "takeWhile (\<lambda>c. c \<noteq> 0) (take (GetLen b) (Arr b)) = astr b" using n(2) unfolding astr_def by (simp add: takeWhile_eq_all_conv) metis
  then show ?thesis using s AString_len_ok [of "GetLen b" "Arr b" cell "[]"] l(1) by (auto simp: AString_copy_def AString_cstr_def)
qed

lemma make_Volume_ok:
  assumes "name_ok name"
  shows "\<exists>v. make_Volume cell rb name opened [] = Some (opened, v, []) \<and> vState v = VolumeStateNew \<and> jState (TxJournal v) = JournalStateNew \<and>
    ChunkTable v = make_HashTable ChunkBuckets 0 \<and> astr_ok (DeviceName v) \<and> astr (DeviceName v) = astr name"
  using AString_copy_ok [OF assms, of cell] by (auto simp: make_Volume_def make_Journal_def)

lemma empty_chunks: "ChunkTable v = make_HashTable ChunkBuckets 0 \<Longrightarrow> vState v = VolumeStateRunning \<Longrightarrow> chunks_ok v \<and> vol_chunks v = Map.empty"
  by (simp add: chunks_ok_def vol_chunks_def ChunkBuckets_def fun_eq_iff)

text \<open>Operations on chunks touch only the chunks.\<close>

lemma chunk_run_frame:
  assumes "chunk_run (ChunkCreate, ChunkWrite, ChunkRead, ChunkDelete) cs v = (v', rs)"
  shows "VolumeId v' = VolumeId v \<and> TxJournal v' = TxJournal v \<and> vState v' = vState v \<and> vSize v' = vSize v \<and> DeviceName v' = DeviceName v"
  using assms
proof (induction cs arbitrary: v rs)
  case (Cons c cs)
  obtain v1 e x where s: "chunk_step (ChunkCreate, ChunkWrite, ChunkRead, ChunkDelete) c v = (v1, e, x)" by (metis surj_pair)
  have "VolumeId v1 = VolumeId v \<and> TxJournal v1 = TxJournal v \<and> vState v1 = vState v \<and> vSize v1 = vSize v \<and> DeviceName v1 = DeviceName v"
    using s by (cases c) (auto simp: ChunkCreate_def ChunkWrite_def ChunkDelete_def Let_def split: if_splits prod.splits)
  then show ?case using Cons s by (auto split: prod.splits)
qed simp

lemma dispatch_unknown: "code \<notin> IOWR ` {1, 2, 3, 4, 5, 6, 7, 8, 9} \<Longrightarrow> ioctl_dispatch s code cmd w c = Some (UnknownCode, cmd, w, c)"
  by (simp add: ioctl_dispatch_def ioctl_codes)

lemma Volume_Format_frame:
  assumes "Volume_Format io h devsize rng junk m d v = (e, v', m', d')"
  shows "jState (TxJournal v') = jState (TxJournal v)" "vState v' = vState v" "ChunkTable v' = ChunkTable v" "DeviceName v' = DeviceName v"
  using assms by (auto simp: Volume_Format_def Format_def Let_def split: prod.splits if_splits)

lemma Volume_Load_frame:
  assumes "Volume_Load io h devsize junk m d v = Some (e, v', m', d')"
  shows "ChunkTable v' = ChunkTable v" "DeviceName v' = DeviceName v"
  using assms by (auto simp: Volume_Load_def Let_def split: prod.splits if_splits sum.splits option.splits)

lemma MemCmp_refl: "MemCmp a a n = 0"
proof (induction n arbitrary: a)
  case (Suc n)
  then show ?case by (cases a) simp_all
qed simp

lemma Volume_Load_state:
  assumes "Volume_Load io h devsize junk m d v = Some (e, v', m', d')" "e \<noteq> Success"
  shows "vState v' = vState v"
  using assms by (auto simp: Volume_Load_def Let_def split: prod.splits if_splits sum.splits option.splits)

lemma Mount_failed:
  assumes "Mount s name format volumeId w c = Some (err, volumeId', w', c')" "err \<noteq> Success" "VolumeRef c = None" "fst (MakeShared (wMem w))"
  shows "\<exists>v. VolumeRef c' = Some v \<and> vState v = VolumeStateNew \<and> volumeId' = volumeId"
proof -
  obtain m where m: "MakeShared (wMem w) = (True, m)" using assms(4) by (cases "MakeShared (wMem w)") auto
  obtain e v m1 where mk: "make_Volume (sCell s) (sRing s) name (sOpen s) m = Some (e, v, m1)" "vState v = VolumeStateNew"
    using assms m by (auto simp: Mount_def make_Volume_def Let_def split: option.splits)
  let ?F = "if format then Volume_Format (sIo s) (sHost s) (sSize s) (sGuid s) (sPage s) m1 (wDisk w) v else (Success, v, m1, wDisk w)"
  obtain e2 v2 m2 d2 where f: "?F = (e2, v2, m2, d2)" by (metis surj_pair)
  have v2: "vState v2 = VolumeStateNew" using f Volume_Format_frame(2) [of "sIo s" "sHost s" "sSize s" "sGuid s" "sPage s" m1 "wDisk w" v e2 v2 m2 d2] mk(2) by (cases format) simp_all
  show ?thesis
  proof (cases "e \<noteq> Success \<or> e2 \<noteq> Success")
    case True
    then show ?thesis using assms m mk f v2 by (cases "e = Success") (simp_all add: Mount_def, auto simp: f)
  next
    case False
    then obtain v3 m3 d3 where l: "Volume_Load (sIo s) (sHost s) (sSize s) (sPage s) m2 d2 v2 = Some (err, v3, m3, d3)"
      and r: "c' = c\<lparr>VolumeRef := Some v3\<rparr>" "volumeId' = volumeId" using assms m mk f by (auto simp: Mount_def split: option.splits)
    then show ?thesis using Volume_Load_state [OF l assms(2)] v2 by simp
  qed
qed

context block_layer
begin

lemma Mount_format_ok:
  assumes s: "sIo s = io" "mountable s g" and n: "name_ok name" and c: "VolumeRef c = None" and m: "wMem w = []"
  shows "\<exists>v d. Mount s name True volumeId w c = Some (Success, g, w\<lparr>wMem := [], wDisk := d\<rparr>, c\<lparr>VolumeRef := Some v\<rparr>) \<and> VolumeId v = g \<and>
    ChunkTable v = make_HashTable ChunkBuckets 0 \<and> vol_running view crash (sSize s) v (empty_ring (journal_blocks (sSize s) - 1)) [] [] (view d) d"
proof -
  note M = s(2) [unfolded mountable_def s(1)]
  from make_Volume_ok [OF n, of "sCell s" "sRing s" Success] obtain v0 where
    v0: "make_Volume (sCell s) (sRing s) name Success [] = Some (Success, v0, [])" "vState v0 = VolumeStateNew" "jState (TxJournal v0) = JournalStateNew"
      "ChunkTable v0 = make_HashTable ChunkBuckets 0" by blast
  have size: "81920 \<le> unat (sSize s)" "unat (sSize s) < 9223372036854775808" "sSize s mod BlockSize = 0" "length g = GuidSize"
    and page: "length (sPage s) = PageSize" and rel: "reliable io" using M by simp_all
  from Format_Load_ok [OF rel page v0(2,3) v0(2,3) size, of "sHost s" "wDisk w"] obtain v1 d1 where
    f: "Volume_Format io (sHost s) (sSize s) (Inr g) (sPage s) [] (wDisk w) v0 = (Success, v1, [], d1)" by blast
  note F = Volume_Format_frame [OF f]
  from Format_Load_ok [OF rel page v0(2,3) _ _ size, of v1 "sHost s" "wDisk w" "sHost s"] f F(1,2) v0(2,3) obtain v2 d2 where
    l: "Volume_Load io (sHost s) (sSize s) (sPage s) [] d1 v1 = Some (Success, v2, [], d2)" "VolumeId v2 = g"
    "vol_running view crash (sSize s) v2 (empty_ring (journal_blocks (sSize s) - 1)) [] [] (view d2) d2" by auto
  have "Mount s name True volumeId w c = Some (Success, g, w\<lparr>wMem := [], wDisk := d2\<rparr>, c\<lparr>VolumeRef := Some v2\<rparr>)"
    using c m M v0(1) f l(1,2) s(1) by (simp add: Mount_def)
  then show ?thesis using l Volume_Load_frame(1) [OF l(1)] F(3) v0(4) by (intro exI [of _ v2] exI [of _ d2]) simp
qed

lemma Unmount_ok:
  assumes s: "sIo s = io" "mountable s g'" and n: "name_ok name" and c: "VolumeRef c = Some v" and m: "wMem w = []"
    and v: "vol_running view crash (sSize s) v rb0 gone live S (wDisk w)" "length (VolumeId v) = GuidSize"
  shows "\<exists>d1 v2 d2. Unmount_id s (VolumeId v) w c = (Success, w\<lparr>wMem := [], wDisk := d1\<rparr>, c\<lparr>VolumeRef := None\<rparr>) \<and>
    Mount s name False volumeId (w\<lparr>wMem := [], wDisk := d1\<rparr>) (c\<lparr>VolumeRef := None\<rparr>) =
      Some (Success, VolumeId v, w\<lparr>wMem := [], wDisk := d2\<rparr>, c\<lparr>VolumeRef := Some v2\<rparr>) \<and>
    ChunkTable v2 = make_HashTable ChunkBuckets 0 \<and> vState v2 = VolumeStateRunning \<and> (\<forall>p. unat (test_pos (sSize s)) \<le> p \<longrightarrow> view d2 p = S p)"
proof -
  note M = s(2) [unfolded mountable_def s(1)]
  from make_Volume_ok [OF n, of "sCell s" "sRing s" Success] obtain v0 where
    v0: "make_Volume (sCell s) (sRing s) name Success [] = Some (Success, v0, [])" "vState v0 = VolumeStateNew" "jState (TxJournal v0) = JournalStateNew"
      "ChunkTable v0 = make_HashTable ChunkBuckets 0" by blast
  have size: "81920 \<le> unat (sSize s)" "unat (sSize s) < 9223372036854775808" "sSize s mod BlockSize = 0"
    and page: "length (sPage s) = PageSize" and rel: "reliable io" using M by simp_all
  from remount_ok [OF rel page size v v0(2,3), of "sHost s" "sHost s"] obtain v1 d1 v2 d2 where
    u: "Volume_Unload io (sHost s) (sPage s) [] (wDisk w) v = (Success, v1, [], d1)" "vState v1 = VolumeStateStopped" "jState (TxJournal v1) = JournalStateStopped"
    and l: "Volume_Load io (sHost s) (sSize s) (sPage s) [] d1 v0 = Some (Success, v2, [], d2)" "VolumeId v2 = VolumeId v" "ChunkTable v2 = ChunkTable v0"
      "\<forall>p. unat (test_pos (sSize s)) \<le> p \<longrightarrow> view d2 p = S p" "vState v2 = VolumeStateRunning" unfolding vol_running_def by blast
  have dt: "Volume_dtor s (w\<lparr>wMem := [], wDisk := d1\<rparr>) v1 = w\<lparr>wMem := [], wDisk := d1\<rparr>"
    using u(2,3) by (simp add: Volume_dtor_def Volume_Unload_def Unload_def)
  have "Unmount_id s (VolumeId v) w c = (Success, w\<lparr>wMem := [], wDisk := d1\<rparr>, c\<lparr>VolumeRef := None\<rparr>)"
    using c m s(1) u(1) dt v(2) by (simp add: Unmount_id_def unmount_volume_def Guid_eq_iff)
  moreover have "Mount s name False volumeId (w\<lparr>wMem := [], wDisk := d1\<rparr>) (c\<lparr>VolumeRef := None\<rparr>) =
      Some (Success, VolumeId v, w\<lparr>wMem := [], wDisk := d2\<rparr>, c\<lparr>VolumeRef := Some v2\<rparr>)"
    using M v0(1) l(1,2) s(1) by (simp add: Mount_def)
  ultimately show ?thesis using l v0(4) by auto
qed

end

section \<open>Properties\<close>


text \<open>
  Claim C7. The life of a mounted volume: on a working device mounting with format succeeds, gives the identifier that the random device delivered
  and an empty store of chunks; a second mount is refused, as is unmounting another identifier. After any sequence of operations
  on chunks the volume can be unmounted, and mounted again without format: it has the same identifier, the space behind the journal is as before, and the chunks
  are gone, since they are kept in memory only.
\<close>

theorem control_mount_cycle:
  assumes layer: "block_layer (sIo s) view crash crash_in" and s: "mountable s g" and n: "name_ok name" and c: "VolumeRef c = None" and m: "wMem w = []"
  shows "\<exists>v d. Mount s name True volumeId w c = Some (Success, g, w\<lparr>wDisk := d\<rparr>, c\<lparr>VolumeRef := Some v\<rparr>) \<and> chunks_ok v \<and> vol_chunks v = Map.empty \<and>
    (\<forall>name' format w'. Mount s name' format volumeId w' (c\<lparr>VolumeRef := Some v\<rparr>) = Some (AlreadyExists, volumeId, w', c\<lparr>VolumeRef := Some v\<rparr>)) \<and>
    (\<forall>g' w'. length g' = GuidSize \<and> g' \<noteq> g \<longrightarrow> Unmount_id s g' w' (c\<lparr>VolumeRef := Some v\<rparr>) = (NotFound, w', c\<lparr>VolumeRef := Some v\<rparr>)) \<and>
    (\<forall>cs v' rs. chunk_run (ChunkCreate, ChunkWrite, ChunkRead, ChunkDelete) cs v = (v', rs) \<longrightarrow>
      (\<exists>d1 v2 d2. Unmount_id s g (w\<lparr>wDisk := d\<rparr>) (c\<lparr>VolumeRef := Some v'\<rparr>) = (Success, w\<lparr>wDisk := d1\<rparr>, c) \<and>
        Mount s name False volumeId (w\<lparr>wDisk := d1\<rparr>) c = Some (Success, g, w\<lparr>wDisk := d2\<rparr>, c\<lparr>VolumeRef := Some v2\<rparr>) \<and>
        chunks_ok v2 \<and> vol_chunks v2 = Map.empty \<and> (\<forall>p. unat (test_pos (sSize s)) \<le> p \<longrightarrow> view d2 p = view d p)))"
proof -
  have w: "w\<lparr>wMem := [], wDisk := x\<rparr> = w\<lparr>wDisk := x\<rparr>" for x using m by (cases w) simp
  have c': "c\<lparr>VolumeRef := None\<rparr> = c" using c by (cases c) simp
  from block_layer.Mount_format_ok [OF layer refl s n c m, of volumeId] obtain v d where
    v: "Mount s name True volumeId w c = Some (Success, g, w\<lparr>wDisk := d\<rparr>, c\<lparr>VolumeRef := Some v\<rparr>)" "VolumeId v = g"
    "ChunkTable v = make_HashTable ChunkBuckets 0" "vol_running view crash (sSize s) v (empty_ring (journal_blocks (sSize s) - 1)) [] [] (view d) d"
    unfolding w by blast
  have g: "length g = GuidSize" using s by (simp add: mountable_def)
  have e: "chunks_ok v \<and> vol_chunks v = Map.empty" using empty_chunks [OF v(3)] v(4) by (simp add: vol_running_def)
  have again: "\<exists>d1 v2 d2. Unmount_id s g (w\<lparr>wDisk := d\<rparr>) (c\<lparr>VolumeRef := Some v'\<rparr>) = (Success, w\<lparr>wDisk := d1\<rparr>, c) \<and>
        Mount s name False volumeId (w\<lparr>wDisk := d1\<rparr>) c = Some (Success, g, w\<lparr>wDisk := d2\<rparr>, c\<lparr>VolumeRef := Some v2\<rparr>) \<and>
        chunks_ok v2 \<and> vol_chunks v2 = Map.empty \<and> (\<forall>p. unat (test_pos (sSize s)) \<le> p \<longrightarrow> view d2 p = view d p)"
    if r: "chunk_run (ChunkCreate, ChunkWrite, ChunkRead, ChunkDelete) cs v = (v', rs)" for cs v' rs
  proof -
    note f = chunk_run_frame [OF r]
    then have "vol_running view crash (sSize s) v' (empty_ring (journal_blocks (sSize s) - 1)) [] [] (view d) (wDisk (w\<lparr>wDisk := d\<rparr>))" "length (VolumeId v') = GuidSize"
      using v(2,4) g by (simp_all add: vol_running_def)
    from block_layer.Unmount_ok [OF layer refl s n _ _ this, of "c\<lparr>VolumeRef := Some v'\<rparr>" volumeId] m f v(2) obtain d1 v2 d2 where
      "Unmount_id s g (w\<lparr>wDisk := d\<rparr>) (c\<lparr>VolumeRef := Some v'\<rparr>) = (Success, w\<lparr>wDisk := d1\<rparr>, c)"
      "Mount s name False volumeId (w\<lparr>wDisk := d1\<rparr>) c = Some (Success, g, w\<lparr>wDisk := d2\<rparr>, c\<lparr>VolumeRef := Some v2\<rparr>)"
      "ChunkTable v2 = make_HashTable ChunkBuckets 0" "vState v2 = VolumeStateRunning" "\<forall>p. unat (test_pos (sSize s)) \<le> p \<longrightarrow> view d2 p = view d p"
      by (auto simp: w c')
    then show ?thesis using empty_chunks by blast
  qed
  moreover have "\<forall>name' format w'. Mount s name' format volumeId w' (c\<lparr>VolumeRef := Some v\<rparr>) = Some (AlreadyExists, volumeId, w', c\<lparr>VolumeRef := Some v\<rparr>)"
    by (simp add: Mount_def)
  moreover have "\<forall>g' w'. length g' = GuidSize \<and> g' \<noteq> g \<longrightarrow> Unmount_id s g' w' (c\<lparr>VolumeRef := Some v\<rparr>) = (NotFound, w', c\<lparr>VolumeRef := Some v\<rparr>)"
    using v(2) g by (simp add: Unmount_id_def Guid_eq_iff)
  ultimately show ?thesis using v(1) e by blast
qed


section \<open>A concrete system\<close>

definition sample_sys :: "disk sys" where
  "sample_sys = \<lparr>sIo = good_disk_io, sHost = LittleEndian, sOpen = Success, sSize = sample_vsize, sPage = replicate PageSize 0, sCell = (\<lambda>_. 0),
     sWord = (\<lambda>_. 0), sRing = sample_rb, sGuid = Inr (replicate 16 9), sRandom = Inr (replicate 8 1), sStream = [], sTestMem = [],
     sTestPages = (replicate PageSize 1, replicate PageSize 2), sPasses = 1, sResolver = \<lparr>in4_pton = Some, in6_pton = Some, dns_query = Some\<rparr>,
     sTask = True, sInRound = False, sTime = 0, sTaskFound = (\<lambda>_. False), sTaskStack = (\<lambda>_. ([], 0)), sSymbol = (\<lambda>_. [])\<rparr>"

definition sample_world :: "disk world" where
  "sample_world = \<lparr>wDisk = sample_disk, wMem = [], wKernel = \<lparr>Results = [], Calls = [], NextSock = 0\<rparr>\<rparr>"

definition sample_name :: astring where
  "sample_name = \<lparr>Arr = [115, 100, 97, 0], vecSize = 4\<rparr>"

lemma sample_mountable: "mountable sample_sys (replicate 16 9)" "name_ok sample_name"
  by (simp_all add: mountable_def sample_sys_def reliable_good_disk GuidSize_def sample_vsize_def BlockSize_def
      name_ok_def astr_ok_def sample_name_def vec_inv_def vecCapacity_def GetLen_def astr_def)

theorem control_mount_cycle_witness:
  "\<exists>v d. Mount sample_sys sample_name True Guid_default sample_world make_CtrlDevice =
     Some (Success, replicate 16 9, sample_world\<lparr>wDisk := d\<rparr>, make_CtrlDevice\<lparr>VolumeRef := Some v\<rparr>) \<and> vol_chunks v = Map.empty"
proof -
  have "block_layer (sIo sample_sys) disk_view disk_crash good_crash_in" using good.block_layer_axioms by (simp add: sample_sys_def)
  moreover have "VolumeRef make_CtrlDevice = None" "wMem sample_world = []" by (simp_all add: make_CtrlDevice_def sample_world_def)
  ultimately show ?thesis using control_mount_cycle [OF _ sample_mountable, of disk_view disk_crash good_crash_in make_CtrlDevice sample_world Guid_default] by blast
qed



end
