(* ===== verification/Shared_Ptr.thy ===== *)
theory Shared_Ptr
  imports Prelude "HOL-Library.Word" "HOL-Library.Monad_Syntax"
begin

text \<open>
  The counted references of \<^verbatim>\<open>src/core/shared_ptr.h\<close>. The heap holds the reference objects and the live objects; the
  pointer variables of the program are the places of a list, which construction extends and in which destruction leaves a null pointer. The counter
  is a 32-bit integer, as in the code. \<open>None\<close> is a failed assertion, which stops a debug build, or a use of memory
  that was freed.
\<close>

section \<open>References\<close>

record ObjectReference =
  Counter :: "32 word"
  Object :: "nat option"

record sp_heap =
  Refs :: "nat \<rightharpoonup> ObjectReference"
  Objects :: "nat set"
  NextAddr :: nat
  Ptrs :: "nat option list"

definition make_reference :: "nat option \<Rightarrow> ObjectReference" where
  "make_reference object = \<lparr>Counter = 1, Object = object\<rparr>"

definition IncCounter :: "nat \<Rightarrow> sp_heap \<Rightarrow> sp_heap option" where
  "IncCounter r h = do { R \<leftarrow> Refs h r; Some (h\<lparr>Refs := (Refs h)(r \<mapsto> R\<lparr>Counter := Counter R + 1\<rparr>)\<rparr>) }"

definition SetObject :: "nat \<Rightarrow> nat \<Rightarrow> sp_heap \<Rightarrow> sp_heap option" where
  "SetObject r object h = do { R \<leftarrow> Refs h r; guard (Object R = None) (Some (h\<lparr>Refs := (Refs h)(r \<mapsto> R\<lparr>Object := Some object\<rparr>)\<rparr>)) }"

text \<open>\<open>delete\<close> of an object, which must be alive, or of nothing.\<close>

definition delete_object :: "nat option \<Rightarrow> sp_heap \<Rightarrow> sp_heap option" where
  "delete_object object h =
     (case object of None \<Rightarrow> Some h | Some x \<Rightarrow> guard (x \<in> Objects h) (Some (h\<lparr>Objects := Objects h - {x}\<rparr>)))"

definition DecCounter :: "nat \<Rightarrow> sp_heap \<Rightarrow> (bool \<times> sp_heap) option" where
  "DecCounter r h = do {
     R \<leftarrow> Refs h r;
     let R' = R\<lparr>Counter := Counter R - 1\<rparr>;
     if Counter R' = 0 then do {
       h \<leftarrow> delete_object (Object R) h;
       Some (True, h\<lparr>Refs := (Refs h)(r \<mapsto> R'\<lparr>Object := None\<rparr>)\<rparr>) }
     else Some (False, h\<lparr>Refs := (Refs h)(r \<mapsto> R')\<rparr>) }"

text \<open>The destructor of a reference and the release of its memory.\<close>

definition delete_reference :: "nat \<Rightarrow> sp_heap \<Rightarrow> sp_heap option" where
  "delete_reference r h = do {
     R \<leftarrow> Refs h r;
     guard (Object R = None) (guard (Counter R = 0) (Some (h\<lparr>Refs := (Refs h)(r := None)\<rparr>))) }"

section \<open>Pointers\<close>

definition ptr_at :: "nat \<Rightarrow> sp_heap \<Rightarrow> nat option" where
  "ptr_at i h = Ptrs h ! i"

definition set_ptr :: "nat \<Rightarrow> nat option \<Rightarrow> sp_heap \<Rightarrow> sp_heap" where
  "set_ptr i p h = h\<lparr>Ptrs := (Ptrs h)[i := p]\<rparr>"

definition add_ptr :: "nat option \<Rightarrow> sp_heap \<Rightarrow> sp_heap" where
  "add_ptr p h = h\<lparr>Ptrs := Ptrs h @ [p]\<rparr>"

definition sp_Get :: "nat option \<Rightarrow> sp_heap \<Rightarrow> nat option option" where
  "sp_Get p h = (case p of None \<Rightarrow> Some None | Some r \<Rightarrow> map_option Object (Refs h r))"

definition sp_GetCounter :: "nat option \<Rightarrow> sp_heap \<Rightarrow> 32 word option" where
  "sp_GetCounter p h = (case p of None \<Rightarrow> Some 0 | Some r \<Rightarrow> map_option Counter (Refs h r))"

definition sp_Reset :: "nat \<Rightarrow> nat option \<Rightarrow> mem \<Rightarrow> sp_heap \<Rightarrow> (mem \<times> sp_heap) option" where
  "sp_Reset i object m h = do {
     x \<leftarrow> sp_Get (ptr_at i h) h;
     guard (\<not> (x \<noteq> None \<and> x = object)) (do {
     h \<leftarrow> (case ptr_at i h of
        None \<Rightarrow> Some h
      | Some r \<Rightarrow> do { (last, h) \<leftarrow> DecCounter r h; if last then delete_reference r h else Some h });
     let h = set_ptr i None h;
     (case object of
        None \<Rightarrow> Some (m, h)
      | Some x \<Rightarrow>
          (let (ok, m) = new m
           in if \<not> ok then Some (m, h)
           else let r = NextAddr h
           in Some (m, set_ptr i (Some r) (h\<lparr>Refs := (Refs h)(r \<mapsto> make_reference (Some x)), NextAddr := r + 1\<rparr>)))) }) }"

definition sp_copy :: "nat \<Rightarrow> sp_heap \<Rightarrow> sp_heap option" where
  "sp_copy j h = (case ptr_at j h of None \<Rightarrow> Some (add_ptr None h) | Some r \<Rightarrow> IncCounter r (add_ptr (Some r) h))"

definition sp_move :: "nat \<Rightarrow> sp_heap \<Rightarrow> sp_heap" where
  "sp_move j h = set_ptr j None (add_ptr (ptr_at j h) h)"

definition sp_assign :: "nat \<Rightarrow> nat \<Rightarrow> mem \<Rightarrow> sp_heap \<Rightarrow> (mem \<times> sp_heap) option" where
  "sp_assign i j m h =
     (if i = j then Some (m, h)
      else do {
        (m, h) \<leftarrow> sp_Reset i None m h;
        (case ptr_at j h of
           None \<Rightarrow> Some (m, set_ptr i None h)
         | Some r \<Rightarrow> do { h \<leftarrow> IncCounter r (set_ptr i (Some r) h); Some (m, h) }) })"

definition sp_assign_move :: "nat \<Rightarrow> nat \<Rightarrow> mem \<Rightarrow> sp_heap \<Rightarrow> (mem \<times> sp_heap) option" where
  "sp_assign_move i j m h =
     (if i = j then Some (m, h)
      else do { (m, h) \<leftarrow> sp_Reset i None m h; Some (m, set_ptr j None (set_ptr i (ptr_at j h) h)) })"

text \<open>A new object of the program, and the constructor that takes it.\<close>

definition new_object :: "sp_heap \<Rightarrow> nat \<times> sp_heap" where
  "new_object h = (NextAddr h, h\<lparr>Objects := insert (NextAddr h) (Objects h), NextAddr := NextAddr h + 1\<rparr>)"

definition sp_make :: "nat option \<Rightarrow> mem \<Rightarrow> sp_heap \<Rightarrow> (mem \<times> sp_heap) option" where
  "sp_make object m h = sp_Reset (length (Ptrs h)) object m (add_ptr None h)"

definition MakeShared_ptr :: "mem \<Rightarrow> sp_heap \<Rightarrow> (mem \<times> sp_heap) option" where
  "MakeShared_ptr m h =
     (let (ok, m) = new m
      in if \<not> ok then Some (m, add_ptr None h)
      else let r = NextAddr h; h = h\<lparr>Refs := (Refs h)(r \<mapsto> make_reference None), NextAddr := r + 1\<rparr>;
               (ok, m) = new m
      in if \<not> ok then do { h \<leftarrow> delete_reference r h; Some (m, add_ptr None h) }
      else let (x, h) = new_object h
      in do { h \<leftarrow> SetObject r x h; Some (m, add_ptr (Some r) h) })"

section \<open>Programs\<close>

datatype sp_op = SpMake | SpShared | SpCopy nat | SpMove nat | SpAssign nat nat | SpAssignMove nat nat | SpReset nat | SpResetNew nat

fun sp_step :: "sp_op \<Rightarrow> mem \<Rightarrow> sp_heap \<Rightarrow> (mem \<times> sp_heap) option" where
  "sp_step SpMake m h = (let (x, h) = new_object h in sp_make (Some x) m h)"
| "sp_step SpShared m h = MakeShared_ptr m h"
| "sp_step (SpCopy j) m h = map_option (Pair m) (sp_copy j h)"
| "sp_step (SpMove j) m h = Some (m, sp_move j h)"
| "sp_step (SpAssign i j) m h = sp_assign i j m h"
| "sp_step (SpAssignMove i j) m h = sp_assign_move i j m h"
| "sp_step (SpReset i) m h = sp_Reset i None m h"
| "sp_step (SpResetNew i) m h = (let (x, h) = new_object h in sp_Reset i (Some x) m h)"

fun sp_run :: "sp_op list \<Rightarrow> mem \<Rightarrow> sp_heap \<Rightarrow> (mem \<times> sp_heap) option" where
  "sp_run [] m h = Some (m, h)"
| "sp_run (c # cs) m h = do { (m, h) \<leftarrow> sp_step c m h; sp_run cs m h }"

text \<open>The variables that an operation uses have been constructed.\<close>

fun op_uses :: "sp_op \<Rightarrow> nat set" where
  "op_uses SpMake = {}"
| "op_uses SpShared = {}"
| "op_uses (SpCopy j) = {j}"
| "op_uses (SpMove j) = {j}"
| "op_uses (SpAssign i j) = {i, j}"
| "op_uses (SpAssignMove i j) = {i, j}"
| "op_uses (SpReset i) = {i}"
| "op_uses (SpResetNew i) = {i}"

fun op_adds :: "sp_op \<Rightarrow> nat" where
  "op_adds SpMake = 1"
| "op_adds SpShared = 1"
| "op_adds (SpCopy j) = 1"
| "op_adds (SpMove j) = 1"
| "op_adds _ = 0"

fun ops_ok :: "nat \<Rightarrow> sp_op list \<Rightarrow> bool" where
  "ops_ok n [] \<longleftrightarrow> True"
| "ops_ok n (c # cs) \<longleftrightarrow> (\<forall>i \<in> op_uses c. i < n) \<and> ops_ok (n + op_adds c) cs"

definition sp_empty :: sp_heap where
  "sp_empty = \<lparr>Refs = Map.empty, Objects = {}, NextAddr = 0, Ptrs = []\<rparr>"

section \<open>The invariant\<close>

text \<open>
  How many variables hold a reference, and the objects that references own. \<open>X\<close> are the live objects that no reference owns yet.
\<close>

definition uses :: "sp_heap \<Rightarrow> nat \<Rightarrow> nat" where
  "uses h r = count_list (Ptrs h) (Some r)"

definition owned :: "sp_heap \<Rightarrow> nat set" where
  "owned h = {x. \<exists>r R. Refs h r = Some R \<and> Object R = Some x}"

definition sp_inv :: "nat set \<Rightarrow> sp_heap \<Rightarrow> bool" where
  "sp_inv X h \<longleftrightarrow> (\<forall>r. Refs h r = None \<longleftrightarrow> uses h r = 0) \<and>
     (\<forall>r R. Refs h r = Some R \<longrightarrow> Counter R = of_nat (uses h r) \<and> r < NextAddr h \<and> Object R \<noteq> None) \<and>
     (\<forall>r r' R R'. Refs h r = Some R \<and> Refs h r' = Some R' \<and> Object R = Object R' \<longrightarrow> r = r') \<and>
     Objects h = X \<union> owned h \<and> X \<inter> owned h = {} \<and> (\<forall>x \<in> Objects h. x < NextAddr h)"

lemma sp_invI:
  assumes "\<And>r. Refs h r = None \<longleftrightarrow> uses h r = 0" "\<And>r R. Refs h r = Some R \<Longrightarrow> Counter R = of_nat (uses h r) \<and> r < NextAddr h \<and> Object R \<noteq> None"
    and "\<And>r r' R R'. Refs h r = Some R \<Longrightarrow> Refs h r' = Some R' \<Longrightarrow> Object R = Object R' \<Longrightarrow> r = r'"
    and "Objects h = X \<union> owned h" "X \<inter> owned h = {}" "\<And>x. x \<in> Objects h \<Longrightarrow> x < NextAddr h"
  shows "sp_inv X h"
  using assms unfolding sp_inv_def by blast

lemma sp_invD:
  assumes "sp_inv X h"
  shows "Refs h r = None \<longleftrightarrow> uses h r = 0" "Refs h r = Some R \<Longrightarrow> Counter R = of_nat (uses h r)" "Refs h r = Some R \<Longrightarrow> r < NextAddr h"
    "Refs h r = Some R \<Longrightarrow> Object R \<noteq> None" "Refs h r = Some R \<Longrightarrow> Refs h r' = Some R' \<Longrightarrow> Object R = Object R' \<Longrightarrow> r = r'"
    "Objects h = X \<union> owned h" "X \<inter> owned h = {}" "x \<in> Objects h \<Longrightarrow> x < NextAddr h"
  using assms unfolding sp_inv_def by blast+

lemma count_list_update:
  "i < length xs \<Longrightarrow> count_list (xs[i := y]) z + (if xs ! i = z then 1 else 0) = count_list xs z + (if y = z then 1 else 0)"
proof (induction xs arbitrary: i)
  case (Cons x xs)
  show ?case
  proof (cases i)
    case (Suc k)
    then show ?thesis using Cons.IH [of k] Cons.prems by (simp split: if_splits)
  qed simp
qed simp

lemma uses_set:
  assumes "i < length (Ptrs h)"
  shows "uses (h\<lparr>Ptrs := (Ptrs h)[i := p]\<rparr>) r = uses h r + (if p = Some r then 1 else 0) - (if Ptrs h ! i = Some r then 1 else 0)"
  using count_list_update [OF assms, of p "Some r"] by (simp add: uses_def split: if_splits)

lemma uses_add: "uses (h\<lparr>Ptrs := Ptrs h @ [p]\<rparr>) r = uses h r + (if p = Some r then 1 else 0)"
  by (simp add: uses_def)

lemma uses_held: "i < length (Ptrs h) \<Longrightarrow> Ptrs h ! i = Some r \<Longrightarrow> 0 < uses h r"
  using count_list_0_iff [of "Ptrs h" "Some r"] nth_mem [of i "Ptrs h"] by (auto simp: uses_def)

lemma uses_bound: "uses h r \<le> length (Ptrs h)"
  by (simp add: uses_def count_le_length)

lemma counter_zero:
  assumes "0 < n" "n < 4294967296"
  shows "(of_nat n - 1 :: 32 word) = 0 \<longleftrightarrow> n = 1"
proof -
  have "unat (of_nat n :: 32 word) = n" using assms(2) by (rule unat_of_nat_32)
  then have "(of_nat n :: 32 word) = 1 \<longleftrightarrow> n = 1" by (metis of_nat_1 unat_1)
  then show ?thesis by simp
qed

lemma owned_cong: "(\<And>r. map_option Object (Refs h' r) = map_option Object (Refs h r)) \<Longrightarrow> owned h' = owned h"
  unfolding owned_def by (auto simp: map_option_eq_Some) (metis map_option_eq_Some option.map_sel)+

text \<open>Releasing what a variable holds.\<close>

definition release :: "nat \<Rightarrow> sp_heap \<Rightarrow> sp_heap option" where
  "release i h = (case ptr_at i h of
        None \<Rightarrow> Some h
      | Some r \<Rightarrow> do { (last, h) \<leftarrow> DecCounter r h; if last then delete_reference r h else Some h })"

lemma sp_release_ok:
  assumes inv: "sp_inv X h" and i: "i < length (Ptrs h)" and n: "length (Ptrs h) < 4294967296"
  shows "\<exists>h'. release i h = Some h' \<and> sp_inv X (set_ptr i None h') \<and> Ptrs h' = Ptrs h \<and> NextAddr h' = NextAddr h"
proof (cases "Ptrs h ! i")
  case None
  have "uses (set_ptr i None h) r = uses h r" for r using uses_set [OF i, of None r] None by (simp add: set_ptr_def)
  moreover have "owned (set_ptr i None h) = owned h" by (simp add: owned_def set_ptr_def)
  ultimately have "sp_inv X (set_ptr i None h)" using inv by (simp add: sp_inv_def) (simp add: set_ptr_def)
  then show ?thesis using None by (simp add: release_def ptr_at_def)
next
  case (Some r)
  have u: "0 < uses h r" "uses h r < 4294967296" using uses_held [OF i Some] uses_bound [of h r] n by simp_all
  then obtain R where R: "Refs h r = Some R" using sp_invD(1) [OF inv, of r] by auto
  obtain x where x: "Object R = Some x" using sp_invD(4) [OF inv R] by auto
  have c: "Counter R = of_nat (uses h r)" by (rule sp_invD(2) [OF inv R])
  have x_in: "x \<in> Objects h" "x \<notin> X" using R x sp_invD(6,7) [OF inv] by (auto simp: owned_def)
  let ?u = "\<lambda>q. uses h q - (if r = q then 1 else 0)"
  show ?thesis
  proof (cases "uses h r = 1")
    case True
    let ?h = "h\<lparr>Objects := Objects h - {x}, Refs := (Refs h)(r := None)\<rparr>"
    have "release i h = Some ?h"
      using Some R x x_in c True by (simp add: release_def ptr_at_def DecCounter_def delete_object_def delete_reference_def Let_def)
    moreover have "sp_inv X (set_ptr i None ?h)"
    proof (rule sp_invI)
      have us: "uses (set_ptr i None ?h) q = ?u q" for q using uses_set [of i ?h None q] i Some by (simp add: set_ptr_def uses_def)
      show "Refs (set_ptr i None ?h) q = None \<longleftrightarrow> uses (set_ptr i None ?h) q = 0" for q
        using sp_invD(1) [OF inv, of q] True us by (auto simp: set_ptr_def)
      show "Counter Q = of_nat (uses (set_ptr i None ?h) q) \<and> q < NextAddr (set_ptr i None ?h) \<and> Object Q \<noteq> None"
        if "Refs (set_ptr i None ?h) q = Some Q" for q Q
        using that sp_invD(2-4) [OF inv, of q Q] us by (auto simp: set_ptr_def split: if_splits)
      show "q = q'" if "Refs (set_ptr i None ?h) q = Some Q" "Refs (set_ptr i None ?h) q' = Some Q'" "Object Q = Object Q'" for q q' Q Q'
        using that sp_invD(5) [OF inv, of q Q q' Q'] by (auto simp: set_ptr_def split: if_splits)
      have o: "owned (set_ptr i None ?h) = owned h - {x}"
      proof -
        have "Object Q = Some x \<Longrightarrow> q = r" if "Refs h q = Some Q" for q Q using sp_invD(5) [OF inv that R] x by simp
        then have "(\<exists>q Q. q \<noteq> r \<and> Refs h q = Some Q \<and> Object Q = Some y) \<longleftrightarrow> (\<exists>q Q. Refs h q = Some Q \<and> Object Q = Some y) \<and> y \<noteq> x" for y
          using R x by (metis option.inject)
        then have "{y. \<exists>q Q. q \<noteq> r \<and> Refs h q = Some Q \<and> Object Q = Some y} = owned h - {x}" unfolding owned_def by blast
        moreover have "owned (set_ptr i None ?h) = {y. \<exists>q Q. q \<noteq> r \<and> Refs h q = Some Q \<and> Object Q = Some y}" by (auto simp: owned_def set_ptr_def split: if_splits)
        ultimately show ?thesis by simp
      qed
      show "Objects (set_ptr i None ?h) = X \<union> owned (set_ptr i None ?h)" "X \<inter> owned (set_ptr i None ?h) = {}"
        unfolding o using sp_invD(6,7) [OF inv] x_in(2) by (auto simp: set_ptr_def)
      show "y < NextAddr (set_ptr i None ?h)" if "y \<in> Objects (set_ptr i None ?h)" for y
        using that sp_invD(8) [OF inv, of y] by (simp add: set_ptr_def)
    qed
    ultimately show ?thesis by simp
  next
    case False
    let ?R = "R\<lparr>Counter := Counter R - 1\<rparr>" let ?h = "h\<lparr>Refs := (Refs h)(r \<mapsto> ?R)\<rparr>"
    have nz: "Counter R - 1 \<noteq> 0" using counter_zero [OF u] False c by simp
    have "release i h = Some ?h" using Some R nz by (simp add: release_def ptr_at_def DecCounter_def Let_def)
    moreover have "sp_inv X (set_ptr i None ?h)"
    proof (rule sp_invI)
      have us: "uses (set_ptr i None ?h) q = ?u q" for q using uses_set [of i ?h None q] i Some by (simp add: set_ptr_def uses_def)
      show "Refs (set_ptr i None ?h) q = None \<longleftrightarrow> uses (set_ptr i None ?h) q = 0" for q
        using sp_invD(1) [OF inv, of q] False u us by (auto simp: set_ptr_def)
      show "Counter Q = of_nat (uses (set_ptr i None ?h) q) \<and> q < NextAddr (set_ptr i None ?h) \<and> Object Q \<noteq> None"
        if "Refs (set_ptr i None ?h) q = Some Q" for q Q
        using that sp_invD(2-4) [OF inv, of q Q] sp_invD(2-4) [OF inv R] us u(1) by (auto simp: set_ptr_def of_nat_diff split: if_splits)
      show "q = q'" if "Refs (set_ptr i None ?h) q = Some Q" "Refs (set_ptr i None ?h) q' = Some Q'" "Object Q = Object Q'" for q q' Q Q'
        using that sp_invD(5) [OF inv, of q _ q'] R by (auto simp: set_ptr_def split: if_splits) metis+
      have o: "owned (set_ptr i None ?h) = owned h" using R by (intro owned_cong) (simp add: set_ptr_def)
      show "Objects (set_ptr i None ?h) = X \<union> owned (set_ptr i None ?h)" "X \<inter> owned (set_ptr i None ?h) = {}"
        unfolding o using sp_invD(6,7) [OF inv] by (simp_all add: set_ptr_def)
      show "y < NextAddr (set_ptr i None ?h)" if "y \<in> Objects (set_ptr i None ?h)" for y
        using that sp_invD(8) [OF inv, of y] by (simp add: set_ptr_def)
    qed
    ultimately show ?thesis by simp
  qed
qed

section \<open>The operations keep it\<close>

lemma sp_Get_ok: "sp_inv X h \<Longrightarrow> i < length (Ptrs h) \<Longrightarrow> \<exists>y. sp_Get (ptr_at i h) h = Some y \<and> (\<forall>x. y = Some x \<longrightarrow> x \<in> owned h)"
proof (cases "Ptrs h ! i")
  case (Some r)
  assume a: "sp_inv X h" "i < length (Ptrs h)"
  then obtain R where "Refs h r = Some R" using uses_held [OF a(2) Some] sp_invD(1) [OF a(1), of r] by auto
  then show ?thesis using Some by (auto simp: sp_Get_def ptr_at_def owned_def)
qed (simp add: sp_Get_def ptr_at_def)

lemma sp_Reset_unfold:
  "sp_Reset i object m h = do {
     x \<leftarrow> sp_Get (ptr_at i h) h;
     guard (\<not> (x \<noteq> None \<and> x = object)) (do {
     h \<leftarrow> release i h;
     let h = set_ptr i None h;
     (case object of
        None \<Rightarrow> Some (m, h)
      | Some x \<Rightarrow>
          (let (ok, m) = new m
           in if \<not> ok then Some (m, h)
           else let r = NextAddr h
           in Some (m, set_ptr i (Some r) (h\<lparr>Refs := (Refs h)(r \<mapsto> make_reference (Some x)), NextAddr := r + 1\<rparr>)))) }) }"
  unfolding sp_Reset_def release_def ..

lemma Reset_null_ok:
  assumes "sp_inv X h" "i < length (Ptrs h)" "length (Ptrs h) < 4294967296"
  shows "\<exists>h'. sp_Reset i None m h = Some (m, h') \<and> sp_inv X h' \<and> Ptrs h' = (Ptrs h)[i := None]"
proof -
  obtain h' where "release i h = Some h'" "sp_inv X (set_ptr i None h')" "Ptrs h' = Ptrs h" using sp_release_ok [OF assms] by blast
  then show ?thesis using sp_Get_ok [OF assms(1,2)] by (auto simp: sp_Reset_unfold set_ptr_def)
qed

text \<open>A new reference to an object that nobody owns.\<close>

lemma new_reference_ok:
  assumes inv: "sp_inv X h" and p: "uses h' r = 1" "\<And>q. q \<noteq> r \<Longrightarrow> uses h' q = uses h q" and x: "x \<in> X" and r: "Refs h r = None" "r < NextAddr h'"
    and h': "Refs h' = (Refs h)(r \<mapsto> make_reference (Some x))" "Objects h' = Objects h" "NextAddr h \<le> NextAddr h'"
  shows "sp_inv (X - {x}) h'"
proof (rule sp_invI)
  note new = r(1)
  have nx: "x \<notin> owned h" using sp_invD(7) [OF inv] x by blast
  show "Refs h' q = None \<longleftrightarrow> uses h' q = 0" for q using sp_invD(1) [OF inv, of q] p h' by auto
  show "Counter Q = of_nat (uses h' q) \<and> q < NextAddr h' \<and> Object Q \<noteq> None" if "Refs h' q = Some Q" for q Q
    using that sp_invD(2-4) [OF inv, of q Q] p h' r by (auto simp: make_reference_def split: if_splits)
  show "q = q'" if "Refs h' q = Some Q" "Refs h' q' = Some Q'" "Object Q = Object Q'" for q q' Q Q'
  proof -
    have "Object S \<noteq> Some x" if "Refs h p = Some S" for p S using that nx by (auto simp: owned_def)
    then show ?thesis using that sp_invD(5) [OF inv, of q Q q' Q'] by (cases "q = r"; cases "q' = r"; auto simp: h' make_reference_def; blast)
  qed
  have o: "owned h' = insert x (owned h)"
  proof (intro set_eqI iffI)
    fix y assume "y \<in> insert x (owned h)"
    then consider "y = x" | q Q where "Refs h q = Some Q" "Object Q = Some y" "q \<noteq> r" using new unfolding owned_def by fastforce
    then show "y \<in> owned h'" by cases (force simp: owned_def h' make_reference_def)+
  qed (auto simp: owned_def h' make_reference_def split: if_splits)
  show "Objects h' = (X - {x}) \<union> owned h'" "(X - {x}) \<inter> owned h' = {}" unfolding o using sp_invD(6,7) [OF inv] x h' by auto
  show "y < NextAddr h'" if "y \<in> Objects h'" for y using that sp_invD(8) [OF inv, of y] h' by simp
qed

text \<open>One more variable, which holds nothing or holds a reference that another one holds.\<close>

lemma more_uses_ok:
  assumes inv: "sp_inv X h" and p: "\<And>q. uses h' q = uses h q + (if p = Some q then 1 else 0)" and r: "\<And>q. p = Some q \<Longrightarrow> Refs h q \<noteq> None"
    and h': "\<And>q. Refs h' q = (if p = Some q then map_option (\<lambda>R. R\<lparr>Counter := Counter R + 1\<rparr>) (Refs h q) else Refs h q)"
      "Objects h' = Objects h" "NextAddr h' = NextAddr h"
  shows "sp_inv X h'"
proof (rule sp_invI)
  show "Refs h' q = None \<longleftrightarrow> uses h' q = 0" for q using sp_invD(1) [OF inv, of q] p r [of q] h' by auto
  show "Counter Q = of_nat (uses h' q) \<and> q < NextAddr h' \<and> Object Q \<noteq> None" if "Refs h' q = Some Q" for q Q
    using that sp_invD(2-4) [OF inv, of q] p [of q] h' by (auto split: if_splits)
  show "q = q'" if Q: "Refs h' q = Some Q" "Refs h' q' = Some Q'" "Object Q = Object Q'" for q q' Q Q'
  proof -
    have "\<exists>R. Refs h q = Some R \<and> Object R = Object Q" if "Refs h' q = Some Q" for q Q using that h'(1) [of q] by (auto split: if_splits)
    from this [OF Q(1)] this [OF Q(2)] obtain R R' where "Refs h q = Some R" "Object R = Object Q" "Refs h q' = Some R'" "Object R' = Object Q'" by blast
    then show ?thesis using sp_invD(5) [OF inv, of q R q' R'] Q(3) by simp
  qed
  have o: "owned h' = owned h" by (rule owned_cong) (auto simp: h' option.map_comp comp_def)
  show "Objects h' = X \<union> owned h'" "X \<inter> owned h' = {}" unfolding o using sp_invD(6,7) [OF inv] h' by auto
  show "y < NextAddr h'" if "y \<in> Objects h'" for y using that sp_invD(8) [OF inv, of y] h' by simp
qed

lemma same_uses_ok:
  "sp_inv X h \<Longrightarrow> (\<And>q. uses h' q = uses h q) \<Longrightarrow> Refs h' = Refs h \<Longrightarrow> Objects h' = Objects h \<Longrightarrow> NextAddr h' = NextAddr h \<Longrightarrow> sp_inv X h'"
  by (rule more_uses_ok [where p = None]) simp_all

lemma add_null_ok: "sp_inv X h \<Longrightarrow> sp_inv X (add_ptr None h)"
  by (erule same_uses_ok) (simp_all add: add_ptr_def uses_add)

lemma fresh_object_ok:
  assumes inv: "sp_inv X h" and x: "NextAddr h \<le> x" "x < n"
  shows "sp_inv (insert x X) (h\<lparr>Objects := insert x (Objects h), NextAddr := n\<rparr>)" (is "sp_inv _ ?h")
proof (rule sp_invI)
  have nx: "x \<notin> Objects h" using sp_invD(8) [OF inv, of x] x by auto
  have o: "owned ?h = owned h" by (simp add: owned_def)
  show "Counter Q = of_nat (uses ?h q) \<and> q < NextAddr ?h \<and> Object Q \<noteq> None" if "Refs ?h q = Some Q" for q Q
    using that sp_invD(2-4) [OF inv, of q Q] x by (auto simp: uses_def)
  show "Objects ?h = insert x X \<union> owned ?h" "insert x X \<inter> owned ?h = {}" unfolding o using sp_invD(6,7) [OF inv] nx by auto
  show "y < NextAddr ?h" if "y \<in> Objects ?h" for y using that sp_invD(8) [OF inv, of y] x by auto
qed (use sp_invD(1,5) [OF inv] in \<open>auto simp: uses_def\<close>)

lemma new_object_ok:
  assumes inv: "sp_inv X h" and n: "new_object h = (x, h')"
  shows "sp_inv (insert x X) h' \<and> x \<notin> Objects h \<and> Ptrs h' = Ptrs h"
proof -
  have h': "h' = h\<lparr>Objects := insert x (Objects h), NextAddr := x + 1\<rparr>" "x = NextAddr h" using n by (auto simp: new_object_def)
  have "x \<notin> Objects h" using sp_invD(8) [OF inv, of x] h'(2) by auto
  then show ?thesis using fresh_object_ok [OF inv, of x "x + 1"] h' by simp
qed

lemma Reset_new_ok:
  assumes "sp_inv X h" "i < length (Ptrs h)" "length (Ptrs h) < 4294967296" "x \<in> X"
  shows "\<exists>m' h'. sp_Reset i (Some x) m h = Some (m', h') \<and> m' = snd (new m) \<and> length (Ptrs h') = length (Ptrs h) \<and> sp_inv (if fst (new m) then X - {x} else X) h'"
proof -
  obtain h1 where h1: "release i h = Some h1" "sp_inv X (set_ptr i None h1)" "Ptrs h1 = Ptrs h" using sp_release_ok [OF assms(1-3)] by blast
  obtain y where y: "sp_Get (ptr_at i h) h = Some y" "\<forall>x. y = Some x \<longrightarrow> x \<in> owned h" using sp_Get_ok [OF assms(1,2)] by blast
  have ne: "y \<noteq> Some x" using y(2) assms(4) sp_invD(7) [OF assms(1)] by auto
  obtain ok m' where m: "new m = (ok, m')" by fastforce
  let ?h = "set_ptr i None h1" let ?r = "NextAddr ?h"
  let ?h' = "set_ptr i (Some ?r) (?h\<lparr>Refs := (Refs ?h)(?r \<mapsto> make_reference (Some x)), NextAddr := ?r + 1\<rparr>)"
  have i: "i < length (Ptrs ?h)" "Ptrs ?h ! i = None" using assms(2) h1(3) by (simp_all add: set_ptr_def)
  have "uses ?h ?r = 0" using sp_invD(1,3) [OF h1(2), of ?r] by (cases "Refs ?h ?r") auto
  then have "uses ?h' ?r = 1" "q \<noteq> ?r \<Longrightarrow> uses ?h' q = uses ?h q" for q
    using uses_set [OF i(1), of "Some ?r" ?r] uses_set [OF i(1), of "Some ?r" q] i(2) by (simp_all add: set_ptr_def uses_def)
  moreover from \<open>uses ?h ?r = 0\<close> have "Refs ?h ?r = None" using sp_invD(1) [OF h1(2), of ?r] by blast
  ultimately have "sp_inv (X - {x}) ?h'" by (intro new_reference_ok [OF h1(2) _ _ assms(4), of ?h' ?r]) (simp_all add: set_ptr_def)
  then show ?thesis using h1 y(1) ne m by (cases ok) (auto simp: sp_Reset_unfold set_ptr_def Let_def)
qed

lemma held_ref: "sp_inv X h \<Longrightarrow> i < length (Ptrs h) \<Longrightarrow> Ptrs h ! i = Some r \<Longrightarrow> \<exists>R. Refs h r = Some R"
  using uses_held [of i h r] sp_invD(1) [of X h r] by auto

lemma IncCounter_ok:
  assumes inv: "sp_inv X h" and r: "Refs h r = Some R" and h1: "\<And>q. uses h1 q = uses h q + (if q = r then 1 else 0)"
    "Refs h1 = Refs h" "Objects h1 = Objects h" "NextAddr h1 = NextAddr h"
  shows "\<exists>h'. IncCounter r h1 = Some h' \<and> sp_inv X h' \<and> Ptrs h' = Ptrs h1"
proof -
  let ?h = "h1\<lparr>Refs := (Refs h1)(r \<mapsto> R\<lparr>Counter := Counter R + 1\<rparr>)\<rparr>"
  have "sp_inv X ?h" by (rule more_uses_ok [OF inv, where p = "Some r"]) (use r h1 in \<open>auto simp: uses_def\<close>)
  then show ?thesis using r h1 by (simp add: IncCounter_def)
qed

lemma sp_copy_ok:
  assumes "sp_inv X h" "j < length (Ptrs h)"
  shows "\<exists>h'. sp_copy j h = Some h' \<and> sp_inv X h' \<and> length (Ptrs h') = length (Ptrs h) + 1"
proof (cases "Ptrs h ! j")
  case None
  then show ?thesis using add_null_ok [OF assms(1)] by (simp add: sp_copy_def ptr_at_def add_ptr_def)
next
  case (Some r)
  then obtain R where R: "Refs h r = Some R" using held_ref [OF assms] by blast
  have "uses (add_ptr (Some r) h) q = uses h q + (if q = r then 1 else 0)" for q by (simp add: add_ptr_def uses_add)
  from IncCounter_ok [OF assms(1) R this] show ?thesis using Some by (auto simp: sp_copy_def ptr_at_def add_ptr_def)
qed

lemma sp_move_ok:
  assumes "sp_inv X h" "j < length (Ptrs h)"
  shows "sp_inv X (sp_move j h) \<and> length (Ptrs (sp_move j h)) = length (Ptrs h) + 1"
proof -
  let ?h = "add_ptr (Ptrs h ! j) h"
  have "uses (sp_move j h) q = uses h q" for q
    using uses_set [of j ?h None q] uses_add [of h "Ptrs h ! j" q] assms(2) by (simp add: sp_move_def set_ptr_def add_ptr_def ptr_at_def nth_append)
  then show ?thesis using same_uses_ok [OF assms(1), of "sp_move j h"] by (simp add: sp_move_def set_ptr_def add_ptr_def)
qed

lemma sp_assign_ok:
  assumes "sp_inv X h" "i < length (Ptrs h)" "j < length (Ptrs h)" "length (Ptrs h) < 4294967296"
  shows "\<exists>h'. sp_assign i j m h = Some (m, h') \<and> sp_inv X h' \<and> Ptrs h' = (Ptrs h)[i := Ptrs h ! j]"
    "\<exists>h'. sp_assign_move i j m h = Some (m, h') \<and> sp_inv X h' \<and> length (Ptrs h') = length (Ptrs h)"
proof -
  obtain h1 where h1: "sp_Reset i None m h = Some (m, h1)" "sp_inv X h1" "Ptrs h1 = (Ptrs h)[i := None]" using Reset_null_ok [OF assms(1,2,4)] by blast
  have l: "i < length (Ptrs h1)" "j < length (Ptrs h1)" "Ptrs h1 ! i = None" using assms h1(3) by simp_all
  have pj: "Ptrs h1 ! j = Ptrs h ! j" if "i \<noteq> j" using that h1(3) by simp
  show "\<exists>h'. sp_assign i j m h = Some (m, h') \<and> sp_inv X h' \<and> Ptrs h' = (Ptrs h)[i := Ptrs h ! j]"
  proof (cases "i = j")
    case False
    show ?thesis
    proof (cases "Ptrs h ! j")
      case None
      have "uses (set_ptr i None h1) q = uses h1 q" for q using uses_set [OF l(1), of None q] l(3) by (simp add: set_ptr_def)
      then have "sp_inv X (set_ptr i None h1)" using same_uses_ok [OF h1(2), of "set_ptr i None h1"] by (simp add: set_ptr_def)
      then show ?thesis using False None h1 pj by (auto simp: sp_assign_def ptr_at_def set_ptr_def)
    next
      case (Some r)
      then obtain R where R: "Refs h1 r = Some R" using held_ref [OF h1(2) l(2)] pj False by auto
      have "uses (set_ptr i (Some r) h1) q = uses h1 q + (if q = r then 1 else 0)" for q using uses_set [OF l(1), of "Some r" q] l(3) by (simp add: set_ptr_def)
      from IncCounter_ok [OF h1(2) R this] show ?thesis using False Some h1 pj by (auto simp: sp_assign_def ptr_at_def set_ptr_def)
    qed
  qed (use assms in \<open>simp add: sp_assign_def\<close>)
  show "\<exists>h'. sp_assign_move i j m h = Some (m, h') \<and> sp_inv X h' \<and> length (Ptrs h') = length (Ptrs h)"
  proof (cases "i = j")
    case False
    let ?h = "set_ptr i (Ptrs h1 ! j) h1"
    have "uses (set_ptr j None ?h) q = uses h1 q" for q
      using uses_set [of j ?h None q] uses_set [OF l(1), of "Ptrs h1 ! j" q] l False by (simp add: set_ptr_def)
    then have "sp_inv X (set_ptr j None ?h)" using same_uses_ok [OF h1(2), of "set_ptr j None ?h"] by (simp add: set_ptr_def)
    then show ?thesis using False h1 by (auto simp: sp_assign_move_def ptr_at_def set_ptr_def)
  qed (use assms in \<open>simp add: sp_assign_move_def\<close>)
qed

lemma sp_make_ok:
  assumes "sp_inv X h" "length (Ptrs h) + 1 < 4294967296" "x \<in> X"
  shows "\<exists>h'. sp_make (Some x) m h = Some (snd (new m), h') \<and> length (Ptrs h') = length (Ptrs h) + 1 \<and> sp_inv (if fst (new m) then X - {x} else X) h'"
  using Reset_new_ok [OF add_null_ok [OF assms(1)], of "length (Ptrs h)" x m] assms(2,3) by (auto simp: sp_make_def add_ptr_def)

lemma MakeShared_ptr_ok:
  assumes inv: "sp_inv X h" and m: "False \<notin> set m"
  shows "\<exists>m' h'. MakeShared_ptr m h = Some (m', h') \<and> set m' \<subseteq> set m \<and> length (Ptrs h') = length (Ptrs h) + 1 \<and> sp_inv X h'"
proof -
  obtain m1 where m1: "new m = (True, m1)" "set m1 \<subseteq> set m" using new_good [OF m] by blast
  obtain m2 where m2: "new m1 = (True, m2)" "set m2 \<subseteq> set m1" using new_good [of m1] m m1(2) by blast
  let ?r = "NextAddr h" let ?x = "Suc (NextAddr h)"
  let ?h = "h\<lparr>Refs := (Refs h)(?r \<mapsto> \<lparr>Counter = 1, Object = Some ?x\<rparr>), NextAddr := Suc ?x, Objects := insert ?x (Objects h), Ptrs := Ptrs h @ [Some ?r]\<rparr>"
  have e: "MakeShared_ptr m h = Some (m2, ?h)"
    using m1 m2 by (simp add: MakeShared_ptr_def Let_def make_reference_def new_object_def SetObject_def add_ptr_def)
  let ?g = "h\<lparr>Objects := insert ?x (Objects h), NextAddr := Suc ?x\<rparr>"
  have x: "?x \<notin> Objects h" using sp_invD(8) [OF inv, of ?x] by auto
  have g: "sp_inv (insert ?x X) ?g" using fresh_object_ok [OF inv, of ?x "Suc ?x"] by simp
  have new: "Refs h ?r = None" using sp_invD(3) [OF inv, of ?r] by (cases "Refs h ?r") auto
  then have u: "uses h ?r = 0" using sp_invD(1) [OF inv, of ?r] by simp
  have "sp_inv (insert ?x X - {?x}) ?h"
    by (rule new_reference_ok [OF g, where r = ?r]) (use new u in \<open>simp_all add: uses_def make_reference_def\<close>)
  moreover have "?x \<notin> X" using x sp_invD(6) [OF inv] by blast
  ultimately show ?thesis using e m1 m2 by auto
qed

lemma sp_step_ok:
  assumes inv: "sp_inv {} h" and m: "False \<notin> set m" and n: "length (Ptrs h) + op_adds c < 4294967296" and u: "\<forall>i \<in> op_uses c. i < length (Ptrs h)"
  shows "\<exists>m' h'. sp_step c m h = Some (m', h') \<and> sp_inv {} h' \<and> set m' \<subseteq> set m \<and> length (Ptrs h') = length (Ptrs h) + op_adds c"
proof -
  obtain x h1 where x: "new_object h = (x, h1)" by fastforce
  note X = new_object_ok [OF inv x]
  have m1: "fst (new m)" "set (snd (new m)) \<subseteq> set m" using new_good [OF m] by auto
  show ?thesis
  proof (cases c)
    case SpMake
    then show ?thesis using sp_make_ok [of "{x}" h1 x m] X x n m1 by auto
  next
    case SpShared
    then show ?thesis using MakeShared_ptr_ok [OF inv m] by auto
  next
    case (SpCopy j)
    then show ?thesis using sp_copy_ok [OF inv, of j] u by auto
  next
    case (SpMove j)
    then show ?thesis using sp_move_ok [OF inv, of j] u by auto
  next
    case (SpAssign i j)
    then show ?thesis using sp_assign_ok(1) [OF inv, of i j m] u n by auto
  next
    case (SpAssignMove i j)
    then show ?thesis using sp_assign_ok(2) [OF inv, of i j m] u n by auto
  next
    case (SpReset i)
    then show ?thesis using Reset_null_ok [OF inv, of i m] u n by auto
  next
    case (SpResetNew i)
    then show ?thesis using Reset_new_ok [of "{x}" h1 i x m] X x u n m1 by auto
  qed
qed

lemma sp_run_ok:
  assumes "sp_inv {} h" "False \<notin> set m" "length (Ptrs h) + length cs < 4294967296" "ops_ok (length (Ptrs h)) cs"
  shows "\<exists>m' h'. sp_run cs m h = Some (m', h') \<and> sp_inv {} h'"
  using assms
proof (induction cs arbitrary: m h)
  case (Cons c cs)
  have a: "op_adds c \<le> 1" by (cases c) simp_all
  from sp_step_ok [OF Cons.prems(1,2), of c] Cons.prems(3,4) a obtain m1 h1 where
    s: "sp_step c m h = Some (m1, h1)" "sp_inv {} h1" "set m1 \<subseteq> set m" "length (Ptrs h1) = length (Ptrs h) + op_adds c" by auto
  from Cons.IH [OF s(2), of m1] s Cons.prems(2-4) a show ?case by auto
qed simp

lemma sp_empty_ok: "sp_inv {} sp_empty"
  by (simp add: sp_inv_def sp_empty_def owned_def uses_def)

lemma sp_inv_alive:
  assumes "sp_inv {} h"
  shows "x \<in> Objects h \<longleftrightarrow> (\<exists>p \<in> set (Ptrs h). sp_Get p h = Some (Some x))"
    "p \<in> set (Ptrs h) \<Longrightarrow> \<exists>y. sp_Get p h = Some y \<and> (p \<noteq> None \<longrightarrow> y \<noteq> None) \<and> sp_GetCounter p h = Some (if p = None then 0 else of_nat (count_list (Ptrs h) p))"
proof -
  have ref: "Some r \<in> set (Ptrs h) \<longleftrightarrow> Refs h r \<noteq> None" for r
    using sp_invD(1) [OF assms, of r] count_list_0_iff [of "Ptrs h" "Some r"] by (auto simp: uses_def)
  have "x \<in> Objects h \<longleftrightarrow> x \<in> owned h" using sp_invD(6) [OF assms] by simp
  also have "\<dots> \<longleftrightarrow> (\<exists>r R. Some r \<in> set (Ptrs h) \<and> Refs h r = Some R \<and> Object R = Some x)" unfolding owned_def using ref by blast
  also have "\<dots> \<longleftrightarrow> (\<exists>p \<in> set (Ptrs h). sp_Get p h = Some (Some x))"
    unfolding sp_Get_def by (auto split: option.splits)
  finally show "x \<in> Objects h \<longleftrightarrow> (\<exists>p \<in> set (Ptrs h). sp_Get p h = Some (Some x))" .
  show "\<exists>y. sp_Get p h = Some y \<and> (p \<noteq> None \<longrightarrow> y \<noteq> None) \<and> sp_GetCounter p h = Some (if p = None then 0 else of_nat (count_list (Ptrs h) p))"
    if p: "p \<in> set (Ptrs h)"
  proof (cases p)
    case (Some r)
    then obtain R where R: "Refs h r = Some R" using ref p by blast
    then show ?thesis using Some sp_invD(2,4) [OF assms R] by (simp add: sp_Get_def sp_GetCounter_def uses_def)
  qed (simp add: sp_Get_def sp_GetCounter_def)
qed

section \<open>Properties\<close>

text \<open>
  Claim C12. Counted references keep objects alive exactly as long as needed: every program of constructions, copies, moves, assignments and
  resets of pointers, self-assignments included, runs without a failed assertion or a use of freed memory. After it an object is alive exactly when some variable
  points to it, and the counter that a variable sees is the number of variables with the same reference. The program makes fewer than \<open>2 ^ 32\<close> pointers and its allocations succeed.
\<close>

theorem shared_ptr_lifetime:
  assumes "ops_ok 0 cs" "length cs < 4294967296" "False \<notin> set m"
  shows "\<exists>m' h. sp_run cs m sp_empty = Some (m', h) \<and>
    (\<forall>x. x \<in> Objects h \<longleftrightarrow> (\<exists>p \<in> set (Ptrs h). sp_Get p h = Some (Some x))) \<and>
    (\<forall>p \<in> set (Ptrs h). \<exists>y. sp_Get p h = Some y \<and> (p \<noteq> None \<longrightarrow> y \<noteq> None) \<and>
      sp_GetCounter p h = Some (if p = None then 0 else of_nat (count_list (Ptrs h) p)))"
proof -
  have "Ptrs sp_empty = []" by (simp add: sp_empty_def)
  then obtain m' h where "sp_run cs m sp_empty = Some (m', h)" "sp_inv {} h" using sp_run_ok [OF sp_empty_ok assms(3), of cs] assms by auto
  then show ?thesis using sp_inv_alive [of h] by blast
qed

theorem shared_ptr_lifetime_witness:
  "\<exists>m h. sp_run [SpShared, SpCopy 0, SpMove 1, SpReset 0, SpAssign 0 2, SpAssign 0 0, SpResetNew 2] [] sp_empty = Some (m, h) \<and>
     (\<forall>x. x \<in> Objects h \<longleftrightarrow> (\<exists>p \<in> set (Ptrs h). sp_Get p h = Some (Some x)))"
  using shared_ptr_lifetime [of "[SpShared, SpCopy 0, SpMove 1, SpReset 0, SpAssign 0 2, SpAssign 0 0, SpResetNew 2]" "[]"] by auto

text \<open>
  Two failures of the allocator are not handled. When \<open>MakeShared\<close> cannot allocate the object, it deletes the reference it made
  although the counter is one, and the assertion in the destructor fails. When \<open>Reset\<close> cannot allocate the reference, the object that was handed over stays
  alive and no variable points to it.
\<close>

theorem shared_ptr_allocation_failures:
  assumes inv: "sp_inv {} h" and i: "i < length (Ptrs h)" "length (Ptrs h) < 4294967296"
  shows "MakeShared_ptr (True # False # m) h = None \<and>
    (\<exists>h'. sp_step (SpResetNew i) (False # m) h = Some (m, h') \<and> fst (new_object h) \<in> Objects h' \<and>
      (\<forall>p \<in> set (Ptrs h'). sp_Get p h' \<noteq> Some (Some (fst (new_object h)))))"
proof
  show "MakeShared_ptr (True # False # m) h = None"
    by (simp add: MakeShared_ptr_def delete_reference_def make_reference_def Let_def)
  obtain x h1 where x: "new_object h = (x, h1)" by fastforce
  note X = new_object_ok [OF inv x]
  from Reset_new_ok [of "{x}" h1 i x "False # m"] X i obtain h' where
    h': "sp_Reset i (Some x) (False # m) h1 = Some (m, h')" "sp_inv {x} h'" by auto
  have "sp_Get p h' \<noteq> Some (Some x)" for p
    using sp_invD(7) [OF h'(2)] by (auto simp: sp_Get_def owned_def split: option.splits)
  moreover have "x \<in> Objects h'" using sp_invD(6) [OF h'(2)] by simp
  ultimately show "\<exists>h'. sp_step (SpResetNew i) (False # m) h = Some (m, h') \<and> fst (new_object h) \<in> Objects h' \<and>
      (\<forall>p \<in> set (Ptrs h'). sp_Get p h' \<noteq> Some (Some (fst (new_object h))))" using x h'(1) by auto
qed

theorem shared_ptr_allocation_failures_witness:
  "MakeShared_ptr [True, False] (add_ptr None sp_empty) = None \<and>
   (\<exists>h'. sp_step (SpResetNew 0) [False] (add_ptr None sp_empty) = Some ([], h') \<and> 0 \<in> Objects h')"
proof -
  have "0 < length (Ptrs (add_ptr None sp_empty))" "length (Ptrs (add_ptr None sp_empty)) < 4294967296" by (simp_all add: add_ptr_def sp_empty_def)
  from shared_ptr_allocation_failures [OF add_null_ok [OF sp_empty_ok] this, of "[]"] show ?thesis
    by (simp add: new_object_def add_ptr_def sp_empty_def) blast
qed

end
