(* ===== verification/Bitmap.thy ===== *)
theory Bitmap
  imports Errors "HOL-Library.Monad_Syntax"
begin

text \<open>
  The bitmap of \<^verbatim>\<open>src/core/bitmap.cpp\<close> on the atomic bit operations of \<^verbatim>\<open>src/core/bitops.cpp\<close>. The memory behind the buffer pointer is a
  list of machine words; \<open>None\<close> is an access behind its end.
\<close>

unbundle bit_operations_syntax

section \<open>Bit operations of the kernel\<close>

definition kapi_set_bit :: "nat \<Rightarrow> uint64_t list \<Rightarrow> uint64_t list option" where
  "kapi_set_bit nr addr = guard (nr div 64 < length addr) (Some (addr[nr div 64 := set_bit (nr mod 64) (addr ! (nr div 64))]))"

definition kapi_clear_bit :: "nat \<Rightarrow> uint64_t list \<Rightarrow> uint64_t list option" where
  "kapi_clear_bit nr addr = guard (nr div 64 < length addr) (Some (addr[nr div 64 := unset_bit (nr mod 64) (addr ! (nr div 64))]))"

definition kapi_test_and_set_bit :: "nat \<Rightarrow> uint64_t list \<Rightarrow> (bool \<times> uint64_t list) option" where
  "kapi_test_and_set_bit nr addr = do { ws \<leftarrow> kapi_set_bit nr addr; Some (bit (addr ! (nr div 64)) (nr mod 64), ws) }"

definition kapi_test_and_clear_bit :: "nat \<Rightarrow> uint64_t list \<Rightarrow> (bool \<times> uint64_t list) option" where
  "kapi_test_and_clear_bit nr addr = do { ws \<leftarrow> kapi_clear_bit nr addr; Some (bit (addr ! (nr div 64)) (nr mod 64), ws) }"

section \<open>The bitmap\<close>

record Bitmap =
  Buf :: "uint64_t list"
  bmSize :: nat
  BitSize :: nat

definition make_Bitmap :: "uint64_t list \<Rightarrow> nat \<Rightarrow> Bitmap" where
  "make_Bitmap buf size' = \<lparr>Buf = buf, bmSize = size', BitSize = 8 * size'\<rparr>"

definition bm_SetBit :: "nat \<Rightarrow> Bitmap \<Rightarrow> (err \<times> Bitmap) option" where
  "bm_SetBit b bm =
     (if b \<ge> BitSize bm then Some (Overflow, bm) else do { ws \<leftarrow> kapi_set_bit b (Buf bm); Some (Success, bm\<lparr>Buf := ws\<rparr>) })"

definition bm_ClearBit :: "nat \<Rightarrow> Bitmap \<Rightarrow> (err \<times> Bitmap) option" where
  "bm_ClearBit b bm =
     (if b \<ge> BitSize bm then Some (Overflow, bm) else do { ws \<leftarrow> kapi_clear_bit b (Buf bm); Some (Success, bm\<lparr>Buf := ws\<rparr>) })"

text \<open>The old value is only set with success.\<close>

definition bm_TestAndSetBit :: "nat \<Rightarrow> bool \<Rightarrow> Bitmap \<Rightarrow> (err \<times> bool \<times> Bitmap) option" where
  "bm_TestAndSetBit b oldValue bm =
     (if b \<ge> BitSize bm then Some (Overflow, oldValue, bm)
      else do { (oldValue, ws) \<leftarrow> kapi_test_and_set_bit b (Buf bm); Some (Success, oldValue, bm\<lparr>Buf := ws\<rparr>) })"

definition bm_TestAndClearBit :: "nat \<Rightarrow> bool \<Rightarrow> Bitmap \<Rightarrow> (err \<times> bool \<times> Bitmap) option" where
  "bm_TestAndClearBit b oldValue bm =
     (if b \<ge> BitSize bm then Some (Overflow, oldValue, bm)
      else do { (oldValue, ws) \<leftarrow> kapi_test_and_clear_bit b (Buf bm); Some (Success, oldValue, bm\<lparr>Buf := ws\<rparr>) })"

text \<open>The search inside the word at \<open>k\<close>: the loop over its bits, and the whole.\<close>

fun find_bit_loop :: "nat \<Rightarrow> nat list \<Rightarrow> uint64_t list \<Rightarrow> (err \<times> nat \<times> uint64_t list) option" where
  "find_bit_loop k [] ws = Some (NotFound, 0, ws)"
| "find_bit_loop k (i # is) ws = do {
     (old, ws) \<leftarrow> kapi_test_and_set_bit (64 * k + i) ws;
     if old = False then Some (Success, i, ws) else find_bit_loop k is ws }"

definition FindSetZeroBit_word :: "nat \<Rightarrow> nat \<Rightarrow> uint64_t list \<Rightarrow> (err \<times> nat \<times> uint64_t list) option" where
  "FindSetZeroBit_word k maxBits ws =
     (if maxBits > 64 then Some (Overflow, 0, ws)
      else guard (k < length ws)
        (if ws ! k = NOT 0 then Some (NotFound, 0, ws) else find_bit_loop k [0..<maxBits] ws))"

fun FindSetZeroBit_loop :: "nat list \<Rightarrow> uint64_t list \<Rightarrow> (err \<times> nat \<times> uint64_t list) option" where
  "FindSetZeroBit_loop [] ws = Some (NotFound, 0, ws)"
| "FindSetZeroBit_loop (i # is) ws = do {
     (err, foundBit, ws) \<leftarrow> FindSetZeroBit_word i 64 ws;
     if err = NotFound then FindSetZeroBit_loop is ws
     else if err \<noteq> Success then Some (err, 0, ws)
     else Some (Success, i * 64 + foundBit, ws) }"

definition bm_FindSetZeroBit :: "nat \<Rightarrow> Bitmap \<Rightarrow> (err \<times> nat \<times> Bitmap) option" where
  "bm_FindSetZeroBit b bm = do {
     let restBits = BitSize bm mod 64;
     (err, found, ws) \<leftarrow> FindSetZeroBit_loop [0..<BitSize bm div 64] (Buf bm);
     if err \<noteq> NotFound then Some (err, if err = Success then found else b, bm\<lparr>Buf := ws\<rparr>)
     else do {
       (err, foundBit, ws) \<leftarrow> FindSetZeroBit_word (BitSize bm div 64) restBits ws;
       if err \<noteq> Success then Some (err, b, bm\<lparr>Buf := ws\<rparr>)
       else Some (Success, BitSize bm div 64 * 64 + foundBit, bm\<lparr>Buf := ws\<rparr>) } }"

section \<open>The set that a bitmap represents\<close>

definition word_bit :: "uint64_t list \<Rightarrow> nat \<Rightarrow> bool" where
  "word_bit ws b = bit (ws ! (b div 64)) (b mod 64)"

definition bits :: "Bitmap \<Rightarrow> nat set" where
  "bits bm = {b. b < BitSize bm \<and> word_bit (Buf bm) b}"

definition bitmap_ok :: "Bitmap \<Rightarrow> bool" where
  "bitmap_ok bm \<longleftrightarrow> BitSize bm \<le> 64 * length (Buf bm)"

lemma word_bit_update:
  assumes "b div 64 < length ws"
  shows "word_bit (ws[b div 64 := set_bit (b mod 64) (ws ! (b div 64))]) c \<longleftrightarrow> c = b \<or> word_bit ws c"
    "word_bit (ws[b div 64 := unset_bit (b mod 64) (ws ! (b div 64))]) c \<longleftrightarrow> c \<noteq> b \<and> word_bit ws c"
proof -
  have eq: "c = b \<longleftrightarrow> c div 64 = b div 64 \<and> c mod 64 = b mod 64" by (metis div_mult_mod_eq)
  have lt: "b mod 64 < 64" by simp
  show "word_bit (ws[b div 64 := set_bit (b mod 64) (ws ! (b div 64))]) c \<longleftrightarrow> c = b \<or> word_bit ws c"
    unfolding word_bit_def eq using assms lt by (cases "c div 64 = b div 64") (auto simp: bit_set_bit_iff simp del: mod_less_divisor)
  show "word_bit (ws[b div 64 := unset_bit (b mod 64) (ws ! (b div 64))]) c \<longleftrightarrow> c \<noteq> b \<and> word_bit ws c"
    unfolding word_bit_def eq using assms by (cases "c div 64 = b div 64") (auto simp: bit_unset_bit_iff)
qed

lemma in_words: "bitmap_ok bm \<Longrightarrow> b < BitSize bm \<Longrightarrow> b div 64 < length (Buf bm)"
  by (simp add: bitmap_ok_def less_mult_imp_div_less mult.commute)

lemma SetBit_ok:
  assumes "bitmap_ok bm"
  shows "\<exists>bm'. bm_SetBit b bm = Some (if b < BitSize bm then Success else Overflow, bm') \<and> bitmap_ok bm' \<and> BitSize bm' = BitSize bm \<and>
    bits bm' = (if b < BitSize bm then insert b (bits bm) else bits bm)"
  using assms in_words [OF assms, of b] word_bit_update(1) [of b "Buf bm"]
  by (auto simp: bm_SetBit_def kapi_set_bit_def bits_def bitmap_ok_def)

lemma ClearBit_ok:
  assumes "bitmap_ok bm"
  shows "\<exists>bm'. bm_ClearBit b bm = Some (if b < BitSize bm then Success else Overflow, bm') \<and> bitmap_ok bm' \<and> BitSize bm' = BitSize bm \<and>
    bits bm' = (if b < BitSize bm then bits bm - {b} else bits bm)"
  using assms in_words [OF assms, of b] word_bit_update(2) [of b "Buf bm"]
  by (auto simp: bm_ClearBit_def kapi_clear_bit_def bits_def bitmap_ok_def)

lemma TestAndSetBit_eq:
  assumes "bitmap_ok bm"
  shows "bm_TestAndSetBit b v bm = map_option (\<lambda>(e, bm'). (e, if b < BitSize bm then b \<in> bits bm else v, bm')) (bm_SetBit b bm)"
    "bm_TestAndClearBit b v bm = map_option (\<lambda>(e, bm'). (e, if b < BitSize bm then b \<in> bits bm else v, bm')) (bm_ClearBit b bm)"
  using in_words [OF assms, of b]
  by (auto simp: bm_TestAndSetBit_def bm_TestAndClearBit_def bm_SetBit_def bm_ClearBit_def kapi_test_and_set_bit_def kapi_test_and_clear_bit_def
      kapi_set_bit_def kapi_clear_bit_def bits_def word_bit_def)

section \<open>The search\<close>

lemma set_bit_same: "bit w n \<Longrightarrow> set_bit n w = (w :: uint64_t)"
  by (rule bit_eqI) (auto simp: bit_set_bit_iff)

lemma find_bit_loop_ok:
  assumes "k < length ws" "\<forall>i \<in> set is. i < 64"
  shows "find_bit_loop k is ws = (case find (\<lambda>i. \<not> bit (ws ! k) i) is of
    None \<Rightarrow> Some (NotFound, 0, ws) | Some i \<Rightarrow> Some (Success, i, ws[k := set_bit i (ws ! k)]))"
  using assms(2)
proof (induction "is")
  case (Cons i is')
  have d: "(64 * k + i) div 64 = k" "(64 * k + i) mod 64 = i" using Cons.prems by simp_all
  show ?case using Cons assms(1) by (auto simp: kapi_test_and_set_bit_def kapi_set_bit_def d set_bit_same)
qed simp

text \<open>The first zero among the first \<open>n\<close> bits of the word at \<open>k\<close>, or none.\<close>

lemma FindSetZeroBit_word_ok:
  assumes "k < length ws" "n \<le> 64"
  shows "if \<forall>i<n. bit (ws ! k) i then FindSetZeroBit_word k n ws = Some (NotFound, 0, ws)
    else \<exists>i<n. FindSetZeroBit_word k n ws = Some (Success, i, ws[k := set_bit i (ws ! k)]) \<and> \<not> bit (ws ! k) i \<and> (\<forall>j<i. bit (ws ! k) j)"
proof -
  let ?f = "find (\<lambda>i. \<not> bit (ws ! k) i) [0..<n]"
  have l: "find_bit_loop k [0..<n] ws = (case ?f of None \<Rightarrow> Some (NotFound, 0, ws) | Some i \<Rightarrow> Some (Success, i, ws[k := set_bit i (ws ! k)]))"
    using assms by (intro find_bit_loop_ok) auto
  show ?thesis
  proof (cases ?f)
    case None
    then have "\<forall>i<n. bit (ws ! k) i" by (auto simp: find_None_iff)
    then show ?thesis using l None assms by (simp add: FindSetZeroBit_word_def)
  next
    case (Some i)
    then have i: "i < n" "\<not> bit (ws ! k) i" "\<forall>j<i. bit (ws ! k) j" by (auto simp: find_Some_iff)
    have "ws ! k \<noteq> NOT 0" using i assms(2) by (auto simp: bit_not_iff)
    then show ?thesis using l Some i assms by (auto simp: FindSetZeroBit_word_def)
  qed
qed

lemma word_bits: "i < 64 \<Longrightarrow> word_bit ws (64 * k + i) = bit (ws ! k) i"
  by (simp add: word_bit_def)

lemma full_words: "(\<forall>i<64. bit (ws ! k) i) \<longleftrightarrow> (\<forall>b. 64 * k \<le> b \<and> b < 64 * k + 64 \<longrightarrow> word_bit ws b)"
proof (intro iffI allI impI)
  fix b assume a: "\<forall>i<64. bit (ws ! k) i" "64 * k \<le> b \<and> b < 64 * k + 64"
  then obtain i where i: "b = 64 * k + i" "i < 64" by (metis add_less_cancel_left le_add_diff_inverse)
  then show "word_bit ws b" using a(1) word_bits by simp
next
  fix i :: nat assume "\<forall>b. 64 * k \<le> b \<and> b < 64 * k + 64 \<longrightarrow> word_bit ws b" "i < 64"
  then show "bit (ws ! k) i" using word_bits [of i ws k] by simp
qed

text \<open>What the search promises about the bits below \<open>n\<close>.\<close>

definition first_zero :: "nat \<Rightarrow> uint64_t list \<Rightarrow> (err \<times> nat \<times> uint64_t list) option \<Rightarrow> bool" where
  "first_zero n ws r \<longleftrightarrow> (if \<forall>b<n. word_bit ws b then r = Some (NotFound, 0, ws)
     else \<exists>b<n. r = Some (Success, b, ws[b div 64 := set_bit (b mod 64) (ws ! (b div 64))]) \<and> \<not> word_bit ws b \<and> (\<forall>c<b. word_bit ws c))"

lemma first_zero_mono:
  assumes "first_zero n ws (Some (Success, c, ws'))" "n \<le> n'"
  shows "first_zero n' ws (Some (Success, c, ws'))"
proof -
  have ne: "\<not> (\<forall>b<n. word_bit ws b)"
  proof
    assume "\<forall>b<n. word_bit ws b"
    then have "Some (Success, c, ws') = Some (NotFound, 0, ws)" using assms(1) unfolding first_zero_def by simp
    then show False by (simp add: error_codes)
  qed
  then have c: "c < n" "\<not> word_bit ws c" "\<forall>b<c. word_bit ws b" "ws' = ws[c div 64 := set_bit (c mod 64) (ws ! (c div 64))]"
    using assms(1) unfolding first_zero_def if_not_P [OF ne] by blast+
  then have "c < n'" using assms(2) by simp
  moreover from this c(2) have ne': "\<not> (\<forall>b<n'. word_bit ws b)" by blast
  ultimately show ?thesis using c unfolding first_zero_def if_not_P [OF ne'] by blast
qed

lemma first_zero_word:
  assumes k: "k < length ws" "n \<le> 64" and before: "\<forall>b<64 * k. word_bit ws b"
  shows "first_zero (64 * k + n) ws (map_option (\<lambda>(e, i, ws). (e, if e = Success then 64 * k + i else i, ws)) (FindSetZeroBit_word k n ws))"
proof (cases "\<forall>i<n. bit (ws ! k) i")
  case True
  have "word_bit ws b" if "b < 64 * k + n" for b
  proof (cases "b < 64 * k")
    case False
    then obtain i where "b = 64 * k + i" by (metis le_Suc_ex not_less)
    then show ?thesis using that True k(2) word_bits [of i ws k] by simp
  qed (use before in simp)
  then show ?thesis using True FindSetZeroBit_word_ok [OF k] by (simp add: first_zero_def error_codes)
next
  case False
  then obtain i where i: "i < n" "FindSetZeroBit_word k n ws = Some (Success, i, ws[k := set_bit i (ws ! k)])" "\<not> bit (ws ! k) i" "\<forall>j<i. bit (ws ! k) j"
    using FindSetZeroBit_word_ok [OF k] unfolding if_not_P [OF False] by blast
  have d: "(64 * k + i) div 64 = k" "(64 * k + i) mod 64 = i" and l: "i < 64" using i(1) k(2) by simp_all
  have below: "word_bit ws b" if "b < 64 * k + i" for b
  proof (cases "b < 64 * k")
    case False
    then obtain j where "b = 64 * k + j" by (metis le_Suc_ex not_less)
    then show ?thesis using that i(4) l word_bits [of j ws k] by simp
  qed (use before in simp)
  have "\<not> word_bit ws (64 * k + i)" using word_bits [OF l] i(3) by simp
  then show ?thesis using i(1,2) below d unfolding first_zero_def by (auto intro!: exI [of _ "64 * k + i"])
qed

lemma first_zero_loop:
  assumes "a + n \<le> length ws" "\<forall>b<64 * a. word_bit ws b"
  shows "first_zero (64 * (a + n)) ws (FindSetZeroBit_loop [a..<a + n] ws)"
  using assms
proof (induction n arbitrary: a)
  case 0
  then show ?case by (simp add: first_zero_def)
next
  case (Suc n)
  have u: "[a..<a + Suc n] = a # [Suc a..<Suc a + n]" by (simp add: upt_rec)
  have k: "a < length ws" using Suc.prems(1) by simp
  note w = FindSetZeroBit_word_ok [OF k, of 64]
  show ?case
  proof (cases "\<forall>i<64. bit (ws ! a) i")
    case True
    then have "\<forall>b<64 * Suc a. word_bit ws b" using Suc.prems(2) full_words [of ws a] by (metis add.commute linorder_not_less mult_Suc_right)
    from Suc.IH [OF _ this] Suc.prems(1) have "first_zero (64 * (a + Suc n)) ws (FindSetZeroBit_loop [Suc a..<Suc a + n] ws)" by (metis add_Suc_shift)
    moreover have "FindSetZeroBit_word a 64 ws = Some (NotFound, 0, ws)" using w True by simp
    ultimately show ?thesis unfolding u by (simp del: upt_Suc)
  next
    case False
    then obtain i where i: "i < 64" "FindSetZeroBit_word a 64 ws = Some (Success, i, ws[a := set_bit i (ws ! a)])"
      using w unfolding if_not_P [OF False] by blast
    have "first_zero (64 * a + 64) ws (Some (Success, 64 * a + i, ws[a := set_bit i (ws ! a)]))"
      using first_zero_word [OF k _ Suc.prems(2), of 64] i(2) by simp
    moreover have "FindSetZeroBit_loop [a..<a + Suc n] ws = Some (Success, 64 * a + i, ws[a := set_bit i (ws ! a)])"
      using i(2) unfolding u by (simp add: error_codes mult.commute)
    ultimately show ?thesis using first_zero_mono [of "64 * a + 64"] by simp
  qed
qed

lemma FindSetZeroBit_ok:
  assumes ok: "bitmap_ok bm"
  shows "if \<exists>b<BitSize bm. b \<notin> bits bm
    then \<exists>c bm'. bm_FindSetZeroBit b0 bm = Some (Success, c, bm') \<and> c < BitSize bm \<and> c \<notin> bits bm \<and> (\<forall>b<c. b \<in> bits bm) \<and>
      bits bm' = insert c (bits bm) \<and> BitSize bm' = BitSize bm \<and> bitmap_ok bm'
    else bm_FindSetZeroBit b0 bm = (if BitSize bm div 64 < length (Buf bm) then Some (NotFound, b0, bm) else None)"
proof -
  let ?ws = "Buf bm" and ?q = "BitSize bm div 64" and ?r = "BitSize bm mod 64"
  have n: "64 * ?q + ?r = BitSize bm" by simp
  have q: "?q \<le> length ?ws" using ok by (simp add: bitmap_ok_def)
  have loop: "first_zero (64 * ?q) ?ws (FindSetZeroBit_loop [0..<?q] ?ws)" using first_zero_loop [of 0 ?q ?ws] q by simp
  have b: "b \<in> bits bm \<longleftrightarrow> b < BitSize bm \<and> word_bit ?ws b" for b by (simp add: bits_def)
  have found: "\<exists>c bm'. bm_FindSetZeroBit b0 bm = Some (Success, c, bm') \<and> c < BitSize bm \<and> c \<notin> bits bm \<and> (\<forall>b<c. b \<in> bits bm) \<and>
      bits bm' = insert c (bits bm) \<and> BitSize bm' = BitSize bm \<and> bitmap_ok bm'"
    if "bm_FindSetZeroBit b0 bm = Some (Success, c, bm\<lparr>Buf := ?ws[c div 64 := set_bit (c mod 64) (?ws ! (c div 64))]\<rparr>)"
      "c < BitSize bm" "\<not> word_bit ?ws c" "\<forall>d<c. word_bit ?ws d" for c
    using that word_bit_update(1) [OF in_words [OF ok that(2)]] ok by (auto simp: bits_def bitmap_ok_def)
  show ?thesis
  proof (cases "\<forall>b<64 * ?q. word_bit ?ws b")
    case False
    then obtain c where "c < 64 * ?q" "FindSetZeroBit_loop [0..<?q] ?ws = Some (Success, c, ?ws[c div 64 := set_bit (c mod 64) (?ws ! (c div 64))])"
      "\<not> word_bit ?ws c" "\<forall>d<c. word_bit ?ws d" using loop unfolding first_zero_def by (simp only: if_False) blast
    moreover from this have "c < BitSize bm" using n by linarith
    ultimately show ?thesis using found [of c] b by (auto simp: bm_FindSetZeroBit_def error_codes)
  next
    case True
    then have l: "FindSetZeroBit_loop [0..<?q] ?ws = Some (NotFound, 0, ?ws)" using loop by (simp add: first_zero_def)
    show ?thesis
    proof (cases "?q < length ?ws")
      case k: True
      obtain e i ws' where w: "FindSetZeroBit_word ?q ?r ?ws = Some (e, i, ws')" using FindSetZeroBit_word_ok [OF k, of ?r] by (auto split: if_splits)
      have z: "first_zero (BitSize bm) ?ws (Some (e, if e = Success then 64 * ?q + i else i, ws'))"
        using first_zero_word [OF k _ True, of ?r] w n by simp
      show ?thesis
      proof (cases "\<forall>b<BitSize bm. word_bit ?ws b")
        case all: True
        then have "e = NotFound" "ws' = ?ws" using z by (simp_all add: first_zero_def)
        then show ?thesis using k l w all b by (simp add: bm_FindSetZeroBit_def error_codes)
      next
        case False
        then obtain c where "c < BitSize bm" "e = Success" "64 * ?q + i = c" "ws' = ?ws[c div 64 := set_bit (c mod 64) (?ws ! (c div 64))]"
          "\<not> word_bit ?ws c" "\<forall>d<c. word_bit ?ws d" using z unfolding first_zero_def if_not_P [OF False] by auto
        then show ?thesis using found [of c] l w b by (auto simp: bm_FindSetZeroBit_def error_codes mult.commute)
      qed
    next
      case False
      then have e: "?q = length ?ws" using q by simp
      then have "?r = 0" using ok n unfolding bitmap_ok_def by linarith
      then have "\<forall>b<BitSize bm. b \<in> bits bm" using True n b by simp
      moreover have "FindSetZeroBit_word ?q ?r ?ws = None" using e by (simp add: FindSetZeroBit_word_def guard_def)
      ultimately show ?thesis using l e by (simp add: bm_FindSetZeroBit_def)
    qed
  qed
qed

section \<open>Properties\<close>

text \<open>
  Claim C28. A bitmap is a finite set of numbers: setting and clearing a bit add and remove it, the variants that test report whether it was there, and a number out of range is
  refused with no change. The search takes the smallest number that is missing and adds it.
  When none is missing it reports that, provided that the memory goes on behind the bitmap: it looks at the word there.
\<close>

theorem bitmap_is_set:
  assumes "bitmap_ok bm"
  shows "(\<exists>bm'. bm_SetBit b bm = Some (if b < BitSize bm then Success else Overflow, bm') \<and> bitmap_ok bm' \<and>
      bits bm' = (if b < BitSize bm then insert b (bits bm) else bits bm) \<and>
      bm_TestAndSetBit b v bm = Some (if b < BitSize bm then Success else Overflow, if b < BitSize bm then b \<in> bits bm else v, bm')) \<and>
    (\<exists>bm'. bm_ClearBit b bm = Some (if b < BitSize bm then Success else Overflow, bm') \<and> bitmap_ok bm' \<and>
      bits bm' = (if b < BitSize bm then bits bm - {b} else bits bm) \<and>
      bm_TestAndClearBit b v bm = Some (if b < BitSize bm then Success else Overflow, if b < BitSize bm then b \<in> bits bm else v, bm')) \<and>
    (if \<exists>b<BitSize bm. b \<notin> bits bm
     then \<exists>c bm'. bm_FindSetZeroBit b bm = Some (Success, c, bm') \<and> c < BitSize bm \<and> c \<notin> bits bm \<and> (\<forall>b<c. b \<in> bits bm) \<and> bits bm' = insert c (bits bm) \<and> bitmap_ok bm'
     else bm_FindSetZeroBit b bm = (if BitSize bm div 64 < length (Buf bm) then Some (NotFound, b, bm) else None))"
proof (intro conjI)
  show "\<exists>bm'. bm_SetBit b bm = Some (if b < BitSize bm then Success else Overflow, bm') \<and> bitmap_ok bm' \<and>
      bits bm' = (if b < BitSize bm then insert b (bits bm) else bits bm) \<and>
      bm_TestAndSetBit b v bm = Some (if b < BitSize bm then Success else Overflow, if b < BitSize bm then b \<in> bits bm else v, bm')"
    using SetBit_ok [OF assms, of b] TestAndSetBit_eq(1) [OF assms, of b v] by (elim exE conjE) (simp only: option.map prod.case, blast)
  show "\<exists>bm'. bm_ClearBit b bm = Some (if b < BitSize bm then Success else Overflow, bm') \<and> bitmap_ok bm' \<and>
      bits bm' = (if b < BitSize bm then bits bm - {b} else bits bm) \<and>
      bm_TestAndClearBit b v bm = Some (if b < BitSize bm then Success else Overflow, if b < BitSize bm then b \<in> bits bm else v, bm')"
    using ClearBit_ok [OF assms, of b] TestAndSetBit_eq(2) [OF assms, of b v] by (elim exE conjE) (simp only: option.map prod.case, blast)
  show "if \<exists>b<BitSize bm. b \<notin> bits bm
     then \<exists>c bm'. bm_FindSetZeroBit b bm = Some (Success, c, bm') \<and> c < BitSize bm \<and> c \<notin> bits bm \<and> (\<forall>b<c. b \<in> bits bm) \<and> bits bm' = insert c (bits bm) \<and> bitmap_ok bm'
     else bm_FindSetZeroBit b bm = (if BitSize bm div 64 < length (Buf bm) then Some (NotFound, b, bm) else None)"
    using FindSetZeroBit_ok [OF assms, of b] by (auto split: if_splits)
qed

text \<open>A page full of bits is the case in which the search leaves it.\<close>

theorem bitmap_is_set_witness:
  "bm_FindSetZeroBit 0 (make_Bitmap (replicate 512 (- 1)) 4096) = None \<and> bitmap_ok (make_Bitmap (replicate 512 (- 1)) 4096)"
proof -
  let ?bm = "make_Bitmap (replicate 512 (- 1)) 4096"
  have ok: "bitmap_ok ?bm" by (simp add: bitmap_ok_def make_Bitmap_def)
  have "b div 64 < 512" if "b < 32768" for b :: nat using that by (simp add: less_mult_imp_div_less)
  then have "\<not> (\<exists>b<BitSize ?bm. b \<notin> bits ?bm)" by (auto simp: bits_def make_Bitmap_def word_bit_def bit_minus_1_iff)
  note none = this
  have "bm_FindSetZeroBit 0 ?bm = (if BitSize ?bm div 64 < length (Buf ?bm) then Some (NotFound, 0, ?bm) else None)"
    using bitmap_is_set [OF ok, of 0 False] unfolding if_not_P [OF none] by blast
  then show ?thesis using ok by (simp add: make_Bitmap_def)
qed

end
