(* ===== verification/Block_Allocator.thy ===== *)
theory Block_Allocator
  imports Btree_Map Bitmap Bio
begin

text \<open>
  The blocks of bits of \<^verbatim>\<open>src/kstor/block_allocator.cpp\<close>: a page used as a bitmap, and a B-tree of such blocks by their index. Blocks are shared objects, so the tree
  holds places in a store of blocks. \<open>junk\<close> is the content of a fresh page.
\<close>

section \<open>Pages as bitmaps\<close>

text \<open>\<^verbatim>\<open>src/core/page.h\<close>: every operation makes a bitmap over the mapped page.\<close>

definition Page_SetBit :: "nat \<Rightarrow> uint64_t list \<Rightarrow> (err \<times> uint64_t list) option" where
  "Page_SetBit b page = map_option (\<lambda>(e, bm). (e, Buf bm)) (bm_SetBit b (make_Bitmap page PageSize))"

definition Page_ClearBit :: "nat \<Rightarrow> uint64_t list \<Rightarrow> (err \<times> uint64_t list) option" where
  "Page_ClearBit b page = map_option (\<lambda>(e, bm). (e, Buf bm)) (bm_ClearBit b (make_Bitmap page PageSize))"

definition Page_TestAndSetBit :: "nat \<Rightarrow> bool \<Rightarrow> uint64_t list \<Rightarrow> (err \<times> bool \<times> uint64_t list) option" where
  "Page_TestAndSetBit b old page = map_option (\<lambda>(e, old, bm). (e, old, Buf bm)) (bm_TestAndSetBit b old (make_Bitmap page PageSize))"

definition Page_TestAndClearBit :: "nat \<Rightarrow> bool \<Rightarrow> uint64_t list \<Rightarrow> (err \<times> bool \<times> uint64_t list) option" where
  "Page_TestAndClearBit b old page = map_option (\<lambda>(e, old, bm). (e, old, Buf bm)) (bm_TestAndClearBit b old (make_Bitmap page PageSize))"

definition Page_FindSetZeroBit :: "nat \<Rightarrow> uint64_t list \<Rightarrow> (err \<times> nat \<times> uint64_t list) option" where
  "Page_FindSetZeroBit b page = map_option (\<lambda>(e, b, bm). (e, b, Buf bm)) (bm_FindSetZeroBit b (make_Bitmap page PageSize))"

section \<open>Blocks\<close>

record BitmapBlock =
  bbPage :: "uint64_t list option"
  bbIndex :: uint64_t

definition make_BitmapBlock :: "uint64_t list \<Rightarrow> uint64_t \<Rightarrow> mem \<Rightarrow> err \<times> BitmapBlock \<times> mem" where
  "make_BitmapBlock junk index m =
     (let (e, m) = Page_Create m
      in (e, \<lparr>bbPage = (if e = Success then Some junk else None), bbIndex = index\<rparr>, m))"

definition Block_SetBit :: "nat \<Rightarrow> BitmapBlock \<Rightarrow> (err \<times> BitmapBlock) option" where
  "Block_SetBit b k =
     (case bbPage k of None \<Rightarrow> Some (InvalidState, k) | Some page \<Rightarrow> map_option (\<lambda>(e, page). (e, k\<lparr>bbPage := Some page\<rparr>)) (Page_SetBit b page))"

definition Block_ClearBit :: "nat \<Rightarrow> BitmapBlock \<Rightarrow> (err \<times> BitmapBlock) option" where
  "Block_ClearBit b k =
     (case bbPage k of None \<Rightarrow> Some (InvalidState, k) | Some page \<Rightarrow> map_option (\<lambda>(e, page). (e, k\<lparr>bbPage := Some page\<rparr>)) (Page_ClearBit b page))"

definition Block_TestAndSetBit :: "nat \<Rightarrow> bool \<Rightarrow> BitmapBlock \<Rightarrow> (err \<times> bool \<times> BitmapBlock) option" where
  "Block_TestAndSetBit b old k =
     (case bbPage k of None \<Rightarrow> Some (InvalidState, old, k)
      | Some page \<Rightarrow> map_option (\<lambda>(e, old, page). (e, old, k\<lparr>bbPage := Some page\<rparr>)) (Page_TestAndSetBit b old page))"

definition Block_TestAndClearBit :: "nat \<Rightarrow> bool \<Rightarrow> BitmapBlock \<Rightarrow> (err \<times> bool \<times> BitmapBlock) option" where
  "Block_TestAndClearBit b old k =
     (case bbPage k of None \<Rightarrow> Some (InvalidState, old, k)
      | Some page \<Rightarrow> map_option (\<lambda>(e, old, page). (e, old, k\<lparr>bbPage := Some page\<rparr>)) (Page_TestAndClearBit b old page))"

definition Block_FindSetZeroBit :: "nat \<Rightarrow> BitmapBlock \<Rightarrow> (err \<times> nat \<times> BitmapBlock) option" where
  "Block_FindSetZeroBit b k =
     (case bbPage k of None \<Rightarrow> Some (InvalidState, b, k)
      | Some page \<Rightarrow> map_option (\<lambda>(e, b, page). (e, b, k\<lparr>bbPage := Some page\<rparr>)) (Page_FindSetZeroBit b page))"

section \<open>The allocator\<close>

record BlockAllocator =
  baStart :: uint64_t
  baSize :: uint64_t
  MaxIndex :: uint64_t
  BlockTree :: "(uint64_t, nat option) Btree"
  Blocks :: "nat \<Rightarrow> BitmapBlock"
  NextBlock :: nat

text \<open>\<open>None\<close> is the division by a size of zero. The sum of start and size wraps around.\<close>

definition Alloc_Load :: "uint64_t \<Rightarrow> uint64_t \<Rightarrow> uint64_t \<Rightarrow> uint64_t \<Rightarrow> BlockAllocator \<Rightarrow> (err \<times> BlockAllocator) option" where
  "Alloc_Load blockSize volSize start size' a =
     (if start mod blockSize \<noteq> 0 then Some (InvalidValue, a)
      else if size' mod blockSize \<noteq> 0 then Some (InvalidValue, a)
      else if start + size' > volSize then Some (InvalidValue, a)
      else guard (size' \<noteq> 0)
        (let maxIndex = start div size'
         in if maxIndex = 0 then Some (InvalidValue, a)
            else Some (Success, a\<lparr>baStart := start, baSize := size', MaxIndex := maxIndex\<rparr>)))"

text \<open>These two are functions of the name space, not members; the output argument stays as it is.\<close>

definition Alloc_Alloc :: "uint64_t \<Rightarrow> err \<times> uint64_t" where
  "Alloc_Alloc block = (NotImplemented, block)"

definition Alloc_Free :: "uint64_t \<Rightarrow> err" where
  "Alloc_Free block = NotImplemented"

definition LookupBlock :: "uint64_t \<Rightarrow> BlockAllocator \<Rightarrow> nat option option" where
  "LookupBlock index a = do {
     (block, exist) \<leftarrow> Lookup 2 index (BlockTree a);
     Some (if \<not> exist then None else block) }"

definition CreateBlock :: "uint64_t list \<Rightarrow> uint64_t \<Rightarrow> mem \<Rightarrow> BlockAllocator \<Rightarrow> (nat option \<times> mem \<times> BlockAllocator) option" where
  "CreateBlock junk index m a = do {
     (block, exist) \<leftarrow> Lookup 2 index (BlockTree a);
     if exist then Some (block, m, a)
     else let (ok, m) = MakeShared m
     in if \<not> ok then Some (None, m, a)
     else let (err, k, m) = make_BitmapBlock junk index m
     in if err \<noteq> Success then Some (None, m, a)
     else do {
       let b = NextBlock a;
       let a = a\<lparr>Blocks := (Blocks a)(b := k), NextBlock := b + 1\<rparr>;
       (tree, ok, m) \<leftarrow> Insert 2 index (Some b) m (BlockTree a);
       let a = a\<lparr>BlockTree := tree\<rparr>;
       if \<not> ok then do {
         (block, exist) \<leftarrow> Lookup 2 index (BlockTree a);
         Some (if \<not> exist then None else block, m, a) }
       else Some (Some b, m, a) } }"

definition DeleteBlock :: "uint64_t \<Rightarrow> BlockAllocator \<Rightarrow> BlockAllocator option" where
  "DeleteBlock index a = do { (tree, ok) \<leftarrow> Delete 2 index (BlockTree a); Some (a\<lparr>BlockTree := tree\<rparr>) }"

section \<open>The blocks as a map\<close>

text \<open>The tree holds no null pointer and no block that does not exist.\<close>

definition alloc_inv :: "BlockAllocator \<Rightarrow> bool" where
  "alloc_inv a \<longleftrightarrow> btree_inv 2 (BlockTree a) \<and> (\<forall>i p. tree_map (BlockTree a) i = Some p \<longrightarrow> (\<exists>b<NextBlock a. p = Some b))"

definition block_map :: "BlockAllocator \<Rightarrow> (uint64_t \<rightharpoonup> nat)" where
  "block_map a i = (case tree_map (BlockTree a) i of None \<Rightarrow> None | Some p \<Rightarrow> p)"

lemma Lookup_map: "btree_inv T t \<Longrightarrow> Lookup T k t = Some (case tree_map t k of None \<Rightarrow> (DefValue t, False) | Some v \<Rightarrow> (v, True))"
  by (simp add: Lookup_def LookupLocked_map)

lemma LookupBlock_ok: "alloc_inv a \<Longrightarrow> LookupBlock i a = Some (block_map a i)"
  by (auto simp: LookupBlock_def Lookup_map alloc_inv_def block_map_def split: option.split)

lemma DeleteBlock_ok:
  assumes "alloc_inv a"
  shows "\<exists>a'. DeleteBlock i a = Some a' \<and> alloc_inv a' \<and> block_map a' = (block_map a)(i := None) \<and> Blocks a' = Blocks a"
  using assms Delete_map [of 2 "BlockTree a" i] by (auto simp: DeleteBlock_def alloc_inv_def block_map_def fun_eq_iff)

lemma CreateBlock_old:
  assumes "alloc_inv a" "block_map a i = Some b"
  shows "CreateBlock junk i m a = Some (Some b, m, a)"
proof -
  have "tree_map (BlockTree a) i = Some (Some b)" using assms(2) by (simp add: block_map_def split: option.splits)
  then show ?thesis using assms(1) by (simp add: CreateBlock_def Lookup_map alloc_inv_def)
qed

lemma new_spec: "new m = (ok, m') \<Longrightarrow> (\<not> ok \<longrightarrow> False \<in> set m) \<and> set m' \<subseteq> set m"
  by (cases m rule: new.cases) auto

lemma MakeShared_spec: "MakeShared m = (ok, m') \<Longrightarrow> (\<not> ok \<longrightarrow> False \<in> set m) \<and> set m' \<subseteq> set m"
  by (cases m rule: new.cases; cases "tl m" rule: new.cases) (auto simp: MakeShared_def split: if_splits)

lemma make_BitmapBlock_spec:
  assumes "make_BitmapBlock junk i m = (e, k, m')"
  shows "e \<noteq> Success \<Longrightarrow> False \<in> set m" "set m' \<subseteq> set m" "e = Success \<Longrightarrow> k = \<lparr>bbPage = Some junk, bbIndex = i\<rparr>"
proof -
  obtain ok m1 where m1: "MakeShared m = (ok, m1)" by fastforce
  obtain ok2 m2 where m2: "new m1 = (ok2, m2)" by fastforce
  show "e \<noteq> Success \<Longrightarrow> False \<in> set m" "set m' \<subseteq> set m" "e = Success \<Longrightarrow> k = \<lparr>bbPage = Some junk, bbIndex = i\<rparr>"
    using assms m1 m2 MakeShared_spec [OF m1] new_spec [OF m2]
    by (auto simp: make_BitmapBlock_def Page_Create_def error_codes split: if_splits)
qed

lemma CreateBlock_new:
  assumes inv: "alloc_inv a" and i: "block_map a i = None"
  shows "\<exists>r m' a'. CreateBlock junk i m a = Some (r, m', a') \<and> alloc_inv a' \<and> block_map a' = (block_map a)(i := r) \<and>
    (r = None \<longrightarrow> False \<in> set m) \<and> (\<forall>b. r = Some b \<longrightarrow> b = NextBlock a \<and> Blocks a' = (Blocks a)(b := \<lparr>bbPage = Some junk, bbIndex = i\<rparr>))"
proof -
  note I = inv [unfolded alloc_inv_def]
  have t: "tree_map (BlockTree a) i = None" using I i by (auto simp: block_map_def split: option.splits)
  have same: "(block_map a)(i := None) = block_map a" using i by auto
  have lk: "Lookup 2 i (BlockTree a) = Some (DefValue (BlockTree a), False)" using I t by (simp add: Lookup_map)
  obtain ok1 m1 where m1: "MakeShared m = (ok1, m1)" by fastforce
  obtain e k m2 where m2: "make_BitmapBlock junk i m1 = (e, k, m2)" by (metis surj_pair)
  have f1: "\<not> ok1 \<Longrightarrow> False \<in> set m" "set m1 \<subseteq> set m"
    using MakeShared_spec [OF m1] by blast+
  note f2 = make_BitmapBlock_spec [OF m2]
  let ?a = "a\<lparr>Blocks := (Blocks a)(NextBlock a := k), NextBlock := NextBlock a + 1\<rparr>"
  show ?thesis
  proof (cases "ok1 \<and> e = Success")
    case False
    then show ?thesis using lk m1 m2 f1 f2 inv same by (cases ok1) (auto simp: CreateBlock_def)
  next
    case True
    from Insert_map [of 2 "BlockTree a" i "Some (NextBlock a)" m2] I obtain t' r m3 where
      ins: "Insert 2 i (Some (NextBlock a)) m2 (BlockTree a) = Some (t', r, m3)" "btree_inv 2 t'"
      "tree_map t' = (if r then (tree_map (BlockTree a))(i \<mapsto> Some (NextBlock a)) else tree_map (BlockTree a))" "\<not> r \<Longrightarrow> False \<in> set m2"
      using t by auto
    show ?thesis
    proof (cases r)
      case ok: True
      have "CreateBlock junk i m a = Some (Some (NextBlock a), m3, ?a\<lparr>BlockTree := t'\<rparr>)"
        using lk m1 m2 True ins ok by (simp add: CreateBlock_def Let_def)
      moreover have "alloc_inv (?a\<lparr>BlockTree := t'\<rparr>)" using I ins ok by (auto simp: alloc_inv_def less_Suc_eq)
      moreover have "block_map (?a\<lparr>BlockTree := t'\<rparr>) = (block_map a)(i := Some (NextBlock a))" using ins ok by (auto simp: block_map_def fun_eq_iff)
      ultimately show ?thesis using f2(3) True by simp
    next
      case no: False
      have lk': "Lookup 2 i t' = Some (DefValue t', False)" using ins(2,3) no t by (simp add: Lookup_map)
      have "CreateBlock junk i m a = Some (None, m3, ?a\<lparr>BlockTree := t'\<rparr>)"
        using lk lk' m1 m2 True ins no by (simp add: CreateBlock_def Let_def)
      moreover have "alloc_inv (?a\<lparr>BlockTree := t'\<rparr>)" using I ins no by (auto simp: alloc_inv_def less_Suc_eq)
      moreover have "block_map (?a\<lparr>BlockTree := t'\<rparr>) = block_map a" using ins no by (auto simp: block_map_def fun_eq_iff)
      ultimately show ?thesis using ins(4) no f1(2) f2(2) same by auto
    qed
  qed
qed

section \<open>Properties\<close>

text \<open>
  Claim C29. The blocks of bits are a map: looking up gives the block of an index, creating gives the block that is there or a new one under the index, and deleting removes it.
  When memory is short creating gives nothing and the map stays as it was. A block that is handed out is always one that exists.
\<close>

theorem block_allocator_map:
  assumes "alloc_inv a"
  shows "LookupBlock i a = Some (block_map a i) \<and>
    (\<exists>r m' a'. CreateBlock junk i m a = Some (r, m', a') \<and> alloc_inv a' \<and> block_map a' = (block_map a)(i := r) \<and>
      (r = None \<longrightarrow> block_map a i = None \<and> False \<in> set m) \<and> (\<forall>b. r = Some b \<longrightarrow> b < NextBlock a' \<and> (block_map a i = Some b \<or> block_map a i = None \<and> b = NextBlock a))) \<and>
    (\<exists>a'. DeleteBlock i a = Some a' \<and> alloc_inv a' \<and> block_map a' = (block_map a)(i := None))"
proof (intro conjI)
  show "LookupBlock i a = Some (block_map a i)" by (rule LookupBlock_ok [OF assms])
  show "\<exists>a'. DeleteBlock i a = Some a' \<and> alloc_inv a' \<and> block_map a' = (block_map a)(i := None)" using DeleteBlock_ok [OF assms, of i] by blast
  show "\<exists>r m' a'. CreateBlock junk i m a = Some (r, m', a') \<and> alloc_inv a' \<and> block_map a' = (block_map a)(i := r) \<and>
      (r = None \<longrightarrow> block_map a i = None \<and> False \<in> set m) \<and> (\<forall>b. r = Some b \<longrightarrow> b < NextBlock a' \<and> (block_map a i = Some b \<or> block_map a i = None \<and> b = NextBlock a))"
  proof (cases "block_map a i")
    case None
    from CreateBlock_new [OF assms None, of junk m] obtain r m' a' where
      c: "CreateBlock junk i m a = Some (r, m', a')" "alloc_inv a'" "block_map a' = (block_map a)(i := r)" "r = None \<longrightarrow> False \<in> set m"
      "\<forall>b. r = Some b \<longrightarrow> b = NextBlock a" by blast
    have "b < NextBlock a'" if "r = Some b" for b
      using c(2,3) that unfolding alloc_inv_def block_map_def fun_eq_iff by (auto split: option.splits if_splits) (metis option.distinct(1) option.inject)
    then show ?thesis using c None by blast
  next
    case (Some b)
    moreover from this have "b < NextBlock a" using assms by (auto simp: alloc_inv_def block_map_def split: option.splits)
    ultimately show ?thesis using CreateBlock_old [OF assms Some, of junk m] assms by (auto simp: fun_upd_idem)
  qed
qed

definition sample_alloc :: BlockAllocator where
  "sample_alloc = \<lparr>baStart = 0, baSize = 0, MaxIndex = 0, BlockTree = make_Btree 0 None, Blocks = (\<lambda>_. \<lparr>bbPage = None, bbIndex = 0\<rparr>), NextBlock = 0\<rparr>"

theorem block_allocator_map_witness:
  "\<exists>r m' a'. CreateBlock [7] 5 [] sample_alloc = Some (r, m', a') \<and> r \<noteq> None \<and> block_map a' 5 = r"
proof -
  have "alloc_inv sample_alloc" by (simp add: alloc_inv_def sample_alloc_def)
  from block_allocator_map [OF this, of 5 "[7]" "[]"] show ?thesis by auto
qed

text \<open>
  Loading the allocator tests the wrong quotient: an area is accepted exactly when it is aligned, ends inside the volume in 64-bit arithmetic, and starts at a
  position not below its own size; the number of blocks is then the start divided by the size. In particular every area larger than its offset is refused, and a size of zero divides by zero.
\<close>

theorem block_allocator_load_exact:
  assumes "blockSize \<noteq> 0"
  shows "(if start mod blockSize \<noteq> 0 \<or> size' mod blockSize \<noteq> 0 \<or> volSize < start + size' then Alloc_Load blockSize volSize start size' a = Some (InvalidValue, a)
    else if size' = 0 then Alloc_Load blockSize volSize start size' a = None
    else Alloc_Load blockSize volSize start size' a =
      (if start < size' then Some (InvalidValue, a) else Some (Success, a\<lparr>baStart := start, baSize := size', MaxIndex := start div size'\<rparr>)))"
proof -
  have "start div size' = 0 \<longleftrightarrow> start < size'" if "size' \<noteq> 0"
  proof -
    have "start div size' = 0 \<longleftrightarrow> unat start div unat size' = 0" by (metis unat_div unat_eq_zero)
    also have "\<dots> \<longleftrightarrow> start < size'" using that by (simp add: div_eq_0_iff word_less_nat_alt unat_eq_zero)
    finally show ?thesis .
  qed
  then show ?thesis by (simp add: Alloc_Load_def guard_def Let_def)
qed

theorem block_allocator_load_exact_witness:
  "Alloc_Load 4096 1048576 4096 409600 sample_alloc = Some (InvalidValue, sample_alloc) \<and> Alloc_Load 4096 1048576 4096 0 sample_alloc = None"
  using block_allocator_load_exact [of 4096 4096 409600 1048576 sample_alloc] block_allocator_load_exact [of 4096 4096 0 1048576 sample_alloc] by simp

end
