(* ===== verification/Sha_Spec.thy ===== *)
theory Sha_Spec
  imports Byte_Order
begin

unbundle bit_operations_syntax

text \<open>
  The secure hash SHA-256 as the standard FIPS 180-4 defines it: the constants are the leading bits of the fractional parts of roots of the first
  primes, the message is padded to whole blocks, and every block is mixed in with 64 rounds.
\<close>

section \<open>Constants\<close>

text \<open>The integer part of the \<open>k\<close>-th root of \<open>n\<close>, found bit by bit from bit \<open>b\<close> downwards.\<close>

fun iroot :: "nat \<Rightarrow> nat \<Rightarrow> nat \<Rightarrow> nat \<Rightarrow> nat" where
  "iroot k 0 n r = r"
| "iroot k (Suc b) n r = iroot k b n (if (r + 2 ^ b) ^ k \<le> n then r + 2 ^ b else r)"

definition first_primes :: "nat list" where
  "first_primes = [2, 3, 5, 7, 11, 13, 17, 19, 23, 29, 31, 37, 41, 43, 47, 53, 59, 61, 67, 71, 73, 79, 83, 89, 97, 101, 103, 107, 109, 113, 127, 131,
     137, 139, 149, 151, 157, 163, 167, 173, 179, 181, 191, 193, 197, 199, 211, 223, 227, 229, 233, 239, 241, 251, 257, 263, 269, 271, 277, 281, 283, 293, 307, 311]"

definition root_bits :: "nat \<Rightarrow> nat \<Rightarrow> uint32_t" where
  "root_bits k p = of_nat (iroot k 36 (p * 2 ^ (32 * k)) 0)"

definition fips_K :: "nat \<Rightarrow> uint32_t" where
  "fips_K t = root_bits 3 (first_primes ! t)"

definition fips_H0 :: "uint32_t list" where
  "fips_H0 = map (root_bits 2) (take 8 first_primes)"

section \<open>Mixing in a block\<close>

definition fips_Ch :: "uint32_t \<Rightarrow> uint32_t \<Rightarrow> uint32_t \<Rightarrow> uint32_t" where
  "fips_Ch x y z = (x AND y) XOR (NOT x AND z)"

definition fips_Maj :: "uint32_t \<Rightarrow> uint32_t \<Rightarrow> uint32_t \<Rightarrow> uint32_t" where
  "fips_Maj x y z = (x AND y) XOR (x AND z) XOR (y AND z)"

definition Sigma_0 :: "uint32_t \<Rightarrow> uint32_t" where
  "Sigma_0 x = word_rotr 2 x XOR word_rotr 13 x XOR word_rotr 22 x"

definition Sigma_1 :: "uint32_t \<Rightarrow> uint32_t" where
  "Sigma_1 x = word_rotr 6 x XOR word_rotr 11 x XOR word_rotr 25 x"

definition sigma_0 :: "uint32_t \<Rightarrow> uint32_t" where
  "sigma_0 x = word_rotr 7 x XOR word_rotr 18 x XOR drop_bit 3 x"

definition sigma_1 :: "uint32_t \<Rightarrow> uint32_t" where
  "sigma_1 x = word_rotr 17 x XOR word_rotr 19 x XOR drop_bit 10 x"

text \<open>The words of a block, and the schedule that extends them.\<close>

definition block_words :: "bytes \<Rightarrow> uint32_t list" where
  "block_words p = map (\<lambda>i. le_value (rev (take 4 (drop (4 * i) p)))) [0..<16]"

fun fips_W :: "uint32_t list \<Rightarrow> nat \<Rightarrow> uint32_t" where
  "fips_W M t =
     (if t < 16 then M ! t
      else sigma_1 (fips_W M (t - 2)) + fips_W M (t - 7) + sigma_0 (fips_W M (t - 15)) + fips_W M (t - 16))"

declare fips_W.simps [simp del]

type_synonym registers = "uint32_t \<times> uint32_t \<times> uint32_t \<times> uint32_t \<times> uint32_t \<times> uint32_t \<times> uint32_t \<times> uint32_t"

definition fips_round :: "uint32_t list \<Rightarrow> registers \<Rightarrow> nat \<Rightarrow> registers" where
  "fips_round M v t = (case v of (a, b, c, d, e, f, g, h) \<Rightarrow>
     (let T1 = h + Sigma_1 e + fips_Ch e f g + fips_K t + fips_W M t; T2 = Sigma_0 a + fips_Maj a b c
      in (T1 + T2, a, b, c, d + T1, e, f, g)))"

definition fips_block :: "uint32_t list \<Rightarrow> bytes \<Rightarrow> uint32_t list" where
  "fips_block H p =
     (case foldl (fips_round (block_words p)) (H ! 0, H ! 1, H ! 2, H ! 3, H ! 4, H ! 5, H ! 6, H ! 7) [0..<64] of (a, b, c, d, e, f, g, h) \<Rightarrow>
        [H ! 0 + a, H ! 1 + b, H ! 2 + c, H ! 3 + d, H ! 4 + e, H ! 5 + f, H ! 6 + g, H ! 7 + h])"

section \<open>The hash of a message\<close>

text \<open>A one bit, zero bits up to eight bytes before the end of a block, and the length in bits as a big-endian number of 64 bits.\<close>

definition fips_pad :: "bytes \<Rightarrow> bytes" where
  "fips_pad msg = msg @ [0x80] @ replicate ((119 - length msg mod 64) mod 64) 0 @ rev (le_bytes 8 (of_nat (8 * length msg) :: uint64_t))"

definition fips_blocks :: "bytes \<Rightarrow> bytes list" where
  "fips_blocks m = map (\<lambda>i. take 64 (drop (64 * i) m)) [0..<length m div 64]"

definition fips_sha256 :: "bytes \<Rightarrow> bytes" where
  "fips_sha256 msg = concat (map (\<lambda>x. rev (le_bytes 4 x)) (foldl fips_block fips_H0 (fips_blocks (fips_pad msg))))"

section \<open>Roots\<close>

lemma iroot_bounds:
  assumes "0 < k" "r ^ k \<le> n" "n < (r + 2 ^ b) ^ k"
  shows "iroot k b n r ^ k \<le> n \<and> n < (iroot k b n r + 1) ^ k"
  using assms
proof (induction b arbitrary: r)
  case (Suc b)
  have "r + 2 ^ b + 2 ^ b = r + 2 ^ Suc b" by simp
  then show ?case using Suc.IH [of r] Suc.IH [of "r + 2 ^ b"] Suc.prems by (simp only: iroot.simps split: if_split) (simp add: not_le)
qed simp

lemma iroot_unique:
  assumes "r ^ k \<le> n" "n < (r + 1) ^ k" "n < (2 ^ b) ^ k" "0 < k"
  shows "iroot k b n 0 = r"
proof -
  have "iroot k b n 0 ^ k \<le> n" "n < (iroot k b n 0 + 1) ^ k" using iroot_bounds [of k 0 n b] assms by (auto simp: zero_power)
  then have "iroot k b n 0 < r + 1" "r < iroot k b n 0 + 1"
    using assms by (meson le_less_trans power_less_imp_less_base zero_le)+
  then show ?thesis by simp
qed

lemma root_bits_eq:
  assumes "r ^ k \<le> p * 2 ^ (32 * k)" "p * 2 ^ (32 * k) < (r + 1) ^ k" "p < 16 ^ k" "0 < k"
  shows "root_bits k p = of_nat r"
proof -
  have "p * 2 ^ (32 * k) < 16 ^ k * 2 ^ (32 * k)" using assms(3) by simp
  also have "\<dots> = (2 ^ 36) ^ k" by (simp add: power_mult power_mult_distrib [symmetric])
  finally show ?thesis unfolding root_bits_def using iroot_unique [OF assms(1,2) _ assms(4)] by simp
qed

text \<open>A way to check a constant: \<open>q\<close> is the integer part of the root.\<close>

definition root_ok :: "nat \<Rightarrow> nat \<Rightarrow> uint32_t \<Rightarrow> bool" where
  "root_ok k p c =
     (let q = (if 6 ^ k \<le> p then 6 else if 5 ^ k \<le> p then 5 else if 4 ^ k \<le> p then 4 else if 3 ^ k \<le> p then 3 else if 2 ^ k \<le> p then 2 else 1);
          r = q * 4294967296 + unat c
      in r ^ k \<le> p * 2 ^ (32 * k) \<and> p * 2 ^ (32 * k) < (r + 1) ^ k \<and> p < 16 ^ k)"

lemma root_okD:
  assumes "root_ok k p c" "0 < k"
  shows "root_bits k p = c"
proof -
  obtain q where "(q * 4294967296 + unat c) ^ k \<le> p * 2 ^ (32 * k) \<and> p * 2 ^ (32 * k) < (q * 4294967296 + unat c + 1) ^ k \<and> p < 16 ^ k"
    using assms(1) unfolding root_ok_def Let_def by blast
  then have "root_bits k p = of_nat (q * 4294967296 + unat c)" using root_bits_eq assms(2) by blast
  also have "\<dots> = c"
  proof -
    have "of_nat (q * 4294967296) = (0 :: uint32_t)" unfolding word_of_nat_eq_0_iff by simp
    then show ?thesis unfolding of_nat_add by simp
  qed
  finally show ?thesis .
qed

end
