(* ===== verification/Sha_256.thy ===== *)
theory Sha_256
  imports Streaming Sha_Spec
begin

unbundle bit_operations_syntax

text \<open>
  The hash function of \<^verbatim>\<open>src/core/sha256.cpp\<close>: the compression of a block with its unrolled rounds, the incremental interface and the
  padding, and the function that the standard FIPS 180-4 defines, which it implements.
\<close>

section \<open>Words in memory\<close>

text \<open>The macros \<^verbatim>\<open>GET_UINT32_BE\<close> and \<^verbatim>\<open>PUT_UINT32_BE\<close>; the second gives the four bytes it stores.\<close>

definition GET_UINT32_BE :: "bytes \<Rightarrow> nat \<Rightarrow> uint32_t" where
  "GET_UINT32_BE b i =
     push_bit 24 (ucast (b ! i)) OR push_bit 16 (ucast (b ! (i + 1))) OR push_bit 8 (ucast (b ! (i + 2))) OR ucast (b ! (i + 3))"

definition PUT_UINT32_BE :: "uint32_t \<Rightarrow> bytes" where
  "PUT_UINT32_BE n = [ucast (drop_bit 24 n), ucast (drop_bit 16 n), ucast (drop_bit 8 n), ucast n]"

section \<open>The compression of a block\<close>

definition SHR :: "uint32_t \<Rightarrow> nat \<Rightarrow> uint32_t" where
  "SHR x n = drop_bit n (x AND 0xFFFFFFFF)"

definition ROTR :: "uint32_t \<Rightarrow> nat \<Rightarrow> uint32_t" where
  "ROTR x n = SHR x n OR push_bit (32 - n) x"

definition S0 :: "uint32_t \<Rightarrow> uint32_t" where
  "S0 x = ROTR x 7 XOR ROTR x 18 XOR SHR x 3"

definition S1 :: "uint32_t \<Rightarrow> uint32_t" where
  "S1 x = ROTR x 17 XOR ROTR x 19 XOR SHR x 10"

definition S2 :: "uint32_t \<Rightarrow> uint32_t" where
  "S2 x = ROTR x 2 XOR ROTR x 13 XOR ROTR x 22"

definition S3 :: "uint32_t \<Rightarrow> uint32_t" where
  "S3 x = ROTR x 6 XOR ROTR x 11 XOR ROTR x 25"

definition F0 :: "uint32_t \<Rightarrow> uint32_t \<Rightarrow> uint32_t \<Rightarrow> uint32_t" where
  "F0 x y z = (x AND y) OR (z AND (x OR y))"

definition F1 :: "uint32_t \<Rightarrow> uint32_t \<Rightarrow> uint32_t \<Rightarrow> uint32_t" where
  "F1 x y z = z XOR (x AND (y XOR z))"

text \<open>
  The array \<open>W\<close> is filled from its start, so it is the list of the entries that have been assigned. The first sixteen come from the block; the rounds
  behind them assign one each with \<^verbatim>\<open>R\<close>.
\<close>

definition R_macro :: "nat \<Rightarrow> uint32_t list \<Rightarrow> uint32_t list" where
  "R_macro t W = (if t < 16 then W else W @ [S1 (W ! (t - 2)) + W ! (t - 7) + S0 (W ! (t - 15)) + W ! (t - 16)])"

text \<open>The macro \<^verbatim>\<open>P\<close> assigns its arguments \<open>d\<close> and \<open>h\<close>.\<close>

definition P_macro ::
    "uint32_t \<Rightarrow> uint32_t \<Rightarrow> uint32_t \<Rightarrow> uint32_t \<Rightarrow> uint32_t \<Rightarrow> uint32_t \<Rightarrow> uint32_t \<Rightarrow> uint32_t \<Rightarrow> uint32_t \<Rightarrow> uint32_t \<Rightarrow> uint32_t \<times> uint32_t" where
  "P_macro a b c d e f g h x K =
     (let temp1 = h + S3 e + F1 e f g + K + x; temp2 = S2 a + F0 a b c
      in (d + temp1, temp1 + temp2))"

text \<open>The constants in the calls of \<^verbatim>\<open>P\<close>, with the number of the round.\<close>

definition round_constants :: "(nat \<times> uint32_t) list" where
  "round_constants = [
     (0, 0x428A2F98), (1, 0x71374491), (2, 0xB5C0FBCF), (3, 0xE9B5DBA5), (4, 0x3956C25B), (5, 0x59F111F1),
     (6, 0x923F82A4), (7, 0xAB1C5ED5), (8, 0xD807AA98), (9, 0x12835B01), (10, 0x243185BE), (11, 0x550C7DC3),
     (12, 0x72BE5D74), (13, 0x80DEB1FE), (14, 0x9BDC06A7), (15, 0xC19BF174), (16, 0xE49B69C1), (17, 0xEFBE4786),
     (18, 0x0FC19DC6), (19, 0x240CA1CC), (20, 0x2DE92C6F), (21, 0x4A7484AA), (22, 0x5CB0A9DC), (23, 0x76F988DA),
     (24, 0x983E5152), (25, 0xA831C66D), (26, 0xB00327C8), (27, 0xBF597FC7), (28, 0xC6E00BF3), (29, 0xD5A79147),
     (30, 0x06CA6351), (31, 0x14292967), (32, 0x27B70A85), (33, 0x2E1B2138), (34, 0x4D2C6DFC), (35, 0x53380D13),
     (36, 0x650A7354), (37, 0x766A0ABB), (38, 0x81C2C92E), (39, 0x92722C85), (40, 0xA2BFE8A1), (41, 0xA81A664B),
     (42, 0xC24B8B70), (43, 0xC76C51A3), (44, 0xD192E819), (45, 0xD6990624), (46, 0xF40E3585), (47, 0x106AA070),
     (48, 0x19A4C116), (49, 0x1E376C08), (50, 0x2748774C), (51, 0x34B0BCB5), (52, 0x391C0CB3), (53, 0x4ED8AA4A),
     (54, 0x5B9CCA4F), (55, 0x682E6FF3), (56, 0x748F82EE), (57, 0x78A5636F), (58, 0x84C87814), (59, 0x8CC70208),
     (60, 0x90BEFFFA), (61, 0xA4506CEB), (62, 0xBEF9A3F7), (63, 0xC67178F2)]"

definition round_constant :: "nat \<Rightarrow> uint32_t" where
  "round_constant t = snd (round_constants ! t)"

text \<open>Eight rounds, after which every variable has its own place again. The source repeats these lines for \<open>t\<close> = 0, 8, 16 up to 56.\<close>

definition eight_rounds :: "registers \<times> uint32_t list \<Rightarrow> nat \<Rightarrow> registers \<times> uint32_t list" where
  "eight_rounds v t = (case v of ((A, B, C, D, E, F, G, H), W) \<Rightarrow>
     (let
          W = R_macro t W; (D, H) = P_macro A B C D E F G H (W ! t) (round_constant t);
          W = R_macro (t + 1) W; (C, G) = P_macro H A B C D E F G (W ! (t + 1)) (round_constant (t + 1));
          W = R_macro (t + 2) W; (B, F) = P_macro G H A B C D E F (W ! (t + 2)) (round_constant (t + 2));
          W = R_macro (t + 3) W; (A, E) = P_macro F G H A B C D E (W ! (t + 3)) (round_constant (t + 3));
          W = R_macro (t + 4) W; (H, D) = P_macro E F G H A B C D (W ! (t + 4)) (round_constant (t + 4));
          W = R_macro (t + 5) W; (G, C) = P_macro D E F G H A B C (W ! (t + 5)) (round_constant (t + 5));
          W = R_macro (t + 6) W; (F, B) = P_macro C D E F G H A B (W ! (t + 6)) (round_constant (t + 6));
          W = R_macro (t + 7) W; (E, A) = P_macro B C D E F G H A (W ! (t + 7)) (round_constant (t + 7))
      in ((A, B, C, D, E, F, G, H), W)))"

definition Process :: "uint32_t list \<Rightarrow> bytes \<Rightarrow> uint32_t list" where
  "Process State data =
     (let W = map (\<lambda>i. GET_UINT32_BE data (4 * i)) [0..<16];
          v = (State ! 0, State ! 1, State ! 2, State ! 3, State ! 4, State ! 5, State ! 6, State ! 7);
          ((A, B, C, D, E, F, G, H), W) = foldl eight_rounds (v, W) [0, 8, 16, 24, 32, 40, 48, 56]
      in [State ! 0 + A, State ! 1 + B, State ! 2 + C, State ! 3 + D, State ! 4 + E, State ! 5 + F, State ! 6 + G, State ! 7 + H])"

section \<open>The class\<close>

record Sha256 =
  Total0 :: uint32_t
  Total1 :: uint32_t
  ShaState :: "uint32_t list"
  ShaBuffer :: bytes
  Ipad :: bytes
  Opad :: bytes

definition sha_MemCpy :: "bytes \<Rightarrow> nat \<Rightarrow> bytes \<Rightarrow> bytes" where
  "sha_MemCpy dst off src = take off dst @ src @ drop (off + length src) dst"

definition Sha256_Clear :: "Sha256 \<Rightarrow> Sha256" where
  "Sha256_Clear s = s\<lparr>Total0 := 0, Total1 := 0, ShaState := replicate 8 0, ShaBuffer := replicate 64 0, Ipad := replicate 64 0, Opad := replicate 64 0\<rparr>"

text \<open>The constructor; \<open>s\<close> is what the memory of the object held before.\<close>

definition make_Sha256 :: "Sha256 \<Rightarrow> Sha256" where
  "make_Sha256 s = (Sha256_Clear s)\<lparr>Total0 := 0, Total1 := 0,
     ShaState := [0x6A09E667, 0xBB67AE85, 0x3C6EF372, 0xA54FF53A, 0x510E527F, 0x9B05688C, 0x1F83D9AB, 0x5BE0CD19]\<rparr>"

text \<open>The loop over whole blocks; \<open>len\<close> bytes of the input are left.\<close>

function Update_loop :: "uint32_t list \<Rightarrow> bytes \<Rightarrow> nat \<Rightarrow> uint32_t list \<times> bytes \<times> nat" where
  "Update_loop State input len =
     (if len \<ge> 64 then Update_loop (Process State input) (drop 64 input) (len - 64) else (State, input, len))"
  by pat_completeness auto
termination by (relation "measure (\<lambda>(State, input, len). len)") auto

declare Update_loop.simps [simp del]

text \<open>\<open>buf\<close> is the memory at the pointer that is passed. The counter of bytes has 64 bits, in two words.\<close>

definition Sha256_Update :: "bytes \<Rightarrow> uint32_t \<Rightarrow> Sha256 \<Rightarrow> Sha256" where
  "Sha256_Update buf len s =
     (if len = 0 then s
      else let left = unat (Total0 s AND 0x3F); fill = 64 - left;
               s = s\<lparr>Total0 := Total0 s + len\<rparr>;
               s = s\<lparr>Total0 := Total0 s AND 0xFFFFFFFF\<rparr>;
               s = (if Total0 s < len then s\<lparr>Total1 := Total1 s + 1\<rparr> else s);
               (s, input, n, left) =
                 (if left \<noteq> 0 \<and> unat len \<ge> fill
                  then let s = s\<lparr>ShaBuffer := sha_MemCpy (ShaBuffer s) left (take fill buf)\<rparr>
                       in (s\<lparr>ShaState := Process (ShaState s) (ShaBuffer s)\<rparr>, drop fill buf, unat len - fill, 0)
                  else (s, buf, unat len, left));
               (st, input, n) = Update_loop (ShaState s) input n;
               s = s\<lparr>ShaState := st\<rparr>
           in if n > 0 then s\<lparr>ShaBuffer := sha_MemCpy (ShaBuffer s) left (take n input)\<rparr> else s)"

definition Sha256Padding :: bytes where
  "Sha256Padding = 0x80 # replicate 63 0"

definition Sha256_Finish :: "Sha256 \<Rightarrow> bytes \<times> Sha256" where
  "Sha256_Finish s =
     (let high = drop_bit 29 (Total0 s) OR push_bit 3 (Total1 s);
          low = push_bit 3 (Total0 s);
          msglen = PUT_UINT32_BE high @ PUT_UINT32_BE low;
          last = Total0 s AND 0x3F;
          padn = (if last < 56 then 56 - last else 120 - last);
          s = Sha256_Update Sha256Padding padn s;
          s = Sha256_Update msglen 8 s
      in (concat (map (\<lambda>i. PUT_UINT32_BE (ShaState s ! i)) [0..<8]), s))"

section \<open>Constants and functions of a round\<close>

lemma K_roots: "list_all2 (root_ok 3) first_primes (map snd round_constants)"
  by (simp add: first_primes_def round_constants_def root_ok_def)

lemma H_roots: "list_all2 (root_ok 2) (take 8 first_primes) (ShaState (make_Sha256 s))"
  by (simp add: first_primes_def make_Sha256_def root_ok_def)

lemma length_round_constants: "length round_constants = 64"
  by (simp add: round_constants_def)

lemma round_constant_eq: "t < 64 \<Longrightarrow> round_constant t = fips_K t"
  using list_all2_nthD2 [OF K_roots, of t] root_okD [of 3 "first_primes ! t" "round_constant t"]
  by (simp add: fips_K_def round_constant_def length_round_constants)

lemma initial_state_eq: "ShaState (make_Sha256 s) = fips_H0"
proof (rule nth_equalityI)
  show "length (ShaState (make_Sha256 s)) = length fips_H0" by (simp add: make_Sha256_def fips_H0_def first_primes_def)
  show "ShaState (make_Sha256 s) ! i = fips_H0 ! i" if "i < length (ShaState (make_Sha256 s))" for i
  proof -
    have "root_ok 2 (take 8 first_primes ! i) (ShaState (make_Sha256 s) ! i)" by (rule list_all2_nthD2 [OF H_roots that])
    then have "root_bits 2 (take 8 first_primes ! i) = ShaState (make_Sha256 s) ! i" using root_okD by simp
    then show ?thesis using that list_all2_lengthD [OF H_roots, of s] by (simp add: fips_H0_def)
  qed
qed

lemma and_ones: "x AND 0xFFFFFFFF = (x :: uint32_t)"
proof -
  have "(0xFFFFFFFF :: uint32_t) = - 1" by code_simp
  then show ?thesis by (metis word_bw_same(1) and.right_neutral)
qed

lemma SHR_eq: "SHR x n = drop_bit n x"
  by (simp add: SHR_def and_ones)

lemma ROTR_eq: "0 < n \<Longrightarrow> n < 32 \<Longrightarrow> ROTR x n = word_rotr n x"
proof (rule bit_word_eqI)
  fix i assume a: "0 < n" "n < 32" "i < LENGTH(32)"
  have "(i + n) mod 32 = (if i + n < 32 then i + n else i + n - 32)" using a by (simp add: mod_if)
  then show "bit (ROTR x n) i = bit (word_rotr n x) i"
    using a bit_imp_le_length [of x "i + n"] by (auto simp: ROTR_def SHR_eq bit_simps bit_word_rotr_iff add.commute)
qed

lemma sigma_eqs: "S0 = sigma_0" "S1 = sigma_1" "S2 = Sigma_0" "S3 = Sigma_1"
  by (simp_all add: fun_eq_iff S0_def S1_def S2_def S3_def sigma_0_def sigma_1_def Sigma_0_def Sigma_1_def ROTR_eq SHR_eq)

lemma choice_eqs: "F0 = fips_Maj" "F1 = fips_Ch"
  by (auto simp: fun_eq_iff F0_def F1_def fips_Maj_def fips_Ch_def bit_simps intro!: bit_word_eqI)

lemma GET_eq: "i + 4 \<le> length p \<Longrightarrow> GET_UINT32_BE p i = le_value (rev (take 4 (drop i p)))"
proof -
  assume "i + 4 \<le> length p"
  then have "take 4 (drop i p) = [p ! i, p ! (i + 1), p ! (i + 2), p ! (i + 3)]"
    by (intro nth_equalityI) (auto simp: less_Suc_eq numeral_eq_Suc)
  then show ?thesis by (simp add: GET_UINT32_BE_def ac_simps)
qed

lemma PUT_eq: "PUT_UINT32_BE x = rev (le_bytes 4 x)"
  by (simp add: PUT_UINT32_BE_def numeral_eq_Suc)

section \<open>Rounds\<close>

definition sched :: "uint32_t list \<Rightarrow> nat \<Rightarrow> uint32_t list" where
  "sched M n = map (fips_W M) [0..<if n < 16 then 16 else n]"

lemma sched_nth: "sched M (t + 1) ! t = fips_W M t"
  by (cases "t < 15") (simp_all add: sched_def nth_append)

lemma R_sched: "R_macro t (sched M t) = sched M (t + 1)"
proof (cases "t < 16")
  case False
  then show ?thesis by (simp add: R_macro_def sched_def fips_W.simps [of M t] sigma_eqs)
next
  case True
  then show ?thesis by (cases "t = 15") (simp_all add: R_macro_def sched_def)
qed

lemma fips_round_P:
  assumes "t < 64" "P_macro a b c d e f g h (fips_W M t) (round_constant t) = (d', h')"
  shows "fips_round M (a, b, c, d, e, f, g, h) t = (h', a, b, c, d', e, f, g)"
  using assms(2) round_constant_eq [OF assms(1)] by (auto simp: fips_round_def P_macro_def Let_def sigma_eqs choice_eqs ac_simps)

lemma eight_rounds_eq:
  assumes "t + 8 \<le> 64"
  shows "eight_rounds (v, sched M t) t = (foldl (fips_round M) v [t..<t + 8], sched M (t + 8))"
proof -
  obtain A B C D E F G H where v: "v = (A, B, C, D, E, F, G, H)" by (metis prod.exhaust)
  let ?P = "\<lambda>a b c d e f g h t. P_macro a b c d e f g h (fips_W M t) (round_constant t)"
  obtain D1 H1 where p1: "?P A B C D E F G H t = (D1, H1)" by fastforce
  obtain C1 G1 where p2: "?P H1 A B C D1 E F G (t + 1) = (C1, G1)" by fastforce
  obtain B1 F1 where p3: "?P G1 H1 A B C1 D1 E F (t + 2) = (B1, F1)" by fastforce
  obtain A1 E1 where p4: "?P F1 G1 H1 A B1 C1 D1 E (t + 3) = (A1, E1)" by fastforce
  obtain H2 D2 where p5: "?P E1 F1 G1 H1 A1 B1 C1 D1 (t + 4) = (H2, D2)" by fastforce
  obtain G2 C2 where p6: "?P D2 E1 F1 G1 H2 A1 B1 C1 (t + 5) = (G2, C2)" by fastforce
  obtain F2 B2 where p7: "?P C2 D2 E1 F1 G2 H2 A1 B1 (t + 6) = (F2, B2)" by fastforce
  obtain E2 A2 where p8: "?P B2 C2 D2 E1 F2 G2 H2 A1 (t + 7) = (E2, A2)" by fastforce
  note p = p1 p2 p3 p4 p5 p6 p7 p8
  have n: "t + 1 + 1 = t + 2" "t + 2 + 1 = t + 3" "t + 3 + 1 = t + 4" "t + 4 + 1 = t + 5" "t + 5 + 1 = t + 6" "t + 6 + 1 = t + 7" "t + 7 + 1 = t + 8" by simp_all
  have l: "[t..<t + 8] = [t, t + 1, t + 2, t + 3, t + 4, t + 5, t + 6, t + 7]" by (simp add: upt_conv_Cons)
  note w = sched_nth [of M t] sched_nth [of M "t + 1", unfolded n] sched_nth [of M "t + 2", unfolded n] sched_nth [of M "t + 3", unfolded n]
    sched_nth [of M "t + 4", unfolded n] sched_nth [of M "t + 5", unfolded n] sched_nth [of M "t + 6", unfolded n] sched_nth [of M "t + 7", unfolded n]
  have r: "eight_rounds (v, sched M t) t = ((A2, B2, C2, D2, E2, F2, G2, H2), sched M (t + 8))"
    by (simp only: eight_rounds_def v prod.case Let_def R_sched n w p)
  have b: "t < 64" "t + 1 < 64" "t + 2 < 64" "t + 3 < 64" "t + 4 < 64" "t + 5 < 64" "t + 6 < 64" "t + 7 < 64" using assms by simp_all
  have "foldl (fips_round M) v [t..<t + 8] = (A2, B2, C2, D2, E2, F2, G2, H2)"
    by (simp only: l v foldl.simps fips_round_P [OF b(1) p1] fips_round_P [OF b(2) p2] fips_round_P [OF b(3) p3] fips_round_P [OF b(4) p4]
      fips_round_P [OF b(5) p5] fips_round_P [OF b(6) p6] fips_round_P [OF b(7) p7] fips_round_P [OF b(8) p8])
  then show ?thesis using r by simp
qed


lemma Process_eq:
  assumes "64 \<le> length p"
  shows "Process st p = fips_block st p"
proof -
  let ?M = "block_words p"
  let ?v = "(st ! 0, st ! 1, st ! 2, st ! 3, st ! 4, st ! 5, st ! 6, st ! 7)"
  have "map (\<lambda>i. GET_UINT32_BE p (4 * i)) [0..<16] = ?M" using assms unfolding block_words_def by (intro map_cong) (simp_all add: GET_eq)
  moreover have "?M = sched ?M 0" by (intro nth_equalityI) (simp_all add: sched_def block_words_def fips_W.simps)
  ultimately have W: "map (\<lambda>i. GET_UINT32_BE p (4 * i)) [0..<16] = sched ?M 0" by simp
  have e: "eight_rounds (v, sched ?M t) t = (foldl (fips_round ?M) v [t..<t + 8], sched ?M (t + 8))" if "t \<in> {0, 8, 16, 24, 32, 40, 48, 56}" for t v
    using that by (intro eight_rounds_eq) auto
  have l: "[0..<64] = [0..<0 + 8] @ [8..<8 + 8] @ [16..<16 + 8] @ [24..<24 + 8] @ [32..<32 + 8] @ [40..<40 + 8] @ [48..<48 + 8] @ [56..<56 + 8::nat]"
    by (simp add: upt_conv_Cons)
  have "foldl eight_rounds (?v, sched ?M 0) [0, 8, 16, 24, 32, 40, 48, 56] = (foldl (fips_round ?M) ?v [0..<64], sched ?M 64)"
    unfolding l foldl_append foldl.simps using e [of 0] e [of 8] e [of 16] e [of 24] e [of 32] e [of 40] e [of 48] e [of 56] by (simp del: upt_rec_numeral)
  then show ?thesis unfolding Process_def W Let_def fips_block_def by (simp split: prod.split)
qed

section \<open>The stream\<close>

text \<open>The loop with its test at the end.\<close>

definition sha_stripes :: "uint32_t list \<Rightarrow> bytes \<Rightarrow> uint32_t list \<times> bytes" where
  "sha_stripes st p = (case Update_loop (Process st p) (drop 64 p) (length p - 64) of (st', q, n) \<Rightarrow> (st', q))"

lemma block_words_local: "64 \<le> length p \<Longrightarrow> block_words (p @ q) = block_words p"
  unfolding block_words_def by (intro map_cong) auto

lemma Process_local: "64 \<le> length p \<Longrightarrow> Process st (p @ q) = Process st p"
  by (simp add: Process_eq fips_block_def block_words_local)

interpretation sha: stripe_hash 64 Process sha_stripes
proof
  show "Process v (p @ q) = Process v p" if "64 \<le> length p" for v p q by (rule Process_local [OF that])
  show "sha_stripes v p = (if 64 \<le> length (drop 64 p) then sha_stripes (Process v p) (drop 64 p) else (Process v p, drop 64 p))" for v p
    unfolding sha_stripes_def by (subst Update_loop.simps) simp
qed simp

lemma Update_loop_stripes:
  "Update_loop st p (length p) = (if 64 \<le> length p then (case sha_stripes st p of (st', q) \<Rightarrow> (st', q, length p mod 64)) else (st, p, length p))"
proof (induction "length p" arbitrary: st p rule: less_induct)
  case less
  show ?case
  proof (cases "64 \<le> length p")
    case True
    then have "Update_loop st p (length p) = Update_loop (Process st p) (drop 64 p) (length (drop 64 p))" by (subst Update_loop.simps) simp
    also have "\<dots> = (if 64 \<le> length (drop 64 p) then (case sha_stripes (Process st p) (drop 64 p) of (st', q) \<Rightarrow> (st', q, length (drop 64 p) mod 64))
        else (Process st p, drop 64 p, length (drop 64 p)))" using True by (intro less.hyps) simp
    also have "\<dots> = (case sha_stripes st p of (st', q) \<Rightarrow> (st', q, length p mod 64))"
      using True by (subst (2) sha.stripes_step) (simp add: le_mod_geq [of 64 "length p"] split: prod.split)
    finally show ?thesis using True by simp
  qed (subst Update_loop.simps, simp)
qed

section \<open>Updates\<close>

definition sha_holds :: "bytes \<Rightarrow> Sha256 \<Rightarrow> bool" where
  "sha_holds msg s \<longleftrightarrow> length (ShaBuffer s) = 64 \<and> Total0 s = of_nat (length msg) \<and> Total1 s = of_nat (length msg div 4294967296) \<and>
     digests 64 Process fips_H0 msg (ShaState s) (take (length msg mod 64) (ShaBuffer s))"

lemma low_six: "unat (x AND 0x3F :: uint32_t) = unat x mod 64"
proof -
  have "(0x3F :: uint32_t) = mask 6" by (simp add: mask_eq_decr_exp)
  then have "x AND 0x3F = take_bit 6 x" by (simp only: take_bit_eq_mask)
  then show ?thesis by (simp add: unsigned_take_bit_eq take_bit_eq_mod unat_mod)
qed

lemma unat_of_nat_mod: "unat (of_nat n :: uint32_t) = n mod 4294967296"
  by (simp add: unat_of_nat take_bit_eq_mod)

lemma count_carry:
  fixes a b :: nat
  assumes "b < 4294967296"
  shows "(of_nat a + of_nat b :: uint32_t) < of_nat b \<longleftrightarrow> (a + b) div 4294967296 \<noteq> a div 4294967296"
    "(a + b) div 4294967296 = a div 4294967296 + (if (of_nat a + of_nat b :: uint32_t) < of_nat b then 1 else 0)"
proof -
  let ?N = "4294967296 :: nat"
  obtain q r where a: "a = ?N * q + r" "r < ?N" by (metis mod_less_divisor mult_div_mod_eq zero_less_numeral)
  have s: "(of_nat a + of_nat b :: uint32_t) < of_nat b \<longleftrightarrow> (r + b) mod ?N < b"
    unfolding of_nat_add [symmetric] word_less_nat_alt unat_of_nat_mod using assms a by (simp add: add.assoc)
  have d: "(a + b) div ?N = q + (r + b) div ?N" "a div ?N = q" using a by (simp_all add: add.assoc)
  have c: "(r + b) mod ?N < b \<longleftrightarrow> ?N \<le> r + b" "(r + b) div ?N = (if ?N \<le> r + b then 1 else 0)"
    using a(2) assms by (auto simp: mod_if div_if)
  show "(of_nat a + of_nat b :: uint32_t) < of_nat b \<longleftrightarrow> (a + b) div ?N \<noteq> a div ?N" using s d c by simp
  show "(a + b) div ?N = a div ?N + (if (of_nat a + of_nat b :: uint32_t) < of_nat b then 1 else 0)" using s d c by simp
qed

lemma Update_loop_rest:
  "Update_loop st (p @ rest) (length p) = (case Update_loop st p (length p) of (st', q, n) \<Rightarrow> (st', q @ rest, n))"
proof (induction "length p" arbitrary: st p rule: less_induct)
  case less
  show ?case
  proof (cases "64 \<le> length p")
    case True
    then have "Update_loop (Process st p) (drop 64 p @ rest) (length (drop 64 p)) =
        (case Update_loop (Process st p) (drop 64 p) (length (drop 64 p)) of (st', q, n) \<Rightarrow> (st', q @ rest, n))" by (intro less.hyps) simp
    then show ?thesis using True by (subst (1 2) Update_loop.simps) (simp add: Process_local)
  qed (subst (1 2) Update_loop.simps, simp)
qed

lemma length_stripes: "64 \<le> length p \<Longrightarrow> sha_stripes st p = (st', q) \<Longrightarrow> length q = length p mod 64"
  by (simp add: sha.stripes_absorb) (auto simp: minus_mult_div_eq_mod)

text \<open>The second half of an update: the loop over \<open>p\<close> and the copy of what is left behind the first \<open>l\<close> bytes of the buffer.\<close>

definition tail_update :: "uint32_t list \<Rightarrow> bytes \<Rightarrow> bytes \<Rightarrow> nat \<Rightarrow> nat \<Rightarrow> uint32_t list \<times> bytes" where
  "tail_update st buf input n l =
     (case Update_loop st input n of (st, input, n) \<Rightarrow> (st, if n > 0 then sha_MemCpy buf l (take n input) else buf))"

lemma tail_update_ok:
  assumes "length buf = 64" "l = 0 \<or> l + length p < 64" "tail_update st buf (p @ rest) (length p) l = (st', buf')"
  shows "(st', take ((l + length p) mod 64) buf') = (if 64 \<le> length p then sha_stripes st p else (st, take l buf @ p)) \<and> length buf' = 64"
proof (cases "64 \<le> length p")
  case True
  obtain st1 q where q: "sha_stripes st p = (st1, q)" by fastforce
  then have lq: "length q = length p mod 64" using length_stripes [OF True] by blast
  then have "length q < 64" by simp
  have "l = 0" using assms(2) True by auto
  then show ?thesis using assms True q lq \<open>length q < 64\<close>
    by (auto simp: tail_update_def Update_loop_rest Update_loop_stripes sha_MemCpy_def split: if_splits)
next
  case False
  then have "(l + length p) mod 64 = l + length p" using assms(2) by auto
  then show ?thesis using assms False
    by (auto simp: tail_update_def Update_loop_rest Update_loop_stripes sha_MemCpy_def split: if_splits)
qed

lemma Update_unfold:
  assumes "len \<noteq> 0"
  shows "Sha256_Update buf len s =
    (let left = unat (Total0 s AND 0x3F); fill = 64 - left; full = left \<noteq> 0 \<and> unat len \<ge> fill;
         b = (if full then sha_MemCpy (ShaBuffer s) left (take fill buf) else ShaBuffer s);
         (st, b) = tail_update (if full then Process (ShaState s) b else ShaState s) b (if full then drop fill buf else buf)
           (if full then unat len - fill else unat len) (if full then 0 else left)
     in s\<lparr>Total0 := Total0 s + len, Total1 := Total1 s + (if Total0 s + len < len then 1 else 0), ShaState := st, ShaBuffer := b\<rparr>)"
  using assms by (simp add: Sha256_Update_def tail_update_def and_ones Let_def split: prod.split)

lemma Update_feed:
  assumes n: "length input < 4294967296" and b: "length (ShaBuffer s) = 64"
    and s': "s' = Sha256_Update (input @ rest) (of_nat (length input)) s" and left: "left = unat (Total0 s) mod 64"
  shows "(ShaState s', take ((left + length input) mod 64) (ShaBuffer s')) = feed 64 Process sha_stripes (ShaState s) (take left (ShaBuffer s)) input \<and>
    length (ShaBuffer s') = 64 \<and> Total0 s' = Total0 s + of_nat (length input) \<and>
    Total1 s' = Total1 s + (if Total0 s + of_nat (length input) < of_nat (length input) then 1 else 0)"
proof (cases "input = []")
  case True
  then show ?thesis using s' left b by (simp add: Sha256_Update_def feed_def)
next
  case False
  let ?len = "of_nat (length input) :: uint32_t" and ?fill = "64 - left"
  have len: "unat ?len = length input" "?len \<noteq> 0"
    using n False unat_of_nat_32 [OF n] by (auto simp: word_of_nat_eq_0_iff dest: nat_dvd_not_less)
  have lt: "left < 64" and lf: "unat (Total0 s AND 0x3F) = left" by (simp_all add: left low_six)
  define full where "full \<longleftrightarrow> left \<noteq> 0 \<and> length input \<ge> ?fill"
  define b1 where "b1 = (if full then sha_MemCpy (ShaBuffer s) left (take ?fill (input @ rest)) else ShaBuffer s)"
  define st1 where "st1 = (if full then Process (ShaState s) b1 else ShaState s)"
  define p where "p = (if full then drop ?fill input else input)"
  define l where "l = (if full then 0 else left)"
  have p1: "(if full then drop ?fill (input @ rest) else input @ rest) = p @ rest" "(if full then length input - ?fill else length input) = length p"
    by (auto simp: p_def full_def)
  obtain st2 b2 where t: "tail_update st1 b1 (p @ rest) (length p) l = (st2, b2)" by fastforce
  have u: "s' = s\<lparr>Total0 := Total0 s + ?len, Total1 := Total1 s + (if Total0 s + ?len < ?len then 1 else 0), ShaState := st2, ShaBuffer := b2\<rparr>"
    unfolding s' Update_unfold [OF len(2)] len(1) lf Let_def full_def [symmetric] b1_def [symmetric] st1_def [symmetric] p1 l_def [symmetric] t by simp
  have lb: "length b1 = 64" using b lt by (auto simp: b1_def sha_MemCpy_def full_def)
  have "l = 0 \<or> l + length p < 64" using lt by (auto simp: l_def p_def full_def)
  note T = tail_update_ok [OF lb this t]
  have m: "(left + length input) mod 64 = (l + length p) mod 64"
  proof (cases full)
    case True
    then have "left + length input = 64 + length p" using lt by (simp add: full_def p_def) arith
    then show ?thesis using True by (simp add: l_def)
  qed (simp add: l_def p_def)
  have f: "feed 64 Process sha_stripes (ShaState s) (take left (ShaBuffer s)) input = (if 64 \<le> length p then sha_stripes st1 p else (st1, take l b1 @ p))"
    using b lt False by (auto simp: feed_def full_def b1_def st1_def p_def l_def sha_MemCpy_def Let_def)
  show ?thesis unfolding m f using T u by simp
qed


lemma holds_update:
  assumes h: "sha_holds msg s" and n: "length input < 4294967296"
  shows "sha_holds (msg @ input) (Sha256_Update (input @ rest) (of_nat (length input)) s)"
proof -
  let ?left = "unat (Total0 s) mod 64" and ?s = "Sha256_Update (input @ rest) (of_nat (length input)) s"
  have left: "?left = length msg mod 64" using h by (simp add: sha_holds_def unat_of_nat_mod mod_mod_cancel)
  have b: "length (ShaBuffer s) = 64" using h by (simp add: sha_holds_def)
  note U = Update_feed [OF n b refl refl, of rest, unfolded left]
  have "case feed 64 Process sha_stripes (ShaState s) (take (length msg mod 64) (ShaBuffer s)) input of (v', buf') \<Rightarrow> digests 64 Process fips_H0 (msg @ input) v' buf'"
    using h by (intro sha.feed_digests) (simp add: sha_holds_def)
  then have "digests 64 Process fips_H0 (msg @ input) (ShaState ?s) (take ((length msg mod 64 + length input) mod 64) (ShaBuffer ?s))"
    unfolding conjunct1 [OF U, symmetric] by simp
  moreover have "(length msg mod 64 + length input) mod 64 = length (msg @ input) mod 64" by (simp add: mod_add_left_eq)
  moreover have "Total1 ?s = of_nat (length (msg @ input) div 4294967296)"
    using U h count_carry(2) [OF n, of "length msg"] by (simp add: sha_holds_def)
  ultimately show ?thesis using U h by (simp add: sha_holds_def)
qed

lemma holds_make: "sha_holds [] (make_Sha256 s)"
  unfolding sha_holds_def initial_state_eq by (simp add: make_Sha256_def Sha256_Clear_def digests_def)

lemma holds_updates:
  assumes "sha_holds msg s" "\<forall>c \<in> set cs. length c < 4294967296"
  shows "sha_holds (msg @ concat cs) (foldl (\<lambda>s c. Sha256_Update c (of_nat (length c)) s) s cs)"
  using assms
proof (induction cs arbitrary: msg s)
  case (Cons c cs)
  have "sha_holds (msg @ c) (Sha256_Update c (of_nat (length c)) s)" using holds_update [of msg s c "[]"] Cons.prems by simp
  then show ?case using Cons.IH [of "msg @ c"] Cons.prems(2) by simp
qed simp

section \<open>Padding\<close>

lemma absorb_blocks:
  "64 * n \<le> length m \<Longrightarrow> absorb 64 Process n v m = foldl fips_block v (map (\<lambda>i. take 64 (drop (64 * i) m)) [0..<n])"
proof (induction n arbitrary: v m)
  case (Suc n)
  have "Process v m = fips_block v (take 64 m)"
    using Process_local [of "take 64 m" v "drop 64 m"] Process_eq [of "take 64 m" v] Suc.prems by simp
  moreover have "map (\<lambda>i. take 64 (drop (64 * i) m)) [0..<Suc n] = take 64 m # map (\<lambda>i. take 64 (drop (64 * i) (drop 64 m))) [0..<n]"
    by (simp add: upt_conv_Cons map_Suc_upt [symmetric] algebra_simps del: upt_Suc)
  ultimately show ?case using Suc.IH [of "drop 64 m"] Suc.prems by simp
qed simp

lemma whole_blocks:
  assumes "sha_holds msg s" "length msg mod 64 = 0"
  shows "ShaState s = foldl fips_block fips_H0 (fips_blocks msg)"
  using assms absorb_blocks [of "length msg div 64" msg] by (simp add: sha_holds_def digests_def fips_blocks_def)

lemma length_blocks: "length (foldl fips_block fips_H0 bs) = 8"
proof (induction bs rule: rev_induct)
  case Nil
  then show ?case by (simp add: fips_H0_def first_primes_def)
next
  case (snoc b bs)
  then show ?case by (simp add: fips_block_def split: prod.split)
qed

lemma le_bytes_halves: "le_bytes (m + k) x = le_bytes m x @ le_bytes k (drop_bit (8 * m) x)"
  by (induction m arbitrary: x) (simp_all add: algebra_simps)

lemma le_bytes_ucast: "le_bytes 4 (x :: uint64_t) = le_bytes 4 (ucast x :: uint32_t)"
proof -
  have "(ucast (drop_bit k x) :: byte_t) = ucast (drop_bit k (ucast x :: uint32_t))" if "k \<le> 24" for k
    using that by (intro bit_word_eqI) (auto simp: bit_simps)
  from this [of 0] this [of 8] this [of 16] this [of 24] show ?thesis by (simp add: numeral_eq_Suc)
qed

lemma bit_length_halves:
  assumes "n < 2305843009213693952"
  shows "rev (le_bytes 8 (of_nat (8 * n) :: uint64_t)) =
    PUT_UINT32_BE (drop_bit 29 (of_nat n) OR push_bit 3 (of_nat (n div 4294967296))) @ PUT_UINT32_BE (push_bit 3 (of_nat n))"
proof -
  let ?x = "of_nat (8 * n) :: uint64_t"
  have n8: "8 * n = push_bit 3 n" "n div 4294967296 = drop_bit 32 n" by (simp_all add: push_bit_eq_mult drop_bit_eq_div)
  have nb: "\<not> bit n i" if "61 \<le> i" for i
  proof -
    have "n < 2 ^ i" using assms power_increasing [OF that, of "2::nat"] by simp
    then show ?thesis by (simp add: bit_iff_odd)
  qed
  have lo: "(ucast ?x :: uint32_t) = push_bit 3 (of_nat n)"
    unfolding n8 by (rule bit_word_eqI) (auto simp: bit_simps bit_of_nat_iff)
  have hi: "(ucast (drop_bit 32 ?x) :: uint32_t) = drop_bit 29 (of_nat n) OR push_bit 3 (of_nat (n div 4294967296))"
    unfolding n8 by (rule bit_word_eqI) (auto simp: bit_simps bit_of_nat_iff nb)
  have "le_bytes 8 ?x = le_bytes 4 (ucast ?x :: uint32_t) @ le_bytes 4 (ucast (drop_bit 32 ?x) :: uint32_t)"
    using le_bytes_halves [of 4 4 ?x] by (simp add: le_bytes_ucast)
  then show ?thesis unfolding lo hi by (simp add: PUT_eq)
qed

lemma pad_rest: "r < 64 \<Longrightarrow> (119 - r) mod 64 = (if r < 56 then 55 - r else 119 - r)" for r :: nat
  by (simp add: mod_if)

lemma pad_count:
  assumes "unat (x AND 0x3F :: uint32_t) = r"
  shows "(if x AND 0x3F < 56 then 56 - (x AND 0x3F) else 120 - (x AND 0x3F)) = of_nat (1 + (119 - r) mod 64) \<and> 1 + (119 - r) mod 64 \<le> 64"
proof -
  have r: "r < 64" using assms by (auto simp: low_six)
  have "x AND 0x3F = of_nat r" unfolding assms [symmetric] by simp
  moreover have "(of_nat r :: uint32_t) < 56 \<longleftrightarrow> r < 56" using r by (simp add: word_less_nat_alt unat_of_nat_mod)
  moreover have "1 + (55 - r) = 56 - r" if "r < 56" using that by simp
  ultimately show ?thesis using r by (auto simp: pad_rest of_nat_diff)
qed

lemma pad_length: "(n + (9 + (119 - n mod 64) mod 64)) mod 64 = 0" for n :: nat
proof -
  obtain q r where n: "n = 64 * q + r" "r < 64" by (metis mod_less_divisor mult_div_mod_eq zero_less_numeral)
  have "n + (9 + (119 - n mod 64) mod 64) = 64 * (q + (if r < 56 then 1 else 2))" using n pad_rest [OF n(2)] by simp
  then show ?thesis by (metis mod_mult_self1_is_0)
qed

lemma Finish_ok:
  assumes h: "sha_holds msg s" and n: "length msg < 2305843009213693952"
  shows "fst (Sha256_Finish s) = fips_sha256 msg"
proof -
  let ?r = "length msg mod 64" let ?k = "(119 - ?r) mod 64"
  have r: "unat (Total0 s AND 0x3F) = ?r" using h by (simp add: low_six sha_holds_def unat_of_nat_mod mod_mod_cancel)
  let ?pad = "(0x80 :: byte_t) # replicate ?k 0" and ?len = "rev (le_bytes 8 (of_nat (8 * length msg) :: uint64_t))"
  have pad: "Sha256Padding = ?pad @ replicate (63 - ?k) 0" using pad_count [OF r] by (simp add: Sha256Padding_def replicate_add [symmetric])
  have len: "PUT_UINT32_BE (drop_bit 29 (Total0 s) OR push_bit 3 (Total1 s)) @ PUT_UINT32_BE (push_bit 3 (Total0 s)) = ?len"
    using h bit_length_halves [OF n] by (simp add: sha_holds_def)
  define s1 where "s1 = Sha256_Update Sha256Padding (of_nat (1 + ?k)) s"
  define s2 where "s2 = Sha256_Update ?len 8 s1"
  have "sha_holds (msg @ ?pad) s1" using holds_update [OF h, of ?pad] pad_count [OF r] unfolding s1_def pad by simp
  from holds_update [OF this, of ?len "[]"] have h2: "sha_holds (fips_pad msg) s2" unfolding s2_def by (simp add: fips_pad_def)
  have "length (fips_pad msg) mod 64 = 0" by (simp add: fips_pad_def pad_length)
  then have st: "ShaState s2 = foldl fips_block fips_H0 (fips_blocks (fips_pad msg))" by (rule whole_blocks [OF h2])
  have l: "length (ShaState s2) = 8" unfolding st by (rule length_blocks)
  have "map (\<lambda>i. PUT_UINT32_BE (ShaState s2 ! i)) [0..<8] = map PUT_UINT32_BE (ShaState s2)"
    by (intro nth_equalityI) (simp_all add: l)
  moreover have "fst (Sha256_Finish s) = concat (map (\<lambda>i. PUT_UINT32_BE (ShaState s2 ! i)) [0..<8])"
    unfolding Sha256_Finish_def Let_def len pad_count [OF r, THEN conjunct1] s1_def [symmetric] s2_def [symmetric] by simp
  moreover have "PUT_UINT32_BE = (\<lambda>x. rev (le_bytes 4 x))" by (rule ext) (rule PUT_eq)
  ultimately show ?thesis by (simp add: fips_sha256_def st)
qed


section \<open>Properties\<close>

text \<open>
  Claim C11. The class computes the hash of the standard: whatever the memory of the object held, and however the message is cut into calls of \<open>Update\<close>, each of less than
  \<open>2 ^ 32\<close> bytes, \<open>Finish\<close> gives the value that FIPS 180-4 defines for the whole message, with its constants taken from the roots of the primes. The message has less than \<open>2 ^ 61\<close> bytes,
  so that its length in bits fits into 64 bits.
\<close>

theorem sha256_standard:
  assumes "\<forall>c \<in> set cs. length c < 4294967296" "length (concat cs) < 2305843009213693952"
  shows "fst (Sha256_Finish (foldl (\<lambda>s c. Sha256_Update c (of_nat (length c)) s) (make_Sha256 s) cs)) = fips_sha256 (concat cs)"
  using Finish_ok [OF _ assms(2)] holds_updates [OF holds_make assms(1), of s] by simp


definition sample_sha :: Sha256 where
  "sample_sha = \<lparr>Total0 = 7, Total1 = 7, ShaState = [], ShaBuffer = [], Ipad = [], Opad = []\<rparr>"

theorem sha256_standard_witness:
  "fst (Sha256_Finish (Sha256_Update [0x63] 1 (Sha256_Update [0x61, 0x62] 2 (make_Sha256 sample_sha)))) = fips_sha256 [0x61, 0x62, 0x63]"
  using sha256_standard [of "[[0x61, 0x62], [0x63]]" sample_sha] by simp

end
