(* ===== verification/Hash_Buckets.thy ===== *)
theory Hash_Buckets
  imports Prelude "HOL-Library.Multiset"
begin

unbundle bit_operations_syntax

text \<open>
  Arrays of lists indexed by the hash of a pointer, as the checkers and the table of unique keys under \<^verbatim>\<open>src/system\<close> keep them, and the hash
  function itself. The facts say that an entry can only be in the list of its own key, so that a search of one list is a search of the whole table.
\<close>

section \<open>The hash of a pointer\<close>

fun hash_loop :: "nat \<Rightarrow> uint64_t \<Rightarrow> uint64_t \<Rightarrow> uint64_t" where
  "hash_loop 0 val hash = hash"
| "hash_loop (Suc n) val hash = (let c = ucast (ucast val :: byte_t) AND 0xFF in hash_loop n (drop_bit 8 val) (push_bit 5 hash + hash + c))"

definition hash_pointer :: "uint64_t \<Rightarrow> uint64_t" where
  "hash_pointer ptr = hash_loop 8 (drop_bit 3 ptr) 5381"

text \<open>The index in an array of \<open>n\<close> lists.\<close>

definition bucket_index :: "nat \<Rightarrow> uint64_t \<Rightarrow> nat" where
  "bucket_index n ptr = unat (hash_pointer ptr) mod n"

section \<open>Tables\<close>

definition buckets_ok :: "('e \<Rightarrow> uint64_t) \<Rightarrow> 'e list list \<Rightarrow> bool" where
  "buckets_ok key T \<longleftrightarrow> T \<noteq> [] \<and> (\<forall>i<length T. \<forall>e \<in> set (T ! i). bucket_index (length T) (key e) = i)"

lemma bucket_index_less: "T \<noteq> [] \<Longrightarrow> bucket_index (length T) k < length T"
  by (simp add: bucket_index_def)

lemma in_bucket:
  assumes "buckets_ok key T"
  shows "e \<in> set (T ! bucket_index (length T) (key e)) \<longleftrightarrow> e \<in> set (concat T)"
proof
  assume "e \<in> set (concat T)"
  then obtain xs where "xs \<in> set T" "e \<in> set xs" by auto
  then obtain i where "i < length T" "e \<in> set (T ! i)" by (metis in_set_conv_nth)
  then show "e \<in> set (T ! bucket_index (length T) (key e))" using assms by (auto simp: buckets_ok_def)
next
  assume "e \<in> set (T ! bucket_index (length T) (key e))"
  moreover have "bucket_index (length T) (key e) < length T" using assms by (intro bucket_index_less) (simp add: buckets_ok_def)
  ultimately show "e \<in> set (concat T)" by auto
qed

lemma buckets_update:
  assumes "buckets_ok key T" "i = bucket_index (length T) k" "\<And>e. e \<in> set xs \<Longrightarrow> e \<in> set (T ! i) \<or> key e = k"
  shows "buckets_ok key (T[i := xs])"
  unfolding buckets_ok_def
proof (intro conjI allI impI ballI)
  show "T[i := xs] \<noteq> []" using assms(1) by (simp add: buckets_ok_def)
  show "bucket_index (length (T[i := xs])) (key e) = j" if "j < length (T[i := xs])" "e \<in> set (T[i := xs] ! j)" for j e
  proof (cases "j = i")
    case True
    then have "e \<in> set (T ! i) \<or> key e = k" using that assms(3) [of e] by simp
    then show ?thesis using assms(1,2) that True by (auto simp: buckets_ok_def)
  next
    case False
    then show ?thesis using assms(1) that by (simp add: buckets_ok_def)
  qed
qed

lemma mset_concat_update:
  "i < length T \<Longrightarrow> mset (concat (T[i := xs])) + mset (T ! i) = mset (concat T) + mset xs"
proof (induction T arbitrary: i)
  case (Cons ys T)
  then show ?case by (cases i) (simp_all add: ac_simps)
qed simp

lemma mset_add_entry:
  assumes "T \<noteq> []" "i = bucket_index (length T) k" "mset xs = add_mset e (mset (T ! i))"
  shows "mset (concat (T[i := xs])) = add_mset e (mset (concat T))"
  using mset_concat_update [of i T xs] bucket_index_less [OF assms(1), of k] assms(2,3) by simp

lemma distinct_keys_mset: "mset xs = mset ys \<Longrightarrow> distinct (map f xs) \<longleftrightarrow> distinct (map f ys)"
  by (metis mset_eq_imp_distinct_iff mset_map)

lemma one_with_key:
  assumes "distinct (map key es)" "e \<in> set es"
  shows "filter (\<lambda>x. key x = key e) es = [e]"
  using assms by (induction es) (auto simp: filter_empty_conv image_iff)

lemma concat_one_bucket: "i < n \<Longrightarrow> concat ((replicate n [])[i := xs]) = xs"
proof (induction n arbitrary: i)
  case (Suc n)
  have e: "concat (replicate m ([] :: 'a list)) = []" for m by (induction m) simp_all
  show ?case using Suc by (cases i) (simp_all add: e)
qed simp

lemma filter_key_concat:
  assumes "buckets_ok key T" "i = bucket_index (length T) k"
  shows "filter (\<lambda>e. key e = k) (concat T) = filter (\<lambda>e. key e = k) (T ! i)"
proof -
  have i: "i < length T" using assms by (simp add: buckets_ok_def bucket_index_less)
  have "map (filter (\<lambda>e. key e = k)) T = (replicate (length T) [])[i := filter (\<lambda>e. key e = k) (T ! i)]"
  proof (rule nth_equalityI)
    show "map (filter (\<lambda>e. key e = k)) T ! j = (replicate (length T) [])[i := filter (\<lambda>e. key e = k) (T ! i)] ! j" if "j < length (map (filter (\<lambda>e. key e = k)) T)" for j
      using that assms by (cases "j = i") (auto simp: buckets_ok_def filter_empty_conv)
  qed simp
  then show ?thesis using concat_one_bucket [OF i] by (simp add: filter_concat)
qed

lemma remove_key_concat:
  assumes "buckets_ok key T" "i = bucket_index (length T) k"
  shows "concat (T[i := filter (\<lambda>e. key e \<noteq> k) (T ! i)]) = filter (\<lambda>e. key e \<noteq> k) (concat T)"
proof -
  have same: "filter (\<lambda>e. key e \<noteq> k) (T ! j) = T ! j" if "j < length T" "j \<noteq> i" for j
    using that assms by (auto simp: buckets_ok_def filter_id_conv)
  have "T[i := filter (\<lambda>e. key e \<noteq> k) (T ! i)] = map (filter (\<lambda>e. key e \<noteq> k)) T"
  proof (rule nth_equalityI)
    show "T[i := filter (\<lambda>e. key e \<noteq> k) (T ! i)] ! j = map (filter (\<lambda>e. key e \<noteq> k)) T ! j" if "j < length (T[i := filter (\<lambda>e. key e \<noteq> k) (T ! i)])" for j
      using that same [of j] by (cases "j = i") simp_all
  qed simp
  then show ?thesis by (simp add: filter_concat)
qed

lemma buckets_empty: "0 < n \<Longrightarrow> buckets_ok key (replicate n [])"
  by (auto simp: buckets_ok_def)

lemma concat_empty_buckets [simp]: "concat (replicate n []) = []"
  by (induction n) simp_all

end
