(* ===== verification/Unique_Key.thy ===== *)
theory Unique_Key
  imports Hash_Buckets
begin

text \<open>
  The table of unique keys of \<^verbatim>\<open>src/system/unique_key.c\<close>, with which a debug build checks that every object has one owner. Lists are sequences of
  entries; the spinlock of a list makes every operation atomic. Return codes are integers as in the kernel.
\<close>

section \<open>Operations\<close>

record unique_key_entry =
  ukey :: uint64_t
  uvalue :: uint64_t

type_synonym unique_key_table = "unique_key_entry list list"

definition EEXIST :: int where "EEXIST = 17"
definition ENOTTY :: int where "ENOTTY = 25"

definition UNIQUE_KEY_NR_LISTS :: nat where
  "UNIQUE_KEY_NR_LISTS = 10151"

definition unique_key_init :: unique_key_table where
  "unique_key_init = replicate UNIQUE_KEY_NR_LISTS []"

text \<open>When the entry cannot be allocated the function returns \<^verbatim>\<open>false\<close>, which is zero.\<close>

definition unique_key_register :: "uint64_t \<Rightarrow> uint64_t \<Rightarrow> mem \<Rightarrow> unique_key_table \<Rightarrow> int \<times> mem \<times> unique_key_table" where
  "unique_key_register key value' m T =
     (let (ok, m) = new m
      in if \<not> ok then (0, m, T)
      else let new_entry = \<lparr>ukey = key, uvalue = value'\<rparr>;
               i = bucket_index (length T) key;
               exist = find (\<lambda>entry. ukey entry = key) (T ! i)
      in (case exist of
            None \<Rightarrow> (0, m, T[i := T ! i @ [new_entry]])
          | Some _ \<Rightarrow> (- EEXIST, m, T)))"

fun del_first :: "('e \<Rightarrow> bool) \<Rightarrow> 'e list \<Rightarrow> 'e option \<times> 'e list" where
  "del_first P [] = (None, [])"
| "del_first P (e # es) = (if P e then (Some e, es) else (let (x, es) = del_first P es in (x, e # es)))"

definition unique_key_unregister :: "uint64_t \<Rightarrow> uint64_t \<Rightarrow> unique_key_table \<Rightarrow> int \<times> unique_key_table" where
  "unique_key_unregister key value' T =
     (let i = bucket_index (length T) key;
          (exist, es) = del_first (\<lambda>entry. ukey entry = key \<and> uvalue entry = value') (T ! i)
      in (case exist of None \<Rightarrow> (- ENOTTY, T) | Some _ \<Rightarrow> (0, T[i := es])))"

text \<open>Every list is emptied and its entries are freed; the result is what has been freed and the table.\<close>

definition unique_key_deinit :: "unique_key_table \<Rightarrow> unique_key_entry list \<times> unique_key_table" where
  "unique_key_deinit T = (concat T, map (\<lambda>_. []) T)"

section \<open>Registries\<close>

text \<open>
  What the owners of objects rely on: a registry is a partial map from keys to values, registering a fresh key adds it when memory is available,
  and unregistering succeeds exactly for the pair that is there.
\<close>

locale key_registry =
  fixes ok :: "'t \<Rightarrow> bool" and owner :: "'t \<Rightarrow> 'k \<rightharpoonup> 'v"
    and reg :: "'k \<Rightarrow> 'v \<Rightarrow> mem \<Rightarrow> 't \<Rightarrow> int \<times> mem \<times> 't" and unreg :: "'k \<Rightarrow> 'v \<Rightarrow> 't \<Rightarrow> int \<times> 't"
  assumes reg_law: "ok T \<Longrightarrow> reg k v m T = (r, m', T') \<Longrightarrow>
      ok T' \<and> m' = snd (new m) \<and> (if fst (new m) \<and> owner T k \<noteq> None then r \<noteq> 0 \<and> T' = T else r = 0 \<and> owner T' = (if fst (new m) then (owner T)(k \<mapsto> v) else owner T))"
    and unreg_law: "ok T \<Longrightarrow> unreg k v T = (r, T') \<Longrightarrow>
      ok T' \<and> (if owner T k = Some v then r = 0 \<and> owner T' = (owner T)(k := None) else r \<noteq> 0 \<and> T' = T)"
begin

lemma reg_fresh:
  assumes "ok T" "owner T k = None" "fst (new m)"
  shows "\<exists>T'. reg k v m T = (0, snd (new m), T') \<and> ok T' \<and> owner T' = (owner T)(k \<mapsto> v)"
proof (cases "reg k v m T")
  case (fields r m' T')
  then show ?thesis using reg_law [OF assms(1) fields] assms by simp
qed

lemma reg_lost:
  assumes "ok T" "\<not> fst (new m)"
  shows "\<exists>T'. reg k v m T = (0, snd (new m), T') \<and> ok T' \<and> owner T' = owner T"
proof (cases "reg k v m T")
  case (fields r m' T')
  then show ?thesis using reg_law [OF assms(1) fields] assms by simp
qed

lemma unreg_owner:
  assumes "ok T" "owner T k = Some v"
  shows "\<exists>T'. unreg k v T = (0, T') \<and> ok T' \<and> owner T' = (owner T)(k := None)"
proof (cases "unreg k v T")
  case (Pair r T')
  then show ?thesis using unreg_law [OF assms(1) Pair] assms by simp
qed

lemma unreg_other:
  assumes "ok T" "owner T k \<noteq> Some v"
  shows "\<exists>r. r \<noteq> 0 \<and> unreg k v T = (r, T)"
proof (cases "unreg k v T")
  case (Pair r T')
  then show ?thesis using unreg_law [OF assms(1) Pair] assms by simp
qed

text \<open>What was registered can be unregistered by the same owner only, and then the registry is as before.\<close>

lemma reg_unreg:
  assumes "ok T" "owner T k = None" "fst (new m)" "reg k v m T = (r, m', T1)" "unreg k w T1 = (r', T2)"
  shows "r = 0 \<and> (r' = 0 \<longleftrightarrow> w = v) \<and> (w = v \<longrightarrow> owner T2 = owner T)"
proof -
  have T1: "r = 0" "ok T1" "owner T1 = (owner T)(k \<mapsto> v)" using reg_fresh [OF assms(1-3), of v] assms(4) by auto
  show ?thesis using unreg_law [OF T1(2) assms(5)] T1 assms(2) by (auto split: if_splits)
qed

end

section \<open>The table is a registry\<close>

definition keys_ok :: "unique_key_table \<Rightarrow> bool" where
  "keys_ok T \<longleftrightarrow> buckets_ok ukey T \<and> distinct (map ukey (concat T))"

definition key_owner :: "unique_key_table \<Rightarrow> uint64_t \<rightharpoonup> uint64_t" where
  "key_owner T = map_of (map (\<lambda>e. (ukey e, uvalue e)) (concat T))"

lemma key_owner_Some:
  assumes "keys_ok T"
  shows "key_owner T k = Some v \<longleftrightarrow> (\<exists>e \<in> set (concat T). ukey e = k \<and> uvalue e = v)"
proof -
  have "distinct (map fst (map (\<lambda>e. (ukey e, uvalue e)) (concat T)))" using assms by (simp add: keys_ok_def comp_def)
  then show ?thesis unfolding key_owner_def by (subst map_of_eq_Some_iff) auto
qed

lemma key_owner_None: "key_owner T k = None \<longleftrightarrow> (\<forall>e \<in> set (concat T). ukey e \<noteq> k)"
  by (force simp: key_owner_def map_of_eq_None_iff)

lemma option_ext: "(\<And>v. a = Some v \<longleftrightarrow> b = Some v) \<Longrightarrow> a = b"
  by (cases a; cases b) auto

lemma find_bucket:
  assumes "buckets_ok ukey T"
  shows "find (\<lambda>e. ukey e = k) (T ! bucket_index (length T) k) = None \<longleftrightarrow> key_owner T k = None"
  unfolding key_owner_None find_None_iff using in_bucket [OF assms] by blast

lemma del_first_None: "fst (del_first P es) = None \<longleftrightarrow> (\<forall>e \<in> set es. \<not> P e)"
  by (induction es) (auto split: prod.splits)

lemma del_first_Some: "del_first P es = (Some e, es') \<Longrightarrow> P e \<and> e \<in> set es \<and> mset es = add_mset e (mset es')"
  by (induction es arbitrary: es') (auto split: prod.splits if_splits)


lemma register_ok:
  assumes "keys_ok T" "unique_key_register k v m T = (r, m', T')"
  shows "keys_ok T' \<and> m' = snd (new m) \<and>
    (if fst (new m) \<and> key_owner T k \<noteq> None then r \<noteq> 0 \<and> T' = T else r = 0 \<and> key_owner T' = (if fst (new m) then (key_owner T)(k \<mapsto> v) else key_owner T))"
proof (cases "fst (new m) \<and> key_owner T k = None")
  case False
  have b: "buckets_ok ukey T" using assms(1) by (simp add: keys_ok_def)
  show ?thesis using assms False find_bucket [OF b, of k]
    by (auto simp: unique_key_register_def EEXIST_def Let_def split: prod.splits option.splits)
next
  case True
  let ?i = "bucket_index (length T) k" and ?e = "\<lparr>ukey = k, uvalue = v\<rparr>"
  have b: "buckets_ok ukey T" and d: "distinct (map ukey (concat T))" using assms(1) by (simp_all add: keys_ok_def)
  have n: "r = 0" "m' = snd (new m)" "T' = T[?i := T ! ?i @ [?e]]"
    using assms True find_bucket [OF b, of k] by (auto simp: unique_key_register_def Let_def split: prod.splits option.splits)
  have ms: "mset (concat T') = mset (?e # concat T)" using mset_add_entry [of T ?i k "T ! ?i @ [?e]" ?e] b n(3) by (simp add: buckets_ok_def)
  have "buckets_ok ukey T'" unfolding n(3) by (rule buckets_update [OF b refl]) auto
  moreover have "distinct (map ukey (concat T'))" unfolding distinct_keys_mset [OF ms] using d True by (auto simp: key_owner_None)
  ultimately have ok: "keys_ok T'" by (simp add: keys_ok_def)
  have st: "set (concat T') = insert ?e (set (concat T))" using ms by (metis list.simps(15) mset_eq_setD)
  have "key_owner T' = (key_owner T)(k \<mapsto> v)"
  proof (rule ext, rule option_ext)
    fix x w
    show "key_owner T' x = Some w \<longleftrightarrow> ((key_owner T)(k \<mapsto> v)) x = Some w"
      unfolding key_owner_Some [OF ok] st using True by (auto simp: key_owner_Some [OF assms(1)] key_owner_None)
  qed
  then show ?thesis using True n ok by simp
qed

lemma unregister_ok:
  assumes "keys_ok T" "unique_key_unregister k v T = (r, T')"
  shows "keys_ok T' \<and> (if key_owner T k = Some v then r = 0 \<and> key_owner T' = (key_owner T)(k := None) else r \<noteq> 0 \<and> T' = T)"
proof -
  let ?i = "bucket_index (length T) k" and ?P = "\<lambda>e. ukey e = k \<and> uvalue e = v"
  have b: "buckets_ok ukey T" and d: "distinct (map ukey (concat T))" using assms(1) by (simp_all add: keys_ok_def)
  obtain x es where x: "del_first ?P (T ! ?i) = (x, es)" by fastforce
  have none: "x = None \<longleftrightarrow> key_owner T k \<noteq> Some v"
    using del_first_None [of ?P "T ! ?i"] in_bucket [OF b] unfolding x key_owner_Some [OF assms(1)] fst_conv by blast
  show ?thesis
  proof (cases x)
    case None
    then show ?thesis using assms x none by (simp add: unique_key_unregister_def ENOTTY_def Let_def)
  next
    case (Some e)
    then have n: "r = 0" "T' = T[?i := es]" using assms(2) x by (simp_all add: unique_key_unregister_def Let_def)
    note D = del_first_Some [OF x [unfolded Some]]
    then have e: "ukey e = k" "uvalue e = v" "mset (T ! ?i) = add_mset e (mset es)" by simp_all
    have i: "?i < length T" using b by (simp add: buckets_ok_def bucket_index_less)
    have ms: "mset (concat T) = mset (e # concat T')" using mset_concat_update [OF i, of es] e(3) by (simp add: n(2))
    have "set es \<subseteq> set (T ! ?i)" using e(3) by (metis set_mset_add_mset_insert set_mset_mset subset_insertI)
    then have "buckets_ok ukey T'" unfolding n(2) by (intro buckets_update [OF b refl]) auto
    moreover have de: "distinct (map ukey (e # concat T'))" using d distinct_keys_mset [OF ms] by blast
    ultimately have ok: "keys_ok T'" by (simp add: keys_ok_def)
    have st: "set (concat T) = insert e (set (concat T'))" using ms by (metis list.simps(15) mset_eq_setD)
    have ne: "ukey y \<noteq> k" if "y \<in> set (concat T')" for y using de e(1) that unfolding list.map distinct.simps set_map by blast
    have "key_owner T' = (key_owner T)(k := None)"
    proof (rule ext, rule option_ext)
      fix y w
      show "key_owner T' y = Some w \<longleftrightarrow> ((key_owner T)(k := None)) y = Some w"
      proof (cases "y = k")
        case True
        have "key_owner T' k = None" unfolding key_owner_None using ne by blast
        then show ?thesis using True by simp
      next
        case False
        have "(\<exists>z \<in> set (concat T'). ukey z = y \<and> uvalue z = w) \<longleftrightarrow> (\<exists>z \<in> set (concat T). ukey z = y \<and> uvalue z = w)"
          unfolding st using e(1) False by blast
        then show ?thesis using False by (simp only: fun_upd_apply if_False key_owner_Some [OF ok] key_owner_Some [OF assms(1)])
      qed
    qed
    then show ?thesis using none Some n ok by simp
  qed
qed

interpretation uk: key_registry keys_ok key_owner unique_key_register unique_key_unregister
  by unfold_locales (fact register_ok, fact unregister_ok)

lemma init_ok: "keys_ok unique_key_init" "key_owner unique_key_init = Map.empty"
proof -
  have "0 < UNIQUE_KEY_NR_LISTS" by (simp add: UNIQUE_KEY_NR_LISTS_def)
  then show "keys_ok unique_key_init" "key_owner unique_key_init = Map.empty"
    by (simp_all add: keys_ok_def key_owner_def unique_key_init_def buckets_empty)
qed

end
