(* ===== verification/Unique_Ptr.thy ===== *)
theory Unique_Ptr
  imports Unique_Key "HOL-Library.Monad_Syntax"
begin

text \<open>
  The owning pointers of \<^verbatim>\<open>src/core/unique_ptr.h\<close>, with their registration in the table of unique keys as in a debug build. The pointer
  variables of the program are the places of a list, as for the shared pointers; \<open>adr i\<close> is the address of the variable \<open>i\<close>. \<open>None\<close> is a failed assertion or a second
  deletion.
\<close>

section \<open>Pointers\<close>

record up_heap =
  upObjects :: "uint64_t set"
  upVars :: "uint64_t option list"
  upKeys :: unique_key_table

definition up_Reset :: "(nat \<Rightarrow> uint64_t) \<Rightarrow> nat \<Rightarrow> uint64_t option \<Rightarrow> mem \<Rightarrow> up_heap \<Rightarrow> (mem \<times> up_heap) option" where
  "up_Reset adr i object m h = guard (\<not> (upVars h ! i \<noteq> None \<and> upVars h ! i = object)) (do {
     h \<leftarrow> (case upVars h ! i of
        None \<Rightarrow> Some h
      | Some x \<Rightarrow>
          (let (r, T) = unique_key_unregister x (adr i) (upKeys h)
           in guard (r = 0) (guard (x \<in> upObjects h)
             (Some (h\<lparr>upKeys := T, upVars := (upVars h)[i := None], upObjects := upObjects h - {x}\<rparr>)))));
     let h = h\<lparr>upVars := (upVars h)[i := object]\<rparr>;
     (case object of
        None \<Rightarrow> Some (m, h)
      | Some x \<Rightarrow>
          (let (r, m, T) = unique_key_register x (adr i) m (upKeys h)
           in guard (r = 0) (Some (m, h\<lparr>upKeys := T\<rparr>)))) })"

definition up_Release :: "(nat \<Rightarrow> uint64_t) \<Rightarrow> nat \<Rightarrow> up_heap \<Rightarrow> (uint64_t option \<times> up_heap) option" where
  "up_Release adr i h =
     (case upVars h ! i of
        None \<Rightarrow> Some (None, h\<lparr>upVars := (upVars h)[i := None]\<rparr>)
      | Some x \<Rightarrow>
          (let (r, T) = unique_key_unregister x (adr i) (upKeys h)
           in guard (r = 0) (Some (Some x, h\<lparr>upKeys := T, upVars := (upVars h)[i := None]\<rparr>))))"

definition up_default :: "up_heap \<Rightarrow> nat \<times> up_heap" where
  "up_default h = (length (upVars h), h\<lparr>upVars := upVars h @ [None]\<rparr>)"

definition up_make :: "(nat \<Rightarrow> uint64_t) \<Rightarrow> uint64_t option \<Rightarrow> mem \<Rightarrow> up_heap \<Rightarrow> (mem \<times> up_heap) option" where
  "up_make adr object m h = (let (i, h) = up_default h in up_Reset adr i object m h)"

definition up_move :: "(nat \<Rightarrow> uint64_t) \<Rightarrow> nat \<Rightarrow> mem \<Rightarrow> up_heap \<Rightarrow> (mem \<times> up_heap) option" where
  "up_move adr j m h = (let (i, h) = up_default h in do { (object, h) \<leftarrow> up_Release adr j h; up_Reset adr i object m h })"

definition up_assign :: "(nat \<Rightarrow> uint64_t) \<Rightarrow> nat \<Rightarrow> nat \<Rightarrow> mem \<Rightarrow> up_heap \<Rightarrow> (mem \<times> up_heap) option" where
  "up_assign adr i j m h = (if i = j then Some (m, h) else do { (object, h) \<leftarrow> up_Release adr j h; up_Reset adr i object m h })"

text \<open>\<open>alloc\<close> is the allocator of the kernel: given the objects that are alive, the address of the next one.\<close>

definition MakeUnique :: "(nat \<Rightarrow> uint64_t) \<Rightarrow> (uint64_t set \<Rightarrow> uint64_t) \<Rightarrow> mem \<Rightarrow> up_heap \<Rightarrow> (mem \<times> up_heap) option" where
  "MakeUnique adr alloc m h =
     (let (ok, m) = new m
      in if \<not> ok then up_make adr None m h
      else let x = alloc (upObjects h)
      in up_make adr (Some x) m (h\<lparr>upObjects := insert x (upObjects h)\<rparr>))"

section \<open>Programs\<close>

datatype up_op = UpMake | UpMove nat | UpAssign nat nat | UpReset nat

fun up_step :: "(nat \<Rightarrow> uint64_t) \<Rightarrow> (uint64_t set \<Rightarrow> uint64_t) \<Rightarrow> up_op \<Rightarrow> mem \<Rightarrow> up_heap \<Rightarrow> (mem \<times> up_heap) option" where
  "up_step adr alloc UpMake m h = MakeUnique adr alloc m h"
| "up_step adr alloc (UpMove j) m h = up_move adr j m h"
| "up_step adr alloc (UpAssign i j) m h = up_assign adr i j m h"
| "up_step adr alloc (UpReset i) m h = up_Reset adr i None m h"

fun up_run :: "(nat \<Rightarrow> uint64_t) \<Rightarrow> (uint64_t set \<Rightarrow> uint64_t) \<Rightarrow> up_op list \<Rightarrow> mem \<Rightarrow> up_heap \<Rightarrow> (mem \<times> up_heap) option" where
  "up_run adr alloc [] m h = Some (m, h)"
| "up_run adr alloc (c # cs) m h = do { (m, h) \<leftarrow> up_step adr alloc c m h; up_run adr alloc cs m h }"

fun up_ops_ok :: "nat \<Rightarrow> up_op list \<Rightarrow> bool" where
  "up_ops_ok n [] \<longleftrightarrow> True"
| "up_ops_ok n (UpMake # cs) \<longleftrightarrow> up_ops_ok (Suc n) cs"
| "up_ops_ok n (UpMove j # cs) \<longleftrightarrow> j < n \<and> up_ops_ok (Suc n) cs"
| "up_ops_ok n (UpAssign i j # cs) \<longleftrightarrow> i < n \<and> j < n \<and> up_ops_ok n cs"
| "up_ops_ok n (UpReset i # cs) \<longleftrightarrow> i < n \<and> up_ops_ok n cs"

definition up_empty :: up_heap where
  "up_empty = \<lparr>upObjects = {}, upVars = [], upKeys = unique_key_init\<rparr>"

section \<open>The invariant\<close>

text \<open>\<open>X\<close> are the objects that are alive while no variable holds them yet. All others are held by one variable each, under whose address they are registered.\<close>

definition held :: "up_heap \<Rightarrow> nat \<Rightarrow> uint64_t \<Rightarrow> bool" where
  "held h i x \<longleftrightarrow> i < length (upVars h) \<and> upVars h ! i = Some x"

definition up_inv :: "(nat \<Rightarrow> uint64_t) \<Rightarrow> uint64_t set \<Rightarrow> up_heap \<Rightarrow> bool" where
  "up_inv adr X h \<longleftrightarrow> keys_ok (upKeys h) \<and> (\<forall>i x. held h i x \<longrightarrow> x \<notin> X \<and> key_owner (upKeys h) x = Some (adr i)) \<and>
     (\<forall>i j x. held h i x \<and> held h j x \<longrightarrow> i = j) \<and> (\<forall>x. key_owner (upKeys h) x \<noteq> None \<longrightarrow> (\<exists>i. held h i x)) \<and>
     upObjects h = X \<union> {x. \<exists>i. held h i x}"

lemma up_invI:
  assumes "keys_ok (upKeys h)" "\<And>i x. held h i x \<Longrightarrow> x \<notin> X \<and> key_owner (upKeys h) x = Some (adr i)" "\<And>i j x. held h i x \<Longrightarrow> held h j x \<Longrightarrow> i = j"
    and "\<And>x. key_owner (upKeys h) x \<noteq> None \<Longrightarrow> \<exists>i. held h i x" "upObjects h = X \<union> {x. \<exists>i. held h i x}"
  shows "up_inv adr X h"
  using assms unfolding up_inv_def by blast

lemma up_invD:
  assumes "up_inv adr X h"
  shows "keys_ok (upKeys h)" "held h i x \<Longrightarrow> x \<notin> X" "held h i x \<Longrightarrow> key_owner (upKeys h) x = Some (adr i)" "held h i x \<Longrightarrow> held h j x \<Longrightarrow> i = j"
    "key_owner (upKeys h) x \<noteq> None \<Longrightarrow> \<exists>i. held h i x" "upObjects h = X \<union> {x. \<exists>i. held h i x}"
  using assms unfolding up_inv_def by blast+

lemma up_empty_inv: "up_inv adr {} up_empty"
  by (simp add: up_inv_def up_empty_def init_ok held_def)

lemma up_default_inv:
  assumes "up_inv adr X h" "up_default h = (i, h')"
  shows "up_inv adr X h' \<and> i = length (upVars h) \<and> upVars h' = upVars h @ [None]"
proof -
  have h': "h' = h\<lparr>upVars := upVars h @ [None]\<rparr>" "i = length (upVars h)" using assms(2) by (simp_all add: up_default_def)
  have "held h' = held h" by (auto simp: fun_eq_iff held_def h' nth_append less_Suc_eq)
  then show ?thesis using assms(1) h' by (simp add: up_inv_def)
qed

text \<open>Taking an object out of its variable.\<close>

lemma up_take:
  assumes inv: "up_inv adr X h" and x: "held h i x"
  shows "\<exists>T. unique_key_unregister x (adr i) (upKeys h) = (0, T) \<and> x \<in> upObjects h \<and> up_inv adr (insert x X) (h\<lparr>upKeys := T, upVars := (upVars h)[i := None]\<rparr>)"
proof -
  from uk.unreg_owner [OF up_invD(1) [OF inv] up_invD(3) [OF inv x]] obtain T where
    T: "unique_key_unregister x (adr i) (upKeys h) = (0, T)" "keys_ok T" "key_owner T = (key_owner (upKeys h))(x := None)" by blast
  let ?h = "h\<lparr>upKeys := T, upVars := (upVars h)[i := None]\<rparr>"
  have hd: "held ?h j y \<longleftrightarrow> held h j y \<and> y \<noteq> x" for j y
    using x up_invD(4) [OF inv x, of j] by (cases "j = i") (auto simp: held_def nth_list_update)
  have o: "x \<in> upObjects h" using x up_invD(6) [OF inv] by blast
  have "up_inv adr (insert x X) ?h"
  proof (rule up_invI)
    show "keys_ok (upKeys ?h)" using T(2) by simp
    show "y \<notin> insert x X \<and> key_owner (upKeys ?h) y = Some (adr j)" if "held ?h j y" for j y
      using that up_invD(2,3) [OF inv, of j y] T(3) unfolding hd by simp
    show "j = l" if "held ?h j y" "held ?h l y" for j l y using that up_invD(4) [OF inv] unfolding hd by blast
    show "\<exists>j. held ?h j y" if "key_owner (upKeys ?h) y \<noteq> None" for y
      using that up_invD(5) [OF inv, of y] T(3) unfolding hd by (simp split: if_splits)
    show "upObjects ?h = insert x X \<union> {y. \<exists>j. held ?h j y}" unfolding hd using up_invD(6) [OF inv] o by auto
  qed
  then show ?thesis using T(1) o by blast
qed

text \<open>Putting a free object into an empty variable.\<close>

lemma up_put:
  assumes inv: "up_inv adr (insert x X) h" and x: "x \<notin> X" and i: "i < length (upVars h)" "upVars h ! i = None" and m: "fst (new m)"
  shows "\<exists>T. unique_key_register x (adr i) m (upKeys h) = (0, snd (new m), T) \<and> up_inv adr X (h\<lparr>upVars := (upVars h)[i := Some x], upKeys := T\<rparr>)"
proof -
  have free: "\<not> held h j x" for j using up_invD(2) [OF inv, of j x] by blast
  then have "key_owner (upKeys h) x = None" using up_invD(5) [OF inv, of x] by blast
  from uk.reg_fresh [OF up_invD(1) [OF inv] this m] obtain T where T: "unique_key_register x (adr i) m (upKeys h) = (0, snd (new m), T)" "keys_ok T"
    "key_owner T = (key_owner (upKeys h))(x \<mapsto> adr i)" by blast
  let ?h = "h\<lparr>upVars := (upVars h)[i := Some x], upKeys := T\<rparr>"
  have hd: "held ?h j y \<longleftrightarrow> held h j y \<or> j = i \<and> y = x" for j y
    using i by (cases "j = i") (auto simp: held_def)
  have ni: "\<not> held h i y" for y using i(2) by (simp add: held_def)
  have "up_inv adr X ?h"
  proof (rule up_invI)
    show "keys_ok (upKeys ?h)" using T(2) by simp
    show "y \<notin> X \<and> key_owner (upKeys ?h) y = Some (adr j)" if "held ?h j y" for j y
      using that up_invD(2,3) [OF inv, of j y] T(3) x free unfolding hd by auto
    show "j = l" if "held ?h j y" "held ?h l y" for j l y using that up_invD(4) [OF inv] free unfolding hd by blast
    show "\<exists>j. held ?h j y" if "key_owner (upKeys ?h) y \<noteq> None" for y
      using that up_invD(5) [OF inv, of y] T(3) unfolding hd by (auto split: if_splits)
    show "upObjects ?h = X \<union> {y. \<exists>j. held ?h j y}" unfolding hd using up_invD(6) [OF inv] by auto
  qed
  then show ?thesis using T(1) by blast
qed

lemma up_forget: "up_inv adr (insert x X) h \<Longrightarrow> x \<notin> X \<Longrightarrow> up_inv adr X (h\<lparr>upObjects := upObjects h - {x}\<rparr>)"
proof (rule up_invI)
  assume inv: "up_inv adr (insert x X) h" and x: "x \<notin> X"
  have hd: "held (h\<lparr>upObjects := upObjects h - {x}\<rparr>) = held h" by (simp add: fun_eq_iff held_def)
  show "keys_ok (upKeys (h\<lparr>upObjects := upObjects h - {x}\<rparr>))" using up_invD(1) [OF inv] by simp
  show "y \<notin> X \<and> key_owner (upKeys (h\<lparr>upObjects := upObjects h - {x}\<rparr>)) y = Some (adr j)" if "held (h\<lparr>upObjects := upObjects h - {x}\<rparr>) j y" for j y
    using that up_invD(2,3) [OF inv, of j y] unfolding hd by simp
  show "j = l" if "held (h\<lparr>upObjects := upObjects h - {x}\<rparr>) j y" "held (h\<lparr>upObjects := upObjects h - {x}\<rparr>) l y" for j l y
    using that up_invD(4) [OF inv] unfolding hd by blast
  show "\<exists>j. held (h\<lparr>upObjects := upObjects h - {x}\<rparr>) j y" if "key_owner (upKeys (h\<lparr>upObjects := upObjects h - {x}\<rparr>)) y \<noteq> None" for y
    using that up_invD(5) [OF inv, of y] unfolding hd by simp
  show "upObjects (h\<lparr>upObjects := upObjects h - {x}\<rparr>) = X \<union> {y. \<exists>j. held (h\<lparr>upObjects := upObjects h - {x}\<rparr>) j y}"
    unfolding hd using up_invD(2,6) [OF inv] x by auto
qed

section \<open>The operations keep it\<close>

lemma up_Reset_ok:
  assumes inv: "up_inv adr (set_option object \<union> X) h" and X: "set_option object \<inter> X = {}" and i: "i < length (upVars h)" and m: "False \<notin> set m"
  shows "\<exists>m' h'. up_Reset adr i object m h = Some (m', h') \<and> up_inv adr X h' \<and> length (upVars h') = length (upVars h) \<and> set m' \<subseteq> set m"
proof -
  let ?X = "set_option object \<union> X"
  have ne: "\<not> (upVars h ! i \<noteq> None \<and> upVars h ! i = object)"
    using up_invD(2) [OF inv, of i] i by (cases object) (auto simp: held_def)
  have "\<exists>h1. (case upVars h ! i of None \<Rightarrow> Some h | Some x \<Rightarrow>
          (let (r, T) = unique_key_unregister x (adr i) (upKeys h)
           in guard (r = 0) (guard (x \<in> upObjects h) (Some (h\<lparr>upKeys := T, upVars := (upVars h)[i := None], upObjects := upObjects h - {x}\<rparr>))))) = Some h1 \<and>
        up_inv adr ?X h1 \<and> upVars h1 = (upVars h)[i := None]"
  proof (cases "upVars h ! i")
    case None
    then show ?thesis using inv by (simp add: list_update_same_conv [THEN iffD2] i)
  next
    case (Some x)
    then have x: "held h i x" using i by (simp add: held_def)
    from up_take [OF inv x] obtain T where T: "unique_key_unregister x (adr i) (upKeys h) = (0, T)" "x \<in> upObjects h"
      "up_inv adr (insert x ?X) (h\<lparr>upKeys := T, upVars := (upVars h)[i := None]\<rparr>)" by blast
    show ?thesis using up_forget [OF T(3) up_invD(2) [OF inv x]] Some T(1,2) by simp
  qed
  then obtain h1 where h1: "(case upVars h ! i of None \<Rightarrow> Some h | Some x \<Rightarrow>
          (let (r, T) = unique_key_unregister x (adr i) (upKeys h)
           in guard (r = 0) (guard (x \<in> upObjects h) (Some (h\<lparr>upKeys := T, upVars := (upVars h)[i := None], upObjects := upObjects h - {x}\<rparr>))))) = Some h1"
      "up_inv adr ?X h1" "upVars h1 = (upVars h)[i := None]" by blast
  show ?thesis
  proof (cases object)
    case None
    have e: "h1\<lparr>upVars := (upVars h)[i := None]\<rparr> = h1" using h1(3) by (cases h1) simp
    have "up_inv adr X (h1\<lparr>upVars := (upVars h)[i := None]\<rparr>)" unfolding e using h1(2) None by simp
    then show ?thesis using None ne h1 by (simp add: up_Reset_def)
  next
    case (Some x)
    obtain m' where m': "new m = (True, m')" "set m' \<subseteq> set m" using new_good [OF m] by blast
    from up_put [of adr x X h1 i m] obtain T where "unique_key_register x (adr i) m (upKeys h1) = (0, m', T)"
      "up_inv adr X (h1\<lparr>upVars := (upVars h1)[i := Some x], upKeys := T\<rparr>)" using h1 Some X i m' by auto
    then show ?thesis using Some ne h1 m' by (simp add: up_Reset_def)
  qed
qed

lemma up_Release_ok:
  assumes inv: "up_inv adr {} h" and i: "i < length (upVars h)"
  shows "\<exists>object h'. up_Release adr i h = Some (object, h') \<and> up_inv adr (set_option object) h' \<and> upVars h' = (upVars h)[i := None]"
proof (cases "upVars h ! i")
  case None
  then have "h\<lparr>upVars := (upVars h)[i := None]\<rparr> = h" using i by (simp add: list_update_same_conv [THEN iffD2])
  then show ?thesis using None inv by (simp add: up_Release_def list_update_same_conv [THEN iffD2] i)
next
  case (Some x)
  then have x: "held h i x" using i by (simp add: held_def)
  from up_take [OF inv x] show ?thesis using Some by (auto simp: up_Release_def)
qed


lemma up_make_ok:
  assumes inv: "up_inv adr (set_option object) h" and m: "False \<notin> set m"
  shows "\<exists>m' h'. up_make adr object m h = Some (m', h') \<and> up_inv adr {} h' \<and> length (upVars h') = Suc (length (upVars h)) \<and> set m' \<subseteq> set m"
proof -
  obtain i h1 where d: "up_default h = (i, h1)" by fastforce
  note D = up_default_inv [OF inv d]
  then have "up_inv adr (set_option object \<union> {}) h1" "i < length (upVars h1)" by auto
  from up_Reset_ok [OF this(1) _ this(2) m] show ?thesis using d D by (simp add: up_make_def)
qed

lemma up_hand_over:
  assumes inv: "up_inv adr {} h" and i: "i < length (upVars h)" "j < length (upVars h)" and m: "False \<notin> set m"
  shows "\<exists>m' h'. (do { (object, h) \<leftarrow> up_Release adr j h; up_Reset adr i object m h }) = Some (m', h') \<and> up_inv adr {} h' \<and>
    length (upVars h') = length (upVars h) \<and> set m' \<subseteq> set m"
proof -
  from up_Release_ok [OF inv i(2)] obtain object h1 where r: "up_Release adr j h = Some (object, h1)" "up_inv adr (set_option object \<union> {}) h1"
    "upVars h1 = (upVars h)[j := None]" by auto
  then have "i < length (upVars h1)" using i by simp
  from up_Reset_ok [OF r(2) _ this m] show ?thesis using r by simp
qed

lemma up_live_count:
  assumes "up_inv adr {} h"
  shows "card (upObjects h) \<le> length (upVars h)"
proof -
  have "Some ` upObjects h \<subseteq> set (upVars h)" using up_invD(6) [OF assms] by (auto simp: held_def) (metis nth_mem)
  then have "card (Some ` upObjects h) \<le> card (set (upVars h))" by (rule card_mono [rotated]) simp
  moreover have "card (Some ` upObjects h) = card (upObjects h)" by (rule card_image) simp
  ultimately show ?thesis using card_length [of "upVars h"] by simp
qed

lemma up_fresh: "up_inv adr {} h \<Longrightarrow> x \<notin> upObjects h \<Longrightarrow> up_inv adr {x} (h\<lparr>upObjects := insert x (upObjects h)\<rparr>)"
proof (rule up_invI)
  assume inv: "up_inv adr {} h" and x: "x \<notin> upObjects h"
  let ?h = "h\<lparr>upObjects := insert x (upObjects h)\<rparr>"
  have hd: "held ?h = held h" by (simp add: fun_eq_iff held_def)
  show "keys_ok (upKeys ?h)" using up_invD(1) [OF inv] by simp
  show "y \<notin> {x} \<and> key_owner (upKeys ?h) y = Some (adr j)" if "held ?h j y" for j y
    using that up_invD(3) [OF inv, of j y] up_invD(6) [OF inv] x unfolding hd by auto
  show "j = l" if "held ?h j y" "held ?h l y" for j l y using that up_invD(4) [OF inv] unfolding hd by blast
  show "\<exists>j. held ?h j y" if "key_owner (upKeys ?h) y \<noteq> None" for y using that up_invD(5) [OF inv, of y] unfolding hd by simp
  show "upObjects ?h = {x} \<union> {y. \<exists>j. held ?h j y}" unfolding hd using up_invD(6) [OF inv] by auto
qed

definition alloc_law :: "nat \<Rightarrow> (uint64_t set \<Rightarrow> uint64_t) \<Rightarrow> bool" where
  "alloc_law n alloc \<longleftrightarrow> (\<forall>S. card S < n \<longrightarrow> alloc S \<notin> S)"

lemma MakeUnique_ok:
  assumes inv: "up_inv adr {} h" and m: "False \<notin> set m" and al: "alloc_law n alloc" "length (upVars h) < n"
  shows "\<exists>m' h'. MakeUnique adr alloc m h = Some (m', h') \<and> up_inv adr {} h' \<and> length (upVars h') = Suc (length (upVars h)) \<and> set m' \<subseteq> set m"
proof -
  obtain m1 where m1: "new m = (True, m1)" "set m1 \<subseteq> set m" using new_good [OF m] by blast
  have "alloc (upObjects h) \<notin> upObjects h" using al up_live_count [OF inv] by (simp add: alloc_law_def)
  then have "up_inv adr (set_option (Some (alloc (upObjects h)))) (h\<lparr>upObjects := insert (alloc (upObjects h)) (upObjects h)\<rparr>)" using up_fresh [OF inv] by simp
  moreover have "False \<notin> set m1" using m1 m by blast
  ultimately obtain m' h' where "up_make adr (Some (alloc (upObjects h))) m1 (h\<lparr>upObjects := insert (alloc (upObjects h)) (upObjects h)\<rparr>) = Some (m', h')"
    "up_inv adr {} h'" "length (upVars h') = Suc (length (upVars h))" "set m' \<subseteq> set m1" using up_make_ok by fastforce
  then show ?thesis using m1 by (auto simp: MakeUnique_def)
qed

lemma up_run_ok:
  assumes "up_inv adr {} h" "False \<notin> set m" "up_ops_ok (length (upVars h)) cs" "alloc_law n alloc" "length (upVars h) + length cs \<le> n"
  shows "\<exists>m' h'. up_run adr alloc cs m h = Some (m', h') \<and> up_inv adr {} h'"
  using assms
proof (induction cs arbitrary: m h)
  case (Cons c cs)
  have "\<exists>m1 h1. up_step adr alloc c m h = Some (m1, h1) \<and> up_inv adr {} h1 \<and> up_ops_ok (length (upVars h1)) cs \<and>
      length (upVars h1) + length cs \<le> n \<and> set m1 \<subseteq> set m"
  proof (cases c)
    case UpMake
    then show ?thesis using MakeUnique_ok [OF Cons.prems(1,2,4)] Cons.prems(3,5) by fastforce
  next
    case (UpMove j)
    obtain i h1 where d: "up_default h = (i, h1)" by fastforce
    note D = up_default_inv [OF Cons.prems(1) d]
    then have "i < length (upVars h1)" "j < length (upVars h1)" "length (upVars h1) = Suc (length (upVars h))" using UpMove Cons.prems(3) by simp_all
    with up_hand_over [of adr h1 i j m] D Cons.prems(2) show ?thesis using UpMove d Cons.prems(3,5) by (fastforce simp: up_move_def)
  next
    case (UpAssign i j)
    then show ?thesis using up_hand_over [of adr h i j m] Cons.prems by (fastforce simp: up_assign_def)
  next
    case (UpReset i)
    then show ?thesis using up_Reset_ok [of adr None "{}" h i m] Cons.prems by fastforce
  qed
  then obtain m1 h1 where s: "up_step adr alloc c m h = Some (m1, h1)" "up_inv adr {} h1" "up_ops_ok (length (upVars h1)) cs"
    "length (upVars h1) + length cs \<le> n" "set m1 \<subseteq> set m" by blast
  then have "False \<notin> set m1" using Cons.prems(2) by blast
  from Cons.IH [OF s(2) this s(3) Cons.prems(4) s(4)] show ?case using s(1) by simp
qed simp


section \<open>Properties\<close>

text \<open>
  Claim C13. An object has one owner: every program of constructions, moves, assignments and resets of owning pointers, assignments to itself included, runs without a failed
  assertion or a second deletion. After it an object is alive exactly when a variable holds it, no two variables hold the same object, and the table of unique keys maps exactly the objects
  that are alive to the addresses of the variables that hold them. The allocator gives addresses that are not in use, and allocations succeed.
\<close>

theorem unique_ptr_ownership:
  assumes "alloc_law (length cs) alloc" "up_ops_ok 0 cs" "False \<notin> set m"
  shows "\<exists>m' h. up_run adr alloc cs m up_empty = Some (m', h) \<and>
    (\<forall>x. x \<in> upObjects h \<longleftrightarrow> (\<exists>i. held h i x)) \<and> (\<forall>i j x. held h i x \<and> held h j x \<longrightarrow> i = j) \<and>
    (\<forall>x a. key_owner (upKeys h) x = Some a \<longleftrightarrow> (\<exists>i. held h i x \<and> a = adr i))"
proof -
  have "length (upVars up_empty) = 0" by (simp add: up_empty_def)
  then obtain m' h where r: "up_run adr alloc cs m up_empty = Some (m', h)" "up_inv adr {} h"
    using up_run_ok [OF up_empty_inv assms(3) _ assms(1)] assms(2) by fastforce
  have "key_owner (upKeys h) x = Some a \<longleftrightarrow> (\<exists>i. held h i x \<and> a = adr i)" for x a
    using up_invD(3,5) [OF r(2)] by (metis option.distinct(1) option.inject)
  then show ?thesis using r up_invD(4,6) [OF r(2)] by auto
qed

definition first_free :: "uint64_t set \<Rightarrow> uint64_t" where
  "first_free S = of_nat (LEAST n. of_nat n \<notin> S)"

lemma first_free_law: "n \<le> 18446744073709551616 \<Longrightarrow> alloc_law n first_free"
  unfolding alloc_law_def
proof (intro allI impI)
  fix S :: "uint64_t set" assume "n \<le> 18446744073709551616" "card S < n"
  then have "card S < CARD(uint64_t)" by (simp add: card_word)
  then obtain x where "x \<notin> S" by (metis less_irrefl UNIV_eq_I)
  then have "of_nat (unat x) \<notin> S" by simp
  then show "first_free S \<notin> S" unfolding first_free_def by (rule LeastI)
qed

theorem unique_ptr_ownership_witness:
  "\<exists>m h. up_run (\<lambda>i. of_nat i) first_free [UpMake, UpMove 0, UpMake, UpAssign 2 1, UpAssign 2 2, UpReset 0] [] up_empty = Some (m, h) \<and>
     (\<forall>i j x. held h i x \<and> held h j x \<longrightarrow> i = j)"
proof -
  let ?cs = "[UpMake, UpMove 0, UpMake, UpAssign 2 1, UpAssign 2 2, UpReset 0]"
  have "alloc_law (length ?cs) first_free" by (rule first_free_law) simp
  moreover have "up_ops_ok 0 ?cs" by simp
  ultimately show ?thesis using unique_ptr_ownership [of ?cs first_free "[]" "\<lambda>i. of_nat i"] by (metis empty_iff list.set(1))
qed

text \<open>
  A registration that is lost for want of memory stops the machine later: when the entry cannot be allocated, making the pointer succeeds all the same, since
  \<open>unique_key_register\<close> returns zero, and the reset of that pointer fails its assertion although the program did nothing wrong.
\<close>

theorem unique_ptr_lost_registration:
  assumes "alloc_law 1 alloc"
  shows "\<exists>h. MakeUnique adr alloc (True # False # m) up_empty = Some (m, h) \<and> held h 0 (alloc {}) \<and> up_Reset adr 0 None m h = None"
proof -
  let ?x = "alloc {}"
  from uk.reg_lost [OF init_ok(1), of "False # m" ?x "adr 0"] obtain T where
    T: "unique_key_register ?x (adr 0) (False # m) unique_key_init = (0, m, T)" "keys_ok T" "key_owner T = Map.empty" by (auto simp: init_ok)
  from uk.unreg_other [OF T(2), of ?x "adr 0"] obtain r where r: "r \<noteq> 0" "unique_key_unregister ?x (adr 0) T = (r, T)" using T(3) by auto
  let ?h = "\<lparr>upObjects = {?x}, upVars = [Some ?x], upKeys = T\<rparr>"
  have "MakeUnique adr alloc (True # False # m) up_empty = Some (m, ?h)"
    using T(1) by (simp add: MakeUnique_def up_make_def up_default_def up_Reset_def up_empty_def Let_def)
  moreover have "up_Reset adr 0 None m ?h = None" using r by (simp add: up_Reset_def)
  ultimately show ?thesis by (auto simp: held_def)
qed

theorem unique_ptr_lost_registration_witness:
  "\<exists>h. MakeUnique (\<lambda>i. of_nat i) first_free [True, False] up_empty = Some ([], h) \<and> up_Reset (\<lambda>i. of_nat i) 0 None [] h = None"
  using unique_ptr_lost_registration [of first_free "\<lambda>i. of_nat i" "[]"] first_free_law [of 1] by auto

end
