(* ===== verification/Malloc_Checker.thy ===== *)
theory Malloc_Checker
  imports Hash_Buckets Byte_Order "HOL-Library.Monad_Syntax"
begin

text \<open>
  The checker of kernel memory of \<^verbatim>\<open>src/system/malloc_checker.c\<close> as a debug build compiles it: blocks are filled when they are freed, and freeing is not
  delayed. Every block carries a signature in front and behind. The memory of the kernel is a map from the base addresses of its blocks to their bytes;
  \<open>Freed\<close> and \<open>Leaks\<close> record the blocks that were given back, with what they held at that moment, and the leaks that were reported. \<open>None\<close> is a failed \<^verbatim>\<open>BUG_ON\<close> or an access outside of a block.
\<close>

section \<open>Operations\<close>

definition MALLOC_CHECKER_NR_LISTS :: nat where "MALLOC_CHECKER_NR_LISTS = 9973"
definition MALLOC_CHECKER_SIGN1 :: uint64_t where "MALLOC_CHECKER_SIGN1 = 0xBEDABEDA"
definition MALLOC_CHECKER_SIGN2 :: uint64_t where "MALLOC_CHECKER_SIGN2 = 0xCBDACBDA"

record malloc_entry =
  mflags :: uint32_t
  mptr :: uint64_t
  msize :: size_t

record malloc_checker =
  entries_list :: "malloc_entry list list"
  Kmem :: "uint64_t \<rightharpoonup> bytes"
  Freed :: "(uint64_t \<times> bytes) list"
  Leaks :: "malloc_entry list"

definition malloc_checker_init :: "malloc_checker \<Rightarrow> malloc_checker" where
  "malloc_checker_init c = c\<lparr>entries_list := replicate MALLOC_CHECKER_NR_LISTS []\<rparr>"

definition mem_put :: "nat \<Rightarrow> bytes \<Rightarrow> bytes \<Rightarrow> bytes option" where
  "mem_put off src dst = guard (off + length src \<le> length dst) (Some (take off dst @ src @ drop (off + length src) dst))"

definition mem_word :: "host \<Rightarrow> nat \<Rightarrow> bytes \<Rightarrow> uint64_t option" where
  "mem_word host off b = guard (off + 8 \<le> length b) (Some (load64 host (drop off b)))"

text \<open>\<open>base\<close> is the address that the kernel gives for the block, \<open>junk n\<close> what a fresh block of \<open>n\<close> bytes holds. The size of the block wraps around.\<close>

definition malloc_checker_kmalloc ::
    "host \<Rightarrow> uint64_t \<Rightarrow> (nat \<Rightarrow> bytes) \<Rightarrow> size_t \<Rightarrow> uint32_t \<Rightarrow> mem \<Rightarrow> malloc_checker \<Rightarrow> (uint64_t option \<times> mem \<times> malloc_checker) option" where
  "malloc_checker_kmalloc host base junk size' flags m c =
     (let (ok, m) = new m
      in if \<not> ok then Some (None, m, c)
      else let (ok, m) = new m
      in if \<not> ok then Some (None, m, c)
      else do {
        let b = junk (unat (size' + 16));
        let ptr = base + 8;
        b \<leftarrow> mem_put 0 (store64 host MALLOC_CHECKER_SIGN1) b;
        b \<leftarrow> mem_put (8 + unat size') (store64 host MALLOC_CHECKER_SIGN2) b;
        let entry = \<lparr>mflags = flags, mptr = ptr, msize = size'\<rparr>;
        let i = bucket_index (length (entries_list c)) ptr;
        Some (Some ptr, m, c\<lparr>Kmem := (Kmem c)(base \<mapsto> b), entries_list := (entries_list c)[i := entry # entries_list c ! i]\<rparr>) })"

definition check_and_release_entry :: "host \<Rightarrow> malloc_entry \<Rightarrow> malloc_checker \<Rightarrow> malloc_checker option" where
  "check_and_release_entry host entry c = do {
     let psign1 = mptr entry - 8;
     b \<leftarrow> Kmem c psign1;
     s1 \<leftarrow> mem_word host 0 b;
     s2 \<leftarrow> mem_word host (8 + unat (msize entry)) b;
     guard (s1 = MALLOC_CHECKER_SIGN1) (guard (s2 = MALLOC_CHECKER_SIGN2) (do {
       b \<leftarrow> mem_put 8 (replicate (unat (msize entry)) 0xCC) b;
       Some (c\<lparr>Kmem := (Kmem c)(psign1 := None), Freed := Freed c @ [(psign1, b)]\<rparr>) })) }"

fun release_all :: "host \<Rightarrow> malloc_entry list \<Rightarrow> malloc_checker \<Rightarrow> malloc_checker option" where
  "release_all host [] c = Some c"
| "release_all host (e # es) c = do { c \<leftarrow> check_and_release_entry host e c; release_all host es c }"

text \<open>The entries of the pointer are moved to the front of a list of their own one by one, which turns their order around.\<close>

definition malloc_checker_kfree :: "host \<Rightarrow> uint64_t \<Rightarrow> malloc_checker \<Rightarrow> malloc_checker option" where
  "malloc_checker_kfree host ptr c =
     (let i = bucket_index (length (entries_list c)) ptr;
          es = entries_list c ! i
      in release_all host (rev (filter (\<lambda>curr. mptr curr = ptr) es)) (c\<lparr>entries_list := (entries_list c)[i := filter (\<lambda>curr. mptr curr \<noteq> ptr) es]\<rparr>))"

fun leak_all :: "host \<Rightarrow> malloc_entry list \<Rightarrow> malloc_checker \<Rightarrow> malloc_checker option" where
  "leak_all host [] c = Some c"
| "leak_all host (e # es) c = do { c \<leftarrow> check_and_release_entry host e (c\<lparr>Leaks := Leaks c @ [e]\<rparr>); leak_all host es c }"

fun malloc_deinit_loop :: "host \<Rightarrow> nat list \<Rightarrow> malloc_checker \<Rightarrow> malloc_checker option" where
  "malloc_deinit_loop host [] c = Some c"
| "malloc_deinit_loop host (i # is) c = do {
     c \<leftarrow> leak_all host (rev (entries_list c ! i)) (c\<lparr>entries_list := (entries_list c)[i := []]\<rparr>);
     malloc_deinit_loop host is c }"

definition malloc_checker_deinit :: "host \<Rightarrow> malloc_checker \<Rightarrow> malloc_checker option" where
  "malloc_checker_deinit host c = malloc_deinit_loop host [0..<length (entries_list c)] c"

text \<open>The client writes a byte at an offset from its pointer, which may lie in the block but outside of what it was given.\<close>

definition client_write :: "uint64_t \<Rightarrow> int \<Rightarrow> byte_t \<Rightarrow> malloc_checker \<Rightarrow> malloc_checker option" where
  "client_write ptr off v c = do {
     b \<leftarrow> Kmem c (ptr - 8);
     guard (- 8 \<le> off \<and> nat (8 + off) < length b) (Some (c\<lparr>Kmem := (Kmem c)(ptr - 8 \<mapsto> b[nat (8 + off) := v])\<rparr>)) }"

section \<open>Blocks\<close>

lemma load64_eq: "length p = 8 \<Longrightarrow> load64 host p = x \<longleftrightarrow> p = store64 host x"
proof
  assume l: "length p = 8"
  have "store64 host (load64 host p) = p"
    using l le_bytes_value [where ?'a = 64, of p] le_bytes_value [where ?'a = 64, of "rev p"] by (simp add: load64_def store64_def split: host.split)
  then show "load64 host p = x \<Longrightarrow> p = store64 host x" by metis
  show "load64 host p = x" if "p = store64 host x" using load_store64 [of host x "[]"] that by simp
qed

definition guarded :: "host \<Rightarrow> bytes \<Rightarrow> bytes" where
  "guarded host body = store64 host MALLOC_CHECKER_SIGN1 @ body @ store64 host MALLOC_CHECKER_SIGN2"

lemma length_guarded [simp]: "length (guarded host body) = length body + 16"
  by (simp add: guarded_def)

text \<open>The check passes exactly for a block whose guards are in place; then the body is overwritten.\<close>

lemma load64_take: "8 \<le> length p \<Longrightarrow> load64 host p = load64 host (take 8 p)"
  by (simp add: load64_def split: host.split)

lemma guards_iff:
  assumes "length b = n + 16"
  shows "load64 host b = MALLOC_CHECKER_SIGN1 \<and> load64 host (drop (8 + n) b) = MALLOC_CHECKER_SIGN2 \<longleftrightarrow> b = guarded host (take n (drop 8 b))"
proof -
  have b: "b = take 8 b @ take n (drop 8 b) @ drop (8 + n) b" by (metis append_take_drop_id drop_drop add.commute)
  have "load64 host b = load64 host (take 8 b)" using assms by (intro load64_take) simp
  then have "load64 host b = MALLOC_CHECKER_SIGN1 \<longleftrightarrow> take 8 b = store64 host MALLOC_CHECKER_SIGN1" using load64_eq [of "take 8 b"] assms by simp
  moreover have "load64 host (drop (8 + n) b) = MALLOC_CHECKER_SIGN2 \<longleftrightarrow> drop (8 + n) b = store64 host MALLOC_CHECKER_SIGN2"
    using assms by (intro load64_eq) simp
  moreover have "b = guarded host (take n (drop 8 b)) \<longleftrightarrow> take 8 b = store64 host MALLOC_CHECKER_SIGN1 \<and> drop (8 + n) b = store64 host MALLOC_CHECKER_SIGN2"
  proof
    assume g: "b = guarded host (take n (drop 8 b))"
    have "take 8 (guarded host x) = store64 host MALLOC_CHECKER_SIGN1" "drop (8 + length x) (guarded host x) = store64 host MALLOC_CHECKER_SIGN2" for x
      by (simp_all add: guarded_def)
    from this(1) [of "take n (drop 8 b)"] this(2) [of "take n (drop 8 b)"]
    show "take 8 b = store64 host MALLOC_CHECKER_SIGN1 \<and> drop (8 + n) b = store64 host MALLOC_CHECKER_SIGN2" unfolding g [symmetric] using assms by simp
  next
    assume "take 8 b = store64 host MALLOC_CHECKER_SIGN1 \<and> drop (8 + n) b = store64 host MALLOC_CHECKER_SIGN2"
    then show "b = guarded host (take n (drop 8 b))" using b by (simp only: guarded_def)
  qed
  ultimately show ?thesis by blast
qed

lemma check_ok:
  assumes "Kmem c (mptr e - 8) = Some b" "length b = unat (msize e) + 16"
  shows "check_and_release_entry host e c =
    (if b = guarded host (take (unat (msize e)) (drop 8 b))
     then Some (c\<lparr>Kmem := (Kmem c)(mptr e - 8 := None), Freed := Freed c @ [(mptr e - 8, guarded host (replicate (unat (msize e)) 0xCC))]\<rparr>)
     else None)"
proof -
  have "take 8 b @ replicate (unat (msize e)) 0xCC @ drop (8 + unat (msize e)) b = guarded host (replicate (unat (msize e)) 0xCC)"
    if "b = guarded host (take (unat (msize e)) (drop 8 b))"
  proof -
    have "take 8 (guarded host x) @ y @ drop (8 + length x) (guarded host x) = guarded host y" for x y by (simp add: guarded_def)
    from this [of "take (unat (msize e)) (drop 8 b)" "replicate (unat (msize e)) 0xCC"] show ?thesis unfolding that [symmetric] using assms(2) by simp
  qed
  then show ?thesis using assms guards_iff [OF assms(2), of host]
    by (auto simp: check_and_release_entry_def mem_word_def mem_put_def guard_def Let_def)
qed


section \<open>The invariant\<close>

definition entries :: "malloc_checker \<Rightarrow> malloc_entry list" where
  "entries c = concat (entries_list c)"

text \<open>The table and the entries \<open>es\<close>, which have been taken out of it, describe the memory.\<close>

definition mc_with :: "malloc_entry list \<Rightarrow> malloc_checker \<Rightarrow> bool" where
  "mc_with es c \<longleftrightarrow> buckets_ok mptr (entries_list c) \<and> distinct (map mptr (es @ entries c)) \<and>
     (\<forall>e \<in> set (es @ entries c). \<exists>b. Kmem c (mptr e - 8) = Some b \<and> length b = unat (msize e) + 16) \<and>
     dom (Kmem c) = (\<lambda>e. mptr e - 8) ` set (es @ entries c)"

abbreviation mc_inv :: "malloc_checker \<Rightarrow> bool" where
  "mc_inv c \<equiv> mc_with [] c"

lemma mc_withI:
  assumes "buckets_ok mptr (entries_list c)" "distinct (map mptr (es @ entries c))"
    and "\<And>e. e \<in> set (es @ entries c) \<Longrightarrow> \<exists>b. Kmem c (mptr e - 8) = Some b \<and> length b = unat (msize e) + 16"
    and "dom (Kmem c) = (\<lambda>e. mptr e - 8) ` set (es @ entries c)"
  shows "mc_with es c"
  using assms unfolding mc_with_def by blast

lemma mc_withD:
  assumes "mc_with es c"
  shows "buckets_ok mptr (entries_list c)" "distinct (map mptr (es @ entries c))"
    "e \<in> set (es @ entries c) \<Longrightarrow> \<exists>b. Kmem c (mptr e - 8) = Some b \<and> length b = unat (msize e) + 16"
    "dom (Kmem c) = (\<lambda>e. mptr e - 8) ` set (es @ entries c)"
  using assms unfolding mc_with_def by blast+

lemma mc_with_same: "mc_with es c \<Longrightarrow> mc_with es (c\<lparr>Freed := F, Leaks := L\<rparr>)"
  by (simp add: mc_with_def entries_def)

text \<open>Moving entries out of the table.\<close>

lemma mc_with_move:
  assumes "mc_with es c" "buckets_ok mptr T" "mset (es @ entries c) = mset (es' @ concat T)"
  shows "mc_with es' (c\<lparr>entries_list := T\<rparr>)"
proof -
  have e: "entries (c\<lparr>entries_list := T\<rparr>) = concat T" by (simp add: entries_def)
  have s: "set (es' @ concat T) = set (es @ entries c)" using assms(3) by (metis mset_eq_setD)
  have n: "entries_list (c\<lparr>entries_list := T\<rparr>) = T" "Kmem (c\<lparr>entries_list := T\<rparr>) = Kmem c" by simp_all
  show ?thesis
  proof (rule mc_withI, unfold n e s)
    show "buckets_ok mptr T" by (rule assms(2))
    show "distinct (map mptr (es' @ concat T))" using distinct_keys_mset [OF assms(3), of mptr] mc_withD(2) [OF assms(1)] by blast
    show "\<exists>b. Kmem c (mptr x - 8) = Some b \<and> length b = unat (msize x) + 16" if "x \<in> set (es @ entries c)" for x by (rule mc_withD(3) [OF assms(1) that])
    show "dom (Kmem c) = (\<lambda>e. mptr e - 8) ` set (es @ entries c)" by (rule mc_withD(4) [OF assms(1)])
  qed
qed

lemma mc_with_other: "mc_with (e # es) c \<Longrightarrow> x \<in> set (es @ entries c) \<Longrightarrow> mptr x - 8 \<noteq> mptr e - 8"
  using mc_withD(2) [of "e # es" c] unfolding append_Cons list.map distinct.simps set_map by (metis diff_add_cancel imageI)

text \<open>Giving the block of the first of them back.\<close>

lemma mc_with_release:
  assumes "mc_with (e # es) c"
  shows "mc_with es (c\<lparr>Kmem := (Kmem c)(mptr e - 8 := None), Freed := F\<rparr>)"
proof -
  let ?c = "c\<lparr>Kmem := (Kmem c)(mptr e - 8 := None), Freed := F\<rparr>"
  have n: "entries ?c = entries c" "entries_list ?c = entries_list c" "Kmem ?c = (Kmem c)(mptr e - 8 := None)" by (simp_all add: entries_def)
  have d: "distinct (map mptr (es @ entries c))" using mc_withD(2) [OF assms] by simp
  note ne = mc_with_other [OF assms]
  show ?thesis
  proof (rule mc_withI, unfold n)
    show "buckets_ok mptr (entries_list c)" by (rule mc_withD(1) [OF assms])
    show "distinct (map mptr (es @ entries c))" by (rule d)
    show "\<exists>b. ((Kmem c)(mptr e - 8 := None)) (mptr x - 8) = Some b \<and> length b = unat (msize x) + 16" if "x \<in> set (es @ entries c)" for x
      using mc_withD(3) [OF assms, of x] ne [OF that] that by simp
    have "dom (Kmem c) = insert (mptr e - 8) ((\<lambda>e. mptr e - 8) ` set (es @ entries c))" using mc_withD(4) [OF assms] by simp
    moreover have "mptr e - 8 \<notin> (\<lambda>e. mptr e - 8) ` set (es @ entries c)" using ne by (metis (no_types, lifting) imageE)
    ultimately show "dom ((Kmem c)(mptr e - 8 := None)) = (\<lambda>e. mptr e - 8) ` set (es @ entries c)" by auto
  qed
qed

text \<open>The block of an entry has its guards.\<close>

definition intact :: "host \<Rightarrow> malloc_checker \<Rightarrow> malloc_entry \<Rightarrow> bool" where
  "intact host c e \<longleftrightarrow> (\<exists>body. length body = unat (msize e) \<and> Kmem c (mptr e - 8) = Some (guarded host body))"

lemma intact_iff:
  assumes "Kmem c (mptr e - 8) = Some b" "length b = unat (msize e) + 16"
  shows "intact host c e \<longleftrightarrow> b = guarded host (take (unat (msize e)) (drop 8 b))"
proof
  assume "intact host c e"
  then obtain body where body: "length body = unat (msize e)" "b = guarded host body" using assms(1) by (auto simp: intact_def)
  then have "take (unat (msize e)) (drop 8 b) = body" by (simp add: guarded_def)
  then show "b = guarded host (take (unat (msize e)) (drop 8 b))" using body(2) by simp
next
  assume "b = guarded host (take (unat (msize e)) (drop 8 b))"
  then show "intact host c e" using assms unfolding intact_def by (intro exI [of _ "take (unat (msize e)) (drop 8 b)"]) simp
qed

lemma check_intact:
  assumes "mc_with (e # es) c"
  shows "check_and_release_entry host e c =
    (if intact host c e
     then Some (c\<lparr>Kmem := (Kmem c)(mptr e - 8 := None), Freed := Freed c @ [(mptr e - 8, guarded host (replicate (unat (msize e)) 0xCC))]\<rparr>)
     else None)"
proof -
  obtain b where b: "Kmem c (mptr e - 8) = Some b" "length b = unat (msize e) + 16" using mc_withD(3) [OF assms, of e] by auto
  show ?thesis using check_ok [OF b, of host] intact_iff [OF b, of host] by simp
qed

lemma intact_cong: "Kmem c' (mptr e - 8) = Kmem c (mptr e - 8) \<Longrightarrow> intact host c' e \<longleftrightarrow> intact host c e"
  by (simp add: intact_def)

lemma kmalloc_ok:
  assumes inv: "mc_inv c" and base: "Kmem c base = None" and sz: "unat size' + 16 < 18446744073709551616" and junk: "\<And>n. length (junk n) = n"
    and m: "new m = (True, m1)" "new m1 = (True, m2)"
  shows "\<exists>c' body. malloc_checker_kmalloc host base junk size' flags m c = Some (Some (base + 8), m2, c') \<and> mc_inv c' \<and> length body = unat size' \<and>
    mset (entries c') = add_mset \<lparr>mflags = flags, mptr = base + 8, msize = size'\<rparr> (mset (entries c)) \<and>
    Kmem c' = (Kmem c)(base \<mapsto> guarded host body) \<and> Freed c' = Freed c"
proof -
  let ?e = "\<lparr>mflags = flags, mptr = base + 8, msize = size'\<rparr>" and ?n = "unat size'"
  let ?i = "bucket_index (length (entries_list c)) (base + 8)"
  let ?T = "(entries_list c)[?i := ?e # entries_list c ! ?i]"
  have b: "buckets_ok mptr (entries_list c)" by (rule mc_withD(1) [OF inv])
  have n16: "unat (size' + 16) = ?n + 16" using sz by (simp add: unat_word_ariths take_bit_nat_eq_self)
  define body where "body = take ?n (drop 8 (junk (?n + 16)))"
  have j: "mem_put 0 (store64 host MALLOC_CHECKER_SIGN1) (junk (?n + 16)) = Some (store64 host MALLOC_CHECKER_SIGN1 @ drop 8 (junk (?n + 16)))"
    by (simp add: mem_put_def junk)
  have g: "mem_put (8 + ?n) (store64 host MALLOC_CHECKER_SIGN2) (store64 host MALLOC_CHECKER_SIGN1 @ drop 8 (junk (?n + 16))) = Some (guarded host body)"
    by (simp add: mem_put_def junk guarded_def body_def)
  have lb: "length body = ?n" by (simp add: body_def junk)
  let ?c = "c\<lparr>Kmem := (Kmem c)(base \<mapsto> guarded host body), entries_list := ?T\<rparr>"
  have k: "malloc_checker_kmalloc host base junk size' flags m c = Some (Some (base + 8), m2, ?c)"
    using m by (simp add: malloc_checker_kmalloc_def n16 j g Let_def)
  have ms: "mset (concat ?T) = add_mset ?e (mset (entries c))"
    unfolding entries_def using b by (intro mset_add_entry [of _ _ "base + 8"]) (auto simp: buckets_ok_def)
  then have st: "set (concat ?T) = insert ?e (set (entries c))" by (metis set_mset_add_mset_insert set_mset_mset)
  have new: "mptr e - 8 \<noteq> base" if "e \<in> set (entries c)" for e using mc_withD(3) [OF inv, of e] that base by auto
  have "distinct (map mptr (concat ?T)) \<longleftrightarrow> distinct (map mptr (?e # entries c))"
    by (rule distinct_keys_mset) (simp add: ms)
  moreover have "mptr e \<noteq> base + 8" if "e \<in> set (entries c)" for e using new [OF that] by auto
  ultimately have d: "distinct (map mptr (concat ?T))" using mc_withD(2) [OF inv] by auto
  have n: "entries ?c = concat ?T" "entries_list ?c = ?T" "Kmem ?c = (Kmem c)(base \<mapsto> guarded host body)" by (simp_all add: entries_def)
  have "mc_inv ?c"
  proof (rule mc_withI, unfold n append.left_neutral)
    show "buckets_ok mptr ?T" by (rule buckets_update [OF b refl]) auto
    show "distinct (map mptr (concat ?T))" by (rule d)
    show "\<exists>b. ((Kmem c)(base \<mapsto> guarded host body)) (mptr e - 8) = Some b \<and> length b = unat (msize e) + 16" if "e \<in> set (concat ?T)" for e
      using that new lb mc_withD(3) [OF inv, of e] unfolding st by auto
    show "dom ((Kmem c)(base \<mapsto> guarded host body)) = (\<lambda>e. mptr e - 8) ` set (concat ?T)" unfolding st using mc_withD(4) [OF inv] by simp
  qed
  then show ?thesis using k lb ms by (auto simp: entries_def)
qed

text \<open>Freeing a pointer takes its only entry out of the table and releases it.\<close>

lemma release_all_Nil: "release_all host [] = Some"
  by (rule ext) simp

lemma kfree_live:
  assumes inv: "mc_inv c" and e: "e \<in> set (entries c)"
  shows "\<exists>T. malloc_checker_kfree host (mptr e) c = check_and_release_entry host e (c\<lparr>entries_list := T\<rparr>) \<and>
    mc_with [e] (c\<lparr>entries_list := T\<rparr>) \<and> concat T = filter (\<lambda>x. mptr x \<noteq> mptr e) (entries c)"
proof -
  let ?i = "bucket_index (length (entries_list c)) (mptr e)"
  let ?T = "(entries_list c)[?i := filter (\<lambda>curr. mptr curr \<noteq> mptr e) (entries_list c ! ?i)]"
  have b: "buckets_ok mptr (entries_list c)" and d: "distinct (map mptr (entries c))" using mc_withD(1,2) [OF inv] by simp_all
  have one: "filter (\<lambda>curr. mptr curr = mptr e) (entries_list c ! ?i) = [e]"
    using filter_key_concat [OF b refl, of "mptr e"] one_with_key [OF d e] by (simp add: entries_def)
  have T: "concat ?T = filter (\<lambda>x. mptr x \<noteq> mptr e) (entries c)" using remove_key_concat [OF b refl] by (simp add: entries_def)
  have ms: "mset (entries c) = add_mset e (mset (concat ?T))"
    unfolding T using multiset_partition [of "mset (entries c)" "\<lambda>x. mptr x = mptr e"] one_with_key [OF d e] by (simp flip: mset_filter)
  have bT: "buckets_ok mptr ?T" by (rule buckets_update [OF b refl]) auto
  have "mc_with [e] (c\<lparr>entries_list := ?T\<rparr>)" by (rule mc_with_move [OF inv bT]) (simp add: ms)
  moreover have "malloc_checker_kfree host (mptr e) c = check_and_release_entry host e (c\<lparr>entries_list := ?T\<rparr>)"
    by (simp add: malloc_checker_kfree_def one Let_def release_all_Nil)
  ultimately show ?thesis using T by blast
qed

lemma kfree_unknown:
  assumes inv: "mc_inv c" and p: "p \<notin> mptr ` set (entries c)"
  shows "malloc_checker_kfree host p c = Some c"
proof -
  let ?i = "bucket_index (length (entries_list c)) p"
  have b: "buckets_ok mptr (entries_list c)" by (rule mc_withD(1) [OF inv])
  then have i: "?i < length (entries_list c)" by (simp add: buckets_ok_def bucket_index_less)
  have "mptr e \<noteq> p" if "e \<in> set (entries_list c ! ?i)" for e using p i that nth_mem [OF i] by (force simp: entries_def)
  then have "filter (\<lambda>e. mptr e = p) (entries_list c ! ?i) = []" "filter (\<lambda>e. mptr e \<noteq> p) (entries_list c ! ?i) = entries_list c ! ?i"
    by (simp_all add: filter_empty_conv filter_id_conv)
  then show ?thesis by (simp add: malloc_checker_kfree_def Let_def)
qed

section \<open>Leaks\<close>

lemma leak_all_ok:
  assumes "mc_with es c" "\<forall>e \<in> set (es @ entries c). intact host c e"
  shows "\<exists>c'. leak_all host es c = Some c' \<and> mc_inv c' \<and> entries_list c' = entries_list c \<and> Leaks c' = Leaks c @ es \<and> (\<forall>e \<in> set (entries c'). intact host c' e)"
  using assms
proof (induction es arbitrary: c)
  case (Cons e es)
  let ?l = "c\<lparr>Leaks := Leaks c @ [e]\<rparr>"
  let ?c = "?l\<lparr>Kmem := (Kmem c)(mptr e - 8 := None), Freed := Freed c @ [(mptr e - 8, guarded host (replicate (unat (msize e)) 0xCC))]\<rparr>"
  have l: "mc_with (e # es) ?l" using Cons.prems(1) by (simp add: mc_with_def entries_def)
  have "intact host ?l e" using Cons.prems(2) by (simp add: intact_def)
  then have s: "check_and_release_entry host e ?l = Some ?c" using check_intact [OF l, of host] by simp
  have inv: "mc_with es ?c" using mc_with_release [OF l] by simp
  have n: "entries ?c = entries c" by (simp add: entries_def)
  from mc_with_other [OF Cons.prems(1)] have "\<forall>x \<in> set (es @ entries ?c). intact host ?c x" unfolding n using Cons.prems(2) by (simp add: intact_def)
  from Cons.IH [OF inv this] show ?case using s by auto
qed simp

lemma deinit_loop_ok:
  assumes "mc_inv c" "\<forall>e \<in> set (entries c). intact host c e" "set is \<subseteq> {..<length (entries_list c)}" "distinct is"
  shows "\<exists>c'. malloc_deinit_loop host is c = Some c' \<and> mc_inv c' \<and> length (entries_list c') = length (entries_list c) \<and>
    (\<forall>i<length (entries_list c). entries_list c' ! i = (if i \<in> set is then [] else entries_list c ! i)) \<and>
    Leaks c' = Leaks c @ concat (map (\<lambda>i. rev (entries_list c ! i)) is)"
  using assms
proof (induction "is" arbitrary: c)
  case (Cons i "is")
  have i: "i < length (entries_list c)" using Cons.prems(3) by simp
  let ?T = "(entries_list c)[i := []]" let ?c = "c\<lparr>entries_list := ?T\<rparr>" let ?es = "rev (entries_list c ! i)"
  have b: "buckets_ok mptr ?T"
  proof -
    have "bucket_index (length (entries_list c)) (mptr e) = j" if "j < length (entries_list c)" "e \<in> set (?T ! j)" for j e
      using that mc_withD(1) [OF Cons.prems(1)] by (cases "j = i") (simp_all add: buckets_ok_def)
    then show ?thesis using i by (simp add: buckets_ok_def) auto
  qed
  have ms: "mset ([] @ entries c) = mset (?es @ concat ?T)" using mset_concat_update [OF i, of "[]"] by (simp add: entries_def ac_simps)
  have w: "mc_with ?es ?c" by (rule mc_with_move [OF Cons.prems(1) b ms])
  have "entries ?c = concat ?T" by (simp add: entries_def)
  then have "set (?es @ entries ?c) = set (entries c)" using mset_eq_setD [OF ms] by simp
  then have "\<forall>e \<in> set (?es @ entries ?c). intact host ?c e" using Cons.prems(2) by (simp add: intact_def)
  from leak_all_ok [OF w this] obtain c1 where c1: "leak_all host ?es ?c = Some c1" "mc_inv c1" "entries_list c1 = ?T" "Leaks c1 = Leaks c @ ?es"
    "\<forall>e \<in> set (entries c1). intact host c1 e" by auto
  have "set is \<subseteq> {..<length (entries_list c1)}" "distinct is" "i \<notin> set is" using Cons.prems(3,4) c1(3) by auto
  from Cons.IH [OF c1(2,5) this(1,2)] obtain c' where c': "malloc_deinit_loop host is c1 = Some c'" "mc_inv c'"
    "length (entries_list c') = length (entries_list c1)" "\<forall>j<length (entries_list c1). entries_list c' ! j = (if j \<in> set is then [] else entries_list c1 ! j)"
    "Leaks c' = Leaks c1 @ concat (map (\<lambda>i. rev (entries_list c1 ! i)) is)" by auto
  have "?T ! x = entries_list c ! x" if "x \<in> set is" for x using that \<open>i \<notin> set is\<close> by (cases "x = i") auto
  then have "map (\<lambda>j. rev (entries_list c1 ! j)) is = map (\<lambda>j. rev (entries_list c ! j)) is" using c1(3) by (intro map_cong) simp_all
  then have lk: "Leaks c' = Leaks c @ concat (map (\<lambda>i. rev (entries_list c ! i)) (i # is))" using c1(4) c'(5) by (simp only: list.map concat.simps append_assoc)
  have "entries_list c' ! j = (if j \<in> set (i # is) then [] else entries_list c ! j)" if "j < length (entries_list c)" for j
    using c'(4) c1(3) that by (cases "j = i") auto
  moreover have "malloc_deinit_loop host (i # is) c = Some c'" using c1(1) c'(1) by simp
  ultimately show ?case using lk c'(2,3) c1(3) by (metis length_list_update)
qed simp


section \<open>Writes of the client\<close>

lemma guarded_update:
  assumes "k < length body + 16"
  shows "(\<exists>body'. length body' = length body \<and> (guarded host body)[k := v] = guarded host body') \<longleftrightarrow>
    8 \<le> k \<and> k < 8 + length body \<or> v = guarded host body ! k"
proof (cases "8 \<le> k \<and> k < 8 + length body")
  case True
  then have "k - 8 < length body" by arith
  then have "(guarded host body)[k := v] = guarded host (body[k - 8 := v])" using True by (simp add: guarded_def list_update_append)
  moreover have "length (body[k - 8 := v]) = length body" by simp
  ultimately show ?thesis using True by blast
next
  case False
  have same: "guarded host x ! k = guarded host body ! k" if "length x = length body" for x
    using False assms that by (auto simp: guarded_def nth_append)
  show ?thesis
  proof
    assume "\<exists>body'. length body' = length body \<and> (guarded host body)[k := v] = guarded host body'"
    then obtain x where x: "length x = length body" "(guarded host body)[k := v] = guarded host x" by blast
    then have "guarded host x ! k = v" using assms by (metis length_guarded nth_list_update_eq)
    then show "8 \<le> k \<and> k < 8 + length body \<or> v = guarded host body ! k" using same [OF x(1)] by simp
  next
    assume "8 \<le> k \<and> k < 8 + length body \<or> v = guarded host body ! k"
    then have "(guarded host body)[k := v] = guarded host body" using False by (simp add: list_update_same_conv assms)
    then show "\<exists>body'. length body' = length body \<and> (guarded host body)[k := v] = guarded host body'" by blast
  qed
qed

lemma client_write_ok:
  assumes inv: "mc_inv c" and e: "e \<in> set (entries c)" "Kmem c (mptr e - 8) = Some b" and off: "- 8 \<le> off" "off < int (unat (msize e)) + 8"
  shows "client_write (mptr e) off v c = Some (c\<lparr>Kmem := (Kmem c)(mptr e - 8 \<mapsto> b[nat (8 + off) := v])\<rparr>) \<and>
    mc_inv (c\<lparr>Kmem := (Kmem c)(mptr e - 8 \<mapsto> b[nat (8 + off) := v])\<rparr>)"
proof -
  have l: "length b = unat (msize e) + 16" using mc_withD(3) [OF inv, of e] e by simp
  let ?K = "(Kmem c)(mptr e - 8 \<mapsto> b[nat (8 + off) := v])" let ?c = "c\<lparr>Kmem := ?K\<rparr>"
  have n: "entries ?c = entries c" "entries_list ?c = entries_list c" "Kmem ?c = ?K" by (simp_all add: entries_def)
  have "mc_inv ?c"
  proof (rule mc_withI, unfold n)
    show "buckets_ok mptr (entries_list c)" "distinct (map mptr ([] @ entries c))" using mc_withD(1,2) [OF inv] by simp_all
    show "\<exists>b. ?K (mptr x - 8) = Some b \<and> length b = unat (msize x) + 16" if "x \<in> set ([] @ entries c)" for x
    proof (cases "mptr x = mptr e")
      case True
      then have "x = e" using that e(1) mc_withD(2) [OF inv] by (metis append_Nil distinct_map inj_onD)
      then show ?thesis using l by simp
    next
      case False
      then show ?thesis using mc_withD(3) [OF inv that] by simp
    qed
    have "mptr e - 8 \<in> dom (Kmem c)" using e(2) by blast
    then show "dom ?K = (\<lambda>e. mptr e - 8) ` set ([] @ entries c)" using mc_withD(4) [OF inv] by auto
  qed
  moreover have "nat (8 + off) < length b" using off l by linarith
  ultimately show ?thesis using off e(2) by (simp add: client_write_def)
qed

lemma malloc_deinit_ok:
  assumes inv: "mc_inv c" and i: "\<forall>e \<in> set (entries c). intact host c e"
  shows "\<exists>c'. malloc_checker_deinit host c = Some c' \<and> Leaks c' = Leaks c @ concat (map rev (entries_list c)) \<and>
    mset (concat (map rev (entries_list c))) = mset (entries c) \<and> entries c' = [] \<and> Kmem c' = Map.empty"
proof -
  let ?n = "length (entries_list c)"
  have "set [0..<?n] \<subseteq> {..<?n}" by auto
  from deinit_loop_ok [OF inv i this distinct_upt] obtain c' where c': "malloc_checker_deinit host c = Some c'" "mc_inv c'" "length (entries_list c') = ?n"
    "\<forall>i<?n. entries_list c' ! i = []" "Leaks c' = Leaks c @ concat (map (\<lambda>i. rev (entries_list c ! i)) [0..<?n])" by (auto simp: malloc_checker_deinit_def)
  have "map (\<lambda>i. rev (entries_list c ! i)) [0..<?n] = map rev (entries_list c)" by (rule nth_equalityI) simp_all
  moreover have "entries_list c' = replicate ?n []" using c'(3,4) by (intro nth_equalityI) simp_all
  then have e: "entries c' = []" by (simp add: entries_def)
  moreover have "Kmem c' = Map.empty" using mc_withD(4) [OF c'(2)] e by simp
  moreover have "mset (concat (map rev T)) = mset (concat T)" for T :: "malloc_entry list list" by (induction T) simp_all
  ultimately show ?thesis using c'(1,5) by (simp add: entries_def)
qed

section \<open>Programs that stay in their blocks\<close>

text \<open>
  What a correct client makes of the checker: it allocates blocks whose size does not wrap around, at addresses that the kernel has free, writes into its blocks, and frees any pointer. \<open>junk\<close> is
  the content of fresh memory.
\<close>

inductive mc_reach :: "host \<Rightarrow> (nat \<Rightarrow> bytes) \<Rightarrow> malloc_checker \<Rightarrow> bool" for host junk where
  mc_reach_init: "Kmem c = Map.empty \<Longrightarrow> Leaks c = [] \<Longrightarrow> mc_reach host junk (malloc_checker_init c)"
| mc_reach_kmalloc: "mc_reach host junk c \<Longrightarrow> Kmem c base = None \<Longrightarrow> unat size' + 16 < 18446744073709551616 \<Longrightarrow>
    malloc_checker_kmalloc host base junk size' flags m c = Some (r, m', c') \<Longrightarrow> mc_reach host junk c'"
| mc_reach_kfree: "mc_reach host junk c \<Longrightarrow> malloc_checker_kfree host ptr c = Some c' \<Longrightarrow> mc_reach host junk c'"
| mc_reach_write: "mc_reach host junk c \<Longrightarrow> e \<in> set (entries c) \<Longrightarrow> 0 \<le> off \<Longrightarrow> off < int (unat (msize e)) \<Longrightarrow>
    client_write (mptr e) off v c = Some c' \<Longrightarrow> mc_reach host junk c'"

definition mc_good :: "host \<Rightarrow> malloc_checker \<Rightarrow> bool" where
  "mc_good host c \<longleftrightarrow> mc_inv c \<and> Leaks c = [] \<and> (\<forall>e \<in> set (entries c). intact host c e)"

lemma kmalloc_good:
  assumes g: "mc_good host c" and a: "Kmem c base = None" "unat size' + 16 < 18446744073709551616" and junk: "\<And>n. length (junk n) = n"
  shows "\<exists>m' c'. malloc_checker_kmalloc host base junk size' flags m c =
      Some (if fst (new m) \<and> fst (new (snd (new m))) then Some (base + 8) else None, m', c') \<and> mc_good host c' \<and>
    (if fst (new m) \<and> fst (new (snd (new m))) then mset (entries c') = add_mset \<lparr>mflags = flags, mptr = base + 8, msize = size'\<rparr> (mset (entries c)) else c' = c)"
proof (cases "fst (new m) \<and> fst (new (snd (new m)))")
  case False
  then show ?thesis using g by (cases "fst (new m)") (auto simp: malloc_checker_kmalloc_def split: prod.splits)
next
  case True
  have inv: "mc_inv c" and ia: "\<forall>e \<in> set (entries c). intact host c e" using g by (simp_all add: mc_good_def)
  obtain m1 m2 where m: "new m = (True, m1)" "new m1 = (True, m2)" using True by (metis prod.collapse)
  from kmalloc_ok [OF inv a junk m, of host flags] obtain c' body where
    c': "malloc_checker_kmalloc host base junk size' flags m c = Some (Some (base + 8), m2, c')" "mc_inv c'" "length body = unat size'"
      "mset (entries c') = add_mset \<lparr>mflags = flags, mptr = base + 8, msize = size'\<rparr> (mset (entries c))" "Kmem c' = (Kmem c)(base \<mapsto> guarded host body)" by blast
  have "intact host c' e" if "e \<in> set (entries c')" for e
  proof (cases "e = \<lparr>mflags = flags, mptr = base + 8, msize = size'\<rparr>")
    case False
    then have "e \<in> set (entries c)" using that c'(4) by (metis insert_iff set_mset_add_mset_insert set_mset_mset)
    moreover from this have "mptr e - 8 \<noteq> base" using mc_withD(3) [OF inv, of e] a(1) by auto
    ultimately show ?thesis using ia c'(5) by (auto simp: intact_def)
  qed (use c'(3,5) in \<open>auto simp: intact_def\<close>)
  moreover have "Leaks c' = []" using c'(1) g m by (auto simp: malloc_checker_kmalloc_def mc_good_def Let_def split: bind_splits)
  ultimately have "mc_good host c'" using c'(2) by (simp add: mc_good_def)
  then show ?thesis using c'(1,4) True by auto
qed

lemma kfree_good:
  assumes g: "mc_good host c"
  shows "\<exists>c'. malloc_checker_kfree host ptr c = Some c' \<and> mc_good host c' \<and> entries c' = filter (\<lambda>x. mptr x \<noteq> ptr) (entries c)"
proof (cases "ptr \<in> mptr ` set (entries c)")
  case False
  then have "filter (\<lambda>x. mptr x \<noteq> ptr) (entries c) = entries c" by (force simp: filter_id_conv)
  then show ?thesis using kfree_unknown [of c ptr host] False g by (simp add: mc_good_def)
next
  case True
  then obtain e where e: "e \<in> set (entries c)" "ptr = mptr e" by blast
  have inv: "mc_inv c" and ia: "\<forall>e \<in> set (entries c). intact host c e" using g by (simp_all add: mc_good_def)
  from kfree_live [OF inv e(1), of host] obtain T where T: "malloc_checker_kfree host (mptr e) c = check_and_release_entry host e (c\<lparr>entries_list := T\<rparr>)"
    "mc_with [e] (c\<lparr>entries_list := T\<rparr>)" "concat T = filter (\<lambda>x. mptr x \<noteq> mptr e) (entries c)" by blast
  let ?c = "c\<lparr>entries_list := T, Kmem := (Kmem c)(mptr e - 8 := None), Freed := Freed c @ [(mptr e - 8, guarded host (replicate (unat (msize e)) 0xCC))]\<rparr>"
  have "intact host (c\<lparr>entries_list := T\<rparr>) e" using ia e(1) by (simp add: intact_def)
  then have k: "malloc_checker_kfree host ptr c = Some ?c" using T(1) check_intact [OF T(2), of host] e(2) by simp
  have inv': "mc_inv ?c" using mc_with_release [OF T(2)] by simp
  have en: "entries ?c = filter (\<lambda>x. mptr x \<noteq> ptr) (entries c)" using T(3) e(2) by (simp add: entries_def)
  have "intact host ?c x" if "x \<in> set (entries ?c)" for x using that ia unfolding en e(2) by (auto simp: intact_def)
  then have "mc_good host ?c" using inv' g by (simp add: mc_good_def)
  then show ?thesis using k en by blast
qed

lemma write_good:
  assumes g: "mc_good host c" and e: "e \<in> set (entries c)" and off: "0 \<le> off" "off < int (unat (msize e))"
  shows "\<exists>c'. client_write (mptr e) off v c = Some c' \<and> mc_good host c' \<and> entries c' = entries c"
proof -
  have inv: "mc_inv c" and ia: "\<forall>e \<in> set (entries c). intact host c e" using g by (simp_all add: mc_good_def)
  from ia e obtain body where body: "length body = unat (msize e)" "Kmem c (mptr e - 8) = Some (guarded host body)" by (auto simp: intact_def)
  let ?k = "nat (8 + off)"
  let ?c = "c\<lparr>Kmem := (Kmem c)(mptr e - 8 \<mapsto> (guarded host body)[?k := v])\<rparr>"
  have w: "client_write (mptr e) off v c = Some ?c" "mc_inv ?c" using client_write_ok [OF inv e body(2), of off v] off by simp_all
  have k: "8 \<le> ?k" "?k < 8 + length body" using off body(1) by linarith+
  then obtain body' where b': "length body' = length body" "(guarded host body)[?k := v] = guarded host body'" using guarded_update [of ?k body host v] by auto
  have n: "entries ?c = entries c" by (simp add: entries_def)
  have "intact host ?c x" if "x \<in> set (entries c)" for x
  proof (cases "mptr x = mptr e")
    case True
    then have "x = e" using that e mc_withD(2) [OF inv] by (metis append_Nil distinct_map inj_onD)
    then show ?thesis using b' body(1) by (auto simp: intact_def)
  next
    case False
    then have "mptr x - 8 \<noteq> mptr e - 8" by simp
    then show ?thesis using ia that by (simp add: intact_def)
  qed
  then show ?thesis using w g n by (intro exI [of _ ?c] conjI) (simp_all add: mc_good_def)
qed

lemma mc_reach_good:
  assumes "mc_reach host junk c" "\<And>n. length (junk n) = n"
  shows "mc_good host c"
  using assms(1)
proof (induction rule: mc_reach.induct)
  case (mc_reach_init c)
  have "0 < MALLOC_CHECKER_NR_LISTS" by (simp add: MALLOC_CHECKER_NR_LISTS_def)
  then show ?case using mc_reach_init by (simp add: mc_good_def mc_with_def malloc_checker_init_def entries_def buckets_empty)
next
  case (mc_reach_kmalloc c base size' flags m r m' c')
  then show ?case using kmalloc_good [OF mc_reach_kmalloc.IH mc_reach_kmalloc.hyps(2,3) assms(2), of flags m] by auto
next
  case (mc_reach_kfree c ptr c')
  then show ?case using kfree_good [OF mc_reach_kfree.IH, of ptr] by auto
next
  case (mc_reach_write c e off v c')
  then show ?case using write_good [OF mc_reach_write.IH mc_reach_write.hyps(2-4), of v] by auto
qed

section \<open>Properties\<close>

text \<open>
  Claim C26. The checker finds exactly the damage to its guards. For a block whose guards are in place, a write of the client anywhere in the block is followed by a failing \<open>kfree\<close> if and
  only if it lies outside of what the client was given and changes a byte. Freeing an intact block removes its entry and gives it back with its content overwritten by \<^verbatim>\<open>0xCC\<close>.
  Freeing a pointer that is not registered, so also a second time, does nothing and is not noticed.
\<close>

theorem malloc_checker_guards:
  assumes inv: "mc_inv c" and e: "e \<in> set (entries c)" and i: "Kmem c (mptr e - 8) = Some (guarded host body)" "length body = unat (msize e)"
    and off: "- 8 \<le> off" "off < int (unat (msize e)) + 8"
  shows "(\<exists>c'. client_write (mptr e) off v c = Some c' \<and> mc_inv c' \<and>
      (malloc_checker_kfree host (mptr e) c' = None \<longleftrightarrow> (off < 0 \<or> int (unat (msize e)) \<le> off) \<and> v \<noteq> guarded host body ! nat (8 + off))) \<and>
    (\<exists>c'. malloc_checker_kfree host (mptr e) c = Some c' \<and> mc_inv c' \<and> entries c' = filter (\<lambda>x. mptr x \<noteq> mptr e) (entries c) \<and>
      Kmem c' = (Kmem c)(mptr e - 8 := None) \<and> Freed c' = Freed c @ [(mptr e - 8, guarded host (replicate (unat (msize e)) 0xCC))] \<and>
      malloc_checker_kfree host (mptr e) c' = Some c')"
proof
  have ok: "malloc_checker_kfree host (mptr e) c1 \<noteq> None \<longleftrightarrow> intact host c1 e" if "mc_inv c1" "e \<in> set (entries c1)" for c1
  proof -
    obtain T where T: "malloc_checker_kfree host (mptr e) c1 = check_and_release_entry host e (c1\<lparr>entries_list := T\<rparr>)"
      "mc_with [e] (c1\<lparr>entries_list := T\<rparr>)" using kfree_live [OF \<open>mc_inv c1\<close> \<open>e \<in> set (entries c1)\<close>] by blast
    show ?thesis unfolding T(1) check_intact [OF T(2)] by (simp add: intact_def)
  qed
  let ?c = "c\<lparr>Kmem := (Kmem c)(mptr e - 8 \<mapsto> (guarded host body)[nat (8 + off) := v])\<rparr>"
  note w = client_write_ok [OF inv e i(1) off, of v]
  have mem: "e \<in> set (entries ?c)" using e by (simp add: entries_def)
  have "intact host ?c e \<longleftrightarrow> (\<exists>body'. length body' = length body \<and> (guarded host body)[nat (8 + off) := v] = guarded host body')" using i by (simp add: intact_def)
  also have "\<dots> \<longleftrightarrow> 8 \<le> nat (8 + off) \<and> nat (8 + off) < 8 + length body \<or> v = guarded host body ! nat (8 + off)" using off i(2) by (intro guarded_update) linarith
  also have "\<dots> \<longleftrightarrow> \<not> ((off < 0 \<or> int (unat (msize e)) \<le> off) \<and> v \<noteq> guarded host body ! nat (8 + off))" using off i(2) by linarith
  finally have "malloc_checker_kfree host (mptr e) ?c = None \<longleftrightarrow> (off < 0 \<or> int (unat (msize e)) \<le> off) \<and> v \<noteq> guarded host body ! nat (8 + off)"
    using ok [OF conjunct2 [OF w] mem] by blast
  then show "\<exists>c'. client_write (mptr e) off v c = Some c' \<and> mc_inv c' \<and>
      (malloc_checker_kfree host (mptr e) c' = None \<longleftrightarrow> (off < 0 \<or> int (unat (msize e)) \<le> off) \<and> v \<noteq> guarded host body ! nat (8 + off))" using w by (intro exI [of _ ?c] conjI) simp_all
next
  from kfree_live [OF inv e, of host] obtain T where T: "malloc_checker_kfree host (mptr e) c = check_and_release_entry host e (c\<lparr>entries_list := T\<rparr>)"
    "mc_with [e] (c\<lparr>entries_list := T\<rparr>)" "concat T = filter (\<lambda>x. mptr x \<noteq> mptr e) (entries c)" by blast
  let ?c = "c\<lparr>entries_list := T, Kmem := (Kmem c)(mptr e - 8 := None), Freed := Freed c @ [(mptr e - 8, guarded host (replicate (unat (msize e)) 0xCC))]\<rparr>"
  have "intact host (c\<lparr>entries_list := T\<rparr>) e" using i by (auto simp: intact_def)
  then have k: "malloc_checker_kfree host (mptr e) c = Some ?c" using T(1) check_intact [OF T(2), of host] by simp
  have inv': "mc_inv ?c" using mc_with_release [OF T(2)] by simp
  have en: "entries ?c = filter (\<lambda>x. mptr x \<noteq> mptr e) (entries c)" using T(3) by (simp add: entries_def)
  then have "mptr e \<notin> mptr ` set (entries ?c)" by auto
  from kfree_unknown [OF inv' this, of host] have again: "malloc_checker_kfree host (mptr e) ?c = Some ?c" .
  show "\<exists>c'. malloc_checker_kfree host (mptr e) c = Some c' \<and> mc_inv c' \<and> entries c' = filter (\<lambda>x. mptr x \<noteq> mptr e) (entries c) \<and>
      Kmem c' = (Kmem c)(mptr e - 8 := None) \<and> Freed c' = Freed c @ [(mptr e - 8, guarded host (replicate (unat (msize e)) 0xCC))] \<and>
      malloc_checker_kfree host (mptr e) c' = Some c'"
    by (intro exI [of _ ?c] conjI k inv' en again) simp_all
qed


text \<open>A checker with one block of two bytes.\<close>

definition sample_entry :: malloc_entry where
  "sample_entry = \<lparr>mflags = 0, mptr = 4104, msize = 2\<rparr>"

definition sample_checker :: "host \<Rightarrow> malloc_checker" where
  "sample_checker host = \<lparr>entries_list = [[sample_entry]], Kmem = [4096 \<mapsto> guarded host [1, 2]], Freed = [], Leaks = []\<rparr>"

lemma sample_checker_inv: "mc_inv (sample_checker host)"
  by (simp add: mc_with_def sample_checker_def sample_entry_def entries_def buckets_ok_def bucket_index_def)

text \<open>The byte behind the two of the block is changed.\<close>

theorem malloc_checker_guards_witness:
  "\<exists>c'. client_write 4104 2 (guarded LittleEndian [1, 2] ! 10 + 1) (sample_checker LittleEndian) = Some c' \<and> malloc_checker_kfree LittleEndian 4104 c' = None"
proof -
  let ?c = "sample_checker LittleEndian"
  have "sample_entry \<in> set (entries ?c)" "Kmem ?c (mptr sample_entry - 8) = Some (guarded LittleEndian [1, 2])" "length [1, 2 :: byte_t] = unat (msize sample_entry)"
    "- 8 \<le> (2 :: int)" "2 < int (unat (msize sample_entry)) + 8"
    by (simp_all add: sample_checker_def sample_entry_def entries_def)
  from malloc_checker_guards [OF sample_checker_inv this, of "guarded LittleEndian [1, 2] ! 10 + 1"]
  obtain c' where "client_write (mptr sample_entry) 2 (guarded LittleEndian [1, 2] ! 10 + 1) ?c = Some c'"
    "malloc_checker_kfree LittleEndian (mptr sample_entry) c' = None \<longleftrightarrow> ((2 :: int) < 0 \<or> int (unat (msize sample_entry)) \<le> 2) \<and>
       guarded LittleEndian [1, 2] ! 10 + 1 \<noteq> guarded LittleEndian [1, 2] ! nat (8 + 2)" by (elim conjE exE)
  moreover have "int (unat (msize sample_entry)) \<le> 2" "nat (8 + 2) = 10" "mptr sample_entry = 4104" by (simp_all add: sample_entry_def)
  moreover have "x + 1 \<noteq> (x :: byte_t)" for x by simp
  ultimately show ?thesis by metis
qed

text \<open>
  Claim C38. The checker raises no false alarm and reports exactly the leaks. A client that stays in its blocks, from the start of the module on and with any outcomes of the kernel's allocations,
  never sees an assertion fail: every allocation returns, every \<open>kfree\<close> of any pointer returns and removes exactly the block of that pointer, and every write into a block succeeds. The memory
  in use is that of the registered blocks. At the end \<open>malloc_checker_deinit\<close> reports each block that is still allocated once, and gives all memory back.
\<close>

theorem malloc_checker_no_false_alarm:
  assumes r: "mc_reach host junk c" and junk: "\<And>n. length (junk n) = n"
  shows "(\<forall>base size' flags m. Kmem c base = None \<and> unat size' + 16 < 18446744073709551616 \<longrightarrow>
      (\<exists>m' c'. malloc_checker_kmalloc host base junk size' flags m c = Some (if fst (new m) \<and> fst (new (snd (new m))) then Some (base + 8) else None, m', c') \<and>
        (if fst (new m) \<and> fst (new (snd (new m))) then mset (entries c') = add_mset \<lparr>mflags = flags, mptr = base + 8, msize = size'\<rparr> (mset (entries c)) else c' = c))) \<and>
    (\<forall>ptr. \<exists>c'. malloc_checker_kfree host ptr c = Some c' \<and> entries c' = filter (\<lambda>x. mptr x \<noteq> ptr) (entries c)) \<and>
    (\<forall>e \<in> set (entries c). \<forall>off v. 0 \<le> off \<and> off < int (unat (msize e)) \<longrightarrow> client_write (mptr e) off v c \<noteq> None) \<and>
    distinct (map mptr (entries c)) \<and> dom (Kmem c) = (\<lambda>e. mptr e - 8) ` set (entries c) \<and>
    (\<exists>c'. malloc_checker_deinit host c = Some c' \<and> mset (Leaks c') = mset (entries c) \<and> entries c' = [] \<and> Kmem c' = Map.empty)"
proof -
  note g = mc_reach_good [OF r junk]
  have inv: "mc_inv c" and ia: "\<forall>e \<in> set (entries c). intact host c e" and l: "Leaks c = []" using g by (simp_all add: mc_good_def)
  have alloc: "\<forall>base size' flags m. Kmem c base = None \<and> unat size' + 16 < 18446744073709551616 \<longrightarrow>
      (\<exists>m' c'. malloc_checker_kmalloc host base junk size' flags m c = Some (if fst (new m) \<and> fst (new (snd (new m))) then Some (base + 8) else None, m', c') \<and>
        (if fst (new m) \<and> fst (new (snd (new m))) then mset (entries c') = add_mset \<lparr>mflags = flags, mptr = base + 8, msize = size'\<rparr> (mset (entries c)) else c' = c))"
    using kmalloc_good [where junk = junk, OF g _ _ junk] by blast
  have free: "\<forall>ptr. \<exists>c'. malloc_checker_kfree host ptr c = Some c' \<and> entries c' = filter (\<lambda>x. mptr x \<noteq> ptr) (entries c)" using kfree_good [OF g] by blast
  have wr: "\<forall>e \<in> set (entries c). \<forall>off v. 0 \<le> off \<and> off < int (unat (msize e)) \<longrightarrow> client_write (mptr e) off v c \<noteq> None" using write_good [OF g] by fastforce
  from malloc_deinit_ok [OF inv ia] obtain c' where "malloc_checker_deinit host c = Some c'" "Leaks c' = Leaks c @ concat (map rev (entries_list c))"
    "mset (concat (map rev (entries_list c))) = mset (entries c)" "entries c' = []" "Kmem c' = Map.empty" by blast
  then have de: "\<exists>c'. malloc_checker_deinit host c = Some c' \<and> mset (Leaks c') = mset (entries c) \<and> entries c' = [] \<and> Kmem c' = Map.empty" using l by simp
  have m: "distinct (map mptr (entries c))" "dom (Kmem c) = (\<lambda>e. mptr e - 8) ` set (entries c)" using mc_withD(2,4) [OF inv] by simp_all
  show ?thesis by (intro conjI alloc free wr m de)
qed

text \<open>A client that allocates two bytes.\<close>

theorem malloc_checker_no_false_alarm_witness:
  "\<exists>c0 c1 c2. malloc_checker_kmalloc LittleEndian 4096 (\<lambda>n. replicate n 0) 2 0 [] c0 = Some (Some 4104, [], c1) \<and> mset (entries c1) = {#sample_entry#} \<and>
     malloc_checker_deinit LittleEndian c1 = Some c2 \<and> Leaks c2 = [sample_entry]"
proof -
  let ?j = "\<lambda>n. replicate n (0 :: byte_t)"
  let ?c0 = "malloc_checker_init \<lparr>entries_list = [], Kmem = Map.empty, Freed = [], Leaks = []\<rparr>"
  have r0: "mc_reach LittleEndian ?j ?c0" by (rule mc_reach_init) simp_all
  have e0: "entries ?c0 = []" by (simp add: malloc_checker_init_def entries_def)
  have k0: "Kmem ?c0 4096 = None" "unat (2 :: size_t) + 16 < 18446744073709551616" by (simp_all add: malloc_checker_init_def)
  have "\<exists>m' c'. malloc_checker_kmalloc LittleEndian 4096 ?j 2 0 [] ?c0 = Some (Some (4096 + 8), m', c') \<and> mset (entries c') = {#\<lparr>mflags = 0, mptr = 4096 + 8, msize = 2\<rparr>#}"
    using conjunct1 [OF malloc_checker_no_false_alarm [OF r0 length_replicate], rule_format, of 4096 2 0 "[]"] k0 e0 by simp
  then obtain m' c1 where c1: "malloc_checker_kmalloc LittleEndian 4096 ?j 2 0 [] ?c0 = Some (Some 4104, m', c1)" "mset (entries c1) = {#sample_entry#}"
    by (auto simp: sample_entry_def)
  have m': "m' = []" using c1(1) by (auto simp: malloc_checker_kmalloc_def Let_def split: bind_splits)
  have "mc_reach LittleEndian ?j c1" by (rule mc_reach_kmalloc [OF r0 k0 c1(1)])
  from malloc_checker_no_false_alarm [OF this length_replicate] obtain c2 where c2: "malloc_checker_deinit LittleEndian c1 = Some c2" "mset (Leaks c2) = mset (entries c1)" by (elim conjE exE) (rule that)
  have "Leaks c2 = [sample_entry]" using c2(2) c1(2) by simp
  then show ?thesis using c1 m' c2(1) by blast
qed

end
