(* ===== verification/Page_Checker.thy ===== *)
theory Page_Checker
  imports Hash_Buckets "HOL-Library.Monad_Syntax"
begin

text \<open>
  The checker of pages of \<^verbatim>\<open>src/system/page_checker.c\<close> as a debug build compiles it: pages are filled when they are freed, and freeing is not delayed.
  A page of the kernel has a reference count and a content. \<open>Warnings\<close> counts the failed \<^verbatim>\<open>WARN_ON\<close> checks, which only print, and \<open>PageLeaks\<close> records the leaks that were reported. \<open>None\<close> is the use of a page
  that does not exist.
\<close>

section \<open>Operations\<close>

definition PAGE_CHECKER_NR_LISTS :: nat where "PAGE_CHECKER_NR_LISTS = 9973"
definition PAGE_SIZE :: nat where "PAGE_SIZE = 4096"

record page_entry =
  pflags :: uint32_t
  ppage :: uint64_t

record page_checker =
  page_list :: "page_entry list list"
  nr_allocs :: uint64_t
  nr_frees :: uint64_t
  KPages :: "uint64_t \<rightharpoonup> nat \<times> bytes"
  Warnings :: nat
  PageLeaks :: "page_entry list"

definition page_checker_init :: "page_checker \<Rightarrow> page_checker" where
  "page_checker_init c = c\<lparr>nr_allocs := 0, nr_frees := 0, page_list := replicate PAGE_CHECKER_NR_LISTS []\<rparr>"

text \<open>The last reference gives the page back to the kernel.\<close>

definition put_page :: "uint64_t \<Rightarrow> page_checker \<Rightarrow> page_checker option" where
  "put_page page c = do {
     (count, content) \<leftarrow> KPages c page;
     Some (if count \<le> 1 then c\<lparr>KPages := (KPages c)(page := None)\<rparr> else c\<lparr>KPages := (KPages c)(page \<mapsto> (count - 1, content))\<rparr>) }"

text \<open>\<open>page\<close> and \<open>junk\<close> are the page that the kernel gives and what it holds.\<close>

definition page_checker_alloc_page :: "uint64_t \<Rightarrow> bytes \<Rightarrow> uint32_t \<Rightarrow> mem \<Rightarrow> page_checker \<Rightarrow> (uint64_t option \<times> mem \<times> page_checker) option" where
  "page_checker_alloc_page page junk flags m c =
     (let (ok, m) = new m
      in if \<not> ok then Some (None, m, c)
      else let c = c\<lparr>KPages := (KPages c)(page \<mapsto> (1, junk))\<rparr>;
               (ok, m) = new m
      in if \<not> ok then do { c \<leftarrow> put_page page c; Some (None, m, c) }
      else let entry = \<lparr>pflags = flags, ppage = page\<rparr>;
               i = bucket_index (length (page_list c)) page
      in Some (Some page, m, c\<lparr>page_list := (page_list c)[i := entry # page_list c ! i], nr_allocs := nr_allocs c + 1\<rparr>))"

definition page_release_entry :: "page_entry \<Rightarrow> page_checker \<Rightarrow> page_checker option" where
  "page_release_entry entry c = do {
     (count, content) \<leftarrow> KPages c (ppage entry);
     put_page (ppage entry) (c\<lparr>KPages := (KPages c)(ppage entry \<mapsto> (count, replicate PAGE_SIZE 0xCC))\<rparr>) }"

fun page_release_all :: "page_entry list \<Rightarrow> page_checker \<Rightarrow> page_checker option" where
  "page_release_all [] c = Some c"
| "page_release_all (e # es) c = do {
     c \<leftarrow> page_release_entry e c;
     page_release_all es (c\<lparr>nr_frees := nr_frees c + 1\<rparr>) }"

definition page_checker_free_page :: "uint64_t \<Rightarrow> page_checker \<Rightarrow> page_checker option" where
  "page_checker_free_page page c = do {
     (count, content) \<leftarrow> KPages c page;
     let c = c\<lparr>Warnings := Warnings c + (if count \<noteq> 1 then 1 else 0)\<rparr>;
     let i = bucket_index (length (page_list c)) page;
     let es = page_list c ! i;
     page_release_all (rev (filter (\<lambda>curr. ppage curr = page) es)) (c\<lparr>page_list := (page_list c)[i := filter (\<lambda>curr. ppage curr \<noteq> page) es]\<rparr>) }"

fun page_leak_all :: "page_entry list \<Rightarrow> page_checker \<Rightarrow> page_checker option" where
  "page_leak_all [] c = Some c"
| "page_leak_all (e # es) c = do {
     c \<leftarrow> page_release_entry e (c\<lparr>PageLeaks := PageLeaks c @ [e]\<rparr>);
     page_leak_all es c }"

fun page_deinit_loop :: "nat list \<Rightarrow> page_checker \<Rightarrow> page_checker option" where
  "page_deinit_loop [] c = Some c"
| "page_deinit_loop (i # is) c = do {
     c \<leftarrow> page_leak_all (rev (page_list c ! i)) (c\<lparr>page_list := (page_list c)[i := []]\<rparr>);
     page_deinit_loop is c }"

definition page_checker_deinit :: "page_checker \<Rightarrow> page_checker option" where
  "page_checker_deinit c = page_deinit_loop [0..<length (page_list c)] c"

section \<open>The invariant\<close>

definition page_entries :: "page_checker \<Rightarrow> page_entry list" where
  "page_entries c = concat (page_list c)"

text \<open>Every page that is registered exists, and the counters differ by the number of registered pages.\<close>

definition pc_with :: "page_entry list \<Rightarrow> page_checker \<Rightarrow> bool" where
  "pc_with es c \<longleftrightarrow> buckets_ok ppage (page_list c) \<and> distinct (map ppage (es @ page_entries c)) \<and> ppage ` set (es @ page_entries c) \<subseteq> dom (KPages c)"

definition pc_inv :: "page_checker \<Rightarrow> bool" where
  "pc_inv c \<longleftrightarrow> pc_with [] c \<and> nr_allocs c = nr_frees c + of_nat (length (page_entries c))"

lemma pc_withD:
  assumes "pc_with es c"
  shows "buckets_ok ppage (page_list c)" "distinct (map ppage (es @ page_entries c))" "ppage ` set (es @ page_entries c) \<subseteq> dom (KPages c)"
  using assms unfolding pc_with_def by blast+

lemma pc_with_move:
  assumes "pc_with es c" "buckets_ok ppage T" "mset (es @ page_entries c) = mset (es' @ concat T)"
  shows "pc_with es' (c\<lparr>page_list := T\<rparr>)"
  unfolding pc_with_def page_entries_def
  using assms(2) distinct_keys_mset [OF assms(3), of ppage] pc_withD [OF assms(1)] mset_eq_setD [OF assms(3)] by (simp add: page_entries_def)

lemma dom_upd_other: "S \<subseteq> dom M \<Longrightarrow> k \<notin> S \<Longrightarrow> S \<subseteq> dom (M(k := x))"
  by (auto simp: subset_iff dom_def)

lemma release_page:
  assumes "pc_with (e # es) c" "KPages c (ppage e) = Some (n, content)"
  shows "page_release_entry e c = Some (c\<lparr>KPages := (KPages c)(ppage e := (if n \<le> 1 then None else Some (n - 1, replicate PAGE_SIZE 0xCC)))\<rparr>) \<and>
    pc_with es (c\<lparr>KPages := (KPages c)(ppage e := (if n \<le> 1 then None else Some (n - 1, replicate PAGE_SIZE 0xCC)))\<rparr>)"
proof
  show "page_release_entry e c = Some (c\<lparr>KPages := (KPages c)(ppage e := (if n \<le> 1 then None else Some (n - 1, replicate PAGE_SIZE 0xCC)))\<rparr>)"
    using assms(2) by (simp add: page_release_entry_def put_page_def)
  have "ppage ` set (es @ page_entries c) \<subseteq> dom ((KPages c)(ppage e := x))" for x
    by (rule dom_upd_other) (use pc_withD(2,3) [OF assms(1)] in \<open>auto simp: image_iff\<close>)
  then show "pc_with es (c\<lparr>KPages := (KPages c)(ppage e := (if n \<le> 1 then None else Some (n - 1, replicate PAGE_SIZE 0xCC)))\<rparr>)"
    using pc_withD(1,2) [OF assms(1)] by (simp add: pc_with_def page_entries_def)
qed


lemma free_known:
  assumes inv: "pc_inv c" and e: "e \<in> set (page_entries c)" and n: "KPages c (ppage e) = Some (n, content)"
  shows "\<exists>c'. page_checker_free_page (ppage e) c = Some c' \<and> pc_inv c' \<and> page_entries c' = filter (\<lambda>x. ppage x \<noteq> ppage e) (page_entries c) \<and>
    nr_frees c' = nr_frees c + 1 \<and> nr_allocs c' = nr_allocs c \<and> Warnings c' = Warnings c + (if n \<noteq> 1 then 1 else 0) \<and>
    KPages c' = (KPages c)(ppage e := (if n \<le> 1 then None else Some (n - 1, replicate PAGE_SIZE 0xCC)))"
proof -
  let ?i = "bucket_index (length (page_list c)) (ppage e)"
  let ?T = "(page_list c)[?i := filter (\<lambda>curr. ppage curr \<noteq> ppage e) (page_list c ! ?i)]"
  have w: "pc_with [] c" using inv by (simp add: pc_inv_def)
  have b: "buckets_ok ppage (page_list c)" and d: "distinct (map ppage (page_entries c))" using pc_withD(1,2) [OF w] by simp_all
  have one: "filter (\<lambda>curr. ppage curr = ppage e) (page_list c ! ?i) = [e]"
    using filter_key_concat [OF b refl, of "ppage e"] one_with_key [OF d e] by (simp add: page_entries_def)
  have T: "concat ?T = filter (\<lambda>x. ppage x \<noteq> ppage e) (page_entries c)" using remove_key_concat [OF b refl] by (simp add: page_entries_def)
  have ms: "mset (page_entries c) = add_mset e (mset (concat ?T))"
    unfolding T using multiset_partition [of "mset (page_entries c)" "\<lambda>x. ppage x = ppage e"] one_with_key [OF d e] by (simp flip: mset_filter)
  have len: "length (page_entries c) = Suc (length (concat ?T))" using ms by (metis size_add_mset size_mset)
  have bT: "buckets_ok ppage ?T" by (rule buckets_update [OF b refl]) auto
  let ?c = "c\<lparr>Warnings := Warnings c + (if n \<noteq> 1 then 1 else 0), page_list := ?T\<rparr>"
  have "pc_with [e] (c\<lparr>page_list := ?T\<rparr>)" by (rule pc_with_move [OF w bT]) (simp add: ms)
  then have w1: "pc_with [e] ?c" by (simp add: pc_with_def page_entries_def)
  have n1: "KPages ?c (ppage e) = Some (n, content)" using n by simp
  note R = release_page [OF w1 n1]
  let ?c' = "?c\<lparr>KPages := (KPages c)(ppage e := (if n \<le> 1 then None else Some (n - 1, replicate PAGE_SIZE 0xCC))), nr_frees := nr_frees c + 1\<rparr>"
  have f: "page_checker_free_page (ppage e) c = Some ?c'" using n one conjunct1 [OF R] by (simp add: page_checker_free_page_def Let_def)
  have en: "page_entries ?c' = filter (\<lambda>x. ppage x \<noteq> ppage e) (page_entries c)" using T by (simp add: page_entries_def)
  have "pc_with [] ?c'" using conjunct2 [OF R] by (simp add: pc_with_def page_entries_def)
  moreover have "nr_allocs ?c' = nr_frees ?c' + of_nat (length (page_entries ?c'))" using inv len T en by (simp add: pc_inv_def)
  ultimately have "pc_inv ?c'" by (simp only: pc_inv_def)
  then show ?thesis using f en by (intro exI [of _ ?c']) simp
qed

lemma free_unknown:
  assumes inv: "pc_inv c" and p: "p \<notin> ppage ` set (page_entries c)" "KPages c p = Some (n, content)"
  shows "page_checker_free_page p c = Some (c\<lparr>Warnings := Warnings c + (if n \<noteq> 1 then 1 else 0)\<rparr>)"
proof -
  let ?i = "bucket_index (length (page_list c)) p"
  have b: "buckets_ok ppage (page_list c)" using inv by (simp add: pc_inv_def pc_with_def)
  then have i: "?i < length (page_list c)" by (simp add: buckets_ok_def bucket_index_less)
  have "ppage e \<noteq> p" if "e \<in> set (page_list c ! ?i)" for e using p i that nth_mem [OF i] by (force simp: page_entries_def)
  then have "filter (\<lambda>e. ppage e = p) (page_list c ! ?i) = []" "filter (\<lambda>e. ppage e \<noteq> p) (page_list c ! ?i) = page_list c ! ?i"
    by (simp_all add: filter_empty_conv filter_id_conv)
  then show ?thesis using p(2) by (simp add: page_checker_free_page_def Let_def)
qed

lemma alloc_page_ok:
  assumes inv: "pc_inv c" and p: "KPages c page = None"
  shows "\<exists>r c'. page_checker_alloc_page page junk flags m c = Some (r, snd (if fst (new m) then new (snd (new m)) else new m), c') \<and> pc_inv c' \<and>
    (if fst (new m) \<and> fst (new (snd (new m)))
     then r = Some page \<and> mset (page_entries c') = add_mset \<lparr>pflags = flags, ppage = page\<rparr> (mset (page_entries c)) \<and>
       KPages c' = (KPages c)(page \<mapsto> (1, junk)) \<and> nr_allocs c' = nr_allocs c + 1 \<and> nr_frees c' = nr_frees c
     else r = None \<and> c' = c)"
proof (cases "fst (new m) \<and> fst (new (snd (new m)))")
  case False
  obtain ok1 m1 where m1: "new m = (ok1, m1)" by fastforce
  obtain ok2 m2 where m2: "new m1 = (ok2, m2)" by fastforce
  have "put_page page (c\<lparr>KPages := (KPages c)(page \<mapsto> (1, junk))\<rparr>) = Some c" using p by (cases c) (simp add: put_page_def fun_upd_idem)
  then have "page_checker_alloc_page page junk flags m c = Some (None, if ok1 then m2 else m1, c)"
    using False m1 m2 by (auto simp: page_checker_alloc_page_def Let_def)
  then show ?thesis using False inv m1 m2 by simp
next
  case True
  let ?e = "\<lparr>pflags = flags, ppage = page\<rparr>" and ?i = "bucket_index (length (page_list c)) page"
  let ?T = "(page_list c)[?i := ?e # page_list c ! ?i]"
  let ?c = "c\<lparr>KPages := (KPages c)(page \<mapsto> (1, junk)), page_list := ?T, nr_allocs := nr_allocs c + 1\<rparr>"
  have w: "pc_with [] c" using inv by (simp add: pc_inv_def)
  have b: "buckets_ok ppage (page_list c)" by (rule pc_withD(1) [OF w])
  have a: "page_checker_alloc_page page junk flags m c = Some (Some page, snd (new (snd (new m))), ?c)"
    using True by (auto simp: page_checker_alloc_page_def Let_def split: prod.splits)
  have ms: "mset (concat ?T) = add_mset ?e (mset (page_entries c))"
    unfolding page_entries_def using b by (intro mset_add_entry [of _ _ page]) (auto simp: buckets_ok_def)
  have len: "length (concat ?T) = Suc (length (page_entries c))" using ms by (metis size_add_mset size_mset)
  have st: "set (concat ?T) = insert ?e (set (page_entries c))" using ms by (metis set_mset_add_mset_insert set_mset_mset)
  have "page \<notin> ppage ` set (page_entries c)" using p pc_withD(3) [OF w] by auto
  moreover have "distinct (map ppage (concat ?T)) \<longleftrightarrow> distinct (map ppage (?e # page_entries c))" by (rule distinct_keys_mset) (simp add: ms)
  ultimately have d: "distinct (map ppage (concat ?T))" using pc_withD(2) [OF w] by simp
  have en: "page_entries ?c = concat ?T" by (simp add: page_entries_def)
  have "buckets_ok ppage ?T" by (rule buckets_update [OF b refl]) auto
  moreover have "ppage ` set (concat ?T) \<subseteq> dom (KPages ?c)" unfolding st using pc_withD(3) [OF w] by auto
  ultimately have "pc_with [] ?c" unfolding pc_with_def en append.left_neutral using d by simp
  moreover have "nr_allocs ?c = nr_frees ?c + of_nat (length (page_entries ?c))" unfolding en len using inv by (simp add: pc_inv_def)
  ultimately have i: "pc_inv ?c" unfolding pc_inv_def by blast
  show ?thesis
  proof (intro exI conjI)
    show "page_checker_alloc_page page junk flags m c = Some (Some page, snd (if fst (new m) then new (snd (new m)) else new m), ?c)" using a True by simp
    show "pc_inv ?c" by (rule i)
    show "if fst (new m) \<and> fst (new (snd (new m)))
     then Some page = Some page \<and> mset (page_entries ?c) = add_mset ?e (mset (page_entries c)) \<and>
       KPages ?c = (KPages c)(page \<mapsto> (1, junk)) \<and> nr_allocs ?c = nr_allocs c + 1 \<and> nr_frees ?c = nr_frees c
     else Some page = None \<and> ?c = c" unfolding en ms using True by simp
  qed
qed


section \<open>Leaks\<close>

lemma page_leak_all_ok:
  assumes "pc_with es c"
  shows "\<exists>c'. page_leak_all es c = Some c' \<and> pc_with [] c' \<and> page_list c' = page_list c \<and> PageLeaks c' = PageLeaks c @ es \<and>
    nr_allocs c' = nr_allocs c \<and> nr_frees c' = nr_frees c"
  using assms
proof (induction es arbitrary: c)
  case (Cons e es)
  let ?l = "c\<lparr>PageLeaks := PageLeaks c @ [e]\<rparr>"
  have l: "pc_with (e # es) ?l" using Cons.prems by (simp add: pc_with_def page_entries_def)
  have "ppage e \<in> dom (KPages ?l)" using pc_withD(3) [OF l] by simp
  then obtain n content where "KPages ?l (ppage e) = Some (n, content)" by auto
  note R = release_page [OF l this]
  from Cons.IH [OF conjunct2 [OF R]] show ?case using conjunct1 [OF R] by auto
qed simp

lemma page_deinit_ok:
  assumes "pc_with [] c" "set is \<subseteq> {..<length (page_list c)}" "distinct is"
  shows "\<exists>c'. page_deinit_loop is c = Some c' \<and> length (page_list c') = length (page_list c) \<and>
    (\<forall>i<length (page_list c). page_list c' ! i = (if i \<in> set is then [] else page_list c ! i)) \<and>
    PageLeaks c' = PageLeaks c @ concat (map (\<lambda>i. rev (page_list c ! i)) is) \<and> nr_allocs c' = nr_allocs c \<and> nr_frees c' = nr_frees c"
  using assms
proof (induction "is" arbitrary: c)
  case (Cons i "is")
  have i: "i < length (page_list c)" using Cons.prems(2) by simp
  let ?T = "(page_list c)[i := []]" let ?es = "rev (page_list c ! i)"
  have "bucket_index (length (page_list c)) (ppage e) = j" if "j < length (page_list c)" "e \<in> set (?T ! j)" for j e
    using that pc_withD(1) [OF Cons.prems(1)] by (cases "j = i") (simp_all add: buckets_ok_def)
  then have b: "buckets_ok ppage ?T" using i by (simp add: buckets_ok_def) auto
  have "mset ([] @ page_entries c) = mset (?es @ concat ?T)" using mset_concat_update [OF i, of "[]"] by (simp add: page_entries_def ac_simps)
  from page_leak_all_ok [OF pc_with_move [OF Cons.prems(1) b this]] obtain c1 where
    c1: "page_leak_all ?es (c\<lparr>page_list := ?T\<rparr>) = Some c1" "pc_with [] c1" "page_list c1 = ?T" "PageLeaks c1 = PageLeaks c @ ?es"
      "nr_allocs c1 = nr_allocs c" "nr_frees c1 = nr_frees c" by auto
  have is': "set is \<subseteq> {..<length (page_list c1)}" "distinct is" "i \<notin> set is" using Cons.prems(2,3) c1(3) by auto
  from Cons.IH [OF c1(2) is'(1,2)] obtain c' where c': "page_deinit_loop is c1 = Some c'" "length (page_list c') = length (page_list c1)"
    "\<forall>j<length (page_list c1). page_list c' ! j = (if j \<in> set is then [] else page_list c1 ! j)"
    "PageLeaks c' = PageLeaks c1 @ concat (map (\<lambda>i. rev (page_list c1 ! i)) is)" "nr_allocs c' = nr_allocs c1" "nr_frees c' = nr_frees c1" by auto
  have "?T ! x = page_list c ! x" if "x \<in> set is" for x using that is'(3) by (cases "x = i") auto
  then have "map (\<lambda>j. rev (page_list c1 ! j)) is = map (\<lambda>j. rev (page_list c ! j)) is" using c1(3) by (intro map_cong) simp_all
  then have lk: "PageLeaks c' = PageLeaks c @ concat (map (\<lambda>i. rev (page_list c ! i)) (i # is))" using c1(4) c'(4) by (simp only: list.map concat.simps append_assoc)
  have tb: "page_list c' ! j = (if j \<in> set (i # is) then [] else page_list c ! j)" if "j < length (page_list c)" for j
    using c'(3) c1(3) that by (cases "j = i") auto
  have "page_deinit_loop (i # is) c = Some c'" "length (page_list c') = length (page_list c)" using c1(1,3) c'(1,2) by simp_all
  then show ?case using lk tb c'(5,6) c1(5,6) by metis
qed simp

section \<open>Properties\<close>

text \<open>
  Claim C27. The counters and the table of the page checker agree with the pages that are in use: allocating and freeing keep the number of allocations equal to the number of frees plus the
  number of registered pages, in every outcome of the two allocations involved. An allocation that fails half way gives the page back. Freeing overwrites the page and drops one reference; with other
  references left it warns, and the page goes on to exist with its content destroyed. Freeing a page that is not registered drops no reference at all. At the end exactly the registered pages are reported.
\<close>

theorem page_checker_counts:
  assumes inv: "pc_inv c"
  shows "(KPages c page = None \<longrightarrow> (\<exists>r m' c'. page_checker_alloc_page page junk flags m c = Some (r, m', c') \<and> pc_inv c' \<and>
      (if fst (new m) \<and> fst (new (snd (new m)))
       then r = Some page \<and> mset (page_entries c') = add_mset \<lparr>pflags = flags, ppage = page\<rparr> (mset (page_entries c)) \<and> KPages c' = (KPages c)(page \<mapsto> (1, junk))
       else r = None \<and> c' = c))) \<and>
    (\<forall>n content. KPages c page = Some (n, content) \<longrightarrow> (\<exists>c'. page_checker_free_page page c = Some c' \<and> pc_inv c' \<and> Warnings c' = Warnings c + (if n \<noteq> 1 then 1 else 0) \<and>
      page_entries c' = filter (\<lambda>x. ppage x \<noteq> page) (page_entries c) \<and>
      KPages c' = (if page \<notin> ppage ` set (page_entries c) then KPages c else (KPages c)(page := (if n \<le> 1 then None else Some (n - 1, replicate PAGE_SIZE 0xCC)))))) \<and>
    (\<exists>c'. page_checker_deinit c = Some c' \<and> PageLeaks c' = PageLeaks c @ concat (map rev (page_list c)) \<and> page_entries c' = [] \<and>
      nr_allocs c' - nr_frees c' = of_nat (length (page_entries c)))"
proof (intro conjI allI impI)
  show "\<exists>r m' c'. page_checker_alloc_page page junk flags m c = Some (r, m', c') \<and> pc_inv c' \<and>
      (if fst (new m) \<and> fst (new (snd (new m)))
       then r = Some page \<and> mset (page_entries c') = add_mset \<lparr>pflags = flags, ppage = page\<rparr> (mset (page_entries c)) \<and> KPages c' = (KPages c)(page \<mapsto> (1, junk))
       else r = None \<and> c' = c)" if "KPages c page = None"
    using alloc_page_ok [OF inv that, of junk flags m] by (elim exE conjE, intro exI conjI) (assumption | auto split: if_splits)+
  show "\<exists>c'. page_checker_free_page page c = Some c' \<and> pc_inv c' \<and> Warnings c' = Warnings c + (if n \<noteq> 1 then 1 else 0) \<and>
      page_entries c' = filter (\<lambda>x. ppage x \<noteq> page) (page_entries c) \<and>
      KPages c' = (if page \<notin> ppage ` set (page_entries c) then KPages c else (KPages c)(page := (if n \<le> 1 then None else Some (n - 1, replicate PAGE_SIZE 0xCC))))"
    if k: "KPages c page = Some (n, content)" for n content
  proof (cases "page \<in> ppage ` set (page_entries c)")
    case True
    then obtain e where e: "e \<in> set (page_entries c)" "page = ppage e" by blast
    from free_known [OF inv e(1), of n content] k e(2) obtain c' where
      c': "page_checker_free_page page c = Some c'" "pc_inv c'" "page_entries c' = filter (\<lambda>x. ppage x \<noteq> page) (page_entries c)"
        "Warnings c' = Warnings c + (if n \<noteq> 1 then 1 else 0)" "KPages c' = (KPages c)(page := (if n \<le> 1 then None else Some (n - 1, replicate PAGE_SIZE 0xCC)))" by blast
    show ?thesis by (intro exI [of _ c'] conjI c'(1-4)) (simp add: True c'(5))
  next
    case False
    let ?c = "c\<lparr>Warnings := Warnings c + (if n \<noteq> 1 then 1 else 0)\<rparr>"
    have "pc_inv ?c" "page_entries ?c = page_entries c" using inv by (simp_all add: pc_inv_def pc_with_def page_entries_def)
    moreover have "filter (\<lambda>x. ppage x \<noteq> page) (page_entries c) = page_entries c" using False by (force simp: filter_id_conv)
    ultimately show ?thesis using free_unknown [OF inv False k] False by (intro exI [of _ ?c] conjI) simp_all
  qed
  let ?n = "length (page_list c)"
  have w: "pc_with [] c" using inv by (simp add: pc_inv_def)
  have "set [0..<?n] \<subseteq> {..<?n}" by auto
  from page_deinit_ok [OF w this distinct_upt] obtain c' where c': "page_checker_deinit c = Some c'" "length (page_list c') = ?n"
    "\<forall>i<?n. page_list c' ! i = []" "PageLeaks c' = PageLeaks c @ concat (map (\<lambda>i. rev (page_list c ! i)) [0..<?n])"
    "nr_allocs c' = nr_allocs c" "nr_frees c' = nr_frees c" by (auto simp: page_checker_deinit_def)
  have "map (\<lambda>i. rev (page_list c ! i)) [0..<?n] = map rev (page_list c)" by (rule nth_equalityI) simp_all
  moreover have "page_list c' = replicate ?n []" using c'(2,3) by (intro nth_equalityI) simp_all
  then have "page_entries c' = []" by (simp add: page_entries_def)
  moreover have "nr_allocs c' - nr_frees c' = of_nat (length (page_entries c))" using c'(5,6) inv by (simp add: pc_inv_def)
  ultimately show "\<exists>c'. page_checker_deinit c = Some c' \<and> PageLeaks c' = PageLeaks c @ concat (map rev (page_list c)) \<and> page_entries c' = [] \<and>
      nr_allocs c' - nr_frees c' = of_nat (length (page_entries c))" using c'(1,4) by auto
qed

definition sample_pages :: page_checker where
  "sample_pages = \<lparr>page_list = [[\<lparr>pflags = 0, ppage = 5\<rparr>]], nr_allocs = 1, nr_frees = 0, KPages = [5 \<mapsto> (2, [])], Warnings = 0, PageLeaks = []\<rparr>"

theorem page_checker_counts_witness:
  "\<exists>c'. page_checker_free_page 5 sample_pages = Some c' \<and> Warnings c' = 1 \<and> KPages c' 5 = Some (1, replicate PAGE_SIZE 0xCC)"
proof -
  have "pc_inv sample_pages" by (simp add: pc_inv_def pc_with_def sample_pages_def page_entries_def buckets_ok_def bucket_index_def)
  from page_checker_counts [OF this, of 5] obtain c' where "page_checker_free_page 5 sample_pages = Some c'" "Warnings c' = Warnings sample_pages + (if (2 :: nat) \<noteq> 1 then 1 else 0)"
    "KPages c' = (if 5 \<notin> ppage ` set (page_entries sample_pages) then KPages sample_pages
       else (KPages sample_pages)(5 := (if (2 :: nat) \<le> 1 then None else Some (2 - 1, replicate PAGE_SIZE 0xCC))))"
    by (auto simp: sample_pages_def page_entries_def)
  then show ?thesis by (auto simp: sample_pages_def page_entries_def)
qed

end
