(* ===== verification/Kapi_Misc.thy ===== *)
theory Kapi_Misc
  imports Prelude "HOL-Library.Monad_Syntax"
begin

text \<open>
  The character devices of \<^verbatim>\<open>src/system/kapi.c\<close>: a list of devices with reference counts, their registration and removal, and requests to them that are in progress. The
  heap maps addresses to devices. \<open>None\<close> is the use of a device that was freed. A spinlock protects the list, so what happens under it is one step; the calls outside are steps of their
  own, so that requests and removals overlap freely.
\<close>

section \<open>Devices\<close>

record kapi_misc_dev =
  dev_context :: uint64_t
  dev_devt :: "uint32_t option"
  ref_count :: int

record misc_state =
  Devs :: "nat \<rightharpoonup> kapi_misc_dev"
  misc_devs :: "nat list"
  Calls :: "nat list"
  Removals :: "nat list"

definition ENOMEM :: int where "ENOMEM = 12"
definition EFAULT :: int where "EFAULT = 14"

definition kapi_misc_dev_get :: "nat \<Rightarrow> misc_state \<Rightarrow> misc_state option" where
  "kapi_misc_dev_get dev s = do { d \<leftarrow> Devs s dev; Some (s\<lparr>Devs := (Devs s)(dev \<mapsto> d\<lparr>ref_count := ref_count d + 1\<rparr>)\<rparr>) }"

definition kapi_misc_dev_put :: "nat \<Rightarrow> misc_state \<Rightarrow> misc_state option" where
  "kapi_misc_dev_put dev s = do {
     d \<leftarrow> Devs s dev;
     Some (s\<lparr>Devs := (Devs s)(dev := (if ref_count d - 1 = 0 then None else Some (d\<lparr>ref_count := ref_count d - 1\<rparr>)))\<rparr>) }"

text \<open>The searches: the first device of the list that fits, with a reference of its own.\<close>

fun find_dev :: "(nat \<Rightarrow> kapi_misc_dev \<Rightarrow> bool) \<Rightarrow> nat list \<Rightarrow> misc_state \<Rightarrow> (nat option \<times> misc_state) option" where
  "find_dev P [] s = Some (None, s)"
| "find_dev P (c # l) s = do {
     d \<leftarrow> Devs s c;
     if P c d then do { s \<leftarrow> kapi_misc_dev_get c s; Some (Some c, s) } else find_dev P l s }"

definition kapi_misc_dev_find_by_context :: "uint64_t \<Rightarrow> misc_state \<Rightarrow> (nat option \<times> misc_state) option" where
  "kapi_misc_dev_find_by_context context' s = find_dev (\<lambda>c d. dev_context d = context') (misc_devs s) s"

definition kapi_misc_dev_find_by_dev :: "nat \<Rightarrow> misc_state \<Rightarrow> (nat option \<times> misc_state) option" where
  "kapi_misc_dev_find_by_dev dev s = find_dev (\<lambda>c d. c = dev) (misc_devs s) s"

definition kapi_misc_dev_find_by_devt :: "uint32_t \<Rightarrow> misc_state \<Rightarrow> (nat option \<times> misc_state) option" where
  "kapi_misc_dev_find_by_devt devt s = find_dev (\<lambda>c d. dev_devt d = Some devt) (misc_devs s) s"

text \<open>
  Registration. \<open>a\<close> is the address that the kernel gives for the device, and \<open>reg\<close> the answer of \<^verbatim>\<open>misc_register\<close>: an error code, or the number under which the device can be
  opened.
\<close>

definition kapi_misc_dev_register :: "uint64_t \<Rightarrow> nat \<Rightarrow> int + uint32_t \<Rightarrow> mem \<Rightarrow> misc_state \<Rightarrow> ((int + nat) \<times> mem \<times> misc_state) option" where
  "kapi_misc_dev_register context' a reg m s =
     (let (ok, m) = new m
      in if \<not> ok then Some (Inl (- ENOMEM), m, s)
      else do {
        let s = s\<lparr>Devs := (Devs s)(a \<mapsto> \<lparr>dev_context = context', dev_devt = None, ref_count = 1\<rparr>)\<rparr>;
        (existing, s) \<leftarrow> kapi_misc_dev_find_by_context context' s;
        (case existing of
           Some e \<Rightarrow> do { s \<leftarrow> kapi_misc_dev_put e s; s \<leftarrow> kapi_misc_dev_put a s; Some (Inl (- EFAULT), m, s) }
         | None \<Rightarrow> do {
             s \<leftarrow> kapi_misc_dev_get a s;
             let s = s\<lparr>misc_devs := misc_devs s @ [a]\<rparr>;
             (case reg of
                Inl rc \<Rightarrow> do {
                  let s = s\<lparr>misc_devs := removeAll a (misc_devs s)\<rparr>;
                  s \<leftarrow> kapi_misc_dev_put a s;
                  s \<leftarrow> kapi_misc_dev_put a s;
                  Some (Inl rc, m, s) }
              | Inr devt \<Rightarrow> do {
                  d \<leftarrow> Devs s a;
                  Some (Inr a, m, s\<lparr>Devs := (Devs s)(a \<mapsto> d\<lparr>dev_devt := Some devt\<rparr>)\<rparr>) }) }) })"

text \<open>Removal: what happens under the lock, and the release of the three references afterwards.\<close>

definition misc_unregister_locked :: "nat \<Rightarrow> misc_state \<Rightarrow> misc_state option" where
  "misc_unregister_locked dev s = do {
     (found, s) \<leftarrow> kapi_misc_dev_find_by_dev dev s;
     Some (case found of None \<Rightarrow> s | Some d \<Rightarrow> s\<lparr>misc_devs := removeAll d (misc_devs s), Removals := d # Removals s\<rparr>) }"

definition misc_unregister_put :: "nat \<Rightarrow> misc_state \<Rightarrow> misc_state option" where
  "misc_unregister_put dev s = do {
     s \<leftarrow> kapi_misc_dev_put dev s;
     s \<leftarrow> kapi_misc_dev_put dev s;
     s \<leftarrow> kapi_misc_dev_put dev s;
     Some (s\<lparr>Removals := remove1 dev (Removals s)\<rparr>) }"

text \<open>A request: the search under the lock, and the end of the request. In between the handler of the device runs.\<close>

definition ioctl_enter :: "uint32_t \<Rightarrow> misc_state \<Rightarrow> misc_state option" where
  "ioctl_enter devt s = do {
     (found, s) \<leftarrow> kapi_misc_dev_find_by_devt devt s;
     Some (case found of None \<Rightarrow> s | Some d \<Rightarrow> s\<lparr>Calls := d # Calls s\<rparr>) }"

definition ioctl_leave :: "nat \<Rightarrow> misc_state \<Rightarrow> misc_state option" where
  "ioctl_leave dev s = do { s \<leftarrow> kapi_misc_dev_put dev s; Some (s\<lparr>Calls := remove1 dev (Calls s)\<rparr>) }"

text \<open>
  The two functions as one thread runs them. \<open>ioctl\<close> is the handler of the device; its result is kept as a 32-bit integer.
\<close>

definition kapi_ioctl :: "uint32_t \<Rightarrow> (uint64_t \<Rightarrow> int) \<Rightarrow> misc_state \<Rightarrow> (int \<times> misc_state) option" where
  "kapi_ioctl devt ioctl s = do {
     (dev, s) \<leftarrow> kapi_misc_dev_find_by_devt devt s;
     (case dev of
        Some a \<Rightarrow> do { d \<leftarrow> Devs s a; let rc = signed_take_bit 31 (ioctl (dev_context d)); s \<leftarrow> kapi_misc_dev_put a s; Some (rc, s) }
      | None \<Rightarrow> Some (- EFAULT, s)) }"

definition kapi_misc_dev_unregister :: "nat \<Rightarrow> misc_state \<Rightarrow> misc_state option" where
  "kapi_misc_dev_unregister dev s = do {
     (dev', s) \<leftarrow> kapi_misc_dev_find_by_dev dev s;
     (case dev' of
        Some a \<Rightarrow> do {
          let s = s\<lparr>misc_devs := removeAll a (misc_devs s)\<rparr>;
          s \<leftarrow> kapi_misc_dev_put a s;
          s \<leftarrow> kapi_misc_dev_put a s;
          kapi_misc_dev_put a s }
      | None \<Rightarrow> Some s) }"

section \<open>Reachable states\<close>

text \<open>
  The steps of the threads. A request can leave or a removal can go on only when it is in progress. A step that fails leads to \<open>None\<close>. Registration is one step: until it is
  over no request finds the device, which has no number yet, and nobody else knows its address.
\<close>

inductive misc_step :: "misc_state \<Rightarrow> misc_state option \<Rightarrow> bool" where
  step_register: "Devs s a = None \<Longrightarrow> misc_step s (map_option (\<lambda>(r, m', s'). s') (kapi_misc_dev_register context' a reg m s))"
| step_unregister: "misc_step s (misc_unregister_locked dev s)"
| step_unregister_put: "dev \<in> set (Removals s) \<Longrightarrow> misc_step s (misc_unregister_put dev s)"
| step_ioctl: "misc_step s (ioctl_enter devt s)"
| step_ioctl_leave: "dev \<in> set (Calls s) \<Longrightarrow> misc_step s (ioctl_leave dev s)"

inductive_cases misc_stepE: "misc_step s r"

definition misc_init :: misc_state where
  "misc_init = \<lparr>Devs = Map.empty, misc_devs = [], Calls = [], Removals = []\<rparr>"

inductive misc_reach :: "misc_state \<Rightarrow> bool" where
  reach_init: "misc_reach misc_init"
| reach_step: "misc_reach s \<Longrightarrow> misc_step s (Some s') \<Longrightarrow> misc_reach s'"

section \<open>References\<close>

text \<open>The number of references that the list, the requests and the removals in progress hold.\<close>

definition dev_refs :: "misc_state \<Rightarrow> nat \<Rightarrow> nat" where
  "dev_refs s a = 2 * count_list (misc_devs s) a + count_list (Calls s) a + 3 * count_list (Removals s) a"

definition counts :: "(nat \<Rightarrow> nat) \<Rightarrow> misc_state \<Rightarrow> bool" where
  "counts f s \<longleftrightarrow> (\<forall>a. Devs s a = None \<longleftrightarrow> f a = 0) \<and> (\<forall>a d. Devs s a = Some d \<longrightarrow> ref_count d = int (f a))"

definition misc_inv :: "misc_state \<Rightarrow> bool" where
  "misc_inv s \<longleftrightarrow> counts (dev_refs s) s \<and> distinct (misc_devs s) \<and>
     (\<forall>a \<in> set (misc_devs s). \<forall>b \<in> set (misc_devs s). \<forall>d e. Devs s a = Some d \<and> Devs s b = Some e \<and> dev_context d = dev_context e \<longrightarrow> a = b)"

text \<open>The devices of \<open>s'\<close> are devices of \<open>s\<close> up to their counts, and nothing else differs.\<close>

definition same_devs :: "misc_state \<Rightarrow> misc_state \<Rightarrow> bool" where
  "same_devs s s' \<longleftrightarrow> misc_devs s' = misc_devs s \<and> Calls s' = Calls s \<and> Removals s' = Removals s \<and>
     (\<forall>a d'. Devs s' a = Some d' \<longrightarrow> (\<exists>d. Devs s a = Some d \<and> dev_context d' = dev_context d \<and> dev_devt d' = dev_devt d))"

lemma same_devs_refl: "same_devs s s"
  by (simp add: same_devs_def)

lemma same_devs_trans: "same_devs s s' \<Longrightarrow> same_devs s' s'' \<Longrightarrow> same_devs s s''"
  unfolding same_devs_def by (metis (no_types, lifting))

lemma counts_Some: "counts f s \<Longrightarrow> 0 < f a \<Longrightarrow> \<exists>d. Devs s a = Some d \<and> ref_count d = int (f a)"
  unfolding counts_def by (metis not_None_eq less_numeral_extra(3))

lemma counts_None: "counts f s \<Longrightarrow> Devs s a = None \<longleftrightarrow> f a = 0"
  unfolding counts_def by blast

lemma get_ok:
  assumes "counts f s" "0 < f a"
  shows "\<exists>s'. kapi_misc_dev_get a s = Some s' \<and> counts (f(a := f a + 1)) s' \<and> same_devs s s'"
proof -
  obtain d where d: "Devs s a = Some d" "ref_count d = int (f a)" using counts_Some [OF assms] by blast
  let ?s = "s\<lparr>Devs := (Devs s)(a \<mapsto> d\<lparr>ref_count := ref_count d + 1\<rparr>)\<rparr>"
  have "counts (f(a := f a + 1)) ?s" using assms d by (auto simp: counts_def)
  moreover have "same_devs s ?s" using d by (simp add: same_devs_def)
  ultimately show ?thesis using d by (simp add: kapi_misc_dev_get_def)
qed

lemma put_ok:
  assumes "counts f s" "0 < f a"
  shows "\<exists>s'. kapi_misc_dev_put a s = Some s' \<and> counts (f(a := f a - 1)) s' \<and> same_devs s s'"
proof -
  obtain d where d: "Devs s a = Some d" "ref_count d = int (f a)" using counts_Some [OF assms] by blast
  let ?s = "s\<lparr>Devs := (Devs s)(a := (if ref_count d - 1 = 0 then None else Some (d\<lparr>ref_count := ref_count d - 1\<rparr>)))\<rparr>"
  have "counts (f(a := f a - 1)) ?s" using assms d by (auto simp: counts_def of_nat_diff)
  moreover have "same_devs s ?s" using d by (simp add: same_devs_def)
  ultimately show ?thesis using d by (simp add: kapi_misc_dev_put_def)
qed

lemma find_ok:
  assumes "counts f s" "\<forall>a \<in> set l. 0 < f a"
  shows "find_dev P l s = Some (None, s) \<and> (\<forall>a \<in> set l. \<forall>d. Devs s a = Some d \<longrightarrow> \<not> P a d) \<or>
    (\<exists>a d s'. find_dev P l s = Some (Some a, s') \<and> a \<in> set l \<and> Devs s a = Some d \<and> P a d \<and> counts (f(a := f a + 1)) s' \<and> same_devs s s')"
  using assms(2)
proof (induction l)
  case (Cons c l)
  then obtain d where d: "Devs s c = Some d" using counts_Some [OF assms(1), of c] by auto
  show ?case
  proof (cases "P c d")
    case True
    then show ?thesis using d get_ok [OF assms(1), of c] Cons.prems by fastforce
  next
    case False
    then show ?thesis using Cons d by auto
  qed
qed simp

lemma misc_invI:
  assumes "counts f s" "\<And>a. f a = dev_refs s a" "misc_inv s0" "same_devs s0 (s\<lparr>misc_devs := misc_devs s0, Calls := Calls s0, Removals := Removals s0\<rparr>)"
    and "distinct (misc_devs s)" "set (misc_devs s) \<subseteq> set (misc_devs s0)"
  shows "misc_inv s"
proof -
  have "f = dev_refs s" using assms(2) by blast
  moreover have "a = b" if "a \<in> set (misc_devs s)" "b \<in> set (misc_devs s)" "Devs s a = Some d" "Devs s b = Some e" "dev_context d = dev_context e" for a b d e
  proof -
    have k: "\<exists>d0. Devs s0 x = Some d0 \<and> dev_context d' = dev_context d0" if "Devs s x = Some d'" for x d'
      using assms(4) that unfolding same_devs_def by auto
    show ?thesis using k [OF that(3)] k [OF that(4)] that(1,2,5) assms(3,6) unfolding misc_inv_def by (metis subsetD)
  qed
  ultimately show ?thesis using assms(1,5) unfolding misc_inv_def by blast
qed


lemma count_list_removeAll [simp]: "count_list (removeAll x xs) y = (if y = x then 0 else count_list xs y)"
  by (induction xs) auto

lemma count_list_remove1: "x \<in> set xs \<Longrightarrow> count_list (remove1 x xs) y = count_list xs y - (if y = x then 1 else 0)"
  by (induction xs) auto

lemma count_list_pos: "x \<in> set xs \<Longrightarrow> 0 < count_list xs x"
  by (metis count_list_0_iff gr0I)

lemma count_list_distinct: "distinct xs \<Longrightarrow> count_list xs x = (if x \<in> set xs then 1 else 0)"
  by (induction xs) auto

lemma listed_refs: "a \<in> set (misc_devs s) \<Longrightarrow> 0 < dev_refs s a"
  by (simp add: dev_refs_def count_list_pos)

lemma same_devsD: "same_devs s s' \<Longrightarrow> misc_devs s' = misc_devs s \<and> Calls s' = Calls s \<and> Removals s' = Removals s"
  by (simp add: same_devs_def)

lemma same_devs_ext: "same_devs s s' \<Longrightarrow> same_devs s (s'\<lparr>misc_devs := misc_devs s, Calls := Calls s, Removals := Removals s\<rparr>)"
  by (simp add: same_devs_def)

lemma misc_unregister_ok:
  assumes inv: "misc_inv s"
  shows "\<exists>s'. misc_unregister_locked dev s = Some s' \<and> misc_inv s' \<and> Calls s' = Calls s \<and> Removals s' = (if dev \<in> set (misc_devs s) then dev # Removals s else Removals s) \<and>
    misc_devs s' = removeAll dev (misc_devs s)"
proof -
  have c: "counts (dev_refs s) s" "distinct (misc_devs s)" using inv by (simp_all add: misc_inv_def)
  have l: "\<forall>a \<in> set (misc_devs s). 0 < dev_refs s a" using listed_refs by blast
  have ex: "\<exists>d. Devs s dev = Some d" if "dev \<in> set (misc_devs s)" using counts_Some [OF c(1)] l that by blast
  consider "find_dev (\<lambda>c d. c = dev) (misc_devs s) s = Some (None, s)" "dev \<notin> set (misc_devs s)"
    | s' where "find_dev (\<lambda>c d. c = dev) (misc_devs s) s = Some (Some dev, s')" "dev \<in> set (misc_devs s)" "counts ((dev_refs s)(dev := dev_refs s dev + 1)) s'" "same_devs s s'"
    using find_ok [OF c(1) l, of "\<lambda>c d. c = dev"] ex by (elim disjE conjE exE) metis+
  then show ?thesis
  proof cases
    case 1
    then show ?thesis using inv by (simp add: misc_unregister_locked_def kapi_misc_dev_find_by_dev_def)
  next
    case (2 s')
    let ?s = "s'\<lparr>misc_devs := removeAll dev (misc_devs s'), Removals := dev # Removals s'\<rparr>"
    note e = same_devsD [OF 2(4)]
    have "misc_inv ?s"
    proof (rule misc_invI [OF _ _ inv])
      show "counts ((dev_refs s)(dev := dev_refs s dev + 1)) ?s" using 2(3) by (simp add: counts_def)
      show "((dev_refs s)(dev := dev_refs s dev + 1)) a = dev_refs ?s a" for a
        using e c(2) 2(2) by (simp add: dev_refs_def count_list_distinct)
      show "same_devs s (?s\<lparr>misc_devs := misc_devs s, Calls := Calls s, Removals := Removals s\<rparr>)" using 2(4) by (simp add: same_devs_def)
      show "distinct (misc_devs ?s)" "set (misc_devs ?s) \<subseteq> set (misc_devs s)" using e c(2) by (auto simp: distinct_removeAll)
    qed
    then show ?thesis using 2 e by (simp add: misc_unregister_locked_def kapi_misc_dev_find_by_dev_def)
  qed
qed

lemma ioctl_enter_ok:
  assumes inv: "misc_inv s"
  shows "\<exists>s'. ioctl_enter devt s = Some s' \<and> misc_inv s'"
proof -
  have c: "counts (dev_refs s) s" "distinct (misc_devs s)" using inv by (simp_all add: misc_inv_def)
  have l: "\<forall>a \<in> set (misc_devs s). 0 < dev_refs s a" using listed_refs by blast
  consider "find_dev (\<lambda>c d. dev_devt d = Some devt) (misc_devs s) s = Some (None, s)"
    | a s' where "find_dev (\<lambda>c d. dev_devt d = Some devt) (misc_devs s) s = Some (Some a, s')" "counts ((dev_refs s)(a := dev_refs s a + 1)) s'" "same_devs s s'"
    using find_ok [OF c(1) l, of "\<lambda>c d. dev_devt d = Some devt"] by blast
  then show ?thesis
  proof cases
    case 1
    then show ?thesis using inv by (simp add: ioctl_enter_def kapi_misc_dev_find_by_devt_def)
  next
    case (2 a s')
    let ?s = "s'\<lparr>Calls := a # Calls s'\<rparr>"
    note e = same_devsD [OF 2(3)]
    have "misc_inv ?s"
    proof (rule misc_invI [OF _ _ inv])
      show "counts ((dev_refs s)(a := dev_refs s a + 1)) ?s" using 2(2) by (simp add: counts_def)
      show "((dev_refs s)(a := dev_refs s a + 1)) b = dev_refs ?s b" for b using e by (simp add: dev_refs_def)
      show "same_devs s (?s\<lparr>misc_devs := misc_devs s, Calls := Calls s, Removals := Removals s\<rparr>)" using 2(3) by (simp add: same_devs_def)
      show "distinct (misc_devs ?s)" "set (misc_devs ?s) \<subseteq> set (misc_devs s)" using e c(2) by simp_all
    qed
    then show ?thesis using 2 by (simp add: ioctl_enter_def kapi_misc_dev_find_by_devt_def)
  qed
qed

lemma ioctl_leave_ok:
  assumes inv: "misc_inv s" and dev: "dev \<in> set (Calls s)"
  shows "\<exists>s'. ioctl_leave dev s = Some s' \<and> misc_inv s'"
proof -
  have c: "counts (dev_refs s) s" "distinct (misc_devs s)" using inv by (simp_all add: misc_inv_def)
  have "0 < dev_refs s dev" using count_list_pos [OF dev] by (simp add: dev_refs_def)
  from put_ok [OF c(1) this] obtain s' where s': "kapi_misc_dev_put dev s = Some s'" "counts ((dev_refs s)(dev := dev_refs s dev - 1)) s'" "same_devs s s'" by blast
  let ?s = "s'\<lparr>Calls := remove1 dev (Calls s')\<rparr>"
  note e = same_devsD [OF s'(3)]
  have "misc_inv ?s"
  proof (rule misc_invI [OF _ _ inv])
    show "counts ((dev_refs s)(dev := dev_refs s dev - 1)) ?s" using s'(2) by (simp add: counts_def)
    show "((dev_refs s)(dev := dev_refs s dev - 1)) b = dev_refs ?s b" for b
      using e dev count_list_pos [OF dev] by (simp add: dev_refs_def count_list_remove1)
    show "same_devs s (?s\<lparr>misc_devs := misc_devs s, Calls := Calls s, Removals := Removals s\<rparr>)" using s'(3) by (simp add: same_devs_def)
    show "distinct (misc_devs ?s)" "set (misc_devs ?s) \<subseteq> set (misc_devs s)" using e c(2) by simp_all
  qed
  then show ?thesis using s'(1) by (simp add: ioctl_leave_def)
qed

lemma misc_unregister_put_ok:
  assumes inv: "misc_inv s" and dev: "dev \<in> set (Removals s)"
  shows "\<exists>s'. misc_unregister_put dev s = Some s' \<and> misc_inv s'"
proof -
  have c: "counts (dev_refs s) s" "distinct (misc_devs s)" using inv by (simp_all add: misc_inv_def)
  let ?n = "dev_refs s dev"
  have n: "3 \<le> ?n" using count_list_pos [OF dev] by (simp add: dev_refs_def)
  obtain s1 where s1: "kapi_misc_dev_put dev s = Some s1" "counts ((dev_refs s)(dev := ?n - 1)) s1" "same_devs s s1" using put_ok [OF c(1), of dev] n by auto
  obtain s2 where s2: "kapi_misc_dev_put dev s1 = Some s2" "counts ((dev_refs s)(dev := ?n - 1 - 1)) s2" "same_devs s1 s2" using put_ok [OF s1(2), of dev] n by auto
  obtain s3 where s3: "kapi_misc_dev_put dev s2 = Some s3" "counts ((dev_refs s)(dev := ?n - 1 - 1 - 1)) s3" "same_devs s2 s3" using put_ok [OF s2(2), of dev] n by auto
  have sd: "same_devs s s3" using s1(3) s2(3) s3(3) same_devs_trans by blast
  let ?s = "s3\<lparr>Removals := remove1 dev (Removals s3)\<rparr>"
  note e = same_devsD [OF sd]
  have "misc_inv ?s"
  proof (rule misc_invI [OF _ _ inv])
    show "counts ((dev_refs s)(dev := ?n - 1 - 1 - 1)) ?s" using s3(2) by (simp add: counts_def)
    show "((dev_refs s)(dev := ?n - 1 - 1 - 1)) b = dev_refs ?s b" for b
      using e dev count_list_pos [OF dev] by (simp add: dev_refs_def count_list_remove1 diff_mult_distrib2) arith
    show "same_devs s (?s\<lparr>misc_devs := misc_devs s, Calls := Calls s, Removals := Removals s\<rparr>)" using sd by (simp add: same_devs_def)
    show "distinct (misc_devs ?s)" "set (misc_devs ?s) \<subseteq> set (misc_devs s)" using e c(2) by simp_all
  qed
  then show ?thesis using s1(1) s2(1) s3(1) by (simp add: misc_unregister_put_def)
qed


text \<open>Registration of a fresh device.\<close>

lemma misc_register_ok:
  assumes inv: "misc_inv s" and a: "Devs s a = None"
  shows "\<exists>r m' s'. kapi_misc_dev_register context' a reg m s = Some (r, m', s') \<and> misc_inv s'"
proof (cases "fst (new m)")
  case False
  then show ?thesis using inv by (auto simp: kapi_misc_dev_register_def split: prod.splits)
next
  case True
  let ?f = "dev_refs s" and ?d = "\<lparr>dev_context = context', dev_devt = None, ref_count = 1\<rparr>"
  have c: "counts ?f s" "distinct (misc_devs s)" using inv by (simp_all add: misc_inv_def)
  have f0: "?f a = 0" using counts_None [OF c(1), of a] a by simp
  then have out: "a \<notin> set (misc_devs s)" using listed_refs by fastforce
  define s0 where "s0 = s\<lparr>Devs := (Devs s)(a \<mapsto> ?d)\<rparr>"
  have c0: "counts (?f(a := 1)) s0" using c(1) by (auto simp: counts_def s0_def)
  have e0: "misc_devs s0 = misc_devs s" "Calls s0 = Calls s" "Removals s0 = Removals s" by (simp_all add: s0_def)
  have l0: "\<forall>b \<in> set (misc_devs s0). 0 < (?f(a := 1)) b" using out listed_refs by (auto simp: e0)
  have restored: "misc_inv s1" if "same_devs s0 s1" "counts g s1" "g = ?f" for s1 g
  proof (rule misc_invI [OF that(2) _ inv])
    note e = same_devsD [OF that(1)]
    show "g b = dev_refs s1 b" for b using that(3) e by (simp add: dev_refs_def e0)
    have "Devs s1 a = None" using counts_None [OF that(2), of a] that(3) f0 by simp
    moreover have "Devs s0 b = Devs s b" if "b \<noteq> a" for b using that by (simp add: s0_def)
    ultimately have "\<exists>d. Devs s b = Some d \<and> dev_context d' = dev_context d \<and> dev_devt d' = dev_devt d" if "Devs s1 b = Some d'" for b d'
      using \<open>same_devs s0 s1\<close> that unfolding same_devs_def by (metis option.distinct(1))
    then show "same_devs s (s1\<lparr>misc_devs := misc_devs s, Calls := Calls s, Removals := Removals s\<rparr>)" by (simp add: same_devs_def)
    show "distinct (misc_devs s1)" "set (misc_devs s1) \<subseteq> set (misc_devs s)" using e c(2) by (simp_all add: e0)
  qed
  consider
    (found) e s1 where "find_dev (\<lambda>c d. dev_context d = context') (misc_devs s0) s0 = Some (Some e, s1)" "e \<in> set (misc_devs s0)"
      "counts ((?f(a := 1))(e := (?f(a := 1)) e + 1)) s1" "same_devs s0 s1"
    | (none) "find_dev (\<lambda>c d. dev_context d = context') (misc_devs s0) s0 = Some (None, s0)"
      "\<forall>b \<in> set (misc_devs s0). \<forall>d. Devs s0 b = Some d \<longrightarrow> dev_context d \<noteq> context'"
    using find_ok [OF c0 l0, of "\<lambda>c d. dev_context d = context'"] by blast
  then show ?thesis
  proof cases
    case (found e s1)
    have ne: "e \<noteq> a" using found(2) out by (auto simp: e0)
    obtain s2 where s2: "kapi_misc_dev_put e s1 = Some s2" "counts (?f(a := 1)) s2" "same_devs s1 s2" 
      using put_ok [OF found(3), of e] ne by (auto simp: fun_upd_idem [of "(dev_refs s)(a := Suc 0)" e])
    obtain s3 where s3: "kapi_misc_dev_put a s2 = Some s3" "counts (?f(a := 0)) s3" "same_devs s2 s3" using put_ok [OF s2(2), of a] by auto
    have "same_devs s0 s3" using found(4) s2(3) s3(3) same_devs_trans by blast
    then have "misc_inv s3" using f0 by (intro restored [OF _ s3(2)]) (simp_all add: fun_upd_idem)
    then show ?thesis using True found(1) s2(1) s3(1)
      by (auto simp: kapi_misc_dev_register_def kapi_misc_dev_find_by_context_def s0_def [symmetric] Let_def split: prod.splits)
  next
    case none
    obtain s1 where s1: "kapi_misc_dev_get a s0 = Some s1" "counts (?f(a := 2)) s1" "same_devs s0 s1" using get_ok [OF c0, of a] by (auto simp: numeral_2_eq_2)
    note e1 = same_devsD [OF s1(3)]
    define s2 where "s2 = s1\<lparr>misc_devs := misc_devs s1 @ [a]\<rparr>"
    have run: "kapi_misc_dev_register context' a reg m s = (case reg of
          Inl rc \<Rightarrow> do { s \<leftarrow> kapi_misc_dev_put a s1; s \<leftarrow> kapi_misc_dev_put a s; Some (Inl rc, snd (new m), s) }
        | Inr devt \<Rightarrow> do { d \<leftarrow> Devs s1 a; Some (Inr a, snd (new m), s2\<lparr>Devs := (Devs s1)(a \<mapsto> d\<lparr>dev_devt := Some devt\<rparr>)\<rparr>) })"
    proof -
      have "removeAll a (misc_devs s1 @ [a]) = misc_devs s1" using out e1 by (simp add: e0)
      then have "s2\<lparr>misc_devs := removeAll a (misc_devs s2)\<rparr> = s1" by (simp add: s2_def)
      then show ?thesis using True none(1) s1(1)
        by (auto simp: kapi_misc_dev_register_def kapi_misc_dev_find_by_context_def s0_def [symmetric] s2_def Let_def split: prod.splits sum.splits)
    qed
    show ?thesis
    proof (cases reg)
      case (Inl rc)
      obtain s3 where s3: "kapi_misc_dev_put a s1 = Some s3" "counts (?f(a := 1)) s3" "same_devs s1 s3" using put_ok [OF s1(2), of a] by auto
      obtain s4 where s4: "kapi_misc_dev_put a s3 = Some s4" "counts (?f(a := 0)) s4" "same_devs s3 s4" using put_ok [OF s3(2), of a] by auto
      have "same_devs s0 s4" using s1(3) s3(3) s4(3) same_devs_trans by blast
      then have "misc_inv s4" using f0 by (intro restored [OF _ s4(2)]) (simp_all add: fun_upd_idem)
      then show ?thesis using run Inl s3(1) s4(1) by simp
    next
      case (Inr devt)
      obtain d where d: "Devs s1 a = Some d" "ref_count d = 2" using counts_Some [OF s1(2), of a] by auto
      then have dc: "dev_context d = context'" using s1(3) unfolding same_devs_def s0_def by fastforce
      let ?s = "s2\<lparr>Devs := (Devs s1)(a \<mapsto> d\<lparr>dev_devt := Some devt\<rparr>)\<rparr>"
      have "dev_refs ?s = ?f(a := 2)" using e1 f0 out by (auto simp: fun_eq_iff dev_refs_def s2_def e0)
      then have "counts (dev_refs ?s) ?s" using s1(2) d by (auto simp: counts_def)
      moreover have "distinct (misc_devs ?s)" using e1 c(2) out by (simp add: s2_def e0)
      moreover have "x = y" if "x \<in> set (misc_devs ?s)" "y \<in> set (misc_devs ?s)" "Devs ?s x = Some d1" "Devs ?s y = Some d2" "dev_context d1 = dev_context d2" for x y d1 d2
      proof -
        have old: "\<exists>d0. Devs s z = Some d0 \<and> dev_context d' = dev_context d0" "dev_context d' \<noteq> context'"
          if z: "z \<in> set (misc_devs s)" and dz: "Devs ?s z = Some d'" for z d'
        proof -
          have ne: "z \<noteq> a" using z out by blast
          then have "Devs s1 z = Some d'" using dz by simp
          then obtain d0 where d0: "Devs s0 z = Some d0" "dev_context d' = dev_context d0" using s1(3) unfolding same_devs_def by blast
          then show "\<exists>d0. Devs s z = Some d0 \<and> dev_context d' = dev_context d0" using ne by (auto simp: s0_def)
          show "dev_context d' \<noteq> context'" using d0 none(2) z by (simp add: e0)
        qed
        have newd: "dev_context d' = context'" if "Devs ?s a = Some d'" for d' using that dc by auto
        have "z \<in> set (misc_devs s) \<or> z = a" if "z \<in> set (misc_devs ?s)" for z using that e1 by (auto simp: s2_def e0)
        then show ?thesis using that old newd inv unfolding misc_inv_def by metis
      qed
      ultimately have "misc_inv ?s" unfolding misc_inv_def by blast
      then show ?thesis using run Inr d(1) by simp
    qed
  qed
qed


text \<open>What one thread does is its steps in a row.\<close>

lemma put_Calls: "kapi_misc_dev_put a (s\<lparr>Calls := l\<rparr>) = map_option (Calls_update (\<lambda>_. l)) (kapi_misc_dev_put a s)"
  by (cases "Devs s a") (simp_all add: kapi_misc_dev_put_def)

lemma put_Removals: "kapi_misc_dev_put a (s\<lparr>Removals := l\<rparr>) = map_option (Removals_update (\<lambda>_. l)) (kapi_misc_dev_put a s)"
  by (cases "Devs s a") (simp_all add: kapi_misc_dev_put_def)

lemma put_same: "kapi_misc_dev_put a s = Some s' \<Longrightarrow> Calls s' = Calls s \<and> Removals s' = Removals s"
  by (cases "Devs s a") (auto simp: kapi_misc_dev_put_def)

lemma kapi_ioctl_steps:
  "map_option snd (kapi_ioctl devt ioctl s) = do {
     (dev, t) \<leftarrow> kapi_misc_dev_find_by_devt devt s;
     s1 \<leftarrow> ioctl_enter devt s;
     (case dev of None \<Rightarrow> Some s1 | Some a \<Rightarrow> ioctl_leave a s1) }"
proof (cases "kapi_misc_dev_find_by_devt devt s")
  case (Some r)
  obtain dev t where r: "r = (dev, t)" by fastforce
  show ?thesis
  proof (cases dev)
    case (Some a)
    show ?thesis
    proof (cases "kapi_misc_dev_put a t")
      case None
      then show ?thesis using Some \<open>kapi_misc_dev_find_by_devt devt s = Some r\<close>
        by (cases "Devs t a") (simp_all add: r kapi_ioctl_def ioctl_enter_def ioctl_leave_def put_Calls)
    next
      fix u assume u: "kapi_misc_dev_put a t = Some u"
      then have "\<exists>d. Devs t a = Some d" by (cases "Devs t a") (simp_all add: kapi_misc_dev_put_def)
      then show ?thesis using Some \<open>kapi_misc_dev_find_by_devt devt s = Some r\<close> u put_same [OF u]
        by (auto simp: r kapi_ioctl_def ioctl_enter_def ioctl_leave_def put_Calls)
    qed
  qed (use Some r in \<open>simp add: kapi_ioctl_def ioctl_enter_def\<close>)
qed (simp add: kapi_ioctl_def)

lemma kapi_misc_dev_unregister_steps:
  "kapi_misc_dev_unregister dev s = do {
     (found, t) \<leftarrow> kapi_misc_dev_find_by_dev dev s;
     s1 \<leftarrow> misc_unregister_locked dev s;
     (case found of None \<Rightarrow> Some s1 | Some a \<Rightarrow> misc_unregister_put a s1) }"
proof (cases "kapi_misc_dev_find_by_dev dev s")
  case (Some r)
  obtain found t where r: "r = (found, t)" by fastforce
  have three: "do { s \<leftarrow> kapi_misc_dev_put a (x\<lparr>Removals := a # Removals x\<rparr>); s \<leftarrow> kapi_misc_dev_put a s; s \<leftarrow> kapi_misc_dev_put a s; Some (s\<lparr>Removals := remove1 a (Removals s)\<rparr>) }
    = do { s \<leftarrow> kapi_misc_dev_put a x; s \<leftarrow> kapi_misc_dev_put a s; kapi_misc_dev_put a s }" for a and x :: misc_state
  proof (cases "do { s \<leftarrow> kapi_misc_dev_put a x; s \<leftarrow> kapi_misc_dev_put a s; kapi_misc_dev_put a s }")
    case None
    then show ?thesis by (auto simp: put_Removals split: bind_splits)
  next
    case (Some z)
    then obtain u v where uv: "kapi_misc_dev_put a x = Some u" "kapi_misc_dev_put a u = Some v" "kapi_misc_dev_put a v = Some z" by (auto split: bind_splits)
    have "Removals z = Removals x" using uv [THEN put_same] by simp
    then have "z\<lparr>Removals := Removals x\<rparr> = z" by simp
    then show ?thesis using uv by (simp add: put_Removals)
  qed
  show ?thesis
  proof (cases found)
    case (Some a)
    then show ?thesis using \<open>kapi_misc_dev_find_by_dev dev s = Some r\<close> three [of a "t\<lparr>misc_devs := removeAll a (misc_devs t)\<rparr>"]
      by (simp add: r kapi_misc_dev_unregister_def misc_unregister_locked_def misc_unregister_put_def)
  qed (use Some r in \<open>simp add: kapi_misc_dev_unregister_def misc_unregister_locked_def\<close>)
qed (simp add: kapi_misc_dev_unregister_def)

lemma misc_reach_inv: "misc_reach s \<Longrightarrow> misc_inv s"
proof (induction rule: misc_reach.induct)
  case reach_init
  then show ?case by (simp add: misc_inv_def misc_init_def counts_def dev_refs_def)
next
  case (reach_step s s')
  from reach_step.hyps(2) show ?case
  proof cases
    case (step_register a context' reg m)
    then show ?thesis using misc_register_ok [OF reach_step.IH step_register(2), of context' reg m] by auto
  next
    case (step_unregister dev)
    then show ?thesis using misc_unregister_ok [OF reach_step.IH, of dev] by auto
  next
    case (step_unregister_put dev)
    then show ?thesis using misc_unregister_put_ok [OF reach_step.IH step_unregister_put(2)] by auto
  next
    case (step_ioctl devt)
    then show ?thesis using ioctl_enter_ok [OF reach_step.IH, of devt] by auto
  next
    case (step_ioctl_leave dev)
    then show ?thesis using ioctl_leave_ok [OF reach_step.IH step_ioctl_leave(2)] by auto
  qed
qed

lemma misc_step_safe: "misc_inv s \<Longrightarrow> misc_step s r \<Longrightarrow> r \<noteq> None"
proof (elim misc_stepE)
  assume inv: "misc_inv s"
  show "r \<noteq> None" if "r = map_option (\<lambda>(r, m', s'). s') (kapi_misc_dev_register context' a reg m s)" "Devs s a = None" for a context' reg m
    using misc_register_ok [OF inv that(2), of context' reg m] that(1) by auto
  show "r \<noteq> None" if "r = misc_unregister_locked dev s" for dev using misc_unregister_ok [OF inv, of dev] that by auto
  show "r \<noteq> None" if "r = misc_unregister_put dev s" "dev \<in> set (Removals s)" for dev using misc_unregister_put_ok [OF inv that(2)] that(1) by auto
  show "r \<noteq> None" if "r = ioctl_enter devt s" for devt using ioctl_enter_ok [OF inv, of devt] that by auto
  show "r \<noteq> None" if "r = ioctl_leave dev s" "dev \<in> set (Calls s)" for dev using ioctl_leave_ok [OF inv that(2)] that(1) by auto
qed

lemma kapi_ioctl_reach:
  assumes "misc_reach s"
  shows "\<exists>r s'. kapi_ioctl devt ioctl s = Some (r, s') \<and> misc_reach s'"
proof -
  note inv = misc_reach_inv [OF assms]
  obtain s1 where s1: "ioctl_enter devt s = Some s1" "misc_inv s1" using ioctl_enter_ok [OF inv] by blast
  then have r1: "misc_reach s1" using reach_step [OF assms] step_ioctl [of s devt] by simp
  obtain dev t where f: "kapi_misc_dev_find_by_devt devt s = Some (dev, t)" using s1(1) by (auto simp: ioctl_enter_def split: bind_splits)
  have "\<exists>s'. map_option snd (kapi_ioctl devt ioctl s) = Some s' \<and> misc_reach s'"
  proof (cases dev)
    case None
    then have "map_option snd (kapi_ioctl devt ioctl s) = Some s1" using kapi_ioctl_steps [of devt ioctl s] s1 f by simp
    then show ?thesis using r1 by blast
  next
    case (Some a)
    then have a: "a \<in> set (Calls s1)" using s1(1) f by (auto simp: ioctl_enter_def)
    obtain s2 where s2: "ioctl_leave a s1 = Some s2" using ioctl_leave_ok [OF s1(2) a] by blast
    then have "misc_reach s2" using reach_step [OF r1] step_ioctl_leave [OF a] by simp
    moreover have "map_option snd (kapi_ioctl devt ioctl s) = Some s2" using kapi_ioctl_steps [of devt ioctl s] s1 f Some s2 by simp
    ultimately show ?thesis by blast
  qed
  then show ?thesis by auto
qed

lemma kapi_misc_dev_unregister_reach:
  assumes "misc_reach s"
  shows "\<exists>s'. kapi_misc_dev_unregister dev s = Some s' \<and> misc_reach s'"
proof -
  note inv = misc_reach_inv [OF assms]
  obtain s1 where s1: "misc_unregister_locked dev s = Some s1" "misc_inv s1" using misc_unregister_ok [OF inv] by blast
  then have r1: "misc_reach s1" using reach_step [OF assms] step_unregister [of s dev] by simp
  obtain found t where f: "kapi_misc_dev_find_by_dev dev s = Some (found, t)" using s1(1) by (auto simp: misc_unregister_locked_def split: bind_splits)
  show ?thesis
  proof (cases found)
    case None
    then show ?thesis using kapi_misc_dev_unregister_steps [of dev s] s1 f r1 by simp
  next
    case (Some a)
    then have a: "a \<in> set (Removals s1)" using s1(1) f by (auto simp: misc_unregister_locked_def)
    obtain s2 where "misc_unregister_put a s1 = Some s2" using misc_unregister_put_ok [OF s1(2) a] by blast
    then show ?thesis using kapi_misc_dev_unregister_steps [of dev s] s1 f Some reach_step [OF r1] step_unregister_put [OF a] by simp
  qed
qed

section \<open>Properties\<close>

text \<open>
  Claim C14. The references of the devices are balanced under every interleaving of registrations, removals and requests: no step uses a device that was freed, a device exists exactly as long as it is in
  the list or a request or a removal still works with it, its counter is two for the list, one for each request and three for each removal in progress, and no two devices of the list have the same context.
  A device that was removed gets no new request. A whole request and a whole removal always come to their end.
\<close>

theorem misc_devices_balanced:
  assumes "misc_reach s"
  shows "(\<forall>r. misc_step s r \<longrightarrow> r \<noteq> None) \<and>
    (\<forall>a. (\<exists>d. Devs s a = Some d) \<longleftrightarrow> a \<in> set (misc_devs s) \<or> a \<in> set (Calls s) \<or> a \<in> set (Removals s)) \<and>
    (\<forall>a d. Devs s a = Some d \<longrightarrow> ref_count d = int (2 * count_list (misc_devs s) a + count_list (Calls s) a + 3 * count_list (Removals s) a)) \<and>
    (\<forall>a \<in> set (misc_devs s). \<forall>b \<in> set (misc_devs s). \<forall>d e. Devs s a = Some d \<and> Devs s b = Some e \<and> dev_context d = dev_context e \<longrightarrow> a = b) \<and>
    (\<exists>s'. misc_unregister_locked dev s = Some s' \<and> dev \<notin> set (misc_devs s') \<and>
      (\<forall>devt s''. ioctl_enter devt s' = Some s'' \<longrightarrow> count_list (Calls s'') dev = count_list (Calls s) dev)) \<and>
    (\<exists>r s'. kapi_ioctl devt ioctl s = Some (r, s') \<and> misc_reach s') \<and>
    (\<exists>s'. kapi_misc_dev_unregister dev s = Some s' \<and> misc_reach s')"
proof -
  note inv = misc_reach_inv [OF assms]
  have c: "counts (dev_refs s) s" using inv by (simp add: misc_inv_def)
  have zero: "dev_refs s a = 0 \<longleftrightarrow> a \<notin> set (misc_devs s) \<and> a \<notin> set (Calls s) \<and> a \<notin> set (Removals s)" for a
    by (auto simp: dev_refs_def count_list_0_iff)
  have alive: "(\<exists>d. Devs s a = Some d) \<longleftrightarrow> a \<in> set (misc_devs s) \<or> a \<in> set (Calls s) \<or> a \<in> set (Removals s)" for a
    using counts_None [OF c, of a] zero [of a] by auto
  have refs: "ref_count d = int (2 * count_list (misc_devs s) a + count_list (Calls s) a + 3 * count_list (Removals s) a)" if "Devs s a = Some d" for a d
    using c that by (simp add: counts_def dev_refs_def)
  from misc_unregister_ok [OF inv, of dev] obtain s' where s': "misc_unregister_locked dev s = Some s'" "misc_inv s'" "Calls s' = Calls s" "misc_devs s' = removeAll dev (misc_devs s)" by blast
  have "count_list (Calls s'') dev = count_list (Calls s) dev" if "ioctl_enter devt s' = Some s''" for devt s''
  proof -
    have c': "counts (dev_refs s') s'" using s'(2) by (simp add: misc_inv_def)
    have l: "\<forall>a \<in> set (misc_devs s'). 0 < dev_refs s' a" using listed_refs by blast
    consider "find_dev (\<lambda>c d. dev_devt d = Some devt) (misc_devs s') s' = Some (None, s')"
      | a t where "find_dev (\<lambda>c d. dev_devt d = Some devt) (misc_devs s') s' = Some (Some a, t)" "a \<in> set (misc_devs s')" "same_devs s' t"
      using find_ok [OF c' l, of "\<lambda>c d. dev_devt d = Some devt"] by blast
    then show ?thesis using that s'(3,4) by cases (auto simp: ioctl_enter_def kapi_misc_dev_find_by_devt_def dest: same_devsD)
  qed
  then have rem: "\<exists>s'. misc_unregister_locked dev s = Some s' \<and> dev \<notin> set (misc_devs s') \<and>
      (\<forall>devt s''. ioctl_enter devt s' = Some s'' \<longrightarrow> count_list (Calls s'') dev = count_list (Calls s) dev)" using s'(1,4) by auto
  have safe: "\<forall>r. misc_step s r \<longrightarrow> r \<noteq> None" using misc_step_safe [OF inv] by blast
  have ctx: "\<forall>a \<in> set (misc_devs s). \<forall>b \<in> set (misc_devs s). \<forall>d e. Devs s a = Some d \<and> Devs s b = Some e \<and> dev_context d = dev_context e \<longrightarrow> a = b"
    using inv by (simp add: misc_inv_def)
  show ?thesis by (intro conjI safe ctx rem allI alive impI refs kapi_ioctl_reach kapi_misc_dev_unregister_reach assms)
qed

text \<open>A device with a request in progress while it is removed.\<close>

definition sample_dev :: kapi_misc_dev where
  "sample_dev = \<lparr>dev_context = 9, dev_devt = Some 7, ref_count = 6\<rparr>"

definition sample_misc :: misc_state where
  "sample_misc = \<lparr>Devs = [0 \<mapsto> sample_dev\<lparr>ref_count := 4\<rparr>], misc_devs = [], Calls = [0], Removals = [0]\<rparr>"

lemma sample_misc_reach: "misc_reach sample_misc"
proof -
  let ?s1 = "\<lparr>Devs = [0 \<mapsto> sample_dev\<lparr>ref_count := 2\<rparr>], misc_devs = [0], Calls = [], Removals = []\<rparr>"
  let ?s2 = "\<lparr>Devs = [0 \<mapsto> sample_dev\<lparr>ref_count := 3\<rparr>], misc_devs = [0], Calls = [0], Removals = []\<rparr>"
  have reg: "map_option (\<lambda>(r, m', s'). s') (kapi_misc_dev_register 9 0 (Inr 7) [] misc_init) = Some ?s1"
    by (simp add: kapi_misc_dev_register_def kapi_misc_dev_find_by_context_def misc_init_def kapi_misc_dev_get_def sample_dev_def Let_def)
  have "Devs misc_init 0 = None" by (simp add: misc_init_def)
  then have "misc_step misc_init (Some ?s1)" unfolding reg [symmetric] by (rule step_register)
  then have r1: "misc_reach ?s1" by (rule reach_step [OF reach_init])
  have "ioctl_enter 7 ?s1 = Some ?s2" by (simp add: ioctl_enter_def kapi_misc_dev_find_by_devt_def kapi_misc_dev_get_def sample_dev_def)
  then have r2: "misc_reach ?s2" using reach_step [OF r1] step_ioctl [of ?s1 7] by simp
  have "misc_unregister_locked 0 ?s2 = Some sample_misc"
    by (simp add: misc_unregister_locked_def kapi_misc_dev_find_by_dev_def kapi_misc_dev_get_def sample_dev_def sample_misc_def)
  then show ?thesis using reach_step [OF r2] step_unregister [of ?s2 0] by simp
qed

theorem misc_devices_balanced_witness:
  "(\<exists>d. Devs sample_misc 0 = Some d) \<and> (\<exists>s'. misc_unregister_put 0 sample_misc = Some s')"
proof -
  have "misc_step sample_misc (misc_unregister_put 0 sample_misc)" by (rule step_unregister_put) (simp add: sample_misc_def)
  then show ?thesis using misc_devices_balanced [OF sample_misc_reach, of 0] by (auto simp: sample_misc_def)
qed

end
