(* ===== verification/Vfs_File.thy ===== *)
theory Vfs_File
  imports Errors Layout "HOL-Library.Monad_Syntax"
begin

unbundle bit_operations_syntax

text \<open>
  Files: the functions for files of \<^verbatim>\<open>src/system/kapi.c\<close> and the class of \<^verbatim>\<open>src/core/vfs_file.cpp\<close>. The calls of the kernel are parameters: \<open>filp_open\<close>
  opens a path, \<open>vfs_read\<close> and \<open>vfs_write\<close> transfer a piece at an offset and return its length or an error with the new offset, and \<open>fput\<close> closes. \<open>None\<close> is the use of a null pointer.
\<close>

section \<open>Kernel layer\<close>

definition KAPI_VFS_FILE_RDONLY :: uint32_t where "KAPI_VFS_FILE_RDONLY = 0x1"
definition KAPI_VFS_FILE_WRONLY :: uint32_t where "KAPI_VFS_FILE_WRONLY = 0x2"
definition KAPI_VFS_FILE_RDWR :: uint32_t where "KAPI_VFS_FILE_RDWR = 0x4"
definition KAPI_VFS_FILE_CREAT :: uint32_t where "KAPI_VFS_FILE_CREAT = 0x8"
definition KAPI_VFS_FILE_EXCL :: uint32_t where "KAPI_VFS_FILE_EXCL = 0x10"

text \<open>The flags of the kernel and its code for a failed transfer.\<close>

definition O_RDONLY :: uint32_t where "O_RDONLY = 0"
definition O_WRONLY :: uint32_t where "O_WRONLY = 1"
definition O_CREAT :: uint32_t where "O_CREAT = 0x40"
definition O_EXCL :: uint32_t where "O_EXCL = 0x80"
definition EIO :: int where "EIO = 5"

type_synonym 'k opener = "string \<Rightarrow> uint32_t \<Rightarrow> uint32_t \<Rightarrow> 'k \<Rightarrow> (int + nat) \<times> 'k"

definition kapi_vfs_file_open :: "'k opener \<Rightarrow> string \<Rightarrow> uint32_t \<Rightarrow> 'k \<Rightarrow> int \<times> nat option \<times> 'k" where
  "kapi_vfs_file_open filp_open path flags k =
     (let flags' = 0;
          flags' = (if flags AND KAPI_VFS_FILE_RDONLY \<noteq> 0 then flags' OR O_RDONLY else flags');
          flags' = (if flags AND KAPI_VFS_FILE_WRONLY \<noteq> 0 then flags' OR O_WRONLY else flags');
          flags' = (if flags' AND KAPI_VFS_FILE_CREAT \<noteq> 0 then flags' OR O_CREAT else flags');
          flags' = (if flags' AND KAPI_VFS_FILE_EXCL \<noteq> 0 then flags' OR O_EXCL else flags')
      in (case filp_open path flags' 0 k of
            (Inl rc, k) \<Rightarrow> (rc, None, k)
          | (Inr file, k) \<Rightarrow> (0, Some file, k)))"

text \<open>The result of a transfer is kept as a 32-bit integer.\<close>

partial_function (option) vfs_write_loop ::
    "(nat \<Rightarrow> bytes \<Rightarrow> uint64_t \<Rightarrow> 'k \<Rightarrow> int \<times> uint64_t \<times> 'k) \<Rightarrow> nat option \<Rightarrow> bytes \<Rightarrow> uint64_t \<Rightarrow> uint64_t \<Rightarrow> uint64_t \<Rightarrow> 'k \<Rightarrow> (int \<times> 'k) option" where
  "vfs_write_loop vfs_write file buf len pos off k =
     (if pos < len
      then (case file of
        None \<Rightarrow> None
      | Some f \<Rightarrow>
          (let (r, off, k) = vfs_write f (take (unat (len - pos)) (drop (unat pos) buf)) off k;
               ret = signed_take_bit 31 r
           in if ret < 0 then Some (ret, k)
           else if ret = 0 then Some (- EIO, k)
           else vfs_write_loop vfs_write file buf len (pos + word_of_int ret) off k))
      else Some (0, k))"

definition kapi_vfs_file_write ::
    "(nat \<Rightarrow> bytes \<Rightarrow> uint64_t \<Rightarrow> 'k \<Rightarrow> int \<times> uint64_t \<times> 'k) \<Rightarrow> nat option \<Rightarrow> bytes \<Rightarrow> uint64_t \<Rightarrow> uint64_t \<Rightarrow> 'k \<Rightarrow> (int \<times> 'k) option" where
  "kapi_vfs_file_write vfs_write file buf len offset k = vfs_write_loop vfs_write file buf len 0 offset k"

partial_function (option) vfs_read_loop ::
    "(nat \<Rightarrow> nat \<Rightarrow> uint64_t \<Rightarrow> 'k \<Rightarrow> int \<times> bytes \<times> uint64_t \<times> 'k) \<Rightarrow> nat option \<Rightarrow> uint64_t \<Rightarrow> uint64_t \<Rightarrow> uint64_t \<Rightarrow> bytes \<Rightarrow> 'k \<Rightarrow> (int \<times> bytes \<times> 'k) option" where
  "vfs_read_loop vfs_read file len pos off buf k =
     (if pos < len
      then (case file of
        None \<Rightarrow> None
      | Some f \<Rightarrow>
          (let (r, bs, off, k) = vfs_read f (unat (len - pos)) off k;
               buf = put (unat pos) bs buf;
               ret = signed_take_bit 31 r
           in if ret < 0 then Some (ret, buf, k)
           else if ret = 0 then Some (- EIO, buf, k)
           else vfs_read_loop vfs_read file len (pos + word_of_int ret) off buf k))
      else Some (0, buf, k))"

definition kapi_vfs_file_read ::
    "(nat \<Rightarrow> nat \<Rightarrow> uint64_t \<Rightarrow> 'k \<Rightarrow> int \<times> bytes \<times> uint64_t \<times> 'k) \<Rightarrow> nat option \<Rightarrow> bytes \<Rightarrow> uint64_t \<Rightarrow> uint64_t \<Rightarrow> 'k \<Rightarrow> (int \<times> bytes \<times> 'k) option" where
  "kapi_vfs_file_read vfs_read file buf len offset k = vfs_read_loop vfs_read file len 0 offset buf k"

section \<open>The class\<close>

record VfsFile =
  FilePtr :: "nat option"

definition make_VfsFile :: VfsFile where
  "make_VfsFile = \<lparr>FilePtr = None\<rparr>"

definition VfsFile_Open :: "'k opener \<Rightarrow> string \<Rightarrow> bool \<Rightarrow> bool \<Rightarrow> 'k \<Rightarrow> VfsFile \<Rightarrow> err \<times> 'k \<times> VfsFile" where
  "VfsFile_Open filp_open path read' create k v =
     (if FilePtr v \<noteq> None then (InvalidState, k, v)
      else let flags = (if read' then KAPI_VFS_FILE_RDONLY else KAPI_VFS_FILE_RDWR);
               flags = (if create then flags OR (KAPI_VFS_FILE_CREAT OR KAPI_VFS_FILE_EXCL) else flags);
               (rc, file, k) = kapi_vfs_file_open filp_open path flags k
      in if rc \<noteq> 0 then (rc, k, v)
      else (Success, k, v\<lparr>FilePtr := file\<rparr>))"

definition VfsFile_new :: "'k opener \<Rightarrow> string \<Rightarrow> bool \<Rightarrow> bool \<Rightarrow> err \<Rightarrow> 'k \<Rightarrow> err \<times> 'k \<times> VfsFile" where
  "VfsFile_new filp_open path read' create err k =
     (if err \<noteq> Success then (err, k, make_VfsFile) else VfsFile_Open filp_open path read' create k make_VfsFile)"

definition VfsFile_Read ::
    "(nat \<Rightarrow> nat \<Rightarrow> uint64_t \<Rightarrow> 'k \<Rightarrow> int \<times> bytes \<times> uint64_t \<times> 'k) \<Rightarrow> uint64_t \<Rightarrow> bytes \<Rightarrow> uint64_t \<Rightarrow> 'k \<Rightarrow> VfsFile \<Rightarrow> (err \<times> bytes \<times> 'k) option" where
  "VfsFile_Read vfs_read offset buf len k v = kapi_vfs_file_read vfs_read (FilePtr v) buf len offset k"

definition VfsFile_Write ::
    "(nat \<Rightarrow> bytes \<Rightarrow> uint64_t \<Rightarrow> 'k \<Rightarrow> int \<times> uint64_t \<times> 'k) \<Rightarrow> uint64_t \<Rightarrow> bytes \<Rightarrow> uint64_t \<Rightarrow> 'k \<Rightarrow> VfsFile \<Rightarrow> (err \<times> 'k) option" where
  "VfsFile_Write vfs_write offset buf len k v = kapi_vfs_file_write vfs_write (FilePtr v) buf len offset k"

definition VfsFile_Sync :: "(nat option \<Rightarrow> 'k \<Rightarrow> int \<times> 'k) \<Rightarrow> 'k \<Rightarrow> VfsFile \<Rightarrow> err \<times> 'k" where
  "VfsFile_Sync vfs_fsync k v = vfs_fsync (FilePtr v) k"

definition VfsFile_Close :: "(nat \<Rightarrow> 'k \<Rightarrow> 'k) \<Rightarrow> 'k \<Rightarrow> VfsFile \<Rightarrow> 'k \<times> VfsFile" where
  "VfsFile_Close fput k v = (case FilePtr v of None \<Rightarrow> (k, v) | Some f \<Rightarrow> (fput f k, v\<lparr>FilePtr := None\<rparr>))"


section \<open>What the kernel promises\<close>

text \<open>Writing into a file: a gap behind the end is filled with zeros.\<close>

definition write_at :: "nat \<Rightarrow> bytes \<Rightarrow> bytes \<Rightarrow> bytes" where
  "write_at off bs xs = (if bs = [] then xs else take off (xs @ replicate (off - length xs) 0) @ bs @ drop (off + length bs) xs)"

lemma write_at_append: "write_at (off + length a) b (write_at off a xs) = write_at off (a @ b) xs"
proof -
  have "min (length xs) off + (off - length xs) = off" by simp
  then show ?thesis by (auto simp: write_at_def drop_append add.commute add.left_commute)
qed

lemma write_at_read: "take (length bs) (drop off (write_at off bs xs)) = bs"
  by (simp add: write_at_def)

lemma write_at_length: "bs \<noteq> [] \<Longrightarrow> off + length bs \<le> length (write_at off bs xs)"
  by (simp add: write_at_def)

text \<open>
  The calls for one open file with the given content: a piece is not longer than asked for and fits into a 32-bit integer, the offset advances by its length, an empty piece is read at the end of
  the file only, and an error leaves the content.
\<close>

definition vfs_law :: "(nat \<Rightarrow> uint64_t \<Rightarrow> 'k \<Rightarrow> int \<times> bytes \<times> uint64_t \<times> 'k) \<Rightarrow> (bytes \<Rightarrow> uint64_t \<Rightarrow> 'k \<Rightarrow> int \<times> uint64_t \<times> 'k) \<Rightarrow> ('k \<Rightarrow> bytes) \<Rightarrow> bool" where
  "vfs_law rd wr content \<longleftrightarrow>
     (\<forall>n off k r bs off' k'. 0 < n \<longrightarrow> rd n off k = (r, bs, off', k') \<longrightarrow> content k' = content k \<and> length bs \<le> n \<and> - 4096 \<le> r \<and> r \<le> int n \<and> r < 2147483648 \<and>
       (0 \<le> r \<longrightarrow> length bs = nat r \<and> bs = take (nat r) (drop (unat off) (content k)) \<and> off' = off + word_of_int r \<and> (r = 0 \<longrightarrow> length (content k) \<le> unat off))) \<and>
     (\<forall>bs off k r off' k'. bs \<noteq> [] \<longrightarrow> wr bs off k = (r, off', k') \<longrightarrow> - 4096 \<le> r \<and> r \<le> int (length bs) \<and> r < 2147483648 \<and>
       content k' = write_at (unat off) (take (nat r) bs) (content k) \<and> (0 \<le> r \<longrightarrow> off' = off + word_of_int r))"

lemma rd_law:
  assumes "vfs_law rd wr content" "0 < n" "rd n off k = (r, bs, off', k')"
  shows "content k' = content k \<and> length bs \<le> n \<and> - 4096 \<le> r \<and> r \<le> int n \<and> r < 2147483648 \<and>
    (0 \<le> r \<longrightarrow> length bs = nat r \<and> bs = take (nat r) (drop (unat off) (content k)) \<and> off' = off + word_of_int r \<and> (r = 0 \<longrightarrow> length (content k) \<le> unat off))"
  using conjunct1 [OF assms(1) [unfolded vfs_law_def]] assms(2,3) by blast

lemma wr_law:
  assumes "vfs_law rd wr content" "bs \<noteq> []" "wr bs off k = (r, off', k')"
  shows "- 4096 \<le> r \<and> r \<le> int (length bs) \<and> r < 2147483648 \<and>
    content k' = write_at (unat off) (take (nat r) bs) (content k) \<and> (0 \<le> r \<longrightarrow> off' = off + word_of_int r)"
  using conjunct2 [OF assms(1) [unfolded vfs_law_def]] assms(2,3) by blast

section \<open>The loops\<close>

lemma piece_small: "- 4096 \<le> r \<Longrightarrow> r < 2147483648 \<Longrightarrow> signed_take_bit 31 r = (r :: int)"
  by (rule signed_take_bit_int_eq_self) simp_all

lemma pos_advance:
  fixes pos len :: uint64_t
  assumes "pos < len" "0 < r" "r \<le> int (unat (len - pos))"
  shows "unat (pos + word_of_int r) = unat pos + nat r" "unat (len - (pos + word_of_int r)) = unat (len - pos) - nat r" "pos + word_of_int r \<le> len"
proof -
  have n: "unat (len - pos) = unat len - unat pos" using assms(1) by (intro unat_sub) simp
  have r: "word_of_int r = (of_nat (nat r) :: uint64_t)" using assms(2) by simp
  have b: "unat pos + nat r \<le> unat len" 
  proof -
    have "r \<le> int (unat len - unat pos)" using assms(3) by (simp only: n)
    then show ?thesis using assms(1,2) unfolding word_less_nat_alt by linarith
  qed
  then have "unat pos + nat r < 2 ^ 64" using unat_lt_64 [of len] by simp
  then show u: "unat (pos + word_of_int r) = unat pos + nat r" unfolding r by (simp add: unat_word_ariths unat_of_nat take_bit_nat_eq_self)
  show le: "pos + word_of_int r \<le> len" using u b by (simp add: word_le_nat_alt)
  show "unat (len - (pos + word_of_int r)) = unat (len - pos) - nat r" unfolding unat_sub [OF le] n u by simp
qed

lemma off_advance: "unat (off :: uint64_t) + n < 18446744073709551616 \<Longrightarrow> 0 \<le> r \<Longrightarrow> r \<le> int n \<Longrightarrow> unat (off + word_of_int r) = unat off + nat r"
proof -
  assume a: "unat off + n < 18446744073709551616" "0 \<le> r" "r \<le> int n"
  have r: "word_of_int r = (of_nat (nat r) :: uint64_t)" using a(2) by simp
  have "unat off + nat r < 2 ^ 64" using a by simp
  then show ?thesis unfolding r by (simp add: unat_word_ariths unat_of_nat take_bit_nat_eq_self)
qed

lemma vfs_write_loop_ok:
  assumes law: "vfs_law rd wr content" and "\<And>bs off k. vfs_write h bs off k = wr bs off k" "length buf = unat len" "pos \<le> len" "unat off + unat (len - pos) < 18446744073709551616"
  shows "\<exists>ret k' n. vfs_write_loop vfs_write (Some h) buf len pos off k = Some (ret, k') \<and> ret \<le> 0 \<and> n \<le> unat (len - pos) \<and> (ret = 0 \<longrightarrow> n = unat (len - pos)) \<and>
    content k' = write_at (unat off) (take n (drop (unat pos) buf)) (content k) \<and> ((\<forall>bs off k. bs \<noteq> [] \<longrightarrow> 0 < fst (wr bs off k)) \<longrightarrow> ret = 0)"
  using assms(4,5)
proof (induction "unat (len - pos)" arbitrary: pos off k rule: less_induct)
  case less
  note unfold = vfs_write_loop.simps [of vfs_write "Some h" buf len pos off k]
  show ?case
  proof (cases "pos < len")
    case False
    have "vfs_write_loop vfs_write (Some h) buf len pos off k = Some (0, k)" using False unfold by simp
    moreover have "pos = len" using False less.prems(1) by simp
    ultimately show ?thesis by (intro exI [of _ 0] exI [of _ k]) (simp add: write_at_def)
  next
    case True
    let ?bs = "take (unat (len - pos)) (drop (unat pos) buf)"
    have n: "unat (len - pos) = unat len - unat pos" "unat pos < unat len" using unat_sub [OF less.prems(1)] True by (simp_all add: word_less_nat_alt)
    have lb: "length ?bs = unat (len - pos)" using n assms(3) by simp
    then have ne: "?bs \<noteq> []" using n by auto
    obtain r off' k1 where w: "wr ?bs off k = (r, off', k1)" using prod_cases3 by blast
    note L = wr_law [OF law ne w]
    have ret: "signed_take_bit 31 r = r" using L by (intro piece_small) simp_all
    have loop: "vfs_write_loop vfs_write (Some h) buf len pos off k = (if r < 0 then Some (r, k1) else if r = 0 then Some (- EIO, k1)
        else vfs_write_loop vfs_write (Some h) buf len (pos + word_of_int r) off' k1)"
      unfolding unfold using True by (simp add: assms(2) w ret del: signed_take_bit_negative_iff)
    have unsure: "\<not> (\<forall>bs off k. bs \<noteq> [] \<longrightarrow> 0 < fst (wr bs off k))" if "r \<le> 0" using w ne that by (metis fst_conv not_less)
    consider "r < 0" | "r = 0" | "0 < r" by linarith
    then show ?thesis
    proof cases
      case 1
      then have "content k1 = content k" using L by (simp add: write_at_def)
      then show ?thesis using loop 1 unsure by (intro exI [of _ r] exI [of _ k1] exI [of _ 0]) (simp add: write_at_def)
    next
      case 2
      then have "content k1 = content k" using L by (simp add: write_at_def)
      then show ?thesis using loop 2 unsure by (intro exI [of _ "- EIO"] exI [of _ k1] exI [of _ 0]) (simp add: write_at_def EIO_def)
    next
      case 3
      have le: "r \<le> int (unat (len - pos))" using L lb by simp
      note A = pos_advance [OF True 3 le]
      have o: "unat (off + word_of_int r) = unat off + nat r" using off_advance [OF less.prems(2) _ le] 3 by simp
      let ?p = "pos + word_of_int r" and ?o = "off + word_of_int r"
      have step: "vfs_write_loop vfs_write (Some h) buf len pos off k = vfs_write_loop vfs_write (Some h) buf len ?p ?o k1"
        using loop 3 L by simp
      have "unat (len - ?p) < unat (len - pos)" "unat ?o + unat (len - ?p) < 18446744073709551616" using A(2) o 3 le less.prems(2) by linarith+
      from less.hyps [OF this(1) A(3) this(2), of k1] obtain ret k' m where
        R: "vfs_write_loop vfs_write (Some h) buf len ?p ?o k1 = Some (ret, k')" "ret \<le> 0" "m \<le> unat (len - ?p)" "ret = 0 \<longrightarrow> m = unat (len - ?p)"
          "content k' = write_at (unat ?o) (take m (drop (unat ?p) buf)) (content k1)" "(\<forall>bs off k. bs \<noteq> [] \<longrightarrow> 0 < fst (wr bs off k)) \<longrightarrow> ret = 0" by blast
      let ?a = "take (nat r) (drop (unat pos) buf)"
      have "nat r \<le> length (drop (unat pos) buf)" using le n assms(3) unfolding length_drop by linarith
      then have la: "length ?a = nat r" unfolding length_take by simp
      have "nat r \<le> unat (len - pos)" using le by linarith
      then have "take (nat r) ?bs = ?a" unfolding take_take by (simp only: min_absorb1)
      then have "content k' = write_at (unat off) (?a @ take m (drop (unat ?p) buf)) (content k)"
        using R(5) L unfolding o using write_at_append [of "unat off" ?a "take m (drop (unat ?p) buf)" "content k"] la by simp
      moreover have "?a @ take m (drop (unat ?p) buf) = take (nat r + m) (drop (unat pos) buf)" unfolding A(1) by (simp only: take_add drop_drop add.commute [of "nat r" "unat pos"])
      moreover have "nat r + m \<le> unat (len - pos)" "ret = 0 \<longrightarrow> nat r + m = unat (len - pos)" using R(3,4) A(2) le by linarith+
      ultimately show ?thesis unfolding step using R(1,2,6) by (intro exI [of _ ret] exI [of _ k'] exI [of _ "nat r + m"]) simp
    qed
  qed
qed

lemma vfs_read_loop_ok:
  assumes law: "vfs_law rd wr content" and "\<And>n off k. vfs_read h n off k = rd n off k" "length buf = unat len" "pos \<le> len" "unat off + unat (len - pos) < 18446744073709551616"
  shows "\<exists>ret buf' k'. vfs_read_loop vfs_read (Some h) len pos off buf k = Some (ret, buf', k') \<and> ret \<le> 0 \<and> content k' = content k \<and> length buf' = length buf \<and>
    (ret = 0 \<longrightarrow> buf' = take (unat pos) buf @ take (unat (len - pos)) (drop (unat off) (content k)) \<and> (pos < len \<longrightarrow> unat off + unat (len - pos) \<le> length (content k))) \<and>
    ((\<forall>n off k. 0 < n \<longrightarrow> 0 \<le> fst (rd n off k)) \<longrightarrow> ret = (if pos < len \<and> length (content k) < unat off + unat (len - pos) then - EIO else 0))"
  using assms(3-5)
proof (induction "unat (len - pos)" arbitrary: pos off buf k rule: less_induct)
  case less
  note unfold = vfs_read_loop.simps [of vfs_read "Some h" len pos off buf k]
  show ?case
  proof (cases "pos < len")
    case False
    have "vfs_read_loop vfs_read (Some h) len pos off buf k = Some (0, buf, k)" using False unfold by simp
    moreover have "pos = len" using False less.prems(2) by simp
    ultimately show ?thesis using less.prems(1) by (intro exI [of _ 0] exI [of _ buf] exI [of _ k]) simp
  next
    case True
    have n: "unat (len - pos) = unat len - unat pos" "unat pos < unat len" using unat_sub [OF less.prems(2)] True by (simp_all add: word_less_nat_alt)
    then have n0: "0 < unat (len - pos)" by simp
    obtain r bs off' k1 where w: "rd (unat (len - pos)) off k = (r, bs, off', k1)" using prod_cases4 by blast
    note L = rd_law [OF law n0 w]
    let ?b = "put (unat pos) bs buf"
    have "unat pos + length bs \<le> length buf" using L n less.prems(1) by linarith
    then have lb: "length ?b = length buf" by (rule length_put)
    have ret: "signed_take_bit 31 r = r" using L by (intro piece_small) simp_all
    have loop: "vfs_read_loop vfs_read (Some h) len pos off buf k = (if r < 0 then Some (r, ?b, k1) else if r = 0 then Some (- EIO, ?b, k1)
        else vfs_read_loop vfs_read (Some h) len (pos + word_of_int r) off' ?b k1)"
      unfolding unfold using True by (simp add: assms(2) w ret Let_def del: signed_take_bit_negative_iff)
    consider "r < 0" | "r = 0" | "0 < r" by linarith
    then show ?thesis
    proof cases
      case 1
      then have "\<not> (\<forall>n off k. 0 < n \<longrightarrow> 0 \<le> fst (rd n off k))" using w n0 by (metis fst_conv not_less)
      then show ?thesis using loop 1 L lb by (intro exI [of _ r] exI [of _ ?b] exI [of _ k1]) (simp only: if_True, simp)
    next
      case 2
      then have "length (content k) < unat off + unat (len - pos)" using L n0 by simp
      then show ?thesis using loop 2 L lb True by (intro exI [of _ "- EIO"] exI [of _ ?b] exI [of _ k1]) (simp add: EIO_def)
    next
      case 3
      have le: "r \<le> int (unat (len - pos))" using L by simp
      note A = pos_advance [OF True 3 le]
      have o: "unat (off + word_of_int r) = unat off + nat r" using off_advance [OF less.prems(3) _ le] 3 by simp
      let ?p = "pos + word_of_int r" and ?o = "off + word_of_int r"
      have step: "vfs_read_loop vfs_read (Some h) len pos off buf k = vfs_read_loop vfs_read (Some h) len ?p ?o ?b k1"
        using loop 3 L by simp
      have bs: "length bs = nat r" "bs = take (nat r) (drop (unat off) (content k))" "content k1 = content k" using L less_imp_le [OF 3] by blast+
      have sz: "unat off + nat r \<le> length (content k)" using bs(1) 3 unfolding bs(2) by simp
      have "unat (len - ?p) < unat (len - pos)" "unat ?o + unat (len - ?p) < 18446744073709551616" using A(2) o 3 le less.prems(3) by linarith+
      moreover have "length ?b = unat len" using lb less.prems(1) by simp
      ultimately obtain ret buf' k' where
        R: "vfs_read_loop vfs_read (Some h) len ?p ?o ?b k1 = Some (ret, buf', k')" "ret \<le> 0" "content k' = content k1" "length buf' = length ?b"
          "ret = 0 \<longrightarrow> buf' = take (unat ?p) ?b @ take (unat (len - ?p)) (drop (unat ?o) (content k1)) \<and> (?p < len \<longrightarrow> unat ?o + unat (len - ?p) \<le> length (content k1))"
          "(\<forall>n off k. 0 < n \<longrightarrow> 0 \<le> fst (rd n off k)) \<longrightarrow> ret = (if ?p < len \<and> length (content k1) < unat ?o + unat (len - ?p) then - EIO else 0)" using less.hyps [of ?p ?b ?o k1] A(3) by blast
      have sum: "unat ?o + unat (len - ?p) = unat off + unat (len - pos)" using A(2) o le 3 by linarith
      have pl: "?p < len \<or> unat (len - pos) = nat r" using A(2,3) le by (metis diff_self le_less nat_le_iff order_antisym_conv unat_0 zero_less_diff less_nat_zero_code not_less)
      have fin: "?p < len \<and> length (content k1) < unat ?o + unat (len - ?p) \<longleftrightarrow> length (content k) < unat off + unat (len - pos)"
        using pl sz bs(3) sum by auto
      have "take (unat ?p) ?b = take (unat pos) buf @ bs" using n le less.prems(1) bs(1) unfolding A(1) by (simp add: put_def)
      moreover have "bs @ take (unat (len - ?p)) (drop (unat ?o) (content k)) = take (unat (len - pos)) (drop (unat off) (content k))"
      proof -
        have "unat (len - pos) = nat r + unat (len - ?p)" using A(2) le by linarith
        then show ?thesis unfolding o using bs(2) by (simp add: take_add add.commute)
      qed
      moreover have "unat off + unat (len - pos) \<le> length (content k)" if "ret = 0" using R(5) that fin pl sz bs(3) sum by (metis not_less)
      ultimately show ?thesis unfolding step using R fin lb bs(3) True by (intro exI [of _ ret] exI [of _ buf'] exI [of _ k'] conjI) (auto simp del: vfs_read_loop.simps)
    qed
  qed
qed

section \<open>A file in memory\<close>

text \<open>A file whose calls transfer the data in pieces of prescribed sizes, and the whole rest when no size is prescribed.\<close>

record plain_file =
  fcontent :: bytes
  pieces :: "nat list"

definition piece :: "nat \<Rightarrow> plain_file \<Rightarrow> nat" where
  "piece n f = min n (min 2147483647 (case pieces f of [] \<Rightarrow> n | p # ps \<Rightarrow> Suc p))"

definition plain_read :: "nat \<Rightarrow> uint64_t \<Rightarrow> plain_file \<Rightarrow> int \<times> bytes \<times> uint64_t \<times> plain_file" where
  "plain_read n off f =
     (let bs = take (piece n f) (drop (unat off) (fcontent f)) in (int (length bs), bs, off + of_nat (length bs), f\<lparr>pieces := tl (pieces f)\<rparr>))"

definition plain_write :: "bytes \<Rightarrow> uint64_t \<Rightarrow> plain_file \<Rightarrow> int \<times> uint64_t \<times> plain_file" where
  "plain_write bs off f =
     (let n = piece (length bs) f in (int n, off + of_nat n, f\<lparr>fcontent := write_at (unat off) (take n bs) (fcontent f), pieces := tl (pieces f)\<rparr>))"

lemma piece_bounds: "piece n f \<le> n" "piece n f < 2147483648" "0 < n \<Longrightarrow> 0 < piece n f"
  by (auto simp: piece_def split: list.split)

lemma plain_law: "vfs_law plain_read plain_write fcontent"
  unfolding vfs_law_def
proof (intro conjI allI impI)
  fix n off k r bs off' k' assume n: "0 < n" and "plain_read n off k = (r, bs, off', k')"
  then have e: "bs = take (piece n k) (drop (unat off) (fcontent k))" "r = int (length bs)" "off' = off + of_nat (length bs)" "fcontent k' = fcontent k"
    by (auto simp: plain_read_def Let_def)
  show "fcontent k' = fcontent k" by (rule e(4))
  have l: "length bs \<le> piece n k" by (simp add: e(1))
  then show "length bs \<le> n" "r \<le> int n" "r < 2147483648" using piece_bounds(1,2) [of n k] by (simp_all add: e(2))
  show "- 4096 \<le> r" "length bs = nat r" "off' = off + word_of_int r" by (simp_all add: e(2,3))
  have "take (length (take m xs)) xs = take m xs" for m and xs :: bytes by (simp add: min_def)
  then show "bs = take (nat r) (drop (unat off) (fcontent k))" unfolding e(2) nat_int e(1) by metis
  show "length (fcontent k) \<le> unat off" if "r = 0" using that e(1,2) piece_bounds(3) [OF n, of k] by auto
next
  fix bs off k r off' k' assume n: "bs \<noteq> []" and "plain_write bs off k = (r, off', k')"
  then have e: "r = int (piece (length bs) k)" "off' = off + of_nat (piece (length bs) k)" "fcontent k' = write_at (unat off) (take (piece (length bs) k) bs) (fcontent k)"
    by (auto simp: plain_write_def Let_def)
  show "- 4096 \<le> r" "r \<le> int (length bs)" "r < 2147483648" "off' = off + word_of_int r" using piece_bounds(1,2) [of "length bs" k] by (simp_all add: e(1,2))
  show "fcontent k' = write_at (unat off) (take (nat r) bs) (fcontent k)" by (simp add: e(1,3))
qed

section \<open>Reading, writing and opening\<close>

lemma VfsFile_Read_exact:
  assumes law: "vfs_law (vfs_read h) (vfs_write h) content" and v: "FilePtr v = Some h" and lb: "length b = unat len" and off: "unat offset + unat len < 18446744073709551616"
  shows "\<exists>ret buf' k'. VfsFile_Read vfs_read offset b len k v = Some (ret, buf', k') \<and> content k' = content k \<and>
    (ret = Success \<longrightarrow> buf' = take (unat len) (drop (unat offset) (content k)) \<and> length buf' = unat len) \<and>
    ((\<forall>n off k. 0 < n \<longrightarrow> 0 \<le> fst (vfs_read h n off k)) \<longrightarrow> ret = (if 0 < len \<and> length (content k) < unat offset + unat len then - EIO else Success))"
proof -
  have o: "unat offset + unat (len - 0) < 18446744073709551616" using off by simp
  from vfs_read_loop_ok [where vfs_read = vfs_read and pos = 0, OF law refl lb word_coorder.extremum o, of k] obtain ret buf' k' where
    A: "vfs_read_loop vfs_read (Some h) len 0 offset b k = Some (ret, buf', k')" "content k' = content k" "length buf' = length b"
    "ret = 0 \<longrightarrow> buf' = take (unat (0 :: uint64_t)) b @ take (unat (len - 0)) (drop (unat offset) (content k)) \<and> (0 < len \<longrightarrow> unat offset + unat (len - 0) \<le> length (content k))"
    "(\<forall>n off k. 0 < n \<longrightarrow> 0 \<le> fst (vfs_read h n off k)) \<longrightarrow> ret = (if 0 < len \<and> length (content k) < unat offset + unat (len - 0) then - EIO else 0)"
    by (elim exE conjE) (rule that)
  show ?thesis
  proof (intro exI [of _ ret] exI [of _ buf'] exI [of _ k'] conjI impI)
    show "VfsFile_Read vfs_read offset b len k v = Some (ret, buf', k')" using A(1) v by (simp add: VfsFile_Read_def kapi_vfs_file_read_def)
    show "content k' = content k" by (rule A(2))
    show "length buf' = unat len" using A(3) lb by simp
    show "buf' = take (unat len) (drop (unat offset) (content k))" if "ret = Success" using A(4) that by (simp add: Success_def)
    show "ret = (if 0 < len \<and> length (content k) < unat offset + unat len then - EIO else Success)" if "\<forall>n off k. 0 < n \<longrightarrow> 0 \<le> fst (vfs_read h n off k)"
      using mp [OF A(5) that] unfolding Success_def diff_zero .
  qed
qed

lemma VfsFile_Write_exact:
  assumes law: "vfs_law (vfs_read h) (vfs_write h) content" and v: "FilePtr v = Some h" and len: "length buf = unat len" and off: "unat offset + unat len < 18446744073709551616"
  shows "\<exists>ret k' n. VfsFile_Write vfs_write offset buf len k v = Some (ret, k') \<and> content k' = write_at (unat offset) (take n buf) (content k) \<and>
    (ret = Success \<longrightarrow> take n buf = buf) \<and> ((\<forall>bs off k. bs \<noteq> [] \<longrightarrow> 0 < fst (vfs_write h bs off k)) \<longrightarrow> ret = Success)"
proof -
  have o: "unat offset + unat (len - 0) < 18446744073709551616" using off by simp
  from vfs_write_loop_ok [where vfs_write = vfs_write and pos = 0, OF law refl len word_coorder.extremum o, of k] obtain ret k' n where
    "vfs_write_loop vfs_write (Some h) buf len 0 offset k = Some (ret, k')" "ret = 0 \<longrightarrow> n = unat (len - 0)"
    "content k' = write_at (unat offset) (take n (drop (unat (0 :: uint64_t)) buf)) (content k)" "(\<forall>bs off k. bs \<noteq> [] \<longrightarrow> 0 < fst (vfs_write h bs off k)) \<longrightarrow> ret = 0" by blast
  then show ?thesis using len v by (intro exI [of _ ret] exI [of _ k'] exI [of _ n]) (simp add: VfsFile_Write_def kapi_vfs_file_write_def Success_def)
qed

lemma VfsFile_Open_read_only:
  "VfsFile_Open filp_open path read' create k make_VfsFile =
    (case filp_open path 0 0 k of
       (Inl rc, k) \<Rightarrow> if rc \<noteq> 0 then (rc, k, make_VfsFile) else (Success, k, make_VfsFile)
     | (Inr f, k) \<Rightarrow> (Success, k, \<lparr>FilePtr = Some f\<rparr>))"
  by (auto simp: VfsFile_Open_def kapi_vfs_file_open_def make_VfsFile_def KAPI_VFS_FILE_RDONLY_def KAPI_VFS_FILE_WRONLY_def KAPI_VFS_FILE_RDWR_def KAPI_VFS_FILE_CREAT_def
    KAPI_VFS_FILE_EXCL_def O_RDONLY_def O_WRONLY_def O_CREAT_def O_EXCL_def Let_def split: prod.splits sum.splits)

section \<open>Properties\<close>

text \<open>
  Claim C39. Transfers of files are exact, and files are opened read-only. Through an open file, \<open>Read\<close> and \<open>Write\<close> return for every way in which the kernel cuts the transfer. A read leaves the
  file as it is; when it succeeds the buffer holds exactly the bytes at the offset, and when the calls of the kernel do not fail it succeeds exactly if the file is long enough and reports an input error otherwise. A write
  that succeeds has stored the whole buffer, one that fails a part from the front, and when the kernel takes some data in each call it succeeds; reading back then gives the buffer. But \<open>Open\<close>
  asks the kernel for flags zero, which is read-only without creation, whatever its arguments are.
\<close>

theorem vfs_file_transfer:
  assumes law: "vfs_law (vfs_read h) (vfs_write h) content" and v: "FilePtr v = Some h" and len: "length buf = unat len" and off: "unat offset + unat len < 18446744073709551616"
  shows "(\<exists>ret buf' k'. VfsFile_Read vfs_read offset buf len k v = Some (ret, buf', k') \<and> content k' = content k \<and>
      (ret = Success \<longrightarrow> buf' = take (unat len) (drop (unat offset) (content k)) \<and> length buf' = unat len) \<and>
      ((\<forall>n off k. 0 < n \<longrightarrow> 0 \<le> fst (vfs_read h n off k)) \<longrightarrow> ret = (if 0 < len \<and> length (content k) < unat offset + unat len then - EIO else Success))) \<and>
    (\<exists>ret k' n. VfsFile_Write vfs_write offset buf len k v = Some (ret, k') \<and> content k' = write_at (unat offset) (take n buf) (content k) \<and>
      (ret = Success \<longrightarrow> take n buf = buf) \<and> ((\<forall>bs off k. bs \<noteq> [] \<longrightarrow> 0 < fst (vfs_write h bs off k)) \<longrightarrow> ret = Success)) \<and>
    (\<forall>k1 buf1 buf2 k3. VfsFile_Write vfs_write offset buf len k v = Some (Success, k1) \<and> length buf1 = unat len \<and> VfsFile_Read vfs_read offset buf1 len k1 v = Some (Success, buf2, k3) \<longrightarrow> buf2 = buf) \<and>
    VfsFile_Open filp_open path read' create k make_VfsFile =
      (case filp_open path 0 0 k of
         (Inl rc, k) \<Rightarrow> if rc \<noteq> 0 then (rc, k, make_VfsFile) else (Success, k, make_VfsFile)
       | (Inr f, k) \<Rightarrow> (Success, k, \<lparr>FilePtr = Some f\<rparr>))"
proof -
  note R = VfsFile_Read_exact [where vfs_read = vfs_read and vfs_write = vfs_write, OF law v _ off] and W = VfsFile_Write_exact [where vfs_read = vfs_read and vfs_write = vfs_write, OF law v len off, of k]
  have B: "buf2 = buf" if w: "VfsFile_Write vfs_write offset buf len k v = Some (Success, k1)" and "length buf1 = unat len"
    and r: "VfsFile_Read vfs_read offset buf1 len k1 v = Some (Success, buf2, k3)" for k1 buf1 buf2 k3
  proof -
    have "content k1 = write_at (unat offset) buf (content k)" using W w by auto
    moreover have "buf2 = take (unat len) (drop (unat offset) (content k1))" using R [OF that(2), of k1] r by auto
    ultimately show ?thesis using write_at_read [of buf "unat offset" "content k"] len by simp
  qed
  show ?thesis by (intro conjI R [OF len] W VfsFile_Open_read_only allI impI) (elim conjE, erule (2) B)
qed

text \<open>Four bytes are written behind the end of a file in pieces of one byte at least.\<close>

theorem vfs_file_transfer_witness:
  "\<exists>k. VfsFile_Write (\<lambda>_. plain_write) 3 [1, 2, 3, 4] 4 \<lparr>fcontent = [9], pieces = [0, 1]\<rparr> \<lparr>FilePtr = Some 7\<rparr> = Some (Success, k) \<and> fcontent k = [9, 0, 0, 1, 2, 3, 4]"
proof -
  let ?k = "\<lparr>fcontent = [9], pieces = [0, 1]\<rparr>" let ?v = "\<lparr>FilePtr = Some (7 :: nat)\<rparr>"
  have "\<forall>bs off k. bs \<noteq> [] \<longrightarrow> 0 < fst (plain_write bs off k)" using piece_bounds(3) by (auto simp: plain_write_def Let_def)
  moreover have "FilePtr ?v = Some 7" "length [1, 2, 3, 4 :: byte_t] = unat (4 :: uint64_t)" "unat (3 :: uint64_t) + unat (4 :: uint64_t) < 18446744073709551616" by simp_all
  ultimately obtain k n where "VfsFile_Write (\<lambda>_. plain_write) 3 [1, 2, 3, 4] 4 ?k ?v = Some (Success, k)"
      "fcontent k = write_at (unat (3 :: uint64_t)) (take n [1, 2, 3, 4]) (fcontent ?k)" "take n [1, 2, 3, 4] = [1, 2, 3, 4 :: byte_t]"
    using vfs_file_transfer [of "\<lambda>_. plain_read" 7 "\<lambda>_. plain_write" fcontent ?v "[1, 2, 3, 4]" 4 3 ?k, OF plain_law] by blast
  moreover have "replicate 2 x = [x, x]" for x :: byte_t by (simp add: numeral_2_eq_2)
  ultimately show ?thesis by (simp add: write_at_def)
qed

end
