(* ===== verification/Spec2Isabelle.thy ===== *)
theory Spec2Isabelle
  imports Btree_Map Memory_Utils Ring_Buffer Linked_List Hash_Table XX_Hash Bio Guid Journal_Tx Control_Device Shared_Ptr Block_Allocator Sha_256
    Unique_Ptr Malloc_Checker Page_Checker Kapi_Misc Vfs_File
begin

text \<open>
  This library models a storage module for the Linux kernel, written in C++ on a thin layer of C (the sources are under \<^verbatim>\<open>src\<close>), and proves what makes it correct.

  \<^bold>\<open>The program.\<close>
  The layer \<^verbatim>\<open>src/system\<close> wraps the calls of the kernel (\<^verbatim>\<open>kapi.c\<close>, \<^verbatim>\<open>ksocket.c\<close>) and holds the checkers of a debug build (\<^verbatim>\<open>malloc_checker.c\<close>,
  \<^verbatim>\<open>page_checker.c\<close>, \<^verbatim>\<open>unique_key.c\<close>). On it \<^verbatim>\<open>src/core\<close> builds containers, pointers, hashes, block requests, sockets and threads. The application
  \<^verbatim>\<open>src/kstor\<close> is a store of chunks on a block device: a volume with a header page and a journal of transactions behind it, a table of chunks in memory, a server that answers
  requests for chunks over TCP, and a control device through which all of this is mounted, started and tested.

  A request of a client arrives as a packet at a connection of the server, which calls the control device, which calls the volume. A write to the volume goes through the journal: a transaction
  collects data blocks, the thread of the journal writes a batch of transactions into free slots of the log and then the header that lists those slots, with a barrier between the two; afterwards the
  blocks are applied to their places. Loading the volume replays the log.

  \<^bold>\<open>Conventions.\<close>
  Machine integers are words of their width. A class is a record and a method a function that returns the changed record. Errors are values (\<open>err\<close>); a failed assertion, the use of freed
  memory and an access outside of a buffer are the result \<open>None\<close>, so a theorem with \<open>Some\<close> on the right says that none of them happens. Every allocation may fail: the list \<open>mem\<close> gives
  the outcomes in order. The kernel is a parameter with stated laws: the block device (\<open>io\<close>, locale \<open>block_layer\<close>), the network (the kernel record of \<open>Ksocket\<close>), fresh memory
  (\<open>junk\<close>), the random source, the byte order of the host. What runs under one lock is one step.

  Loops that end by the shape of their data are recursive functions with a termination proof. Loops whose end depends on an invariant or on the environment (descents in the tree, the restart of its deletion,
  the loops of sockets and files, the loop of a connection, walks over pointer lists) are partial functions into \<open>option\<close>, and the theorems prove that they return; no fuel is used anywhere. The numbers of
  hash buckets and of reserved slots are those of the source and are kept symbolic in the proofs.

  \<^bold>\<open>Containers.\<close>
  \<^item> \<open>Btree_Node\<close>, \<open>Btree_Shape\<close>, \<open>Btree_Ops\<close>, \<open>Btree_Balance\<close>, \<open>Btree\<close>, \<open>Btree_Delete\<close>, \<open>Btree_Map\<close>: the B-tree of \<^verbatim>\<open>core/btree.h\<close> with its
    arrays, splits, borrows and merges. The tree stays balanced and sorted, never panics, and refines a map; \<open>Btree_Test\<close> is its self-test from \<^verbatim>\<open>kstor/control_device.cpp\<close>.
  \<^item> \<open>Hash_Table\<close>: \<^verbatim>\<open>core/hash_table.h\<close>. \<open>Kv_Map\<close> is the contract that the tree and the table share; both interpret it.
  \<^item> \<open>List_Entry\<close>, \<open>Linked_List\<close>: the intrusive lists of \<^verbatim>\<open>core/list_entry\<close> in a heap of addresses and \<^verbatim>\<open>core/list.h\<close> on them, as deques with iterators.
  \<^item> \<open>Ring_Buffer\<close> (\<^verbatim>\<open>core/ring_buffer.h\<close>): the allocator of log slots. \<open>Vector\<close> (\<^verbatim>\<open>core/vector.h\<close>, \<^verbatim>\<open>core/random.cpp\<close>), \<open>AString\<close>
    (\<^verbatim>\<open>core/astring.h\<close>), \<open>Bitmap\<close> (\<^verbatim>\<open>core/bitmap.cpp\<close>), \<open>Memory_Utils\<close> (\<^verbatim>\<open>core/memory.h\<close>), \<open>Errors\<close> (\<^verbatim>\<open>core/error\<close>), \<open>Guid\<close>
    (\<^verbatim>\<open>kstor/guid\<close>).

  \<^bold>\<open>Pointers and checkers.\<close>
  \<^item> \<open>Shared_Ptr\<close>: the counted pointers of \<^verbatim>\<open>core/shared_ptr.h\<close> over an explicit heap. Every program of pointer operations is safe, and an object lives exactly as long as a pointer
    refers to it.
  \<^item> \<open>Hash_Buckets\<close>, \<open>Unique_Key\<close>, \<open>Unique_Ptr\<close>: the table of \<^verbatim>\<open>system/unique_key.c\<close> meets the contract \<open>key_registry\<close>, on which the ownership theorem of
    \<^verbatim>\<open>core/unique_ptr.h\<close> rests.
  \<^item> \<open>Malloc_Checker\<close>, \<open>Page_Checker\<close>: what the checkers find, that they raise no false alarm, and which leaks they report.
  \<^item> \<open>Kapi_Misc\<close>: the character devices of \<^verbatim>\<open>system/kapi.c\<close> with their reference counts, as a step relation of registrations, removals and requests that overlap.
  \<^item> \<open>Vfs_File\<close>: files (\<^verbatim>\<open>core/vfs_file.cpp\<close> on \<^verbatim>\<open>system/kapi.c\<close>). Transfers are exact however the kernel cuts them; opening is read-only by mistake.

  \<^bold>\<open>Hashes.\<close>
  \<^item> \<open>Streaming\<close> is the scheme of an incremental hash, a locale with one theorem on messages cut in pieces. \<open>XX_Hash\<close> (\<^verbatim>\<open>core/xxhash.cpp\<close>) and \<open>Sha_256\<close>
    (\<^verbatim>\<open>core/sha256.cpp\<close>) interpret it. \<open>Sha_Spec\<close> is the standard FIPS 180-4, written without the source; the class computes it.

  \<^bold>\<open>Disk.\<close>
  \<^item> \<open>Byte_Order\<close>, \<open>Layout\<close>: words and packed structures in memory (\<^verbatim>\<open>core/bitops.cpp\<close>, \<^verbatim>\<open>kstor/api.h\<close>), for hosts of both byte orders.
  \<^item> \<open>Bio\<close>: block requests (\<^verbatim>\<open>core/bio.h\<close>) and pages. The locale \<open>block_layer\<close> says what a device with a write cache promises, including what a power failure may leave; two
    devices interpret it, one of which fails at will. A submission with barrier is ordered before the failure of power.
  \<^item> \<open>Journal_Block\<close>, \<open>Journal\<close>, \<open>Journal_Replay\<close>, \<open>Journal_Commit\<close>, \<open>Journal_Flush\<close>, \<open>Journal_Tx\<close>: \<^verbatim>\<open>kstor/journal.cpp\<close>. A power failure at any
    moment of a pass of the thread leaves either the old content or the content with the whole batch; a pass answers every transaction; loading replays exactly the complete transactions of the log.
  \<^item> \<open>Volume\<close>, \<open>Volume_Journal\<close>, \<open>Volume_Remount\<close>: \<^verbatim>\<open>kstor/volume.cpp\<close>. Formatting, loading, the journal test and remounting. \<open>Chunk_Store\<close> is the contract of the table
    of chunks, met by the volume. \<open>Block_Allocator\<close> is the unfinished allocator of \<^verbatim>\<open>kstor/block_allocator.cpp\<close>.

  \<^bold>\<open>Network and control.\<close>
  \<^item> \<open>Ksocket\<close>, \<open>Socket\<close>: \<^verbatim>\<open>system/ksocket.c\<close> and \<^verbatim>\<open>core/socket.cpp\<close>. Transfers are exact however the stream is cut; sockets are closed once.
  \<^item> \<open>Packet\<close>, \<open>Server\<close>: the protocol of \<^verbatim>\<open>kstor/server.cpp\<close>. A session answers byte for byte like a map of chunks. \<open>Server_Threads\<close>, \<open>Server_Shutdown\<close>: starting,
    accepting and stopping with \<^verbatim>\<open>core/thread.cpp\<close>, with the states in which stopping never ends.
  \<^item> \<open>Control_Device\<close>: \<^verbatim>\<open>kstor/control_device.cpp\<close>: mounting, the commands of \<^verbatim>\<open>include/ctl.h\<close> and their results.

  \<^bold>\<open>Not modelled.\<close>
  The functions of \<^verbatim>\<open>system/kapi.c\<close> that hand their arguments to one kernel call, the wrappers of locks, atomics, events and block devices in \<^verbatim>\<open>core\<close>, the worker (nothing in
  \<^verbatim>\<open>kstor\<close> uses it), tracing, the entry points of the module, and the programs outside of the kernel (\<^verbatim>\<open>ctl\<close>, \<^verbatim>\<open>golang\<close>). Of the checkers the delayed freeing, which the
  build does not enable, and the stack traces, which are only printed, are left out. Interleavings are modelled where the code depends on them (the server threads, the stages of a transaction, the character devices); elsewhere
  the locks of the code make an operation one step.
\<close>

end
